(* ===== verification/Prelude.thy ===== *)
theory Prelude
  imports Complex_Main "HOL-Library.AList" "HOL-Library.Multiset"
begin

text \<open>
  What every component of the development shares: Python strings as lists of code points with the
  \<^verbatim>\<open>str\<close> methods the program calls, Python dictionaries as association lists in insertion order,
  raised exceptions as the left side of a sum, and the lemma collections the component theories
  extend.
\<close>

named_theorems dict_simps \<open>lookup, update and deletion of dictionaries\<close>
named_theorems ustr_simps \<open>equations of the string methods\<close>

section \<open>Raised exceptions\<close>

text \<open>A raising Python call is the value \<open>Inl e\<close>; the string is the message of the source.\<close>

datatype pyerr =
    ValueError string
  | TypeError string
  | RuntimeError string
  | IndexError string
  | PermissionError string
  | OverflowError string
  | KeyError string
  | AssertionError string
  | TimeoutError string
  | CancelledError string
  | OtherError string

definition bindE :: "('e + 'a) \<Rightarrow> ('a \<Rightarrow> 'e + 'b) \<Rightarrow> ('e + 'b)" where
  "bindE m f = (case m of Inl e \<Rightarrow> Inl e | Inr x \<Rightarrow> f x)"

lemma bindE_simps [simp]:
  "bindE (Inl e) f = Inl e"
  "bindE (Inr x) f = f x"
  by (simp_all add: bindE_def)

lemma bindE_eq_Inr: "bindE m f = Inr y \<longleftrightarrow> (\<exists>x. m = Inr x \<and> f x = Inr y)"
  by (cases m) auto

lemma bindE_eq_Inl: "bindE m f = Inl e \<longleftrightarrow> m = Inl e \<or> (\<exists>x. m = Inr x \<and> f x = Inl e)"
  by (cases m) auto

lemma bindE_cong [fundef_cong]:
  "m = m' \<Longrightarrow> (\<And>x. m' = Inr x \<Longrightarrow> f x = f' x) \<Longrightarrow> bindE m f = bindE m' f'"
  by (cases m') auto

lemma bindE_Inr_E:
  assumes "bindE m f = Inr y"
  obtains x where "m = Inr x" "f x = Inr y"
  using assms by (auto simp: bindE_eq_Inr)

text \<open>A list comprehension or loop whose body may raise: the first error stops it.\<close>

fun mapE :: "('a \<Rightarrow> 'e + 'b) \<Rightarrow> 'a list \<Rightarrow> 'e + 'b list" where
  "mapE f [] = Inr []"
| "mapE f (x # xs) = bindE (f x) (\<lambda>y. bindE (mapE f xs) (\<lambda>ys. Inr (y # ys)))"

lemma mapE_cong [fundef_cong]:
  assumes "xs = ys" "\<And>x. x \<in> set ys \<Longrightarrow> f x = g x"
  shows "mapE f xs = mapE g ys"
proof -
  have "mapE f ys = mapE g ys" using assms(2) by (induction ys) simp_all
  then show ?thesis using assms(1) by simp
qed

lemma mapE_Inr_length: "mapE f xs = Inr ys \<Longrightarrow> length ys = length xs"
  by (induction xs arbitrary: ys) (auto simp: bindE_eq_Inr)

lemma mapE_Inr_list_all2: "mapE f xs = Inr ys \<Longrightarrow> list_all2 (\<lambda>x y. f x = Inr y) xs ys"
  by (induction xs arbitrary: ys) (auto simp: bindE_eq_Inr)

lemma mapE_Inr_set: "mapE f xs = Inr ys \<Longrightarrow> y \<in> set ys \<Longrightarrow> \<exists>x\<in>set xs. f x = Inr y"
  by (induction xs arbitrary: ys) (auto simp: bindE_eq_Inr)

lemma mapE_all_Inr: "(\<And>x. x \<in> set xs \<Longrightarrow> f x = Inr (g x)) \<Longrightarrow> mapE f xs = Inr (map g xs)"
  by (induction xs) auto

lemma mapE_ex_Inl: "(\<exists>e. mapE f xs = Inl e) \<longleftrightarrow> (\<exists>x\<in>set xs. \<exists>e. f x = Inl e)"
proof (induction xs)
  case (Cons a xs)
  then show ?case by (cases "f a"; cases "mapE f xs") auto
qed simp

section \<open>Python strings\<close>

text \<open>A string is the list of its code points; \<open>U\<close> turns a literal into one.\<close>

type_synonym uchar = nat
type_synonym ustr = "uchar list"

definition U :: "string \<Rightarrow> ustr" where
  "U s = map of_char s"

lemma U_simps [simp, ustr_simps]:
  "U [] = []"
  "U (c # s) = of_char c # U s"
  by (simp_all add: U_def)

lemma U_append: "U (s @ t) = U s @ U t"
  by (simp add: U_def)

lemma U_eq_iff [simp]: "U s = U t \<longleftrightarrow> s = t"
proof
  assume "U s = U t"
  moreover have "inj (of_char :: char \<Rightarrow> nat)"
    by (simp add: inj_def)
  ultimately show "s = t"
    unfolding U_def by (simp add: inj_map_eq_map)
qed simp

text \<open>\<^verbatim>\<open>str.isspace\<close> of one character: the white space of the Unicode database.\<close>

definition uspace :: "uchar \<Rightarrow> bool" where
  "uspace c \<longleftrightarrow> 9 \<le> c \<and> c \<le> 13 \<or> 28 \<le> c \<and> c \<le> 32 \<or> c = 133 \<or> c = 160 \<or> c = 5760
     \<or> 8192 \<le> c \<and> c \<le> 8202 \<or> c = 8232 \<or> c = 8233 \<or> c = 8239 \<or> c = 8287 \<or> c = 12288"

text \<open>\<^verbatim>\<open>str.strip()\<close>, \<^verbatim>\<open>str.lstrip()\<close> and \<^verbatim>\<open>str.rstrip()\<close> without argument.\<close>

definition lstrip :: "ustr \<Rightarrow> ustr" where
  "lstrip s = dropWhile uspace s"

definition rstrip :: "ustr \<Rightarrow> ustr" where
  "rstrip s = rev (dropWhile uspace (rev s))"

definition strip :: "ustr \<Rightarrow> ustr" where
  "strip s = rstrip (lstrip s)"

definition startswith :: "ustr \<Rightarrow> ustr \<Rightarrow> bool" where
  "startswith s p \<longleftrightarrow> take (length p) s = p"

text \<open>\<^verbatim>\<open>str.split()\<close>: the maximal runs of characters that are not white space.\<close>

function usplit :: "ustr \<Rightarrow> ustr list" where
  "usplit s =
     (case lstrip s of
        [] \<Rightarrow> []
      | c # r \<Rightarrow> (c # takeWhile (\<lambda>x. \<not> uspace x) r) # usplit (dropWhile (\<lambda>x. \<not> uspace x) r))"
  by pat_completeness auto
termination
proof (relation "measure length")
  fix s c r
  assume "lstrip s = c # (r :: ustr)"
  then have "Suc (length r) \<le> length s"
    by (metis length_dropWhile_le list.size(4) lstrip_def One_nat_def add.right_neutral add_Suc_right)
  moreover have "length (dropWhile (\<lambda>x. \<not> uspace x) r) \<le> length r"
    by (rule length_dropWhile_le)
  ultimately show "(dropWhile (\<lambda>x. \<not> uspace x) r, s) \<in> measure length" by simp
qed simp

declare usplit.simps [simp del]

text \<open>
  \<^verbatim>\<open>str.split(maxsplit=1)\<close>: the first word, and the rest with its leading white space removed when
  that rest is not empty.
\<close>

definition usplit1 :: "ustr \<Rightarrow> ustr list" where
  "usplit1 s =
     (case lstrip s of
        [] \<Rightarrow> []
      | c # r \<Rightarrow>
          (let word = c # takeWhile (\<lambda>x. \<not> uspace x) r;
               rest = lstrip (dropWhile (\<lambda>x. \<not> uspace x) r)
           in if rest = [] then [word] else [word, rest]))"

text \<open>\<^verbatim>\<open>sep.join(parts)\<close>.\<close>

fun ujoin :: "ustr \<Rightarrow> ustr list \<Rightarrow> ustr" where
  "ujoin sep [] = []"
| "ujoin sep [x] = x"
| "ujoin sep (x # y # zs) = x @ sep @ ujoin sep (y # zs)"

text \<open>
  \<^verbatim>\<open>str.isdecimal\<close> and the value of a decimal digit: the Unicode category Nd is the union of runs
  of ten code points, each starting at a zero.
\<close>

definition decimal_zeros :: "uchar list" where
  "decimal_zeros =
     [48, 1632, 1776, 1984, 2406, 2534, 2662, 2790, 2918, 3046, 3174, 3302, 3430, 3558, 3664, 3792,
      3872, 4160, 4240, 6112, 6160, 6470, 6608, 6784, 6800, 6992, 7088, 7232, 7248, 42528, 43216,
      43264, 43472, 43504, 43600, 44016, 65296, 66720, 68912, 69734, 69872, 69942, 70096, 70384,
      70736, 70864, 71248, 71360, 71472, 71904, 72016, 72784, 73040, 73120, 92768, 92864, 93008,
      120782, 120792, 120802, 120812, 120822, 123200, 123632, 125264, 130032]"

definition digit_value :: "uchar \<Rightarrow> nat option" where
  "digit_value c = map_option (\<lambda>z. c - z) (find (\<lambda>z. z \<le> c \<and> c < z + 10) decimal_zeros)"

definition isdecimal :: "ustr \<Rightarrow> bool" where
  "isdecimal s \<longleftrightarrow> s \<noteq> [] \<and> list_all (\<lambda>c. digit_value c \<noteq> None) s"

definition isascii :: "ustr \<Rightarrow> bool" where
  "isascii s \<longleftrightarrow> list_all (\<lambda>c. c < 128) s"

definition digits_value :: "ustr \<Rightarrow> int" where
  "digits_value s = foldl (\<lambda>n c. 10 * n + int (case digit_value c of Some d \<Rightarrow> d | None \<Rightarrow> 0)) 0 s"

text \<open>
  \<^verbatim>\<open>int(s)\<close> of a string of decimal digits. The interpreter refuses more than
  \<^verbatim>\<open>sys.int_info.default_max_str_digits\<close> digits with a \<^verbatim>\<open>ValueError\<close>.
\<close>

definition int_max_str_digits :: nat where
  "int_max_str_digits = 4300"

definition int_of_digits :: "ustr \<Rightarrow> pyerr + int" where
  "int_of_digits s =
     (if length s > int_max_str_digits then Inl (ValueError ''Exceeds the limit for integer string conversion'')
      else Inr (digits_value s))"

lemma digit_value_bound: "digit_value c = Some d \<Longrightarrow> d < 10"
  by (auto simp: digit_value_def find_Some_iff)

lemma digits_value_nonneg: "0 \<le> digits_value s"
proof -
  have "0 \<le> n \<Longrightarrow> 0 \<le> foldl (\<lambda>n c. 10 * n + int (case digit_value c of Some d \<Rightarrow> d | None \<Rightarrow> 0)) n s"
    for n :: int
    by (induction s arbitrary: n) auto
  then show ?thesis by (simp add: digits_value_def)
qed

text \<open>\<^verbatim>\<open>str(n)\<close> of an integer.\<close>

fun nat_str :: "nat \<Rightarrow> ustr" where
  "nat_str n = (if n < 10 then [48 + n] else nat_str (n div 10) @ [48 + n mod 10])"

declare nat_str.simps [simp del]

definition int_str :: "int \<Rightarrow> ustr" where
  "int_str i = (if i < 0 then 45 # nat_str (nat (- i)) else nat_str (nat i))"

lemma nat_str_nonempty [simp]: "nat_str n \<noteq> []"
  by (subst nat_str.simps) simp

lemma int_str_nonempty [simp]: "int_str i \<noteq> []"
  by (simp add: int_str_def)

section \<open>Lemmas on the string methods\<close>

lemma lstrip_simps [ustr_simps]:
  "lstrip [] = []"
  "uspace c \<Longrightarrow> lstrip (c # s) = lstrip s"
  "\<not> uspace c \<Longrightarrow> lstrip (c # s) = c # s"
  by (simp_all add: lstrip_def)

lemma lstrip_hd: "lstrip s = c # r \<Longrightarrow> \<not> uspace c"
  by (metis hd_dropWhile list.distinct(1) list.sel(1) lstrip_def)

lemma rstrip_last: "rstrip s \<noteq> [] \<Longrightarrow> \<not> uspace (last (rstrip s))"
  by (metis hd_dropWhile hd_rev rev_is_Nil_conv rstrip_def rev_rev_ident)

lemma lstrip_idem [simp]: "lstrip (lstrip s) = lstrip s"
  by (simp add: lstrip_def)

lemma lstrip_id: "s = [] \<or> \<not> uspace (hd s) \<Longrightarrow> lstrip s = s"
  by (cases s) (auto simp: lstrip_def)

lemma rstrip_id: "s = [] \<or> \<not> uspace (last s) \<Longrightarrow> rstrip s = s"
proof (cases s rule: rev_cases)
  case (snoc xs x)
  assume "s = [] \<or> \<not> uspace (last s)"
  with snoc show ?thesis by (simp add: rstrip_def)
qed (simp add: rstrip_def)

lemma rstrip_prefix: "\<exists>t. s = rstrip s @ t \<and> list_all uspace t"
proof -
  have "rev s = takeWhile uspace (rev s) @ dropWhile uspace (rev s)" by simp
  then have "s = rev (dropWhile uspace (rev s)) @ rev (takeWhile uspace (rev s))"
    by (metis rev_append rev_rev_ident)
  moreover have "list_all uspace (rev (takeWhile uspace (rev s)))"
    by (auto simp: list_all_iff dest: set_takeWhileD)
  ultimately show ?thesis unfolding rstrip_def by blast
qed

lemma lstrip_suffix: "\<exists>t. s = t @ lstrip s \<and> list_all uspace t"
proof -
  have "s = takeWhile uspace s @ dropWhile uspace s" by simp
  moreover have "list_all uspace (takeWhile uspace s)"
    by (auto simp: list_all_iff dest: set_takeWhileD)
  ultimately show ?thesis unfolding lstrip_def by blast
qed

lemma strip_hd: "strip s = c # r \<Longrightarrow> \<not> uspace c"
proof -
  assume a: "strip s = c # r"
  obtain t where "lstrip s = strip s @ t"
    using rstrip_prefix [of "lstrip s"] by (auto simp: strip_def)
  then have "lstrip s = c # (r @ t)" using a by simp
  then show ?thesis by (rule lstrip_hd)
qed

lemma strip_last: "strip s \<noteq> [] \<Longrightarrow> \<not> uspace (last (strip s))"
  by (simp add: strip_def rstrip_last)

lemma strip_id: "s = [] \<or> \<not> uspace (hd s) \<and> \<not> uspace (last s) \<Longrightarrow> strip s = s"
  by (metis lstrip_id rstrip_id strip_def)

lemma strip_idem [simp]: "strip (strip s) = strip s"
proof (rule strip_id, cases "strip s")
  case (Cons c r)
  then show "strip s = [] \<or> \<not> uspace (hd (strip s)) \<and> \<not> uspace (last (strip s))"
    using strip_hd strip_last by (metis list.distinct(1) list.sel(1))
qed simp

lemma lstrip_eq_Nil: "lstrip s = [] \<longleftrightarrow> list_all uspace s"
  by (simp add: lstrip_def list_all_iff)

lemma strip_eq_Nil: "strip s = [] \<longleftrightarrow> list_all uspace s"
proof
  assume "strip s = []"
  then obtain t where "lstrip s = t" "list_all uspace t"
    using rstrip_prefix [of "lstrip s"] by (auto simp: strip_def)
  then have "lstrip s = []" using lstrip_hd by (cases "lstrip s") auto
  then show "list_all uspace s" by (simp add: lstrip_eq_Nil)
next
  assume "list_all uspace s"
  then have "lstrip s = []" by (simp add: lstrip_eq_Nil)
  then show "strip s = []" by (simp add: strip_def rstrip_def)
qed

lemma startswith_append [simp]: "startswith (p @ s) p"
  by (simp add: startswith_def)

lemma startswith_iff: "startswith s p \<longleftrightarrow> (\<exists>r. s = p @ r)"
proof
  assume "startswith s p"
  then have "s = p @ drop (length p) s"
    by (metis append_take_drop_id startswith_def)
  then show "\<exists>r. s = p @ r" ..
qed (auto simp: startswith_def)

lemma startswith_drop: "startswith s p \<Longrightarrow> s = p @ drop (length p) s"
  by (metis append_take_drop_id startswith_def)

lemma startswith_Nil [simp]: "startswith s []"
  by (simp add: startswith_def)

lemma length_dropWhile_less: "length (dropWhile P xs) < Suc (length xs)"
  by (simp add: less_Suc_eq_le length_dropWhile_le)

section \<open>Dictionaries\<close>

text \<open>
  A \<^verbatim>\<open>dict\<close> is an association list in insertion order with distinct keys: assignment to a known key
  keeps its place, to a new key appends, and \<^verbatim>\<open>del\<close> closes the gap. These are the operations of
  \<open>HOL-Library.AList\<close>.
\<close>

type_synonym ('k, 'v) dict = "('k \<times> 'v) list"

abbreviation dget :: "('k, 'v) dict \<Rightarrow> 'k \<Rightarrow> 'v option" where
  "dget \<equiv> map_of"

abbreviation dset :: "'k \<Rightarrow> 'v \<Rightarrow> ('k, 'v) dict \<Rightarrow> ('k, 'v) dict" where
  "dset \<equiv> AList.update"

abbreviation ddel :: "'k \<Rightarrow> ('k, 'v) dict \<Rightarrow> ('k, 'v) dict" where
  "ddel \<equiv> AList.delete"

abbreviation dkeys :: "('k, 'v) dict \<Rightarrow> 'k list" where
  "dkeys d \<equiv> map fst d"

abbreviation dict_ok :: "('k, 'v) dict \<Rightarrow> bool" where
  "dict_ok d \<equiv> distinct (map fst d)"

lemma dget_dset [simp, dict_simps]: "dget (dset k v d) = (dget d)(k \<mapsto> v)"
  by (rule AList.update_conv')

lemma dget_ddel [simp, dict_simps]: "dget (ddel k d) = (dget d)(k := None)"
  by (rule AList.delete_conv')

lemma dset_new: "k \<notin> fst ` set xs \<Longrightarrow> dset k w xs = xs @ [(k, w)]"
  by (induction xs) auto

lemma dict_ok_dset [intro, dict_simps]: "dict_ok d \<Longrightarrow> dict_ok (dset k v d)"
  by (rule AList.distinct_update)

lemma dict_ok_ddel [intro, dict_simps]: "dict_ok d \<Longrightarrow> dict_ok (ddel k d)"
  by (rule AList.distinct_delete)

lemma set_dkeys_dset: "set (dkeys (dset k v d)) = insert k (set (dkeys d))"
  by (simp add: AList.dom_update)

lemma set_dkeys_ddel: "set (dkeys (ddel k d)) = set (dkeys d) - {k}"
  by (auto simp: AList.delete_eq)

lemma dget_None_iff: "dget d k = None \<longleftrightarrow> k \<notin> set (dkeys d)"
  by (simp add: map_of_eq_None_iff)

text \<open>
  The interface the components rely on when they store something under a key; the dictionary of the
  program provides it, and so does any table with these laws.
\<close>

locale table =
  fixes lookup :: "'t \<Rightarrow> 'k \<Rightarrow> 'v option"
    and store :: "'k \<Rightarrow> 'v \<Rightarrow> 't \<Rightarrow> 't"
    and remove :: "'k \<Rightarrow> 't \<Rightarrow> 't"
    and ok :: "'t \<Rightarrow> bool"
  assumes lookup_store: "lookup (store k v t) k' = (if k' = k then Some v else lookup t k')"
    and lookup_remove: "lookup (remove k t) k' = (if k' = k then None else lookup t k')"
    and ok_store: "ok t \<Longrightarrow> ok (store k v t)"
    and ok_remove: "ok t \<Longrightarrow> ok (remove k t)"
begin

lemma lookup_store_same [simp]: "lookup (store k v t) k = Some v"
  by (simp add: lookup_store)

lemma lookup_store_other: "k' \<noteq> k \<Longrightarrow> lookup (store k v t) k' = lookup t k'"
  by (simp add: lookup_store)

lemma lookup_remove_same [simp]: "lookup (remove k t) k = None"
  by (simp add: lookup_remove)

lemma lookup_remove_other: "k' \<noteq> k \<Longrightarrow> lookup (remove k t) k' = lookup t k'"
  by (simp add: lookup_remove)

lemma lookup_remove_store: "lookup (remove k (store k v t)) = lookup (remove k t)"
  by (rule ext) (simp add: lookup_store lookup_remove)

text \<open>Removing several keys in a row, as the bulk operations of the program do.\<close>

lemma lookup_fold_remove:
  "lookup (fold remove ks t) k = (if k \<in> set ks then None else lookup t k)"
  by (induction ks arbitrary: t) (auto simp: lookup_remove)

lemma ok_fold_remove: "ok t \<Longrightarrow> ok (fold remove ks t)"
  by (induction ks arbitrary: t) (auto intro: ok_remove)

end

interpretation pydict: table dget dset ddel dict_ok
  by unfold_locales (auto intro: AList.distinct_update AList.distinct_delete)

section \<open>Numbers\<close>

text \<open>
  A Python \<^verbatim>\<open>float\<close> is a real number, an infinity or not a number. Rounding is not modelled.
\<close>

datatype pyfloat = Fin real | PosInf | NegInf | NaN

definition isfinite :: "pyfloat \<Rightarrow> bool" where
  "isfinite x = (case x of Fin _ \<Rightarrow> True | _ \<Rightarrow> False)"

lemma isfinite_iff: "isfinite x \<longleftrightarrow> (\<exists>r. x = Fin r)"
  by (cases x) (auto simp: isfinite_def)

text \<open>\<^verbatim>\<open>max(0, n)\<close> and \<^verbatim>\<open>max(1, n)\<close> of an integer, as a natural number.\<close>

lemma nat_max_0: "int (nat (max 0 n)) = max 0 n"
  by simp

section \<open>Lists\<close>

lemma sum_list_map_update:
  fixes f :: "'a \<Rightarrow> nat"
  shows "i < length xs \<Longrightarrow> sum_list (map f (xs[i := x])) + f (xs ! i) = sum_list (map f xs) + f x"
proof (induction xs arbitrary: i)
  case (Cons a xs)
  then show ?case by (cases i) (simp, fastforce)
qed simp

lemma filter_remove1_neq: "filter P (remove1 x xs) = remove1 x (filter P xs)"
  by (rule filter_remove1)

lemma length_filter_le_count: "length (filter P xs) \<le> length xs"
  by (rule length_filter_le)

section \<open>Bytes\<close>

type_synonym bytes = "nat list"

text \<open>\<^verbatim>\<open>str.encode("utf-8")\<close>: a lone surrogate has no encoding.\<close>

definition utf8_char :: "uchar \<Rightarrow> bytes" where
  "utf8_char c =
     (if c < 128 then [c]
      else if c < 2048 then [192 + c div 64, 128 + c mod 64]
      else if c < 65536 then [224 + c div 4096, 128 + c div 64 mod 64, 128 + c mod 64]
      else [240 + c div 262144, 128 + c div 4096 mod 64, 128 + c div 64 mod 64, 128 + c mod 64])"

definition utf8_encode :: "ustr \<Rightarrow> pyerr + bytes" where
  "utf8_encode s =
     (if list_ex (\<lambda>c. 55296 \<le> c \<and> c < 57344) s then Inl (ValueError ''surrogates not allowed'')
      else Inr (concat (map utf8_char s)))"

end
