(* ===== verification/Session_Data.thy ===== *)
theory Session_Data
  imports Prelude
begin

text \<open>
  The bounded clone of session data (\<^verbatim>\<open>core/session.py\<close>, \<^verbatim>\<open>_clone_session_value\<close>). Session data are
  Python objects with identity: containers may be shared, mutated and cyclic, so the model has an
  explicit store from addresses to objects. The lemmas show that a successful clone only ever
  succeeds on a finite tree of built-in values within the limits, denotes the same tree and shares
  no object with the original, and that it succeeds on every such tree.
\<close>

section \<open>Objects, the store and the clone\<close>

text \<open>
  Scalars are immutable and compared by value; a container is a reference. \<open>OOther\<close> is an object of
  any other type, including subclasses of the built-in ones.
\<close>

type_synonym addr = nat

datatype hval =
    HNone
  | HBool bool
  | HInt int
  | HFloat pyfloat
  | HStr ustr
  | HBytes "nat list"
  | HRef addr

datatype hobj =
    ODict "(hval \<times> hval) list"
  | OList "hval list"
  | OTuple "hval list"
  | OOther

type_synonym heap = "addr \<Rightarrow> hobj option"

definition max_session_data_depth :: nat where
  "max_session_data_depth = 64"

definition max_session_data_nodes :: nat where
  "max_session_data_nodes = 100000"

text \<open>What one clone threads through its calls: the store with its next free address, and the
  arguments \<open>memo\<close>, \<open>active\<close> and \<open>nodes\<close>, which the code mutates.\<close>

record clone_state =
  store :: heap
  next_addr :: addr
  memo :: "addr \<Rightarrow> hval option"
  active :: "addr set"
  nodes :: nat

definition err_nodes :: pyerr where
  "err_nodes = ValueError ''session data exceeds the node limit''"
definition err_depth :: pyerr where
  "err_depth = ValueError ''session data exceeds the nesting limit''"
definition err_type :: pyerr where
  "err_type = TypeError ''session data values must use built-in dict, list, tuple, str, bytes, int, float, bool, or None''"
definition err_cycle :: pyerr where
  "err_cycle = ValueError ''session data must not contain reference cycles''"
definition err_key :: pyerr where
  "err_key = TypeError ''session data mapping keys must be strings''"

text \<open>
  \<open>clone_value\<close> is \<^verbatim>\<open>_clone_session_value\<close>; the other three are its loops over the items of a
  dictionary, a list and a tuple. A dictionary or a list is entered in the memo before its items, and
  filled at its new address; a tuple after them.
\<close>

function clone_value :: "hval \<Rightarrow> nat \<Rightarrow> clone_state \<Rightarrow> pyerr + (hval \<times> clone_state)"
  and clone_dict_items ::
    "(hval \<times> hval) list \<Rightarrow> addr \<Rightarrow> nat \<Rightarrow> clone_state \<Rightarrow> pyerr + clone_state"
  and clone_list_items :: "hval list \<Rightarrow> addr \<Rightarrow> nat \<Rightarrow> clone_state \<Rightarrow> pyerr + clone_state"
  and clone_tuple_items ::
    "hval list \<Rightarrow> nat \<Rightarrow> clone_state \<Rightarrow> pyerr + (hval list \<times> clone_state)"
where
  "clone_value v depth s0 =
     (let s = s0\<lparr>nodes := Suc (nodes s0)\<rparr> in
      if nodes s > max_session_data_nodes then Inl err_nodes
      else if depth > max_session_data_depth then Inl err_depth
      else case v of
        HRef a \<Rightarrow>
          (case store s a of
             None \<Rightarrow> Inl err_type
           | Some OOther \<Rightarrow> Inl err_type
           | Some obj \<Rightarrow>
               if a \<in> active s then Inl err_cycle
               else (case memo s a of
                 Some w \<Rightarrow> Inr (w, s)
               | None \<Rightarrow>
                   (let s1 = s\<lparr>active := insert a (active s)\<rparr>; c = next_addr s1 in
                    case obj of
                      ODict items \<Rightarrow>
                        bindE (clone_dict_items items c (Suc depth)
                                (s1\<lparr>store := (store s1)(c \<mapsto> ODict []), next_addr := Suc c,
                                    memo := (memo s1)(a \<mapsto> HRef c)\<rparr>))
                          (\<lambda>s2. Inr (HRef c, s2\<lparr>active := active s2 - {a}\<rparr>))
                    | OList items \<Rightarrow>
                        bindE (clone_list_items items c (Suc depth)
                                (s1\<lparr>store := (store s1)(c \<mapsto> OList []), next_addr := Suc c,
                                    memo := (memo s1)(a \<mapsto> HRef c)\<rparr>))
                          (\<lambda>s2. Inr (HRef c, s2\<lparr>active := active s2 - {a}\<rparr>))
                    | OTuple items \<Rightarrow>
                        bindE (clone_tuple_items items (Suc depth) s1)
                          (\<lambda>(ws, s2). (let c = next_addr s2 in
                             Inr (HRef c, s2\<lparr>store := (store s2)(c \<mapsto> OTuple ws), next_addr := Suc c,
                                   memo := (memo s2)(a \<mapsto> HRef c), active := active s2 - {a}\<rparr>)))
                    | OOther \<Rightarrow> Inl err_type)))
      | _ \<Rightarrow> Inr (v, s))"
| "clone_dict_items [] c depth s = Inr s"
| "clone_dict_items ((k, v) # items) c depth s =
     (case k of
        HStr _ \<Rightarrow>
          bindE (clone_value v depth s)
            (\<lambda>(w, s1). clone_dict_items items c depth
               (s1\<lparr>store := (store s1)(c \<mapsto>
                    (case store s1 c of
                       Some (ODict done) \<Rightarrow> ODict (dset k w done)
                     | _ \<Rightarrow> ODict [(k, w)]))\<rparr>))
      | _ \<Rightarrow> Inl err_key)"
| "clone_list_items [] c depth s = Inr s"
| "clone_list_items (v # items) c depth s =
     bindE (clone_value v depth s)
       (\<lambda>(w, s1). clone_list_items items c depth
          (s1\<lparr>store := (store s1)(c \<mapsto>
               (case store s1 c of
                  Some (OList done) \<Rightarrow> OList (done @ [w])
                | _ \<Rightarrow> OList [w]))\<rparr>))"
| "clone_tuple_items [] depth s = Inr ([], s)"
| "clone_tuple_items (v # items) depth s =
     bindE (clone_value v depth s)
       (\<lambda>(w, s1). bindE (clone_tuple_items items depth s1) (\<lambda>(ws, s2). Inr (w # ws, s2)))"
  by pat_completeness auto
termination
  by (relation "measures
       [\<lambda>x. case x of Inl (Inl (v, d, s)) \<Rightarrow> 66 - d | Inl (Inr (is, c, d, s)) \<Rightarrow> 66 - d
             | Inr (Inl (is, c, d, s)) \<Rightarrow> 66 - d | Inr (Inr (is, d, s)) \<Rightarrow> 66 - d,
        \<lambda>x. case x of Inl (Inl (v, d, s)) \<Rightarrow> 0 | Inl (Inr (is, c, d, s)) \<Rightarrow> Suc (length is)
             | Inr (Inl (is, c, d, s)) \<Rightarrow> Suc (length is) | Inr (Inr (is, d, s)) \<Rightarrow> Suc (length is)]")
     (auto simp: max_session_data_depth_def)

declare clone_value.simps [simp del]

text \<open>
  \<^verbatim>\<open>_clone_session_data\<close>: the clone of one dictionary from fresh arguments. The result is the new
  reference, the store with the copy in it and the next free address.
\<close>

definition init_clone :: "heap \<Rightarrow> addr \<Rightarrow> clone_state" where
  "init_clone h n = \<lparr>store = h, next_addr = n, memo = (\<lambda>_. None), active = {}, nodes = 0\<rparr>"

definition clone_session_data :: "heap \<Rightarrow> addr \<Rightarrow> hval \<Rightarrow> pyerr + (hval \<times> heap \<times> addr)" where
  "clone_session_data h n v =
     bindE (clone_value v 0 (init_clone h n))
       (\<lambda>(w, s). case w of
          HRef c \<Rightarrow> (case store s c of
                      Some (ODict _) \<Rightarrow> Inr (w, store s, next_addr s)
                    | _ \<Rightarrow> Inl (TypeError ''session data must be a dict''))
        | _ \<Rightarrow> Inl (TypeError ''session data must be a dict''))"

section \<open>What a value denotes\<close>

text \<open>
  The tree a value stands for in a store. Only finite, acyclic data with string keys denote a tree,
  and the tree is unique.
\<close>

datatype stree =
    SNone
  | SBool bool
  | SInt int
  | SFloat pyfloat
  | SStr ustr
  | SBytes "nat list"
  | SDict "(ustr \<times> stree) list"
  | SList "stree list"
  | STuple "stree list"

fun denotes :: "heap \<Rightarrow> hval \<Rightarrow> stree \<Rightarrow> bool" where
  "denotes h v SNone = (v = HNone)"
| "denotes h v (SBool b) = (v = HBool b)"
| "denotes h v (SInt i) = (v = HInt i)"
| "denotes h v (SFloat x) = (v = HFloat x)"
| "denotes h v (SStr s) = (v = HStr s)"
| "denotes h v (SBytes b) = (v = HBytes b)"
| "denotes h v (SDict kts) =
     (case v of HRef a \<Rightarrow>
        (case h a of Some (ODict items) \<Rightarrow>
           list_all2 (\<lambda>kv kt. fst kv = HStr (fst kt) \<and> denotes h (snd kv) (snd kt)) items kts
         | _ \<Rightarrow> False)
      | _ \<Rightarrow> False)"
| "denotes h v (SList ts) =
     (case v of HRef a \<Rightarrow>
        (case h a of Some (OList items) \<Rightarrow> list_all2 (denotes h) items ts | _ \<Rightarrow> False)
      | _ \<Rightarrow> False)"
| "denotes h v (STuple ts) =
     (case v of HRef a \<Rightarrow>
        (case h a of Some (OTuple items) \<Rightarrow> list_all2 (denotes h) items ts | _ \<Rightarrow> False)
      | _ \<Rightarrow> False)"

text \<open>Every value of the tree lies at most at depth 64 when the root lies at depth \<open>d\<close>; the number
  of values of the tree.\<close>

fun fits :: "stree \<Rightarrow> nat \<Rightarrow> bool" where
  "fits (SDict kts) d = (d \<le> max_session_data_depth \<and> list_all (\<lambda>kt. fits (snd kt) (Suc d)) kts)"
| "fits (SList ts) d = (d \<le> max_session_data_depth \<and> list_all (\<lambda>t. fits t (Suc d)) ts)"
| "fits (STuple ts) d = (d \<le> max_session_data_depth \<and> list_all (\<lambda>t. fits t (Suc d)) ts)"
| "fits _ d = (d \<le> max_session_data_depth)"

fun tsize :: "stree \<Rightarrow> nat" where
  "tsize (SDict kts) = Suc (sum_list (map (\<lambda>kt. tsize (snd kt)) kts))"
| "tsize (SList ts) = Suc (sum_list (map tsize ts))"
| "tsize (STuple ts) = Suc (sum_list (map tsize ts))"
| "tsize _ = 1"

lemma denotes_mono:
  assumes "denotes h v t" and "\<And>a. h a \<noteq> None \<Longrightarrow> h' a = h a"
  shows "denotes h' v t"
  using assms(1)
proof (induction t arbitrary: v)
  case (SDict kts)
  then obtain a items where v: "v = HRef a" "h a = Some (ODict items)"
    and l: "list_all2 (\<lambda>kv kt. fst kv = HStr (fst kt) \<and> denotes h (snd kv) (snd kt)) items kts"
    by (auto split: hval.splits option.splits hobj.splits)
  have "list_all2 (\<lambda>kv kt. fst kv = HStr (fst kt) \<and> denotes h' (snd kv) (snd kt)) items kts"
    using l by (rule list.rel_mono_strong) (metis SDict.IH snds.intros)
  with v assms(2) show ?case by simp
next
  case (SList ts)
  then obtain a items where v: "v = HRef a" "h a = Some (OList items)"
    and l: "list_all2 (denotes h) items ts"
    by (auto split: hval.splits option.splits hobj.splits)
  have "list_all2 (denotes h') items ts"
    using l by (rule list.rel_mono_strong) (metis SList.IH)
  with v assms(2) show ?case by simp
next
  case (STuple ts)
  then obtain a items where v: "v = HRef a" "h a = Some (OTuple items)"
    and l: "list_all2 (denotes h) items ts"
    by (auto split: hval.splits option.splits hobj.splits)
  have "list_all2 (denotes h') items ts"
    using l by (rule list.rel_mono_strong) (metis STuple.IH)
  with v assms(2) show ?case by simp
qed simp_all

lemma list_all2_det:
  assumes "list_all2 P xs ys" "list_all2 Q xs zs"
    and "\<And>x y z. y \<in> set ys \<Longrightarrow> P x y \<Longrightarrow> Q x z \<Longrightarrow> y = z"
  shows "ys = zs"
  using assms
proof (induction xs arbitrary: ys zs)
  case (Cons x xs)
  from Cons.prems obtain y ys' z zs' where "ys = y # ys'" "zs = z # zs'" "P x y" "Q x z"
    "list_all2 P xs ys'" "list_all2 Q xs zs'"
    by (auto simp: list_all2_Cons1)
  with Cons show ?case by auto
qed simp

lemma denotes_unique: "denotes h v t \<Longrightarrow> denotes h v t' \<Longrightarrow> t = t'"
proof (induction t arbitrary: v t')
  case (SDict kts)
  from SDict.prems obtain a items kts' where v: "v = HRef a" "h a = Some (ODict items)"
    and t': "t' = SDict kts'"
    by (cases t') (auto split: hval.splits option.splits hobj.splits)
  have "kts = kts'"
  proof (rule list_all2_det)
    show "list_all2 (\<lambda>kv kt. fst kv = HStr (fst kt) \<and> denotes h (snd kv) (snd kt)) items kts"
      "list_all2 (\<lambda>kv kt. fst kv = HStr (fst kt) \<and> denotes h (snd kv) (snd kt)) items kts'"
      using SDict.prems v t' by auto
  next
    fix x y z
    assume yz: "y \<in> set kts" "fst x = HStr (fst y) \<and> denotes h (snd x) (snd y)"
      "fst x = HStr (fst z) \<and> denotes h (snd x) (snd z)"
    then have "snd y = snd z" using SDict.IH [of y "snd y"] by (auto intro: snds.intros)
    with yz show "y = z" by (simp add: prod_eq_iff)
  qed
  with t' show ?case by simp
next
  case (SList ts)
  from SList.prems obtain a items ts' where v: "v = HRef a" "h a = Some (OList items)"
    and t': "t' = SList ts'"
    by (cases t') (auto split: hval.splits option.splits hobj.splits)
  have "ts = ts'"
    by (rule list_all2_det [of "denotes h" items _ "denotes h"]) (use SList v t' in auto)
  with t' show ?case by simp
next
  case (STuple ts)
  from STuple.prems obtain a items ts' where v: "v = HRef a" "h a = Some (OTuple items)"
    and t': "t' = STuple ts'"
    by (cases t') (auto split: hval.splits option.splits hobj.splits)
  have "ts = ts'"
    by (rule list_all2_det [of "denotes h" items _ "denotes h"]) (use STuple v t' in auto)
  with t' show ?case by simp
qed (case_tac t'; auto split: hval.splits option.splits hobj.splits)+


section \<open>The clone denotes the same tree and shares nothing\<close>

text \<open>
  \<open>inprog\<close> are the copies still being filled, \<open>frozen\<close> is the store restricted to the finished
  copies. The invariant says that the original part of the store is untouched and that every finished
  entry of the memo denotes, among the finished copies alone, what the original denotes.
\<close>

definition vok :: "addr \<Rightarrow> hval \<Rightarrow> bool" where
  "vok n v \<longleftrightarrow> (\<forall>a. v = HRef a \<longrightarrow> a < n)"

definition wf_heap :: "heap \<Rightarrow> addr \<Rightarrow> bool" where
  "wf_heap h n \<longleftrightarrow> (\<forall>a obj. h a = Some obj \<longrightarrow> a < n \<and>
     (case obj of
        ODict items \<Rightarrow> distinct (map fst items) \<and> (\<forall>kv\<in>set items. vok n (snd kv))
      | OList items \<Rightarrow> (\<forall>v\<in>set items. vok n v)
      | OTuple items \<Rightarrow> (\<forall>v\<in>set items. vok n v)
      | OOther \<Rightarrow> True))"

definition inprog :: "clone_state \<Rightarrow> addr set" where
  "inprog s = {c. \<exists>a\<in>active s. memo s a = Some (HRef c)}"

definition frozen :: "addr \<Rightarrow> clone_state \<Rightarrow> heap" where
  "frozen n s = (\<lambda>c. if n \<le> c \<and> c \<notin> inprog s then store s c else None)"

definition clone_inv :: "heap \<Rightarrow> addr \<Rightarrow> clone_state \<Rightarrow> bool" where
  "clone_inv h n s \<longleftrightarrow>
     n \<le> next_addr s \<and> (\<forall>a<n. store s a = h a) \<and> (\<forall>a\<ge>next_addr s. store s a = None) \<and>
     (\<forall>a w. memo s a = Some w \<longrightarrow> (\<exists>c. w = HRef c \<and> n \<le> c \<and> c < next_addr s)) \<and>
     (\<forall>a w. a \<notin> active s \<longrightarrow> memo s a = Some w \<longrightarrow>
        (\<exists>t. denotes h (HRef a) t \<and> denotes (frozen n s) w t))"

definition ext :: "addr \<Rightarrow> addr set \<Rightarrow> clone_state \<Rightarrow> clone_state \<Rightarrow> bool" where
  "ext n X s s' \<longleftrightarrow>
     active s' = active s \<and> (\<forall>a\<in>active s. memo s' a = memo s a) \<and>
     next_addr s \<le> next_addr s' \<and>
     (\<forall>c. frozen n s c \<noteq> None \<longrightarrow> frozen n s' c = frozen n s c) \<and>
     (\<forall>c\<in>inprog s - X. store s' c = store s c)"

lemma ext_inprog: "ext n X s s' \<Longrightarrow> inprog s' = inprog s"
  by (auto simp: ext_def inprog_def)

lemma ext_refl: "ext n X s s"
  by (simp add: ext_def)

lemma ext_trans: "ext n X s s1 \<Longrightarrow> ext n Y s1 s2 \<Longrightarrow> X \<union> Y \<subseteq> Z \<Longrightarrow> ext n Z s s2"
proof -
  assume e1: "ext n X s s1" and e2: "ext n Y s1 s2" and z: "X \<union> Y \<subseteq> Z"
  have "frozen n s2 c = frozen n s c" if "frozen n s c \<noteq> None" for c
    using that e1 e2 by (metis ext_def)
  moreover have "store s2 c = store s c" if "c \<in> inprog s - Z" for c
    using that e1 e2 z ext_inprog [OF e1] unfolding ext_def by (metis DiffE DiffI UnI1 UnI2 subsetD)
  ultimately show ?thesis using e1 e2 unfolding ext_def by auto
qed

lemma denotes_frozen: "ext n X s s' \<Longrightarrow> denotes (frozen n s) w t \<Longrightarrow> denotes (frozen n s') w t"
  by (erule denotes_mono) (simp add: ext_def)

lemma nodes_frozen [simp]:
  "inprog (s\<lparr>nodes := k\<rparr>) = inprog s" "frozen n (s\<lparr>nodes := k\<rparr>) = frozen n s"
  by (auto simp: inprog_def frozen_def)

lemma clone_inv_nodes [simp]: "clone_inv h n (s\<lparr>nodes := k\<rparr>) = clone_inv h n s"
  by (simp add: clone_inv_def)

lemma ext_nodes [simp]:
  "ext n X (s\<lparr>nodes := k\<rparr>) s' = ext n X s s'"
  "ext n X s (s'\<lparr>nodes := k\<rparr>) = ext n X s s'"
  by (simp_all add: ext_def)

text \<open>Filling a copy in progress changes nothing the invariant speaks of.\<close>

lemma fill_inprog:
  assumes "clone_inv h n s" "c \<in> inprog s"
  shows "clone_inv h n (s\<lparr>store := (store s)(c \<mapsto> x)\<rparr>)"
    and "ext n {c} s (s\<lparr>store := (store s)(c \<mapsto> x)\<rparr>)"
proof -
  let ?s = "s\<lparr>store := (store s)(c \<mapsto> x)\<rparr>"
  have c: "n \<le> c" "c < next_addr s"
    using assms by (auto simp: clone_inv_def inprog_def)
  have i: "inprog ?s = inprog s" by (auto simp: inprog_def)
  have f: "frozen n ?s = frozen n s" using assms(2) by (auto simp: frozen_def i fun_eq_iff)
  show "clone_inv h n ?s"
    using assms(1) c by (auto simp: clone_inv_def f)
  show "ext n {c} s ?s"
    by (simp add: ext_def f)
qed

text \<open>Entering a dictionary or a list: a new copy in progress.\<close>

lemma enter_copy:
  fixes s :: clone_state and a :: addr and x :: hobj
  defines "c \<equiv> next_addr s"
  defines "s1 \<equiv> s\<lparr>active := insert a (active s), store := (store s)(c \<mapsto> x), next_addr := Suc c,
                  memo := (memo s)(a \<mapsto> HRef c)\<rparr>"
  assumes inv: "clone_inv h n s" and a: "a \<notin> active s" "memo s a = None"
  shows "clone_inv h n s1" and "c \<in> inprog s1" and "frozen n s1 = frozen n s"
proof -
  have c0: "store s c = None" and nc: "n \<le> c" using inv by (auto simp: clone_inv_def c_def)
  have notin: "c \<notin> inprog s" using inv by (force simp: clone_inv_def inprog_def c_def)
  have ip: "inprog s1 = insert c (inprog s)"
    using a by (auto simp: inprog_def s1_def)
  show "c \<in> inprog s1" by (simp add: ip)
  show f: "frozen n s1 = frozen n s"
    using c0 by (auto simp: frozen_def ip) (auto simp: s1_def)
  show "clone_inv h n s1"
    unfolding clone_inv_def f
  proof (intro conjI allI impI)
    show "n \<le> next_addr s1" using inv by (simp add: clone_inv_def s1_def c_def)
  next
    fix b assume "b < n"
    then show "store s1 b = h b" using inv nc by (simp add: clone_inv_def s1_def)
  next
    fix b assume "next_addr s1 \<le> b"
    then show "store s1 b = None" using inv by (simp add: clone_inv_def s1_def c_def)
  next
    fix b w assume "memo s1 b = Some w"
    then show "\<exists>c. w = HRef c \<and> n \<le> c \<and> c < next_addr s1"
      using inv nc by (fastforce simp: clone_inv_def s1_def c_def split: if_splits)
  next
    fix b w assume "b \<notin> active s1" "memo s1 b = Some w"
    then show "\<exists>t. denotes h (HRef b) t \<and> denotes (frozen n s) w t"
      using inv by (auto simp: clone_inv_def s1_def)
  qed
qed

text \<open>Leaving it: the copy becomes a finished one.\<close>

lemma leave_frozen:
  assumes inv: "clone_inv h n s2" and act: "a \<in> active s2" and m: "memo s2 a = Some (HRef c)"
    and only: "\<forall>b\<in>active s2. b \<noteq> a \<longrightarrow> memo s2 b \<noteq> Some (HRef c)"
  shows "inprog (s2\<lparr>active := active s2 - {a}\<rparr>) = inprog s2 - {c}"
    and "frozen n (s2\<lparr>active := active s2 - {a}\<rparr>) = (frozen n s2)(c := store s2 c)"
proof -
  have nc: "n \<le> c" using inv m by (force simp: clone_inv_def)
  show ip: "inprog (s2\<lparr>active := active s2 - {a}\<rparr>) = inprog s2 - {c}"
    using act m only by (auto simp: inprog_def)
  show "frozen n (s2\<lparr>active := active s2 - {a}\<rparr>) = (frozen n s2)(c := store s2 c)"
    using nc by (auto simp: frozen_def ip)
qed

lemma leave_copy:
  assumes inv: "clone_inv h n s2" and act: "a \<in> active s2" and m: "memo s2 a = Some (HRef c)"
    and only: "\<forall>b\<in>active s2. b \<noteq> a \<longrightarrow> memo s2 b \<noteq> Some (HRef c)"
  defines "s3 \<equiv> s2\<lparr>active := active s2 - {a}\<rparr>"
  assumes d: "denotes h (HRef a) t" "denotes (frozen n s3) (HRef c) t"
  shows "clone_inv h n s3"
proof -
  have f: "frozen n s3 = (frozen n s2)(c := store s2 c)"
    unfolding s3_def by (rule leave_frozen(2) [OF inv act m only])
  have mono: "denotes (frozen n s2) w u \<Longrightarrow> denotes (frozen n s3) w u" for w u
  proof (erule denotes_mono)
    fix b assume "frozen n s2 b \<noteq> None"
    then show "frozen n s3 b = frozen n s2 b"
      unfolding f by (auto simp: frozen_def split: if_splits)
  qed
  have rest: "\<exists>t. denotes h (HRef b) t \<and> denotes (frozen n s3) w t"
    if b: "b \<notin> active s3" "memo s3 b = Some w" for b w
  proof (cases "b = a")
    case True
    with b m have "w = HRef c" by (simp add: s3_def)
    with True d show ?thesis by blast
  next
    case False
    with b have "b \<notin> active s2" "memo s2 b = Some w" by (auto simp: s3_def)
    then obtain t where "denotes h (HRef b) t" "denotes (frozen n s2) w t"
      using inv unfolding clone_inv_def by blast
    with mono show ?thesis by blast
  qed
  then show "clone_inv h n s3"
    using inv unfolding clone_inv_def by (auto simp: s3_def)
qed

text \<open>The four loops together, by computation induction.\<close>

lemma vok_items: "wf_heap h n \<Longrightarrow> h a = Some (OList items) \<Longrightarrow> v \<in> set items \<Longrightarrow> vok n v"
  "wf_heap h n \<Longrightarrow> h a = Some (OTuple items) \<Longrightarrow> v \<in> set items \<Longrightarrow> vok n v"
  "wf_heap h n \<Longrightarrow> h a = Some (ODict kvs) \<Longrightarrow> kv \<in> set kvs \<Longrightarrow> vok n (snd kv)"
  "wf_heap h n \<Longrightarrow> h a = Some (ODict kvs) \<Longrightarrow> distinct (map fst kvs)"
  by (fastforce simp: wf_heap_def)+

lemma denotes_items_frozen:
  "ext n X s s' \<Longrightarrow> list_all2 (denotes (frozen n s)) ws ts \<Longrightarrow> list_all2 (denotes (frozen n s')) ws ts"
  by (erule list.rel_mono_strong) (rule denotes_frozen)

abbreviation good :: "heap \<Rightarrow> addr \<Rightarrow> clone_state \<Rightarrow> addr set \<Rightarrow> clone_state \<Rightarrow> bool" where
  "good h n s X s' \<equiv> clone_inv h n s' \<and> ext n X s s'"

lemma leave_good:
  fixes s :: clone_state and a :: addr and x :: hobj
  defines "c \<equiv> next_addr s"
  defines "s1 \<equiv> s\<lparr>active := insert a (active s), store := (store s)(c \<mapsto> x), next_addr := Suc c,
                  memo := (memo s)(a \<mapsto> HRef c)\<rparr>"
  assumes inv: "clone_inv h n s" and a: "a \<notin> active s" "memo s a = None"
    and g: "good h n s1 {c} s2"
    and d: "denotes h (HRef a) t" "denotes ((frozen n s2)(c := store s2 c)) (HRef c) t"
  shows "good h n s {} (s2\<lparr>active := active s2 - {a}\<rparr>)
    \<and> denotes (frozen n (s2\<lparr>active := active s2 - {a}\<rparr>)) (HRef c) t"
proof -
  let ?s3 = "s2\<lparr>active := active s2 - {a}\<rparr>"
  have i1: "inprog s1 = insert c (inprog s)"
    using a by (auto simp: inprog_def s1_def)
  have notin: "c \<notin> inprog s" using inv by (force simp: clone_inv_def inprog_def c_def)
  have f1: "frozen n s1 = frozen n s"
    using enter_copy(3) [OF inv a] by (simp add: s1_def c_def)
  have act: "active s2 = insert a (active s)" and m: "memo s2 a = Some (HRef c)"
    and mm: "\<forall>b\<in>active s. memo s2 b = memo s b"
    using g a by (auto simp: ext_def s1_def)
  have only: "\<forall>b\<in>active s2. b \<noteq> a \<longrightarrow> memo s2 b \<noteq> Some (HRef c)"
    using act mm notin by (auto simp: inprog_def)
  have i2: "inprog s2 = insert c (inprog s)" using g ext_inprog i1 by blast
  have act2: "a \<in> active s2" and inv2: "clone_inv h n s2" using act g by auto
  have f3: "frozen n ?s3 = (frozen n s2)(c := store s2 c)"
    by (rule leave_frozen(2) [OF inv2 act2 m only])
  have d3: "denotes (frozen n ?s3) (HRef c) t" using d(2) by (simp add: f3)
  have inv3: "clone_inv h n ?s3" by (rule leave_copy [OF inv2 act2 m only d(1) d3])
  have keep: "frozen n ?s3 b = frozen n s b" if "frozen n s b \<noteq> None" for b
  proof -
    have "b \<noteq> c" using that inv by (auto simp: frozen_def clone_inv_def c_def split: if_splits)
    moreover have "frozen n s2 b = frozen n s1 b" using g that f1 by (simp add: ext_def)
    ultimately show ?thesis by (simp add: f3 f1)
  qed
  have kept: "store s2 b = store s b" if "b \<in> inprog s" for b
  proof -
    have "b \<noteq> c" using that notin by auto
    then have "b \<in> inprog s1 - {c}" using that i1 by auto
    then have "store s2 b = store s1 b" using g by (auto simp: ext_def)
    then show ?thesis using \<open>b \<noteq> c\<close> by (simp add: s1_def)
  qed
  have "next_addr s \<le> next_addr s2" using g by (simp add: ext_def s1_def c_def)
  then have "ext n {} s ?s3"
    using act a mm keep kept by (auto simp: ext_def)
  with inv3 d3 show ?thesis by simp
qed

lemma enter_tuple:
  assumes "clone_inv h n s" "a \<notin> active s" "memo s a = None"
  shows "clone_inv h n (s\<lparr>active := insert a (active s)\<rparr>)"
    and "frozen n (s\<lparr>active := insert a (active s)\<rparr>) = frozen n s"
    and "inprog (s\<lparr>active := insert a (active s)\<rparr>) = inprog s"
proof -
  show i: "inprog (s\<lparr>active := insert a (active s)\<rparr>) = inprog s"
    using assms(3) by (auto simp: inprog_def)
  show f: "frozen n (s\<lparr>active := insert a (active s)\<rparr>) = frozen n s"
    by (auto simp: frozen_def i)
  show "clone_inv h n (s\<lparr>active := insert a (active s)\<rparr>)"
    using assms(1) by (auto simp: clone_inv_def f)
qed

lemma tuple_good:
  assumes inv: "clone_inv h n s" and a: "a \<notin> active s" "memo s a = None"
    and g: "good h n (s\<lparr>active := insert a (active s)\<rparr>) {} s2"
    and d: "denotes h (HRef a) (STuple ts)" "list_all2 (denotes (frozen n s2)) ws ts"
  defines "c \<equiv> next_addr s2"
  defines "s3 \<equiv> s2\<lparr>store := (store s2)(c \<mapsto> OTuple ws), next_addr := Suc c,
                   memo := (memo s2)(a \<mapsto> HRef c), active := active s2 - {a}\<rparr>"
  shows "good h n s {} s3 \<and> denotes (frozen n s3) (HRef c) (STuple ts)"
proof -
  have inv2: "clone_inv h n s2" and act: "active s2 = insert a (active s)"
    and mm: "\<forall>b\<in>active s. memo s2 b = memo s b" and ma: "memo s2 a = None"
    and nx: "next_addr s \<le> next_addr s2"
    using g a by (auto simp: ext_def)
  have i2: "inprog s2 = inprog s" using g ext_inprog enter_tuple(3) [OF inv a] by blast
  have nc: "n \<le> c" and c0: "store s2 c = None" and ci: "c \<notin> inprog s2"
    using inv2 by (auto simp: clone_inv_def inprog_def c_def)
  have i3: "inprog s3 = inprog s2"
    using act a mm ma by (auto simp: inprog_def s3_def)
  have f3: "frozen n s3 = (frozen n s2)(c \<mapsto> OTuple ws)"
    using nc ci by (auto simp: frozen_def i3 fun_eq_iff) (auto simp: s3_def)
  have mono: "denotes (frozen n s2) w u \<Longrightarrow> denotes (frozen n s3) w u" for w u
  proof (erule denotes_mono)
    fix b assume "frozen n s2 b \<noteq> None"
    then show "frozen n s3 b = frozen n s2 b"
      unfolding f3 using c0 by (auto simp: frozen_def split: if_splits)
  qed
  have l3: "list_all2 (denotes (frozen n s3)) ws ts"
    by (rule list.rel_mono_strong [OF d(2)]) (rule mono)
  then have d3: "denotes (frozen n s3) (HRef c) (STuple ts)" by (simp add: f3)
  have "clone_inv h n s3"
    unfolding clone_inv_def
  proof (intro conjI allI impI)
    fix b w assume b: "b \<notin> active s3" "memo s3 b = Some w"
    show "\<exists>t. denotes h (HRef b) t \<and> denotes (frozen n s3) w t"
    proof (cases "b = a")
      case True
      with b have "w = HRef c" by (simp add: s3_def)
      with True d(1) d3 show ?thesis by blast
    next
      case False
      with b have "b \<notin> active s2" "memo s2 b = Some w" by (auto simp: s3_def)
      then show ?thesis using inv2 mono unfolding clone_inv_def by blast
    qed
  qed (use inv2 nc in \<open>auto simp: clone_inv_def s3_def c_def split: if_splits\<close>,
       fastforce)
  moreover have "frozen n s3 b = frozen n s b" if "frozen n s b \<noteq> None" for b
  proof -
    have "frozen n s2 b = frozen n s b" using g that enter_tuple(2) [OF inv a] by (simp add: ext_def)
    moreover have "b \<noteq> c" using that calculation c0 by (auto simp: frozen_def split: if_splits)
    ultimately show ?thesis by (simp add: f3)
  qed
  moreover have "store s3 b = store s b" if "b \<in> inprog s" for b
  proof -
    have "b \<noteq> c" using that ci i2 by auto
    moreover have "store s2 b = store s b" using g that enter_tuple(3) [OF inv a] by (simp add: ext_def)
    ultimately show ?thesis by (simp add: s3_def)
  qed
  ultimately show ?thesis
    using d3 act a mm nx by (auto simp: ext_def s3_def c_def)
qed

lemma finish_mono:
  assumes "good h n s1 {c} s2" "c \<in> inprog s1" "denotes (frozen n s2) w t"
  shows "denotes ((frozen n s2)(c := store s2 c)) w t"
proof (rule denotes_mono [OF assms(3)])
  fix b assume b: "frozen n s2 b \<noteq> None"
  have "c \<in> inprog s2" using assms(1,2) ext_inprog by blast
  with b have "b \<noteq> c" by (auto simp: frozen_def split: if_splits)
  then show "((frozen n s2)(c := store s2 c)) b = frozen n s2 b" by simp
qed

lemma clone_denotes:
  assumes wf: "wf_heap h n"
  shows "clone_value v d s = Inr (w, s') \<Longrightarrow> clone_inv h n s \<Longrightarrow> vok n v \<Longrightarrow>
      good h n s {} s' \<and> (\<exists>t. denotes h v t \<and> denotes (frozen n s') w t)"
    and "clone_dict_items kvs c d s = Inr s' \<Longrightarrow> clone_inv h n s \<Longrightarrow> \<forall>kv\<in>set kvs. vok n (snd kv) \<Longrightarrow>
      c \<in> inprog s \<Longrightarrow> store s c = Some (ODict done) \<Longrightarrow> distinct (map fst (done @ kvs)) \<Longrightarrow>
      good h n s {c} s' \<and> (\<exists>ws kts. store s' c = Some (ODict (done @ ws))
        \<and> list_all2 (\<lambda>kv kt. fst kv = HStr (fst kt) \<and> denotes h (snd kv) (snd kt)) kvs kts
        \<and> list_all2 (\<lambda>kv kt. fst kv = HStr (fst kt) \<and> denotes (frozen n s') (snd kv) (snd kt)) ws kts)"
    and "clone_list_items vs c d s = Inr s' \<Longrightarrow> clone_inv h n s \<Longrightarrow> \<forall>v\<in>set vs. vok n v \<Longrightarrow>
      c \<in> inprog s \<Longrightarrow> store s c = Some (OList pre) \<Longrightarrow>
      good h n s {c} s' \<and> (\<exists>ws ts. store s' c = Some (OList (pre @ ws))
        \<and> list_all2 (denotes h) vs ts \<and> list_all2 (denotes (frozen n s')) ws ts)"
    and "clone_tuple_items us d s = Inr (ws, s') \<Longrightarrow> clone_inv h n s \<Longrightarrow> \<forall>v\<in>set us. vok n v \<Longrightarrow>
      good h n s {} s' \<and> (\<exists>ts. list_all2 (denotes h) us ts \<and> list_all2 (denotes (frozen n s')) ws ts)"
proof (induction v d s and kvs c d s and vs c d s and us d s
    arbitrary: w s' and "done" s' and pre s' and ws s'
    rule: clone_value_clone_dict_items_clone_list_items_clone_tuple_items.induct)
  case (1 v depth s0)
  let ?s = "s0\<lparr>nodes := Suc (nodes s0)\<rparr>"
  have lim: "\<not> nodes ?s > max_session_data_nodes" "\<not> depth > max_session_data_depth"
    using "1.prems"(1) by (auto simp: clone_value.simps [of v depth s0] Let_def split: if_splits)
  have inv: "clone_inv h n ?s" using "1.prems"(2) by simp
  have fin: "good h n s0 {} s' \<and> (\<exists>t. denotes h v t \<and> denotes (frozen n s') w t)"
    if "good h n ?s {} s' \<and> denotes (frozen n s') w t" "denotes h v t" for t
    using that by (metis ext_nodes(1))
  show ?case
  proof (cases "\<exists>a. v = HRef a")
    case False
    with "1.prems"(1) lim have "w = v" "s' = ?s"
      by (auto simp: clone_value.simps [of v depth s0] Let_def split: hval.splits)
    moreover have "\<exists>t. denotes h v t \<and> denotes g v t" for g
      using False by (cases v) (auto intro: denotes.simps [THEN iffD2])
    ultimately show ?thesis using inv ext_refl [of n "{}" s0] by auto
  next
    case True
    then obtain a where v: "v = HRef a" ..
    have an: "a < n" using "1.prems"(3) v by (simp add: vok_def)
    then have ha: "store ?s a = h a" using inv by (simp add: clone_inv_def)
    from "1.prems"(1) lim v have na: "a \<notin> active ?s"
      by (auto simp: clone_value.simps [of "HRef a" depth s0] Let_def split: option.splits hobj.splits if_splits)
    show ?thesis
    proof (cases "memo ?s a")
      case (Some u)
      with "1.prems"(1) lim v have "w = u" "s' = ?s"
        by (auto simp: clone_value.simps [of "HRef a" depth s0] Let_def split: option.splits hobj.splits if_splits)
      moreover obtain t where "denotes h v t" "denotes (frozen n ?s) u t"
        using inv na Some unfolding v clone_inv_def by blast
      ultimately show ?thesis using inv ext_refl [of n "{}" s0] by auto
    next
      case None
      note mn = None
      let ?c = "next_addr ?s"
      let ?s1 = "\<lambda>x. ?s\<lparr>active := insert a (active ?s), store := (store ?s)(?c \<mapsto> x),
                   next_addr := Suc ?c, memo := (memo ?s)(a \<mapsto> HRef ?c)\<rparr>"
      show ?thesis
      proof (cases "h a")
        case None
        with "1.prems"(1) lim v ha show ?thesis
          by (auto simp: clone_value.simps [of "HRef a" depth s0] Let_def)
      next
        case (Some obj)
        show ?thesis
        proof (cases obj)
          case (ODict items)
          have sa: "store ?s a = Some (ODict items)" using ha Some ODict by simp
          with "1.prems"(1) lim v na mn
          obtain s2 where r: "clone_dict_items items ?c (Suc depth) (?s1 (ODict [])) = Inr s2"
            and res: "w = HRef ?c" "s' = s2\<lparr>active := active s2 - {a}\<rparr>"
            by (auto simp: clone_value.simps [of "HRef a" depth s0] Let_def bindE_eq_Inr)
          note en = enter_copy [OF inv na mn, of "ODict []"]
          have ok: "\<forall>kv\<in>set items. vok n (snd kv)" "distinct (map fst ([] @ items))"
            using vok_items(3,4) [OF wf] Some ODict by auto
          from "1.IH"(1) [OF refl lim v sa refl na mn refl refl refl, of s2 "[]"] r en ok
          obtain ws kts where g: "good h n (?s1 (ODict [])) {?c} s2"
            and l: "store s2 ?c = Some (ODict ws)"
              "list_all2 (\<lambda>kv kt. fst kv = HStr (fst kt) \<and> denotes h (snd kv) (snd kt)) items kts"
              "list_all2 (\<lambda>kv kt. fst kv = HStr (fst kt) \<and> denotes (frozen n s2) (snd kv) (snd kt)) ws kts"
            by auto
          have d: "denotes h (HRef a) (SDict kts)" using l(2) Some ODict by simp
          have "list_all2 (\<lambda>kv kt. fst kv = HStr (fst kt) \<and>
              denotes ((frozen n s2)(?c := store s2 ?c)) (snd kv) (snd kt)) ws kts"
            using l(3) by (rule list.rel_mono_strong) (use finish_mono [OF g en(2)] in auto)
          then have "denotes ((frozen n s2)(?c := store s2 ?c)) (HRef ?c) (SDict kts)"
            using l(1) by simp
          from leave_good [OF inv na mn g d this, folded res] show ?thesis
            by (rule fin) (unfold v, rule d)
        next
          case (OList items)
          have sa: "store ?s a = Some (OList items)" using ha Some OList by simp
          with "1.prems"(1) lim v na mn
          obtain s2 where r: "clone_list_items items ?c (Suc depth) (?s1 (OList [])) = Inr s2"
            and res: "w = HRef ?c" "s' = s2\<lparr>active := active s2 - {a}\<rparr>"
            by (auto simp: clone_value.simps [of "HRef a" depth s0] Let_def bindE_eq_Inr)
          note en = enter_copy [OF inv na mn, of "OList []"]
          have ok: "\<forall>v\<in>set items. vok n v"
            using vok_items(1) [OF wf] Some OList by auto
          from "1.IH"(5) [OF refl lim v sa refl na mn refl refl refl, of s2 "[]"] r en ok
          obtain ws ts where g: "good h n (?s1 (OList [])) {?c} s2"
            and l: "store s2 ?c = Some (OList ws)" "list_all2 (denotes h) items ts"
              "list_all2 (denotes (frozen n s2)) ws ts"
            by auto
          have d: "denotes h (HRef a) (SList ts)" using l(2) Some OList by simp
          have "list_all2 (denotes ((frozen n s2)(?c := store s2 ?c))) ws ts"
            using l(3) by (rule list.rel_mono_strong) (rule finish_mono [OF g en(2)])
          then have "denotes ((frozen n s2)(?c := store s2 ?c)) (HRef ?c) (SList ts)"
            using l(1) by simp
          from leave_good [OF inv na mn g d this, folded res] show ?thesis
            by (rule fin) (unfold v, rule d)
        next
          case (OTuple items)
          have sa: "store ?s a = Some (OTuple items)" using ha Some OTuple by simp
          with "1.prems"(1) lim v na mn
          obtain s2 ws where r: "clone_tuple_items items (Suc depth) (?s\<lparr>active := insert a (active ?s)\<rparr>)
              = Inr (ws, s2)"
            and res: "w = HRef (next_addr s2)"
              "s' = s2\<lparr>store := (store s2)(next_addr s2 \<mapsto> OTuple ws), next_addr := Suc (next_addr s2),
                      memo := (memo s2)(a \<mapsto> HRef (next_addr s2)), active := active s2 - {a}\<rparr>"
            by (auto simp: clone_value.simps [of "HRef a" depth s0] Let_def bindE_eq_Inr)
          have ok: "\<forall>v\<in>set items. vok n v"
            using vok_items(2) [OF wf] Some OTuple by auto
          from "1.IH"(9) [OF refl lim v sa refl na mn refl refl refl r] enter_tuple(1) [OF inv na mn] ok
          obtain ts where g: "good h n (?s\<lparr>active := insert a (active ?s)\<rparr>) {} s2"
            and l: "list_all2 (denotes h) items ts" "list_all2 (denotes (frozen n s2)) ws ts"
            by auto
          have d: "denotes h (HRef a) (STuple ts)" using l(1) Some OTuple by simp
          from tuple_good [OF inv na mn g d l(2), folded res] show ?thesis
            by (rule fin) (unfold v, rule d)
        next
          case OOther
          with "1.prems"(1) lim v ha Some show ?thesis
            by (auto simp: clone_value.simps [of "HRef a" depth s0] Let_def)
        qed
      qed
    qed
  qed
next
  case (2 c depth s)
  then show ?case by (auto simp: ext_refl)
next
  case (3 k v items c depth s)
  from "3.prems"(1) obtain k' w s1 where k: "k = HStr k'" and v: "clone_value v depth s = Inr (w, s1)"
    and r: "clone_dict_items items c depth
       (s1\<lparr>store := (store s1)(c \<mapsto> (case store s1 c of Some (ODict done) \<Rightarrow> ODict (dset k w done)
          | _ \<Rightarrow> ODict [(k, w)]))\<rparr>) = Inr s'"
    by (auto split: hval.splits simp: bindE_eq_Inr)
  from "3.IH"(1) [OF k v] "3.prems" obtain t where g1: "good h n s {} s1"
    and t: "denotes h v t" "denotes (frozen n s1) w t" by auto
  have sc: "store s1 c = Some (ODict done)" using g1 "3.prems"(4,5) by (simp add: ext_def)
  have new: "dset k w done = done @ [(k, w)]"
    by (rule dset_new) (use "3.prems"(6) in auto)
  let ?s2 = "s1\<lparr>store := (store s1)(c \<mapsto> ODict (done @ [(k, w)]))\<rparr>"
  have c1: "c \<in> inprog s1" using g1 "3.prems"(4) ext_inprog by blast
  have g2: "clone_inv h n ?s2" "ext n {c} s1 ?s2"
    using fill_inprog [of h n s1 c "ODict (done @ [(k, w)])"] g1 c1 by auto
  have c2: "c \<in> inprog ?s2" using g2 c1 ext_inprog by blast
  have r': "clone_dict_items items c depth ?s2 = Inr s'" using r by (simp add: sc new)
  from "3.IH"(2) [OF k v refl, of s' "done @ [(k, w)]"] r' g2 c2 "3.prems"
  obtain ws kts where g3: "good h n ?s2 {c} s'"
    and l: "store s' c = Some (ODict ((done @ [(k, w)]) @ ws))"
      "list_all2 (\<lambda>kv kt. fst kv = HStr (fst kt) \<and> denotes h (snd kv) (snd kt)) items kts"
      "list_all2 (\<lambda>kv kt. fst kv = HStr (fst kt) \<and> denotes (frozen n s') (snd kv) (snd kt)) ws kts"
    by (auto simp: sc new)
  have e: "ext n {c} s1 s'" using ext_trans [OF g2(2)] g3 by blast
  have "ext n {c} s s'" using ext_trans [of n "{}" s s1] g1 e by blast
  moreover have "denotes (frozen n s') w t" using denotes_frozen [OF e t(2)] .
  ultimately show ?case
    using g3 l t k by (intro conjI exI [of _ "(k, w) # ws"] exI [of _ "(k', t) # kts"]) auto
next
  case (4 c depth s)
  then show ?case by (auto simp: ext_refl)
next
  case (5 v items c depth s)
  from "5.prems"(1) obtain w s1 where v: "clone_value v depth s = Inr (w, s1)"
    and r: "clone_list_items items c depth
       (s1\<lparr>store := (store s1)(c \<mapsto> (case store s1 c of Some (OList done) \<Rightarrow> OList (done @ [w])
          | _ \<Rightarrow> OList [w]))\<rparr>) = Inr s'"
    by (auto simp: bindE_eq_Inr)
  from "5.IH"(1) [OF v] "5.prems" obtain t where g1: "good h n s {} s1"
    and t: "denotes h v t" "denotes (frozen n s1) w t" by auto
  have sc: "store s1 c = Some (OList pre)" using g1 "5.prems"(4,5) by (simp add: ext_def)
  let ?s2 = "s1\<lparr>store := (store s1)(c \<mapsto> OList (pre @ [w]))\<rparr>"
  have c1: "c \<in> inprog s1" using g1 "5.prems"(4) ext_inprog by blast
  have g2: "clone_inv h n ?s2" "ext n {c} s1 ?s2"
    using fill_inprog [of h n s1 c "OList (pre @ [w])"] g1 c1 by auto
  have c2: "c \<in> inprog ?s2" using g2 c1 ext_inprog by blast
  have r': "clone_list_items items c depth ?s2 = Inr s'" using r by (simp add: sc)
  from "5.IH"(2) [OF v refl, of s' "pre @ [w]"] r' g2 c2 "5.prems"
  obtain ws ts where g3: "good h n ?s2 {c} s'"
    and l: "store s' c = Some (OList ((pre @ [w]) @ ws))"
      "list_all2 (denotes h) items ts" "list_all2 (denotes (frozen n s')) ws ts"
    by (auto simp: sc)
  have e: "ext n {c} s1 s'" using ext_trans [OF g2(2)] g3 by blast
  have "ext n {c} s s'" using ext_trans [of n "{}" s s1] g1 e by blast
  moreover have "denotes (frozen n s') w t" using denotes_frozen [OF e t(2)] .
  ultimately show ?case
    using g3 l t by (intro conjI exI [of _ "w # ws"] exI [of _ "t # ts"]) auto
next
  case (6 depth s)
  then show ?case by (auto simp: ext_refl)
next
  case (7 v items depth s)
  from "7.prems"(1) obtain w s1 ws' where v: "clone_value v depth s = Inr (w, s1)"
    and r: "clone_tuple_items items depth s1 = Inr (ws', s')" and ws: "ws = w # ws'"
    by (auto simp: bindE_eq_Inr)
  from "7.IH"(1) [OF v] "7.prems" obtain t where g1: "good h n s {} s1"
    and t: "denotes h v t" "denotes (frozen n s1) w t" by auto
  from "7.IH"(2) [OF v refl r] g1 "7.prems"
  obtain ts where g2: "good h n s1 {} s'"
    and l: "list_all2 (denotes h) items ts" "list_all2 (denotes (frozen n s')) ws' ts"
    by auto
  have "ext n {} s s'" using ext_trans [of n "{}" s s1 "{}" s'] g1 g2 by blast
  moreover have "denotes (frozen n s') w t" using denotes_frozen t(2) g2 by blast
  ultimately show ?case
    using g2 l t ws by (intro conjI exI [of _ "t # ts"]) auto
qed

section \<open>The clone succeeds on every tree within the limits\<close>

lemma denotes_vok: "wf_heap h n \<Longrightarrow> denotes h v t \<Longrightarrow> vok n v"
  by (cases t) (auto simp: vok_def wf_heap_def split: hval.splits option.splits)

text \<open>The addresses on the way from the root denote larger trees, so a tree is never on its own way.\<close>

definition above :: "heap \<Rightarrow> clone_state \<Rightarrow> nat \<Rightarrow> bool" where
  "above h s k \<longleftrightarrow> (\<forall>b\<in>active s. \<exists>u. denotes h (HRef b) u \<and> k < tsize u)"

definition clonable :: "heap \<Rightarrow> addr \<Rightarrow> stree \<Rightarrow> bool" where
  "clonable h n t \<longleftrightarrow> (\<forall>v d s. clone_inv h n s \<longrightarrow> denotes h v t \<longrightarrow> fits t d \<longrightarrow>
     nodes s + tsize t \<le> max_session_data_nodes \<longrightarrow> above h s (tsize t) \<longrightarrow>
     (\<exists>w s'. clone_value v d s = Inr (w, s') \<and> nodes s' \<le> nodes s + tsize t))"

lemma above_mono: "above h s k \<Longrightarrow> j \<le> k \<Longrightarrow> active s' = active s \<Longrightarrow> above h s' j"
  unfolding above_def by (metis order_le_less_trans)

lemma clonableD:
  assumes "clonable h n t" "wf_heap h n" "clone_inv h n s" "denotes h v t" "fits t d"
    "nodes s + tsize t \<le> max_session_data_nodes" "above h s (tsize t)"
  obtains w s' where "clone_value v d s = Inr (w, s')" "nodes s' \<le> nodes s + tsize t"
    "good h n s {} s'"
  using assms clone_denotes(1) [OF assms(2)] denotes_vok [OF assms(2,4)]
  unfolding clonable_def by metis

lemma list_items_total:
  assumes wf: "wf_heap h n"
  shows "list_all2 (denotes h) vs ts \<Longrightarrow> \<forall>t\<in>set ts. clonable h n t \<and> fits t d \<Longrightarrow> clone_inv h n s \<Longrightarrow>
    c \<in> inprog s \<Longrightarrow> nodes s + sum_list (map tsize ts) \<le> max_session_data_nodes \<Longrightarrow>
    above h s (sum_list (map tsize ts)) \<Longrightarrow>
    \<exists>s'. clone_list_items vs c d s = Inr s' \<and> nodes s' \<le> nodes s + sum_list (map tsize ts)"
proof (induction vs ts arbitrary: s rule: list_all2_induct)
  case (Cons v vs t ts)
  obtain w s1 where v: "clone_value v d s = Inr (w, s1)" and n1: "nodes s1 \<le> nodes s + tsize t"
    and g: "good h n s {} s1"
    by (rule clonableD [of h n t s v d])
       (use Cons wf above_mono [of h s "sum_list (map tsize (t # ts))" "tsize t" s] in auto)
  let ?s2 = "s1\<lparr>store := (store s1)(c \<mapsto> (case store s1 c of Some (OList done) \<Rightarrow> OList (done @ [w])
          | _ \<Rightarrow> OList [w]))\<rparr>"
  have c1: "c \<in> inprog s1" using g Cons.prems(3) ext_inprog by blast
  have "clone_inv h n ?s2" "c \<in> inprog ?s2" "active ?s2 = active s"
    using fill_inprog(1) [of h n s1 c] c1 g by (auto simp: inprog_def ext_def)
  moreover have "above h ?s2 (sum_list (map tsize ts))"
    by (rule above_mono [OF Cons.prems(5)]) (use calculation in auto)
  ultimately have "\<exists>s'. clone_list_items vs c d ?s2 = Inr s' \<and> nodes s' \<le> nodes ?s2 + sum_list (map tsize ts)"
    using Cons.prems n1 by (intro Cons.IH) auto
  then show ?case using v n1 by auto
qed simp

lemma tuple_items_total:
  assumes wf: "wf_heap h n"
  shows "list_all2 (denotes h) vs ts \<Longrightarrow> \<forall>t\<in>set ts. clonable h n t \<and> fits t d \<Longrightarrow> clone_inv h n s \<Longrightarrow>
    nodes s + sum_list (map tsize ts) \<le> max_session_data_nodes \<Longrightarrow>
    above h s (sum_list (map tsize ts)) \<Longrightarrow>
    \<exists>ws s'. clone_tuple_items vs d s = Inr (ws, s') \<and> nodes s' \<le> nodes s + sum_list (map tsize ts)"
proof (induction vs ts arbitrary: s rule: list_all2_induct)
  case (Cons v vs t ts)
  obtain w s1 where v: "clone_value v d s = Inr (w, s1)" and n1: "nodes s1 \<le> nodes s + tsize t"
    and g: "good h n s {} s1"
    by (rule clonableD [of h n t s v d])
       (use Cons wf above_mono [of h s "sum_list (map tsize (t # ts))" "tsize t" s] in auto)
  have "above h s1 (sum_list (map tsize ts))"
    by (rule above_mono [OF Cons.prems(4)]) (use g in \<open>auto simp: ext_def\<close>)
  then have "\<exists>ws s'. clone_tuple_items vs d s1 = Inr (ws, s') \<and> nodes s' \<le> nodes s1 + sum_list (map tsize ts)"
    using Cons.prems n1 g by (intro Cons.IH) auto
  then show ?case using v n1 by auto
qed simp

lemma dict_items_total:
  assumes wf: "wf_heap h n"
  shows "list_all2 (\<lambda>kv kt. fst kv = HStr (fst kt) \<and> denotes h (snd kv) (snd kt)) kvs kts \<Longrightarrow>
    \<forall>kt\<in>set kts. clonable h n (snd kt) \<and> fits (snd kt) d \<Longrightarrow> clone_inv h n s \<Longrightarrow> c \<in> inprog s \<Longrightarrow>
    nodes s + sum_list (map (\<lambda>kt. tsize (snd kt)) kts) \<le> max_session_data_nodes \<Longrightarrow>
    above h s (sum_list (map (\<lambda>kt. tsize (snd kt)) kts)) \<Longrightarrow>
    \<exists>s'. clone_dict_items kvs c d s = Inr s'
      \<and> nodes s' \<le> nodes s + sum_list (map (\<lambda>kt. tsize (snd kt)) kts)"
proof (induction kvs kts arbitrary: s rule: list_all2_induct)
  case (Cons kv kvs kt kts)
  obtain k v t where kv: "kv = (HStr k, v)" "kt = (k, t)" "denotes h v t"
    using Cons.hyps(1) by (cases kv; cases kt) auto
  obtain w s1 where v: "clone_value v d s = Inr (w, s1)" and n1: "nodes s1 \<le> nodes s + tsize t"
    and g: "good h n s {} s1"
    by (rule clonableD [of h n t s v d])
       (use Cons kv wf above_mono [of h s "sum_list (map (\<lambda>kt. tsize (snd kt)) (kt # kts))" "tsize t" s]
         in auto)
  let ?s2 = "s1\<lparr>store := (store s1)(c \<mapsto> (case store s1 c of Some (ODict done) \<Rightarrow> ODict (dset (HStr k) w done)
          | _ \<Rightarrow> ODict [(HStr k, w)]))\<rparr>"
  have c1: "c \<in> inprog s1" using g Cons.prems(3) ext_inprog by blast
  have "clone_inv h n ?s2" "c \<in> inprog ?s2" "active ?s2 = active s"
    using fill_inprog(1) [of h n s1 c] c1 g by (auto simp: inprog_def ext_def)
  moreover have "above h ?s2 (sum_list (map (\<lambda>kt. tsize (snd kt)) kts))"
    by (rule above_mono [OF Cons.prems(5)]) (use calculation in auto)
  ultimately have "\<exists>s'. clone_dict_items kvs c d ?s2 = Inr s'
      \<and> nodes s' \<le> nodes ?s2 + sum_list (map (\<lambda>kt. tsize (snd kt)) kts)"
    using Cons.prems n1 kv by (intro Cons.IH) auto
  then show ?case using v n1 kv by auto
qed simp

lemma above_insert:
  "above h s (tsize t) \<Longrightarrow> denotes h (HRef a) t \<Longrightarrow> k < tsize t \<Longrightarrow>
   active s1 = insert a (active s) \<Longrightarrow> above h s1 k"
  unfolding above_def by (metis insert_iff order.strict_trans)

lemma not_active: "above h s (tsize t) \<Longrightarrow> denotes h (HRef a) t \<Longrightarrow> a \<notin> active s"
  unfolding above_def by (metis denotes_unique less_irrefl)

text \<open>The part of the argument that all three containers share: what \<open>clone_value\<close> does on a
  reference that is neither active nor remembered.\<close>

lemma clone_value_ref:
  assumes "Suc (nodes s) \<le> max_session_data_nodes" "d \<le> max_session_data_depth" "a \<notin> active s"
    and "store s a = Some obj" "obj \<noteq> OOther"
  shows "memo s a = Some u \<Longrightarrow> clone_value (HRef a) d s = Inr (u, s\<lparr>nodes := Suc (nodes s)\<rparr>)"
    and "memo s a = None \<Longrightarrow> obj = ODict items \<Longrightarrow> clone_value (HRef a) d s =
      bindE (clone_dict_items items (next_addr s) (Suc d) (s\<lparr>nodes := Suc (nodes s),
          active := insert a (active s), store := (store s)(next_addr s \<mapsto> ODict []),
          next_addr := Suc (next_addr s), memo := (memo s)(a \<mapsto> HRef (next_addr s))\<rparr>))
        (\<lambda>s2. Inr (HRef (next_addr s), s2\<lparr>active := active s2 - {a}\<rparr>))"
    and "memo s a = None \<Longrightarrow> obj = OList vs \<Longrightarrow> clone_value (HRef a) d s =
      bindE (clone_list_items vs (next_addr s) (Suc d) (s\<lparr>nodes := Suc (nodes s),
          active := insert a (active s), store := (store s)(next_addr s \<mapsto> OList []),
          next_addr := Suc (next_addr s), memo := (memo s)(a \<mapsto> HRef (next_addr s))\<rparr>))
        (\<lambda>s2. Inr (HRef (next_addr s), s2\<lparr>active := active s2 - {a}\<rparr>))"
    and "memo s a = None \<Longrightarrow> obj = OTuple vs \<Longrightarrow> clone_value (HRef a) d s =
      bindE (clone_tuple_items vs (Suc d) (s\<lparr>nodes := Suc (nodes s), active := insert a (active s)\<rparr>))
        (\<lambda>(ws, s2). Inr (HRef (next_addr s2), s2\<lparr>store := (store s2)(next_addr s2 \<mapsto> OTuple ws),
          next_addr := Suc (next_addr s2), memo := (memo s2)(a \<mapsto> HRef (next_addr s2)),
          active := active s2 - {a}\<rparr>))"
  using assms by (cases obj; simp add: clone_value.simps [of "HRef a" d s] Let_def)+

lemma clonable_all:
  assumes wf: "wf_heap h n"
  shows "clonable h n t"
proof (induction t)
  case (SDict kts)
  show ?case
    unfolding clonable_def
  proof (intro allI impI)
    fix v d s
    assume inv: "clone_inv h n s" and d: "denotes h v (SDict kts)" and f: "fits (SDict kts) d"
      and N: "nodes s + tsize (SDict kts) \<le> max_session_data_nodes" and ab: "above h s (tsize (SDict kts))"
    from d obtain a items where v: "v = HRef a" "h a = Some (ODict items)" and
      l: "list_all2 (\<lambda>kv kt. fst kv = HStr (fst kt) \<and> denotes h (snd kv) (snd kt)) items kts"
      by (auto split: hval.splits option.splits hobj.splits)
    have sa: "store s a = Some (ODict items)"
      using inv v wf by (auto simp: clone_inv_def wf_heap_def)
    have na: "a \<notin> active s" using not_active [OF ab] d v by simp
    have lim: "Suc (nodes s) \<le> max_session_data_nodes" "d \<le> max_session_data_depth" using N f by auto
    note eqs = clone_value_ref [OF lim na sa, simplified]
    let ?s = "s\<lparr>nodes := Suc (nodes s)\<rparr>"
    let ?s1 = "?s\<lparr>active := insert a (active ?s), store := (store ?s)(next_addr ?s \<mapsto> ODict []),
          next_addr := Suc (next_addr ?s), memo := (memo ?s)(a \<mapsto> HRef (next_addr ?s))\<rparr>"
    show "\<exists>w s'. clone_value v d s = Inr (w, s') \<and> nodes s' \<le> nodes s + tsize (SDict kts)"
    proof (cases "memo s a")
      case None
      have "\<exists>s'. clone_dict_items items (next_addr s) (Suc d) ?s1 = Inr s'
        \<and> nodes s' \<le> nodes ?s1 + sum_list (map (\<lambda>kt. tsize (snd kt)) kts)"
      proof (rule dict_items_total [OF wf l])
        show "\<forall>kt\<in>set kts. clonable h n (snd kt) \<and> fits (snd kt) (Suc d)"
          using SDict f by (auto simp: list_all_iff intro: snds.intros)
        show "clone_inv h n ?s1" "next_addr s \<in> inprog ?s1"
          using enter_copy [of h n ?s a] inv na None by auto
        show "above h ?s1 (sum_list (map (\<lambda>kt. tsize (snd kt)) kts))"
          by (rule above_insert [OF ab d [unfolded v(1)]]) auto
      qed (use N in auto)
      with None v show ?thesis by (auto simp: eqs)
    qed (use v N in \<open>auto simp: eqs\<close>)
  qed
next
  case (SList ts)
  show ?case
    unfolding clonable_def
  proof (intro allI impI)
    fix v d s
    assume inv: "clone_inv h n s" and d: "denotes h v (SList ts)" and f: "fits (SList ts) d"
      and N: "nodes s + tsize (SList ts) \<le> max_session_data_nodes" and ab: "above h s (tsize (SList ts))"
    from d obtain a items where v: "v = HRef a" "h a = Some (OList items)" and
      l: "list_all2 (denotes h) items ts"
      by (auto split: hval.splits option.splits hobj.splits)
    have sa: "store s a = Some (OList items)"
      using inv v wf by (auto simp: clone_inv_def wf_heap_def)
    have na: "a \<notin> active s" using not_active [OF ab] d v by simp
    have lim: "Suc (nodes s) \<le> max_session_data_nodes" "d \<le> max_session_data_depth" using N f by auto
    note eqs = clone_value_ref [OF lim na sa, simplified]
    let ?s = "s\<lparr>nodes := Suc (nodes s)\<rparr>"
    let ?s1 = "?s\<lparr>active := insert a (active ?s), store := (store ?s)(next_addr ?s \<mapsto> OList []),
          next_addr := Suc (next_addr ?s), memo := (memo ?s)(a \<mapsto> HRef (next_addr ?s))\<rparr>"
    show "\<exists>w s'. clone_value v d s = Inr (w, s') \<and> nodes s' \<le> nodes s + tsize (SList ts)"
    proof (cases "memo s a")
      case None
      have "\<exists>s'. clone_list_items items (next_addr s) (Suc d) ?s1 = Inr s'
        \<and> nodes s' \<le> nodes ?s1 + sum_list (map tsize ts)"
      proof (rule list_items_total [OF wf l])
        show "\<forall>t\<in>set ts. clonable h n t \<and> fits t (Suc d)"
          using SList f by (auto simp: list_all_iff)
        show "clone_inv h n ?s1" "next_addr s \<in> inprog ?s1"
          using enter_copy [of h n ?s a] inv na None by auto
        show "above h ?s1 (sum_list (map tsize ts))"
          by (rule above_insert [OF ab d [unfolded v(1)]]) auto
      qed (use N in auto)
      with None v show ?thesis by (auto simp: eqs)
    qed (use v N in \<open>auto simp: eqs\<close>)
  qed
next
  case (STuple ts)
  show ?case
    unfolding clonable_def
  proof (intro allI impI)
    fix v d s
    assume inv: "clone_inv h n s" and d: "denotes h v (STuple ts)" and f: "fits (STuple ts) d"
      and N: "nodes s + tsize (STuple ts) \<le> max_session_data_nodes" and ab: "above h s (tsize (STuple ts))"
    from d obtain a items where v: "v = HRef a" "h a = Some (OTuple items)" and
      l: "list_all2 (denotes h) items ts"
      by (auto split: hval.splits option.splits hobj.splits)
    have sa: "store s a = Some (OTuple items)"
      using inv v wf by (auto simp: clone_inv_def wf_heap_def)
    have na: "a \<notin> active s" using not_active [OF ab] d v by simp
    have lim: "Suc (nodes s) \<le> max_session_data_nodes" "d \<le> max_session_data_depth" using N f by auto
    note eqs = clone_value_ref [OF lim na sa, simplified]
    let ?s = "s\<lparr>nodes := Suc (nodes s)\<rparr>"
    let ?s1 = "?s\<lparr>active := insert a (active ?s)\<rparr>"
    show "\<exists>w s'. clone_value v d s = Inr (w, s') \<and> nodes s' \<le> nodes s + tsize (STuple ts)"
    proof (cases "memo s a")
      case None
      have "\<exists>ws s'. clone_tuple_items items (Suc d) ?s1 = Inr (ws, s')
        \<and> nodes s' \<le> nodes ?s1 + sum_list (map tsize ts)"
      proof (rule tuple_items_total [OF wf l])
        show "\<forall>t\<in>set ts. clonable h n t \<and> fits t (Suc d)"
          using STuple f by (auto simp: list_all_iff)
        show "clone_inv h n ?s1"
          using enter_tuple(1) [of h n ?s a] inv na None by auto
        show "above h ?s1 (sum_list (map tsize ts))"
          by (rule above_insert [OF ab d [unfolded v(1)]]) auto
      qed (use N in auto)
      with None v show ?thesis by (auto simp: eqs)
    qed (use v N in \<open>auto simp: eqs\<close>)
  qed
qed (auto simp: clonable_def clone_value.simps Let_def)

section \<open>The number of objects a clone makes\<close>

lemma clone_nodes:
  "clone_value v d s = Inr (w, s') \<Longrightarrow>
     next_addr s' + nodes s \<le> next_addr s + nodes s' \<and> nodes s' \<le> max_session_data_nodes"
  "clone_dict_items kvs c d s = Inr s' \<Longrightarrow> nodes s \<le> max_session_data_nodes \<Longrightarrow>
     next_addr s' + nodes s \<le> next_addr s + nodes s' \<and> nodes s' \<le> max_session_data_nodes"
  "clone_list_items vs c d s = Inr s' \<Longrightarrow> nodes s \<le> max_session_data_nodes \<Longrightarrow>
     next_addr s' + nodes s \<le> next_addr s + nodes s' \<and> nodes s' \<le> max_session_data_nodes"
  "clone_tuple_items us d s = Inr (ws, s') \<Longrightarrow> nodes s \<le> max_session_data_nodes \<Longrightarrow>
     next_addr s' + nodes s \<le> next_addr s + nodes s' \<and> nodes s' \<le> max_session_data_nodes"
proof (induction v d s and kvs c d s and vs c d s and us d s
    arbitrary: w s' and s' and s' and ws s'
    rule: clone_value_clone_dict_items_clone_list_items_clone_tuple_items.induct)
  case (1 v depth s0)
  show ?case
  proof (cases "\<exists>a. v = HRef a")
    case False
    with "1.prems" show ?thesis
      by (auto simp: clone_value.simps [of v depth s0] Let_def split: hval.splits if_splits)
  next
    case True
    then obtain a where v: "v = HRef a" ..
    with "1.prems" have lim: "\<not> max_session_data_nodes < nodes (s0\<lparr>nodes := Suc (nodes s0)\<rparr>)"
      "\<not> max_session_data_depth < depth"
      by (auto simp: clone_value.simps [of "HRef a" depth s0] Let_def split: if_splits)
    from "1.prems" lim v obtain obj where obj: "store s0 a = Some obj" "obj \<noteq> OOther" "a \<notin> active s0"
      by (auto simp: clone_value.simps [of "HRef a" depth s0] Let_def
          split: option.splits hobj.splits if_splits)
    have lim': "Suc (nodes s0) \<le> max_session_data_nodes" "depth \<le> max_session_data_depth"
      using lim by auto
    note eqs = clone_value_ref [OF lim' obj(3,1,2)]
    show ?thesis
    proof (cases "memo s0 a")
      case (Some u)
      with "1.prems" v lim show ?thesis by (auto simp: eqs)
    next
      case None
      show ?thesis
      proof (cases obj)
        case (ODict items)
        from "1.prems" v None ODict obtain x where
          r: "clone_dict_items items (next_addr s0) (Suc depth) (s0\<lparr>nodes := Suc (nodes s0),
            active := insert a (active s0), store := (store s0)(next_addr s0 \<mapsto> ODict []),
            next_addr := Suc (next_addr s0), memo := (memo s0)(a \<mapsto> HRef (next_addr s0))\<rparr>) = Inr x"
          and "s' = x\<lparr>active := active x - {a}\<rparr>"
          by (auto simp: eqs bindE_eq_Inr)
        with "1.IH"(1) [OF refl lim v _ refl _ _ refl refl refl, of items x] obj None ODict lim'
        show ?thesis by simp
      next
        case (OList items)
        from "1.prems" v None OList obtain x where
          r: "clone_list_items items (next_addr s0) (Suc depth) (s0\<lparr>nodes := Suc (nodes s0),
            active := insert a (active s0), store := (store s0)(next_addr s0 \<mapsto> OList []),
            next_addr := Suc (next_addr s0), memo := (memo s0)(a \<mapsto> HRef (next_addr s0))\<rparr>) = Inr x"
          and "s' = x\<lparr>active := active x - {a}\<rparr>"
          by (auto simp: eqs bindE_eq_Inr)
        with "1.IH"(5) [OF refl lim v _ refl _ _ refl refl refl, of items x] obj None OList lim'
        show ?thesis by simp
      next
        case (OTuple items)
        from "1.prems" v None OTuple obtain ws x where
          r: "clone_tuple_items items (Suc depth) (s0\<lparr>nodes := Suc (nodes s0),
            active := insert a (active s0)\<rparr>) = Inr (ws, x)"
          and "next_addr s' = Suc (next_addr x)" "nodes s' = nodes x"
          by (auto simp: eqs bindE_eq_Inr)
        with "1.IH"(9) [OF refl lim v _ refl _ _ refl refl refl, of items ws x] obj None OTuple lim'
        show ?thesis by simp
      next
        case OOther
        with obj show ?thesis by simp
      qed
    qed
  qed
next
  case (3 k v items c depth s)
  then show ?case by (fastforce simp: bindE_eq_Inr split: hval.splits)
next
  case (5 v items c depth s)
  then show ?case by (fastforce simp: bindE_eq_Inr)
next
  case (7 v items depth s)
  then show ?case by (fastforce simp: bindE_eq_Inr)
qed auto

section \<open>The store stays well formed\<close>

definition wf_state :: "clone_state \<Rightarrow> bool" where
  "wf_state s \<longleftrightarrow> wf_heap (store s) (next_addr s) \<and>
     (\<forall>a w. memo s a = Some w \<longrightarrow> vok (next_addr s) w)"

lemma wf_state_active [simp]: "wf_state (s\<lparr>active := A\<rparr>) = wf_state s"
  by (simp add: wf_state_def)

lemma vok_mono: "vok n v \<Longrightarrow> n \<le> n' \<Longrightarrow> vok n' v"
  by (auto simp: vok_def)

lemma vok_scalar [simp]:
  "vok n HNone" "vok n (HBool b)" "vok n (HInt i)" "vok n (HFloat x)" "vok n (HStr s)" "vok n (HBytes bs)"
  by (simp_all add: vok_def)

lemma wf_heap_mono: "wf_heap h n \<Longrightarrow> n \<le> n' \<Longrightarrow> wf_heap h n'"
  unfolding wf_heap_def by (fastforce split: hobj.splits intro: vok_mono)

definition obj_ok :: "addr \<Rightarrow> hobj \<Rightarrow> bool" where
  "obj_ok n obj \<longleftrightarrow> (case obj of
        ODict items \<Rightarrow> distinct (map fst items) \<and> (\<forall>kv\<in>set items. vok n (snd kv))
      | OList items \<Rightarrow> (\<forall>v\<in>set items. vok n v)
      | OTuple items \<Rightarrow> (\<forall>v\<in>set items. vok n v)
      | OOther \<Rightarrow> True)"

lemma wf_heap_upd: "wf_heap h n \<Longrightarrow> n \<le> n' \<Longrightarrow> c < n' \<Longrightarrow> obj_ok n' x \<Longrightarrow> wf_heap (h(c \<mapsto> x)) n'"
  using wf_heap_mono [of h n n'] unfolding wf_heap_def obj_ok_def by auto

lemma wf_heap_obj: "wf_heap h n \<Longrightarrow> h c = Some x \<Longrightarrow> obj_ok n x"
  unfolding wf_heap_def obj_ok_def by auto

lemma set_dset_snd: "(a, b) \<in> set (dset k w d) \<Longrightarrow> b = w \<or> (a, b) \<in> set d"
  by (induction d) (auto split: if_splits)

lemma dict_fill_ok:
  "wf_heap h n \<Longrightarrow> vok n w \<Longrightarrow>
   obj_ok n (case h c of Some (ODict done) \<Rightarrow> ODict (dset k w done) | _ \<Rightarrow> ODict [(k, w)])"
  using wf_heap_obj [of h n c]
  by (fastforce simp: obj_ok_def dict_ok_dset dest: set_dset_snd split: option.splits hobj.splits)

lemma list_fill_ok:
  "wf_heap h n \<Longrightarrow> vok n w \<Longrightarrow>
   obj_ok n (case h c of Some (OList done) \<Rightarrow> OList (done @ [w]) | _ \<Rightarrow> OList [w])"
  using wf_heap_obj [of h n c]
  by (auto simp: obj_ok_def split: option.splits hobj.splits)

lemma clone_wf:
  "clone_value v d s = Inr (w, s') \<Longrightarrow> wf_state s \<Longrightarrow> vok (next_addr s) v \<Longrightarrow>
     wf_state s' \<and> next_addr s \<le> next_addr s' \<and> vok (next_addr s') w"
  "clone_dict_items kvs c d s = Inr s' \<Longrightarrow> wf_state s \<Longrightarrow> c < next_addr s \<Longrightarrow>
     \<forall>kv\<in>set kvs. vok (next_addr s) (snd kv) \<Longrightarrow> wf_state s' \<and> next_addr s \<le> next_addr s'"
  "clone_list_items vs c d s = Inr s' \<Longrightarrow> wf_state s \<Longrightarrow> c < next_addr s \<Longrightarrow>
     \<forall>v\<in>set vs. vok (next_addr s) v \<Longrightarrow> wf_state s' \<and> next_addr s \<le> next_addr s'"
  "clone_tuple_items us d s = Inr (ws, s') \<Longrightarrow> wf_state s \<Longrightarrow>
     \<forall>v\<in>set us. vok (next_addr s) v \<Longrightarrow>
     wf_state s' \<and> next_addr s \<le> next_addr s' \<and> (\<forall>w\<in>set ws. vok (next_addr s') w)"
proof (induction v d s and kvs c d s and vs c d s and us d s
    arbitrary: w s' and s' and s' and ws s'
    rule: clone_value_clone_dict_items_clone_list_items_clone_tuple_items.induct)
  case (1 v depth s0)
  show ?case
  proof (cases "\<exists>a. v = HRef a")
    case False
    with "1.prems" show ?thesis
      by (auto simp: clone_value.simps [of v depth s0] Let_def wf_state_def split: hval.splits if_splits)
  next
    case True
    then obtain a where v: "v = HRef a" ..
    with "1.prems" have lim: "\<not> max_session_data_nodes < nodes (s0\<lparr>nodes := Suc (nodes s0)\<rparr>)"
      "\<not> max_session_data_depth < depth"
      by (auto simp: clone_value.simps [of "HRef a" depth s0] Let_def split: if_splits)
    from "1.prems" lim v obtain obj where obj: "store s0 a = Some obj" "obj \<noteq> OOther" "a \<notin> active s0"
      by (auto simp: clone_value.simps [of "HRef a" depth s0] Let_def
          split: option.splits hobj.splits if_splits)
    have lim': "Suc (nodes s0) \<le> max_session_data_nodes" "depth \<le> max_session_data_depth"
      using lim by auto
    note eqs = clone_value_ref [OF lim' obj(3,1,2)]
    have wf0: "wf_heap (store s0) (next_addr s0)" using "1.prems"(2) by (simp add: wf_state_def)
    have ok: "obj_ok (next_addr s0) obj" by (rule wf_heap_obj [OF wf0 obj(1)])
    show ?thesis
    proof (cases "memo s0 a")
      case (Some u)
      with "1.prems" v show ?thesis by (auto simp: eqs wf_state_def)
    next
      case None
      have enter: "wf_state (s0\<lparr>nodes := Suc (nodes s0), active := insert a (active s0),
            store := (store s0)(next_addr s0 \<mapsto> x), next_addr := Suc (next_addr s0),
            memo := (memo s0)(a \<mapsto> HRef (next_addr s0))\<rparr>)"
        if "x = ODict [] \<or> x = OList []" for x
        using "1.prems"(2) that wf_heap_upd [OF wf0, of "Suc (next_addr s0)" "next_addr s0" x]
        by (auto simp: wf_state_def obj_ok_def vok_def less_Suc_eq)
      show ?thesis
      proof (cases obj)
        case (ODict items)
        from "1.prems" v None ODict obtain x where
          r: "clone_dict_items items (next_addr s0) (Suc depth) (s0\<lparr>nodes := Suc (nodes s0),
            active := insert a (active s0), store := (store s0)(next_addr s0 \<mapsto> ODict []),
            next_addr := Suc (next_addr s0), memo := (memo s0)(a \<mapsto> HRef (next_addr s0))\<rparr>) = Inr x"
          and "s' = x\<lparr>active := active x - {a}\<rparr>" "w = HRef (next_addr s0)"
          by (auto simp: eqs bindE_eq_Inr)
        moreover have "\<forall>kv\<in>set items. vok (Suc (next_addr s0)) (snd kv)"
          using ok ODict by (auto simp: obj_ok_def intro: vok_mono)
        ultimately show ?thesis
          using "1.IH"(1) [OF refl lim v _ refl _ _ refl refl refl, of items x] obj None ODict
            enter [of "ODict []"]
          by (simp add: vok_def)
      next
        case (OList items)
        from "1.prems" v None OList obtain x where
          r: "clone_list_items items (next_addr s0) (Suc depth) (s0\<lparr>nodes := Suc (nodes s0),
            active := insert a (active s0), store := (store s0)(next_addr s0 \<mapsto> OList []),
            next_addr := Suc (next_addr s0), memo := (memo s0)(a \<mapsto> HRef (next_addr s0))\<rparr>) = Inr x"
          and "s' = x\<lparr>active := active x - {a}\<rparr>" "w = HRef (next_addr s0)"
          by (auto simp: eqs bindE_eq_Inr)
        moreover have "\<forall>v\<in>set items. vok (Suc (next_addr s0)) v"
          using ok OList by (auto simp: obj_ok_def intro: vok_mono)
        ultimately show ?thesis
          using "1.IH"(5) [OF refl lim v _ refl _ _ refl refl refl, of items x] obj None OList
            enter [of "OList []"]
          by (simp add: vok_def)
      next
        case (OTuple items)
        from "1.prems" v None OTuple obtain us x where
          r: "clone_tuple_items items (Suc depth) (s0\<lparr>nodes := Suc (nodes s0),
            active := insert a (active s0)\<rparr>) = Inr (us, x)"
          and s': "s' = x\<lparr>store := (store x)(next_addr x \<mapsto> OTuple us), next_addr := Suc (next_addr x),
            memo := (memo x)(a \<mapsto> HRef (next_addr x)), active := active x - {a}\<rparr>"
          and w: "w = HRef (next_addr x)"
          by (auto simp: eqs bindE_eq_Inr)
        have "\<forall>v\<in>set items. vok (next_addr s0) v"
          using ok OTuple by (auto simp: obj_ok_def)
        then have x: "wf_state x \<and> next_addr s0 \<le> next_addr x \<and> (\<forall>w\<in>set us. vok (next_addr x) w)"
          using "1.IH"(9) [OF refl lim v _ refl _ _ refl refl refl, of items us x] obj None OTuple r "1.prems"(2)
          by (simp add: wf_state_def)
        then have "obj_ok (Suc (next_addr x)) (OTuple us)" by (auto simp: obj_ok_def intro: vok_mono)
        with x have "wf_heap ((store x)(next_addr x \<mapsto> OTuple us)) (Suc (next_addr x))"
          by (intro wf_heap_upd [of "store x" "next_addr x"]) (auto simp: wf_state_def)
        with x show ?thesis by (auto simp: s' w wf_state_def vok_def less_Suc_eq)
      next
        case OOther
        with obj show ?thesis by simp
      qed
    qed
  qed
next
  case (3 k v items c depth s)
  from "3.prems"(1) obtain k' w s1 where k: "k = HStr k'" and v: "clone_value v depth s = Inr (w, s1)"
    and r: "clone_dict_items items c depth
       (s1\<lparr>store := (store s1)(c \<mapsto> (case store s1 c of Some (ODict done) \<Rightarrow> ODict (dset k w done)
          | _ \<Rightarrow> ODict [(k, w)]))\<rparr>) = Inr s'"
    by (auto split: hval.splits simp: bindE_eq_Inr)
  have g: "wf_state s1" "next_addr s \<le> next_addr s1" "vok (next_addr s1) w"
    using "3.IH"(1) [OF k v] "3.prems" by auto
  have "wf_heap ((store s1)(c \<mapsto> (case store s1 c of Some (ODict done) \<Rightarrow> ODict (dset k w done)
          | _ \<Rightarrow> ODict [(k, w)]))) (next_addr s1)"
    using g "3.prems"(3)
    by (intro wf_heap_upd [of _ "next_addr s1"] dict_fill_ok) (auto simp: wf_state_def)
  moreover have "\<forall>kv\<in>set items. vok (next_addr s1) (snd kv)"
    using g(2) "3.prems"(4) by (auto intro: vok_mono)
  ultimately show ?case
    using "3.IH"(2) [OF k v refl r] g "3.prems"(3) by (auto simp: wf_state_def)
next
  case (5 v items c depth s)
  from "5.prems"(1) obtain w s1 where v: "clone_value v depth s = Inr (w, s1)"
    and r: "clone_list_items items c depth
       (s1\<lparr>store := (store s1)(c \<mapsto> (case store s1 c of Some (OList done) \<Rightarrow> OList (done @ [w])
          | _ \<Rightarrow> OList [w]))\<rparr>) = Inr s'"
    by (auto simp: bindE_eq_Inr)
  have g: "wf_state s1" "next_addr s \<le> next_addr s1" "vok (next_addr s1) w"
    using "5.IH"(1) [OF v] "5.prems" by auto
  have "wf_heap ((store s1)(c \<mapsto> (case store s1 c of Some (OList done) \<Rightarrow> OList (done @ [w])
          | _ \<Rightarrow> OList [w]))) (next_addr s1)"
    using g "5.prems"(3)
    by (intro wf_heap_upd [of _ "next_addr s1"] list_fill_ok) (auto simp: wf_state_def)
  moreover have "\<forall>v\<in>set items. vok (next_addr s1) v"
    using g(2) "5.prems"(4) by (auto intro: vok_mono)
  ultimately show ?case
    using "5.IH"(2) [OF v refl r] g "5.prems"(3) by (auto simp: wf_state_def)
next
  case (7 v items depth s)
  from "7.prems"(1) obtain w s1 ws' where v: "clone_value v depth s = Inr (w, s1)"
    and r: "clone_tuple_items items depth s1 = Inr (ws', s')" and ws: "ws = w # ws'"
    by (auto simp: bindE_eq_Inr)
  have g: "wf_state s1" "next_addr s \<le> next_addr s1" "vok (next_addr s1) w"
    using "7.IH"(1) [OF v] "7.prems" by auto
  moreover have "\<forall>v\<in>set items. vok (next_addr s1) v"
    using g(2) "7.prems"(3) by (auto intro: vok_mono)
  ultimately show ?case
    using "7.IH"(2) [OF v refl r] ws by (auto intro: vok_mono)
qed auto

section \<open>Properties\<close>

lemma clone_inv_init: "wf_heap h n \<Longrightarrow> clone_inv h n (init_clone h n)"
  by (auto simp: clone_inv_def init_clone_def wf_heap_def) (metis not_None_eq linorder_not_less)

lemma clone_session_data_Inr:
  assumes "clone_session_data h n v = Inr (w, h', n')"
  obtains s where "clone_value v 0 (init_clone h n) = Inr (w, s)" "h' = store s" "n' = next_addr s"
proof -
  from assms obtain w0 s where s: "clone_value v 0 (init_clone h n) = Inr (w0, s)"
    and c: "(case w0 of
          HRef c \<Rightarrow> (case store s c of
                      Some (ODict _) \<Rightarrow> Inr (w0, store s, next_addr s)
                    | _ \<Rightarrow> Inl (TypeError ''session data must be a dict''))
        | _ \<Rightarrow> Inl (TypeError ''session data must be a dict'')) = Inr (w, h', n')"
    by (auto simp: clone_session_data_def bindE_eq_Inr)
  from c have "w0 = w" "h' = store s" "n' = next_addr s" by (auto split: hval.splits option.splits hobj.splits)
  with s that show ?thesis by blast
qed

lemma session_clone_facts:
  assumes "wf_heap h n" and "vok n v" and "clone_session_data h n v = Inr (w, h', n')"
  shows "(\<exists>t. denotes h v t \<and> denotes (\<lambda>a. if n \<le> a then h' a else None) w t)
    \<and> (\<forall>a<n. h' a = h a) \<and> (\<exists>c items. w = HRef c \<and> h' c = Some (ODict items))"
proof -
  obtain s where s: "clone_value v 0 (init_clone h n) = Inr (w, s)" "h' = store s"
    by (rule clone_session_data_Inr [OF assms(3)])
  from clone_denotes(1) [OF assms(1) s(1) clone_inv_init [OF assms(1)] assms(2)]
  obtain t where g: "good h n (init_clone h n) {} s" and t: "denotes h v t" "denotes (frozen n s) w t"
    by blast
  have "inprog s = {}" using ext_inprog g by (fastforce simp: inprog_def init_clone_def)
  then have "frozen n s = (\<lambda>a. if n \<le> a then h' a else None)"
    by (simp add: frozen_def fun_eq_iff s(2))
  moreover have "\<exists>c items. w = HRef c \<and> h' c = Some (ODict items)"
    using assms(3) s by (auto simp: clone_session_data_def split: hval.splits option.splits hobj.splits)
  ultimately show ?thesis using t g s(2) by (auto simp: clone_inv_def)
qed

text \<open>
  Snapshot isolation of session data: a successful clone denotes the same tree of built-in values
  as the original (so the original is finite and acyclic, with string keys), it denotes it in the new
  objects alone, and no original object is changed.
\<close>

lemma session_clone_isolated:
  assumes "wf_heap h n" and "vok n v" and "clone_session_data h n v = Inr (w, h', n')"
  shows "(\<exists>t. denotes h v t \<and> denotes (\<lambda>a. if n \<le> a then h' a else None) w t)
    \<and> (\<forall>a<n. h' a = h a)"
  using session_clone_facts [OF assms] by blast

text \<open>
  Every dictionary that denotes a tree of at most 100000 values nested at most 64 deep is cloned:
  within the limits the clone never raises.
\<close>

lemma session_clone_accepts:
  assumes "wf_heap h n" and "denotes h v (SDict kts)" and "fits (SDict kts) 0"
    and "tsize (SDict kts) \<le> max_session_data_nodes"
  shows "\<exists>w h' n'. clone_session_data h n v = Inr (w, h', n')"
proof -
  have "above h (init_clone h n) (tsize (SDict kts))" by (simp add: above_def init_clone_def)
  then obtain w s where s: "clone_value v 0 (init_clone h n) = Inr (w, s)"
    using clonable_all [OF assms(1), of "SDict kts"] assms clone_inv_init [OF assms(1)]
    unfolding clonable_def by (fastforce simp: init_clone_def)
  from clone_denotes(1) [OF assms(1) s clone_inv_init [OF assms(1)] denotes_vok [OF assms(1,2)]]
  obtain t where "denotes h v t" "denotes (frozen n s) w t" by blast
  with denotes_unique [OF assms(2)] have "denotes (frozen n s) w (SDict kts)" by blast
  then obtain c items where "w = HRef c" "frozen n s c = Some (ODict items)"
    by (auto split: hval.splits option.splits hobj.splits)
  with s show ?thesis by (auto simp: clone_session_data_def frozen_def split: if_splits)
qed

text \<open>
  The clone allocates at most 100000 objects, whatever is shared or nested in the original.
\<close>

lemma session_clone_bounded:
  assumes "wf_heap h n" and "vok n v" and "clone_session_data h n v = Inr (w, h', n')"
    and "n + max_session_data_nodes \<le> a"
  shows "h' a = None"
proof -
  obtain s where s: "clone_value v 0 (init_clone h n) = Inr (w, s)" "h' = store s"
    by (rule clone_session_data_Inr [OF assms(3)])
  have "next_addr s \<le> n + max_session_data_nodes"
    using clone_nodes(1) [OF s(1)] by (simp add: init_clone_def)
  moreover have "clone_inv h n s"
    using clone_denotes(1) [OF assms(1) s(1) clone_inv_init [OF assms(1)] assms(2)] by blast
  ultimately show ?thesis using s(2) assms(4) by (simp add: clone_inv_def)
qed

end
