(* ===== verification/Py_Values.thy ===== *)
theory Py_Values
  imports Prelude
begin

text \<open>
  Python values of unknown type, as the program receives them from JSON, from configuration files and
  from plugins, with the conversions of the standard library the program applies to them.
\<close>

text \<open>
  \<open>VOther\<close> is a value of any type not listed. Dictionaries have string keys, as JSON objects do.
\<close>

datatype pyval =
    VNone
  | VBool bool
  | VInt int
  | VFloat pyfloat
  | VStr ustr
  | VList "pyval list"
  | VTuple "pyval list"
  | VDict "(ustr \<times> pyval) list"
  | VOther

text \<open>\<^verbatim>\<open>isinstance(v, Mapping)\<close> with its items, and \<^verbatim>\<open>isinstance(v, list)\<close> with its elements.\<close>

definition as_dict :: "pyval \<Rightarrow> (ustr \<times> pyval) list option" where
  "as_dict v = (case v of VDict d \<Rightarrow> Some d | _ \<Rightarrow> None)"

definition as_list :: "pyval \<Rightarrow> pyval list option" where
  "as_list v = (case v of VList xs \<Rightarrow> Some xs | _ \<Rightarrow> None)"

definition as_str :: "pyval \<Rightarrow> ustr option" where
  "as_str v = (case v of VStr s \<Rightarrow> Some s | _ \<Rightarrow> None)"

lemma as_dict_iff [simp]: "as_dict v = Some d \<longleftrightarrow> v = VDict d"
  by (cases v) (auto simp: as_dict_def)

lemma as_list_iff [simp]: "as_list v = Some xs \<longleftrightarrow> v = VList xs"
  by (cases v) (auto simp: as_list_def)

lemma as_str_iff [simp]: "as_str v = Some s \<longleftrightarrow> v = VStr s"
  by (cases v) (auto simp: as_str_def)

text \<open>\<^verbatim>\<open>d.get(key, default)\<close>.\<close>

definition dget_default :: "('k, 'v) dict \<Rightarrow> 'k \<Rightarrow> 'v \<Rightarrow> 'v" where
  "dget_default d k dflt = (case dget d k of Some v \<Rightarrow> v | None \<Rightarrow> dflt)"

text \<open>\<^verbatim>\<open>bool(v)\<close>.\<close>

definition truthy :: "pyval \<Rightarrow> bool" where
  "truthy v = (case v of
      VNone \<Rightarrow> False
    | VBool b \<Rightarrow> b
    | VInt i \<Rightarrow> i \<noteq> 0
    | VFloat x \<Rightarrow> x \<noteq> Fin 0
    | VStr s \<Rightarrow> s \<noteq> []
    | VList xs \<Rightarrow> xs \<noteq> []
    | VTuple xs \<Rightarrow> xs \<noteq> []
    | VDict d \<Rightarrow> d \<noteq> []
    | VOther \<Rightarrow> True)"

text \<open>
  \<^verbatim>\<open>float(n)\<close> of an integer: from half a unit above the largest finite double on, the conversion
  raises \<^verbatim>\<open>OverflowError\<close>.
\<close>

definition float_of_int :: "int \<Rightarrow> pyerr + pyfloat" where
  "float_of_int n =
     (if \<bar>n\<bar> < 2 ^ 1024 - 2 ^ 970 then Inr (Fin (of_int n))
      else Inl (OverflowError ''int too large to convert to float''))"

text \<open>
  \<^verbatim>\<open>float(v)\<close>. How the interpreter reads a string as a number is the argument \<open>parse\<close>; a value of
  another type has no conversion.
\<close>

definition py_float :: "(ustr \<Rightarrow> pyfloat option) \<Rightarrow> pyval \<Rightarrow> pyerr + pyfloat" where
  "py_float parse v = (case v of
      VInt n \<Rightarrow> float_of_int n
    | VBool b \<Rightarrow> Inr (Fin (if b then 1 else 0))
    | VFloat x \<Rightarrow> Inr x
    | VStr s \<Rightarrow> (case parse s of Some x \<Rightarrow> Inr x
                 | None \<Rightarrow> Inl (ValueError ''could not convert string to float''))
    | _ \<Rightarrow> Inl (TypeError ''float() argument must be a string or a real number''))"

text \<open>Comparisons of floats; every comparison with not-a-number is false.\<close>

definition float_less :: "pyfloat \<Rightarrow> pyfloat \<Rightarrow> bool" where
  "float_less x y = (case (x, y) of
      (Fin a, Fin b) \<Rightarrow> a < b
    | (NegInf, Fin _) \<Rightarrow> True
    | (NegInf, PosInf) \<Rightarrow> True
    | (Fin _, PosInf) \<Rightarrow> True
    | _ \<Rightarrow> False)"

text \<open>
  \<^verbatim>\<open>str(v)\<close>: strings, integers, booleans and \<^verbatim>\<open>None\<close> as the language prints them; how any other value prints
  is the argument \<open>other\<close>.
\<close>

definition py_str :: "(pyval \<Rightarrow> ustr) \<Rightarrow> pyval \<Rightarrow> ustr" where
  "py_str other v = (case v of
      VStr s \<Rightarrow> s
    | VInt n \<Rightarrow> int_str n
    | VBool b \<Rightarrow> (if b then U ''True'' else U ''False'')
    | VNone \<Rightarrow> U ''None''
    | _ \<Rightarrow> other v)"

lemma py_str_simps [simp]:
  "py_str other (VStr s) = s" "py_str other (VInt n) = int_str n"
  by (simp_all add: py_str_def)

text \<open>
  The digits of an integer literal: groups of decimal digits joined by single underscores.
\<close>

fun undigits :: "ustr \<Rightarrow> ustr option" where
  "undigits [] = None"
| "undigits [c] = (if digit_value c \<noteq> None then Some [c] else None)"
| "undigits (c # d # r) =
     (if digit_value c = None then None
      else if d = 95 then map_option (Cons c) (undigits r)
      else map_option (Cons c) (undigits (d # r)))"

definition err_int :: pyerr where
  "err_int = ValueError ''invalid literal for int() with base 10''"

text \<open>\<^verbatim>\<open>int(s)\<close> of a string: white space around, an optional sign, and at most 4300 digits.\<close>

definition int_of_str :: "ustr \<Rightarrow> pyerr + int" where
  "int_of_str s =
     (let t = strip s;
          neg = (case t of c # _ \<Rightarrow> c = 45 | [] \<Rightarrow> False);
          body = (case t of c # r \<Rightarrow> if c = 43 \<or> c = 45 then r else t | [] \<Rightarrow> [])
      in case undigits body of
           None \<Rightarrow> Inl err_int
         | Some ds \<Rightarrow> bindE (int_of_digits ds) (\<lambda>n. Inr (if neg then - n else n)))"

definition real_trunc :: "real \<Rightarrow> int" where
  "real_trunc r = (if 0 \<le> r then \<lfloor>r\<rfloor> else \<lceil>r\<rceil>)"

text \<open>\<^verbatim>\<open>int(v)\<close>.\<close>

definition py_int :: "pyval \<Rightarrow> pyerr + int" where
  "py_int v = (case v of
      VInt n \<Rightarrow> Inr n
    | VBool b \<Rightarrow> Inr (if b then 1 else 0)
    | VFloat (Fin r) \<Rightarrow> Inr (real_trunc r)
    | VFloat NaN \<Rightarrow> Inl (ValueError ''cannot convert float NaN to integer'')
    | VFloat _ \<Rightarrow> Inl (OverflowError ''cannot convert float infinity to integer'')
    | VStr s \<Rightarrow> int_of_str s
    | _ \<Rightarrow> Inl (TypeError ''int() argument must be a string, a bytes-like object or a real number''))"

text \<open>\<^verbatim>\<open>v in {''a'', ''b''}\<close>: a list or dictionary is not hashable.\<close>

fun hashable :: "pyval \<Rightarrow> bool" where
  "hashable (VList _) = False"
| "hashable (VDict _) = False"
| "hashable (VTuple vs) = list_all hashable vs"
| "hashable _ = True"

definition in_str_set :: "ustr list \<Rightarrow> pyval \<Rightarrow> pyerr + bool" where
  "in_str_set S v = (if \<not> hashable v then Inl (TypeError ''unhashable type'')
     else Inr (case v of VStr s \<Rightarrow> s \<in> set S | _ \<Rightarrow> False))"

text \<open>\<^verbatim>\<open>if condition: raise error\<close>.\<close>

definition guardE :: "bool \<Rightarrow> 'e \<Rightarrow> 'e + unit" where
  "guardE b e = (if b then Inl e else Inr ())"

lemma guardE_Inr [simp]: "guardE b e = Inr u \<longleftrightarrow> \<not> b"
  by (simp add: guardE_def)

lemma guardE_Inl [simp]: "guardE b e = Inl e' \<longleftrightarrow> b \<and> e' = e"
  by (auto simp: guardE_def)

end
