(* ===== verification/Session.thy ===== *)
theory Session
  imports Session_Data Py_Values
begin

text \<open>
  Plugin sessions and their manager (\<^verbatim>\<open>core/session.py\<close>): normalisation of the fields, the session
  object, and the operations of \<^verbatim>\<open>SessionManager\<close> with their per-key transactions. Time is an argument
  of each operation, one for every reading of the clock.
\<close>

section \<open>Normalisation of fields\<close>

definition normalize_id :: "string \<Rightarrow> bool \<Rightarrow> pyval \<Rightarrow> pyerr + int option" where
  "normalize_id field_name allow_none v =
     (let bad = TypeError (field_name @ '' must be a positive integer'');
          positive = (\<lambda>n. if n \<le> 0 then Inl (ValueError (field_name @ '' must be positive''))
                          else Inr (Some n))
      in case v of
        VNone \<Rightarrow> if allow_none then Inr None else Inl bad
      | VBool _ \<Rightarrow> Inl bad
      | VStr s \<Rightarrow>
          (let stripped = strip s in
           if stripped = [] \<or> \<not> isdecimal stripped then Inl bad
           else bindE (int_of_digits stripped) positive)
      | VInt n \<Rightarrow> positive n
      | _ \<Rightarrow> Inl bad)"

definition normalize_plugin_name :: "pyval \<Rightarrow> pyerr + ustr" where
  "normalize_plugin_name v = (case v of
      VStr s \<Rightarrow> (if strip s = [] then Inl (ValueError ''plugin_name must not be empty'') else Inr (strip s))
    | _ \<Rightarrow> Inl (TypeError ''plugin_name must be a string''))"

definition normalize_session_id :: "pyval \<Rightarrow> pyerr + ustr" where
  "normalize_session_id v = (case v of
      VStr s \<Rightarrow> (if strip s = [] then Inl (ValueError ''session_id must not be empty'') else Inr (strip s))
    | _ \<Rightarrow> Inl (TypeError ''session_id must be a string''))"

text \<open>A \<^verbatim>\<open>TypeError\<close> or \<^verbatim>\<open>ValueError\<close> of the conversion becomes the \<^verbatim>\<open>TypeError\<close> of the caller; an
  \<^verbatim>\<open>OverflowError\<close> passes.\<close>

definition normalize_timeout :: "(ustr \<Rightarrow> pyfloat option) \<Rightarrow> pyval \<Rightarrow> pyerr + real" where
  "normalize_timeout parse v =
     (let bad = TypeError ''session timeout must be a positive finite number'';
          check = (\<lambda>x. case x of
              Fin r \<Rightarrow> if r \<le> 0 then Inl (ValueError ''session timeout must be a positive finite number'')
                        else Inr r
            | _ \<Rightarrow> Inl (ValueError ''session timeout must be a positive finite number''))
      in case v of
        VBool _ \<Rightarrow> Inl bad
      | _ \<Rightarrow> (case py_float parse v of
               Inl (OverflowError m) \<Rightarrow> Inl (OverflowError m)
             | Inl _ \<Rightarrow> Inl bad
             | Inr x \<Rightarrow> check x))"

definition normalize_timestamp :: "string \<Rightarrow> pyval \<Rightarrow> pyerr + real" where
  "normalize_timestamp field_name v =
     (let check = (\<lambda>x. case x of
            Fin r \<Rightarrow> Inr r
          | _ \<Rightarrow> Inl (ValueError (field_name @ '' must be a finite number'')))
      in case v of
        VInt n \<Rightarrow> bindE (float_of_int n) check
      | VFloat x \<Rightarrow> check x
      | _ \<Rightarrow> Inl (TypeError (field_name @ '' must be a finite number'')))"

section \<open>Sessions\<close>

text \<open>
  The data of a session is a value in its own store: \<open>root\<close> refers into \<open>objs\<close>, and \<open>bound\<close> is the
  first free address. That the stores of two sessions never meet is what the clone guarantees.
\<close>

record sdata =
  root :: hval
  objs :: heap
  bound :: addr

record session =
  user_id :: int
  group_id :: "int option"
  plugin_name :: ustr
  session_id :: ustr
  state :: ustr
  sdata :: sdata
  created_at :: real
  updated_at :: real
  timeout :: real
  version :: int

text \<open>A session object whose fields plugin code may have assigned: any value in any field.\<close>

record raw_session =
  r_user_id :: pyval
  r_group_id :: pyval
  r_plugin_name :: pyval
  r_session_id :: pyval
  r_state :: pyval
  r_data :: sdata
  r_created_at :: pyval
  r_updated_at :: pyval
  r_timeout :: pyval
  r_version :: pyval

definition raw_of :: "session \<Rightarrow> raw_session" where
  "raw_of s = \<lparr>r_user_id = VInt (user_id s),
     r_group_id = (case group_id s of None \<Rightarrow> VNone | Some g \<Rightarrow> VInt g),
     r_plugin_name = VStr (plugin_name s), r_session_id = VStr (session_id s),
     r_state = VStr (state s), r_data = sdata s, r_created_at = VFloat (Fin (created_at s)),
     r_updated_at = VFloat (Fin (updated_at s)), r_timeout = VFloat (Fin (timeout s)),
     r_version = VInt (version s)\<rparr>"

definition clone_data :: "sdata \<Rightarrow> pyerr + sdata" where
  "clone_data d = bindE (clone_session_data (objs d) (bound d) (root d))
     (\<lambda>(w, h, n). Inr \<lparr>root = w, objs = h, bound = n\<rparr>)"

definition is_dict_root :: "sdata \<Rightarrow> bool" where
  "is_dict_root d = (case root d of
      HRef a \<Rightarrow> (case objs d a of Some (ODict _) \<Rightarrow> True | _ \<Rightarrow> False) | _ \<Rightarrow> False)"

text \<open>\<^verbatim>\<open>Session.__post_init__\<close>: the checks in their order.\<close>

definition post_init :: "(ustr \<Rightarrow> pyfloat option) \<Rightarrow> raw_session \<Rightarrow> pyerr + session" where
  "post_init parse r =
     bindE (normalize_id ''user_id'' False (r_user_id r)) (\<lambda>u.
     bindE (normalize_id ''group_id'' True (r_group_id r)) (\<lambda>g.
     bindE (normalize_plugin_name (r_plugin_name r)) (\<lambda>p.
     bindE (normalize_session_id (r_session_id r)) (\<lambda>sid.
     bindE (case r_state r of VStr st \<Rightarrow> Inr st
            | _ \<Rightarrow> Inl (TypeError ''session state must be a string'')) (\<lambda>st.
     bindE (normalize_timestamp ''created_at'' (r_created_at r)) (\<lambda>c.
     bindE (normalize_timestamp ''updated_at'' (r_updated_at r)) (\<lambda>t.
     bindE (normalize_timeout parse (r_timeout r)) (\<lambda>to.
     if \<not> is_dict_root (r_data r) then Inl (TypeError ''session data must be a dict'')
     else case r_version r of
       VInt v \<Rightarrow> if v < 0 then Inl (ValueError ''session version must not be negative'')
                 else Inr \<lparr>user_id = (case u of Some n \<Rightarrow> n | None \<Rightarrow> 0), group_id = g, plugin_name = p,
                            session_id = sid, state = st, sdata = r_data r, created_at = c,
                            updated_at = t, timeout = to, version = v\<rparr>
     | _ \<Rightarrow> Inl (TypeError ''session version must be an integer'')))))))))"

text \<open>\<^verbatim>\<open>SessionManager._clone\<close>: the data first, then a new session object with its checks.\<close>

definition clone_raw :: "(ustr \<Rightarrow> pyfloat option) \<Rightarrow> raw_session \<Rightarrow> pyerr + session" where
  "clone_raw parse r = bindE (clone_data (r_data r)) (\<lambda>d. post_init parse (r\<lparr>r_data := d\<rparr>))"

definition clone_session :: "(ustr \<Rightarrow> pyfloat option) \<Rightarrow> session \<Rightarrow> pyerr + session" where
  "clone_session parse s = clone_raw parse (raw_of s)"

text \<open>The methods of a session object that plugins use.\<close>

definition is_expired :: "real \<Rightarrow> session \<Rightarrow> bool" where
  "is_expired now s \<longleftrightarrow> now - updated_at s > timeout s"

definition session_update :: "real \<Rightarrow> session \<Rightarrow> session" where
  "session_update now s = s\<lparr>updated_at := now, version := version s + 1\<rparr>"

definition root_items :: "sdata \<Rightarrow> (hval \<times> hval) list" where
  "root_items d = (case root d of
      HRef a \<Rightarrow> (case objs d a of Some (ODict items) \<Rightarrow> items | _ \<Rightarrow> []) | _ \<Rightarrow> [])"

definition set_root_items :: "(hval \<times> hval) list \<Rightarrow> sdata \<Rightarrow> sdata" where
  "set_root_items items d = (case root d of
      HRef a \<Rightarrow> d\<lparr>objs := (objs d)(a \<mapsto> ODict items)\<rparr> | _ \<Rightarrow> d)"

definition session_get :: "session \<Rightarrow> ustr \<Rightarrow> hval \<Rightarrow> hval" where
  "session_get s k dflt = dget_default (root_items (sdata s)) (HStr k) dflt"

definition session_contains :: "session \<Rightarrow> ustr \<Rightarrow> bool" where
  "session_contains s k \<longleftrightarrow> HStr k \<in> set (dkeys (root_items (sdata s)))"

definition session_set :: "real \<Rightarrow> ustr \<Rightarrow> hval \<Rightarrow> session \<Rightarrow> session" where
  "session_set now k v s =
     session_update now (s\<lparr>sdata := set_root_items (dset (HStr k) v (root_items (sdata s))) (sdata s)\<rparr>)"

definition session_delete :: "real \<Rightarrow> ustr \<Rightarrow> session \<Rightarrow> bool \<times> session" where
  "session_delete now k s =
     (if \<not> session_contains s k then (False, s)
      else (True, session_update now
             (s\<lparr>sdata := set_root_items (ddel (HStr k) (root_items (sdata s))) (sdata s)\<rparr>)))"

definition session_clear :: "real \<Rightarrow> session \<Rightarrow> session" where
  "session_clear now s = session_update now (s\<lparr>sdata := set_root_items [] (sdata s)\<rparr>)"

section \<open>Well-formed sessions\<close>

definition id_ok :: "int option \<Rightarrow> bool" where
  "id_ok g \<longleftrightarrow> (case g of None \<Rightarrow> True | Some n \<Rightarrow> 0 < n)"

definition fields_ok :: "session \<Rightarrow> bool" where
  "fields_ok s \<longleftrightarrow> 0 < user_id s \<and> id_ok (group_id s) \<and> plugin_name s \<noteq> [] \<and> strip (plugin_name s) = plugin_name s
     \<and> session_id s \<noteq> [] \<and> strip (session_id s) = session_id s \<and> 0 < timeout s \<and> 0 \<le> version s"

definition data_wf :: "sdata \<Rightarrow> bool" where
  "data_wf d \<longleftrightarrow> wf_heap (objs d) (bound d) \<and> vok (bound d) (root d)"

definition session_ok :: "session \<Rightarrow> bool" where
  "session_ok s \<longleftrightarrow> fields_ok s \<and> data_wf (sdata s) \<and> is_dict_root (sdata s)"

lemma normalize_id_pos:
  "normalize_id f b v = Inr r \<Longrightarrow> id_ok r \<and> (r = None \<longrightarrow> b)"
  by (auto simp: normalize_id_def Let_def bindE_eq_Inr id_ok_def split: pyval.splits if_splits)

lemma normalize_id_int: "0 < n \<Longrightarrow> normalize_id f b (VInt n) = Inr (Some n)"
  by (simp add: normalize_id_def)

lemma normalize_plugin_name_ok: "normalize_plugin_name v = Inr p \<Longrightarrow> p \<noteq> [] \<and> strip p = p"
  by (auto simp: normalize_plugin_name_def split: pyval.splits if_splits)

lemma normalize_session_id_ok: "normalize_session_id v = Inr p \<Longrightarrow> p \<noteq> [] \<and> strip p = p"
  by (auto simp: normalize_session_id_def split: pyval.splits if_splits)

lemma normalize_timeout_pos: "normalize_timeout parse v = Inr t \<Longrightarrow> 0 < t"
  by (auto simp: normalize_timeout_def Let_def split: pyval.splits pyfloat.splits sum.splits pyerr.splits if_splits)

lemma normalize_timeout_float: "0 < t \<Longrightarrow> normalize_timeout parse (VFloat (Fin t)) = Inr t"
  by (simp add: normalize_timeout_def py_float_def)

lemma normalize_timestamp_float: "normalize_timestamp f (VFloat (Fin t)) = Inr t"
  by (simp add: normalize_timestamp_def)

lemmas normalize_back = normalize_id_int normalize_timeout_float normalize_timestamp_float

lemma post_init_ok:
  assumes "post_init parse r = Inr s"
  shows "fields_ok s \<and> is_dict_root (sdata s) \<and> sdata s = r_data r"
  using assms
  by (auto simp: post_init_def bindE_eq_Inr fields_ok_def id_ok_def split: if_splits pyval.splits option.splits
      dest!: normalize_id_pos normalize_plugin_name_ok normalize_session_id_ok normalize_timeout_pos)

lemma post_init_raw_of:
  assumes "fields_ok s" and "is_dict_root d"
  shows "post_init parse ((raw_of s)\<lparr>r_data := d\<rparr>) = Inr (s\<lparr>sdata := d\<rparr>)"
proof -
  have "normalize_id ''group_id'' True (case group_id s of None \<Rightarrow> VNone | Some g \<Rightarrow> VInt g) = Inr (group_id s)"
    using assms(1) by (auto simp: fields_ok_def id_ok_def normalize_id_def split: option.splits)
  moreover have "normalize_plugin_name (VStr (plugin_name s)) = Inr (plugin_name s)"
    "normalize_session_id (VStr (session_id s)) = Inr (session_id s)"
    using assms(1) by (simp_all add: fields_ok_def normalize_plugin_name_def normalize_session_id_def)
  ultimately show ?thesis
    using assms by (simp add: post_init_def raw_of_def normalize_back fields_ok_def)
qed

text \<open>What the data of a session denotes, and when two sessions share no object.\<close>

definition data_denotes :: "sdata \<Rightarrow> stree \<Rightarrow> bool" where
  "data_denotes d t \<longleftrightarrow> denotes (objs d) (root d) t"

lemma clone_session_data_wf:
  assumes "wf_heap h n" "vok n v" "clone_session_data h n v = Inr (w, h', n')"
  shows "wf_heap h' n' \<and> vok n' w"
proof -
  obtain s where s: "clone_value v 0 (init_clone h n) = Inr (w, s)" "h' = store s" "n' = next_addr s"
    by (rule clone_session_data_Inr [OF assms(3)])
  have "wf_state (init_clone h n)" using assms(1) by (simp add: wf_state_def init_clone_def)
  with clone_wf(1) [OF s(1)] assms(2) have "wf_state s \<and> vok (next_addr s) w"
    by (simp add: init_clone_def)
  then show ?thesis using s by (simp add: wf_state_def)
qed

text \<open>
  The clone of the data of a session: it denotes the same tree, in objects the original does not have.
\<close>

definition fresh_part :: "addr \<Rightarrow> heap \<Rightarrow> heap" where
  "fresh_part n h = (\<lambda>a. if n \<le> a then h a else None)"

definition detached :: "addr \<Rightarrow> sdata \<Rightarrow> stree \<Rightarrow> bool" where
  "detached n d t \<longleftrightarrow> denotes (fresh_part n (objs d)) (root d) t"

lemma clone_data_ok:
  assumes "data_wf d" and "clone_data d = Inr d'"
  shows "data_wf d' \<and> is_dict_root d' \<and> (\<exists>t. data_denotes d t \<and> detached (bound d) d' t)"
proof -
  obtain w h n where c: "clone_session_data (objs d) (bound d) (root d) = Inr (w, h, n)"
    and d': "d' = \<lparr>root = w, objs = h, bound = n\<rparr>"
    using assms(2) by (auto simp: clone_data_def bindE_eq_Inr)
  have wf: "wf_heap (objs d) (bound d)" "vok (bound d) (root d)" using assms(1) by (simp_all add: data_wf_def)
  from session_clone_facts [OF wf c, folded fresh_part_def] clone_session_data_wf [OF wf c] show ?thesis
    by (auto simp: d' data_wf_def is_dict_root_def data_denotes_def detached_def)
qed

lemma clone_raw_ok:
  assumes "data_wf (r_data r)" and "clone_raw parse r = Inr s"
  shows "session_ok s \<and> (\<exists>t. data_denotes (r_data r) t \<and> detached (bound (r_data r)) (sdata s) t)"
  using assms post_init_ok [of parse "r\<lparr>r_data := d\<rparr>" s for d] clone_data_ok [OF assms(1)]
  by (auto simp: clone_raw_def bindE_eq_Inr session_ok_def)

lemma clone_session_ok:
  assumes "session_ok s" and "clone_session parse s = Inr c"
  shows "c = s\<lparr>sdata := sdata c\<rparr> \<and> session_ok c
    \<and> (\<exists>t. data_denotes (sdata s) t \<and> detached (bound (sdata s)) (sdata c) t)"
proof -
  have r: "r_data (raw_of s) = sdata s" by (simp add: raw_of_def)
  obtain d where d: "clone_data (sdata s) = Inr d" "post_init parse ((raw_of s)\<lparr>r_data := d\<rparr>) = Inr c"
    using assms(2) by (auto simp: clone_session_def clone_raw_def bindE_eq_Inr r)
  have "is_dict_root d" using clone_data_ok d(1) assms(1) by (auto simp: session_ok_def)
  then have "c = s\<lparr>sdata := d\<rparr>"
    using post_init_raw_of [of s d parse] d(2) assms(1) by (simp add: session_ok_def)
  moreover have "session_ok c \<and> (\<exists>t. data_denotes (sdata s) t \<and> detached (bound (sdata s)) (sdata c) t)"
    using clone_raw_ok [of "raw_of s" parse c] assms by (simp add: clone_session_def r session_ok_def)
  ultimately show ?thesis by simp
qed

end
