(* ===== verification/Keyed_Lock.thy ===== *)
theory Keyed_Lock
  imports Prelude
begin

text \<open>
  The pool of reference-counted, re-entrant locks (\<^verbatim>\<open>core/async_keyed_lock.py\<close>). \<open>hold\<close> is cut at its
  points of suspension: entering, being woken in the queue of the lock, being cancelled there, and
  leaving. An entry is an object with an identity of its own, because the code keeps a reference to
  it across a suspension while the table of entries may change.
\<close>

section \<open>State\<close>

type_synonym task = nat

text \<open>
  \<open>locked\<close> and \<open>waiters\<close> are the \<^verbatim>\<open>asyncio.Lock\<close> of the entry: its flag and its queue in order of
  arrival.
\<close>

record entry =
  locked :: bool
  waiters :: "task list"
  users :: int
  owner :: "task option"
  depth :: int

type_synonym eid = nat

record 'k pool =
  max_keys :: int
  max_key_length :: int
  entries :: "('k, eid) dict"
  entry_objs :: "eid \<Rightarrow> entry option"
  next_eid :: eid

definition new_entry :: entry where
  "new_entry = \<lparr>locked = False, waiters = [], users = 0, owner = None, depth = 0\<rparr>"

definition new_pool :: "int \<Rightarrow> int \<Rightarrow> pyerr + 'k pool" where
  "new_pool keys len =
     (if keys \<le> 0 \<or> len \<le> 0 then Inl (ValueError ''keyed lock limits must be positive'')
      else Inr \<lparr>max_keys = keys, max_key_length = len, entries = [], entry_objs = Map.empty,
                next_eid = 0\<rparr>)"

definition active_key_count :: "'k pool \<Rightarrow> nat" where
  "active_key_count p = length (entries p)"

definition put_entry :: "eid \<Rightarrow> entry \<Rightarrow> 'k pool \<Rightarrow> 'k pool" where
  "put_entry i e p = p\<lparr>entry_objs := (entry_objs p)(i \<mapsto> e)\<rparr>"

section \<open>The operations\<close>

text \<open>
  The checks of the key, and the entry of the key, created when there is none. \<open>kstr\<close> is \<^verbatim>\<open>str(key)\<close>.
\<close>

definition find_entry :: "('k \<Rightarrow> ustr) \<Rightarrow> 'k \<Rightarrow> 'k pool \<Rightarrow> pyerr + (eid \<times> entry \<times> 'k pool)" where
  "find_entry kstr k p =
     (if kstr k = [] \<or> int (length (kstr k)) > max_key_length p
      then Inl (ValueError ''invalid keyed lock key length'')
      else case dget (entries p) k of
        Some i \<Rightarrow> (case entry_objs p i of
            Some e \<Rightarrow> Inr (i, e, p)
          | None \<Rightarrow> Inr (i, new_entry, p))
      | None \<Rightarrow>
          (if int (length (entries p)) \<ge> max_keys p
           then Inl (RuntimeError ''keyed lock pool capacity exceeded'')
           else Inr (next_eid p, new_entry,
                     p\<lparr>entries := dset k (next_eid p) (entries p), next_eid := next_eid p + 1\<rparr>)))"

text \<open>
  \<open>hold\<close> up to its first suspension: the result tells the entry and whether the lock is held already.
  \<^verbatim>\<open>Lock.acquire\<close> succeeds at once when the lock is free and nobody waits; otherwise the task joins
  the queue.
\<close>

definition hold_enter ::
  "('k \<Rightarrow> ustr) \<Rightarrow> task \<Rightarrow> 'k \<Rightarrow> 'k pool \<Rightarrow> (pyerr + eid \<times> bool) \<times> 'k pool" where
  "hold_enter kstr t k p =
     (case find_entry kstr k p of
        Inl err \<Rightarrow> (Inl err, p)
      | Inr (i, e, q) \<Rightarrow>
          (let e1 = e\<lparr>users := users e + 1\<rparr> in
           if owner e1 = Some t then (Inr (i, True), put_entry i (e1\<lparr>depth := depth e1 + 1\<rparr>) q)
           else if \<not> locked e1 \<and> waiters e1 = []
           then (Inr (i, True), put_entry i (e1\<lparr>locked := True, owner := Some t, depth := 1\<rparr>) q)
           else (Inr (i, False), put_entry i (e1\<lparr>waiters := waiters e1 @ [t]\<rparr>) q)))"

text \<open>The first task of the queue of a free lock is woken and owns the lock.\<close>

definition can_resume :: "task \<Rightarrow> eid \<Rightarrow> 'k pool \<Rightarrow> bool" where
  "can_resume t i p \<longleftrightarrow> (case entry_objs p i of
      Some e \<Rightarrow> \<not> locked e \<and> (case waiters e of w # _ \<Rightarrow> w = t | [] \<Rightarrow> False)
    | None \<Rightarrow> False)"

definition hold_resume :: "task \<Rightarrow> eid \<Rightarrow> 'k pool \<Rightarrow> 'k pool" where
  "hold_resume t i p = (case entry_objs p i of
      Some e \<Rightarrow> put_entry i (e\<lparr>waiters := tl (waiters e), locked := True, owner := Some t, depth := 1\<rparr>) p
    | None \<Rightarrow> p)"

text \<open>The end of \<open>hold\<close>: one user less, and an entry nobody uses leaves the table.\<close>

definition drop_user :: "'k \<Rightarrow> eid \<Rightarrow> 'k pool \<Rightarrow> pyerr option \<times> 'k pool" where
  "drop_user k i p = (case entry_objs p i of
      Some e \<Rightarrow>
        (let e1 = e\<lparr>users := users e - 1\<rparr>; q = put_entry i e1 p in
         if users e1 = 0 then
           (if owner e1 \<noteq> None \<or> depth e1 \<noteq> 0 \<or> locked e1
            then (Some (RuntimeError ''idle keyed lock entry still has an owner''), q)
            else if dget (entries q) k = Some i then (None, q\<lparr>entries := ddel k (entries q)\<rparr>)
            else (None, q))
         else (None, q))
    | None \<Rightarrow> (None, p))"

text \<open>Cancellation while waiting: the task leaves the queue and then the pool.\<close>

definition hold_cancel :: "task \<Rightarrow> 'k \<Rightarrow> eid \<Rightarrow> 'k pool \<Rightarrow> pyerr option \<times> 'k pool" where
  "hold_cancel t k i p = (case entry_objs p i of
      Some e \<Rightarrow> drop_user k i (put_entry i (e\<lparr>waiters := remove1 t (waiters e)\<rparr>) p)
    | None \<Rightarrow> (None, p))"

text \<open>
  Leaving the body of \<open>hold\<close>. When the check of the owner raises, the entry keeps its count: the
  exception leaves the \<^verbatim>\<open>finally\<close> block before the last part of it.
\<close>

definition hold_leave :: "task \<Rightarrow> 'k \<Rightarrow> eid \<Rightarrow> 'k pool \<Rightarrow> pyerr option \<times> 'k pool" where
  "hold_leave t k i p = (case entry_objs p i of
      Some e \<Rightarrow>
        (if owner e \<noteq> Some t \<or> depth e \<le> 0
         then (Some (RuntimeError ''keyed lock released by a non-owner task''), p)
         else
           let e1 = e\<lparr>depth := depth e - 1\<rparr>;
               e2 = (if depth e1 = 0 then e1\<lparr>owner := None, locked := False\<rparr> else e1)
           in drop_user k i (put_entry i e2 p))
    | None \<Rightarrow> (None, p))"

section \<open>The pool as a transition system\<close>

text \<open>
  \<open>holding\<close> are the bodies that run, each with the entry its \<open>hold\<close> refers to; \<open>waiting\<close> tells where a
  suspended task waits. \<open>raised\<close> collects the errors of the internal checks.
\<close>

record 'k lock_sys =
  lpool :: "'k pool"
  holding :: "(task \<times> 'k \<times> eid) multiset"
  waiting :: "task \<Rightarrow> ('k \<times> eid) option"
  raised :: "pyerr list"

definition note_err :: "pyerr option \<Rightarrow> pyerr list \<Rightarrow> pyerr list" where
  "note_err r es = (case r of Some e \<Rightarrow> e # es | None \<Rightarrow> es)"

lemma note_err_simps [simp]: "note_err None es = es" "note_err (Some e) es = e # es"
  by (simp_all add: note_err_def)

inductive lock_step :: "('k \<Rightarrow> ustr) \<Rightarrow> 'k lock_sys \<Rightarrow> 'k lock_sys \<Rightarrow> bool" for kstr where
  enter_now: "waiting s t = None \<Longrightarrow> hold_enter kstr t k (lpool s) = (Inr (i, True), q) \<Longrightarrow>
    lock_step kstr s (s\<lparr>lpool := q, holding := add_mset (t, k, i) (holding s)\<rparr>)"
| enter_wait: "waiting s t = None \<Longrightarrow> hold_enter kstr t k (lpool s) = (Inr (i, False), q) \<Longrightarrow>
    lock_step kstr s (s\<lparr>lpool := q, waiting := (waiting s)(t \<mapsto> (k, i))\<rparr>)"
| enter_fail: "waiting s t = None \<Longrightarrow> hold_enter kstr t k (lpool s) = (Inl err, q) \<Longrightarrow>
    lock_step kstr s (s\<lparr>lpool := q\<rparr>)"
| resume: "waiting s t = Some (k, i) \<Longrightarrow> can_resume t i (lpool s) \<Longrightarrow>
    lock_step kstr s (s\<lparr>lpool := hold_resume t i (lpool s),
      holding := add_mset (t, k, i) (holding s), waiting := (waiting s)(t := None)\<rparr>)"
| cancel: "waiting s t = Some (k, i) \<Longrightarrow> hold_cancel t k i (lpool s) = (r, q) \<Longrightarrow>
    lock_step kstr s (s\<lparr>lpool := q, waiting := (waiting s)(t := None), raised := note_err r (raised s)\<rparr>)"
| leave: "waiting s t = None \<Longrightarrow> (t, k, i) \<in># holding s \<Longrightarrow> hold_leave t k i (lpool s) = (r, q) \<Longrightarrow>
    lock_step kstr s (s\<lparr>lpool := q, holding := holding s - {#(t, k, i)#},
      raised := note_err r (raised s)\<rparr>)"

definition lock_init :: "'k pool \<Rightarrow> 'k lock_sys" where
  "lock_init p = \<lparr>lpool = p, holding = {#}, waiting = (\<lambda>_. None), raised = []\<rparr>"

inductive lock_reach :: "('k \<Rightarrow> ustr) \<Rightarrow> 'k pool \<Rightarrow> 'k lock_sys \<Rightarrow> bool" for kstr p where
  start: "lock_reach kstr p (lock_init p)"
| step: "lock_reach kstr p s \<Longrightarrow> lock_step kstr s s' \<Longrightarrow> lock_reach kstr p s'"

section \<open>The invariant\<close>

text \<open>The bodies that hold the lock of a key.\<close>

definition bodies :: "'k \<Rightarrow> 'k lock_sys \<Rightarrow> (task \<times> 'k \<times> eid) multiset" where
  "bodies k s = filter_mset (\<lambda>x. fst (snd x) = k) (holding s)"

text \<open>
  What an entry of the table satisfies: it counts its users, its queue is the tasks that wait for it,
  and its owner is the only task with a body in it.
\<close>

definition entry_ok :: "'k lock_sys \<Rightarrow> 'k \<Rightarrow> eid \<Rightarrow> entry \<Rightarrow> bool" where
  "entry_ok s k i e \<longleftrightarrow>
     depth e = int (size (bodies k s)) \<and> users e = depth e + int (length (waiters e)) \<and> 0 < users e
     \<and> distinct (waiters e) \<and> (\<forall>t. t \<in> set (waiters e) \<longleftrightarrow> waiting s t = Some (k, i))
     \<and> locked e = (owner e \<noteq> None) \<and> (owner e = None \<longrightarrow> depth e = 0) \<and> (owner e \<noteq> None \<longrightarrow> 0 < depth e)
     \<and> (\<forall>t j. (t, k, j) \<in># bodies k s \<longrightarrow> owner e = Some t \<and> j = i)"

definition key_ok :: "'k lock_sys \<Rightarrow> 'k \<Rightarrow> bool" where
  "key_ok s k \<longleftrightarrow> (\<forall>t j. waiting s t = Some (k, j) \<longrightarrow> dget (entries (lpool s)) k = Some j)
     \<and> (case dget (entries (lpool s)) k of
         None \<Rightarrow> bodies k s = {#}
       | Some i \<Rightarrow> i < next_eid (lpool s) \<and> (\<exists>e. entry_objs (lpool s) i = Some e \<and> entry_ok s k i e))"

definition entries_inj :: "('k, eid) dict \<Rightarrow> bool" where
  "entries_inj d \<longleftrightarrow> (\<forall>k k' i. dget d k = Some i \<longrightarrow> dget d k' = Some i \<longrightarrow> k = k')"

definition lock_inv :: "'k lock_sys \<Rightarrow> bool" where
  "lock_inv s \<longleftrightarrow> dict_ok (entries (lpool s)) \<and> entries_inj (entries (lpool s))
     \<and> int (length (entries (lpool s))) \<le> max_keys (lpool s) \<and> raised s = [] \<and> (\<forall>k. key_ok s k)"

lemma key_ok_frame:
  assumes "key_ok s k'"
    and "dget (entries (lpool s')) k' = dget (entries (lpool s)) k'"
    and "next_eid (lpool s) \<le> next_eid (lpool s')"
    and "\<And>i. dget (entries (lpool s)) k' = Some i \<Longrightarrow> entry_objs (lpool s') i = entry_objs (lpool s) i"
    and "bodies k' s' = bodies k' s"
    and "\<And>t i. waiting s' t = Some (k', i) \<longleftrightarrow> waiting s t = Some (k', i)"
  shows "key_ok s' k'"
proof (cases "dget (entries (lpool s)) k'")
  case None
  then show ?thesis using assms by (simp add: key_ok_def)
next
  case (Some i)
  then obtain e where e: "i < next_eid (lpool s)" "entry_objs (lpool s) i = Some e" "entry_ok s k' i e"
    using assms(1) by (auto simp: key_ok_def)
  have "entry_ok s' k' i e"
    using e(3) assms(5,6) by (auto simp: entry_ok_def)
  moreover have "\<forall>t j. waiting s' t = Some (k', j) \<longrightarrow> dget (entries (lpool s')) k' = Some j"
    using assms(1,2,6) by (simp add: key_ok_def)
  ultimately show ?thesis
    using e assms(2-4) Some by (auto simp: key_ok_def)
qed

text \<open>
  Every step touches one key and its entry: when the key ends well and the table keeps its shape, the
  invariant holds again.
\<close>

lemma lock_inv_frame:
  assumes inv: "lock_inv s" and k: "key_ok s' k"
    and tab: "dict_ok (entries (lpool s'))" "entries_inj (entries (lpool s'))"
      "int (length (entries (lpool s'))) \<le> max_keys (lpool s')" "raised s' = []"
    and other: "\<And>k'. k' \<noteq> k \<Longrightarrow> dget (entries (lpool s')) k' = dget (entries (lpool s)) k'"
      "next_eid (lpool s) \<le> next_eid (lpool s')"
      "\<And>k' j. k' \<noteq> k \<Longrightarrow> dget (entries (lpool s)) k' = Some j \<Longrightarrow> entry_objs (lpool s') j = entry_objs (lpool s) j"
      "\<And>k'. k' \<noteq> k \<Longrightarrow> bodies k' s' = bodies k' s"
      "\<And>t k' j. k' \<noteq> k \<Longrightarrow> waiting s' t = Some (k', j) \<longleftrightarrow> waiting s t = Some (k', j)"
  shows "lock_inv s'"
proof -
  have "key_ok s' k'" for k'
  proof (cases "k' = k")
    case False
    have "key_ok s k'" using inv by (simp add: lock_inv_def)
    then show ?thesis by (rule key_ok_frame) (use False other in auto)
  qed (simp add: k)
  with tab show ?thesis by (simp add: lock_inv_def)
qed

lemma lock_inv_key: "lock_inv s \<Longrightarrow> key_ok s k"
  by (simp add: lock_inv_def)

lemma lock_inv_tab:
  assumes "lock_inv s"
  shows "dict_ok (entries (lpool s))" "entries_inj (entries (lpool s))"
    "int (length (entries (lpool s))) \<le> max_keys (lpool s)" "raised s = []"
  using assms by (simp_all add: lock_inv_def)

lemma key_okD:
  assumes "key_ok s k" "dget (entries (lpool s)) k = Some i"
  obtains e where "entry_objs (lpool s) i = Some e" "entry_ok s k i e" "i < next_eid (lpool s)"
  using assms by (auto simp: key_ok_def)

lemma entry_owner: "entry_ok s k i e \<Longrightarrow> (t, k, j) \<in># bodies k s \<Longrightarrow> owner e = Some t \<and> j = i"
  unfolding entry_ok_def by blast

lemma entry_waiters: "entry_ok s k i e \<Longrightarrow> t \<in> set (waiters e) \<longleftrightarrow> waiting s t = Some (k, i)"
  unfolding entry_ok_def by blast

lemma entry_owner_depth: "entry_ok s k i e \<Longrightarrow> owner e = Some t \<Longrightarrow> 0 < depth e"
  unfolding entry_ok_def by blast

text \<open>A body or a waiting task refers to the entry that the table has for its key.\<close>

lemma holding_entry:
  assumes "lock_inv s" "(t, k, i) \<in># holding s"
  shows "dget (entries (lpool s)) k = Some i"
proof -
  have b: "(t, k, i) \<in># bodies k s" using assms(2) by (simp add: bodies_def)
  have k: "key_ok s k" using assms(1) by (rule lock_inv_key)
  show ?thesis
  proof (cases "dget (entries (lpool s)) k")
    case None
    then show ?thesis using k b by (auto simp: key_ok_def)
  next
    case (Some j)
    then show ?thesis using k b by (blast elim: key_okD dest: entry_owner)
  qed
qed

lemma waiting_entry:
  "lock_inv s \<Longrightarrow> waiting s t = Some (k, i) \<Longrightarrow> dget (entries (lpool s)) k = Some i"
  using lock_inv_key [of s k] by (auto simp: key_ok_def)

lemma inj_other:
  "entries_inj d \<Longrightarrow> dget d k = Some i \<Longrightarrow> k' \<noteq> k \<Longrightarrow> dget d k' = Some j \<Longrightarrow> j \<noteq> i"
  by (auto simp: entries_inj_def)

lemma put_entry_simps [simp]:
  "entries (put_entry i e p) = entries p" "next_eid (put_entry i e p) = next_eid p"
  "max_keys (put_entry i e p) = max_keys p" "max_key_length (put_entry i e p) = max_key_length p"
  "entry_objs (put_entry i e p) = (entry_objs p)(i \<mapsto> e)"
  by (simp_all add: put_entry_def)

lemma update_new_length: "dget d k = None \<Longrightarrow> length (dset k v d) = length d + 1"
  by (induction d) auto

section \<open>Every step keeps the invariant\<close>

lemma find_entry_cases:
  assumes "find_entry kstr k p = Inr (i, e, q)"
  obtains (old) "dget (entries p) k = Some i" "q = p"
      "entry_objs p i = Some e \<or> entry_objs p i = None \<and> e = new_entry"
    | (new) "dget (entries p) k = None" "i = next_eid p" "e = new_entry"
      "q = p\<lparr>entries := dset k i (entries p), next_eid := next_eid p + 1\<rparr>"
      "int (length (entries p)) < max_keys p"
  using assms by (auto simp: find_entry_def split: if_splits option.splits)

text \<open>Counting the new user of an entry, whether it existed or not.\<close>

definition pre_entry :: "'k lock_sys \<Rightarrow> 'k \<Rightarrow> eid \<Rightarrow> entry \<Rightarrow> bool" where
  "pre_entry s k i e \<longleftrightarrow> depth e = int (size (bodies k s)) \<and> users e = depth e + int (length (waiters e))
     \<and> distinct (waiters e) \<and> (\<forall>t j. waiting s t = Some (k, j) \<longleftrightarrow> t \<in> set (waiters e) \<and> j = i)
     \<and> locked e = (owner e \<noteq> None) \<and> (owner e = None \<longrightarrow> depth e = 0) \<and> (owner e \<noteq> None \<longrightarrow> 0 < depth e)
     \<and> (\<forall>t j. (t, k, j) \<in># bodies k s \<longrightarrow> owner e = Some t \<and> j = i)"

lemma entry_ok_pre:
  assumes "key_ok s k" "dget (entries (lpool s)) k = Some i" "entry_ok s k i e"
  shows "pre_entry s k i e"
proof -
  have "waiting s t = Some (k, j) \<longleftrightarrow> t \<in> set (waiters e) \<and> j = i" for t j
    using assms by (auto simp: key_ok_def entry_ok_def)
  with assms(3) show ?thesis by (auto simp: pre_entry_def entry_ok_def)
qed

lemma find_entry_pre:
  assumes inv: "lock_inv s" and f: "find_entry kstr k (lpool s) = Inr (i, e, q)"
  shows "pre_entry s k i e" and "dget (entries q) k = Some i" and "i < next_eid q"
    and "dict_ok (entries q)" and "entries_inj (entries q)" and "int (length (entries q)) \<le> max_keys q"
    and "next_eid (lpool s) \<le> next_eid q" and "entry_objs q = entry_objs (lpool s)"
    and "\<And>k'. k' \<noteq> k \<Longrightarrow> dget (entries q) k' = dget (entries (lpool s)) k'"
proof -
  note tab = lock_inv_tab [OF inv]
  have kk: "\<And>k' j. dget (entries (lpool s)) k' = Some j \<Longrightarrow> j < next_eid (lpool s)"
    by (metis inv key_okD lock_inv_key)
  from f have "pre_entry s k i e \<and> dget (entries q) k = Some i \<and> i < next_eid q \<and> dict_ok (entries q)
    \<and> entries_inj (entries q) \<and> int (length (entries q)) \<le> max_keys q \<and> next_eid (lpool s) \<le> next_eid q
    \<and> entry_objs q = entry_objs (lpool s) \<and> (\<forall>k'. k' \<noteq> k \<longrightarrow> dget (entries q) k' = dget (entries (lpool s)) k')"
  proof (cases rule: find_entry_cases)
    case old
    then obtain e' where e': "entry_objs (lpool s) i = Some e'" "entry_ok s k i e'" "i < next_eid (lpool s)"
      using lock_inv_key [OF inv, of k] by (elim key_okD)
    with old have "pre_entry s k i e"
      using entry_ok_pre [OF lock_inv_key [OF inv]] by simp
    then show ?thesis using old tab e' by simp
  next
    case new
    have "bodies k s = {#}" "\<forall>t j. waiting s t \<noteq> Some (k, j)"
      using new(1) lock_inv_key [OF inv, of k] by (auto simp: key_ok_def)
    then have "pre_entry s k i e" using new by (simp add: pre_entry_def new_entry_def)
    moreover have "entries_inj (entries q)"
      using tab(2) new(2,4) by (auto simp: entries_inj_def split: if_splits dest: kk)
    moreover have "length (entries q) = length (entries (lpool s)) + 1"
      using new(1,4) by (simp add: update_new_length)
    ultimately show ?thesis using new tab by (auto intro: dict_ok_dset)
  qed
  then show "pre_entry s k i e" "dget (entries q) k = Some i" "i < next_eid q" "dict_ok (entries q)"
    "entries_inj (entries q)" "int (length (entries q)) \<le> max_keys q" "next_eid (lpool s) \<le> next_eid q"
    "entry_objs q = entry_objs (lpool s)" "\<And>k'. k' \<noteq> k \<Longrightarrow> dget (entries q) k' = dget (entries (lpool s)) k'"
    by blast+
qed

lemma hold_enter_split:
  assumes "hold_enter kstr t k p = (Inr (i, b), q)"
  obtains e p1 where "find_entry kstr k p = Inr (i, e, p1)"
    and "q = put_entry i (if owner e = Some t then e\<lparr>users := users e + 1, depth := depth e + 1\<rparr>
          else if \<not> locked e \<and> waiters e = []
          then e\<lparr>users := users e + 1, locked := True, owner := Some t, depth := 1\<rparr>
          else e\<lparr>users := users e + 1, waiters := waiters e @ [t]\<rparr>) p1"
    and "b \<longleftrightarrow> owner e = Some t \<or> \<not> locked e \<and> waiters e = []"
  using assms by (auto simp: hold_enter_def Let_def split: sum.splits if_splits)

lemma enter_inv:
  assumes inv: "lock_inv s" and w: "waiting s t = None"
    and h: "hold_enter kstr t k (lpool s) = (Inr (i, b), q)"
    and s': "lpool s' = q" "raised s' = raised s"
      "b \<Longrightarrow> holding s' = add_mset (t, k, i) (holding s) \<and> waiting s' = waiting s"
      "\<not> b \<Longrightarrow> holding s' = holding s \<and> waiting s' = (waiting s)(t \<mapsto> (k, i))"
  shows "lock_inv s'"
proof -
  obtain e p1 where f: "find_entry kstr k (lpool s) = Inr (i, e, p1)"
    and q: "q = put_entry i (if owner e = Some t then e\<lparr>users := users e + 1, depth := depth e + 1\<rparr>
          else if \<not> locked e \<and> waiters e = []
          then e\<lparr>users := users e + 1, locked := True, owner := Some t, depth := 1\<rparr>
          else e\<lparr>users := users e + 1, waiters := waiters e @ [t]\<rparr>) p1"
    and b: "b \<longleftrightarrow> owner e = Some t \<or> \<not> locked e \<and> waiters e = []"
    using hold_enter_split [OF h] by blast
  note pre = find_entry_pre [OF inv f]
  have tw: "t \<notin> set (waiters e)" using w pre(1) by (metis option.distinct(1) pre_entry_def)
  have bodies': "bodies k' s' = (if b \<and> k' = k then add_mset (t, k, i) (bodies k' s) else bodies k' s)" for k'
    using s'(3,4) by (cases b) (auto simp: bodies_def)
  have wait': "waiting s' t' = Some (k', j) \<longleftrightarrow> waiting s t' = Some (k', j) \<or> \<not> b \<and> t' = t \<and> k' = k \<and> j = i"
    for t' k' j using s'(3,4) w by (cases b) auto
  have "key_ok s' k"
    using pre(1-3) s'(1) q b tw
    by (auto simp: key_ok_def entry_ok_def pre_entry_def bodies' wait')
  then show ?thesis
  proof (rule lock_inv_frame [OF inv])
    show "dict_ok (entries (lpool s'))" "entries_inj (entries (lpool s'))" "raised s' = []"
      "int (length (entries (lpool s'))) \<le> max_keys (lpool s')" "next_eid (lpool s) \<le> next_eid (lpool s')"
      using pre s' q lock_inv_tab [OF inv] by simp_all
  next
    fix k' j assume "k' \<noteq> k" "dget (entries (lpool s)) k' = Some j"
    moreover from this have "j \<noteq> i"
      using pre(2,5,9) by (metis inj_other)
    ultimately show "entry_objs (lpool s') j = entry_objs (lpool s) j"
      using pre(8) s' q by simp
  qed (use pre s' q in \<open>auto simp: bodies' wait'\<close>)
qed

lemma resume_inv:
  assumes inv: "lock_inv s" and w: "waiting s t = Some (k, i)" and c: "can_resume t i (lpool s)"
    and s': "lpool s' = hold_resume t i (lpool s)" "raised s' = raised s"
      "holding s' = add_mset (t, k, i) (holding s)" "waiting s' = (waiting s)(t := None)"
  shows "lock_inv s'"
proof -
  have g: "dget (entries (lpool s)) k = Some i" using waiting_entry [OF inv w] .
  obtain e where e: "entry_objs (lpool s) i = Some e" "entry_ok s k i e" "i < next_eid (lpool s)"
    using key_okD [OF lock_inv_key [OF inv] g] by blast
  have pre: "pre_entry s k i e" using entry_ok_pre [OF lock_inv_key [OF inv] g e(2)] .
  obtain ws where ws: "waiters e = t # ws" and "\<not> locked e"
    using c e(1) by (auto simp: can_resume_def split: list.splits)
  then have own: "owner e = None" "depth e = 0" using e(2) by (auto simp: entry_ok_def)
  have b0: "bodies k s = {#}" using own pre by (auto simp: pre_entry_def)
  have bodies': "bodies k' s' = (if k' = k then add_mset (t, k, i) (bodies k' s) else bodies k' s)" for k'
    using s'(3) by (auto simp: bodies_def)
  have q: "lpool s' = put_entry i (e\<lparr>waiters := ws, locked := True, owner := Some t, depth := 1\<rparr>) (lpool s)"
    using s'(1) e(1) ws by (simp add: hold_resume_def)
  have "key_ok s' k"
    using pre g e own ws q b0 s'(4)
    by (auto simp: key_ok_def entry_ok_def pre_entry_def bodies')
  then show ?thesis
  proof (rule lock_inv_frame [OF inv])
    fix k' j assume "k' \<noteq> k" "dget (entries (lpool s)) k' = Some j"
    then show "entry_objs (lpool s') j = entry_objs (lpool s) j"
      using q inj_other [OF lock_inv_tab(2) [OF inv] g] by auto
  qed (use lock_inv_tab [OF inv] q s' w in \<open>auto simp: bodies'\<close>)
qed

text \<open>
  The end of \<open>hold\<close>, once the entry is as the tasks that stay see it: it keeps the invariant and its
  check never fails.
\<close>

lemma drop_user_inv:
  assumes inv: "lock_inv s" and g: "dget (entries (lpool s)) k = Some i"
    and e: "entry_objs (lpool s) i = Some e0"
    and pre: "pre_entry s' k i (e\<lparr>users := users e - 1\<rparr>)"
    and d: "drop_user k i (put_entry i e (lpool s)) = (r, q)"
    and s': "lpool s' = q" "raised s' = note_err r (raised s)"
      "\<And>k'. k' \<noteq> k \<Longrightarrow> bodies k' s' = bodies k' s"
      "\<And>t k' j. k' \<noteq> k \<Longrightarrow> waiting s' t = Some (k', j) \<longleftrightarrow> waiting s t = Some (k', j)"
  shows "lock_inv s' \<and> r = None"
proof -
  let ?e1 = "e\<lparr>users := users e - 1\<rparr>"
  let ?p1 = "put_entry i ?e1 (put_entry i e (lpool s))"
  have i: "i < next_eid (lpool s)"
    using key_okD [OF lock_inv_key [OF inv] g] by blast
  have zero: "users ?e1 = 0 \<Longrightarrow> owner ?e1 = None \<and> depth ?e1 = 0 \<and> \<not> locked ?e1 \<and> waiters ?e1 = [] \<and> bodies k s' = {#}"
    using pre by (cases "owner e") (auto simp: pre_entry_def)
  have rq: "r = None \<and> q = (if users ?e1 = 0 then ?p1\<lparr>entries := ddel k (entries ?p1)\<rparr> else ?p1)"
    using d zero g by (auto simp: drop_user_def Let_def split: if_splits)
  have k: "key_ok s' k"
  proof (cases "users ?e1 = 0")
    case True
    then show ?thesis using rq s'(1) zero pre by (auto simp: key_ok_def pre_entry_def)
  next
    case False
    have "0 < users ?e1" using False pre by (auto simp: pre_entry_def)
    then show ?thesis using rq s'(1) pre g i False
      by (auto simp: key_ok_def pre_entry_def entry_ok_def)
  qed
  note tab = lock_inv_tab [OF inv]
  have len: "length (ddel k (entries (lpool s))) \<le> length (entries (lpool s))"
    by (simp add: AList.delete_eq)
  have "lock_inv s'"
  proof (rule lock_inv_frame [OF inv k])
    show "dict_ok (entries (lpool s'))" using rq s'(1) tab(1) by (simp add: dict_ok_ddel)
    show "entries_inj (entries (lpool s'))" using rq s'(1) tab(2) by (auto simp: entries_inj_def)
    show "int (length (entries (lpool s'))) \<le> max_keys (lpool s')" using rq s'(1) tab(3) len by auto
    show "raised s' = []" using rq s'(2) tab(4) by simp
  next
    fix k' j assume "k' \<noteq> k" "dget (entries (lpool s)) k' = Some j"
    then show "entry_objs (lpool s') j = entry_objs (lpool s) j"
      using rq s'(1) inj_other [OF tab(2) g] by auto
  qed (use rq s' in auto)
  with rq show ?thesis by simp
qed

lemma cancel_inv:
  assumes inv: "lock_inv s" and w: "waiting s t = Some (k, i)"
    and h: "hold_cancel t k i (lpool s) = (r, q)"
    and s': "lpool s' = q" "raised s' = note_err r (raised s)"
      "holding s' = holding s" "waiting s' = (waiting s)(t := None)"
  shows "lock_inv s' \<and> r = None"
proof -
  have g: "dget (entries (lpool s)) k = Some i" using waiting_entry [OF inv w] .
  obtain e where e: "entry_objs (lpool s) i = Some e" "entry_ok s k i e"
    using key_okD [OF lock_inv_key [OF inv] g] by blast
  have pre: "pre_entry s k i e" using entry_ok_pre [OF lock_inv_key [OF inv] g e(2)] .
  have t: "t \<in> set (waiters e)" using e(2) w by (auto simp: entry_ok_def)
  then have "length (waiters e) = Suc (length (remove1 t (waiters e)))"
    by (metis One_nat_def Suc_pred length_pos_if_in_set length_remove1)
  moreover have "bodies k' s' = bodies k' s" for k' using s'(3) by (simp add: bodies_def)
  ultimately have "pre_entry s' k i (e\<lparr>waiters := remove1 t (waiters e), users := users e - 1\<rparr>)"
    using pre s'(4) by (auto simp: pre_entry_def)
  moreover have "drop_user k i (put_entry i (e\<lparr>waiters := remove1 t (waiters e)\<rparr>) (lpool s)) = (r, q)"
    using h e(1) by (simp add: hold_cancel_def)
  ultimately show ?thesis
    using s' w by (intro drop_user_inv [OF inv g e(1)]) (auto simp: bodies_def)
qed

lemma size_bodies_remove:
  assumes "(t, k, i) \<in># bodies k s"
  shows "size (bodies k s - {#(t, k, i)#}) + 1 = size (bodies k s)"
proof -
  obtain B where "bodies k s = add_mset (t, k, i) B"
    using assms by (blast dest: multi_member_split)
  then show ?thesis by simp
qed


lemma leave_inv:
  assumes inv: "lock_inv s" and w: "(t, k, i) \<in># holding s"
    and h: "hold_leave t k i (lpool s) = (r, q)"
    and s': "lpool s' = q" "raised s' = note_err r (raised s)"
      "holding s' = holding s - {#(t, k, i)#}" "waiting s' = waiting s"
  shows "lock_inv s' \<and> r = None"
proof -
  have g: "dget (entries (lpool s)) k = Some i" using holding_entry [OF inv w] .
  obtain e where e: "entry_objs (lpool s) i = Some e" "entry_ok s k i e"
    using key_okD [OF lock_inv_key [OF inv] g] by blast
  have pre: "pre_entry s k i e" using entry_ok_pre [OF lock_inv_key [OF inv] g e(2)] .
  have b: "(t, k, i) \<in># bodies k s" using w by (simp add: bodies_def)
  have own: "owner e = Some t" "0 < depth e"
    using entry_owner [OF e(2) b] entry_owner_depth [OF e(2)] by blast+
  let ?e2 = "if depth e - 1 = 0 then e\<lparr>depth := depth e - 1, owner := None, locked := False\<rparr>
             else e\<lparr>depth := depth e - 1\<rparr>"
  have bodies': "bodies k' s' = (if k' = k then bodies k' s - {#(t, k, i)#} else bodies k' s)" for k'
    using s'(3) by (auto simp: bodies_def)
  note size = size_bodies_remove [OF b]
  have "pre_entry s' k i (?e2\<lparr>users := users ?e2 - 1\<rparr>)"
    using pre own size s'(4) by (auto simp: pre_entry_def bodies' dest: in_diffD)
  moreover have "drop_user k i (put_entry i ?e2 (lpool s)) = (r, q)"
    using h e(1) own by (auto simp: hold_leave_def Let_def split: if_splits)
  ultimately show ?thesis
    using s' by (intro drop_user_inv [OF inv g e(1)]) (auto simp: bodies')
qed

lemma lock_step_inv: "lock_step kstr s s' \<Longrightarrow> lock_inv s \<Longrightarrow> lock_inv s'"
proof (induction rule: lock_step.induct)
  case (enter_fail s t k err q)
  then have "q = lpool s" by (auto simp: hold_enter_def Let_def split: sum.splits if_splits)
  then show ?case using enter_fail by simp
next
  case (cancel s t k i r q)
  then show ?case using cancel_inv [OF cancel(3,1,2)] by simp
next
  case (leave s t k i r q)
  then show ?case using leave_inv [OF leave(4,2,3)] by simp
next
  case (enter_now s t k i q)
  show ?case by (rule enter_inv [OF enter_now(3,1,2)]) simp_all
next
  case (enter_wait s t k i q)
  show ?case by (rule enter_inv [OF enter_wait(3,1,2)]) simp_all
next
  case (resume s t k i)
  show ?case by (rule resume_inv [OF resume(3,1,2)]) simp_all
qed

lemma lock_init_inv: "new_pool m l = Inr p \<Longrightarrow> lock_inv (lock_init p)"
  by (auto simp: new_pool_def lock_init_def lock_inv_def key_ok_def bodies_def entries_inj_def
      split: if_splits)

lemma lock_reach_inv: "lock_reach kstr p s \<Longrightarrow> new_pool m l = Inr p \<Longrightarrow> lock_inv s"
  by (induction rule: lock_reach.induct) (auto intro: lock_step_inv lock_init_inv)

lemma lock_exclusive:
  assumes "lock_inv s" "(t, k, i) \<in># holding s" "(t', k, i') \<in># holding s"
  shows "t' = t \<and> i' = i"
proof -
  have "dget (entries (lpool s)) k = Some i" using holding_entry [OF assms(1,2)] .
  then obtain e where e: "entry_ok s k i e"
    using key_okD [OF lock_inv_key [OF assms(1)]] by blast
  have "(t, k, i) \<in># bodies k s" "(t', k, i') \<in># bodies k s" using assms(2,3) by (auto simp: bodies_def)
  then show ?thesis using entry_owner [OF e, of t i] entry_owner [OF e, of t' i'] by simp
qed

section \<open>The contract of the pool\<close>

text \<open>
  What a component that guards its state with the pool relies on: \<open>inside\<close> tells which task runs a body
  for a key; at most one does, and a step of another task takes nobody out.
\<close>

definition inside :: "'k lock_sys \<Rightarrow> task \<Rightarrow> 'k \<Rightarrow> bool" where
  "inside s t k \<longleftrightarrow> (\<exists>i. (t, k, i) \<in># holding s)"

locale exclusion =
  fixes valid :: "'s \<Rightarrow> bool" and holds :: "'s \<Rightarrow> 't \<Rightarrow> 'k \<Rightarrow> bool"
  assumes exclusive: "valid s \<Longrightarrow> holds s t k \<Longrightarrow> holds s t' k \<Longrightarrow> t' = t"
begin

text \<open>The task inside a key, when there is one, is a partial function of the key.\<close>

lemma holder_unique: "valid s \<Longrightarrow> holds s t k \<Longrightarrow> (\<exists>!t. holds s t k)"
  using exclusive by blast

lemma others_outside: "valid s \<Longrightarrow> holds s t k \<Longrightarrow> t' \<noteq> t \<Longrightarrow> \<not> holds s t' k"
  using exclusive by blast

end

interpretation klock: exclusion lock_inv inside
  by unfold_locales (auto simp: inside_def dest: lock_exclusive)

text \<open>An entry is in the table exactly while a task uses its key.\<close>

lemma entry_used:
  assumes "lock_inv s"
  shows "k \<in> set (dkeys (entries (lpool s))) \<longleftrightarrow> (\<exists>t. inside s t k) \<or> (\<exists>t i. waiting s t = Some (k, i))"
proof
  assume "k \<in> set (dkeys (entries (lpool s)))"
  then obtain i where g: "dget (entries (lpool s)) k = Some i"
    by (cases "dget (entries (lpool s)) k") (auto simp: dget_None_iff)
  then obtain e where e: "entry_ok s k i e"
    using key_okD [OF lock_inv_key [OF assms]] by blast
  have "bodies k s \<noteq> {#} \<or> waiters e \<noteq> []"
    using e by (auto simp: entry_ok_def)
  then show "(\<exists>t. inside s t k) \<or> (\<exists>t i. waiting s t = Some (k, i))"
  proof
    assume "bodies k s \<noteq> {#}"
    then obtain x where "x \<in># bodies k s" by (meson multiset_nonemptyE)
    then have "\<exists>t. inside s t k"
      by (cases x) (auto simp: bodies_def inside_def)
    then show ?thesis ..
  next
    assume "waiters e \<noteq> []"
    then have "hd (waiters e) \<in> set (waiters e)" by simp
    then have "waiting s (hd (waiters e)) = Some (k, i)" using e by (simp add: entry_ok_def)
    then show ?thesis by blast
  qed
next
  assume "(\<exists>t. inside s t k) \<or> (\<exists>t i. waiting s t = Some (k, i))"
  then have "dget (entries (lpool s)) k \<noteq> None"
    using holding_entry [OF assms] waiting_entry [OF assms] by (auto simp: inside_def)
  then show "k \<in> set (dkeys (entries (lpool s)))" by (simp add: dget_None_iff)
qed

lemma lock_resumable:
  assumes inv: "lock_inv s" and w: "waiting s t = Some (k, i)" and free: "\<forall>t'. \<not> inside s t' k"
  shows "\<exists>t'. waiting s t' = Some (k, i) \<and> can_resume t' i (lpool s)"
proof -
  obtain e where e: "entry_objs (lpool s) i = Some e" "entry_ok s k i e"
    using key_okD [OF lock_inv_key [OF inv] waiting_entry [OF inv w]] by blast
  have "bodies k s = {#}"
  proof (rule ccontr)
    assume "bodies k s \<noteq> {#}"
    then obtain x where "x \<in># bodies k s" by (meson multiset_nonemptyE)
    then show False using free by (cases x) (auto simp: bodies_def inside_def)
  qed
  then have "\<not> locked e" using e(2) by (cases "owner e") (auto simp: entry_ok_def)
  moreover have "t \<in> set (waiters e)" using e(2) w by (simp add: entry_ok_def)
  then obtain v vs where v: "waiters e = v # vs" by (cases "waiters e") auto
  ultimately have "can_resume v i (lpool s)" using e(1) by (simp add: can_resume_def)
  moreover have "waiting s v = Some (k, i)" using entry_waiters [OF e(2), of v] v by simp
  ultimately show ?thesis by blast
qed

lemma find_entry_max: "find_entry kstr k p = Inr (i, e, q) \<Longrightarrow> max_keys q = max_keys p"
  by (auto elim: find_entry_cases)

lemma hold_enter_max: "hold_enter kstr t k p = (r, q) \<Longrightarrow> max_keys q = max_keys p"
  by (auto simp: hold_enter_def Let_def split: sum.splits if_splits) (drule find_entry_max, simp)+

lemma drop_user_max: "drop_user k i p = (r, q) \<Longrightarrow> max_keys q = max_keys p"
  by (auto simp: drop_user_def Let_def split: option.splits if_splits)

lemma hold_cancel_max: "hold_cancel t k i p = (r, q) \<Longrightarrow> max_keys q = max_keys p"
  by (auto simp: hold_cancel_def dest: drop_user_max split: option.splits)

lemma hold_leave_max: "hold_leave t k i p = (r, q) \<Longrightarrow> max_keys q = max_keys p"
  by (auto simp: hold_leave_def Let_def dest!: drop_user_max split: option.splits if_splits)

lemma hold_resume_max [simp]: "max_keys (hold_resume t i p) = max_keys p"
  by (simp add: hold_resume_def split: option.splits)

lemmas hold_max = hold_enter_max hold_cancel_max hold_leave_max

lemma lock_step_max: "lock_step kstr s s' \<Longrightarrow> max_keys (lpool s') = max_keys (lpool s)"
  by (erule lock_step.cases) (simp_all, (drule hold_max, simp)+)

lemma lock_reach_max: "lock_reach kstr p s \<Longrightarrow> max_keys (lpool s) = max_keys p"
  by (induction rule: lock_reach.induct) (simp_all add: lock_init_def lock_step_max)

text \<open>A run in which one task is inside two keys and a second task waits behind it; then the first leaves.\<close>

lemma lock_run:
  obtains s s' where "lock_reach nat_str \<lparr>max_keys = 2, max_key_length = 9, entries = [],
      entry_objs = Map.empty, next_eid = 0\<rparr> s"
    and "inside s 1 7" and "waiting s 2 = Some (7 :: nat, 0)"
    and "lock_step nat_str s s'" and "\<forall>t. \<not> inside s' t 7" and "waiting s' 2 = Some (7, 0)"
proof -
  let ?p = "\<lparr>max_keys = 2, max_key_length = 9, entries = [], entry_objs = Map.empty, next_eid = 0\<rparr> :: nat pool"
  have n: "nat_str 7 = [55]" "nat_str 8 = [56]" by (simp_all add: nat_str.simps)
  let ?e1 = "\<lparr>locked = True, waiters = [], users = 1, owner = Some 1, depth = 1\<rparr>"
  let ?e2 = "\<lparr>locked = True, waiters = [2], users = 2, owner = Some 1, depth = 1\<rparr>"
  let ?e3 = "\<lparr>locked = False, waiters = [2], users = 1, owner = None, depth = 0\<rparr>"
  let ?q1 = "\<lparr>max_keys = 2, max_key_length = 9, entries = [(7, 0)], entry_objs = [0 \<mapsto> ?e1], next_eid = 1\<rparr> :: nat pool"
  let ?q2 = "\<lparr>max_keys = 2, max_key_length = 9, entries = [(7, 0), (8, 1)], entry_objs = [0 \<mapsto> ?e1, 1 \<mapsto> ?e1],
      next_eid = 2\<rparr> :: nat pool"
  let ?q3 = "?q2\<lparr>entry_objs := (entry_objs ?q2)(0 \<mapsto> ?e2)\<rparr>"
  let ?s1 = "(lock_init ?p)\<lparr>lpool := ?q1, holding := {#(1, 7, 0)#}\<rparr>"
  let ?s2 = "?s1\<lparr>lpool := ?q2, holding := {#(1, 8, 1), (1, 7, 0)#}\<rparr>"
  let ?s3 = "?s2\<lparr>lpool := ?q3, waiting := [2 \<mapsto> (7, 0)]\<rparr>"
  let ?q4 = "?q2\<lparr>entry_objs := (entry_objs ?q2)(0 \<mapsto> ?e3)\<rparr>"
  let ?s4 = "?s3\<lparr>lpool := ?q4, holding := {#(1, 8, 1)#}\<rparr>"
  note defs = hold_enter_def find_entry_def put_entry_def new_entry_def
  have h1: "hold_enter nat_str 1 7 ?p = (Inr (0, True), ?q1)" by (simp add: defs n)
  have h2: "hold_enter nat_str 1 8 ?q1 = (Inr (1, True), ?q2)" by (simp add: defs n)
  have h3: "hold_enter nat_str 2 7 ?q2 = (Inr (0, False), ?q3)" by (simp add: defs n)
  have h4: "hold_leave 1 7 0 ?q3 = (None, ?q4)"
    by (simp add: hold_leave_def drop_user_def put_entry_def Let_def)
  have "lock_reach nat_str ?p ?s1"
    using lock_reach.step [OF lock_reach.start lock_step.enter_now [where s = "lock_init ?p" and t = 1 and k = 7]] h1
    by (auto simp: lock_init_def)
  then have "lock_reach nat_str ?p ?s2"
    using lock_reach.step [OF _ lock_step.enter_now [where s = "?s1" and t = 1 and k = 8]] h2
    by (auto simp: lock_init_def)
  then have r3: "lock_reach nat_str ?p ?s3"
    using lock_reach.step [OF _ lock_step.enter_wait [where s = "?s2" and t = 2 and k = 7]] h3
    by (auto simp: lock_init_def)
  have s4: "lock_step nat_str ?s3 ?s4"
    using lock_step.leave [where s = "?s3" and t = 1 and k = 7 and i = 0] h4 by (simp add: lock_init_def)
  show ?thesis
    by (rule that [OF r3 _ _ s4]) (simp_all add: inside_def)
qed

section \<open>Properties\<close>

text \<open>
  C37. Mutual exclusion: in every reachable state of a lock pool, under any interleaving of entering,
  waking, cancelling and leaving, two tasks never run the body of \<open>hold\<close> for the same key, and the
  internal checks (released by a non-owner task, idle entry still has an owner) never fail.
\<close>

theorem keyed_lock_mutex:
  assumes "new_pool m l = Inr p" and "lock_reach kstr p s"
  shows "(\<forall>t t' k. inside s t k \<and> inside s t' k \<longrightarrow> t' = t) \<and> raised s = []"
proof -
  have inv: "lock_inv s" using lock_reach_inv [OF assms(2,1)] .
  then show ?thesis using klock.exclusive [OF inv] by (auto simp: lock_inv_def)
qed

theorem keyed_lock_mutex_witness:
  "\<exists>p s. new_pool 2 9 = Inr p \<and> lock_reach nat_str p s \<and> inside s 1 (7 :: nat) \<and> \<not> inside s 2 7 \<and> raised s = []"
proof -
  obtain s s' where r: "lock_reach nat_str \<lparr>max_keys = 2, max_key_length = 9, entries = [],
      entry_objs = Map.empty, next_eid = 0\<rparr> s" and i: "inside s 1 (7 :: nat)"
    by (rule lock_run)
  have p: "new_pool 2 9 = Inr \<lparr>max_keys = 2, max_key_length = 9, entries = [],
      entry_objs = Map.empty, next_eid = 0\<rparr>" by (simp add: new_pool_def)
  have "\<not> inside s 2 7 \<and> raised s = []"
    using keyed_lock_mutex [OF p r] i by fastforce
  then show ?thesis using p r i by blast
qed

text \<open>
  C19. No entry leaks and none is lost: a key is in the table of the pool exactly while a task holds it or
  waits for it, and there are never more entries than \<^verbatim>\<open>max_keys\<close>.
\<close>

theorem keyed_lock_no_leak:
  assumes "new_pool m l = Inr p" and "lock_reach kstr p s"
  shows "set (dkeys (entries (lpool s))) = {k. (\<exists>t. inside s t k) \<or> (\<exists>t i. waiting s t = Some (k, i))}
    \<and> int (active_key_count (lpool s)) \<le> m"
proof -
  have inv: "lock_inv s" using lock_reach_inv [OF assms(2,1)] .
  have "max_keys (lpool s) = m"
    using lock_reach_max [OF assms(2)] assms(1) by (auto simp: new_pool_def split: if_splits)
  moreover have "set (dkeys (entries (lpool s))) = {k. (\<exists>t. inside s t k) \<or> (\<exists>t i. waiting s t = Some (k, i))}"
    unfolding set_eq_iff mem_Collect_eq using entry_used [OF inv] by blast
  ultimately show ?thesis using lock_inv_tab(3) [OF inv] by (simp add: active_key_count_def)
qed

text \<open>
  No lost wake-up: when a task waits for a key and no body for the key runs, the head of the queue can
  take the lock.
\<close>

lemma keyed_lock_progress:
  assumes "new_pool m l = Inr p" and "lock_reach kstr p s"
    and "waiting s t = Some (k, i)" and "\<forall>t'. \<not> inside s t' k"
  shows "\<exists>t' s'. waiting s t' = Some (k, i) \<and> lock_step kstr s s' \<and> inside s' t' k"
proof -
  have inv: "lock_inv s" using lock_reach_inv [OF assms(2,1)] .
  obtain t' where t: "waiting s t' = Some (k, i)" "can_resume t' i (lpool s)"
    using lock_resumable [OF inv assms(3,4)] by blast
  let ?s' = "s\<lparr>lpool := hold_resume t' i (lpool s), holding := add_mset (t', k, i) (holding s),
      waiting := (waiting s)(t' := None)\<rparr>"
  have "lock_step kstr s ?s'" using lock_step.resume [OF t] .
  moreover have "inside ?s' t' k" by (auto simp: inside_def)
  ultimately have "waiting s t' = Some (k, i) \<and> lock_step kstr s ?s' \<and> inside ?s' t' k"
    using t(1) by simp
  then have "\<exists>s'. waiting s t' = Some (k, i) \<and> lock_step kstr s s' \<and> inside s' t' k"
    by (rule exI [of _ ?s'])
  then show ?thesis by (rule exI [of _ t'])
qed

theorem keyed_lock_no_leak_witness:
  "\<exists>p s. new_pool 2 9 = Inr p \<and> lock_reach nat_str p s \<and> (7 :: nat) \<in> set (dkeys (entries (lpool s)))"
proof -
  obtain s s' where r: "lock_reach nat_str \<lparr>max_keys = 2, max_key_length = 9, entries = [],
      entry_objs = Map.empty, next_eid = 0\<rparr> s" and i: "inside s 1 (7 :: nat)"
    by (rule lock_run)
  have p: "new_pool 2 9 = Inr \<lparr>max_keys = 2, max_key_length = 9, entries = [],
      entry_objs = Map.empty, next_eid = 0\<rparr>" by (simp add: new_pool_def)
  have "(7 :: nat) \<in> set (dkeys (entries (lpool s)))"
    using keyed_lock_no_leak [OF p r] i by blast
  then show ?thesis using p r by blast
qed

end
