(* ===== verification/Session_Manager.thy ===== *)
theory Session_Manager
  imports Session Keyed_Lock
begin

text \<open>
  \<^verbatim>\<open>SessionManager\<close> of \<^verbatim>\<open>core/session.py\<close>. Every operation is cut at the point where it takes the lock of
  its key: the \<open>locked_\<close> functions are what runs inside it, the handlers add the checks before it.
  \<open>acq k\<close> is the error that entering the lock of \<open>k\<close> raises, if any. Clock readings, fresh session ids
  and the current task are arguments.
\<close>

section \<open>State\<close>

type_synonym skey = "int \<times> int option"

definition skey_str :: "skey \<Rightarrow> ustr" where
  "skey_str k = U ''('' @ int_str (fst k) @ U '', ''
     @ (case snd k of None \<Rightarrow> U ''None'' | Some g \<Rightarrow> int_str g) @ U '')''"

text \<open>
  A stored session has an identity (\<^verbatim>\<open>is\<close> of the commit compares it); \<open>txn_id\<close> is the identity of the
  transaction object.
\<close>

record stxn =
  txn_id :: nat
  original :: "nat \<times> session"
  working :: "raw_session option"
  replaced :: bool

record manager =
  sessions :: "(skey, nat \<times> session) dict"
  default_timeout :: real
  transactions :: "(task \<times> skey, stxn) dict"
  fresh_id :: nat

definition new_manager :: "(ustr \<Rightarrow> pyfloat option) \<Rightarrow> pyval \<Rightarrow> pyerr + manager" where
  "new_manager parse dflt = bindE (normalize_timeout parse dflt) (\<lambda>t.
     Inr \<lparr>sessions = [], default_timeout = t, transactions = [], fresh_id = 0\<rparr>)"

definition set_default_timeout ::
  "(ustr \<Rightarrow> pyfloat option) \<Rightarrow> pyval \<Rightarrow> manager \<Rightarrow> (pyerr + unit) \<times> manager" where
  "set_default_timeout parse v m = (case normalize_timeout parse v of
      Inl e \<Rightarrow> (Inl e, m) | Inr t \<Rightarrow> (Inr (), m\<lparr>default_timeout := t\<rparr>))"

definition active_count :: "manager \<Rightarrow> nat" where
  "active_count m = length (sessions m)"

section \<open>Keys and transactions\<close>

definition make_key :: "pyval \<Rightarrow> pyval \<Rightarrow> pyerr + skey" where
  "make_key u g =
     bindE (normalize_id ''user_id'' False u) (\<lambda>nu.
     bindE (normalize_id ''group_id'' True g) (\<lambda>ng.
     Inr (case nu of Some n \<Rightarrow> n | None \<Rightarrow> 0, ng)))"

definition current_transaction :: "task \<Rightarrow> skey \<Rightarrow> manager \<Rightarrow> stxn option" where
  "current_transaction t k m = dget (transactions m) (t, k)"

definition transaction_key :: "task \<Rightarrow> manager \<Rightarrow> skey option" where
  "transaction_key t m = map_option snd (find (\<lambda>ok. fst ok = t) (dkeys (transactions m)))"

definition err_cross_key :: pyerr where
  "err_cross_key = RuntimeError ''session transaction callback cannot access a different session key; coordinate cross-key work outside SessionManager.update''"

definition reject_cross_key :: "task \<Rightarrow> skey \<Rightarrow> manager \<Rightarrow> pyerr option" where
  "reject_cross_key t k m = (case transaction_key t m of
      Some owned \<Rightarrow> if owned \<noteq> k then Some err_cross_key else None
    | None \<Rightarrow> None)"

definition reject_bulk :: "task \<Rightarrow> string \<Rightarrow> manager \<Rightarrow> pyerr option" where
  "reject_bulk t op m =
     (if transaction_key t m \<noteq> None
      then Some (RuntimeError (''session transaction callback cannot call '' @ op @
        ''; coordinate bulk session work outside SessionManager.update''))
      else None)"

definition err_nested :: pyerr where
  "err_nested = RuntimeError ''nested session update for the same key is not allowed''"

definition register_transaction :: "task \<Rightarrow> skey \<Rightarrow> stxn \<Rightarrow> manager \<Rightarrow> (pyerr + unit) \<times> manager" where
  "register_transaction t k tx m =
     (if (t, k) \<in> set (dkeys (transactions m)) then (Inl err_nested, m)
      else (Inr (), m\<lparr>transactions := dset (t, k) tx (transactions m)\<rparr>))"

definition unregister_transaction :: "task \<Rightarrow> skey \<Rightarrow> nat \<Rightarrow> manager \<Rightarrow> manager" where
  "unregister_transaction t k i m = (case dget (transactions m) (t, k) of
      Some tx \<Rightarrow> if txn_id tx = i then m\<lparr>transactions := ddel (t, k) (transactions m)\<rparr> else m
    | None \<Rightarrow> m)"

definition clone_optional ::
  "(ustr \<Rightarrow> pyfloat option) \<Rightarrow> raw_session option \<Rightarrow> pyerr + session option" where
  "clone_optional parse r = (case r of
      None \<Rightarrow> Inr None
    | Some s \<Rightarrow> bindE (clone_raw parse s) (\<lambda>c. Inr (Some c)))"

section \<open>What runs inside the lock of a key\<close>

definition get_active_locked :: "skey \<Rightarrow> real \<Rightarrow> manager \<Rightarrow> (nat \<times> session) option \<times> manager" where
  "get_active_locked k now m = (case dget (sessions m) k of
      None \<Rightarrow> (None, m)
    | Some (i, s) \<Rightarrow>
        if is_expired now s then (None, m\<lparr>sessions := ddel k (sessions m)\<rparr>) else (Some (i, s), m))"

datatype init_data = NoData | InitData sdata

definition empty_data :: sdata where
  "empty_data = \<lparr>root = HRef 0, objs = [0 \<mapsto> ODict []], bound = 1\<rparr>"

definition initial_data_copy :: "init_data \<Rightarrow> pyerr + sdata" where
  "initial_data_copy d = (case d of
      NoData \<Rightarrow> Inr empty_data
    | InitData x \<Rightarrow> if \<not> is_dict_root x then Inl (TypeError ''initial_data must be a dict or None'')
                    else clone_data x)"

definition new_session ::
  "(ustr \<Rightarrow> pyfloat option) \<Rightarrow> real \<Rightarrow> skey \<Rightarrow> pyval \<Rightarrow> init_data \<Rightarrow> pyval \<Rightarrow> real \<Rightarrow> ustr \<Rightarrow> pyerr + session" where
  "new_session parse dflt k plugin init timeout_arg now sid =
     bindE (normalize_plugin_name plugin) (\<lambda>p.
     bindE (initial_data_copy init) (\<lambda>d.
     bindE (case timeout_arg of VNone \<Rightarrow> Inr dflt | v \<Rightarrow> normalize_timeout parse v) (\<lambda>to.
     post_init parse \<lparr>r_user_id = VInt (fst k),
       r_group_id = (case snd k of None \<Rightarrow> VNone | Some g \<Rightarrow> VInt g), r_plugin_name = VStr p,
       r_session_id = VStr sid, r_state = VStr (U ''active''), r_data = d,
       r_created_at = VFloat (Fin now), r_updated_at = VFloat (Fin now),
       r_timeout = VFloat (Fin to), r_version = VInt 0\<rparr>)))"

definition locked_store :: "skey \<Rightarrow> session \<Rightarrow> manager \<Rightarrow> manager" where
  "locked_store k s m = m\<lparr>sessions := dset k (fresh_id m, s) (sessions m), fresh_id := fresh_id m + 1\<rparr>"

text \<open>\<open>get\<close> reads the clock twice: for the expiry, and for the renewal of the idle lease.\<close>

definition locked_get ::
  "(ustr \<Rightarrow> pyfloat option) \<Rightarrow> skey \<Rightarrow> real \<Rightarrow> real \<Rightarrow> manager \<Rightarrow> (pyerr + session option) \<times> manager" where
  "locked_get parse k now now' m = (case get_active_locked k now m of
      (None, m1) \<Rightarrow> (Inr None, m1)
    | (Some (i, s), m1) \<Rightarrow>
        (let s' = s\<lparr>updated_at := now'\<rparr> in
         (bindE (clone_session parse s') (\<lambda>c. Inr (Some c)),
          m1\<lparr>sessions := dset k (i, s') (sessions m1)\<rparr>)))"

definition locked_peek ::
  "(ustr \<Rightarrow> pyfloat option) \<Rightarrow> skey \<Rightarrow> real \<Rightarrow> manager \<Rightarrow> (pyerr + session option) \<times> manager" where
  "locked_peek parse k now m = (case get_active_locked k now m of
      (r, m1) \<Rightarrow> (clone_optional parse (map_option (raw_of \<circ> snd) r), m1))"

definition locked_delete :: "skey \<Rightarrow> manager \<Rightarrow> bool \<times> manager" where
  "locked_delete k m =
     (if k \<notin> set (dkeys (sessions m)) then (False, m)
      else (True, m\<lparr>sessions := ddel k (sessions m)\<rparr>))"

definition locked_exists :: "skey \<Rightarrow> real \<Rightarrow> manager \<Rightarrow> bool \<times> manager" where
  "locked_exists k now m = (case get_active_locked k now m of (r, m1) \<Rightarrow> (r \<noteq> None, m1))"

text \<open>One round of the loops of \<open>cleanup_expired\<close> and \<open>clear_plugin_sessions\<close>.\<close>

definition locked_remove_if :: "(session \<Rightarrow> bool) \<Rightarrow> skey \<Rightarrow> manager \<Rightarrow> bool \<times> manager" where
  "locked_remove_if P k m = (case dget (sessions m) k of
      Some (i, s) \<Rightarrow> if P s then (True, m\<lparr>sessions := ddel k (sessions m)\<rparr>) else (False, m)
    | None \<Rightarrow> (False, m))"

section \<open>The operations\<close>

text \<open>
  The prologue every operation on one key has: normalise the key, then refuse a key that is not the
  one of the running transaction.
\<close>

definition at_key ::
  "task \<Rightarrow> pyval \<Rightarrow> pyval \<Rightarrow> (skey \<Rightarrow> manager \<Rightarrow> (pyerr + 'a) \<times> manager) \<Rightarrow> manager \<Rightarrow> (pyerr + 'a) \<times> manager" where
  "at_key t u g f m = (case make_key u g of
      Inl e \<Rightarrow> (Inl e, m)
    | Inr k \<Rightarrow> (case reject_cross_key t k m of Some e \<Rightarrow> (Inl e, m) | None \<Rightarrow> f k m))"

definition with_lock ::
  "(skey \<Rightarrow> pyerr option) \<Rightarrow> skey \<Rightarrow> (manager \<Rightarrow> (pyerr + 'a) \<times> manager) \<Rightarrow> manager \<Rightarrow> (pyerr + 'a) \<times> manager" where
  "with_lock acq k f m = (case acq k of Some e \<Rightarrow> (Inl e, m) | None \<Rightarrow> f m)"

text \<open>The changes a callback makes to its transaction through the manager.\<close>

definition set_txn :: "task \<Rightarrow> skey \<Rightarrow> stxn \<Rightarrow> manager \<Rightarrow> manager" where
  "set_txn t k tx m = m\<lparr>transactions := dset (t, k) tx (transactions m)\<rparr>"

definition create ::
  "(ustr \<Rightarrow> pyfloat option) \<Rightarrow> (skey \<Rightarrow> pyerr option) \<Rightarrow> task \<Rightarrow> real \<Rightarrow> ustr \<Rightarrow>
   pyval \<Rightarrow> pyval \<Rightarrow> pyval \<Rightarrow> init_data \<Rightarrow> pyval \<Rightarrow> manager \<Rightarrow> (pyerr + session) \<times> manager" where
  "create parse acq t now sid u g plugin init timeout_arg = at_key t u g (\<lambda>k m.
     case bindE (new_session parse (default_timeout m) k plugin init timeout_arg now sid)
       (\<lambda>s. bindE (clone_session parse s) (\<lambda>r. Inr (s, r))) of
       Inl e \<Rightarrow> (Inl e, m)
     | Inr (s, returned) \<Rightarrow>
         (case current_transaction t k m of
            Some tx \<Rightarrow> (Inr returned, set_txn t k (tx\<lparr>working := Some (raw_of s), replaced := True\<rparr>) m)
          | None \<Rightarrow> with_lock acq k (\<lambda>m. (Inr returned, locked_store k s m)) m))"

definition get ::
  "(ustr \<Rightarrow> pyfloat option) \<Rightarrow> (skey \<Rightarrow> pyerr option) \<Rightarrow> task \<Rightarrow> real \<Rightarrow> real \<Rightarrow>
   pyval \<Rightarrow> pyval \<Rightarrow> manager \<Rightarrow> (pyerr + session option) \<times> manager" where
  "get parse acq t now now' u g = at_key t u g (\<lambda>k m.
     case current_transaction t k m of
       Some tx \<Rightarrow> (clone_optional parse (working tx), m)
     | None \<Rightarrow> with_lock acq k (locked_get parse k now now') m)"

definition peek ::
  "(ustr \<Rightarrow> pyfloat option) \<Rightarrow> (skey \<Rightarrow> pyerr option) \<Rightarrow> task \<Rightarrow> real \<Rightarrow>
   pyval \<Rightarrow> pyval \<Rightarrow> manager \<Rightarrow> (pyerr + session option) \<times> manager" where
  "peek parse acq t now u g = at_key t u g (\<lambda>k m.
     case current_transaction t k m of
       Some tx \<Rightarrow> (clone_optional parse (working tx), m)
     | None \<Rightarrow> with_lock acq k (locked_peek parse k now) m)"

definition ok_result :: "'a \<times> manager \<Rightarrow> (pyerr + 'a) \<times> manager" where
  "ok_result = (\<lambda>(r, m). (Inr r, m))"

definition delete ::
  "(skey \<Rightarrow> pyerr option) \<Rightarrow> task \<Rightarrow> pyval \<Rightarrow> pyval \<Rightarrow> manager \<Rightarrow> (pyerr + bool) \<times> manager" where
  "delete acq t u g = at_key t u g (\<lambda>k m.
     case current_transaction t k m of
       Some tx \<Rightarrow> if working tx = None then (Inr False, m)
                  else (Inr True, set_txn t k (tx\<lparr>working := None\<rparr>) m)
     | None \<Rightarrow> with_lock acq k (\<lambda>m. ok_result (locked_delete k m)) m)"

definition exists_session ::
  "(skey \<Rightarrow> pyerr option) \<Rightarrow> task \<Rightarrow> real \<Rightarrow> pyval \<Rightarrow> pyval \<Rightarrow> manager \<Rightarrow> (pyerr + bool) \<times> manager" where
  "exists_session acq t now u g = at_key t u g (\<lambda>k m.
     case current_transaction t k m of
       Some tx \<Rightarrow> (Inr (working tx \<noteq> None), m)
     | None \<Rightarrow> with_lock acq k (\<lambda>m. ok_result (locked_exists k now m)) m)"

section \<open>Transactions\<close>

text \<open>\<^verbatim>\<open>_prepare_commit\<close>; \<open>now\<close> is the clock reading of the commit.\<close>

definition prepare_commit ::
  "(ustr \<Rightarrow> pyfloat option) \<Rightarrow> skey \<Rightarrow> real \<Rightarrow> stxn \<Rightarrow> pyerr + session option" where
  "prepare_commit parse k now tx = (case working tx of
      None \<Rightarrow> Inr None
    | Some w \<Rightarrow>
        bindE (clone_raw parse w) (\<lambda>c.
        bindE (normalize_timeout parse (VFloat (Fin (timeout c)))) (\<lambda>to.
        if \<not> is_dict_root (sdata c) then Inl (TypeError ''session data must be a dict'')
        else
          let c1 = c\<lparr>user_id := fst k, group_id := snd k, timeout := to, updated_at := now,
                     version := version (snd (original tx)) + 1\<rparr>
          in if replaced tx then
               bindE (normalize_plugin_name (VStr (plugin_name c1))) (\<lambda>p.
               bindE (normalize_session_id (VStr (session_id c1))) (\<lambda>sid.
               Inr (Some (c1\<lparr>plugin_name := p, session_id := sid\<rparr>))))
             else Inr (Some (c1\<lparr>plugin_name := plugin_name (snd (original tx)),
                                created_at := created_at (snd (original tx)),
                                session_id := session_id (snd (original tx))\<rparr>)))))"

text \<open>
  \<open>update\<close> up to the start of the callback, inside the lock. The callback runs in the new task \<open>cb\<close>;
  the result is the identity of the registered transaction, or \<open>None\<close> when there is no active session.
\<close>

definition update_begin ::
  "(ustr \<Rightarrow> pyfloat option) \<Rightarrow> task \<Rightarrow> skey \<Rightarrow> real \<Rightarrow> manager \<Rightarrow> (pyerr + nat option) \<times> manager" where
  "update_begin parse cb k now m = (case get_active_locked k now m of
      (None, m1) \<Rightarrow> (Inr None, m1)
    | (Some (i, s), m1) \<Rightarrow>
        (case clone_session parse s of
           Inl e \<Rightarrow> (Inl e, m1)
         | Inr w \<Rightarrow>
             (let tx = \<lparr>txn_id = fresh_id m1, original = (i, s), working = Some (raw_of w), replaced = False\<rparr>;
                  m2 = m1\<lparr>fresh_id := fresh_id m1 + 1\<rparr>
              in case register_transaction cb k tx m2 of
                   (Inl e, m3) \<Rightarrow> (Inl e, m3)
                 | (Inr _, m3) \<Rightarrow> (Inr (Some (txn_id tx)), m3))))"

definition err_changed :: pyerr where
  "err_changed = RuntimeError ''stored session changed during a locked transaction''"

text \<open>
  The rest of \<open>update\<close> after the callback ended with \<open>outcome\<close> (a cancellation is an error like any
  other): prepare and publish, and unregister in every case.
\<close>

definition update_commit ::
  "(ustr \<Rightarrow> pyfloat option) \<Rightarrow> skey \<Rightarrow> real \<Rightarrow> stxn \<Rightarrow> manager \<Rightarrow> (pyerr + unit) \<times> manager" where
  "update_commit parse k now tx m = (case prepare_commit parse k now tx of
      Inl e \<Rightarrow> (Inl e, m)
    | Inr committed \<Rightarrow>
        if map_option fst (dget (sessions m) k) \<noteq> Some (fst (original tx)) then (Inl err_changed, m)
        else (case committed of
            None \<Rightarrow> (Inr (), m\<lparr>sessions := ddel k (sessions m)\<rparr>)
          | Some c \<Rightarrow> (Inr (), locked_store k c m)))"

definition update_end ::
  "(ustr \<Rightarrow> pyfloat option) \<Rightarrow> task \<Rightarrow> skey \<Rightarrow> real \<Rightarrow> pyerr + 'r \<Rightarrow> stxn \<Rightarrow> manager \<Rightarrow> (pyerr + 'r) \<times> manager" where
  "update_end parse cb k now outcome tx m =
     (let (r, m1) = (case outcome of
          Inl e \<Rightarrow> (Inl e, m)
        | Inr result \<Rightarrow> (case update_commit parse k now tx m of
            (Inl e, m1) \<Rightarrow> (Inl e, m1)
          | (Inr _, m1) \<Rightarrow> (Inr result, m1)))
      in (r, unregister_transaction cb k (txn_id tx) m1))"

text \<open>
  What a callback does: it changes the working object it was given (which is the staged one unless the
  transaction replaced or deleted it), or calls the manager. It may ignore errors, so only the effect
  on the manager counts.
\<close>

datatype cb_op =
    CbMutate "raw_session \<Rightarrow> raw_session"
  | CbCreate real ustr pyval pyval pyval init_data pyval
  | CbGet real real pyval pyval
  | CbPeek real pyval pyval
  | CbDelete pyval pyval
  | CbExists real pyval pyval

definition cb_mutate :: "task \<Rightarrow> skey \<Rightarrow> (raw_session \<Rightarrow> raw_session) \<Rightarrow> manager \<Rightarrow> manager" where
  "cb_mutate cb k f m = (case current_transaction cb k m of
      Some tx \<Rightarrow>
        (case working tx of
           Some w \<Rightarrow> if replaced tx then m else set_txn cb k (tx\<lparr>working := Some (f w)\<rparr>) m
         | None \<Rightarrow> m)
    | None \<Rightarrow> m)"

definition run_cb_op ::
  "(ustr \<Rightarrow> pyfloat option) \<Rightarrow> (skey \<Rightarrow> pyerr option) \<Rightarrow> task \<Rightarrow> skey \<Rightarrow> cb_op \<Rightarrow> manager \<Rightarrow> manager" where
  "run_cb_op parse acq cb k op m = (case op of
      CbMutate f \<Rightarrow> cb_mutate cb k f m
    | CbCreate now sid u g p d t \<Rightarrow> snd (create parse acq cb now sid u g p d t m)
    | CbGet now now' u g \<Rightarrow> snd (get parse acq cb now now' u g m)
    | CbPeek now u g \<Rightarrow> snd (peek parse acq cb now u g m)
    | CbDelete u g \<Rightarrow> snd (delete acq cb u g m)
    | CbExists now u g \<Rightarrow> snd (exists_session acq cb now u g m))"

text \<open>The whole of \<open>update\<close> when nothing else runs meanwhile.\<close>

definition update ::
  "(ustr \<Rightarrow> pyfloat option) \<Rightarrow> (skey \<Rightarrow> pyerr option) \<Rightarrow> task \<Rightarrow> task \<Rightarrow> real \<Rightarrow> real \<Rightarrow> pyval \<Rightarrow> pyval \<Rightarrow>
   cb_op list \<Rightarrow> pyerr + 'r \<Rightarrow> manager \<Rightarrow> (pyerr + 'r option) \<times> manager" where
  "update parse acq t cb now now' u g ops outcome = at_key t u g (\<lambda>k m.
     if current_transaction t k m \<noteq> None then (Inl err_nested, m)
     else with_lock acq k (\<lambda>m. case update_begin parse cb k now m of
         (Inl e, m1) \<Rightarrow> (Inl e, m1)
       | (Inr None, m1) \<Rightarrow> (Inr None, m1)
       | (Inr (Some i), m1) \<Rightarrow>
           (let m2 = fold (run_cb_op parse acq cb k) ops m1 in
            case current_transaction cb k m2 of
              None \<Rightarrow> (Inl err_changed, m2)
            | Some tx \<Rightarrow> (case update_end parse cb k now' outcome tx m2 of
                (Inl e, m3) \<Rightarrow> (Inl e, m3) | (Inr r, m3) \<Rightarrow> (Inr (Some r), m3)))) m)"

section \<open>Bulk operations\<close>

fun remove_loop ::
  "(skey \<Rightarrow> pyerr option) \<Rightarrow> (skey \<Rightarrow> session \<Rightarrow> bool) \<Rightarrow> skey list \<Rightarrow> nat \<Rightarrow> manager \<Rightarrow> (pyerr + nat) \<times> manager" where
  "remove_loop acq P [] n m = (Inr n, m)"
| "remove_loop acq P (k # ks) n m = (case acq k of
     Some e \<Rightarrow> (Inl e, m)
   | None \<Rightarrow> (case locked_remove_if (P k) k m of
       (b, m1) \<Rightarrow> remove_loop acq P ks (if b then n + 1 else n) m1))"

text \<open>\<open>now k\<close> is the clock reading when the session of \<open>k\<close> is examined.\<close>

definition cleanup_expired ::
  "(skey \<Rightarrow> pyerr option) \<Rightarrow> task \<Rightarrow> (skey \<Rightarrow> real) \<Rightarrow> manager \<Rightarrow> (pyerr + nat) \<times> manager" where
  "cleanup_expired acq t now m = (case reject_bulk t ''cleanup_expired'' m of
      Some e \<Rightarrow> (Inl e, m)
    | None \<Rightarrow> remove_loop acq (\<lambda>k. is_expired (now k)) (dkeys (sessions m)) 0 m)"

definition count_sessions :: "manager \<Rightarrow> nat" where
  "count_sessions m = length (sessions m)"

definition clear_plugin_sessions ::
  "(skey \<Rightarrow> pyerr option) \<Rightarrow> task \<Rightarrow> pyval \<Rightarrow> manager \<Rightarrow> (pyerr + nat) \<times> manager" where
  "clear_plugin_sessions acq t plugin m = (case reject_bulk t ''clear_plugin_sessions'' m of
      Some e \<Rightarrow> (Inl e, m)
    | None \<Rightarrow> (case normalize_plugin_name plugin of
        Inl e \<Rightarrow> (Inl e, m)
      | Inr p \<Rightarrow> remove_loop acq (\<lambda>_ s. plugin_name s = p) (dkeys (sessions m)) 0 m))"

definition get_all_sessions ::
  "(ustr \<Rightarrow> pyfloat option) \<Rightarrow> (skey \<Rightarrow> real) \<Rightarrow> pyval \<Rightarrow> manager \<Rightarrow> pyerr + session list" where
  "get_all_sessions parse now plugin m =
     bindE (case plugin of VNone \<Rightarrow> Inr None | v \<Rightarrow> bindE (normalize_plugin_name v) (\<lambda>p. Inr (Some p)))
       (\<lambda>p. mapE (\<lambda>(k, i, s). clone_session parse s)
         (filter (\<lambda>(k, i, s). \<not> is_expired (now k) s \<and> (case p of None \<Rightarrow> True | Some q \<Rightarrow> plugin_name s = q))
           (sessions m)))"

section \<open>Well-formed managers\<close>

definition skey_ok :: "skey \<Rightarrow> bool" where
  "skey_ok k \<longleftrightarrow> 0 < fst k \<and> id_ok (snd k)"

definition skey_of :: "session \<Rightarrow> skey" where
  "skey_of s = (user_id s, group_id s)"

definition stxn_ok :: "stxn \<Rightarrow> bool" where
  "stxn_ok tx \<longleftrightarrow> session_ok (snd (original tx)) \<and> (\<forall>w. working tx = Some w \<longrightarrow> data_wf (r_data w))"

definition manager_inv :: "manager \<Rightarrow> bool" where
  "manager_inv m \<longleftrightarrow> dict_ok (sessions m) \<and> dict_ok (transactions m)
     \<and> (\<forall>k i s. dget (sessions m) k = Some (i, s) \<longrightarrow> session_ok s \<and> skey_of s = k \<and> i < fresh_id m)
     \<and> (\<forall>ok tx. dget (transactions m) ok = Some tx \<longrightarrow> stxn_ok tx)"

definition init_wf :: "init_data \<Rightarrow> bool" where
  "init_wf d \<longleftrightarrow> (case d of NoData \<Rightarrow> True | InitData x \<Rightarrow> data_wf x)"

lemma make_key_ok: "make_key u g = Inr k \<Longrightarrow> skey_ok k"
proof -
  assume "make_key u g = Inr k"
  then obtain nu ng where n: "normalize_id ''user_id'' False u = Inr nu" "normalize_id ''group_id'' True g = Inr ng"
    and k: "k = (case nu of Some n \<Rightarrow> n | None \<Rightarrow> 0, ng)"
    by (auto simp: make_key_def bindE_eq_Inr)
  show ?thesis
    using normalize_id_pos [OF n(1)] normalize_id_pos [OF n(2)]
    by (cases nu) (simp_all add: k skey_ok_def id_ok_def)
qed

lemma empty_data_ok: "data_wf empty_data \<and> is_dict_root empty_data"
  by (auto simp: data_wf_def empty_data_def wf_heap_def vok_def is_dict_root_def split: if_splits)

lemma new_session_ok:
  assumes "new_session parse dflt k plugin init to now sid = Inr s" and "init_wf init"
  shows "session_ok s \<and> skey_of s = k \<and> version s = 0"
proof -
  obtain p d t where d: "initial_data_copy init = Inr d"
    and post: "post_init parse \<lparr>r_user_id = VInt (fst k),
       r_group_id = (case snd k of None \<Rightarrow> VNone | Some g \<Rightarrow> VInt g), r_plugin_name = VStr p,
       r_session_id = VStr sid, r_state = VStr (U ''active''), r_data = d,
       r_created_at = VFloat (Fin now), r_updated_at = VFloat (Fin now),
       r_timeout = VFloat (Fin t), r_version = VInt 0\<rparr> = Inr s"
    using assms(1) by (auto simp: new_session_def bindE_eq_Inr)
  have "data_wf d"
    using d assms(2) empty_data_ok clone_data_ok
    by (auto simp: initial_data_copy_def init_wf_def split: init_data.splits if_splits)
  with post_init_ok [OF post] have "session_ok s" by (auto simp: session_ok_def)
  moreover have "skey_of s = k \<and> version s = 0"
    using post by (cases k) (auto simp: post_init_def bindE_eq_Inr normalize_id_def skey_of_def
        split: if_splits option.splits)
  ultimately show ?thesis by simp
qed

text \<open>The shapes of the change a body makes: none, a removal, or a new value of its key.\<close>

lemma manager_inv_del: "manager_inv m \<Longrightarrow> manager_inv (m\<lparr>sessions := ddel k (sessions m)\<rparr>)"
  by (auto simp: manager_inv_def intro: dict_ok_ddel)

lemma manager_inv_put:
  "manager_inv m \<Longrightarrow> session_ok s \<Longrightarrow> skey_of s = k \<Longrightarrow> i < fresh_id m \<Longrightarrow>
   manager_inv (m\<lparr>sessions := dset k (i, s) (sessions m)\<rparr>)"
  by (auto simp: manager_inv_def intro: dict_ok_dset)

lemma manager_inv_store:
  "manager_inv m \<Longrightarrow> session_ok s \<Longrightarrow> skey_of s = k \<Longrightarrow> manager_inv (locked_store k s m)"
  by (fastforce simp: manager_inv_def locked_store_def less_Suc_eq intro: dict_ok_dset)

lemma manager_inv_get:
  "manager_inv m \<Longrightarrow> dget (sessions m) k = Some (i, s) \<Longrightarrow> session_ok s \<and> skey_of s = k \<and> i < fresh_id m"
  unfolding manager_inv_def by blast

lemma manager_inv_set_txn: "manager_inv m \<Longrightarrow> stxn_ok tx \<Longrightarrow> manager_inv (set_txn t k tx m)"
  by (auto simp: manager_inv_def set_txn_def intro: dict_ok_dset)

lemma manager_inv_fresh: "manager_inv m \<Longrightarrow> manager_inv (m\<lparr>fresh_id := fresh_id m + 1\<rparr>)"
  by (fastforce simp: manager_inv_def less_Suc_eq)

lemma manager_inv_unregister: "manager_inv m \<Longrightarrow> manager_inv (unregister_transaction t k i m)"
  by (auto simp: manager_inv_def unregister_transaction_def intro: dict_ok_ddel split: option.splits)

lemma set_txn_simps [simp]:
  "sessions (set_txn t k tx m) = sessions m" "fresh_id (set_txn t k tx m) = fresh_id m"
  "dget (transactions (set_txn t k tx m)) = (dget (transactions m))((t, k) \<mapsto> tx)"
  by (simp_all add: set_txn_def)

lemma unregister_simps [simp]: "sessions (unregister_transaction t k i m) = sessions m"
  by (simp add: unregister_transaction_def split: option.splits)

lemma locked_store_simps [simp]:
  "transactions (locked_store k s m) = transactions m"
  "dget (sessions (locked_store k s m)) = (dget (sessions m))(k \<mapsto> (fresh_id m, s))"
  by (simp_all add: locked_store_def)

lemma get_active_cases:
  assumes "get_active_locked k now m = (r, m')"
  obtains (gone) "r = None" "dget (sessions m) k = None" "m' = m"
    | (expired) i s where "r = None" "dget (sessions m) k = Some (i, s)" "is_expired now s"
        "m' = m\<lparr>sessions := ddel k (sessions m)\<rparr>"
    | (active) i s where "r = Some (i, s)" "dget (sessions m) k = Some (i, s)" "\<not> is_expired now s" "m' = m"
proof (cases "dget (sessions m) k")
  case None
  then show ?thesis using assms by (intro gone) (simp_all add: get_active_locked_def)
next
  case (Some x)
  obtain i s where x: "x = (i, s)" by (cases x)
  show ?thesis
  proof (cases "is_expired now s")
    case True
    then show ?thesis using assms Some x by (intro expired [of i s]) (simp_all add: get_active_locked_def)
  next
    case False
    then show ?thesis using assms Some x by (intro active [of i s]) (simp_all add: get_active_locked_def)
  qed
qed

section \<open>Interleaved operations\<close>

text \<open>
  One body inside the lock of \<open>k\<close>: the second half of \<open>create\<close>, \<open>get\<close>, \<open>peek\<close>, \<open>delete\<close>, \<open>exists\<close> and one
  round of a bulk operation.
\<close>

inductive body_step :: "(ustr \<Rightarrow> pyfloat option) \<Rightarrow> skey \<Rightarrow> manager \<Rightarrow> manager \<Rightarrow> bool" for parse k m where
  b_create: "new_session parse dflt k plugin init to now sid = Inr s \<Longrightarrow> init_wf init \<Longrightarrow>
    body_step parse k m (locked_store k s m)"
| b_get: "body_step parse k m (snd (locked_get parse k now now' m))"
| b_peek: "body_step parse k m (snd (locked_peek parse k now m))"
| b_delete: "body_step parse k m (snd (locked_delete k m))"
| b_exists: "body_step parse k m (snd (locked_exists k now m))"
| b_remove: "body_step parse k m (snd (locked_remove_if P k m))"

lemma get_active_keeps:
  assumes "get_active_locked k now m = (r, m')"
  shows "transactions m' = transactions m \<and> (\<forall>k'. k' \<noteq> k \<longrightarrow> dget (sessions m') k' = dget (sessions m) k')
    \<and> (manager_inv m \<longrightarrow> manager_inv m') \<and> fresh_id m' = fresh_id m"
  using assms by (rule get_active_cases) (auto intro: manager_inv_del)

lemma body_step_keeps:
  assumes "body_step parse k m m'"
  shows "transactions m' = transactions m \<and> (\<forall>k'. k' \<noteq> k \<longrightarrow> dget (sessions m') k' = dget (sessions m) k')"
  using assms
proof cases
  case (b_get now now')
  then show ?thesis
    by (cases "get_active_locked k now m")
      (auto simp: locked_get_def Let_def dest: get_active_keeps split: option.splits)
next
  case (b_peek now)
  then show ?thesis
    by (cases "get_active_locked k now m") (auto simp: locked_peek_def dest: get_active_keeps)
next
  case (b_exists now)
  then show ?thesis
    by (cases "get_active_locked k now m") (auto simp: locked_exists_def dest: get_active_keeps)
qed (auto simp: locked_delete_def locked_remove_if_def split: option.splits)

lemma session_ok_touch: "session_ok s \<Longrightarrow> session_ok (s\<lparr>updated_at := t\<rparr>)"
  by (simp add: session_ok_def fields_ok_def)

lemma skey_of_touch [simp]: "skey_of (s\<lparr>updated_at := t\<rparr>) = skey_of s"
  by (simp add: skey_of_def)

lemma locked_get_inv: "manager_inv m \<Longrightarrow> manager_inv (snd (locked_get parse k now now' m))"
proof (cases "get_active_locked k now m")
  case (Pair r m1)
  assume inv: "manager_inv m"
  from Pair show ?thesis
  proof (cases rule: get_active_cases)
    case (active i s)
    then show ?thesis
      using Pair manager_inv_get [OF inv, of k i s] manager_inv_put [OF inv, of "s\<lparr>updated_at := now'\<rparr>" k i]
      by (simp add: locked_get_def Let_def session_ok_touch)
  qed (use Pair inv in \<open>simp_all add: locked_get_def manager_inv_del\<close>)
qed

lemma body_step_inv:
  assumes "body_step parse k m m'" and "manager_inv m"
  shows "manager_inv m'"
  using assms(1)
proof cases
  case (b_create dflt plugin init to now sid s)
  then show ?thesis using new_session_ok [OF b_create(2,3)] assms(2) by (simp add: manager_inv_store)
next
  case (b_get now now')
  then show ?thesis using locked_get_inv assms(2) by simp
next
  case (b_peek now)
  then show ?thesis using assms(2)
    by (cases "get_active_locked k now m") (auto simp: locked_peek_def dest: get_active_keeps)
next
  case (b_exists now)
  then show ?thesis using assms(2)
    by (cases "get_active_locked k now m") (auto simp: locked_exists_def dest: get_active_keeps)
qed (use assms(2) in \<open>auto simp: locked_delete_def locked_remove_if_def intro: manager_inv_del split: option.splits\<close>)

section \<open>Inside a transaction\<close>

declare split_paired_All [simp del] split_paired_Ex [simp del]

definition op_wf :: "cb_op \<Rightarrow> bool" where
  "op_wf op \<longleftrightarrow> (case op of
      CbMutate f \<Rightarrow> (\<forall>w. data_wf (r_data w) \<longrightarrow> data_wf (r_data (f w)))
    | CbCreate now sid u g p d t \<Rightarrow> init_wf d
    | _ \<Rightarrow> True)"

text \<open>
  The task of a callback whose transaction is on \<open>k\<close>: every operation it calls either fails before it
  touches anything, or works on the staged copy of \<open>k\<close>. Nothing it does is visible in the table.
\<close>

lemma at_key_cases:
  assumes "at_key t u g f m = (r, m')"
  obtains (fail) e where "r = Inl e" "m' = m"
    | (run) k where "make_key u g = Inr k" "reject_cross_key t k m = None" "f k m = (r, m')"
  using assms by (auto simp: at_key_def split: sum.splits option.splits)

lemma reject_cross_same:
  "transaction_key t m = Some k \<Longrightarrow> reject_cross_key t k' m = None \<Longrightarrow> k' = k"
  by (simp add: reject_cross_key_def split: if_splits)

definition stages :: "task \<Rightarrow> skey \<Rightarrow> stxn \<Rightarrow> manager \<Rightarrow> manager \<Rightarrow> bool" where
  "stages cb k tx m m' \<longleftrightarrow> m' = m \<or> (\<exists>tx'. m' = set_txn cb k tx' m \<and> original tx' = original tx
     \<and> txn_id tx' = txn_id tx \<and> (stxn_ok tx \<longrightarrow> stxn_ok tx'))"

lemma stages_refl [simp]: "stages cb k tx m m"
  by (simp add: stages_def)

lemma create_stages:
  assumes "transaction_key cb m = Some k" "current_transaction cb k m = Some tx" "init_wf d"
  shows "stages cb k tx m (snd (create parse acq cb now sid u g p d t m))"
proof -
  obtain r m' where c: "create parse acq cb now sid u g p d t m = (r, m')" by fastforce
  from c have "stages cb k tx m m'" unfolding create_def
  proof (cases rule: at_key_cases)
    case (run k')
    have k': "k' = k" using reject_cross_same [OF assms(1) run(2)] .
    show ?thesis
    proof (cases "bindE (new_session parse (default_timeout m) k p d t now sid)
       (\<lambda>s. bindE (clone_session parse s) (\<lambda>r. Inr (s, r)))")
      case (Inr sr)
      obtain s ret where sr: "sr = (s, ret)" by (cases sr)
      have "new_session parse (default_timeout m) k p d t now sid = Inr s"
        using Inr sr by (auto simp: bindE_eq_Inr)
      then have "data_wf (r_data (raw_of s))"
        using new_session_ok assms(3) by (auto simp: session_ok_def raw_of_def)
      then show ?thesis using run(3) Inr sr assms(2)
        by (auto simp: k' stages_def stxn_ok_def intro!: disjI2)
    qed (use run(3) in \<open>simp add: k'\<close>)
  qed simp
  then show ?thesis by (simp add: c)
qed

lemma delete_stages:
  assumes "transaction_key cb m = Some k" "current_transaction cb k m = Some tx"
  shows "stages cb k tx m (snd (delete acq cb u g m))"
proof -
  obtain r m' where c: "delete acq cb u g m = (r, m')" by fastforce
  from c have "stages cb k tx m m'" unfolding delete_def
  proof (cases rule: at_key_cases)
    case (run k')
    have k': "k' = k" using reject_cross_same [OF assms(1) run(2)] .
    have m': "m' = m \<or> m' = set_txn cb k (tx\<lparr>working := None\<rparr>) m"
      using run(3) assms(2) by (auto simp: k' split: if_splits)
    show ?thesis using m' unfolding stages_def
      by (rule disj_forward) (auto simp: stxn_ok_def intro!: exI [of _ "tx\<lparr>working := None\<rparr>"])
  qed simp
  then show ?thesis by (simp add: c)
qed

lemma read_stages:
  assumes "transaction_key cb m = Some k" "current_transaction cb k m = Some tx"
  shows "snd (get parse acq cb now now' u g m) = m" "snd (peek parse acq cb now u g m) = m"
    "snd (exists_session acq cb now u g m) = m"
proof -
  have *: "snd (at_key cb u g (\<lambda>k m. case current_transaction cb k m of Some tx \<Rightarrow> (r tx, m) | None \<Rightarrow> h k m) m) = m"
    for r :: "stxn \<Rightarrow> pyerr + 'z" and h
  proof (cases "at_key cb u g (\<lambda>k m. case current_transaction cb k m of Some tx \<Rightarrow> (r tx, m) | None \<Rightarrow> h k m) m")
    case (Pair x m')
    then show ?thesis
    proof (cases rule: at_key_cases)
      case (run k')
      then show ?thesis using Pair assms(2) reject_cross_same [OF assms(1) run(2)] by simp
    qed (simp add: Pair)
  qed
  show "snd (get parse acq cb now now' u g m) = m" unfolding get_def by (rule *)
  show "snd (peek parse acq cb now u g m) = m" unfolding peek_def by (rule *)
  show "snd (exists_session acq cb now u g m) = m" unfolding exists_session_def by (rule *)
qed

lemma mutate_stages:
  assumes "current_transaction cb k m = Some tx" "\<forall>w. data_wf (r_data w) \<longrightarrow> data_wf (r_data (f w))"
  shows "stages cb k tx m (cb_mutate cb k f m)"
proof (cases "working tx")
  case None
  then show ?thesis using assms(1) by (simp add: cb_mutate_def)
next
  case (Some w)
  have "stxn_ok tx \<longrightarrow> stxn_ok (tx\<lparr>working := Some (f w)\<rparr>)"
    using Some assms(2) by (simp add: stxn_ok_def)
  then have "stages cb k tx m (set_txn cb k (tx\<lparr>working := Some (f w)\<rparr>) m)"
    unfolding stages_def by (intro disjI2 exI [of _ "tx\<lparr>working := Some (f w)\<rparr>"]) simp
  then show ?thesis using Some assms(1) by (simp add: cb_mutate_def)
qed

lemma run_cb_op_stages:
  assumes "transaction_key cb m = Some k" "current_transaction cb k m = Some tx" "op_wf op"
  shows "stages cb k tx m (run_cb_op parse acq cb k op m)"
  using assms create_stages [OF assms(1,2)] mutate_stages [OF assms(2)]
  by (cases op) (simp_all add: run_cb_op_def op_wf_def read_stages delete_stages)

section \<open>Beginning and ending a transaction\<close>

lemma register_Inr: "register_transaction t k tx m = (Inr x, m') \<Longrightarrow> m' = set_txn t k tx m"
  by (auto simp: register_transaction_def set_txn_def split: if_splits)

lemma register_Inl: "register_transaction t k tx m = (Inl x, m') \<Longrightarrow> m' = m"
  by (auto simp: register_transaction_def split: if_splits)

lemma update_begin_Some:
  assumes "update_begin parse cb k now m = (Inr (Some j), m')" and inv: "manager_inv m"
  obtains i s w where "dget (sessions m) k = Some (i, s)" "\<not> is_expired now s" "clone_session parse s = Inr w"
    and "m' = set_txn cb k \<lparr>txn_id = fresh_id m, original = (i, s), working = Some (raw_of w), replaced = False\<rparr>
               (m\<lparr>fresh_id := fresh_id m + 1\<rparr>)"
    and "manager_inv m'"
proof -
  obtain r m1 where g: "get_active_locked k now m = (r, m1)" by fastforce
  show ?thesis using g
  proof (cases rule: get_active_cases)
    case (active i s)
    obtain w where w: "clone_session parse s = Inr w"
      using assms(1) g active by (auto simp: update_begin_def split: sum.splits)
    let ?tx = "\<lparr>txn_id = fresh_id m, original = (i, s), working = Some (raw_of w), replaced = False\<rparr>"
    have m': "m' = set_txn cb k ?tx (m\<lparr>fresh_id := fresh_id m + 1\<rparr>)"
      using assms(1) g active w
      by (auto simp: update_begin_def Let_def dest: register_Inr split: sum.splits prod.splits)
    have "session_ok s" "session_ok w"
      using manager_inv_get [OF inv active(2)] clone_session_ok w by auto
    then have "stxn_ok ?tx" by (simp add: stxn_ok_def session_ok_def raw_of_def)
    then have "manager_inv m'" using m' manager_inv_set_txn [OF manager_inv_fresh [OF inv]] by simp
    then show ?thesis using that active(2,3) w m' by blast
  qed (use assms(1) g in \<open>simp_all add: update_begin_def\<close>)
qed

lemma update_begin_other:
  assumes "update_begin parse cb k now m = (r, m')" and "\<forall>j. r \<noteq> Inr (Some j)"
  shows "transactions m' = transactions m \<and> (\<forall>k'. k' \<noteq> k \<longrightarrow> dget (sessions m') k' = dget (sessions m) k')
    \<and> (manager_inv m \<longrightarrow> manager_inv m')"
proof -
  obtain r0 m1 where g: "get_active_locked k now m = (r0, m1)" by fastforce
  note keep = get_active_keeps [OF g]
  have "m' = m1 \<or> m' = m1\<lparr>fresh_id := fresh_id m1 + 1\<rparr>"
    using assms g
    by (auto simp: update_begin_def Let_def dest: register_Inl split: sum.splits prod.splits option.splits)
  then show ?thesis using keep manager_inv_fresh [of m1] by auto
qed

lemma prepare_commit_ok:
  assumes "prepare_commit parse k now tx = Inr (Some c)" and "stxn_ok tx" and "skey_ok k"
    and "skey_of (snd (original tx)) = k"
  shows "session_ok c \<and> skey_of c = k \<and> version c = version (snd (original tx)) + 1 \<and> updated_at c = now
    \<and> (\<not> replaced tx \<longrightarrow> plugin_name c = plugin_name (snd (original tx))
        \<and> created_at c = created_at (snd (original tx)) \<and> session_id c = session_id (snd (original tx)))
    \<and> (\<exists>w t. working tx = Some w \<and> data_denotes (r_data w) t \<and> detached (bound (r_data w)) (sdata c) t)"
proof -
  obtain w where w: "working tx = Some w"
    using assms(1) by (auto simp: prepare_commit_def split: option.splits)
  then obtain c0 where c0: "clone_raw parse w = Inr c0"
    using assms(1) by (auto simp: prepare_commit_def bindE_eq_Inr)
  have ok0: "session_ok c0" and den: "\<exists>t. data_denotes (r_data w) t \<and> detached (bound (r_data w)) (sdata c0) t"
    using clone_raw_ok [OF _ c0] w assms(2) by (auto simp: stxn_ok_def)
  have orig: "session_ok (snd (original tx))" using assms(2) by (simp add: stxn_ok_def)
  let ?o = "snd (original tx)"
  have to: "normalize_timeout parse (VFloat (Fin (timeout c0))) = Inr (timeout c0)"
    using ok0 by (simp add: normalize_timeout_float session_ok_def fields_ok_def)
  let ?c1 = "c0\<lparr>user_id := fst k, group_id := snd k, updated_at := now, version := version ?o + 1\<rparr>"
  have names: "normalize_plugin_name (VStr (plugin_name c0)) = Inr (plugin_name c0)"
    "normalize_session_id (VStr (session_id c0)) = Inr (session_id c0)"
    using ok0 by (simp_all add: session_ok_def fields_ok_def normalize_plugin_name_def normalize_session_id_def)
  have c: "c = (if replaced tx then ?c1
      else ?c1\<lparr>plugin_name := plugin_name ?o, created_at := created_at ?o, session_id := session_id ?o\<rparr>)"
    using assms(1) w c0 to ok0 names
    by (auto simp: prepare_commit_def Let_def session_ok_def split: if_splits)
  have "session_ok c" "skey_of c = k"
    using c ok0 orig assms(3) by (auto simp: session_ok_def fields_ok_def skey_ok_def skey_of_def)
  moreover have "sdata c = sdata c0" "version c = version ?o + 1" "updated_at c = now" using c by auto
  ultimately show ?thesis using c w den by auto
qed

end
