(* ===== verification/Session_System.thy ===== *)
theory Session_System
  imports Session_Manager
begin

text \<open>
  The session manager under concurrency: many tasks call it at once, each operation runs inside the lock
  of its key (\<open>Keyed_Lock\<close>), and a transaction stays open over many steps of its callback. The
  invariant says that the stored session of an open transaction is the one it started from; from it
  follow serializability, rollback and the absence of the \<^verbatim>\<open>stored session changed\<close> error.
\<close>

section \<open>The system\<close>

text \<open>
  \<open>upd t\<close> is the update that task \<open>t\<close> waits for, with the task of its callback.
\<close>

record ssys =
  mgr :: manager
  locks :: "skey lock_sys"
  upd :: "task \<Rightarrow> (task \<times> skey) option"

text \<open>
  A task that waits for its callback does not leave the lock: \<open>hold\<close> ends after the \<^verbatim>\<open>finally\<close> block of
  \<open>update\<close>. The task of a callback is new.
\<close>

inductive sstep :: "(ustr \<Rightarrow> pyfloat option) \<Rightarrow> (skey \<Rightarrow> pyerr option) \<Rightarrow> ssys \<Rightarrow> ssys \<Rightarrow> bool"
  for parse acq where
  s_lock: "lock_step skey_str (locks s) l \<Longrightarrow>
    \<forall>t k. upd s t \<noteq> None \<longrightarrow> inside (locks s) t k \<longrightarrow> inside l t k \<Longrightarrow>
    sstep parse acq s (s\<lparr>locks := l\<rparr>)"
| s_body: "inside (locks s) t k \<Longrightarrow> upd s t = None \<Longrightarrow> body_step parse k (mgr s) m \<Longrightarrow>
    sstep parse acq s (s\<lparr>mgr := m\<rparr>)"
| s_begin: "inside (locks s) t k \<Longrightarrow> upd s t = None \<Longrightarrow> skey_ok k \<Longrightarrow> \<forall>t' k'. upd s t' \<noteq> Some (cb, k') \<Longrightarrow>
    update_begin parse cb k now (mgr s) = (Inr (Some i), m) \<Longrightarrow>
    sstep parse acq s (s\<lparr>mgr := m, upd := (upd s)(t \<mapsto> (cb, k))\<rparr>)"
| s_begin_none: "inside (locks s) t k \<Longrightarrow> upd s t = None \<Longrightarrow>
    update_begin parse cb k now (mgr s) = (r, m) \<Longrightarrow> \<forall>j. r \<noteq> Inr (Some j) \<Longrightarrow>
    sstep parse acq s (s\<lparr>mgr := m\<rparr>)"
| s_callback: "upd s t = Some (cb, k) \<Longrightarrow> op_wf op \<Longrightarrow>
    sstep parse acq s (s\<lparr>mgr := run_cb_op parse acq cb k op (mgr s)\<rparr>)"
| s_end: "upd s t = Some (cb, k) \<Longrightarrow> current_transaction cb k (mgr s) = Some tx \<Longrightarrow>
    update_end parse cb k now (outcome :: pyerr + unit) tx (mgr s) = (r, m) \<Longrightarrow>
    sstep parse acq s (s\<lparr>mgr := m, upd := (upd s)(t := None)\<rparr>)"
| s_timeout: "normalize_timeout parse v = Inr d \<Longrightarrow>
    sstep parse acq s (s\<lparr>mgr := (mgr s)\<lparr>default_timeout := d\<rparr>\<rparr>)"

definition sinit :: "manager \<Rightarrow> skey pool \<Rightarrow> ssys" where
  "sinit m p = \<lparr>mgr = m, locks = lock_init p, upd = (\<lambda>_. None)\<rparr>"

inductive sreach ::
  "(ustr \<Rightarrow> pyfloat option) \<Rightarrow> (skey \<Rightarrow> pyerr option) \<Rightarrow> ssys \<Rightarrow> ssys \<Rightarrow> bool" for parse acq s0 where
  sr_start: "sreach parse acq s0 s0"
| sr_step: "sreach parse acq s0 s \<Longrightarrow> sstep parse acq s s' \<Longrightarrow> sreach parse acq s0 s'"

inductive_cases sstepE: "sstep parse acq s s'"

section \<open>The invariant\<close>

definition open_ok :: "ssys \<Rightarrow> task \<Rightarrow> task \<Rightarrow> skey \<Rightarrow> bool" where
  "open_ok s t cb k \<longleftrightarrow> inside (locks s) t k \<and> skey_ok k \<and>
     (\<exists>tx. dget (transactions (mgr s)) (cb, k) = Some tx \<and> dget (sessions (mgr s)) k = Some (original tx))"

definition sys_inv :: "ssys \<Rightarrow> bool" where
  "sys_inv s \<longleftrightarrow> lock_inv (locks s) \<and> manager_inv (mgr s)
     \<and> (\<forall>t cb k. upd s t = Some (cb, k) \<longrightarrow> open_ok s t cb k)
     \<and> (\<forall>cb k tx. dget (transactions (mgr s)) (cb, k) = Some tx \<longrightarrow> (\<exists>t. upd s t = Some (cb, k)))
     \<and> (\<forall>t t' cb k k'. upd s t = Some (cb, k) \<longrightarrow> upd s t' = Some (cb, k') \<longrightarrow> t' = t)"

lemma sys_invD:
  "sys_inv s \<Longrightarrow> lock_inv (locks s)"
  "sys_inv s \<Longrightarrow> manager_inv (mgr s)"
  by (simp_all add: sys_inv_def)

lemma sys_invI:
  assumes "lock_inv (locks s)" "manager_inv (mgr s)"
    and "\<And>t cb k. upd s t = Some (cb, k) \<Longrightarrow> open_ok s t cb k"
    and "\<And>cb k tx. dget (transactions (mgr s)) (cb, k) = Some tx \<Longrightarrow> \<exists>t. upd s t = Some (cb, k)"
    and "\<And>t t' cb k k'. upd s t = Some (cb, k) \<Longrightarrow> upd s t' = Some (cb, k') \<Longrightarrow> t' = t"
  shows "sys_inv s"
  unfolding sys_inv_def using assms by meson

lemma sys_invI_upd:
  assumes "lock_inv (locks s)" "manager_inv m"
    and o: "\<And>t cb k. u t = Some (cb, k) \<Longrightarrow> open_ok (s\<lparr>mgr := m, upd := u\<rparr>) t cb k"
    and w: "\<And>cb k tx. dget (transactions m) (cb, k) = Some tx \<Longrightarrow> \<exists>t. u t = Some (cb, k)"
    and n: "\<And>t t' cb k k'. u t = Some (cb, k) \<Longrightarrow> u t' = Some (cb, k') \<Longrightarrow> t' = t"
  shows "sys_inv (s\<lparr>mgr := m, upd := u\<rparr>)"
proof (rule sys_invI)
  fix t cb k assume "upd (s\<lparr>mgr := m, upd := u\<rparr>) t = Some (cb, k)"
  then show "open_ok (s\<lparr>mgr := m, upd := u\<rparr>) t cb k" by (intro o) simp
next
  fix cb k tx assume "dget (transactions (mgr (s\<lparr>mgr := m, upd := u\<rparr>))) (cb, k) = Some tx"
  then have "\<exists>t. u t = Some (cb, k)" by (intro w [of cb k tx]) simp
  then show "\<exists>t. upd (s\<lparr>mgr := m, upd := u\<rparr>) t = Some (cb, k)" by simp
next
  fix t t' cb k k'
  assume "upd (s\<lparr>mgr := m, upd := u\<rparr>) t = Some (cb, k)" "upd (s\<lparr>mgr := m, upd := u\<rparr>) t' = Some (cb, k')"
  then show "t' = t" by (intro n [of t cb k t' k']) simp_all
qed (use assms(1,2) in simp_all)

lemma sys_inv_open: "sys_inv s \<Longrightarrow> upd s t = Some (cb, k) \<Longrightarrow> open_ok s t cb k"
  by (simp add: sys_inv_def)

lemma sys_inv_owner:
  "sys_inv s \<Longrightarrow> dget (transactions (mgr s)) (cb, k) = Some tx \<Longrightarrow> \<exists>t. upd s t = Some (cb, k)"
  unfolding sys_inv_def by meson

lemma sys_inv_unique: "sys_inv s \<Longrightarrow> upd s t = Some (cb, k) \<Longrightarrow> upd s t' = Some (cb, k') \<Longrightarrow> t' = t"
  unfolding sys_inv_def by meson

lemma manager_inv_txn: "manager_inv m \<Longrightarrow> dget (transactions m) ok = Some tx \<Longrightarrow> stxn_ok tx"
  unfolding manager_inv_def by meson

lemma open_okE:
  assumes "sys_inv s" "upd s t = Some (cb, k)"
  obtains tx where "inside (locks s) t k" "skey_ok k" "dget (transactions (mgr s)) (cb, k) = Some tx"
    "dget (sessions (mgr s)) k = Some (original tx)" "stxn_ok tx" "skey_of (snd (original tx)) = k"
proof -
  obtain tx where tx: "inside (locks s) t k" "skey_ok k" "dget (transactions (mgr s)) (cb, k) = Some tx"
    "dget (sessions (mgr s)) k = Some (original tx)"
    using sys_inv_open [OF assms] unfolding open_ok_def by meson
  moreover have "stxn_ok tx" using manager_inv_txn [OF sys_invD(2) [OF assms(1)] tx(3)] .
  moreover have "skey_of (snd (original tx)) = k"
    using manager_inv_get [OF sys_invD(2) [OF assms(1)], of k "fst (original tx)" "snd (original tx)"] tx(4)
    by simp
  ultimately show ?thesis by (rule that)
qed

text \<open>The key of the transaction of a callback task is the key of its update.\<close>

lemma find_key:
  assumes "(t, k) \<in> set ks" and "\<And>k'. (t, k') \<in> set ks \<Longrightarrow> k' = k"
  shows "map_option snd (find (\<lambda>ok. fst ok = t) ks) = Some k"
proof (cases "find (\<lambda>ok. fst ok = t) ks")
  case None
  then show ?thesis using assms(1) by (auto simp: find_None_iff)
next
  case (Some ok)
  have f: "fst ok = t" "ok \<in> set ks" using Some by (auto simp: find_Some_iff)
  then have "(t, snd ok) \<in> set ks" by (cases ok) simp
  then have "snd ok = k" by (rule assms(2))
  then show ?thesis using Some by simp
qed

lemma dkeys_dget: "k \<in> set (dkeys d) \<longleftrightarrow> (\<exists>v. dget d k = Some v)"
  using dget_None_iff [of d k] by (cases "dget d k") simp_all

lemma transaction_key_open:
  assumes "sys_inv s" "upd s t = Some (cb, k)"
  shows "transaction_key cb (mgr s) = Some k"
proof -
  obtain tx where tx: "dget (transactions (mgr s)) (cb, k) = Some tx"
    using assms by (rule open_okE)
  have "k' = k" if "(cb, k') \<in> set (dkeys (transactions (mgr s)))" for k'
  proof -
    from that obtain tx' where tx': "dget (transactions (mgr s)) (cb, k') = Some tx'"
      unfolding dkeys_dget ..
    obtain t' where t': "upd s t' = Some (cb, k')" using sys_inv_owner [OF assms(1) tx'] ..
    then have "t' = t" using sys_inv_unique [OF assms] by blast
    then show ?thesis using t' assms(2) by simp
  qed
  moreover have "(cb, k) \<in> set (dkeys (transactions (mgr s)))"
    using tx unfolding dkeys_dget ..
  ultimately show ?thesis unfolding transaction_key_def by (rule find_key [rotated])
qed

text \<open>
  A body that runs inside the lock of a key leaves the sessions of all open transactions alone: a task
  with an open transaction is another one, so its key is another key.
\<close>

lemma open_ok_frame:
  assumes "sys_inv s" and "inside (locks s) t k" and "upd s t = None"
    and "transactions m = transactions (mgr s)"
    and "\<forall>k'. k' \<noteq> k \<longrightarrow> dget (sessions m) k' = dget (sessions (mgr s)) k'"
    and "upd s t' = Some (cb, k')"
  shows "open_ok (s\<lparr>mgr := m\<rparr>) t' cb k'"
proof -
  have o: "open_ok s t' cb k'" using sys_inv_open [OF assms(1,6)] .
  have "t' \<noteq> t" using assms(3,6) by auto
  then have "k' \<noteq> k"
    using klock.others_outside [OF sys_invD(1) [OF assms(1)] assms(2)] o by (auto simp: open_ok_def)
  then show ?thesis using o assms(4,5) by (auto simp: open_ok_def)
qed

lemma body_sys_inv:
  assumes inv: "sys_inv s" and i: "inside (locks s) t k" and u: "upd s t = None"
    and tr: "transactions m = transactions (mgr s)"
    and se: "\<forall>k'. k' \<noteq> k \<longrightarrow> dget (sessions m) k' = dget (sessions (mgr s)) k'"
    and mi: "manager_inv m"
  shows "sys_inv (s\<lparr>mgr := m\<rparr>)"
proof -
  have "\<exists>t. upd s t = Some (cb, k')" if "dget (transactions m) (cb, k') = Some tx" for cb k' tx
    using sys_inv_owner [OF inv] that tr by simp
  then show ?thesis
    using open_ok_frame [OF inv i u tr se] sys_invD(1) [OF inv] sys_inv_unique [OF inv] mi
    unfolding sys_inv_def by simp
qed

section \<open>Every step keeps the invariant\<close>

lemma update_end_cases:
  assumes "update_end parse cb k now outcome tx m = (r, m')"
  obtains (rollback) e where "r = Inl e" "m' = unregister_transaction cb k (txn_id tx) m"
      "outcome = Inl e \<or> prepare_commit parse k now tx = Inl e
       \<or> e = err_changed \<and> map_option fst (dget (sessions m) k) \<noteq> Some (fst (original tx))"
    | (removed) x where "r = Inr x" "outcome = Inr x" "prepare_commit parse k now tx = Inr None"
      "m' = unregister_transaction cb k (txn_id tx) (m\<lparr>sessions := ddel k (sessions m)\<rparr>)"
    | (committed) x c where "r = Inr x" "outcome = Inr x" "prepare_commit parse k now tx = Inr (Some c)"
      "m' = unregister_transaction cb k (txn_id tx) (locked_store k c m)"
proof (cases outcome)
  case (Inl e)
  then show ?thesis using assms by (intro rollback [of e]) (auto simp: update_end_def)
next
  case o: (Inr x)
  show ?thesis
  proof (cases "prepare_commit parse k now tx")
    case (Inl e)
    then show ?thesis using assms o by (intro rollback [of e]) (auto simp: update_end_def update_commit_def)
  next
    case (Inr co)
    show ?thesis
    proof (cases "map_option fst (dget (sessions m) k) = Some (fst (original tx))")
      case False
      then show ?thesis using assms o Inr
        by (intro rollback [of err_changed]) (auto simp: update_end_def update_commit_def)
    next
      case True
      show ?thesis
      proof (cases co)
        case None
        then show ?thesis using assms o Inr True
          by (intro removed [of x]) (auto simp: update_end_def update_commit_def)
      next
        case (Some c)
        then show ?thesis using assms o Inr True
          by (intro committed [of x c]) (auto simp: update_end_def update_commit_def)
      qed
    qed
  qed
qed

lemma update_end_inv:
  assumes inv: "sys_inv s" and u: "upd s t = Some (cb, k)"
    and tx: "current_transaction cb k (mgr s) = Some tx"
    and e: "update_end parse cb k now outcome tx (mgr s) = (r, m)"
  shows "manager_inv m \<and> (\<forall>k'. k' \<noteq> k \<longrightarrow> dget (sessions m) k' = dget (sessions (mgr s)) k')
    \<and> dget (transactions m) = (dget (transactions (mgr s)))((cb, k) := None)"
proof -
  have mi: "manager_inv (mgr s)" using sys_invD(2) [OF inv] .
  obtain tx' where tx': "skey_ok k" "dget (transactions (mgr s)) (cb, k) = Some tx'"
    "stxn_ok tx'" "skey_of (snd (original tx')) = k"
    using open_okE [OF inv u] by blast
  have [simp]: "tx' = tx" using tx tx'(2) by (simp add: current_transaction_def)
  have ur: "transactions m1 = transactions (mgr s) \<Longrightarrow>
    dget (transactions (unregister_transaction cb k (txn_id tx) m1)) = (dget (transactions (mgr s)))((cb, k) := None)" for m1
    using tx'(2) by (simp add: unregister_transaction_def)
  from e show ?thesis
  proof (cases rule: update_end_cases)
    case (rollback e)
    then show ?thesis using mi ur by (simp add: manager_inv_unregister)
  next
    case (removed x)
    then show ?thesis using mi ur by (simp add: manager_inv_unregister manager_inv_del)
  next
    case (committed x c)
    have "session_ok c \<and> skey_of c = k"
      using prepare_commit_ok [OF committed(3)] tx' by simp
    then show ?thesis using committed(4) mi ur by (simp add: manager_inv_unregister manager_inv_store)
  qed
qed

lemma sys_inv_lock:
  assumes "sys_inv s" "lock_step skey_str (locks s) l"
    "\<forall>t k. upd s t \<noteq> None \<longrightarrow> inside (locks s) t k \<longrightarrow> inside l t k"
  shows "sys_inv (s\<lparr>locks := l\<rparr>)"
proof -
  have "open_ok (s\<lparr>locks := l\<rparr>) t cb k" if "upd s t = Some (cb, k)" for t cb k
    using sys_inv_open [OF assms(1) that] assms(3) that by (auto simp: open_ok_def)
  then show ?thesis
    using assms(1) lock_step_inv [OF assms(2)] unfolding sys_inv_def by simp
qed

lemma sys_inv_begin:
  assumes inv: "sys_inv s" and i: "inside (locks s) t k" and u: "upd s t = None" and k: "skey_ok k"
    and new: "\<forall>t' k'. upd s t' \<noteq> Some (cb, k')"
    and b: "update_begin parse cb k now (mgr s) = (Inr (Some j), m)"
  shows "sys_inv (s\<lparr>mgr := m, upd := (upd s)(t \<mapsto> (cb, k))\<rparr>)"
proof -
  have mi: "manager_inv (mgr s)" using sys_invD(2) [OF inv] .
  obtain i s0 w where b': "dget (sessions (mgr s)) k = Some (i, s0)" "manager_inv m"
    "m = set_txn cb k \<lparr>txn_id = fresh_id (mgr s), original = (i, s0), working = Some (raw_of w), replaced = False\<rparr>
               ((mgr s)\<lparr>fresh_id := fresh_id (mgr s) + 1\<rparr>)"
    using update_begin_Some [OF b mi] by blast
  have frame: "open_ok (s\<lparr>mgr := m, upd := (upd s)(t \<mapsto> (cb, k))\<rparr>) t' cb' k'"
    if "upd s t' = Some (cb', k')" for t' cb' k'
  proof -
    have "cb' \<noteq> cb" using new that by blast
    then show ?thesis using sys_inv_open [OF inv that] b'(3) by (simp add: open_ok_def)
  qed
  have own: "open_ok (s\<lparr>mgr := m, upd := (upd s)(t \<mapsto> (cb, k))\<rparr>) t cb k"
    using i k b' by (simp add: open_ok_def)
  have A: "\<exists>t'. ((upd s)(t \<mapsto> (cb, k))) t' = Some (cb', k')"
    if "dget (transactions m) (cb', k') = Some tx'" for cb' k' tx'
  proof (cases "(cb', k') = (cb, k)")
    case True
    then show ?thesis by (intro exI [of _ t]) simp
  next
    case False
    then have "dget (transactions (mgr s)) (cb', k') = Some tx'" using that b'(3) by (auto split: if_splits)
    then obtain t' where t': "upd s t' = Some (cb', k')" using sys_inv_owner [OF inv] by blast
    then have "t' \<noteq> t" using u by auto
    then show ?thesis using t' by (intro exI [of _ t']) simp
  qed
  have B: "t'' = t'" if "((upd s)(t \<mapsto> (cb, k))) t' = Some (cb', k')"
    "((upd s)(t \<mapsto> (cb, k))) t'' = Some (cb', k'')" for t' t'' cb' k' k''
  proof (cases "cb' = cb")
    case True
    have "t' = t" using that(1) new True by (cases "t' = t") simp_all
    moreover have "t'' = t" using that(2) new True by (cases "t'' = t") simp_all
    ultimately show ?thesis by simp
  next
    case False
    have "upd s t' = Some (cb', k')" using that(1) False by (cases "t' = t") simp_all
    moreover have "upd s t'' = Some (cb', k'')" using that(2) False by (cases "t'' = t") simp_all
    ultimately show ?thesis by (rule sys_inv_unique [OF inv])
  qed
  have C: "open_ok (s\<lparr>mgr := m, upd := (upd s)(t \<mapsto> (cb, k))\<rparr>) t' cb' k'"
    if "((upd s)(t \<mapsto> (cb, k))) t' = Some (cb', k')" for t' cb' k'
    using that own frame by (cases "t' = t") simp_all
  show ?thesis
  proof (rule sys_invI_upd)
    show "lock_inv (locks s)" "manager_inv m" using b'(2) sys_invD(1) [OF inv] by simp_all
  qed (fact A B C)+
qed

lemma sys_inv_callback:
  assumes inv: "sys_inv s" and u: "upd s t = Some (cb, k)" and w: "op_wf op"
  shows "sys_inv (s\<lparr>mgr := run_cb_op parse acq cb k op (mgr s)\<rparr>)"
proof -
  obtain tx where tx: "dget (transactions (mgr s)) (cb, k) = Some tx" "stxn_ok tx"
    using open_okE [OF inv u] by blast
  let ?m = "run_cb_op parse acq cb k op (mgr s)"
  have "stages cb k tx (mgr s) ?m"
    using run_cb_op_stages [OF transaction_key_open [OF inv u] _ w] tx(1) by (simp add: current_transaction_def)
  then consider "?m = mgr s" | tx' where "?m = set_txn cb k tx' (mgr s)" "original tx' = original tx" "stxn_ok tx'"
    using tx(2) by (auto simp: stages_def)
  then show ?thesis
  proof cases
    case 1
    then show ?thesis using inv by simp
  next
    case 2
    have "open_ok (s\<lparr>mgr := ?m\<rparr>) t' cb' k'" if "upd s t' = Some (cb', k')" for t' cb' k'
      using sys_inv_open [OF inv that] tx(1) 2 by (auto simp: open_ok_def)
    moreover have "\<exists>t'. upd s t' = Some (cb', k')" if "dget (transactions ?m) (cb', k') = Some tx''" for cb' k' tx''
      using that 2(1) u sys_inv_owner [OF inv] by (auto split: if_splits)
    moreover have "manager_inv ?m" using 2 sys_invD(2) [OF inv] by (simp add: manager_inv_set_txn)
    ultimately show ?thesis
      using sys_invD(1) [OF inv] sys_inv_unique [OF inv] unfolding sys_inv_def by simp
  qed
qed

lemma sys_inv_end:
  assumes inv: "sys_inv s" and u: "upd s t = Some (cb, k)"
    and tx: "current_transaction cb k (mgr s) = Some tx"
    and e: "update_end parse cb k now outcome tx (mgr s) = (r, m)"
  shows "sys_inv (s\<lparr>mgr := m, upd := (upd s)(t := None)\<rparr>)"
proof -
  note facts = update_end_inv [OF inv u tx e]
  have frame: "open_ok (s\<lparr>mgr := m, upd := (upd s)(t := None)\<rparr>) t' cb' k'"
    if "upd s t' = Some (cb', k')" "t' \<noteq> t" for t' cb' k'
  proof -
    have o: "open_ok s t' cb' k'" "open_ok s t cb k"
      using sys_inv_open [OF inv that(1)] sys_inv_open [OF inv u] by blast+
    then have "k' \<noteq> k"
      using klock.others_outside [OF sys_invD(1) [OF inv] _ that(2), of k] by (auto simp: open_ok_def)
    then show ?thesis using o(1) facts by (auto simp: open_ok_def)
  qed
  have A: "\<exists>t'. ((upd s)(t := None)) t' = Some (cb', k')"
    if d: "dget (transactions m) (cb', k') = Some tx'" for cb' k' tx'
  proof -
    have ne: "(cb', k') \<noteq> (cb, k)" and "dget (transactions (mgr s)) (cb', k') = Some tx'"
      using d facts by (auto split: if_splits)
    then obtain t' where t': "upd s t' = Some (cb', k')" using sys_inv_owner [OF inv] by blast
    then have "t' \<noteq> t" using u ne by auto
    then show ?thesis using t' by (intro exI [of _ t']) simp
  qed
  have C: "open_ok (s\<lparr>mgr := m, upd := (upd s)(t := None)\<rparr>) t' cb' k'"
    if "((upd s)(t := None)) t' = Some (cb', k')" for t' cb' k'
    using that frame [of t' cb' k'] by (cases "t' = t") simp_all
  have B: "t'' = t'" if "((upd s)(t := None)) t' = Some (cb', k')"
    "((upd s)(t := None)) t'' = Some (cb', k'')" for t' t'' cb' k' k''
  proof -
    have "upd s t' = Some (cb', k')" using that(1) by (cases "t' = t") simp_all
    moreover have "upd s t'' = Some (cb', k'')" using that(2) by (cases "t'' = t") simp_all
    ultimately show ?thesis by (rule sys_inv_unique [OF inv])
  qed
  show ?thesis
  proof (rule sys_invI_upd)
    show "lock_inv (locks s)" "manager_inv m" using facts sys_invD(1) [OF inv] by simp_all
  qed (fact A B C)+
qed

lemma sstep_inv: "sstep parse acq s s' \<Longrightarrow> sys_inv s \<Longrightarrow> sys_inv s'"
proof (induction rule: sstep.induct)
  case (s_body s t k m)
  then show ?case
    using body_sys_inv [OF s_body(4,1,2) conjunct1 [OF body_step_keeps [OF s_body(3)]]
      conjunct2 [OF body_step_keeps [OF s_body(3)]]] body_step_inv [OF s_body(3) sys_invD(2) [OF s_body(4)]]
    by simp
next
  case (s_begin_none s t k cb now r m)
  then show ?case
    using update_begin_other [OF s_begin_none(3,4)] sys_invD(2) body_sys_inv [OF s_begin_none(5,1,2)] by blast
next
  case (s_timeout v d s)
  have "manager_inv ((mgr s)\<lparr>default_timeout := d\<rparr>)"
    using sys_invD(2) [OF s_timeout(2)] by (simp add: manager_inv_def)
  moreover have "open_ok (s\<lparr>mgr := (mgr s)\<lparr>default_timeout := d\<rparr>\<rparr>) t cb k \<longleftrightarrow> open_ok s t cb k" for t cb k
    by (simp add: open_ok_def)
  ultimately show ?case using s_timeout(2) unfolding sys_inv_def by simp
qed (simp_all add: sys_inv_lock sys_inv_begin sys_inv_callback sys_inv_end)

lemma sinit_inv: "new_manager parse v = Inr m \<Longrightarrow> new_pool a b = Inr p \<Longrightarrow> sys_inv (sinit m p)"
  using lock_init_inv [of a b p]
  by (auto simp: sys_inv_def sinit_def new_manager_def bindE_eq_Inr manager_inv_def)

lemma sreach_inv: "sreach parse acq s0 s \<Longrightarrow> sys_inv s0 \<Longrightarrow> sys_inv s"
  by (induction rule: sreach.induct) (auto intro: sstep_inv)

section \<open>A concrete run\<close>

text \<open>
  Task 1 takes the lock of user 5, creates a session with the data \<open>{}\<close>, starts an update whose callback
  runs in task 2, and the callback changes the state of its working copy.
\<close>

definition run_session :: session where
  "run_session = \<lparr>user_id = 5, group_id = None, plugin_name = U ''p'', session_id = U ''x'', state = U ''active'',
     sdata = empty_data, created_at = 10, updated_at = 10, timeout = 300, version = 0\<rparr>"

definition run_clone_data :: sdata where
  "run_clone_data = \<lparr>root = HRef 1, objs = [0 \<mapsto> ODict [], 1 \<mapsto> ODict []], bound = 2\<rparr>"

definition run_clone_data2 :: sdata where
  "run_clone_data2 = \<lparr>root = HRef 2, objs = [0 \<mapsto> ODict [], 1 \<mapsto> ODict [], 2 \<mapsto> ODict []], bound = 3\<rparr>"

definition run_txn :: stxn where
  "run_txn = \<lparr>txn_id = 1, original = (0, run_session),
     working = Some (raw_of (run_session\<lparr>sdata := run_clone_data, state := U ''next''\<rparr>)), replaced = False\<rparr>"

definition run_commit :: session where
  "run_commit = run_session\<lparr>sdata := run_clone_data2, state := U ''next'', updated_at := 20, version := 1\<rparr>"

lemma run_clone: "clone_data empty_data = Inr run_clone_data" "clone_data run_clone_data = Inr run_clone_data2"
  by (simp_all add: clone_data_def empty_data_def run_clone_data_def run_clone_data2_def clone_session_data_def
      init_clone_def clone_value.simps Let_def max_session_data_nodes_def max_session_data_depth_def)

lemma run_strip: "strip [112] = [112]" "strip [120] = [120]"
  by (simp_all add: strip_def lstrip_def rstrip_def uspace_def)

lemma run_sel [simp]:
  "user_id run_session = 5" "group_id run_session = None" "plugin_name run_session = [112]"
  "session_id run_session = [120]" "created_at run_session = 10" "updated_at run_session = 10"
  "timeout run_session = 300" "version run_session = 0" "sdata run_session = empty_data"
  by (simp_all add: run_session_def)

lemma run_root: "is_dict_root empty_data" "is_dict_root run_clone_data" "is_dict_root run_clone_data2"
  by (simp_all add: is_dict_root_def empty_data_def run_clone_data_def run_clone_data2_def)

lemma run_fields: "fields_ok (run_session\<lparr>sdata := d, state := st\<rparr>)" "fields_ok run_session"
  by (simp_all add: fields_ok_def id_ok_def run_strip)

lemma run_clone_session:
  "clone_session parse run_session = Inr (run_session\<lparr>sdata := run_clone_data\<rparr>)"
  "clone_raw parse (raw_of (run_session\<lparr>sdata := run_clone_data, state := U ''next''\<rparr>))
     = Inr (run_session\<lparr>sdata := run_clone_data2, state := U ''next''\<rparr>)"
  using post_init_raw_of [OF run_fields(2) run_root(2)]
    post_init_raw_of [OF run_fields(1) [where d = run_clone_data and st = "U ''next''"] run_root(3), of parse]
  by (simp_all add: clone_session_def clone_raw_def run_clone raw_of_def)

lemma run_new:
  "new_session parse 300 (5, None) (VStr (U ''p'')) NoData VNone 10 (U ''x'') = Inr run_session"
  using post_init_raw_of [OF run_fields(2) run_root(1), of parse]
  by (simp add: new_session_def normalize_plugin_name_def initial_data_copy_def run_strip run_session_def raw_of_def)

lemma run_txn_sel: "original run_txn = (0, run_session)" "txn_id run_txn = 1" "replaced run_txn = False"
  by (simp_all add: run_txn_def)

lemma run_prepare: "prepare_commit parse (5, None) 20 run_txn = Inr (Some run_commit)"
  using run_clone_session(2) [of parse]
  by (simp add: prepare_commit_def run_txn_def normalize_timeout_def py_float_def run_root run_commit_def)

lemma session_run:
  obtains m p s where "new_manager parse (VInt 300) = Inr m" "new_pool 4096 128 = Inr p"
    and "sreach parse acq (sinit m p) s" and "upd s 1 = Some (2, (5, None))"
    and "current_transaction 2 (5, None) (mgr s) = Some run_txn"
    and "dget (sessions (mgr s)) (5, None) = Some (0, run_session)" and "fresh_id (mgr s) = 2"
proof -
  let ?k = "(5, None) :: skey"
  let ?m = "\<lparr>sessions = [], default_timeout = 300, transactions = [], fresh_id = 0\<rparr> :: manager"
  let ?p = "\<lparr>max_keys = 4096, max_key_length = 128, entries = [], entry_objs = Map.empty, next_eid = 0\<rparr> :: skey pool"
  have m: "new_manager parse (VInt 300) = Inr ?m"
    by (simp add: new_manager_def normalize_timeout_def py_float_def float_of_int_def)
  have p: "new_pool 4096 128 = Inr ?p" by (simp add: new_pool_def)
  let ?s0 = "sinit ?m ?p"
  have len: "skey_str ?k \<noteq> []" "length (skey_str ?k) \<le> 128"
    by (simp_all add: skey_str_def int_str_def nat_str.simps)
  let ?e = "\<lparr>locked = True, waiters = [], users = 1, owner = Some 1, depth = 1\<rparr>"
  let ?p1 = "\<lparr>max_keys = 4096, max_key_length = 128, entries = [(?k, 0)], entry_objs = [0 \<mapsto> ?e], next_eid = 1\<rparr> :: skey pool"
  have "hold_enter skey_str 1 ?k ?p = (Inr (0, True), ?p1)"
    using len by (simp add: hold_enter_def find_entry_def put_entry_def new_entry_def)
  then have st1: "lock_step skey_str (lock_init ?p) ((lock_init ?p)\<lparr>lpool := ?p1, holding := {#(1, ?k, 0)#}\<rparr>)"
    using lock_step.enter_now [where s = "lock_init ?p" and t = 1 and k = ?k] by (simp add: lock_init_def)
  let ?l = "(lock_init ?p)\<lparr>lpool := ?p1, holding := {#(1, ?k, 0)#}\<rparr>"
  have r1: "sreach parse acq ?s0 (?s0\<lparr>locks := ?l\<rparr>)"
    using sr_step [OF sr_start s_lock [where s = ?s0 and l = ?l]] st1 by (simp add: sinit_def)
  have i: "inside ?l 1 ?k" by (simp add: inside_def)
  let ?m1 = "locked_store ?k run_session ?m"
  have r2: "sreach parse acq ?s0 (?s0\<lparr>locks := ?l, mgr := ?m1\<rparr>)"
    using sr_step [OF r1 s_body [where t = 1 and k = ?k and m = ?m1]] i b_create [OF run_new, where m = ?m]
    by (simp add: sinit_def init_wf_def)
  let ?tx0 = "\<lparr>txn_id = 1, original = (0, run_session), working = Some (raw_of (run_session\<lparr>sdata := run_clone_data\<rparr>)),
     replaced = False\<rparr>"
  let ?m2 = "\<lparr>sessions = [(?k, 0, run_session)], default_timeout = 300, transactions = [((2, ?k), ?tx0)], fresh_id = 2\<rparr>"
  have ne: "\<not> is_expired 11 run_session" by (simp add: is_expired_def)
  have "update_begin parse 2 ?k 11 ?m1 = (Inr (Some 1), ?m2)"
    using ne by (simp add: update_begin_def get_active_locked_def locked_store_def run_clone_session
        register_transaction_def Let_def)
  then have r3: "sreach parse acq ?s0 (?s0\<lparr>locks := ?l, mgr := ?m2, upd := [1 \<mapsto> (2, ?k)]\<rparr>)"
    using sr_step [OF r2 s_begin [where t = 1 and k = ?k and cb = 2 and now = 11 and i = 1 and m = ?m2]] i
    by (simp add: sinit_def skey_ok_def id_ok_def)
  let ?op = "CbMutate (\<lambda>w. w\<lparr>r_state := VStr (U ''next'')\<rparr>)"
  let ?m3 = "\<lparr>sessions = [(?k, 0, run_session)], default_timeout = 300, transactions = [((2, ?k), run_txn)], fresh_id = 2\<rparr>"
  have "run_cb_op parse acq 2 ?k ?op ?m2 = ?m3"
    by (simp add: run_cb_op_def cb_mutate_def current_transaction_def set_txn_def run_txn_def raw_of_def run_session_def)
  then have r4: "sreach parse acq ?s0 (?s0\<lparr>locks := ?l, mgr := ?m3, upd := [1 \<mapsto> (2, ?k)]\<rparr>)"
    using sr_step [OF r3 s_callback [where t = 1 and k = ?k and cb = 2 and op = ?op]]
    by (simp add: sinit_def op_wf_def)
  show ?thesis
    by (rule that [OF m p r4]) (simp_all add: sinit_def current_transaction_def)
qed

section \<open>Properties\<close>

definition start_ok :: "(ustr \<Rightarrow> pyfloat option) \<Rightarrow> ssys \<Rightarrow> bool" where
  "start_ok parse s0 \<longleftrightarrow> (\<exists>v a b m p. new_manager parse v = Inr m \<and> new_pool a b = Inr p \<and> s0 = sinit m p)"

lemma start_okI: "new_manager parse v = Inr m \<Longrightarrow> new_pool a b = Inr p \<Longrightarrow> start_ok parse (sinit m p)"
  unfolding start_ok_def by blast

lemma sreach_sys_inv: "start_ok parse s0 \<Longrightarrow> sreach parse acq s0 s \<Longrightarrow> sys_inv s"
  unfolding start_ok_def using sreach_inv sinit_inv by blast

text \<open>
  C1. Serializability of \<open>update\<close> under any interleaving with other tasks: when a transaction ends, the
  stored session is still the very one it started from, so the \<^verbatim>\<open>stored session changed\<close> error never
  occurs. A successful end publishes either the deletion or one new session, with the key of the
  transaction, a version exactly one higher than the stored one, and data that denotes what the working
  copy denoted, in objects of its own; unless the callback replaced the session, its plugin, its id and
  its creation time stay. Sessions of other keys do not change.
\<close>

theorem session_update_serializable:
  assumes "start_ok parse s0" and "sreach parse acq s0 s" and "upd s t = Some (cb, k)"
    and "current_transaction cb k (mgr s) = Some tx"
    and "update_end parse cb k now outcome tx (mgr s) = (Inr x, m)"
  shows "dget (sessions (mgr s)) k = Some (original tx)
    \<and> (\<forall>k'. k' \<noteq> k \<longrightarrow> dget (sessions m) k' = dget (sessions (mgr s)) k')
    \<and> (case dget (sessions m) k of
         None \<Rightarrow> working tx = None
       | Some (i, c) \<Rightarrow> session_ok c \<and> skey_of c = k \<and> version c = version (snd (original tx)) + 1 \<and> updated_at c = now
           \<and> (\<not> replaced tx \<longrightarrow> plugin_name c = plugin_name (snd (original tx))
               \<and> created_at c = created_at (snd (original tx)) \<and> session_id c = session_id (snd (original tx)))
           \<and> (\<exists>w d. working tx = Some w \<and> data_denotes (r_data w) d \<and> detached (bound (r_data w)) (sdata c) d))"
proof -
  have inv: "sys_inv s" using sreach_sys_inv assms(1,2) .
  obtain tx' where tx': "skey_ok k" "dget (transactions (mgr s)) (cb, k) = Some tx'"
    "stxn_ok tx'" "skey_of (snd (original tx')) = k" "dget (sessions (mgr s)) k = Some (original tx')"
    using open_okE [OF inv assms(3)] by blast
  have [simp]: "tx' = tx" using assms(4) tx'(2) by (simp add: current_transaction_def)
  note other = update_end_inv [OF inv assms(3,4,5)]
  from assms(5) show ?thesis
  proof (cases rule: update_end_cases)
    case (removed y)
    then have "working tx = None" by (auto simp: prepare_commit_def Let_def bindE_eq_Inr split: option.splits if_splits)
    then show ?thesis using removed(4) tx'(5) other by simp
  next
    case (committed y c)
    then show ?thesis using prepare_commit_ok [OF committed(3)] tx' other by simp
  qed simp
qed

theorem session_update_serializable_witness:
  "\<exists>(s :: ssys) m c. upd s 1 = Some (2, (5, None))
     \<and> update_end (\<lambda>_. None) 2 (5, None) 20 (Inr ()) run_txn (mgr s) = (Inr (), m)
     \<and> dget (sessions m) (5, None) = Some (2, c) \<and> version c = 1 \<and> state c = U ''next''"
proof -
  obtain m p s where r: "new_manager (\<lambda>_. None) (VInt 300) = Inr m" "new_pool 4096 128 = Inr p"
    "sreach (\<lambda>_. None) (\<lambda>_. None) (sinit m p) s" "upd s 1 = Some (2, (5, None))"
    "current_transaction 2 (5, None) (mgr s) = Some run_txn"
    "dget (sessions (mgr s)) (5, None) = Some (0, run_session)" "fresh_id (mgr s) = 2"
    by (rule session_run)
  obtain m' where m': "update_end (\<lambda>_. None) 2 (5, None) 20 (Inr ()) run_txn (mgr s) = (Inr (), m')"
    "dget (sessions m') (5, None) = Some (2, run_commit)"
    using r(6,7) by (simp add: update_end_def update_commit_def run_prepare run_txn_sel)
  have "start_ok (\<lambda>_. None) (sinit m p)" using start_okI [OF r(1,2)] .
  from session_update_serializable [OF this r(3-5) m'(1)] have "version run_commit = 1"
    using m'(2) by (simp add: run_txn_sel)
  moreover have "state run_commit = U ''next''" by (simp add: run_commit_def)
  ultimately show ?thesis using r(4) m' by blast
qed

text \<open>
  C36. Rollback: when the callback raises or is cancelled, or its working copy fails the validation, no
  session changes at all, the error is the one of the callback or of the validation, and the
  transaction is gone.
\<close>

theorem session_update_rollback:
  assumes "start_ok parse s0" and "sreach parse acq s0 s" and "upd s t = Some (cb, k)"
    and "current_transaction cb k (mgr s) = Some tx"
    and "update_end parse cb k now outcome tx (mgr s) = (Inl e, m)"
  shows "sessions m = sessions (mgr s) \<and> current_transaction cb k m = None
    \<and> (outcome = Inl e \<or> prepare_commit parse k now tx = Inl e)"
proof -
  have inv: "sys_inv s" using sreach_sys_inv assms(1,2) .
  obtain tx' where tx': "dget (transactions (mgr s)) (cb, k) = Some tx'"
    "dget (sessions (mgr s)) k = Some (original tx')"
    using open_okE [OF inv assms(3)] by blast
  have eq: "tx' = tx" using assms(4) tx'(1) by (simp add: current_transaction_def)
  note other = update_end_inv [OF inv assms(3,4,5)]
  from assms(5) show ?thesis
  proof (cases rule: update_end_cases)
    case (rollback e')
    then show ?thesis using other tx'(2) eq by (auto simp: current_transaction_def)
  qed simp_all
qed

theorem session_update_rollback_witness:
  "\<exists>(s :: ssys) m. upd s 1 = Some (2, (5, None))
     \<and> update_end (\<lambda>_. None) 2 (5, None) 20 (Inl (OtherError ''boom'') :: pyerr + unit) run_txn (mgr s)
         = (Inl (OtherError ''boom''), m)
     \<and> sessions m = sessions (mgr s)"
proof -
  obtain m p s where r: "new_manager (\<lambda>_. None) (VInt 300) = Inr m" "new_pool 4096 128 = Inr p"
    "sreach (\<lambda>_. None) (\<lambda>_. None) (sinit m p) s" "upd s 1 = Some (2, (5, None))"
    "current_transaction 2 (5, None) (mgr s) = Some run_txn"
    by (rule session_run)
  obtain m' where m': "update_end (\<lambda>_. None) 2 (5, None) 20 (Inl (OtherError ''boom'') :: pyerr + unit) run_txn (mgr s)
      = (Inl (OtherError ''boom''), m')"
    by (simp add: update_end_def)
  have "start_ok (\<lambda>_. None) (sinit m p)" using start_okI [OF r(1,2)] .
  from session_update_rollback [OF this r(3-5) m'] show ?thesis using r(4) m' by blast
qed

text \<open>
  C34. Well-formedness of the store: in every reachable state each stored session has a positive user id,
  a positive or absent group id, trimmed non-empty plugin name and session id, a positive timeout, a
  non-negative version and a dictionary as data, and it is stored under its own key.
\<close>

theorem session_store_ok:
  assumes "start_ok parse s0" and "sreach parse acq s0 s" and "dget (sessions (mgr s)) k = Some (i, x)"
  shows "session_ok x \<and> skey_of x = k"
  using manager_inv_get [OF sys_invD(2) [OF sreach_sys_inv [OF assms(1,2)]] assms(3)] by blast

theorem session_store_ok_witness:
  "\<exists>(s :: ssys). dget (sessions (mgr s)) (5, None) = Some (0, run_session) \<and> session_ok run_session"
proof -
  obtain m p s where r: "new_manager (\<lambda>_. None) (VInt 300) = Inr m" "new_pool 4096 128 = Inr p"
    "sreach (\<lambda>_. None) (\<lambda>_. None) (sinit m p) s" "dget (sessions (mgr s)) (5, None) = Some (0, run_session)"
    by (rule session_run)
  have "start_ok (\<lambda>_. None) (sinit m p)" using start_okI [OF r(1,2)] .
  from session_store_ok [OF this r(3,4)] r(4) show ?thesis by blast
qed



text \<open>
  \<open>create\<close> followed by \<open>peek\<close> within the idle timeout, from any task outside a transaction, reads back
  exactly the snapshot that \<open>create\<close> returned.
\<close>

lemma session_create_peek:
  assumes "transaction_key t m = None"
    and "create parse (\<lambda>_. None) t now sid u g plugin init to m = (Inr c, m')"
    and "now' - now \<le> timeout c"
  shows "fst (peek parse (\<lambda>_. None) t now' u g m') = Inr (Some c)"
proof -
  note tk = assms(1)
  have cur: "current_transaction t k m = None" for k
    using tk by (auto simp: transaction_key_def current_transaction_def find_None_iff dget_None_iff)
  obtain k s where k: "make_key u g = Inr k"
    and s: "new_session parse (default_timeout m) k plugin init to now sid = Inr s" "clone_session parse s = Inr c"
    and m': "m' = locked_store k s m"
    using assms(2) cur unfolding create_def
    by (elim at_key_cases) (auto simp: with_lock_def bindE_eq_Inr split: sum.splits)
  have tr: "transactions m' = transactions m" using m' by simp
  have "reject_cross_key t k m' = None" "current_transaction t k m' = None"
    using tk cur tr by (simp_all add: reject_cross_key_def transaction_key_def current_transaction_def)
  moreover have st: "updated_at s = now \<and> timeout s = timeout c"
    using s by (auto simp: new_session_def clone_session_def clone_raw_def raw_of_def post_init_def bindE_eq_Inr
        normalize_timestamp_def normalize_timeout_def py_float_def split: if_splits pyval.splits)
  then have "\<not> is_expired now' s" using assms(3) by (simp add: is_expired_def)
  ultimately show ?thesis using k s(2) m'
    by (simp add: peek_def at_key_def with_lock_def locked_peek_def get_active_locked_def clone_optional_def
        clone_session_def)
qed

theorem session_create_peek_witness:
  "\<exists>c m'. create (\<lambda>_. None) (\<lambda>_. None) 1 10 (U ''x'') (VInt 5) VNone (VStr (U ''p'')) NoData VNone
       \<lparr>sessions = [], default_timeout = 300, transactions = [], fresh_id = 0\<rparr> = (Inr c, m')
     \<and> fst (peek (\<lambda>_. None) (\<lambda>_. None) 1 300 (VInt 5) VNone m') = Inr (Some c)"
proof -
  let ?m = "\<lparr>sessions = [], default_timeout = 300, transactions = [], fresh_id = 0\<rparr> :: manager"
  let ?c = "run_session\<lparr>sdata := run_clone_data\<rparr>"
  have k: "make_key (VInt 5) VNone = Inr (5, None)" by (simp add: make_key_def normalize_id_def)
  have c: "create (\<lambda>_. None) (\<lambda>_. None) 1 10 (U ''x'') (VInt 5) VNone (VStr (U ''p'')) NoData VNone ?m
      = (Inr ?c, locked_store (5, None) run_session ?m)"
    using run_new [of "\<lambda>_. None"]
    by (simp add: create_def at_key_def k reject_cross_key_def transaction_key_def current_transaction_def
        with_lock_def run_clone_session)
  have "transaction_key 1 ?m = None" by (simp add: transaction_key_def)
  from session_create_peek [OF this c, of 300] c show ?thesis by (simp; blast)
qed

definition doomed :: "(skey \<Rightarrow> session \<Rightarrow> bool) \<Rightarrow> skey set \<Rightarrow> skey \<times> nat \<times> session \<Rightarrow> bool" where
  "doomed P K x \<longleftrightarrow> fst x \<in> K \<and> P (fst x) (snd (snd x))"

lemma remove_if_filter:
  assumes "dict_ok (sessions m)"
  shows "locked_remove_if (P k) k m =
    (\<exists>x\<in>set (sessions m). doomed P {k} x, m\<lparr>sessions := filter (\<lambda>x. \<not> doomed P {k} x) (sessions m)\<rparr>)"
proof (cases "dget (sessions m) k")
  case None
  then have "\<forall>x\<in>set (sessions m). fst x \<noteq> k" by (auto simp: map_of_eq_None_iff)
  then have "\<forall>x\<in>set (sessions m). \<not> doomed P {k} x" by (auto simp: doomed_def)
  then show ?thesis using None by (simp add: locked_remove_if_def)
next
  case (Some v)
  obtain i s where iv: "v = (i, s)" by (cases v)
  have mem: "(k, i, s) \<in> set (sessions m)" using Some iv by (simp add: map_of_SomeD)
  have only: "x \<in> set (sessions m) \<Longrightarrow> doomed P {k} x \<longleftrightarrow> fst x = k \<and> P k s" for x
  proof -
    assume x: "x \<in> set (sessions m)"
    have "fst x = k \<Longrightarrow> snd x = (i, s)"
      using assms Some iv x by (metis map_of_eq_Some_iff option.inject prod.collapse)
    then show ?thesis by (auto simp: doomed_def)
  qed
  show ?thesis
  proof (cases "P k s")
    case True
    have "filter (\<lambda>x. \<not> doomed P {k} x) (sessions m) = ddel k (sessions m)"
      unfolding AList.delete_eq by (rule filter_cong) (use only True in auto)
    moreover have "\<exists>x\<in>set (sessions m). doomed P {k} x"
      using mem only [OF mem] True by (intro bexI [OF _ mem]) simp
    ultimately show ?thesis using Some iv True by (simp add: locked_remove_if_def)
  next
    case False
    then have "\<forall>x\<in>set (sessions m). \<not> doomed P {k} x" using only by blast
    then show ?thesis using Some iv False by (simp add: locked_remove_if_def)
  qed
qed

lemma doomed_count:
  assumes "dict_ok d"
  shows "length (filter (doomed P {k}) d) = (if \<exists>x\<in>set d. doomed P {k} x then 1 else 0)"
  using assms
proof (induction d)
  case (Cons a d)
  have "\<not> (\<exists>x\<in>set d. doomed P {k} x)" if "doomed P {k} a"
  proof
    assume "\<exists>x\<in>set d. doomed P {k} x"
    then obtain x where "x \<in> set d" "doomed P {k} x" ..
    then have "fst a \<in> fst ` set d" using that by (auto simp: doomed_def)
    then show False using Cons.prems by simp
  qed
  then show ?case using Cons by (auto simp: filter_empty_conv)
qed simp

lemma remove_loop_filter:
  assumes "dict_ok (sessions m)" and "distinct ks"
  shows "remove_loop (\<lambda>_. None) P ks n m = (Inr (n + length (filter (doomed P (set ks)) (sessions m))),
     m\<lparr>sessions := filter (\<lambda>x. \<not> doomed P (set ks) x) (sessions m)\<rparr>)"
  using assms
proof (induction ks arbitrary: n m)
  case Nil
  have "doomed P {} = (\<lambda>_. False)" by (simp add: doomed_def fun_eq_iff)
  then show ?case by simp
next
  case (Cons k ks)
  let ?d = "filter (\<lambda>x. \<not> doomed P {k} x) (sessions m)"
  let ?b = "\<exists>x\<in>set (sessions m). doomed P {k} x"
  have ok: "dict_ok ?d" using Cons.prems(1) by (simp add: distinct_map_filter)
  have split: "doomed P (set (k # ks)) x \<longleftrightarrow> doomed P {k} x \<or> doomed P (set ks) x" for x
    by (auto simp: doomed_def)
  have dis: "\<not> (doomed P {k} x \<and> doomed P (set ks) x)" for x
    using Cons.prems(2) by (auto simp: doomed_def)
  have "length (filter (doomed P (set (k # ks))) d)
      = length (filter (doomed P {k}) d) + length (filter (doomed P (set ks)) (filter (\<lambda>x. \<not> doomed P {k} x) d))" for d
    using split dis by (induction d) auto
  then have len: "n + length (filter (doomed P (set (k # ks))) (sessions m))
      = (if ?b then n + 1 else n) + length (filter (doomed P (set ks)) ?d)"
    using doomed_count [OF Cons.prems(1), of P k] by simp
  have "filter (\<lambda>x. \<not> doomed P (set (k # ks)) x) (sessions m) = filter (\<lambda>x. \<not> doomed P (set ks) x) ?d"
    using split by (auto intro!: filter_cong)
  moreover have "remove_loop (\<lambda>_. None) P (k # ks) n m
      = remove_loop (\<lambda>_. None) P ks (if ?b then n + 1 else n) (m\<lparr>sessions := ?d\<rparr>)"
    by (simp add: remove_if_filter [OF Cons.prems(1)])
  ultimately show ?case
    using Cons.IH [of "m\<lparr>sessions := ?d\<rparr>" "if ?b then n + 1 else n"] ok Cons.prems(2) len by simp
qed

text \<open>
  The bulk operations are exact: outside a transaction, when no lock fails, \<open>cleanup_expired\<close> removes
  exactly the sessions that are expired when it examines them and \<open>clear_plugin_sessions\<close> exactly those of
  the plugin; both keep the order of the rest and return the number of removed sessions.
\<close>

lemma session_bulk_exact:
  assumes "manager_inv m" and "transaction_key t m = None" and "normalize_plugin_name plugin = Inr p"
  shows "cleanup_expired (\<lambda>_. None) t now m =
       (Inr (length (filter (\<lambda>(k, i, s). is_expired (now k) s) (sessions m))),
        m\<lparr>sessions := filter (\<lambda>(k, i, s). \<not> is_expired (now k) s) (sessions m)\<rparr>)
    \<and> clear_plugin_sessions (\<lambda>_. None) t plugin m =
       (Inr (length (filter (\<lambda>(k, i, s). plugin_name s = p) (sessions m))),
        m\<lparr>sessions := filter (\<lambda>(k, i, s). plugin_name s \<noteq> p) (sessions m)\<rparr>)"
proof -
  have ok: "dict_ok (sessions m)" using assms(1) by (simp add: manager_inv_def)
  have all: "remove_loop (\<lambda>_. None) P (dkeys (sessions m)) 0 m =
      (Inr (length (filter (\<lambda>(k, i, s). P k s) (sessions m))),
       m\<lparr>sessions := filter (\<lambda>(k, i, s). \<not> P k s) (sessions m)\<rparr>)" for P
  proof -
    have "x \<in> set (sessions m) \<Longrightarrow> doomed P (set (dkeys (sessions m))) x = (case x of (k, i, s) \<Rightarrow> P k s)" for x
      by (cases x) (force simp: doomed_def)
    then have "filter (doomed P (set (dkeys (sessions m)))) (sessions m) = filter (\<lambda>(k, i, s). P k s) (sessions m)"
      "filter (\<lambda>x. \<not> doomed P (set (dkeys (sessions m))) x) (sessions m) = filter (\<lambda>(k, i, s). \<not> P k s) (sessions m)"
      by (auto intro!: filter_cong)
    then show ?thesis using remove_loop_filter [OF ok ok, of P 0] by simp
  qed
  show ?thesis using all assms(2,3)
    by (simp add: cleanup_expired_def clear_plugin_sessions_def reject_bulk_def)
qed

end
