(* ===== verification/Args.thy ===== *)
theory Args
  imports Py_Values
begin

text \<open>
  Command arguments (\<^verbatim>\<open>core/args.py\<close>): the POSIX tokenizer of \<^verbatim>\<open>shlex.split\<close> as the state machine it is,
  quoting, options, and strict integers.
\<close>

section \<open>The tokenizer\<close>

text \<open>The white space of \<^verbatim>\<open>shlex\<close>, which is less than that of \<^verbatim>\<open>str.split\<close>.\<close>

definition shspace :: "uchar \<Rightarrow> bool" where
  "shspace c \<longleftrightarrow> c = 32 \<or> c = 9 \<or> c = 13 \<or> c = 10"

datatype lexst = Blank | Word | InQuote uchar | EscWord | EscQuote uchar

text \<open>
  The state is the one of \<^verbatim>\<open>shlex.read_token\<close> with \<^verbatim>\<open>posix\<close> and \<^verbatim>\<open>whitespace_split\<close> and without comment characters:
  between tokens, in a word, in quotes (34 and 39), after a backslash (92) outside and inside double quotes.
  \<open>tok\<close> is the token so far, \<open>q\<close> tells whether a part of it was quoted.
\<close>

fun shlex_go :: "lexst \<Rightarrow> ustr \<Rightarrow> bool \<Rightarrow> ustr \<Rightarrow> pyerr + ustr list" where
  "shlex_go Blank tok q [] = Inr []"
| "shlex_go Word tok q [] = Inr (if tok \<noteq> [] \<or> q then [tok] else [])"
| "shlex_go (InQuote z) tok q [] = Inl (ValueError ''No closing quotation'')"
| "shlex_go EscWord tok q [] = Inl (ValueError ''No escaped character'')"
| "shlex_go (EscQuote z) tok q [] = Inl (ValueError ''No escaped character'')"
| "shlex_go Blank tok q (c # r) =
     (if shspace c then shlex_go Blank [] False r
      else if c = 92 then shlex_go EscWord [] False r
      else if c = 34 \<or> c = 39 then shlex_go (InQuote c) [] False r
      else shlex_go Word [c] False r)"
| "shlex_go Word tok q (c # r) =
     (if shspace c then
        (if tok \<noteq> [] \<or> q then bindE (shlex_go Blank [] False r) (\<lambda>ts. Inr (tok # ts))
         else shlex_go Blank [] False r)
      else if c = 34 \<or> c = 39 then shlex_go (InQuote c) tok q r
      else if c = 92 then shlex_go EscWord tok q r
      else shlex_go Word (tok @ [c]) q r)"
| "shlex_go (InQuote z) tok q (c # r) =
     (if c = z then shlex_go Word tok True r
      else if c = 92 \<and> z = 34 then shlex_go (EscQuote z) tok True r
      else shlex_go (InQuote z) (tok @ [c]) True r)"
| "shlex_go EscWord tok q (c # r) = shlex_go Word (tok @ [c]) q r"
| "shlex_go (EscQuote z) tok q (c # r) =
     (if c \<noteq> 92 \<and> c \<noteq> z then shlex_go (InQuote z) (tok @ [92, c]) q r
      else shlex_go (InQuote z) (tok @ [c]) q r)"

definition shlex_split :: "ustr \<Rightarrow> pyerr + ustr list" where
  "shlex_split s = shlex_go Blank [] False s"

definition tokenize :: "ustr \<Rightarrow> bool \<Rightarrow> pyerr + ustr list" where
  "tokenize s strict =
     (if s = [] then Inr []
      else case shlex_split s of
        Inr ts \<Rightarrow> Inr ts
      | Inl e \<Rightarrow> if strict then Inl e else Inr (usplit s))"

text \<open>\<^verbatim>\<open>shlex.quote\<close>.\<close>

definition safe_char :: "uchar \<Rightarrow> bool" where
  "safe_char c \<longleftrightarrow> 97 \<le> c \<and> c \<le> 122 \<or> 65 \<le> c \<and> c \<le> 90 \<or> 48 \<le> c \<and> c \<le> 57
     \<or> c \<in> {95, 64, 37, 43, 61, 58, 44, 46, 47, 45}"

definition shlex_quote :: "ustr \<Rightarrow> ustr" where
  "shlex_quote s =
     (if s = [] then [39, 39]
      else if list_all safe_char s then s
      else [39] @ concat (map (\<lambda>c. if c = 39 then [39, 34, 39, 34, 39] else [c]) s) @ [39])"

definition quote_token :: "pyval \<Rightarrow> pyerr + ustr" where
  "quote_token v = (case v of
      VStr s \<Rightarrow>
        (if s \<noteq> [] \<and> \<not> list_ex (\<lambda>c. uspace c \<or> c = 39 \<or> c = 34 \<or> c = 92) s then Inr s
         else Inr (shlex_quote s))
    | _ \<Rightarrow> Inl (TypeError ''token value must be a string''))"

section \<open>Integers\<close>

definition ascii_digit :: "uchar \<Rightarrow> bool" where
  "ascii_digit c \<longleftrightarrow> 48 \<le> c \<and> c \<le> 57"

text \<open>The pattern \<^verbatim>\<open>[+-]?[0-9]+\<close>.\<close>

definition integer_pattern :: "ustr \<Rightarrow> bool" where
  "integer_pattern s =
     (let body = (case s of c # r \<Rightarrow> if c = 43 \<or> c = 45 then r else s | [] \<Rightarrow> [])
      in body \<noteq> [] \<and> list_all ascii_digit body)"

definition parse_int :: "ustr \<Rightarrow> int option \<Rightarrow> int option \<Rightarrow> int option" where
  "parse_int s lo hi =
     (if \<not> integer_pattern s then None
      else case int_of_str s of
        Inl _ \<Rightarrow> None
      | Inr v \<Rightarrow>
          if (case lo of Some m \<Rightarrow> v < m | None \<Rightarrow> False) then None
          else if (case hi of Some m \<Rightarrow> v > m | None \<Rightarrow> False) then None
          else Some v)"

section \<open>Options\<close>

definition ascii_letter :: "uchar \<Rightarrow> bool" where
  "ascii_letter c \<longleftrightarrow> 97 \<le> c \<and> c \<le> 122 \<or> 65 \<le> c \<and> c \<le> 90"

text \<open>The patterns \<^verbatim>\<open>-[A-Za-z]\<close> and \<^verbatim>\<open>--[A-Za-z][A-Za-z0-9_-]*(=.*)?\<close>; the dot matches no newline.\<close>

definition short_option :: "ustr \<Rightarrow> bool" where
  "short_option s \<longleftrightarrow> (\<exists>c. s = [45, c] \<and> ascii_letter c)"

definition name_char :: "uchar \<Rightarrow> bool" where
  "name_char c \<longleftrightarrow> ascii_letter c \<or> ascii_digit c \<or> c = 95 \<or> c = 45"

definition long_option :: "ustr \<Rightarrow> bool" where
  "long_option s = (case s of
      a # b # c # r \<Rightarrow> a = 45 \<and> b = 45 \<and> ascii_letter c \<and>
        (case dropWhile name_char r of
           [] \<Rightarrow> True
         | e # v \<Rightarrow> e = 61 \<and> 10 \<notin> set v)
    | _ \<Rightarrow> False)"

lemma short_option_code [code]:
  "short_option s = (case s of [a, c] \<Rightarrow> a = 45 \<and> ascii_letter c | _ \<Rightarrow> False)"
  by (auto simp: short_option_def split: list.splits)

definition is_option_token :: "ustr \<Rightarrow> bool" where
  "is_option_token s \<longleftrightarrow> short_option s \<or> long_option s"

definition flag_value :: ustr where
  "flag_value = U ''true''"

record parsed_args =
  raw :: ustr
  tokens :: "ustr list"
  options :: "(ustr, ustr) dict"

text \<open>The loop over the tokens; \<open>enabled\<close> until \<^verbatim>\<open>--\<close> has been seen.\<close>

fun parse_loop :: "ustr list \<Rightarrow> bool \<Rightarrow> ustr list \<Rightarrow> (ustr, ustr) dict \<Rightarrow> ustr list \<times> (ustr, ustr) dict" where
  "parse_loop [] enabled args opts = (args, opts)"
| "parse_loop (t # ts) enabled args opts =
     (if enabled \<and> t = [45, 45] then parse_loop ts False args opts
      else if enabled \<and> is_option_token t then
        (let body = drop (if startswith t [45, 45] then 2 else 1) t;
             key = takeWhile (\<lambda>c. c \<noteq> 61) body;
             after = dropWhile (\<lambda>c. c \<noteq> 61) body
         in if after \<noteq> [] then parse_loop ts enabled args (dset key (tl after) opts)
            else case ts of
                v # us \<Rightarrow>
                  if v \<noteq> [45, 45] \<and> \<not> is_option_token v then parse_loop us enabled args (dset key v opts)
                  else parse_loop ts enabled args (dset key flag_value opts)
              | [] \<Rightarrow> parse_loop ts enabled args (dset key flag_value opts))
      else parse_loop ts enabled (args @ [t]) opts)"

definition parse :: "ustr \<Rightarrow> pyerr + parsed_args" where
  "parse s = bindE (tokenize s False) (\<lambda>ts. case parse_loop ts True [] [] of
     (a, opts) \<Rightarrow> Inr \<lparr>raw = s, tokens = a, options = opts\<rparr>)"

text \<open>The accessors of \<^verbatim>\<open>ParsedArgs\<close>.\<close>

definition args_get :: "parsed_args \<Rightarrow> int \<Rightarrow> ustr \<Rightarrow> ustr" where
  "args_get p i dflt = (if 0 \<le> i \<and> i < int (length (tokens p)) then tokens p ! nat i else dflt)"

definition args_opt :: "parsed_args \<Rightarrow> ustr \<Rightarrow> ustr \<Rightarrow> ustr" where
  "args_opt p k dflt = dget_default (options p) k dflt"

definition args_has :: "parsed_args \<Rightarrow> ustr \<Rightarrow> bool" where
  "args_has p k \<longleftrightarrow> k \<in> set (dkeys (options p))"

definition args_rest :: "parsed_args \<Rightarrow> nat \<Rightarrow> ustr" where
  "args_rest p start = ujoin (U '' '') (drop start (tokens p))"

definition args_first :: "parsed_args \<Rightarrow> ustr" where
  "args_first p = args_get p 0 []"

definition args_second :: "parsed_args \<Rightarrow> ustr" where
  "args_second p = args_get p 1 []"

definition args_len :: "parsed_args \<Rightarrow> nat" where
  "args_len p = length (tokens p)"

definition args_bool :: "parsed_args \<Rightarrow> bool" where
  "args_bool p \<longleftrightarrow> strip (raw p) \<noteq> []"

section \<open>Quoted tokens come back\<close>

lemma shspace_uspace: "shspace c \<Longrightarrow> uspace c"
  by (auto simp: shspace_def uspace_def)

text \<open>A character the tokenizer takes as it is.\<close>

definition plain :: "uchar \<Rightarrow> bool" where
  "plain c \<longleftrightarrow> \<not> shspace c \<and> c \<noteq> 34 \<and> c \<noteq> 39 \<and> c \<noteq> 92"

lemma go_plain: "list_all plain s \<Longrightarrow> shlex_go Word tok q (s @ r) = shlex_go Word (tok @ s) q r"
  by (induction s arbitrary: tok) (auto simp: plain_def)

lemma go_start_plain:
  "list_all plain s \<Longrightarrow> s \<noteq> [] \<Longrightarrow> shlex_go Blank tok q (s @ r) = shlex_go Word s False r"
  by (cases s) (auto simp: plain_def go_plain)

lemma go_quoted_body:
  "shlex_go (InQuote 39) tok q (concat (map (\<lambda>c. if c = 39 then [39, 34, 39, 34, 39] else [c]) s) @ 39 # r)
     = shlex_go Word (tok @ s) True r"
  by (induction s arbitrary: tok q) (auto simp: shspace_def)

lemma quote_token_Inr:
  "quote_token (VStr s) = Inr w \<Longrightarrow> w \<noteq> [] \<and> (\<exists>q. (s = [] \<longrightarrow> q) \<and> (\<forall>r. shlex_go Blank [] False (w @ r) = shlex_go Word s q r))"
proof -
  assume a: "quote_token (VStr s) = Inr w"
  consider (plain) "s \<noteq> []" "list_all plain s" "w = s"
    | (quoted) "w = [39] @ concat (map (\<lambda>c. if c = 39 then [39, 34, 39, 34, 39] else [c]) s) @ [39]"
  proof (cases "s \<noteq> [] \<and> \<not> list_ex (\<lambda>c. uspace c \<or> c = 39 \<or> c = 34 \<or> c = 92) s")
    case True
    then have "list_all plain s" by (auto simp: list_all_iff list_ex_iff plain_def dest: shspace_uspace)
    then show ?thesis using True a by (intro plain) (auto simp: quote_token_def)
  next
    case False
    then have w: "w = shlex_quote s" using a by (auto simp: quote_token_def split: if_splits)
    show ?thesis
    proof (cases "s \<noteq> [] \<and> list_all safe_char s")
      case True
      have "safe_char c \<Longrightarrow> plain c" for c by (auto simp: safe_char_def plain_def shspace_def)
      then have "list_all plain s" using True by (auto simp: list_all_iff)
      then show ?thesis using True w by (intro plain) (simp_all add: shlex_quote_def)
    next
      case False
      then show ?thesis using w by (intro quoted) (auto simp: shlex_quote_def)
    qed
  qed
  then show ?thesis
  proof cases
    case plain
    then have "\<forall>r. shlex_go Blank [] False (w @ r) = shlex_go Word s False r" by (simp add: go_start_plain)
    then show ?thesis using plain by blast
  next
    case quoted
    then have "\<forall>r. shlex_go Blank [] False (w @ r) = shlex_go Word s True r"
      by (simp add: go_quoted_body shspace_def)
    then show ?thesis using quoted by auto
  qed
qed

lemma quote_token_total: "\<exists>w. quote_token (VStr s) = Inr w"
  by (auto simp: quote_token_def)

lemma quote_all_total: "\<exists>ws. mapE quote_token (map VStr vs) = Inr ws"
proof (induction vs)
  case (Cons v vs)
  then show ?case using quote_token_total [of v] by auto
qed simp

lemma go_quoted_all:
  "mapE quote_token (map VStr vs) = Inr ws \<Longrightarrow> shlex_go Blank [] False (ujoin [32] ws) = Inr vs"
proof (induction vs arbitrary: ws)
  case (Cons v vs)
  then obtain w ws' where w: "quote_token (VStr v) = Inr w" and ws': "mapE quote_token (map VStr vs) = Inr ws'"
    and ws: "ws = w # ws'" by (auto simp: bindE_eq_Inr)
  obtain q where q: "v = [] \<longrightarrow> q" "\<And>r. shlex_go Blank [] False (w @ r) = shlex_go Word v q r"
    using quote_token_Inr [OF w] by blast
  have ve: "v \<noteq> [] \<or> q" using q(1) by blast
  note IH = Cons.IH [OF ws']
  show ?case
  proof (cases ws')
    case Nil
    then have "vs = []" using mapE_Inr_length [OF ws'] by simp
    then show ?thesis using q(2) [of "[]"] ve ws Nil by simp
  next
    case (Cons y ys)
    have "shspace 32" by (simp add: shspace_def)
    then show ?thesis using q(2) [of "32 # ujoin [32] ws'"] ve ws IH Cons by simp
  qed
qed simp

lemma ujoin_nonempty: "ws \<noteq> [] \<Longrightarrow> hd ws \<noteq> [] \<Longrightarrow> ujoin sep ws \<noteq> []"
  by (induction sep ws rule: ujoin.induct) auto

lemma tokenize_quoted:
  assumes "mapE quote_token (map VStr vs) = Inr ws"
  shows "tokenize (ujoin [32] ws) strict = Inr vs"
proof (cases vs)
  case Nil
  then show ?thesis using assms by (simp add: tokenize_def)
next
  case (Cons v us)
  then obtain w where w: "quote_token (VStr v) = Inr w" "hd ws = w" "ws \<noteq> []"
    using assms by (auto simp: bindE_eq_Inr)
  then have "ujoin [32] ws \<noteq> []" using quote_token_Inr ujoin_nonempty by blast
  then show ?thesis using go_quoted_all [OF assms] by (simp add: tokenize_def shlex_split_def)
qed

section \<open>Decimal numerals come back\<close>

lemma digit_value_ascii: "d < 10 \<Longrightarrow> digit_value (48 + d) = Some d"
  by (simp add: digit_value_def decimal_zeros_def)

lemma nat_str_digits: "list_all ascii_digit (nat_str n)"
proof (induction n rule: nat_str.induct)
  case (1 n)
  have "ascii_digit (48 + d)" if "d < 10" for d using that by (simp add: ascii_digit_def)
  with 1 show ?case by (subst nat_str.simps) simp
qed

lemma digits_value_append: "digits_value (s @ [c]) = 10 * digits_value s + int (case digit_value c of Some d \<Rightarrow> d | None \<Rightarrow> 0)"
  by (simp add: digits_value_def)

lemma digits_value_nat_str: "digits_value (nat_str n) = int n"
proof (induction n rule: nat_str.induct)
  case (1 n)
  show ?case
  proof (cases "n < 10")
    case True
    then show ?thesis using digit_value_ascii [of n] by (subst nat_str.simps) (simp add: digits_value_def)
  next
    case False
    have "digit_value (48 + n mod 10) = Some (n mod 10)" by (rule digit_value_ascii) simp
    then have "digits_value (nat_str n) = 10 * int (n div 10) + int (n mod 10)"
      using False 1 by (subst nat_str.simps) (simp add: digits_value_append)
    moreover have "n = 10 * (n div 10) + n mod 10" by simp
    then have "int n = 10 * int (n div 10) + int (n mod 10)" by (metis of_nat_add of_nat_mult of_nat_numeral)
    ultimately show ?thesis by simp
  qed
qed

lemma ascii_digit_value: "ascii_digit c \<Longrightarrow> digit_value c \<noteq> None"
  using digit_value_ascii [of "c - 48"] by (auto simp: ascii_digit_def)

lemma undigits_digits: "s \<noteq> [] \<Longrightarrow> list_all ascii_digit s \<Longrightarrow> undigits s = Some s"
proof (induction s rule: undigits.induct)
  case (3 c d r)
  have "d \<noteq> 95" using 3(4) by (auto simp: ascii_digit_def)
  then show ?case using 3 ascii_digit_value [of c] by auto
qed (auto dest: ascii_digit_value)

lemma ascii_digit_nospace: "ascii_digit c \<Longrightarrow> \<not> uspace c \<and> c \<noteq> 43 \<and> c \<noteq> 45"
  by (auto simp: ascii_digit_def uspace_def)

text \<open>\<open>body\<close> is a literal without its sign.\<close>

lemma int_of_str_literal:
  assumes "body \<noteq> []" "list_all ascii_digit body" "sign = [] \<or> sign = [43] \<or> sign = [45]"
  shows "int_of_str (sign @ body) =
    bindE (int_of_digits body) (\<lambda>n. Inr (if sign = [45] then - n else n))"
proof -
  have l: "\<not> uspace (last (sign @ body))" using assms(1,2) ascii_digit_nospace by (simp add: list_all_iff)
  have h: "\<not> uspace (hd (sign @ body))" using assms ascii_digit_nospace by (cases body) (auto simp: uspace_def)
  have st: "strip (sign @ body) = sign @ body" using l h by (intro strip_id) simp
  obtain c r where b: "body = c # r" using assms(1) by (cases body) auto
  have c: "c \<noteq> 43 \<and> c \<noteq> 45" using assms(2) b ascii_digit_nospace by simp
  note ud = undigits_digits [OF assms(1,2)]
  from assms(3) show ?thesis
  proof (elim disjE)
    assume "sign = []"
    then show ?thesis using st ud b c by (simp add: int_of_str_def)
  next
    assume "sign = [43]"
    then show ?thesis using st ud by (simp add: int_of_str_def)
  next
    assume "sign = [45]"
    then show ?thesis using st ud by (simp add: int_of_str_def)
  qed
qed

section \<open>Properties\<close>

text \<open>
  Quoting is lossless: the quoted forms of any list of strings, joined by spaces, are tokenized back to
  exactly that list, in strict mode and in lenient mode.
\<close>

lemma args_quote_roundtrip:
  "\<exists>ws. mapE quote_token (map VStr vs) = Inr ws \<and> tokenize (ujoin [32] ws) strict = Inr vs"
  using quote_all_total tokenize_quoted by blast

text \<open>
  After \<^verbatim>\<open>--\<close> everything is positional: any list of strings, options and further \<^verbatim>\<open>--\<close> included, passed
  quoted behind \<^verbatim>\<open>--\<close> arrives unchanged as the positional arguments, with no options.
\<close>

lemma args_positional_roundtrip:
  "\<exists>ws. mapE quote_token (map VStr ([45, 45] # vs)) = Inr ws
     \<and> parse (ujoin [32] ws) = Inr \<lparr>raw = ujoin [32] ws, tokens = vs, options = []\<rparr>"
proof -
  obtain ws where ws: "mapE quote_token (map VStr ([45, 45] # vs)) = Inr ws" using quote_all_total by blast
  have "parse_loop ts False args opts = (args @ ts, opts)" for ts args opts
    by (induction ts arbitrary: args) auto
  then have "parse (ujoin [32] ws) = Inr \<lparr>raw = ujoin [32] ws, tokens = vs, options = []\<rparr>"
    using tokenize_quoted [OF ws] by (simp add: parse_def)
  then show ?thesis using ws by blast
qed

text \<open>
  Strict integers: a parsed integer lies within the bounds given and comes from an optional sign and ASCII
  digits only; conversely the decimal numeral of every integer of at most 4300 digits within the bounds
  parses to that integer.
\<close>

lemma parse_int_exact:
  "(parse_int s lo hi = Some v \<longrightarrow> integer_pattern s \<and> (\<forall>m. lo = Some m \<longrightarrow> m \<le> v) \<and> (\<forall>m. hi = Some m \<longrightarrow> v \<le> m))
   \<and> (length (int_str n) \<le> int_max_str_digits \<and> (\<forall>m. lo = Some m \<longrightarrow> m \<le> n) \<and> (\<forall>m. hi = Some m \<longrightarrow> n \<le> m)
        \<longrightarrow> parse_int (int_str n) lo hi = Some n)"
proof (intro conjI impI)
  assume "parse_int s lo hi = Some v"
  then show "integer_pattern s" "\<forall>m. lo = Some m \<longrightarrow> m \<le> v" "\<forall>m. hi = Some m \<longrightarrow> v \<le> m"
    by (auto simp: parse_int_def split: if_splits sum.splits option.splits)
next
  assume a: "length (int_str n) \<le> int_max_str_digits \<and> (\<forall>m. lo = Some m \<longrightarrow> m \<le> n) \<and> (\<forall>m. hi = Some m \<longrightarrow> n \<le> m)"
  define body where "body = nat_str (nat \<bar>n\<bar>)"
  define sign :: ustr where "sign = (if n < 0 then [45] else [])"
  have s: "int_str n = sign @ body" by (simp add: int_str_def sign_def body_def)
  have b: "body \<noteq> []" "list_all ascii_digit body" by (simp_all add: body_def nat_str_digits)
  have "int_of_digits body = Inr \<bar>n\<bar>"
    using a s by (auto simp: int_of_digits_def digits_value_nat_str body_def)
  then have v: "int_of_str (int_str n) = Inr n"
    using int_of_str_literal [OF b, of sign] s by (auto simp: sign_def)
  obtain c r where cr: "body = c # r" using b(1) by (cases body) auto
  have "c \<noteq> 43 \<and> c \<noteq> 45" using b(2) cr ascii_digit_nospace by simp
  then have "integer_pattern (int_str n)" using b cr by (simp add: s integer_pattern_def sign_def)
  then show "parse_int (int_str n) lo hi = Some n"
    using v a by (auto simp: parse_int_def split: option.splits)
qed

end
