(* ===== verification/Messages.thy ===== *)
theory Messages
  imports Py_Values
begin

text \<open>
  Messages (\<^verbatim>\<open>core/message.py\<close>): validation of segment lists, the scan of a message, the recognition of
  commands in text; and the construction and splitting of outgoing messages (\<^verbatim>\<open>core/plugin_base.py\<close>).
  How a value of an arbitrary type prints is the argument \<open>other\<close>; \<open>lower\<close> is \<^verbatim>\<open>str.lower\<close> and \<open>ieq\<close> the
  equality of characters under \<^verbatim>\<open>re.IGNORECASE\<close>.
\<close>

type_synonym pydict = "(ustr, pyval) dict"

abbreviation kType :: ustr where "kType \<equiv> U ''type''"
abbreviation kData :: ustr where "kData \<equiv> U ''data''"
abbreviation kText :: ustr where "kText \<equiv> U ''text''"
abbreviation kMessage :: ustr where "kMessage \<equiv> U ''message''"
abbreviation kRaw :: ustr where "kRaw \<equiv> U ''raw_message''"

section \<open>Validation of segments\<close>

definition validate_segment :: "pyval \<Rightarrow> pyerr + pydict" where
  "validate_segment item = (case as_dict item of
      None \<Rightarrow> Inl (ValueError ''message segment must be an object'')
    | Some d \<Rightarrow> (case dget d kType of
        Some (VStr ty) \<Rightarrow>
          (if strip ty = [] then Inl (ValueError ''message segment has no valid type'')
           else case dget d kData of
             None \<Rightarrow> Inr (dset kData (VDict []) (dset kType (VStr (strip ty)) d))
           | Some (VDict data) \<Rightarrow> Inr (dset kData (VDict data) (dset kType (VStr (strip ty)) d))
           | Some _ \<Rightarrow> Inl (ValueError ''message segment data must be an object''))
      | _ \<Rightarrow> Inl (ValueError ''message segment has no valid type'')))"

definition validate_message_segments :: "pyval list \<Rightarrow> pyerr + pydict list" where
  "validate_message_segments message = mapE validate_segment message"

text \<open>What the consumers of validated segments rely on.\<close>

definition segment_valid :: "pydict \<Rightarrow> bool" where
  "segment_valid d \<longleftrightarrow> (\<exists>ty. dget d kType = Some (VStr ty) \<and> ty \<noteq> [] \<and> strip ty = ty)
     \<and> (\<exists>data. dget d kData = Some (VDict data))"

lemma dict_key_neq [simp]: "kType \<noteq> kData" "kData \<noteq> kType"
  by simp_all

lemma validate_segment_valid: "validate_segment item = Inr d \<Longrightarrow> segment_valid d"
  by (auto simp: validate_segment_def segment_valid_def simp del: U_simps split: option.splits pyval.splits if_splits)

lemma dset_same: "dict_ok d \<Longrightarrow> dget d k = Some v \<Longrightarrow> dset k v d = d"
  by (induction d) (auto simp: dget_None_iff split: if_splits)

lemma validate_segment_id:
  assumes "dict_ok d" "segment_valid d"
  shows "validate_segment (VDict d) = Inr d"
  using assms by (auto simp: validate_segment_def segment_valid_def as_dict_def dset_same simp del: U_simps)

section \<open>Scanning a message\<close>

definition media_segment_types :: "ustr list" where
  "media_segment_types = [U ''image'', U ''mface'', U ''face'']"

definition picture_segment_types :: "ustr list" where
  "picture_segment_types = [U ''image'', U ''mface'']"

record message_scan =
  scan_text :: ustr
  scan_has_media :: bool
  scan_is_at_me :: bool
  scan_has_picture :: bool

definition normalize_inbound_message :: "pydict \<Rightarrow> pydict" where
  "normalize_inbound_message event =
     (let message = dget_default event kMessage VNone;
          raw_text = (case dget event kRaw of Some (VStr s) \<Rightarrow> strip s | _ \<Rightarrow> [])
      in if raw_text \<noteq> [] \<and> (message = VNone \<or> message = VStr [] \<or> message = VList [])
         then dset kMessage (VList [VDict [(kType, VStr kText), (kData, VDict [(kText, VStr raw_text)])]]) event
         else event)"

definition event_message :: "pyval \<Rightarrow> pyval" where
  "event_message v = (case v of VDict d \<Rightarrow> dget_default d kMessage VNone | _ \<Rightarrow> v)"

definition iter_message_segments :: "pyval \<Rightarrow> pydict list" where
  "iter_message_segments v = (case event_message v of
      VList items \<Rightarrow> List.map_filter as_dict items
    | _ \<Rightarrow> [])"

text \<open>\<^verbatim>\<open>part in s\<close> of strings.\<close>

fun occurs_in :: "ustr \<Rightarrow> ustr \<Rightarrow> bool" where
  "occurs_in p [] = (p = [])"
| "occurs_in p (c # s) = (startswith (c # s) p \<or> occurs_in p s)"

definition cq_at :: "ustr \<Rightarrow> ustr" where
  "cq_at self_id = U ''[CQ:at,qq='' @ self_id @ U '']''"

definition has_cq_at :: "pyval \<Rightarrow> ustr \<Rightarrow> bool" where
  "has_cq_at v self_id = (case v of VStr s \<Rightarrow> self_id \<noteq> [] \<and> occurs_in (cq_at self_id) s | _ \<Rightarrow> False)"

definition segment_data :: "pydict \<Rightarrow> pydict" where
  "segment_data item = (case dget item kData of Some (VDict d) \<Rightarrow> d | _ \<Rightarrow> [])"

definition scan_item ::
  "(pyval \<Rightarrow> ustr) \<Rightarrow> ustr \<Rightarrow> pydict \<Rightarrow> message_scan \<Rightarrow> pyerr + message_scan" where
  "scan_item other self_id item acc =
     (let ty = dget_default item kType VNone; data = segment_data item in
      if ty = VStr kText
      then Inr (acc\<lparr>scan_text := scan_text acc @ py_str other (dget_default data kText (VStr []))\<rparr>)
      else bindE (in_str_set media_segment_types ty) (\<lambda>media.
        if media then Inr (acc\<lparr>scan_has_media := True,
          scan_has_picture := scan_has_picture acc \<or> in_str_set picture_segment_types ty = Inr True\<rparr>)
        else if ty = VStr (U ''at'') \<and> self_id \<noteq> []
        then (let qq = dget_default data (U ''qq'') VNone
              in Inr (if qq \<noteq> VNone \<and> py_str other qq = self_id then acc\<lparr>scan_is_at_me := True\<rparr> else acc))
        else Inr acc))"

fun scan_items ::
  "(pyval \<Rightarrow> ustr) \<Rightarrow> ustr \<Rightarrow> pydict list \<Rightarrow> message_scan \<Rightarrow> pyerr + message_scan" where
  "scan_items other self_id [] acc = Inr acc"
| "scan_items other self_id (item # items) acc =
     bindE (scan_item other self_id item acc) (scan_items other self_id items)"

definition empty_scan :: message_scan where
  "empty_scan = \<lparr>scan_text = [], scan_has_media = False, scan_is_at_me = False, scan_has_picture = False\<rparr>"

definition scan_message :: "(pyval \<Rightarrow> ustr) \<Rightarrow> pyval \<Rightarrow> ustr \<Rightarrow> pyval \<Rightarrow> pyerr + message_scan" where
  "scan_message other message self_id raw =
     (case message of
        VStr s \<Rightarrow> Inr (empty_scan\<lparr>scan_text := s,
          scan_is_at_me := has_cq_at (VStr s) self_id \<or> has_cq_at raw self_id\<rparr>)
      | _ \<Rightarrow> bindE (scan_items other self_id (iter_message_segments message) empty_scan)
          (\<lambda>acc. Inr (if \<not> scan_is_at_me acc \<and> has_cq_at raw self_id
                      then acc\<lparr>scan_is_at_me := True\<rparr> else acc)))"

definition extract_text :: "(pyval \<Rightarrow> ustr) \<Rightarrow> pyval \<Rightarrow> pyerr + ustr" where
  "extract_text other message = bindE (scan_message other message [] (VStr [])) (\<lambda>sc. Inr (scan_text sc))"

definition sender_name_of :: "pydict \<Rightarrow> ustr \<Rightarrow> ustr option" where
  "sender_name_of d key = (case dget d key of
      Some (VStr s) \<Rightarrow> if strip s \<noteq> [] then Some (strip s) else None
    | _ \<Rightarrow> None)"

definition sender_display_name :: "pyval \<Rightarrow> ustr" where
  "sender_display_name sender = (case sender of
      VDict d \<Rightarrow> (case List.map_filter (sender_name_of d) [U ''card'', U ''nickname'', U ''name''] of
          name # _ \<Rightarrow> name
        | [] \<Rightarrow> [])
    | _ \<Rightarrow> [])"

definition contains_bot_name :: "(ustr \<Rightarrow> ustr) \<Rightarrow> ustr \<Rightarrow> ustr \<Rightarrow> bool" where
  "contains_bot_name lower txt bot_name \<longleftrightarrow> txt \<noteq> [] \<and> bot_name \<noteq> [] \<and> occurs_in (lower bot_name) (lower txt)"

text \<open>\<^verbatim>\<open>str(event.get("raw_message", "") or "")\<close>.\<close>

definition event_raw :: "(pyval \<Rightarrow> ustr) \<Rightarrow> pydict \<Rightarrow> ustr" where
  "event_raw other d = (let v = dget_default d kRaw (VStr []) in if truthy v then py_str other v else [])"

definition has_at_mention :: "(pyval \<Rightarrow> ustr) \<Rightarrow> pyval \<Rightarrow> ustr \<Rightarrow> ustr \<Rightarrow> pyerr + bool" where
  "has_at_mention other v self_id raw =
     (let raw' = (case v of VDict d \<Rightarrow> if raw = [] then event_raw other d else raw | _ \<Rightarrow> raw)
      in bindE (scan_message other (event_message v) self_id (VStr raw')) (\<lambda>sc. Inr (scan_is_at_me sc)))"

section \<open>Commands in text\<close>

text \<open>The punctuation after a name or a mention: comma, full stop, exclamation and question mark, in ASCII and full width.\<close>

definition prefix_punct :: "uchar list" where
  "prefix_punct = [44, 65292, 46, 12290, 33, 65281, 63, 65311]"

definition name_rest :: "uchar \<Rightarrow> bool" where
  "name_rest c \<longleftrightarrow> uspace c \<or> c \<in> set prefix_punct"

text \<open>\<^verbatim>\<open>pattern.sub("", s)\<close> for the pattern of a bot name: it matches at the start of the text only.\<close>

definition strip_bot_name :: "(uchar \<Rightarrow> uchar \<Rightarrow> bool) \<Rightarrow> ustr \<Rightarrow> ustr \<Rightarrow> ustr" where
  "strip_bot_name ieq name s =
     (if length name \<le> length s \<and> list_all2 ieq name (take (length name) s)
      then dropWhile name_rest (drop (length name) s) else s)"

text \<open>\<^verbatim>\<open>re.sub(rf"\s*{at}\s*", " ", s)\<close>.\<close>

function blank_mentions :: "ustr \<Rightarrow> ustr \<Rightarrow> ustr" where
  "blank_mentions m s =
     (if m \<noteq> [] \<and> startswith (lstrip s) m
      then 32 # blank_mentions m (lstrip (drop (length m) (lstrip s)))
      else case s of [] \<Rightarrow> [] | c # r \<Rightarrow> c # blank_mentions m r)"
  by pat_completeness auto
termination
proof (relation "measure (\<lambda>(m, s). length s)")
  fix m s :: ustr
  assume a: "m \<noteq> [] \<and> startswith (lstrip s) m"
  have "length (lstrip (drop (length m) (lstrip s))) \<le> length (drop (length m) (lstrip s))"
    unfolding lstrip_def by (rule length_dropWhile_le)
  also have "\<dots> = length (lstrip s) - length m" by simp
  also have "\<dots> < length (lstrip s)"
    by (rule diff_less) (use a in \<open>auto simp: startswith_iff\<close>)
  also have "\<dots> \<le> length s" unfolding lstrip_def by (rule length_dropWhile_le)
  finally show "((m, lstrip (drop (length m) (lstrip s))), (m, s)) \<in> measure (\<lambda>(m, s). length s)"
    by simp
qed auto

declare blank_mentions.simps [simp del]

definition strip_mention :: "ustr \<Rightarrow> ustr \<Rightarrow> ustr" where
  "strip_mention self_id s =
     (if self_id = [] then s
      else let m = cq_at self_id;
               s1 = (if startswith s m
                     then dropWhile (\<lambda>c. c \<in> set (32 # 9 # 10 # prefix_punct)) (drop (length m) s) else s)
           in if occurs_in m s1 then strip (blank_mentions m s1) else s1)"

fun strip_prefixes :: "ustr list \<Rightarrow> ustr \<Rightarrow> ustr" where
  "strip_prefixes [] s = strip s"
| "strip_prefixes (p # ps) s = (if startswith s p then strip (drop (length p) s) else strip_prefixes ps s)"

text \<open>The compiled pattern is represented by the name it was compiled from.\<close>

definition compile_bot_name_pattern :: "ustr \<Rightarrow> ustr option" where
  "compile_bot_name_pattern bot_name = (if bot_name = [] then None else Some bot_name)"

definition strip_message_prefix ::
  "(uchar \<Rightarrow> uchar \<Rightarrow> bool) \<Rightarrow> ustr \<Rightarrow> ustr \<Rightarrow> ustr list \<Rightarrow> ustr \<Rightarrow> ustr option \<Rightarrow> ustr" where
  "strip_message_prefix ieq txt bot_name prefixes self_id pattern =
     (let s = strip_mention self_id (strip txt);
          s1 = (case (case pattern of Some n \<Rightarrow> Some n | None \<Rightarrow> compile_bot_name_pattern bot_name) of
                  Some name \<Rightarrow> strip_bot_name ieq name s
                | None \<Rightarrow> s)
      in strip_prefixes prefixes s1)"

definition is_clean_text_url_only :: "ustr \<Rightarrow> bool" where
  "is_clean_text_url_only s \<longleftrightarrow> s \<noteq> [] \<and>
     (\<exists>p \<in> {U ''http://'', U ''https://''}. startswith (strip s) p
        \<and> drop (length p) (strip s) \<noteq> [] \<and> list_all (\<lambda>c. \<not> uspace c) (drop (length p) (strip s)))"

record text_command =
  tc_clean_text :: ustr
  tc_is_at_me :: bool
  tc_has_bot_name :: bool
  tc_has_command_prefix :: bool
  tc_has_prefix :: bool
  tc_is_only_bot_name :: bool
  tc_is_url_only :: bool

definition parse_text_command_context ::
  "(pyval \<Rightarrow> ustr) \<Rightarrow> (ustr \<Rightarrow> ustr) \<Rightarrow> (uchar \<Rightarrow> uchar \<Rightarrow> bool) \<Rightarrow> ustr \<Rightarrow> pydict \<Rightarrow> ustr \<Rightarrow> ustr list
     \<Rightarrow> ustr \<Rightarrow> ustr option \<Rightarrow> message_scan option \<Rightarrow> pyerr + text_command" where
  "parse_text_command_context other lower ieq txt event bot_name prefixes self_id pattern scan =
     bindE (case scan of
              Some sc \<Rightarrow> Inr sc
            | None \<Rightarrow> scan_message other (dget_default event kMessage VNone) self_id (VStr (event_raw other event)))
       (\<lambda>sc.
          let at_me = scan_is_at_me sc;
              clean = strip_message_prefix ieq txt bot_name prefixes self_id pattern;
              named = contains_bot_name lower txt bot_name;
              prefixed = list_ex (startswith txt) prefixes
          in Inr \<lparr>tc_clean_text = clean, tc_is_at_me = at_me, tc_has_bot_name = named,
                  tc_has_command_prefix = prefixed, tc_has_prefix = (prefixed \<or> named \<or> at_me),
                  tc_is_only_bot_name = (\<not> scan_has_picture sc \<and> (strip txt = bot_name \<or> at_me \<and> clean = [])),
                  tc_is_url_only = is_clean_text_url_only clean\<rparr>)"

section \<open>Splitting long messages\<close>

definition max_message_text_length :: int where
  "max_message_text_length = 3000"

record split_state =
  sp_chunks :: "pyval list list"
  sp_current :: "pyval list"
  sp_length :: nat

definition flush :: "split_state \<Rightarrow> split_state" where
  "flush st = \<lparr>sp_chunks = (if sp_current st \<noteq> [] then sp_chunks st @ [sp_current st] else sp_chunks st),
               sp_current = [], sp_length = 0\<rparr>"

text \<open>\<^verbatim>\<open>s.rfind(c)\<close>, with \<open>None\<close> for \<^verbatim>\<open>-1\<close>.\<close>

definition rfind_char :: "uchar \<Rightarrow> ustr \<Rightarrow> nat option" where
  "rfind_char c s = (case dropWhile (\<lambda>x. x \<noteq> c) (rev s) of [] \<Rightarrow> None | _ # r \<Rightarrow> Some (length r))"

definition split_point :: "ustr \<Rightarrow> nat \<Rightarrow> nat" where
  "split_point remaining available =
     (if length remaining \<le> available then length remaining
      else case rfind_char 10 (take available remaining) of Some i \<Rightarrow> i + 1 | None \<Rightarrow> available)"

lemma rfind_char_less: "rfind_char c s = Some i \<Longrightarrow> i < length s"
proof -
  assume "rfind_char c s = Some i"
  then obtain x r where "dropWhile (\<lambda>x. x \<noteq> c) (rev s) = x # r" "i = length r"
    by (auto simp: rfind_char_def split: list.splits)
  then show ?thesis
    using length_dropWhile_le [of "\<lambda>x. x \<noteq> c" "rev s"] by simp
qed

lemma split_point_bounds:
  assumes "remaining \<noteq> []" "0 < available"
  shows "0 < split_point remaining available" "split_point remaining available \<le> available"
    "split_point remaining available \<le> length remaining"
  using assms rfind_char_less [of 10 "take available remaining"]
  by (auto simp: split_point_def split: option.splits dest!: rfind_char_less)

text \<open>\<^verbatim>\<open>{**segment, "data": {**data, "text": piece}}\<close>.\<close>

definition with_text :: "pydict \<Rightarrow> pydict \<Rightarrow> ustr \<Rightarrow> pyval" where
  "with_text d data piece = VDict (dset kData (VDict (dset kText (VStr piece) data)) d)"

text \<open>
  The inner loop over the text of one segment; the caller has checked that \<open>max_length\<close> is positive.
\<close>

function split_text :: "nat \<Rightarrow> pydict \<Rightarrow> pydict \<Rightarrow> ustr \<Rightarrow> split_state \<Rightarrow> split_state" where
  "split_text max_length d data remaining st =
     (if remaining = [] \<or> max_length = 0 then st
      else let st1 = (if sp_length st \<ge> max_length then flush st else st);
               k = split_point remaining (max_length - sp_length st1);
               st2 = st1\<lparr>sp_current := sp_current st1 @ [with_text d data (take k remaining)],
                         sp_length := sp_length st1 + length (take k remaining)\<rparr>;
               rest = drop k remaining
           in split_text max_length d data rest (if rest \<noteq> [] then flush st2 else st2))"
  by pat_completeness auto
termination
proof (relation "measure (\<lambda>(max_length, d, data, remaining, st). length remaining)")
  fix max_length k :: nat and d data :: pydict and remaining rest :: ustr and st st1 st2 :: split_state
  assume a: "\<not> (remaining = [] \<or> max_length = 0)"
    and st1: "st1 = (if sp_length st \<ge> max_length then flush st else st)"
    and k: "k = split_point remaining (max_length - sp_length st1)" and rest: "rest = drop k remaining"
  have "0 < max_length - sp_length st1" using a st1 by (auto simp: flush_def)
  then have "0 < k" "k \<le> length remaining" using split_point_bounds a k by auto
  then show "((max_length, d, data, rest, if rest \<noteq> [] then flush st2 else st2), max_length, d, data, remaining, st)
      \<in> measure (\<lambda>(max_length, d, data, remaining, st). length remaining)"
    using rest by simp
qed simp

declare split_text.simps [simp del]

text \<open>The text of a segment, with the dictionaries it sits in; an empty text does not count.\<close>

definition text_of_segment :: "pyval \<Rightarrow> (pydict \<times> pydict \<times> ustr) option" where
  "text_of_segment v = (case v of
      VDict d \<Rightarrow> (if dget d kType = Some (VStr kText) then
          (case dget d kData of
             Some (VDict data) \<Rightarrow> (case dget data kText of
                 Some (VStr t) \<Rightarrow> if t = [] then None else Some (d, data, t)
               | _ \<Rightarrow> None)
           | _ \<Rightarrow> None)
        else None)
    | _ \<Rightarrow> None)"

definition split_segment :: "nat \<Rightarrow> pyval \<Rightarrow> split_state \<Rightarrow> split_state" where
  "split_segment max_length v st = (case text_of_segment v of
      None \<Rightarrow> st\<lparr>sp_current := sp_current st @ [v]\<rparr>
    | Some (d, data, t) \<Rightarrow> split_text max_length d data t st)"

text \<open>
  The length of the text of a segment in the first pass; \<^verbatim>\<open>.get\<close> on data that is not a dictionary
  raises.
\<close>

definition segment_text_length :: "pyval \<Rightarrow> pyerr + nat" where
  "segment_text_length v = (case v of
      VDict d \<Rightarrow> (if dget d kType = Some (VStr kText) then
          (case dget_default d kData (VDict []) of
             VDict data \<Rightarrow> Inr (case dget data kText of Some (VStr t) \<Rightarrow> length t | _ \<Rightarrow> 0)
           | _ \<Rightarrow> Inl (OtherError ''AttributeError''))
        else Inr 0)
    | _ \<Rightarrow> Inr 0)"

definition split_message_segments :: "pyval list \<Rightarrow> pyval \<Rightarrow> pyerr + pyval list list" where
  "split_message_segments segs limit = (case limit of
      VInt n \<Rightarrow>
        (if n \<le> 0 then Inl (ValueError ''max_length must be a positive integer'')
         else if segs = [] then Inr [segs]
         else bindE (mapE segment_text_length segs) (\<lambda>lens.
           if int (sum_list lens) \<le> n then Inr [segs]
           else let st = flush (fold (split_segment (nat n)) segs
                                  \<lparr>sp_chunks = [], sp_current = [], sp_length = 0\<rparr>)
                in Inr (if sp_chunks st \<noteq> [] then sp_chunks st else [segs])))
    | _ \<Rightarrow> Inl (ValueError ''max_length must be a positive integer''))"

subsection \<open>Every character once, in order, within the limit\<close>

definition text_len :: "pyval \<Rightarrow> nat" where
  "text_len v = (case text_of_segment v of None \<Rightarrow> 0 | Some (_, _, t) \<Rightarrow> length t)"

definition chunk_len :: "pyval list \<Rightarrow> nat" where
  "chunk_len c = sum_list (map text_len c)"

text \<open>
  How a segment may appear in the result: as it is, or, when it has text, as a run of segments that
  differ from it only in their text, whose texts joined are its text.
\<close>

definition pieces_of :: "pyval \<Rightarrow> pyval list \<Rightarrow> bool" where
  "pieces_of v vs \<longleftrightarrow> (case text_of_segment v of
      None \<Rightarrow> vs = [v]
    | Some (d, data, t) \<Rightarrow> (\<exists>ps. vs = map (with_text d data) ps \<and> concat ps = t \<and> [] \<notin> set ps))"

definition all_segments :: "split_state \<Rightarrow> pyval list" where
  "all_segments st = concat (sp_chunks st) @ sp_current st"

definition split_ok :: "nat \<Rightarrow> split_state \<Rightarrow> bool" where
  "split_ok n st \<longleftrightarrow> (\<forall>c\<in>set (sp_chunks st). c \<noteq> [] \<and> chunk_len c \<le> n)
     \<and> chunk_len (sp_current st) = sp_length st \<and> sp_length st \<le> n"

lemma flush_segments [simp]: "all_segments (flush st) = all_segments st"
  by (simp add: all_segments_def flush_def)

lemma chunk_len_Nil [simp]: "chunk_len [] = 0"
  by (simp add: chunk_len_def)

lemma chunk_len_append [simp]: "chunk_len (c @ d) = chunk_len c + chunk_len d"
  by (simp add: chunk_len_def)

lemma chunk_len_single [simp]: "chunk_len [v] = text_len v"
  by (simp add: chunk_len_def)

lemma flush_ok: "split_ok n st \<Longrightarrow> split_ok n (flush st)"
  by (auto simp: split_ok_def flush_def)

lemma text_of_segmentD:
  "text_of_segment v = Some (d, data, t) \<Longrightarrow>
    v = VDict d \<and> dget d kType = Some (VStr kText) \<and> t \<noteq> []"
  by (auto simp: text_of_segment_def simp del: U_simps split: pyval.splits if_splits option.splits)

lemma text_len_with_text:
  assumes "dget d kType = Some (VStr kText)"
  shows "text_len (with_text d data p) = length p"
  using assms by (simp add: text_len_def text_of_segment_def with_text_def del: U_simps)

lemma split_text_correct:
  assumes "dget d kType = Some (VStr kText)" "0 < n" "split_ok n st"
  shows "split_ok n (split_text n d data t st)
    \<and> (\<exists>ps. all_segments (split_text n d data t st) = all_segments st @ map (with_text d data) ps
         \<and> concat ps = t \<and> [] \<notin> set ps)"
  using assms
proof (induction n d data t st rule: split_text.induct)
  case (1 n d data t st)
  show ?case
  proof (cases "t = []")
    case True
    have "split_text n d data [] st = st" by (subst split_text.simps) simp
    then show ?thesis using 1(4) True by (auto intro!: exI [of _ "[]"])
  next
    case False
    define st1 where "st1 = (if sp_length st \<ge> n then flush st else st)"
    define k where "k = split_point t (n - sp_length st1)"
    define st2 where "st2 = st1\<lparr>sp_current := sp_current st1 @ [with_text d data (take k t)],
      sp_length := sp_length st1 + length (take k t)\<rparr>"
    define st3 where "st3 = (if drop k t \<noteq> [] then flush st2 else st2)"
    have step: "split_text n d data t st = split_text n d data (drop k t) st3"
      using False 1(3)
      by (subst split_text.simps) (simp add: st1_def k_def st2_def st3_def Let_def)
    have ok1: "split_ok n st1" using 1(4) by (simp add: st1_def flush_ok)
    have av: "0 < n - sp_length st1" using 1(3) by (auto simp: st1_def flush_def)
    have k: "0 < k" "k \<le> n - sp_length st1" "k \<le> length t"
      unfolding k_def using split_point_bounds [OF False av] by auto
    have "split_ok n st2"
      using ok1 k text_len_with_text [OF 1(2), of data "take k t"] av
      by (auto simp: split_ok_def st2_def)
    then have ok3: "split_ok n st3" by (simp add: st3_def flush_ok)
    have segs: "all_segments st3 = all_segments st @ [with_text d data (take k t)]"
      by (auto simp: st3_def st2_def all_segments_def) (auto simp: st1_def flush_def all_segments_def)
    from 1(1) [OF _ st1_def k_def st2_def refl 1(2) 1(3)] False 1(3) ok3
    have ih: "split_ok n (split_text n d data (drop k t) st3)
      \<and> (\<exists>ps. all_segments (split_text n d data (drop k t) st3) = all_segments st3 @ map (with_text d data) ps
         \<and> concat ps = drop k t \<and> [] \<notin> set ps)"
      by (simp add: st3_def)
    then obtain ps where ps: "all_segments (split_text n d data (drop k t) st3)
        = all_segments st3 @ map (with_text d data) ps" "concat ps = drop k t" "[] \<notin> set ps"
      by blast
    have "all_segments (split_text n d data t st)
        = all_segments st @ map (with_text d data) (take k t # ps)"
      using ps(1) segs step by simp
    moreover have "concat (take k t # ps) = t" "[] \<notin> set (take k t # ps)"
      using ps(2,3) k False by auto
    ultimately show ?thesis using ih step by metis
  qed
qed


lemma split_segment_correct:
  assumes "0 < n" "split_ok n st"
  shows "split_ok n (split_segment n v st)
    \<and> (\<exists>vs. all_segments (split_segment n v st) = all_segments st @ vs \<and> pieces_of v vs)"
proof (cases "text_of_segment v")
  case None
  then have "text_len v = 0" by (simp add: text_len_def)
  then show ?thesis
    using assms None by (simp add: split_segment_def split_ok_def all_segments_def pieces_of_def)
next
  case (Some ddt)
  obtain d data t where ddt: "ddt = (d, data, t)" by (cases ddt) auto
  then have ty: "dget d kType = Some (VStr kText)" using Some text_of_segmentD by blast
  from split_text_correct [OF ty assms, of data t] show ?thesis
    unfolding pieces_of_def split_segment_def Some ddt option.case prod.case by metis
qed

lemma split_fold_correct:
  assumes "0 < n" "split_ok n st"
  shows "split_ok n (fold (split_segment n) segs st)
    \<and> (\<exists>vss. all_segments (fold (split_segment n) segs st) = all_segments st @ concat vss
        \<and> list_all2 pieces_of segs vss)"
  using assms(2)
proof (induction segs arbitrary: st)
  case (Cons v segs)
  from split_segment_correct [OF assms(1) Cons.prems, of v]
  obtain vs where v: "split_ok n (split_segment n v st)"
    "all_segments (split_segment n v st) = all_segments st @ vs" "pieces_of v vs" by blast
  from Cons.IH [OF v(1)] obtain vss where
    "split_ok n (fold (split_segment n) segs (split_segment n v st))"
    "all_segments (fold (split_segment n) segs (split_segment n v st)) = all_segments (split_segment n v st) @ concat vss"
    "list_all2 pieces_of segs vss" by blast
  then show ?case using v by (auto intro!: exI [of _ "vs # vss"])
qed simp

lemma pieces_of_self: "pieces_of v [v] \<or> (\<exists>d data t. text_of_segment v = Some (d, data, t))"
  by (cases "text_of_segment v") (auto simp: pieces_of_def)

lemma segment_text_length_len: "segment_text_length v = Inr k \<Longrightarrow> k = text_len v"
  by (auto simp: segment_text_length_def text_len_def text_of_segment_def dget_default_def simp del: U_simps
      split: pyval.splits if_splits option.splits)

lemma mapE_text_length: "mapE segment_text_length segs = Inr lens \<Longrightarrow> sum_list lens = chunk_len segs"
  by (induction segs arbitrary: lens) (auto simp: bindE_eq_Inr chunk_len_def dest: segment_text_length_len)

text \<open>
  Splitting a message returns it unchanged when its text fits; otherwise no chunk is empty, no
  chunk has more text than the limit, and the segments of the chunks in order are those of the
  message, each text segment as a run of non-empty pieces whose texts joined are its text.
\<close>

lemma split_message_exact:
  assumes "split_message_segments segs (VInt n) = Inr chunks"
  shows "chunks = [segs] \<and> int (chunk_len segs) \<le> n
    \<or> (\<forall>c\<in>set chunks. c \<noteq> [] \<and> int (chunk_len c) \<le> n)
      \<and> (\<exists>vss. concat chunks = concat vss \<and> list_all2 pieces_of segs vss)"
proof (cases "segs = []")
  case True
  then show ?thesis using assms by (auto simp: split_message_segments_def split: if_splits)
next
  case False
  define st where "st = flush (fold (split_segment (nat n)) segs \<lparr>sp_chunks = [], sp_current = [], sp_length = 0\<rparr>)"
  obtain lens where lens: "mapE segment_text_length segs = Inr lens" and n: "0 < n"
    using assms False by (auto simp: split_message_segments_def bindE_eq_Inr split: if_splits)
  note len = mapE_text_length [OF lens]
  show ?thesis
  proof (cases "int (sum_list lens) \<le> n")
    case True
    then show ?thesis using assms False lens n len by (auto simp: split_message_segments_def)
  next
    case big: False
    have init: "split_ok (nat n) \<lparr>sp_chunks = [], sp_current = [], sp_length = 0\<rparr>"
      by (simp add: split_ok_def)
    have pos: "0 < nat n" using n by simp
    from split_fold_correct [OF pos init, of segs] obtain vss where
      ok: "split_ok (nat n) st" and "all_segments st = concat vss" and vss: "list_all2 pieces_of segs vss"
      by (auto simp: st_def flush_ok) (auto simp: all_segments_def)
    moreover have "sp_current st = []" by (simp add: st_def flush_def)
    ultimately have cat: "concat (sp_chunks st) = concat vss" by (simp add: all_segments_def)
    have "vss \<noteq> []" "hd vss \<noteq> []"
    proof -
      obtain v segs' vs vss' where s: "segs = v # segs'" "vss = vs # vss'" "pieces_of v vs"
        using False vss by (cases segs; cases vss) auto
      then show "vss \<noteq> []" "hd vss \<noteq> []"
        by (auto simp: pieces_of_def split: option.splits dest: text_of_segmentD)
    qed
    then have "sp_chunks st \<noteq> []" using cat by (cases vss) auto
    then have "chunks = sp_chunks st"
      using assms False lens n big by (simp add: split_message_segments_def st_def Let_def)
    then show ?thesis using ok cat vss n by (auto simp: split_ok_def)
  qed
qed

section \<open>Outgoing actions\<close>

definition text_segment :: "ustr \<Rightarrow> pyval" where
  "text_segment s = VDict [(kType, VStr kText), (kData, VDict [(kText, VStr s)])]"

definition segments :: "pyval \<Rightarrow> pyval list" where
  "segments payload = (case payload of
      VList xs \<Rightarrow> xs
    | VStr s \<Rightarrow> [text_segment s]
    | _ \<Rightarrow> [])"

definition build_action :: "pyval list \<Rightarrow> pyval \<Rightarrow> pyval \<Rightarrow> pydict option" where
  "build_action segs user_id group_id =
     (if segs = [] then None
      else if group_id \<noteq> VNone then
        Some [(U ''action'', VStr (U ''send_group_msg'')),
              (U ''params'', VDict [(U ''group_id'', group_id), (U ''message'', VList segs)])]
      else if user_id \<noteq> VNone then
        Some [(U ''action'', VStr (U ''send_private_msg'')),
              (U ''params'', VDict [(U ''user_id'', user_id), (U ''message'', VList segs)])]
      else None)"

definition send_actions :: "ustr list" where
  "send_actions = [U ''send_group_msg'', U ''send_private_msg'']"

text \<open>
  \<^verbatim>\<open>_maybe_split_action\<close>: one action for each chunk; the other fields of the action are copied.
\<close>

definition split_action :: "pydict \<Rightarrow> pyval \<Rightarrow> pydict \<Rightarrow> pyval list \<Rightarrow> pydict" where
  "split_action action name params chunk =
     [(U ''action'', name), (U ''params'', VDict (dset kMessage (VList chunk) params))]
     @ filter (\<lambda>(k, v). k \<notin> {U ''action'', U ''params''}) action"

definition maybe_split_action :: "pydict \<Rightarrow> pyerr + pydict list" where
  "maybe_split_action action =
     (let name = dget_default action (U ''action'') (VStr []) in
      if \<not> (case name of VStr s \<Rightarrow> s \<in> set send_actions | _ \<Rightarrow> False) then Inr [action]
      else case dget_default action (U ''params'') VNone of
        VDict params \<Rightarrow> (case dget_default params kMessage VNone of
            VList message \<Rightarrow> bindE (split_message_segments message (VInt max_message_text_length)) (\<lambda>chunks.
              if length chunks \<le> 1 then Inr [action]
              else Inr (map (split_action action name params) chunks))
          | _ \<Rightarrow> Inr [action])
      | _ \<Rightarrow> Inr [action])"

text \<open>\<^verbatim>\<open>_message_length\<close>: the length of a message in the log.\<close>

definition item_length :: "(pyval \<Rightarrow> ustr) \<Rightarrow> pyval \<Rightarrow> nat" where
  "item_length other v = (case v of
      VDict d \<Rightarrow> (if dget d kType \<noteq> Some (VStr kText) then 1
                  else length (py_str other (dget_default (segment_data d) kText (VStr []))))
    | _ \<Rightarrow> 1)"

definition message_length :: "(pyval \<Rightarrow> ustr) \<Rightarrow> pyval \<Rightarrow> nat" where
  "message_length other v = (case v of
      VStr s \<Rightarrow> length s
    | VList items \<Rightarrow> sum_list (map (item_length other) items)
    | _ \<Rightarrow> 0)"

section \<open>Properties of validation and of command text\<close>

lemma validate_segment_ok:
  assumes "validate_segment v = Inr d" "\<And>e. v = VDict e \<Longrightarrow> dict_ok e"
  shows "dict_ok d"
  using assms
  by (auto simp: validate_segment_def simp del: U_simps intro!: dict_ok_dset
      split: option.splits pyval.splits if_splits)

text \<open>
  Validation at the trust boundary: every accepted segment has a non-empty type without white
  space around it and a dictionary of data, no segment is lost or reordered, and validating the
  result again changes nothing.
\<close>

lemma validate_segments_normal:
  assumes "validate_message_segments xs = Inr ds" "\<forall>d. VDict d \<in> set xs \<longrightarrow> dict_ok d"
  shows "length ds = length xs \<and> (\<forall>d\<in>set ds. segment_valid d)
    \<and> validate_message_segments (map VDict ds) = Inr ds"
proof -
  have m: "mapE validate_segment xs = Inr ds" using assms(1) by (simp add: validate_message_segments_def)
  have ok: "segment_valid d \<and> dict_ok d" if d: "d \<in> set ds" for d
  proof -
    obtain x where "x \<in> set xs" "validate_segment x = Inr d" using mapE_Inr_set [OF m d] by blast
    then show ?thesis using validate_segment_valid validate_segment_ok assms(2) by blast
  qed
  have "mapE validate_segment (map VDict ds) = Inr ds"
    using ok by (induction ds) (auto simp: validate_segment_id)
  then show ?thesis
    using ok mapE_Inr_length [OF m] by (simp add: validate_message_segments_def)
qed

lemma cq_at_nonempty [simp]: "cq_at i \<noteq> []"
  by (simp add: cq_at_def)

lemma cq_at_hd: "\<exists>r. cq_at i = 91 # r"
  by (simp add: cq_at_def)

lemma strip_outer:
  assumes "a \<noteq> []" "\<not> uspace (hd a)" "b \<noteq> []" "\<not> uspace (last b)"
  shows "strip (a @ b) = a @ b"
  using assms by (intro strip_id) (simp add: hd_append last_append)

lemma strip_prefixes_find:
  "List.find (startswith s) ps = Some p \<Longrightarrow> strip_prefixes ps s = strip (drop (length p) s)"
  by (induction ps) (auto split: if_splits)

lemma dropWhile_sep:
  assumes "\<forall>c\<in>set sep. P c" "r \<noteq> []" "\<not> P (hd r)"
  shows "dropWhile P (sep @ r) = r"
  using assms by (induction sep) (auto simp: neq_Nil_conv)

text \<open>
  A text that mentions the bot and goes on with a configured prefix and a command, with any spaces
  or punctuation between mention and prefix, has exactly the command as its clean text.
\<close>

lemma mention_prefix_command:
  assumes id: "self_id \<noteq> []" and cmd: "cmd \<noteq> []" "strip cmd = cmd"
    and sep: "\<forall>c\<in>set sep. c \<in> set (32 # 9 # 10 # prefix_punct)"
    and p: "p \<noteq> []" "hd p \<notin> set (32 # 9 # 10 # prefix_punct)"
    and pre: "List.find (startswith (p @ cmd)) prefixes = Some p"
    and at: "\<not> occurs_in (cq_at self_id) (p @ cmd)"
  shows "strip_message_prefix ieq (cq_at self_id @ sep @ p @ cmd) [] prefixes self_id None = cmd"
proof -
  have last: "\<not> uspace (last cmd)" using strip_last [of cmd] cmd by simp
  have hd: "\<not> uspace (hd (cq_at self_id))" using cq_at_hd [of self_id] by (auto simp: uspace_def)
  have "strip (cq_at self_id @ (sep @ p @ cmd)) = cq_at self_id @ (sep @ p @ cmd)"
    by (rule strip_outer) (use hd last cmd in simp_all)
  moreover have "dropWhile (\<lambda>c. c \<in> set (32 # 9 # 10 # prefix_punct)) (sep @ (p @ cmd)) = p @ cmd"
    by (rule dropWhile_sep) (use sep p in \<open>simp_all add: hd_append\<close>)
  ultimately have "strip_mention self_id (strip (cq_at self_id @ sep @ p @ cmd)) = p @ cmd"
    using id at by (simp add: strip_mention_def Let_def startswith_append)
  then show ?thesis
    using strip_prefixes_find [OF pre] cmd
    by (simp add: strip_message_prefix_def compile_bot_name_pattern_def Let_def)
qed

end
