(* ===== verification/Principal.thy ===== *)
theory Principal
  imports Py_Values
begin

text \<open>
  Identities the application issues (\<^verbatim>\<open>core/interfaces.py\<close>, \<^verbatim>\<open>core/app_identity.py\<close>) and the credentials it
  derives from the secrets (\<^verbatim>\<open>core/app_support.py\<close>, \<^verbatim>\<open>core/auth.py\<close>).
\<close>

section \<open>Delivery targets\<close>

datatype target_kind = PrivateChat | GroupChat

record target =
  tkind :: target_kind
  target_id :: int

definition make_target :: "pyval \<Rightarrow> pyval \<Rightarrow> pyerr + target" where
  "make_target k i =
     bindE (in_str_set [U ''private'', U ''group''] k) (\<lambda>b.
     bindE (guardE (\<not> b) (ValueError ''delivery target kind must be private or group'')) (\<lambda>_.
     case i of
       VInt n \<Rightarrow> (if n \<le> 0 then Inl (ValueError ''delivery target id must be positive'')
                  else Inr \<lparr>tkind = (if k = VStr (U ''private'') then PrivateChat else GroupChat), target_id = n\<rparr>)
     | _ \<Rightarrow> Inl (TypeError ''delivery target id must be an integer'')))"

definition target_user_id :: "target \<Rightarrow> int option" where
  "target_user_id t = (if tkind t = PrivateChat then Some (target_id t) else None)"

definition target_group_id :: "target \<Rightarrow> int option" where
  "target_group_id t = (if tkind t = GroupChat then Some (target_id t) else None)"

section \<open>Principals\<close>

datatype pkind = UserKind | ScheduledSystem | Lifecycle
datatype prole = Owner | GroupAdmin | Member | UnknownRole
datatype delivery_mode = Broadcast | Targeted | Silent

definition kind_names :: "(ustr \<times> pkind) list" where
  "kind_names = [(U ''user'', UserKind), (U ''scheduled_system'', ScheduledSystem), (U ''lifecycle'', Lifecycle)]"

definition role_names :: "(ustr \<times> prole) list" where
  "role_names = [(U ''owner'', Owner), (U ''admin'', GroupAdmin), (U ''member'', Member), (U ''unknown'', UnknownRole)]"

definition mode_names :: "(ustr \<times> delivery_mode) list" where
  "mode_names = [(U ''broadcast'', Broadcast), (U ''targeted'', Targeted), (U ''silent'', Silent)]"

record principal =
  pkind :: pkind
  puser :: "int option"
  pgroup :: "int option"
  is_bot_admin :: bool
  is_private :: bool
  group_role :: prole
  delivery_targets :: "target list"
  schedule_delivery :: "delivery_mode option"

text \<open>
  The arguments of the constructor, of any type. \<open>raw_targets\<close> is \<open>None\<close> for a value that is not a tuple of
  delivery targets.
\<close>

record raw_principal =
  raw_kind :: pyval
  raw_user :: pyval
  raw_group :: pyval
  raw_admin :: pyval
  raw_private :: pyval
  raw_role :: pyval
  raw_targets :: "target list option"
  raw_delivery :: pyval

definition check_id :: "string \<Rightarrow> pyval \<Rightarrow> pyerr + int option" where
  "check_id field v = (case v of
      VNone \<Rightarrow> Inr None
    | VInt n \<Rightarrow> if n \<le> 0 then Inl (ValueError (field @ '' must be a positive integer or None'')) else Inr (Some n)
    | _ \<Rightarrow> Inl (ValueError (field @ '' must be a positive integer or None'')))"

definition check_name :: "(ustr \<times> 'a) list \<Rightarrow> pyerr \<Rightarrow> pyval \<Rightarrow> pyerr + 'a" where
  "check_name names e v =
     bindE (in_str_set (map fst names) v) (\<lambda>b.
     case v of VStr s \<Rightarrow> (case map_of names s of Some x \<Rightarrow> Inr x | None \<Rightarrow> Inl e) | _ \<Rightarrow> Inl e)"

text \<open>\<^verbatim>\<open>PluginPrincipal.__post_init__\<close>: the checks in their order.\<close>

definition make_principal :: "raw_principal \<Rightarrow> pyerr + principal" where
  "make_principal r =
     bindE (check_name kind_names (ValueError ''principal kind is invalid'') (raw_kind r)) (\<lambda>k.
     bindE (check_id ''user_id'' (raw_user r)) (\<lambda>u.
     bindE (check_id ''group_id'' (raw_group r)) (\<lambda>g.
     bindE (case (raw_admin r, raw_private r) of
              (VBool a, VBool p) \<Rightarrow> Inr (a, p)
            | _ \<Rightarrow> Inl (TypeError ''principal flags must be booleans'')) (\<lambda>(a, p).
     bindE (check_name role_names (ValueError ''principal group role is invalid'') (raw_role r)) (\<lambda>ro.
     bindE (if k = UserKind then
              bindE (guardE (u = None) (ValueError ''user principal requires user_id'')) (\<lambda>_.
              bindE (guardE (p \<and> g \<noteq> None) (ValueError ''private user principal must not have group_id'')) (\<lambda>_.
              guardE (g = None \<and> ro \<noteq> UnknownRole)
                (ValueError ''principal without group_id must have unknown group role'')))
            else guardE (u \<noteq> None \<or> g \<noteq> None \<or> a \<or> p \<or> ro \<noteq> UnknownRole)
                (ValueError ''non-user principal must not carry user scope'')) (\<lambda>_.
     bindE (case raw_targets r of Some ts \<Rightarrow> Inr ts
            | None \<Rightarrow> Inl (TypeError ''delivery_targets must be a tuple of DeliveryTarget values'')) (\<lambda>ts.
     bindE (if k = ScheduledSystem then
              (if raw_delivery r = VNone then Inr None
               else bindE (check_name mode_names (ValueError ''scheduled principal delivery mode is invalid'')
                      (raw_delivery r)) (\<lambda>m. Inr (Some m)))
            else bindE (guardE (raw_delivery r \<noteq> VNone)
                (ValueError ''only scheduled principals may carry a delivery mode'')) (\<lambda>_. Inr None)) (\<lambda>d.
     Inr \<lparr>pkind = k, puser = u, pgroup = g, is_bot_admin = a, is_private = p, group_role = ro,
           delivery_targets = ts, schedule_delivery = d\<rparr>))))))))"

definition is_system :: "principal \<Rightarrow> bool" where
  "is_system p \<longleftrightarrow> pkind p = ScheduledSystem"

definition can_manage_group :: "principal \<Rightarrow> int option \<Rightarrow> bool" where
  "can_manage_group p target = (case target of
      None \<Rightarrow> False
    | Some g \<Rightarrow> if pkind p \<noteq> UserKind \<or> is_private p \<or> g \<le> 0 then False
                else pgroup p = Some g \<and> group_role p \<in> {Owner, GroupAdmin})"

text \<open>What a principal that was constructed satisfies.\<close>

definition principal_ok :: "principal \<Rightarrow> bool" where
  "principal_ok p \<longleftrightarrow>
     (case puser p of None \<Rightarrow> True | Some n \<Rightarrow> 0 < n) \<and> (case pgroup p of None \<Rightarrow> True | Some n \<Rightarrow> 0 < n)
     \<and> (if pkind p = UserKind
        then puser p \<noteq> None \<and> \<not> (is_private p \<and> pgroup p \<noteq> None) \<and> (pgroup p = None \<longrightarrow> group_role p = UnknownRole)
        else puser p = None \<and> pgroup p = None \<and> \<not> is_bot_admin p \<and> \<not> is_private p \<and> group_role p = UnknownRole)
     \<and> (pkind p \<noteq> ScheduledSystem \<longrightarrow> schedule_delivery p = None)"

section \<open>Identifiers from the configuration\<close>

definition parse_positive_id :: "string \<Rightarrow> pyval \<Rightarrow> pyerr + int" where
  "parse_positive_id field v =
     bindE (case v of
         VInt n \<Rightarrow> Inr n
       | VStr s \<Rightarrow> (if s \<noteq> [] \<and> isascii s \<and> isdecimal s then int_of_digits s
                   else Inl (TypeError (field @ '' entries must be integers or decimal strings'')))
       | _ \<Rightarrow> Inl (TypeError (field @ '' entries must be integers or decimal strings'')))
     (\<lambda>n. if n \<le> 0 then Inl (ValueError (field @ '' entries must be positive'')) else Inr n)"

definition parse_positive_ids :: "string \<Rightarrow> pyval \<Rightarrow> pyerr + int list" where
  "parse_positive_ids field v = (case v of
      VList xs \<Rightarrow> mapE (parse_positive_id field) xs
    | VTuple xs \<Rightarrow> mapE (parse_positive_id field) xs
    | _ \<Rightarrow> Inl (TypeError (field @ '' must be a list'')))"

section \<open>The identity service\<close>

text \<open>
  A principal is an object: \<open>issued\<close> maps the identity of each principal the service made to its kind.
\<close>

record identity =
  admin_ids :: "int list"
  issued :: "nat \<Rightarrow> pkind option"
  next_obj :: nat

definition new_identity :: identity where
  "new_identity = \<lparr>admin_ids = [], issued = Map.empty, next_obj = 0\<rparr>"

text \<open>An unreadable list of administrators revokes all of them.\<close>

definition load_admins :: "(ustr, pyval) dict \<Rightarrow> identity \<Rightarrow> identity" where
  "load_admins secrets s =
     (case parse_positive_ids ''admin_user_ids'' (dget_default secrets (U ''admin_user_ids'') (VList [])) of
        Inr ids \<Rightarrow> s\<lparr>admin_ids := remdups ids\<rparr>
      | Inl _ \<Rightarrow> s\<lparr>admin_ids := []\<rparr>)"

definition is_admin :: "identity \<Rightarrow> int option \<Rightarrow> bool" where
  "is_admin s u = (case u of None \<Rightarrow> False | Some n \<Rightarrow> 0 < n \<and> n \<in> set (admin_ids s))"

definition opt_val :: "int option \<Rightarrow> pyval" where
  "opt_val u = (case u of None \<Rightarrow> VNone | Some n \<Rightarrow> VInt n)"

definition issue ::
  "pyval \<Rightarrow> int option \<Rightarrow> int option \<Rightarrow> bool \<Rightarrow> bool \<Rightarrow> ustr \<Rightarrow> target list option \<Rightarrow> pyval \<Rightarrow>
   identity \<Rightarrow> (pyerr + nat \<times> principal) \<times> identity" where
  "issue kind u g admin private role targets delivery s =
     (case (case targets of
         Some ts \<Rightarrow> Inr ts
       | None \<Rightarrow>
           if kind = VStr (U ''user'') \<and> g \<noteq> None then
             bindE (make_target (VStr (U ''group'')) (opt_val g)) (\<lambda>t. Inr [t])
           else if kind = VStr (U ''user'') \<and> u \<noteq> None then
             bindE (make_target (VStr (U ''private'')) (opt_val u)) (\<lambda>t. Inr [t])
           else Inr []) of
        Inl e \<Rightarrow> (Inl e, s)
      | Inr ts \<Rightarrow>
          (case make_principal \<lparr>raw_kind = kind, raw_user = opt_val u, raw_group = opt_val g, raw_admin = VBool admin,
              raw_private = VBool private, raw_role = VStr role, raw_targets = Some ts, raw_delivery = delivery\<rparr> of
             Inl e \<Rightarrow> (Inl e, s)
           | Inr p \<Rightarrow> (Inr (next_obj s, p),
               s\<lparr>issued := (issued s)(next_obj s \<mapsto> pkind p), next_obj := next_obj s + 1\<rparr>)))"

text \<open>\<open>lower\<close> is \<^verbatim>\<open>str.lower\<close>, \<open>other\<close> prints the values \<open>py_str\<close> leaves open.\<close>

definition sender_matches :: "pyval \<Rightarrow> int option \<Rightarrow> pyerr + bool" where
  "sender_matches su u = (case u of
      None \<Rightarrow> Inr False
    | Some n \<Rightarrow>
        if su = VNone then Inr False
        else case py_int su of
            Inr m \<Rightarrow> Inr (m = n)
          | Inl (OverflowError e) \<Rightarrow> Inl (OverflowError e)
          | Inl _ \<Rightarrow> Inr False)"

definition claimed_role :: "(ustr \<Rightarrow> ustr) \<Rightarrow> (pyval \<Rightarrow> ustr) \<Rightarrow> (ustr, pyval) dict \<Rightarrow> ustr" where
  "claimed_role lower other sender =
     (let r = dget_default sender (U ''role'') (VStr []) in
      lower (strip (py_str other (if truthy r then r else VStr []))))"

definition event_role ::
  "(ustr \<Rightarrow> ustr) \<Rightarrow> (pyval \<Rightarrow> ustr) \<Rightarrow> (ustr, pyval) dict \<Rightarrow> int option \<Rightarrow> int option \<Rightarrow> pyerr + ustr" where
  "event_role lower other event u g =
     (if g = None then Inr (U ''unknown'')
      else case dget_default event (U ''sender'') VNone of
        VDict sender \<Rightarrow>
          bindE (sender_matches (dget_default sender (U ''user_id'') VNone) u) (\<lambda>ok.
          let c = claimed_role lower other sender in
          Inr (if ok \<and> c \<in> {U ''owner'', U ''admin'', U ''member''} then c else U ''unknown''))
      | _ \<Rightarrow> Inr (U ''unknown''))"

definition issue_user_principal ::
  "(ustr \<Rightarrow> ustr) \<Rightarrow> (pyval \<Rightarrow> ustr) \<Rightarrow> (ustr, pyval) dict \<Rightarrow> int option \<Rightarrow> int option \<Rightarrow> bool \<Rightarrow>
   identity \<Rightarrow> (pyerr + nat \<times> principal) \<times> identity" where
  "issue_user_principal lower other event u g private s = (case event_role lower other event u g of
      Inl e \<Rightarrow> (Inl e, s)
    | Inr role \<Rightarrow> issue (VStr (U ''user'')) u g (is_admin s u) private role None VNone s)"

definition owns :: "identity \<Rightarrow> nat \<Rightarrow> principal \<Rightarrow> bool" where
  "owns s obj p \<longleftrightarrow> issued s obj = Some (pkind p)"

section \<open>Credentials\<close>

datatype source_status = Valid | Missing | Invalid | Unavailable | Inconsistent

record snapshot =
  secrets :: "(ustr, pyval) dict"
  secrets_status :: source_status

definition trusted_secrets :: "snapshot \<Rightarrow> (ustr, pyval) dict" where
  "trusted_secrets s = (if secrets_status s = Valid then secrets s else [])"

definition onebot_credentials :: "snapshot \<Rightarrow> ustr \<times> bool" where
  "onebot_credentials s =
     (let trusted = trusted_secrets s in
      if trusted = [] \<and> secrets_status s \<noteq> Valid then ([], False)
      else case dget_default trusted (U ''onebot_token'') (VStr []) of
        VStr tok \<Rightarrow> (tok, True)
      | _ \<Rightarrow> ([], False))"

definition inbound_credentials :: "snapshot \<Rightarrow> ustr" where
  "inbound_credentials s =
     (case dget_default (trusted_secrets s) (U ''inbound_token'') (VStr []) of
        VStr tok \<Rightarrow> tok
      | _ \<Rightarrow> [])"

text \<open>
  \<^verbatim>\<open>hmac.compare_digest\<close> of the encoded strings is equality; \<open>encode\<close> is \<^verbatim>\<open>str.encode\<close>, which is injective and fails
  on a surrogate.
\<close>

definition utf8_ok :: "ustr \<Rightarrow> bool" where
  "utf8_ok s \<longleftrightarrow> list_all (\<lambda>c. \<not> (55296 \<le> c \<and> c \<le> 57343)) s"

definition verify_bearer_token :: "ustr \<Rightarrow> ustr option \<Rightarrow> pyerr + bool" where
  "verify_bearer_token header expected = (case expected of
      None \<Rightarrow> Inr False
    | Some tok \<Rightarrow>
        if tok = [] then Inr False
        else if \<not> utf8_ok header \<or> \<not> utf8_ok (U ''Bearer '' @ tok)
        then Inl (ValueError ''surrogates not allowed'')
        else Inr (header = U ''Bearer '' @ tok))"

section \<open>Numbers from the configuration\<close>

datatype pynum = NInt int | NFloat pyfloat

definition runtime_number_error :: "ustr \<Rightarrow> pyerr" where
  "runtime_number_error key = ValueError ''invalid numeric configuration field''"

text \<open>The range check of \<^verbatim>\<open>_coerce_runtime_number\<close> comes after the guarded conversion and converts the
  integer to \<^verbatim>\<open>float\<close> without a handler.\<close>

definition coerce_runtime_number ::
  "(ustr \<Rightarrow> pyfloat option) \<Rightarrow> ustr \<Rightarrow> pyval \<Rightarrow> bool \<Rightarrow> real \<Rightarrow> real \<Rightarrow> pyval \<Rightarrow> pyerr + pynum" where
  "coerce_runtime_number parse key dflt integer lo hi raw =
     (let v = (if raw = VNone then dflt else raw);
          range_err = ValueError ''configuration field out of range'';
          check = (\<lambda>x n. case x of
              Fin r \<Rightarrow> if r < lo \<or> r > hi then Inl range_err else Inr n
            | _ \<Rightarrow> Inl range_err)
      in case v of
        VBool _ \<Rightarrow> Inl (ValueError ''configuration field must be numeric, not bool'')
      | _ \<Rightarrow>
        if integer then
          (case (case v of
               VFloat (Fin r) \<Rightarrow> if of_int \<lfloor>r\<rfloor> \<noteq> r then Inl (runtime_number_error key) else Inr \<lfloor>r\<rfloor>
             | VFloat _ \<Rightarrow> Inl (runtime_number_error key)
             | _ \<Rightarrow> py_int v) of
             Inl _ \<Rightarrow> Inl (runtime_number_error key)
           | Inr n \<Rightarrow> bindE (float_of_int n) (\<lambda>x. check x (NInt n)))
        else (case py_float parse v of
             Inl _ \<Rightarrow> Inl (runtime_number_error key)
           | Inr x \<Rightarrow> check x (NFloat x)))"

section \<open>Lemmas\<close>

lemma check_id_Inr:
  "check_id f v = Inr r \<longleftrightarrow> (v = VNone \<and> r = None) \<or> (\<exists>n. v = VInt n \<and> 0 < n \<and> r = Some n)"
  by (auto simp: check_id_def split: pyval.splits if_splits)

lemma check_name_Inr:
  "check_name names e v = Inr x \<longleftrightarrow> (\<exists>s. v = VStr s \<and> map_of names s = Some x)"
  by (auto simp: check_name_def in_str_set_def bindE_eq_Inr split: pyval.splits option.splits)

definition name_of :: "(ustr \<times> 'a) list \<Rightarrow> 'a \<Rightarrow> ustr" where
  "name_of names x = (case find (\<lambda>sx. snd sx = x) names of Some sx \<Rightarrow> fst sx | None \<Rightarrow> [])"

definition raw_of_principal :: "principal \<Rightarrow> raw_principal" where
  "raw_of_principal p = \<lparr>raw_kind = VStr (name_of kind_names (pkind p)), raw_user = opt_val (puser p),
     raw_group = opt_val (pgroup p), raw_admin = VBool (is_bot_admin p), raw_private = VBool (is_private p),
     raw_role = VStr (name_of role_names (group_role p)), raw_targets = Some (delivery_targets p),
     raw_delivery = (case schedule_delivery p of None \<Rightarrow> VNone | Some m \<Rightarrow> VStr (name_of mode_names m))\<rparr>"

lemma names_inverse [simp]:
  "map_of kind_names (name_of kind_names k) = Some k"
  "map_of role_names (name_of role_names r) = Some r"
  "map_of mode_names (name_of mode_names m) = Some m"
proof -
  show "map_of kind_names (name_of kind_names k) = Some k" by (cases k) (simp_all add: name_of_def kind_names_def)
  show "map_of role_names (name_of role_names r) = Some r" by (cases r) (simp_all add: name_of_def role_names_def)
  show "map_of mode_names (name_of mode_names m) = Some m" by (cases m) (simp_all add: name_of_def mode_names_def)
qed

lemma make_principal_ok: "make_principal r = Inr p \<Longrightarrow> principal_ok p"
  by (auto simp: make_principal_def bindE_eq_Inr check_id_Inr principal_ok_def split: if_splits)

lemma check_id_opt: "(case i of None \<Rightarrow> True | Some n \<Rightarrow> 0 < n) \<Longrightarrow> check_id f (opt_val i) = Inr i"
  by (cases i) (auto simp: opt_val_def check_id_Inr)

lemma check_name_back: "map_of names s = Some x \<Longrightarrow> check_name names e (VStr s) = Inr x"
  by (simp add: check_name_Inr)

lemma make_principal_back: "principal_ok p \<Longrightarrow> make_principal (raw_of_principal p) = Inr p"
  by (cases "schedule_delivery p")
    (auto simp: make_principal_def raw_of_principal_def principal_ok_def check_id_opt check_name_back guardE_def)

text \<open>The shape of a principal that \<open>issue\<close> makes for a user.\<close>

lemma issue_Inr:
  assumes "issue kind u g a p ro ts d s = (Inr (i, pr), s')"
  shows "principal_ok pr \<and> puser pr = u \<and> pgroup pr = g \<and> is_bot_admin pr = a \<and> is_private pr = p
    \<and> map_of role_names ro = Some (group_role pr) \<and> kind \<noteq> VNone
    \<and> i = next_obj s \<and> s' = s\<lparr>issued := (issued s)(i \<mapsto> pkind pr), next_obj := i + 1\<rparr>
    \<and> (kind = VStr (U ''user'') \<and> ts = None \<longrightarrow>
        delivery_targets pr = [case g of Some n \<Rightarrow> \<lparr>tkind = GroupChat, target_id = n\<rparr>
                               | None \<Rightarrow> \<lparr>tkind = PrivateChat, target_id = the u\<rparr>])"
proof -
  obtain ts' where ts': "(case ts of Some ts \<Rightarrow> Inr ts
       | None \<Rightarrow>
           if kind = VStr (U ''user'') \<and> g \<noteq> None then
             bindE (make_target (VStr (U ''group'')) (opt_val g)) (\<lambda>t. Inr [t])
           else if kind = VStr (U ''user'') \<and> u \<noteq> None then
             bindE (make_target (VStr (U ''private'')) (opt_val u)) (\<lambda>t. Inr [t])
           else Inr []) = Inr ts'"
    and m: "make_principal \<lparr>raw_kind = kind, raw_user = opt_val u, raw_group = opt_val g, raw_admin = VBool a,
      raw_private = VBool p, raw_role = VStr ro, raw_targets = Some ts', raw_delivery = d\<rparr> = Inr pr"
    and i: "i = next_obj s" "s' = s\<lparr>issued := (issued s)(i \<mapsto> pkind pr), next_obj := i + 1\<rparr>"
    using assms unfolding issue_def by (simp split: sum.splits) blast
  have ok: "principal_ok pr" using make_principal_ok [OF m] .
  have f: "puser pr = u" "pgroup pr = g" "is_bot_admin pr = a" "is_private pr = p"
    "map_of role_names ro = Some (group_role pr)" "kind \<noteq> VNone" "delivery_targets pr = ts'"
    "kind = VStr (U ''user'') \<longrightarrow> pkind pr = UserKind"
    using m by (auto simp: make_principal_def bindE_eq_Inr check_id_Inr check_name_Inr opt_val_def kind_names_def
        split: option.splits if_splits)
  have "ts' = [case g of Some n \<Rightarrow> \<lparr>tkind = GroupChat, target_id = n\<rparr> | None \<Rightarrow> \<lparr>tkind = PrivateChat, target_id = the u\<rparr>]"
    if "kind = VStr (U ''user'')" "ts = None"
    using ts' that f ok
    by (auto simp: make_target_def in_str_set_def opt_val_def guardE_def principal_ok_def
        split: option.splits if_splits)
  then show ?thesis using ok f i by simp
qed

section \<open>Properties\<close>


text \<open>
  Authority of a user principal: it is an administrator exactly when its user is one now, its only
  delivery target is its own chat, the service recognises it afterwards, and it can manage a group only if
  that is the group of the event, the chat is not private, and the sender of the event is the same user
  with a role of owner or admin.
\<close>

lemma principal_authority:
  assumes "issue_user_principal lower other ev u g private s = (Inr (i, p), s')"
  shows "is_bot_admin p = is_admin s u \<and> puser p = u \<and> pgroup p = g \<and> owns s' i p
    \<and> delivery_targets p = [case g of Some n \<Rightarrow> \<lparr>tkind = GroupChat, target_id = n\<rparr>
                            | None \<Rightarrow> \<lparr>tkind = PrivateChat, target_id = the u\<rparr>]
    \<and> (can_manage_group p (Some n) \<longrightarrow> g = Some n \<and> \<not> private
        \<and> (\<exists>sender k. dget ev (U ''sender'') = Some (VDict sender)
            \<and> py_int (dget_default sender (U ''user_id'') VNone) = Inr k \<and> u = Some k
            \<and> claimed_role lower other sender \<in> {U ''owner'', U ''admin''}))"
proof -
  obtain role where role: "event_role lower other ev u g = Inr role"
    and iss: "issue (VStr (U ''user'')) u g (is_admin s u) private role None VNone s = (Inr (i, p), s')"
    using assms unfolding issue_user_principal_def by (simp split: sum.splits)
  note facts = issue_Inr [OF iss]
  have "g = Some n \<and> \<not> private \<and> (\<exists>sender k. dget ev (U ''sender'') = Some (VDict sender)
            \<and> py_int (dget_default sender (U ''user_id'') VNone) = Inr k \<and> u = Some k
            \<and> claimed_role lower other sender \<in> {U ''owner'', U ''admin''})"
    if m: "can_manage_group p (Some n)"
  proof -
    have gr: "group_role p = Owner \<or> group_role p = GroupAdmin" and g: "g = Some n" "\<not> private"
      using m facts by (auto simp: can_manage_group_def split: if_splits)
    then have r: "role \<noteq> U ''unknown''" "role \<noteq> U ''member''"
      using facts by (auto simp: role_names_def)
    obtain sender where sender: "dget_default ev (U ''sender'') VNone = VDict sender"
      using role r g unfolding event_role_def by (cases "dget_default ev (U ''sender'') VNone") auto
    then have s: "dget ev (U ''sender'') = Some (VDict sender)"
      by (simp add: dget_default_def split: option.splits)
    obtain ok where ok: "sender_matches (dget_default sender (U ''user_id'') VNone) u = Inr ok"
      and rr: "role = (if ok \<and> claimed_role lower other sender \<in> {U ''owner'', U ''admin'', U ''member''}
                       then claimed_role lower other sender else U ''unknown'')"
      using role sender g by (auto simp: event_role_def Let_def bindE_eq_Inr)
    have "ok \<and> claimed_role lower other sender \<in> {U ''owner'', U ''admin''}"
      using rr r by (auto split: if_splits)
    moreover have "ok \<Longrightarrow> \<exists>k. py_int (dget_default sender (U ''user_id'') VNone) = Inr k \<and> u = Some k"
      using ok by (auto simp: sender_matches_def split: option.splits if_splits sum.splits pyerr.splits)
    ultimately show ?thesis using s g by blast
  qed
  then show ?thesis using facts by (simp add: owns_def)
qed

text \<open>
  Secrets fail closed: outbound credentials are trusted only with a healthy source and a string token,
  and are then exactly that token (so anonymous access is never a consequence of a broken source); an
  unhealthy source authenticates no inbound request; a list of administrators that cannot be read revokes
  every administrator, and a readable one is the new set.
\<close>

lemma secrets_fail_closed:
  shows "(onebot_credentials sn = (tok, True)
        \<longleftrightarrow> secrets_status sn = Valid \<and> dget_default (secrets sn) (U ''onebot_token'') (VStr []) = VStr tok)
    \<and> (verify_bearer_token h (Some (inbound_credentials sn)) = Inr True \<longrightarrow>
        secrets_status sn = Valid \<and> (\<exists>t. t \<noteq> [] \<and> dget (secrets sn) (U ''inbound_token'') = Some (VStr t) \<and> h = U ''Bearer '' @ t))
    \<and> (is_admin (load_admins sec s) (Some n) \<longleftrightarrow>
        (\<exists>ids. parse_positive_ids ''admin_user_ids'' (dget_default sec (U ''admin_user_ids'') (VList [])) = Inr ids
          \<and> n \<in> set ids))"
proof (intro conjI)
  show "onebot_credentials sn = (tok, True)
        \<longleftrightarrow> secrets_status sn = Valid \<and> dget_default (secrets sn) (U ''onebot_token'') (VStr []) = VStr tok"
    by (cases "secrets_status sn = Valid"; cases "dget_default (secrets sn) (U ''onebot_token'') (VStr [])")
      (simp_all add: onebot_credentials_def trusted_secrets_def)
next
  show "verify_bearer_token h (Some (inbound_credentials sn)) = Inr True \<longrightarrow>
        secrets_status sn = Valid \<and> (\<exists>t. t \<noteq> [] \<and> dget (secrets sn) (U ''inbound_token'') = Some (VStr t) \<and> h = U ''Bearer '' @ t)"
  proof (cases "secrets_status sn = Valid")
    case True
    have d: "dget_default (secrets sn) (U ''inbound_token'') (VStr []) = VStr t \<Longrightarrow> t \<noteq> [] \<Longrightarrow>
        dget (secrets sn) (U ''inbound_token'') = Some (VStr t)" for t
      by (simp add: dget_default_def split: option.splits)
    show ?thesis
      using True d
      by (cases "dget_default (secrets sn) (U ''inbound_token'') (VStr [])")
        (simp_all add: verify_bearer_token_def inbound_credentials_def trusted_secrets_def)
  next
    case False
    then show ?thesis
      by (simp add: verify_bearer_token_def inbound_credentials_def trusted_secrets_def dget_default_def)
  qed
next
  have "n \<in> set ids \<Longrightarrow> mapE (parse_positive_id f) xs = Inr ids \<Longrightarrow> 0 < n" for f xs ids
    by (induction xs arbitrary: ids) (auto simp: bindE_eq_Inr parse_positive_id_def split: if_splits)
  then have "n \<in> set ids \<Longrightarrow> parse_positive_ids f v = Inr ids \<Longrightarrow> 0 < n" for f v ids
    by (auto simp: parse_positive_ids_def split: pyval.splits)
  then show "is_admin (load_admins sec s) (Some n) \<longleftrightarrow>
        (\<exists>ids. parse_positive_ids ''admin_user_ids'' (dget_default sec (U ''admin_user_ids'') (VList [])) = Inr ids
          \<and> n \<in> set ids)"
    by (auto simp: is_admin_def load_admins_def split: sum.splits)
qed

end
