(* ===== verification/Delivery.thy ===== *)
theory Delivery
  imports Messages Principal
begin

text \<open>
  Delivery receipts (\<^verbatim>\<open>core/delivery.py\<close>) and the loop that sends the physical actions of one logical
  reply (\<^verbatim>\<open>core/app_delivery.py\<close>, \<^verbatim>\<open>_send_action\<close>). \<open>record\<close> is cut at its lock: the critical section that
  decides, and the end of the callback. A transition system runs any number of calls interleaved.
\<close>

named_theorems receipt_simps \<open>equations of the operations of receipts\<close>

section \<open>The receipt\<close>

datatype callback = Commit | Rollback | Unknown

text \<open>\<open>rc_outcome\<close> is read only when \<open>rc_resolved\<close> holds; \<^verbatim>\<open>None\<close> is the unknown outcome.\<close>

record receipt =
  rc_expected :: int
  rc_delivered :: int
  rc_resolved :: bool
  rc_committed :: bool
  rc_outcome :: "bool option"
  rc_error :: "pyerr option"
  rc_handoff :: bool
  rc_ids :: "pyval list"

definition new_receipt :: "int \<Rightarrow> receipt" where
  "new_receipt n = \<lparr>rc_expected = max 1 n, rc_delivered = 0, rc_resolved = False, rc_committed = False,
     rc_outcome = None, rc_error = None, rc_handoff = False, rc_ids = []\<rparr>"

definition defer_to_transport :: "receipt \<Rightarrow> receipt" where
  "defer_to_transport r = r\<lparr>rc_handoff := True\<rparr>"

definition handoff_pending :: "receipt \<Rightarrow> bool" where
  "handoff_pending r \<longleftrightarrow> rc_handoff r \<and> \<not> rc_resolved r"

definition add_message_id :: "pyval \<Rightarrow> receipt \<Rightarrow> receipt" where
  "add_message_id v r =
     (if v = VNone \<or> v = VStr [] then r
      else if \<not> rc_resolved r then r\<lparr>rc_ids := rc_ids r @ [v]\<rparr> else r)"

definition add_expected_actions :: "int \<Rightarrow> receipt \<Rightarrow> receipt" where
  "add_expected_actions n r =
     (if rc_resolved r then r else r\<lparr>rc_expected := rc_expected r + max 0 n\<rparr>)"

text \<open>The critical section of \<open>record\<close>: the new receipt and the callback to run outside the lock.\<close>

definition record_decide :: "pyval \<Rightarrow> receipt \<Rightarrow> pyerr + (receipt \<times> callback option)" where
  "record_decide v r =
     (if rc_resolved r then Inr (r, None)
      else case v of
        VNone \<Rightarrow> Inr (r\<lparr>rc_resolved := True, rc_outcome := None\<rparr>, Some Unknown)
      | VBool b \<Rightarrow>
          (if \<not> b then Inr (r\<lparr>rc_resolved := True, rc_outcome := Some False\<rparr>, Some Rollback)
           else let r1 = r\<lparr>rc_delivered := rc_delivered r + 1\<rparr>
                in if rc_delivered r1 \<ge> rc_expected r1
                   then Inr (r1\<lparr>rc_resolved := True, rc_outcome := Some True\<rparr>, Some Commit)
                   else Inr (r1, None))
      | _ \<Rightarrow> Inl (TypeError ''delivery outcome must be True, False, or None''))"

text \<open>The end of the callback: its exception, or none.\<close>

definition record_finish :: "callback \<Rightarrow> pyerr option \<Rightarrow> receipt \<Rightarrow> receipt" where
  "record_finish cb res r = (case res of
      Some e \<Rightarrow> r\<lparr>rc_error := Some e\<rparr>
    | None \<Rightarrow> if cb = Commit then r\<lparr>rc_committed := True\<rparr> else r)"

text \<open>
  \<open>record\<close> run without a switch of tasks; \<open>run\<close> is what each callback does. The second part of the
  result lists the callbacks that ran.
\<close>

definition record_ack ::
  "(callback \<Rightarrow> pyerr option) \<Rightarrow> pyval \<Rightarrow> receipt \<Rightarrow> pyerr + (receipt \<times> callback list)" where
  "record_ack run v r = bindE (record_decide v r) (\<lambda>(r1, cb).
     case cb of None \<Rightarrow> Inr (r1, []) | Some c \<Rightarrow> Inr (record_finish c (run c) r1, [c]))"

text \<open>The callback an outcome selects.\<close>

definition outcome_callback :: "bool option \<Rightarrow> callback" where
  "outcome_callback out = (case out of None \<Rightarrow> Unknown | Some b \<Rightarrow> if b then Commit else Rollback)"

lemma outcome_callback_simps [simp]:
  "outcome_callback None = Unknown" "outcome_callback (Some True) = Commit"
  "outcome_callback (Some False) = Rollback"
  by (simp_all add: outcome_callback_def)

lemma outcome_callback_inj [simp]: "outcome_callback x = outcome_callback y \<longleftrightarrow> x = y"
  by (auto simp: outcome_callback_def split: option.splits if_splits)

section \<open>Receipts under concurrent calls\<close>

text \<open>
  \<open>rs_running\<close> are the callbacks that have started and not ended, \<open>rs_started\<close> and \<open>rs_ended\<close> the history,
  \<open>rs_acks\<close> the positive acknowledgements since the receipt was made.
\<close>

record receipt_sys =
  rs_receipt :: receipt
  rs_running :: "callback list"
  rs_started :: "callback list"
  rs_ended :: "(callback \<times> pyerr option) list"
  rs_acks :: nat

definition rs_init :: "int \<Rightarrow> receipt_sys" where
  "rs_init n = \<lparr>rs_receipt = new_receipt n, rs_running = [], rs_started = [], rs_ended = [], rs_acks = 0\<rparr>"

definition ack_count :: "pyval \<Rightarrow> nat" where
  "ack_count v = (if v = VBool True then 1 else 0)"

inductive receipt_step :: "receipt_sys \<Rightarrow> receipt_sys \<Rightarrow> bool" where
  ack_quiet: "record_decide v (rs_receipt s) = Inr (r, None) \<Longrightarrow>
    receipt_step s (s\<lparr>rs_receipt := r, rs_acks := rs_acks s + ack_count v\<rparr>)"
| ack_fire: "record_decide v (rs_receipt s) = Inr (r, Some cb) \<Longrightarrow>
    receipt_step s (s\<lparr>rs_receipt := r, rs_running := cb # rs_running s, rs_started := cb # rs_started s,
      rs_acks := rs_acks s + ack_count v\<rparr>)"
| callback_end: "cb \<in> set (rs_running s) \<Longrightarrow>
    receipt_step s (s\<lparr>rs_receipt := record_finish cb res (rs_receipt s),
      rs_running := remove1 cb (rs_running s), rs_ended := (cb, res) # rs_ended s\<rparr>)"
| hand_off: "receipt_step s (s\<lparr>rs_receipt := defer_to_transport (rs_receipt s)\<rparr>)"
| note_id: "receipt_step s (s\<lparr>rs_receipt := add_message_id v (rs_receipt s)\<rparr>)"
| more_actions: "receipt_step s (s\<lparr>rs_receipt := add_expected_actions n (rs_receipt s)\<rparr>)"

inductive_cases receipt_stepE: "receipt_step s s'"

inductive receipt_run :: "receipt_sys \<Rightarrow> receipt_sys \<Rightarrow> bool" where
  run_refl: "receipt_run s s"
| run_step: "receipt_run s s' \<Longrightarrow> receipt_step s' s'' \<Longrightarrow> receipt_run s s''"

lemma record_decide_cases:
  assumes "record_decide v r = Inr (r', cb)"
  obtains (resolved) "rc_resolved r" "r' = r" "cb = None"
    | (unknown) "\<not> rc_resolved r" "v = VNone" "cb = Some Unknown"
        "r' = r\<lparr>rc_resolved := True, rc_outcome := None\<rparr>"
    | (rejected) "\<not> rc_resolved r" "v = VBool False" "cb = Some Rollback"
        "r' = r\<lparr>rc_resolved := True, rc_outcome := Some False\<rparr>"
    | (partial) "\<not> rc_resolved r" "v = VBool True" "cb = None" "rc_delivered r + 1 < rc_expected r"
        "r' = r\<lparr>rc_delivered := rc_delivered r + 1\<rparr>"
    | (complete) "\<not> rc_resolved r" "v = VBool True" "cb = Some Commit"
        "rc_expected r \<le> rc_delivered r + 1"
        "r' = r\<lparr>rc_delivered := rc_delivered r + 1, rc_resolved := True, rc_outcome := Some True\<rparr>"
  using assms
  by (auto simp: record_decide_def Let_def split: if_splits pyval.splits)

text \<open>What holds between any two steps.\<close>

definition receipt_inv :: "receipt_sys \<Rightarrow> bool" where
  "receipt_inv s \<longleftrightarrow> (let r = rs_receipt s in
     rs_started s = (if rc_resolved r then [outcome_callback (rc_outcome r)] else [])
     \<and> (rs_running s = rs_started s \<and> rs_ended s = [] \<and> \<not> rc_committed r \<and> rc_error r = None
        \<or> rs_running s = [] \<and> (\<exists>cb res. rs_started s = [cb] \<and> rs_ended s = [(cb, res)]
            \<and> (rc_committed r \<longleftrightarrow> cb = Commit \<and> res = None) \<and> rc_error r = res))
     \<and> 1 \<le> rc_expected r \<and> rc_delivered r \<le> int (rs_acks s)
     \<and> (rc_resolved r \<longrightarrow> rc_outcome r = Some True \<longrightarrow> rc_expected r \<le> rc_delivered r)
     \<and> (\<not> rc_resolved r \<longrightarrow> rc_delivered r < rc_expected r \<and> rc_delivered r = int (rs_acks s)))"

lemma receipt_inv_init: "receipt_inv (rs_init n)"
  by (auto simp: receipt_inv_def rs_init_def new_receipt_def)

lemma receipt_inv_step:
  assumes "receipt_step s s'" "receipt_inv s"
  shows "receipt_inv s'"
  using assms(1)
proof cases
  case (ack_quiet v r)
  from ack_quiet(2) show ?thesis
    by (cases rule: record_decide_cases)
      (use assms(2) ack_quiet(1) in \<open>auto simp: receipt_inv_def Let_def ack_count_def\<close>)
next
  case (ack_fire v r cb)
  from ack_fire(2) show ?thesis
    by (cases rule: record_decide_cases)
      (use assms(2) ack_fire(1) in \<open>auto simp: receipt_inv_def Let_def ack_count_def\<close>)
next
  case (callback_end cb res)
  then show ?thesis
    using assms(2)
    by (auto simp: receipt_inv_def Let_def record_finish_def split: option.splits if_splits)
next
  case hand_off
  then show ?thesis using assms(2) by (auto simp: receipt_inv_def Let_def defer_to_transport_def)
next
  case (note_id v)
  then show ?thesis using assms(2) by (auto simp: receipt_inv_def Let_def add_message_id_def)
next
  case (more_actions n)
  then show ?thesis using assms(2) by (auto simp: receipt_inv_def Let_def add_expected_actions_def)
qed

lemma receipt_inv_run: "receipt_run s s' \<Longrightarrow> receipt_inv s \<Longrightarrow> receipt_inv s'"
  by (induction rule: receipt_run.induct) (auto intro: receipt_inv_step)

text \<open>A settled receipt keeps everything a callback may read.\<close>

lemma receipt_frozen_step:
  assumes "receipt_step s s'" "rc_resolved (rs_receipt s)"
  shows "rc_resolved (rs_receipt s') \<and> rc_outcome (rs_receipt s') = rc_outcome (rs_receipt s)
    \<and> rc_ids (rs_receipt s') = rc_ids (rs_receipt s)
    \<and> rc_expected (rs_receipt s') = rc_expected (rs_receipt s) \<and> rs_started s' = rs_started s"
  using assms
  by (cases rule: receipt_step.cases)
    (auto simp: record_decide_def record_finish_def defer_to_transport_def add_message_id_def
      add_expected_actions_def split: option.splits)

text \<open>
  C17. In every reachable state of a receipt, however the calls interleave: at most one callback has
  started, it started exactly when the receipt is settled, and it is the one of the outcome; the
  outcome is success only after the expected number of positive acknowledgements; the receipt counts
  as committed exactly when the commit callback ended without an exception.
\<close>

theorem receipt_settles_once:
  assumes "receipt_run (rs_init n) s"
  shows "rs_started s = (if rc_resolved (rs_receipt s) then [outcome_callback (rc_outcome (rs_receipt s))] else [])
    \<and> (rc_resolved (rs_receipt s) \<and> rc_outcome (rs_receipt s) = Some True
        \<longrightarrow> rc_expected (rs_receipt s) \<le> int (rs_acks s))
    \<and> (rc_committed (rs_receipt s) \<longleftrightarrow> rs_ended s = [(Commit, None)])
    \<and> (\<forall>s'. receipt_run s s' \<and> rc_resolved (rs_receipt s)
        \<longrightarrow> rs_started s' = rs_started s \<and> rc_ids (rs_receipt s') = rc_ids (rs_receipt s)
          \<and> rc_outcome (rs_receipt s') = rc_outcome (rs_receipt s))"
proof -
  have inv: "receipt_inv s" using receipt_inv_run [OF assms receipt_inv_init] .
  have frozen: "rc_resolved (rs_receipt s') \<and> rs_started s' = rs_started s
      \<and> rc_ids (rs_receipt s') = rc_ids (rs_receipt s) \<and> rc_outcome (rs_receipt s') = rc_outcome (rs_receipt s)"
    if "receipt_run s s'" "rc_resolved (rs_receipt s)" for s'
    using that by (induction rule: receipt_run.induct) (auto dest: receipt_frozen_step)
  have "rs_started s = (if rc_resolved (rs_receipt s) then [outcome_callback (rc_outcome (rs_receipt s))] else [])"
    using inv by (simp add: receipt_inv_def Let_def)
  moreover have "rc_resolved (rs_receipt s) \<and> rc_outcome (rs_receipt s) = Some True
      \<longrightarrow> rc_expected (rs_receipt s) \<le> int (rs_acks s)"
    using inv by (auto simp: receipt_inv_def Let_def)
  moreover have "rc_committed (rs_receipt s) \<longleftrightarrow> rs_ended s = [(Commit, None)]"
    using inv by (auto simp: receipt_inv_def Let_def split: if_splits)
  ultimately show ?thesis using frozen by blast
qed

theorem receipt_settles_once_witness:
  "\<exists>s :: receipt_sys. receipt_run (rs_init 2) s \<and> rs_started s = [Rollback] \<and> rs_acks s = 1"
proof -
  let ?r1 = "(new_receipt 2)\<lparr>rc_delivered := 1\<rparr>"
  let ?s1 = "(rs_init 2)\<lparr>rs_receipt := ?r1, rs_acks := 1\<rparr>"
  let ?r2 = "?r1\<lparr>rc_resolved := True, rc_outcome := Some False\<rparr>"
  let ?s2 = "?s1\<lparr>rs_receipt := ?r2, rs_running := [Rollback], rs_started := [Rollback]\<rparr>"
  have "record_decide (VBool True) (rs_receipt (rs_init 2)) = Inr (?r1, None)"
    by (simp add: record_decide_def rs_init_def new_receipt_def)
  then have "receipt_step (rs_init 2) ((rs_init 2)\<lparr>rs_receipt := ?r1, rs_acks := rs_acks (rs_init 2) + ack_count (VBool True)\<rparr>)"
    by (rule ack_quiet)
  then have 1: "receipt_step (rs_init 2) ?s1" by (simp add: ack_count_def rs_init_def)
  have "record_decide (VBool False) (rs_receipt ?s1) = Inr (?r2, Some Rollback)"
    by (simp add: record_decide_def rs_init_def new_receipt_def)
  then have "receipt_step ?s1 (?s1\<lparr>rs_receipt := ?r2, rs_running := Rollback # rs_running ?s1,
      rs_started := Rollback # rs_started ?s1, rs_acks := rs_acks ?s1 + ack_count (VBool False)\<rparr>)"
    by (rule ack_fire)
  then have 2: "receipt_step ?s1 ?s2" by (simp add: ack_count_def rs_init_def)
  have run: "receipt_run (rs_init 2) ?s2" using run_step [OF run_step [OF run_refl 1] 2] .
  have "rs_started ?s2 = [Rollback]"
    using receipt_settles_once [OF run] by simp
  then show ?thesis using run by (intro exI [of _ ?s2]) simp
qed

section \<open>Sending the physical actions of one reply\<close>

text \<open>
  What the world does to one physical action: the sleep between two actions is cancelled
  (\<open>p_delay\<close>), the transport answers or raises (\<open>p_send\<close>; the flag tells
  \<^verbatim>\<open>OneBotActionCancelledAfterCommit\<close>), \<open>p_id\<close> is the message id the transport stored, and \<open>p_after\<close> the
  cancellation of the await that follows the answer.
\<close>

record piece =
  p_delay :: "pyerr option"
  p_send :: "(bool \<times> pyerr) + bool option"
  p_id :: pyval
  p_after :: "pyerr option"

record send_state =
  ss_receipt :: "receipt option"
  ss_fired :: "callback list"
  ss_settled :: nat
  ss_any :: bool
  ss_all :: "bool option"

definition ack_value :: "bool option \<Rightarrow> pyval" where
  "ack_value out = (case out of None \<Rightarrow> VNone | Some b \<Rightarrow> VBool b)"

definition settle :: "(callback \<Rightarrow> pyerr option) \<Rightarrow> bool option \<Rightarrow> send_state \<Rightarrow> send_state" where
  "settle run out st = (case ss_receipt st of
      None \<Rightarrow> st
    | Some r \<Rightarrow> (case record_ack run (ack_value out) r of
        Inl _ \<Rightarrow> st
      | Inr (r', cbs) \<Rightarrow> st\<lparr>ss_receipt := Some r', ss_fired := ss_fired st @ cbs\<rparr>))"

text \<open>The outcome of a reply of which nothing more will be sent.\<close>

definition cut_off :: "bool \<Rightarrow> bool option" where
  "cut_off any = (if any then None else Some False)"

definition piece_failed ::
  "(callback \<Rightarrow> pyerr option) \<Rightarrow> bool \<Rightarrow> piece \<Rightarrow> bool \<Rightarrow> pyerr \<Rightarrow> send_state \<Rightarrow> pyerr option \<times> send_state" where
  "piece_failed run tracked p committed e st =
     (if tracked then
        (Some (case p_after p of Some e' \<Rightarrow> e' | None \<Rightarrow> e),
         settle run (cut_off (committed \<or> ss_any st)) (st\<lparr>ss_settled := ss_settled st + 1\<rparr>))
      else (Some e, st))"

definition piece_sent ::
  "(callback \<Rightarrow> pyerr option) \<Rightarrow> bool \<Rightarrow> bool \<Rightarrow> piece \<Rightarrow> bool option \<Rightarrow> send_state \<Rightarrow> pyerr option \<times> send_state" where
  "piece_sent run tracked captured p sent st =
     (let st1 = st\<lparr>ss_settled := ss_settled st + 1\<rparr>;
          st2 = (if tracked then
                   settle run sent
                     (if sent = Some True
                      then st1\<lparr>ss_any := True, ss_receipt := map_option (add_message_id (p_id p)) (ss_receipt st1)\<rparr>
                      else st1)
                 else st1)
      in case (if tracked \<or> sent = Some True \<and> \<not> captured then p_after p else None) of
           Some e \<Rightarrow> (Some e, st2)
         | None \<Rightarrow> (None, st2\<lparr>ss_all := (if sent = Some False then Some False
                                      else if sent = None \<and> ss_all st2 = Some True then None
                                      else ss_all st2)\<rparr>))"

definition send_piece ::
  "(callback \<Rightarrow> pyerr option) \<Rightarrow> bool \<Rightarrow> bool \<Rightarrow> piece \<Rightarrow> send_state \<Rightarrow> pyerr option \<times> send_state" where
  "send_piece run captured first p st =
     (let tracked = (ss_receipt st \<noteq> None \<and> \<not> captured) in
      case (if first then None else p_delay p) of
        Some e \<Rightarrow> piece_failed run tracked p False e st
      | None \<Rightarrow> (case p_send p of
          Inl (committed, e) \<Rightarrow> piece_failed run tracked p committed e st
        | Inr sent \<Rightarrow> piece_sent run tracked captured p sent st))"

fun send_loop ::
  "(callback \<Rightarrow> pyerr option) \<Rightarrow> bool \<Rightarrow> bool \<Rightarrow> piece list \<Rightarrow> send_state \<Rightarrow> pyerr option \<times> send_state" where
  "send_loop run captured first [] st = (None, st)"
| "send_loop run captured first (p # ps) st =
     (case send_piece run captured first p st of
        (Some e, st1) \<Rightarrow> (Some e, st1)
      | (None, st1) \<Rightarrow> send_loop run captured False ps st1)"

text \<open>
  The whole of \<^verbatim>\<open>_send_action\<close>: the receipt first learns how many physical actions there are, and its
  settlement is deferred to the transport. \<open>fin\<close> is a cancellation of the last await.
\<close>

definition prepare_receipt :: "nat \<Rightarrow> receipt \<Rightarrow> receipt" where
  "prepare_receipt n r = (if n > 1 then add_expected_actions (int n - 1) r else r)"

definition send_action ::
  "(callback \<Rightarrow> pyerr option) \<Rightarrow> bool \<Rightarrow> pyerr option \<Rightarrow> piece list \<Rightarrow> receipt option
     \<Rightarrow> (pyerr + bool option) \<times> send_state" where
  "send_action run captured fin ps r =
     (let r0 = map_option (\<lambda>r. defer_to_transport (prepare_receipt (length ps) r)) r;
          (err, st) = send_loop run captured True ps
             \<lparr>ss_receipt = r0, ss_fired = [], ss_settled = 0, ss_any = False, ss_all = Some True\<rparr>;
          cut = (r0 \<noteq> None \<and> \<not> captured \<and> ss_settled st < length ps);
          st1 = (if cut then settle run (cut_off (ss_any st)) st else st)
      in (case (if cut then fin else None) of
            Some e \<Rightarrow> Inl e
          | None \<Rightarrow> (case err of Some e \<Rightarrow> Inl e | None \<Rightarrow> Inr (ss_all st)), st1))"

section \<open>What one reply comes to\<close>

text \<open>The outcome the receipt should get, read off the answers of the transport alone.\<close>

fun reply_outcome :: "bool \<Rightarrow> bool \<Rightarrow> piece list \<Rightarrow> bool option" where
  "reply_outcome first any [] = Some True"
| "reply_outcome first any (p # ps) =
     (if \<not> first \<and> p_delay p \<noteq> None then cut_off any
      else case p_send p of
        Inl (committed, _) \<Rightarrow> cut_off (committed \<or> any)
      | Inr None \<Rightarrow> None
      | Inr (Some False) \<Rightarrow> Some False
      | Inr (Some True) \<Rightarrow> if p_after p \<noteq> None \<and> ps \<noteq> [] then None else reply_outcome False True ps)"

text \<open>A receipt that still expects \<open>n\<close> acknowledgements, and one that is settled with an outcome.\<close>

definition open_for :: "nat \<Rightarrow> send_state \<Rightarrow> bool" where
  "open_for n st \<longleftrightarrow> (\<exists>r. ss_receipt st = Some r \<and> \<not> rc_resolved r \<and> rc_expected r = rc_delivered r + int n)
     \<and> ss_fired st = []"

definition settled_as :: "bool option \<Rightarrow> send_state \<Rightarrow> bool" where
  "settled_as out st \<longleftrightarrow> (\<exists>r. ss_receipt st = Some r \<and> rc_resolved r \<and> rc_outcome r = out)
     \<and> ss_fired st = [outcome_callback out]"

lemma record_finish_simps [simp]:
  "rc_resolved (record_finish cb res r) = rc_resolved r"
  "rc_outcome (record_finish cb res r) = rc_outcome r"
  "rc_expected (record_finish cb res r) = rc_expected r"
  "rc_delivered (record_finish cb res r) = rc_delivered r"
  "rc_handoff (record_finish cb res r) = rc_handoff r"
  by (simp_all add: record_finish_def split: option.split)

lemma add_message_id_simps [simp]:
  "rc_resolved (add_message_id v r) = rc_resolved r"
  "rc_outcome (add_message_id v r) = rc_outcome r"
  "rc_expected (add_message_id v r) = rc_expected r"
  "rc_delivered (add_message_id v r) = rc_delivered r"
  "rc_handoff (add_message_id v r) = rc_handoff r"
  by (simp_all add: add_message_id_def)

lemma settle_fields [simp]:
  "ss_settled (settle run out st) = ss_settled st"
  "ss_any (settle run out st) = ss_any st"
  "ss_all (settle run out st) = ss_all st"
  "ss_receipt (settle run out st) = None \<longleftrightarrow> ss_receipt st = None"
  by (auto simp: settle_def split: option.splits sum.splits)

lemma settle_again: "settled_as out st \<Longrightarrow> settle run out' st = st"
  by (auto simp: settled_as_def settle_def record_ack_def record_decide_def)

lemma settle_negative:
  assumes "open_for n st" "out \<noteq> Some True"
  shows "settled_as out (settle run out st)"
  using assms
  by (auto simp: open_for_def settled_as_def settle_def record_ack_def record_decide_def ack_value_def
      split: option.splits)

lemma settle_last:
  assumes "open_for 1 st"
  shows "settled_as (Some True) (settle run (Some True) st)"
  using assms
  by (auto simp: open_for_def settled_as_def settle_def record_ack_def record_decide_def ack_value_def Let_def)

lemma settle_more:
  assumes "open_for (Suc n) st" "0 < n"
  shows "open_for n (settle run (Some True) st)"
  using assms
  by (auto simp: open_for_def settle_def record_ack_def record_decide_def ack_value_def Let_def)

lemma open_for_upd [simp]:
  "open_for n (st\<lparr>ss_settled := k\<rparr>) = open_for n st"
  "open_for n (st\<lparr>ss_any := b\<rparr>) = open_for n st"
  "open_for n (st\<lparr>ss_all := c\<rparr>) = open_for n st"
  by (simp_all add: open_for_def)

lemma settled_as_upd [simp]:
  "settled_as out (st\<lparr>ss_settled := k\<rparr>) = settled_as out st"
  "settled_as out (st\<lparr>ss_any := b\<rparr>) = settled_as out st"
  "settled_as out (st\<lparr>ss_all := c\<rparr>) = settled_as out st"
  by (simp_all add: settled_as_def)

lemma open_for_id:
  "open_for n st \<Longrightarrow> open_for n (st\<lparr>ss_any := b, ss_receipt := map_option (add_message_id v) (ss_receipt st)\<rparr>)"
  by (auto simp: open_for_def)

lemma settled_note_id:
  "settled_as out st \<Longrightarrow>
    settled_as out (st\<lparr>ss_any := b, ss_receipt := map_option (add_message_id v) (ss_receipt st)\<rparr>)"
  by (auto simp: settled_as_def)

lemma settled_note_settle:
  assumes "settled_as out st" "ss_receipt st = Some r"
  shows "settled_as out (settle run out' (st\<lparr>ss_settled := k, ss_any := b,
    ss_receipt := Some (add_message_id v r)\<rparr>))"
proof -
  have "settled_as out (st\<lparr>ss_settled := k, ss_any := b, ss_receipt := Some (add_message_id v r)\<rparr>)"
    using assms by (auto simp: settled_as_def)
  then show ?thesis using settle_again by simp
qed

lemma settled_piece: "settled_as out st \<Longrightarrow> settled_as out (snd (send_piece run captured first p st))"
  by (auto simp: send_piece_def piece_failed_def piece_sent_def Let_def settle_again settled_note_settle
      split: option.split sum.split)

lemma settled_loop: "settled_as out st \<Longrightarrow> settled_as out (snd (send_loop run captured first ps st))"
proof (induction ps arbitrary: first st)
  case (Cons p ps)
  obtain err st1 where p: "send_piece run captured first p st = (err, st1)" by fastforce
  have "settled_as out st1" using settled_piece [OF Cons.prems, of run captured first p] p by simp
  then show ?case using Cons.IH p by (cases err) simp_all
qed simp

lemma open_receipt: "open_for n st \<Longrightarrow> ss_receipt st \<noteq> None"
  by (auto simp: open_for_def)

text \<open>One physical action of a reply whose receipt is still open.\<close>

lemma open_piece_failed:
  assumes "open_for n st"
  shows "settled_as (cut_off (c \<or> ss_any st)) (snd (piece_failed run True p c e st))"
  using assms settle_negative [of n "st\<lparr>ss_settled := Suc (ss_settled st)\<rparr>" "cut_off (c \<or> ss_any st)" run]
  by (simp add: piece_failed_def cut_off_def)

lemma open_piece_negative:
  assumes "open_for n st" "sent \<noteq> Some True"
  shows "settled_as sent (snd (piece_sent run True False p sent st))"
  using settle_negative [of n "st\<lparr>ss_settled := Suc (ss_settled st)\<rparr>" sent run] assms
  by (auto simp: piece_sent_def Let_def split: option.split)

definition after_true :: "(callback \<Rightarrow> pyerr option) \<Rightarrow> piece \<Rightarrow> send_state \<Rightarrow> send_state" where
  "after_true run p st = settle run (Some True)
     (st\<lparr>ss_settled := Suc (ss_settled st), ss_any := True,
       ss_receipt := map_option (add_message_id (p_id p)) (ss_receipt st)\<rparr>)"

lemma piece_sent_true:
  "piece_sent run True False p (Some True) st = (p_after p, after_true run p st)"
proof -
  have "(after_true run p st)\<lparr>ss_all := ss_all (after_true run p st)\<rparr> = after_true run p st" by simp
  then show ?thesis
    by (auto simp: piece_sent_def Let_def after_true_def split: option.split)
qed

lemma after_true_fields [simp]:
  "ss_any (after_true run p st)" "ss_settled (after_true run p st) = Suc (ss_settled st)"
  by (simp_all add: after_true_def)

lemma after_true_last: "open_for 1 st \<Longrightarrow> settled_as (Some True) (after_true run p st)"
  unfolding after_true_def by (rule settle_last) (auto simp: open_for_def)

lemma after_true_more: "open_for (Suc n) st \<Longrightarrow> 0 < n \<Longrightarrow> open_for n (after_true run p st)"
  unfolding after_true_def by (rule settle_more) (auto simp: open_for_def)

text \<open>
  The loop over the physical actions: either the receipt is settled with the outcome of the reply, or
  an await was cancelled after an accepted action and actions remain.
\<close>

lemma send_loop_open:
  assumes "open_for (length ps) st" "ps \<noteq> []"
    and "send_loop run False first ps st = (err, st')"
  shows "settled_as (reply_outcome first (ss_any st) ps) st'
    \<or> (reply_outcome first (ss_any st) ps = None \<and> ss_any st' \<and> (\<exists>n. open_for n st')
        \<and> ss_settled st' < ss_settled st + length ps)"
  using assms
proof (induction ps arbitrary: first st)
  case (Cons p ps)
  have rc: "ss_receipt st \<noteq> None" using Cons.prems(1) by (rule open_receipt)
  have finished: "settled_as out st'" if "settled_as out (snd (send_piece run False first p st))" for out
  proof -
    obtain err1 st1 where p: "send_piece run False first p st = (err1, st1)" by fastforce
    then have s: "settled_as out st1" using that by simp
    show ?thesis
      using Cons.prems(3) p s settled_loop [OF s, of run False False ps] by (cases err1) auto
  qed
  show ?case
  proof (cases "\<not> first \<and> p_delay p \<noteq> None")
    case True
    then obtain e where e: "p_delay p = Some e" by auto
    then have "send_piece run False first p st = piece_failed run True p False e st"
      using True rc by (simp add: send_piece_def)
    then have "settled_as (cut_off (ss_any st)) st'"
      using open_piece_failed [OF Cons.prems(1), of False run p e] finished by simp
    then show ?thesis using True by simp
  next
    case False
    then have d: "(if first then None else p_delay p) = None" by auto
    show ?thesis
    proof (cases "p_send p")
      case (Inl ce)
      obtain c e where ce: "ce = (c, e)" by fastforce
      have "send_piece run False first p st = piece_failed run True p c e st"
        using d Inl ce rc by (simp add: send_piece_def)
      then have "settled_as (cut_off (c \<or> ss_any st)) st'"
        using open_piece_failed [OF Cons.prems(1), of c run p e] finished by simp
      then show ?thesis using False Inl ce by auto
    next
      case (Inr sent)
      have sp: "send_piece run False first p st = piece_sent run True False p sent st"
        using d Inr rc by (simp add: send_piece_def)
      show ?thesis
      proof (cases "sent = Some True")
        case neg: False
        then have "settled_as sent st'"
          using open_piece_negative [OF Cons.prems(1) neg] sp finished by simp
        then show ?thesis using False Inr neg by (cases sent) auto
      next
        case pos: True
        have sp': "send_piece run False first p st = (p_after p, after_true run p st)"
          using sp pos piece_sent_true by simp
        show ?thesis
        proof (cases "ps = []")
          case True
          then have "settled_as (Some True) (after_true run p st)"
            using Cons.prems(1) after_true_last by simp
          then show ?thesis using finished sp' True False Inr pos by auto
        next
          case more: False
          then have op: "open_for (length ps) (after_true run p st)"
            using Cons.prems(1) by (intro after_true_more) auto
          show ?thesis
          proof (cases "p_after p")
            case (Some e)
            then have "st' = after_true run p st" using Cons.prems(3) sp' by simp
            then show ?thesis using op more Some False Inr pos by auto
          next
            case None
            then have "send_loop run False False ps (after_true run p st) = (err, st')"
              using Cons.prems(3) sp' by simp
            from Cons.IH [OF op more this] show ?thesis
              using None False Inr pos by auto
          qed
        qed
      qed
    qed
  qed
qed simp

lemma send_loop_all:
  assumes "send_loop run captured first ps st = (None, st')"
  shows "ss_all st' = Some True \<longleftrightarrow> ss_all st = Some True \<and> (\<forall>p\<in>set ps. p_send p = Inr (Some True))"
  using assms
proof (induction ps arbitrary: first st)
  case (Cons p ps)
  obtain st1 where p: "send_piece run captured first p st = (None, st1)"
    and l: "send_loop run captured False ps st1 = (None, st')"
    using Cons.prems by (auto split: prod.splits option.splits)
  have "ss_all st1 = Some True \<longleftrightarrow> ss_all st = Some True \<and> p_send p = Inr (Some True)"
    using p
    by (auto simp: send_piece_def piece_failed_def piece_sent_def Let_def
        split: option.splits sum.splits prod.splits if_splits)
  then show ?case using Cons.IH [OF l] by auto
qed simp

lemma send_loop_settled:
  assumes "send_loop run captured first ps st = (None, st')"
  shows "ss_settled st' = ss_settled st + length ps"
  using assms
proof (induction ps arbitrary: first st)
  case (Cons p ps)
  obtain st1 where p: "send_piece run captured first p st = (None, st1)"
    and l: "send_loop run captured False ps st1 = (None, st')"
    using Cons.prems by (auto split: prod.splits option.splits)
  have "ss_settled st1 = Suc (ss_settled st)"
    using p
    by (auto simp: send_piece_def piece_failed_def piece_sent_def Let_def
        split: option.splits sum.splits prod.splits if_splits)
  then show ?case using Cons.IH [OF l] by auto
qed simp

lemma reply_outcome_commit:
  "reply_outcome first any ps = Some True \<Longrightarrow> p \<in> set ps \<Longrightarrow> p_send p = Inr (Some True)"
  by (induction first any ps rule: reply_outcome.induct)
    (auto simp: cut_off_def split: if_splits sum.splits option.splits bool.splits)

lemma reply_outcome_rollback_any:
  "reply_outcome first True ps = Some False \<Longrightarrow> \<exists>p\<in>set ps. p_send p = Inr (Some False)"
  by (induction ps arbitrary: first)
    (auto simp: cut_off_def split: if_splits sum.splits option.splits bool.splits)

lemma reply_outcome_rollback:
  "reply_outcome True False ps = Some False \<Longrightarrow>
    (\<exists>p\<in>set ps. p_send p = Inr (Some False)) \<or> (\<exists>e. p_send (hd ps) = Inl (False, e))"
  by (cases ps) (auto simp: cut_off_def split: if_splits sum.splits option.splits bool.splits
      dest: reply_outcome_rollback_any)

lemma prepared_open:
  assumes "\<not> rc_resolved r" "rc_delivered r = 0" "rc_expected r = 1" "ps \<noteq> []"
  shows "open_for (length ps) \<lparr>ss_receipt = Some (defer_to_transport (prepare_receipt (length ps) r)),
    ss_fired = [], ss_settled = 0, ss_any = False, ss_all = Some True\<rparr>"
  using assms
  by (cases ps) (auto simp: open_for_def prepare_receipt_def add_expected_actions_def defer_to_transport_def)

lemma send_action_settled_as:
  assumes r: "\<not> rc_resolved r" "rc_delivered r = 0" "rc_expected r = 1" and ps: "ps \<noteq> []"
    and send: "send_action run False fin ps (Some r) = (res, st)"
  shows "settled_as (reply_outcome True False ps) st"
proof -
  let ?start = "\<lparr>ss_receipt = Some (defer_to_transport (prepare_receipt (length ps) r)),
    ss_fired = [], ss_settled = 0, ss_any = False, ss_all = Some True\<rparr>"
  obtain err st1 where l: "send_loop run False True ps ?start = (err, st1)" by fastforce
  let ?st = "if ss_settled st1 < length ps then settle run (cut_off (ss_any st1)) st1 else st1"
  have st: "st = ?st" using send l by (simp add: send_action_def Let_def)
  from send_loop_open [OF prepared_open [OF r ps] ps l]
  show ?thesis
  proof
    assume "settled_as (reply_outcome True (ss_any ?start) ps) st1"
    then show ?thesis using st settle_again by simp
  next
    assume a: "reply_outcome True (ss_any ?start) ps = None \<and> ss_any st1 \<and> (\<exists>n. open_for n st1)
      \<and> ss_settled st1 < ss_settled ?start + length ps"
    then obtain n where "open_for n st1" by blast
    then have "settled_as None (settle run None st1)" by (rule settle_negative) simp
    then show ?thesis using a st by (simp add: cut_off_def)
  qed
qed

lemma send_action_normal:
  assumes "send_action run captured fin ps r = (Inr sent, st)"
  shows "sent = Some True \<longleftrightarrow> (\<forall>p\<in>set ps. p_send p = Inr (Some True))"
proof -
  let ?prep = "map_option (\<lambda>r. defer_to_transport (prepare_receipt (length ps) r)) r"
  let ?start = "\<lparr>ss_receipt = ?prep, ss_fired = [], ss_settled = 0, ss_any = False, ss_all = Some True\<rparr>"
  obtain err st1 where l: "send_loop run captured True ps ?start = (err, st1)" by fastforce
  have "err = None"
    using assms l by (cases err) (auto simp: send_action_def Let_def split: if_splits option.splits)
  then have "send_loop run captured True ps ?start = (None, st1)" using l by simp
  note s = send_loop_settled [OF this] send_loop_all [OF this]
  have "sent = ss_all st1"
    using assms l \<open>err = None\<close> s(1) by (auto simp: send_action_def Let_def)
  then show ?thesis using s(2) by auto
qed

text \<open>
  A reply sent by the core with a receipt of its own is always settled, exactly one callback runs
  and its outcome is the one read off the answers of the transport, whatever is cancelled on the way:
  the state is committed only when every physical action was accepted, rolled back only when the
  transport refused an action or the first one failed before it was written, and a normal return
  reports success exactly when every action was accepted.
\<close>

lemma send_action_settles:
  assumes "\<not> rc_resolved r" "rc_delivered r = 0" "rc_expected r = 1" "ps \<noteq> []"
    and "send_action run False fin ps (Some r) = (res, st)"
  shows "(\<exists>r'. ss_receipt st = Some r' \<and> rc_resolved r' \<and> rc_outcome r' = reply_outcome True False ps
      \<and> ss_fired st = [outcome_callback (rc_outcome r')]
      \<and> (rc_outcome r' = Some True \<longrightarrow> (\<forall>p\<in>set ps. p_send p = Inr (Some True)))
      \<and> (rc_outcome r' = Some False \<longrightarrow> (\<exists>p\<in>set ps. p_send p = Inr (Some False))
          \<or> (\<exists>e. p_send (hd ps) = Inl (False, e))))
    \<and> (\<forall>sent. res = Inr sent \<longrightarrow> (sent = Some True \<longleftrightarrow> (\<forall>p\<in>set ps. p_send p = Inr (Some True))))"
proof -
  have "settled_as (reply_outcome True False ps) st"
    using assms by (rule send_action_settled_as)
  moreover have "sent = Some True \<longleftrightarrow> (\<forall>p\<in>set ps. p_send p = Inr (Some True))" if "res = Inr sent" for sent
    using assms(5) that send_action_normal by blast
  moreover note reply_outcome_commit [of True False ps] reply_outcome_rollback [of ps]
  ultimately show ?thesis unfolding settled_as_def by metis
qed

definition demo_piece :: "bool option \<Rightarrow> piece" where
  "demo_piece out = \<lparr>p_delay = None, p_send = Inr out, p_id = VInt 7, p_after = None\<rparr>"

text \<open>
  A reply of which one action was accepted and a later one refused is rolled back, although a part
  of it was delivered.
\<close>

lemma send_action_partial_rollback:
  "\<exists>st r'. send_action run False None [demo_piece (Some True), demo_piece (Some False)] (Some (new_receipt 1))
      = (Inr (Some False), st)
    \<and> ss_receipt st = Some r' \<and> rc_outcome r' = Some False \<and> rc_ids r' = [VInt 7] \<and> ss_fired st = [Rollback]"
  by (auto simp: send_action_def demo_piece_def send_piece_def piece_sent_def settle_def record_ack_def
      record_decide_def record_finish_def ack_value_def new_receipt_def prepare_receipt_def add_expected_actions_def
      defer_to_transport_def add_message_id_def Let_def split: option.split)

section \<open>Actions that carry a receipt\<close>

text \<open>
  An action is a dictionary; the value under the key of the receipt is the receipt object, a forged
  value of another type is not one.
\<close>

datatype 'r field = Plain pyval | Receipt 'r

definition receipt_key :: ustr where
  "receipt_key = U ''_delivery_receipt''"

definition sensitive_key :: ustr where
  "sensitive_key = U ''_sensitive_action''"

type_synonym 'r action = "(ustr, 'r field) dict"

definition receipt_from_action :: "'r action \<Rightarrow> 'r option" where
  "receipt_from_action a = (case dget a receipt_key of Some (Receipt r) \<Rightarrow> Some r | _ \<Rightarrow> None)"

definition attach_receipt :: "'r action \<Rightarrow> 'r \<Rightarrow> 'r action" where
  "attach_receipt a r = dset receipt_key (Receipt r) a"

definition strip_receipt :: "'r action \<Rightarrow> 'r action" where
  "strip_receipt a = filter (\<lambda>(k, v). k \<notin> {receipt_key, sensitive_key}) a"

definition send_with_receipt ::
  "(receipt \<Rightarrow> (pyerr + bool option) \<times> receipt \<times> callback list) \<Rightarrow> (callback \<Rightarrow> pyerr option) \<Rightarrow> receipt \<Rightarrow> (pyerr + bool option) \<times> receipt \<times> callback list" where
  "send_with_receipt send run r = (case send r of
      (Inl e, r', fired) \<Rightarrow> (Inl e, r', fired)
    | (Inr out, r', fired) \<Rightarrow>
        (if \<not> rc_resolved r' \<and> \<not> handoff_pending r' then
           (case record_ack run (ack_value out) r' of
              Inl e \<Rightarrow> (Inl e, r', fired)
            | Inr (r'', cbs) \<Rightarrow> (Inr out, r'', fired @ cbs))
         else (Inr out, r', fired)))"

text \<open>
  A sender takes an open receipt and promises that the callbacks it ran are those of the outcome.
  \<open>send_with_receipt\<close> relies on that alone.
\<close>

locale reply_sender =
  fixes send :: "receipt \<Rightarrow> (pyerr + bool option) \<times> receipt \<times> callback list"
  assumes fires: "\<not> rc_resolved r \<Longrightarrow> send r = (res, r', fired) \<Longrightarrow>
    fired = (if rc_resolved r' then [outcome_callback (rc_outcome r')] else [])"
begin

lemma send_with_once:
  assumes "\<not> rc_resolved r" "send_with_receipt send run r = (res, r', fired)"
  shows "fired = (if rc_resolved r' then [outcome_callback (rc_outcome r')] else [])"
proof -
  obtain res1 r1 f1 where s: "send r = (res1, r1, f1)" by (metis prod_cases3)
  note f1 = fires [OF assms(1) s]
  show ?thesis
    using assms(2) s f1
    by (cases res1)
      (auto simp: send_with_receipt_def record_ack_def record_decide_def Let_def ack_value_def
        split: if_splits option.splits sum.splits)
qed

end


text \<open>\<^verbatim>\<open>_send_action\<close> is such a sender, with or without a sink that captures the actions.\<close>

definition core_sender ::
  "(callback \<Rightarrow> pyerr option) \<Rightarrow> bool \<Rightarrow> pyerr option \<Rightarrow> piece list \<Rightarrow> receipt
     \<Rightarrow> (pyerr + bool option) \<times> receipt \<times> callback list" where
  "core_sender run captured fin ps r =
     (let (res, st) = send_action run captured fin ps (Some r)
      in (res, (case ss_receipt st of Some r' \<Rightarrow> r' | None \<Rightarrow> r), ss_fired st))"

definition sound_state :: "send_state \<Rightarrow> bool" where
  "sound_state st \<longleftrightarrow> (\<exists>r. ss_receipt st = Some r
     \<and> ss_fired st = (if rc_resolved r then [outcome_callback (rc_outcome r)] else []))"

lemma sound_settle: "sound_state st \<Longrightarrow> sound_state (settle run out st)"
  by (auto simp: sound_state_def settle_def record_ack_def record_decide_def ack_value_def Let_def
      split: option.splits)

lemma sound_upd [simp]:
  "sound_state (st\<lparr>ss_settled := k\<rparr>) = sound_state st"
  "sound_state (st\<lparr>ss_any := b\<rparr>) = sound_state st"
  "sound_state (st\<lparr>ss_all := c\<rparr>) = sound_state st"
  by (simp_all add: sound_state_def)

lemma sound_note:
  "sound_state st \<Longrightarrow> sound_state (st\<lparr>ss_settled := k, ss_any := b,
    ss_receipt := map_option (add_message_id v) (ss_receipt st)\<rparr>)"
  by (auto simp: sound_state_def)

lemma sound_piece_failed:
  "sound_state st \<Longrightarrow> sound_state (snd (piece_failed run tracked p c e st))"
  by (simp add: piece_failed_def sound_settle)

lemma sound_piece_sent:
  assumes "sound_state st"
  shows "sound_state (snd (piece_sent run tracked captured p sent st))"
proof -
  have "sound_state (settle run sent (if sent = Some True
      then st\<lparr>ss_settled := Suc (ss_settled st), ss_any := True,
        ss_receipt := map_option (add_message_id (p_id p)) (ss_receipt st)\<rparr>
      else st\<lparr>ss_settled := Suc (ss_settled st)\<rparr>))"
    using assms by (intro sound_settle) (simp add: sound_note)
  then show ?thesis
    using assms by (auto simp: piece_sent_def Let_def split: option.split)
qed

lemma sound_piece: "sound_state st \<Longrightarrow> sound_state (snd (send_piece run captured first p st))"
  by (auto simp: send_piece_def Let_def sound_piece_failed sound_piece_sent split: option.split sum.split)

lemma sound_loop: "sound_state st \<Longrightarrow> sound_state (snd (send_loop run captured first ps st))"
proof (induction ps arbitrary: first st)
  case (Cons p ps)
  obtain err st1 where p: "send_piece run captured first p st = (err, st1)" by fastforce
  have "sound_state st1" using sound_piece [OF Cons.prems, of run captured first p] p by simp
  then show ?case using Cons.IH p by (cases err) simp_all
qed simp

lemma prepare_resolved [simp]: "rc_resolved (prepare_receipt n r) = rc_resolved r"
  by (simp add: prepare_receipt_def add_expected_actions_def)

lemma defer_resolved [simp]: "rc_resolved (defer_to_transport r) = rc_resolved r"
  by (simp add: defer_to_transport_def)

interpretation core: reply_sender "core_sender run captured fin ps"
proof
  fix r res r' fired
  assume r: "\<not> rc_resolved r" and s: "core_sender run captured fin ps r = (res, r', fired)"
  let ?start = "\<lparr>ss_receipt = Some (defer_to_transport (prepare_receipt (length ps) r)),
    ss_fired = [], ss_settled = 0, ss_any = False, ss_all = Some True\<rparr>"
  obtain err st1 where l: "send_loop run captured True ps ?start = (err, st1)" by fastforce
  have "sound_state ?start" using r by (simp add: sound_state_def)
  then have "sound_state st1" using sound_loop l by (metis snd_conv)
  then have "sound_state (snd (send_action run captured fin ps (Some r)))"
    using l by (simp add: send_action_def Let_def sound_settle)
  then show "fired = (if rc_resolved r' then [outcome_callback (rc_outcome r')] else [])"
    using s by (auto simp: core_sender_def sound_state_def Let_def split: prod.splits)
qed

text \<open>
  A plugin that sends through \<open>send_with_receipt\<close> never has its receipt settled twice, and never
  with a callback that does not belong to the outcome, whether the core sends the action at once or a
  sink captures it.
\<close>

lemma send_with_receipt_once:
  assumes "\<not> rc_resolved r"
    and "send_with_receipt (core_sender run captured fin ps) run r = (res, r', fired)"
  shows "fired = (if rc_resolved r' then [outcome_callback (rc_outcome r')] else [])"
  using assms by (rule core.send_with_once)

text \<open>
  Handing an action to another transport removes the process-internal fields and records the result.
\<close>

definition resolve_action_handoff ::
  "(callback \<Rightarrow> pyerr option) \<Rightarrow> receipt action \<Rightarrow> pyval \<Rightarrow> pyerr + (receipt action \<times> receipt option \<times> callback list)" where
  "resolve_action_handoff run a v =
     (let clean = strip_receipt a in
      case receipt_from_action a of
        None \<Rightarrow> Inr (clean, None, [])
      | Some r \<Rightarrow> bindE (record_ack run v r) (\<lambda>(r', cbs). Inr (clean, Some r', cbs)))"

lemma strip_receipt_clean:
  "dget (strip_receipt a) receipt_key = None" "dget (strip_receipt a) sensitive_key = None"
  by (auto simp: strip_receipt_def map_of_eq_None_iff)

lemma receipt_from_attach: "receipt_from_action (attach_receipt a r) = Some r"
  by (simp add: receipt_from_action_def attach_receipt_def)

section \<open>Scheduled deliveries and command outcomes\<close>

datatype outcome_state = Completed | Accepted | ErrorState | Incomplete

record command_outcome =
  co_state :: outcome_state
  co_next_command :: ustr
  co_result_text :: ustr
  co_has_more :: "bool option"
  co_page :: "int option"

text \<open>A list of segments with a receipt and the outcome of a command.\<close>

record delivery_segments =
  ds_values :: "pydict list"
  ds_receipt :: "receipt option"
  ds_outcome :: "command_outcome option"

record scheduled_delivery =
  sd_target :: target
  sd_message :: "pydict list"
  sd_receipt :: "receipt option"

definition make_scheduled :: "target \<Rightarrow> pyval list \<Rightarrow> receipt option \<Rightarrow> pyerr + scheduled_delivery" where
  "make_scheduled tgt message r =
     bindE (validate_message_segments message) (\<lambda>segs.
       if segs = [] then Inl (ValueError ''scheduled delivery message must not be empty'')
       else Inr \<lparr>sd_target = tgt, sd_message = segs, sd_receipt = r\<rparr>)"

definition scheduled_group :: "pyval \<Rightarrow> pyval list \<Rightarrow> receipt option \<Rightarrow> pyerr + scheduled_delivery" where
  "scheduled_group group_id message r =
     bindE (make_target (VStr (U ''group'')) group_id) (\<lambda>tgt. make_scheduled tgt message r)"

definition scheduled_private :: "pyval \<Rightarrow> pyval list \<Rightarrow> receipt option \<Rightarrow> pyerr + scheduled_delivery" where
  "scheduled_private user_id message r =
     bindE (make_target (VStr (U ''private'')) user_id) (\<lambda>tgt. make_scheduled tgt message r)"

end
