(* ===== verification/Admission.thy ===== *)
theory Admission
  imports Prelude
begin

text \<open>
  The contract of a pool of slots that is handed out to callers who queue for it, and the adjustable
  semaphore of the dispatcher (\<^verbatim>\<open>core/dispatcher.py\<close>, \<^verbatim>\<open>AdjustableSemaphore\<close>) that fulfils it. The gates
  of the plugins fulfil it as well (theory \<^verbatim>\<open>Exec_Gate\<close>).
\<close>

section \<open>The contract\<close>

text \<open>Runs of a system together with the greatest capacity it had on the way.\<close>

inductive capacity_run :: "('s \<Rightarrow> 's \<Rightarrow> bool) \<Rightarrow> ('s \<Rightarrow> int) \<Rightarrow> 's \<Rightarrow> 's \<Rightarrow> int \<Rightarrow> bool"
  for step cap where
  cr_start: "capacity_run step cap s s (cap s)"
| cr_step: "capacity_run step cap s s' m \<Longrightarrow> step s' s'' \<Longrightarrow> capacity_run step cap s s'' (max m (cap s''))"

text \<open>
  \<open>used\<close> is the number of slots handed out, \<open>stalled\<close> tells that a caller waits that nobody has told to
  go on.
\<close>

locale slots =
  fixes step :: "'s \<Rightarrow> 's \<Rightarrow> bool"
    and inv :: "'s \<Rightarrow> bool"
    and used :: "'s \<Rightarrow> int"
    and cap :: "'s \<Rightarrow> int"
    and stalled :: "'s \<Rightarrow> bool"
  assumes inv_step: "inv s \<Longrightarrow> step s s' \<Longrightarrow> inv s'"
    and grant_bounded: "inv s \<Longrightarrow> step s s' \<Longrightarrow> used s < used s' \<Longrightarrow> used s' \<le> cap s'"
    and no_stall: "inv s \<Longrightarrow> stalled s \<Longrightarrow> cap s \<le> used s"
begin

lemma run_inv: "capacity_run step cap s s' m \<Longrightarrow> inv s \<Longrightarrow> inv s'"
  by (induction rule: capacity_run.induct) (auto intro: inv_step)

lemma run_used_bounded:
  assumes "capacity_run step cap s s' m" "inv s" "used s \<le> cap s"
  shows "used s' \<le> m"
  using assms
proof (induction rule: capacity_run.induct)
  case (cr_step s s' m s'')
  have "inv s'" using cr_step.hyps(1) cr_step.prems(1) by (rule run_inv)
  then have "used s'' \<le> used s' \<or> used s'' \<le> cap s''"
    using grant_bounded cr_step.hyps(2) by (meson not_le_imp_less)
  then show ?case using cr_step.IH [OF cr_step.prems] by auto
qed simp

lemma run_no_stall: "capacity_run step cap s s' m \<Longrightarrow> inv s \<Longrightarrow> stalled s' \<Longrightarrow> cap s' \<le> used s'"
  by (rule no_stall [OF run_inv])

end

section \<open>The adjustable semaphore\<close>

text \<open>A future of the event loop: not done, done with a result, or cancelled.\<close>

datatype fstate = FPending | FDone | FCancelled

type_synonym wid = nat

record semaphore =
  sem_capacity :: int
  sem_in_use :: int
  sem_waiters :: "wid list"
  sem_futures :: "wid \<Rightarrow> fstate"

definition validate_capacity :: "int \<Rightarrow> pyerr + int" where
  "validate_capacity c =
     (if c \<le> 0 then Inl (ValueError ''dispatcher capacity must be a positive integer'') else Inr c)"

definition new_semaphore :: "int \<Rightarrow> pyerr + semaphore" where
  "new_semaphore c = bindE (validate_capacity c) (\<lambda>c.
     Inr \<lparr>sem_capacity = c, sem_in_use = 0, sem_waiters = [], sem_futures = (\<lambda>_. FPending)\<rparr>)"

definition sem_locked :: "semaphore \<Rightarrow> bool" where
  "sem_locked s \<longleftrightarrow> sem_in_use s \<ge> sem_capacity s"

definition over_capacity :: "semaphore \<Rightarrow> bool" where
  "over_capacity s \<longleftrightarrow> sem_in_use s > sem_capacity s"

text \<open>\<^verbatim>\<open>_wake_waiters\<close>, as a recursion over the queue it empties from the front.\<close>

fun wake_loop :: "wid list \<Rightarrow> semaphore \<Rightarrow> semaphore" where
  "wake_loop [] s = s\<lparr>sem_waiters := []\<rparr>"
| "wake_loop (w # ws) s =
     (if sem_in_use s < sem_capacity s then
        (if sem_futures s w \<noteq> FPending then wake_loop ws s
         else wake_loop ws (s\<lparr>sem_in_use := sem_in_use s + 1, sem_futures := (sem_futures s)(w := FDone)\<rparr>))
      else s\<lparr>sem_waiters := w # ws\<rparr>)"

definition wake_waiters :: "semaphore \<Rightarrow> semaphore" where
  "wake_waiters s = wake_loop (sem_waiters s) s"

definition sem_resize :: "int \<Rightarrow> semaphore \<Rightarrow> pyerr + semaphore" where
  "sem_resize c s = bindE (validate_capacity c) (\<lambda>c.
     if c = sem_capacity s then Inr s
     else let s1 = s\<lparr>sem_capacity := c\<rparr>
          in Inr (if c > sem_capacity s then wake_waiters s1 else s1))"

text \<open>
  \<open>acquire\<close> up to its suspension: the slot at once, or a new future \<open>w\<close> in the queue. Then the end of the
  suspended call: it returns, or an exception is thrown into it.
\<close>

definition sem_acquire :: "wid \<Rightarrow> semaphore \<Rightarrow> bool \<times> semaphore" where
  "sem_acquire w s =
     (if sem_waiters s = [] \<and> sem_in_use s < sem_capacity s
      then (True, s\<lparr>sem_in_use := sem_in_use s + 1\<rparr>)
      else (False, wake_waiters (s\<lparr>sem_waiters := sem_waiters s @ [w],
                                   sem_futures := (sem_futures s)(w := FPending)\<rparr>)))"

definition sem_abandon :: "wid \<Rightarrow> semaphore \<Rightarrow> semaphore" where
  "sem_abandon w s =
     (let reserved = (sem_futures s w = FDone);
          s1 = (if sem_futures s w = FPending then s\<lparr>sem_futures := (sem_futures s)(w := FCancelled)\<rparr> else s);
          s2 = s1\<lparr>sem_waiters := remove1 w (sem_waiters s1)\<rparr>;
          s3 = (if reserved then s2\<lparr>sem_in_use := sem_in_use s2 - 1\<rparr> else s2)
      in wake_waiters s3)"

definition sem_release :: "semaphore \<Rightarrow> pyerr + semaphore" where
  "sem_release s =
     (if sem_in_use s \<le> 0 then Inl (ValueError ''AdjustableSemaphore released too many times'')
      else Inr (wake_waiters (s\<lparr>sem_in_use := sem_in_use s - 1\<rparr>)))"

section \<open>The semaphore under concurrent callers\<close>

text \<open>
  \<open>sy_pending\<close> are the futures of the suspended calls of \<open>acquire\<close>, \<open>sy_holders\<close> the number of bodies of
  \<^verbatim>\<open>async with\<close> that run. \<open>cancel\<close> is the cancellation of a suspended task: the loop cancels the future
  it waits for when that is not done; the exception arrives later (\<open>abandon\<close>).
\<close>

record sem_sys =
  sy_sem :: semaphore
  sy_pending :: "wid set"
  sy_next :: wid
  sy_holders :: nat

inductive sem_step :: "sem_sys \<Rightarrow> sem_sys \<Rightarrow> bool" where
  acquire_now: "sem_acquire (sy_next s) (sy_sem s) = (True, q) \<Longrightarrow>
    sem_step s (s\<lparr>sy_sem := q, sy_holders := sy_holders s + 1\<rparr>)"
| acquire_wait: "sem_acquire (sy_next s) (sy_sem s) = (False, q) \<Longrightarrow>
    sem_step s (s\<lparr>sy_sem := q, sy_pending := insert (sy_next s) (sy_pending s), sy_next := sy_next s + 1\<rparr>)"
| acquired: "w \<in> sy_pending s \<Longrightarrow> sem_futures (sy_sem s) w = FDone \<Longrightarrow>
    sem_step s (s\<lparr>sy_pending := sy_pending s - {w}, sy_holders := sy_holders s + 1\<rparr>)"
| cancel: "w \<in> sy_pending s \<Longrightarrow> sem_futures (sy_sem s) w = FPending \<Longrightarrow>
    sem_step s (s\<lparr>sy_sem := (sy_sem s)\<lparr>sem_futures := (sem_futures (sy_sem s))(w := FCancelled)\<rparr>\<rparr>)"
| abandon: "w \<in> sy_pending s \<Longrightarrow>
    sem_step s (s\<lparr>sy_sem := sem_abandon w (sy_sem s), sy_pending := sy_pending s - {w}\<rparr>)"
| release: "0 < sy_holders s \<Longrightarrow> sem_release (sy_sem s) = Inr q \<Longrightarrow>
    sem_step s (s\<lparr>sy_sem := q, sy_holders := sy_holders s - 1\<rparr>)"
| resize: "sem_resize c (sy_sem s) = Inr q \<Longrightarrow> sem_step s (s\<lparr>sy_sem := q\<rparr>)"

inductive_cases sem_stepE: "sem_step s s'"

definition sem_granted :: "sem_sys \<Rightarrow> wid set" where
  "sem_granted s = {w \<in> sy_pending s. sem_futures (sy_sem s) w = FDone}"

definition sem_stalled :: "sem_sys \<Rightarrow> bool" where
  "sem_stalled s \<longleftrightarrow> (\<exists>w\<in>sy_pending s. sem_futures (sy_sem s) w = FPending)"

text \<open>
  Between two steps the slots in use are those of the bodies and of the callers that were told to go
  on; who waits is in the queue, and nobody waits while a slot is free.
\<close>

definition sem_core :: "wid set \<Rightarrow> nat \<Rightarrow> semaphore \<Rightarrow> bool" where
  "sem_core pend h q \<longleftrightarrow> finite pend \<and> distinct (sem_waiters q) \<and> set (sem_waiters q) \<subseteq> pend
     \<and> (\<forall>w\<in>set (sem_waiters q). sem_futures q w \<noteq> FDone)
     \<and> (\<forall>w\<in>pend. sem_futures q w = FPending \<longrightarrow> w \<in> set (sem_waiters q))
     \<and> sem_in_use q = int h + int (card {w \<in> pend. sem_futures q w = FDone})
     \<and> 0 < sem_capacity q"

definition sem_inv :: "sem_sys \<Rightarrow> bool" where
  "sem_inv s \<longleftrightarrow> sem_core (sy_pending s) (sy_holders s) (sy_sem s)
     \<and> (\<forall>w\<in>sy_pending s. w < sy_next s)
     \<and> (sem_stalled s \<longrightarrow> sem_capacity (sy_sem s) \<le> sem_in_use (sy_sem s))"

lemma card_done_update:
  assumes "finite P" "w \<in> P" "f w \<noteq> FDone"
  shows "card {v \<in> P. (f(w := FDone)) v = FDone} = Suc (card {v \<in> P. f v = FDone})"
proof -
  have "{v \<in> P. (f(w := FDone)) v = FDone} = insert w {v \<in> P. f v = FDone}" using assms by auto
  then show ?thesis using assms by simp
qed

lemma card_done_keep:
  assumes "f w \<noteq> FDone" "x \<noteq> FDone"
  shows "{v \<in> P. (f(w := x)) v = FDone} = {v \<in> P. f v = FDone}"
  using assms by auto

lemma wake_loop_frame: "sem_capacity (wake_loop ws s) = sem_capacity s"
  by (induction ws s rule: wake_loop.induct) auto

text \<open>Waking hands the free slots to the front of the queue.\<close>

lemma wake_loop_core:
  assumes "sem_core pend h (s\<lparr>sem_waiters := ws\<rparr>)"
  shows "sem_core pend h (wake_loop ws s)
    \<and> (sem_waiters (wake_loop ws s) = [] \<or> sem_capacity s \<le> sem_in_use (wake_loop ws s))
    \<and> (sem_in_use (wake_loop ws s) = sem_in_use s
        \<or> sem_in_use s < sem_in_use (wake_loop ws s) \<and> sem_in_use (wake_loop ws s) \<le> sem_capacity s)"
  using assms
proof (induction ws s rule: wake_loop.induct)
  case (2 w ws s)
  show ?case
  proof (cases "sem_in_use s < sem_capacity s")
    case free: True
    show ?thesis
    proof (cases "sem_futures s w = FPending")
      case True
      let ?s = "s\<lparr>sem_in_use := sem_in_use s + 1, sem_futures := (sem_futures s)(w := FDone)\<rparr>"
      have w: "w \<in> pend" "finite pend" using 2(3) by (auto simp: sem_core_def)
      have "sem_core pend h (?s\<lparr>sem_waiters := ws\<rparr>)"
        using 2(3) True card_done_update [of pend w "sem_futures s"] w by (auto simp: sem_core_def)
      from 2(2) [OF free _ this] True free show ?thesis by auto
    next
      case False
      have "sem_core pend h (s\<lparr>sem_waiters := ws\<rparr>)"
        using 2(3) False by (auto simp: sem_core_def)
      from 2(1) [OF free False this] False free show ?thesis by simp
    qed
  qed (use 2(3) in auto)
qed auto

lemma wake_core:
  assumes "sem_core pend h s"
  shows "sem_core pend h (wake_waiters s)"
    "sem_waiters (wake_waiters s) = [] \<or> sem_capacity s \<le> sem_in_use (wake_waiters s)"
    "sem_in_use (wake_waiters s) = sem_in_use s
      \<or> sem_in_use s < sem_in_use (wake_waiters s) \<and> sem_in_use (wake_waiters s) \<le> sem_capacity s"
    "sem_capacity (wake_waiters s) = sem_capacity s"
  using wake_loop_core [where pend = pend and h = h and s = s and ws = "sem_waiters s"] assms
  by (simp_all add: wake_waiters_def wake_loop_frame)

lemma wake_no_stall:
  assumes "sem_core pend h s" "w \<in> pend" "sem_futures (wake_waiters s) w = FPending"
  shows "sem_capacity (wake_waiters s) \<le> sem_in_use (wake_waiters s)"
proof -
  have "w \<in> set (sem_waiters (wake_waiters s))"
    using wake_core(1) [OF assms(1)] assms(2,3) by (auto simp: sem_core_def)
  then show ?thesis using wake_core(2,4) [OF assms(1)] by auto
qed

lemma sem_core_init: "new_semaphore c = Inr q \<Longrightarrow> sem_core {} 0 q"
  by (auto simp: new_semaphore_def validate_capacity_def sem_core_def split: if_splits)

definition sem_init :: "semaphore \<Rightarrow> sem_sys" where
  "sem_init q = \<lparr>sy_sem = q, sy_pending = {}, sy_next = 0, sy_holders = 0\<rparr>"

lemma sem_inv_init: "new_semaphore c = Inr q \<Longrightarrow> sem_inv (sem_init q)"
  using sem_core_init by (auto simp: sem_inv_def sem_init_def sem_stalled_def)

text \<open>A step that ends with a call of \<open>wake_waiters\<close> on a sound semaphore keeps the invariant.\<close>

lemma sem_inv_wake:
  assumes "sy_sem s = wake_waiters q" "sem_core (sy_pending s) (sy_holders s) q"
    "\<forall>w\<in>sy_pending s. w < sy_next s"
  shows "sem_inv s"
  using wake_core(1) [OF assms(2)] wake_no_stall [OF assms(2)] assms(1,3)
  by (auto simp: sem_inv_def sem_stalled_def)

lemma acquire_core:
  assumes "sem_core pend h q" "w \<notin> pend"
  shows "sem_core (insert w pend) h (q\<lparr>sem_waiters := sem_waiters q @ [w], sem_futures := (sem_futures q)(w := FPending)\<rparr>)"
proof -
  have "{v \<in> insert w pend. ((sem_futures q)(w := FPending)) v = FDone} = {v \<in> pend. sem_futures q v = FDone}"
    using assms(2) by auto
  then show ?thesis using assms by (auto simp: sem_core_def)
qed

lemma abandon_core:
  assumes c: "sem_core pend h q" and w: "w \<in> pend"
  defines "q1 \<equiv> (if sem_futures q w = FPending then q\<lparr>sem_futures := (sem_futures q)(w := FCancelled)\<rparr> else q)"
  defines "q2 \<equiv> q1\<lparr>sem_waiters := remove1 w (sem_waiters q1)\<rparr>"
  shows "sem_core (pend - {w}) h (if sem_futures q w = FDone then q2\<lparr>sem_in_use := sem_in_use q2 - 1\<rparr> else q2)"
proof -
  let ?D = "{v \<in> pend. sem_futures q v = FDone}"
  have fin: "finite ?D" "finite pend" using c by (auto simp: sem_core_def)
  have D: "{v \<in> pend - {w}. sem_futures q1 v = FDone} = ?D - {w}" by (auto simp: q1_def)
  have "card (?D - {w}) = (if sem_futures q w = FDone then card ?D - 1 else card ?D)"
    using w fin by auto
  moreover have "sem_futures q w = FDone \<Longrightarrow> 0 < card ?D" using w fin by (auto simp: card_gt_0_iff)
  ultimately have cnt: "int (card {v \<in> pend - {w}. sem_futures q1 v = FDone})
      = int (card ?D) - (if sem_futures q w = FDone then 1 else 0)"
    unfolding D by auto
  have ws: "sem_waiters q1 = sem_waiters q" "sem_in_use q1 = sem_in_use q" "sem_capacity q1 = sem_capacity q"
    by (simp_all add: q1_def)
  have fu: "sem_futures q1 v = sem_futures q v" if "v \<noteq> w" for v
    using that by (simp add: q1_def)
  show ?thesis
    using c cnt fu ws unfolding sem_core_def q2_def by (auto dest: in_set_remove1 [THEN iffD2])
qed

lemma sem_inv_step:
  assumes "sem_step s s'" "sem_inv s"
  shows "sem_inv s'"
  using assms(1)
proof cases
  case (acquire_now q)
  then have "sem_waiters (sy_sem s) = []" "q = (sy_sem s)\<lparr>sem_in_use := sem_in_use (sy_sem s) + 1\<rparr>"
    by (auto simp: sem_acquire_def split: if_splits)
  then show ?thesis
    using acquire_now(1) assms(2) by (auto simp: sem_inv_def sem_core_def sem_stalled_def)
next
  case (acquire_wait q)
  let ?q = "(sy_sem s)\<lparr>sem_waiters := sem_waiters (sy_sem s) @ [sy_next s],
    sem_futures := (sem_futures (sy_sem s))(sy_next s := FPending)\<rparr>"
  have q: "q = wake_waiters ?q" using acquire_wait(2) by (auto simp: sem_acquire_def split: if_splits)
  have new: "sy_next s \<notin> sy_pending s" using assms(2) by (auto simp: sem_inv_def)
  have "sem_core (insert (sy_next s) (sy_pending s)) (sy_holders s) ?q"
    by (rule acquire_core) (use assms(2) new in \<open>auto simp: sem_inv_def\<close>)
  then show ?thesis
    using acquire_wait(1) q assms(2) by (intro sem_inv_wake [of s' ?q]) (auto simp: sem_inv_def less_SucI)
next
  case (acquired w)
  have D: "{v \<in> sy_pending s - {w}. sem_futures (sy_sem s) v = FDone}
      = {v \<in> sy_pending s. sem_futures (sy_sem s) v = FDone} - {w}" by auto
  have "finite (sy_pending s)" using assms(2) by (simp add: sem_inv_def sem_core_def)
  then have "card {v \<in> sy_pending s. sem_futures (sy_sem s) v = FDone}
      = Suc (card {v \<in> sy_pending s - {w}. sem_futures (sy_sem s) v = FDone})"
    unfolding D using acquired(2,3) by (subst card_Suc_Diff1) auto
  then show ?thesis
    using acquired assms(2) by (auto simp: sem_inv_def sem_core_def sem_stalled_def)
next
  case (cancel w)
  have "{v \<in> sy_pending s. ((sem_futures (sy_sem s))(w := FCancelled)) v = FDone}
      = {v \<in> sy_pending s. sem_futures (sy_sem s) v = FDone}"
    using cancel(3) by (intro card_done_keep) auto
  then show ?thesis
    using cancel assms(2) by (auto simp: sem_inv_def sem_core_def sem_stalled_def split: if_splits)
next
  case (abandon w)
  have "sem_core (sy_pending s) (sy_holders s) (sy_sem s)" using assms(2) by (simp add: sem_inv_def)
  note c = abandon_core [OF this abandon(2)]
  define q where "q = (let reserved = (sem_futures (sy_sem s) w = FDone);
      s1 = (if sem_futures (sy_sem s) w = FPending
            then (sy_sem s)\<lparr>sem_futures := (sem_futures (sy_sem s))(w := FCancelled)\<rparr> else sy_sem s);
      s2 = s1\<lparr>sem_waiters := remove1 w (sem_waiters s1)\<rparr>
    in if reserved then s2\<lparr>sem_in_use := sem_in_use s2 - 1\<rparr> else s2)"
  have "sy_sem s' = wake_waiters q" using abandon(1) by (simp add: sem_abandon_def q_def Let_def)
  moreover have "sem_core (sy_pending s') (sy_holders s') q"
    using c abandon(1) by (simp add: q_def Let_def)
  moreover have "\<forall>v\<in>sy_pending s'. v < sy_next s'" using abandon(1) assms(2) by (simp add: sem_inv_def)
  ultimately show ?thesis by (rule sem_inv_wake)
next
  case (release q)
  let ?q = "(sy_sem s)\<lparr>sem_in_use := sem_in_use (sy_sem s) - 1\<rparr>"
  have q: "q = wake_waiters ?q" using release(3) by (auto simp: sem_release_def split: if_splits)
  have "sem_core (sy_pending s) (sy_holders s - 1) ?q"
    using assms(2) release(2) by (auto simp: sem_inv_def sem_core_def)
  then show ?thesis
    using release(1) q assms(2) by (intro sem_inv_wake [of s' ?q]) (auto simp: sem_inv_def)
next
  case (resize c q)
  let ?q = "(sy_sem s)\<lparr>sem_capacity := c\<rparr>"
  have c: "0 < c" and q: "q = (if c = sem_capacity (sy_sem s) then sy_sem s
      else if c > sem_capacity (sy_sem s) then wake_waiters ?q else ?q)"
    using resize(2) by (auto simp: sem_resize_def validate_capacity_def bindE_eq_Inr Let_def split: if_splits)
  have core: "sem_core (sy_pending s) (sy_holders s) ?q"
    using assms(2) c by (auto simp: sem_inv_def sem_core_def)
  consider "c = sem_capacity (sy_sem s)" | "c > sem_capacity (sy_sem s)" | "c < sem_capacity (sy_sem s)" by linarith
  then show ?thesis
  proof cases
    case 1 then show ?thesis using resize(1) q assms(2) by simp
  next
    case 2
    then show ?thesis
      using core resize(1) q assms(2) by (intro sem_inv_wake [of s' ?q]) (auto simp: sem_inv_def)
  next
    case 3
    then show ?thesis using resize(1) q core assms(2) by (auto simp: sem_inv_def sem_stalled_def)
  qed
qed

text \<open>Every step that wakes does it on a semaphore with at most the slots in use before.\<close>

lemma sem_grant_bounded:
  assumes "sem_inv s" "sem_step s s'" "sem_in_use (sy_sem s) < sem_in_use (sy_sem s')"
  shows "sem_in_use (sy_sem s') \<le> sem_capacity (sy_sem s')"
proof -
  have inv': "sem_inv s'" using sem_inv_step assms(1,2) by blast
  have wake: "sem_in_use (wake_waiters q) \<le> sem_capacity (wake_waiters q)"
    if "sem_core pend h q" "sem_in_use q < sem_in_use (wake_waiters q)" for pend h q
    using wake_core(3,4) [OF that(1)] that(2) by auto
  have core: "sem_core (sy_pending s) (sy_holders s) (sy_sem s)" using assms(1) by (simp add: sem_inv_def)
  from assms(2) show ?thesis
  proof cases
    case (acquire_now q)
    then show ?thesis by (auto simp: sem_acquire_def split: if_splits)
  next
    case (acquire_wait q)
    have new: "sy_next s \<notin> sy_pending s" using assms(1) by (auto simp: sem_inv_def)
    from acquire_wait wake [OF acquire_core [OF core new]] assms(3) show ?thesis
      by (auto simp: sem_acquire_def split: if_splits)
  next
    case (abandon w)
    from abandon(1) wake [OF abandon_core [OF core abandon(2)]] assms(3) show ?thesis
      by (auto simp: sem_abandon_def Let_def split: if_splits)
  next
    case (release q)
    let ?q = "(sy_sem s)\<lparr>sem_in_use := sem_in_use (sy_sem s) - 1\<rparr>"
    have "q = wake_waiters ?q" using release(3) by (auto simp: sem_release_def split: if_splits)
    moreover have "sem_core (sy_pending s) (sy_holders s - 1) ?q"
      using core release(2) by (auto simp: sem_core_def)
    ultimately show ?thesis using wake release(1) assms(3) by force
  next
    case (resize c q)
    let ?q = "(sy_sem s)\<lparr>sem_capacity := c\<rparr>"
    have c: "0 < c" and q: "q = sy_sem s \<or> q = wake_waiters ?q \<or> q = ?q"
      using resize(2) by (auto simp: sem_resize_def validate_capacity_def bindE_eq_Inr Let_def split: if_splits)
    have "sem_core (sy_pending s) (sy_holders s) ?q" using core c by (auto simp: sem_core_def)
    then show ?thesis using wake q resize(1) assms(3) by auto
  qed (use assms(3) in auto)
qed

interpretation sem: slots sem_step sem_inv "\<lambda>s. sem_in_use (sy_sem s)" "\<lambda>s. sem_capacity (sy_sem s)" sem_stalled
proof unfold_locales
  show "sem_inv s \<Longrightarrow> sem_step s s' \<Longrightarrow> sem_inv s'" for s s' by (rule sem_inv_step)
qed (rule sem_grant_bounded, assumption+, simp add: sem_inv_def)

lemma sem_init_used: "new_semaphore c = Inr q \<Longrightarrow>
    sem_in_use (sy_sem (sem_init q)) \<le> sem_capacity (sy_sem (sem_init q))"
  by (auto simp: new_semaphore_def validate_capacity_def sem_init_def split: if_splits)

abbreviation sem_runs :: "semaphore \<Rightarrow> sem_sys \<Rightarrow> int \<Rightarrow> bool" where
  "sem_runs q \<equiv> capacity_run sem_step (\<lambda>s. sem_capacity (sy_sem s)) (sem_init q)"

text \<open>
  C11. However callers acquire, release and are cancelled, and however the capacity is changed on the
  way: no more bodies run at once than the greatest capacity configured so far, no slot is lost (the
  slots in use are those of the bodies and of the callers already told to go on), and no caller waits
  while a slot is free.
\<close>

theorem semaphore_capacity:
  assumes "new_semaphore c = Inr q" "sem_runs q s m"
  shows "int (sy_holders s) \<le> m
    \<and> sem_in_use (sy_sem s) = int (sy_holders s) + int (card (sem_granted s))
    \<and> ((\<exists>w\<in>sy_pending s. sem_futures (sy_sem s) w = FPending)
        \<longrightarrow> sem_capacity (sy_sem s) \<le> sem_in_use (sy_sem s))"
proof -
  note inv0 = sem_inv_init [OF assms(1)]
  have inv: "sem_inv s" using sem.run_inv [OF assms(2) inv0] .
  have "sem_in_use (sy_sem s) \<le> m"
    by (rule sem.run_used_bounded [OF assms(2) inv0 sem_init_used [OF assms(1)]])
  moreover have eq: "sem_in_use (sy_sem s) = int (sy_holders s) + int (card (sem_granted s))"
    using inv by (simp add: sem_inv_def sem_core_def sem_granted_def)
  ultimately have "int (sy_holders s) \<le> m" by linarith
  then show ?thesis
    using eq sem.run_no_stall [OF assms(2) inv0] by (auto simp: sem_stalled_def)
qed

theorem semaphore_capacity_witness:
  "\<exists>(q :: semaphore) s m. sem_runs q s m \<and> int (sy_holders s) \<le> m \<and> sy_holders s = 1"
proof -
  let ?q = "\<lparr>sem_capacity = 1, sem_in_use = 0, sem_waiters = [], sem_futures = (\<lambda>_. FPending)\<rparr>"
  have new: "new_semaphore 1 = Inr ?q" by (simp add: new_semaphore_def validate_capacity_def)
  have "sem_acquire (sy_next (sem_init ?q)) (sy_sem (sem_init ?q)) = (True, ?q\<lparr>sem_in_use := 1\<rparr>)"
    by (simp add: sem_acquire_def sem_init_def)
  from acquire_now [OF this]
  have st: "sem_step (sem_init ?q) ((sem_init ?q)\<lparr>sy_sem := ?q\<lparr>sem_in_use := 1\<rparr>, sy_holders := sy_holders (sem_init ?q) + 1\<rparr>)" .
  let ?s = "(sem_init ?q)\<lparr>sy_sem := ?q\<lparr>sem_in_use := 1\<rparr>, sy_holders := sy_holders (sem_init ?q) + 1\<rparr>"
  have "\<exists>m. sem_runs ?q ?s m" using cr_step [where step = sem_step, OF cr_start] st by blast
  then obtain m where r: "sem_runs ?q ?s m" by blast
  have "int (sy_holders ?s) \<le> m" using semaphore_capacity [OF new r] by blast
  moreover have "sy_holders ?s = 1" by (simp add: sem_init_def)
  ultimately show ?thesis using r by blast
qed

subsection \<open>First come, first served\<close>

definition ahead :: "'a list \<Rightarrow> 'a \<Rightarrow> 'a \<Rightarrow> bool" where
  "ahead xs a b \<longleftrightarrow> (\<exists>ys zs. xs = ys @ a # zs \<and> b \<in> set zs)"

lemma ahead_append: "ahead xs a b \<Longrightarrow> ahead (xs @ ys) a b"
  by (auto simp: ahead_def) (metis Un_iff append.assoc append_Cons set_append)

lemma ahead_remove1:
  assumes "ahead xs a b" "a \<noteq> c" "b \<noteq> c"
  shows "ahead (remove1 c xs) a b"
proof -
  obtain ys zs where xs: "xs = ys @ a # zs" "b \<in> set zs" using assms(1) by (auto simp: ahead_def)
  show ?thesis
  proof (cases "c \<in> set ys")
    case True
    then show ?thesis using xs by (auto simp: ahead_def remove1_append)
  next
    case False
    then have "remove1 c xs = ys @ a # remove1 c zs" using xs assms(2) by (simp add: remove1_append)
    moreover have "b \<in> set (remove1 c zs)" using xs(2) assms(3) by (simp add: in_set_remove1)
    ultimately show ?thesis unfolding ahead_def by blast
  qed
qed

lemma ahead_suffix:
  assumes "ahead (pre @ suf) a b" "distinct (pre @ suf)" "a \<in> set suf"
  shows "b \<in> set suf"
proof -
  obtain ys zs where e: "pre @ suf = ys @ a # zs" "b \<in> set zs" using assms(1) by (auto simp: ahead_def)
  from e(1) obtain us where "pre = ys @ us \<and> us @ suf = a # zs \<or> pre @ us = ys \<and> suf = us @ a # zs"
    by (auto simp: append_eq_append_conv2)
  then show ?thesis
  proof
    assume u: "pre = ys @ us \<and> us @ suf = a # zs"
    show ?thesis
    proof (cases us)
      case (Cons v vs)
      then have "a \<in> set pre" using u by simp
      then show ?thesis using assms(2,3) by auto
    qed (use u e(2) in simp)
  qed (use e(2) in simp)
qed

lemma wake_suffix: "\<exists>pre. sem_waiters s = pre @ sem_waiters (wake_waiters s)"
proof -
  have "\<exists>pre. ws = pre @ sem_waiters (wake_loop ws s)" for ws
    by (induction ws s rule: wake_loop.induct) (auto, (metis append_Cons)+)
  then show ?thesis by (simp add: wake_waiters_def)
qed


lemma sem_queue_order:
  assumes "sem_inv s" "sem_step s s'" "ahead (sem_waiters (sy_sem s)) a b"
    and "a \<in> sy_pending s'" "b \<in> sy_pending s'"
  shows "\<exists>pre. ahead (pre @ sem_waiters (sy_sem s')) a b \<and> distinct (pre @ sem_waiters (sy_sem s'))"
proof -
  have d: "distinct (sem_waiters (sy_sem s))" and sub: "set (sem_waiters (sy_sem s)) \<subseteq> sy_pending s"
    using assms(1) by (auto simp: sem_inv_def sem_core_def)
  have woken: ?thesis if "sy_sem s' = wake_waiters q" "ahead (sem_waiters q) a b" "distinct (sem_waiters q)" for q
    using wake_suffix [of q] that by metis
  have same: ?thesis if "sem_waiters (sy_sem s') = sem_waiters (sy_sem s)"
    using that assms(3) d by (intro exI [of _ "[]"]) simp
  from assms(2) show ?thesis
  proof cases
    case (acquire_now q)
    then show ?thesis by (intro same) (auto simp: sem_acquire_def split: if_splits)
  next
    case (acquire_wait q)
    then have "sy_next s \<notin> sy_pending s" using assms(1) by (auto simp: sem_inv_def)
    then have "distinct (sem_waiters (sy_sem s) @ [sy_next s])" using d sub by auto
    then show ?thesis
      using acquire_wait ahead_append [OF assms(3), of "[sy_next s]"]
      by (intro woken [of "(sy_sem s)\<lparr>sem_waiters := sem_waiters (sy_sem s) @ [sy_next s],
          sem_futures := (sem_futures (sy_sem s))(sy_next s := FPending)\<rparr>"])
        (auto simp: sem_acquire_def split: if_splits)
  next
    case (abandon w)
    have "a \<noteq> w" "b \<noteq> w" using assms(4,5) abandon(1) by auto
    then have "ahead (remove1 w (sem_waiters (sy_sem s))) a b" using assms(3) by (intro ahead_remove1)
    then show ?thesis
      using abandon(1) d by (intro woken [of "(if sem_futures (sy_sem s) w = FDone then (\<lambda>q. q\<lparr>sem_in_use := sem_in_use q - 1\<rparr>) else (\<lambda>q. q))
          ((if sem_futures (sy_sem s) w = FPending
            then (sy_sem s)\<lparr>sem_futures := (sem_futures (sy_sem s))(w := FCancelled)\<rparr> else sy_sem s)
           \<lparr>sem_waiters := remove1 w (sem_waiters (sy_sem s))\<rparr>)"])
        (auto simp: sem_abandon_def Let_def)
  next
    case (release q)
    then show ?thesis
      using assms(3) d by (intro woken [of "(sy_sem s)\<lparr>sem_in_use := sem_in_use (sy_sem s) - 1\<rparr>"])
        (auto simp: sem_release_def split: if_splits)
  next
    case (resize c q)
    let ?q = "(sy_sem s)\<lparr>sem_capacity := c\<rparr>"
    have "q = sy_sem s \<or> q = wake_waiters ?q \<or> q = ?q"
      using resize(2) by (auto simp: sem_resize_def validate_capacity_def bindE_eq_Inr Let_def split: if_splits)
    then show ?thesis
      using resize(1) assms(3) d same woken [of ?q] by auto
  next
    case (acquired w)
    then show ?thesis by (intro same) simp
  next
    case (cancel w)
    then show ?thesis by (intro same) simp
  qed
qed

text \<open>
  Slots are handed out in the order of arrival: a step that tells a caller to go on leaves no
  caller waiting that arrived before it.
\<close>

lemma semaphore_fifo:
  assumes "new_semaphore c = Inr q" "sem_runs q s m" "sem_step s s'"
    and "ahead (sem_waiters (sy_sem s)) a b" "a \<in> sy_pending s'" "b \<in> sy_pending s'"
    and "sem_futures (sy_sem s') b = FDone"
  shows "sem_futures (sy_sem s') a \<noteq> FPending"
proof
  assume a: "sem_futures (sy_sem s') a = FPending"
  have inv: "sem_inv s" using sem.run_inv [OF assms(2) sem_inv_init [OF assms(1)]] .
  have core: "sem_core (sy_pending s') (sy_holders s') (sy_sem s')"
    using sem_inv_step [OF assms(3) inv] by (simp add: sem_inv_def)
  obtain pre where "ahead (pre @ sem_waiters (sy_sem s')) a b" "distinct (pre @ sem_waiters (sy_sem s'))"
    using sem_queue_order [OF inv assms(3-6)] by blast
  moreover have "a \<in> set (sem_waiters (sy_sem s'))" using core a assms(5) by (auto simp: sem_core_def)
  ultimately have "b \<in> set (sem_waiters (sy_sem s'))" by (rule ahead_suffix)
  then show False using core assms(7) by (auto simp: sem_core_def)
qed


text \<open>Three callers of a semaphore with one slot, and then two slots more.\<close>

definition sem_demo :: "int \<Rightarrow> int \<Rightarrow> wid list \<Rightarrow> (wid \<Rightarrow> fstate) \<Rightarrow> wid set \<Rightarrow> sem_sys" where
  "sem_demo c u ws f pend = \<lparr>sy_sem = \<lparr>sem_capacity = c, sem_in_use = u, sem_waiters = ws, sem_futures = f\<rparr>,
     sy_pending = pend, sy_next = length ws, sy_holders = 1\<rparr>"

lemma sem_demo_run:
  assumes "q = \<lparr>sem_capacity = 1, sem_in_use = 0, sem_waiters = [], sem_futures = (\<lambda>_. FPending)\<rparr>"
  shows "\<exists>m. sem_runs q (sem_demo 1 1 [0, 1] (\<lambda>_. FPending) {0, 1}) m"
proof -
  let ?f = "\<lambda>_ :: wid. FPending"
  have f: "?f(x := FPending) = ?f" for x by auto
  have acq: "sem_acquire 0 q = (True, q\<lparr>sem_in_use := 1\<rparr>)" using assms by (simp add: sem_acquire_def)
  have 1: "sem_step (sem_init q) (sem_demo 1 1 [] ?f {})"
    using acquire_now [of "sem_init q", unfolded sem_init_def sem_sys.simps, OF acq] assms
    by (simp add: sem_demo_def sem_init_def)
  have w: "sem_acquire (length ws) \<lparr>sem_capacity = 1, sem_in_use = 1, sem_waiters = ws, sem_futures = ?f\<rparr>
      = (False, \<lparr>sem_capacity = 1, sem_in_use = 1, sem_waiters = ws @ [length ws], sem_futures = ?f\<rparr>)"
    if "ws = [] \<or> ws = [0]" for ws
    using that f by (auto simp: sem_acquire_def wake_waiters_def)
  have 2: "sem_step (sem_demo 1 1 [] ?f {}) (sem_demo 1 1 [0] ?f {0})"
    using acquire_wait [of "sem_demo 1 1 [] ?f {}", unfolded sem_demo_def sem_sys.simps, OF w]
    by (simp add: sem_demo_def)
  have 3: "sem_step (sem_demo 1 1 [0] ?f {0}) (sem_demo 1 1 [0, 1] ?f {0, 1})"
    using acquire_wait [of "sem_demo 1 1 [0] ?f {0}", unfolded sem_demo_def sem_sys.simps, OF w]
    by (simp add: sem_demo_def insert_commute)
  obtain m1 where "sem_runs q (sem_demo 1 1 [] ?f {}) m1"
    using cr_step [where step = sem_step, OF cr_start 1] by blast
  from cr_step [where step = sem_step, OF this 2] obtain m2 where "sem_runs q (sem_demo 1 1 [0] ?f {0}) m2" by blast
  from cr_step [where step = sem_step, OF this 3] show ?thesis by blast
qed

end
