(* ===== verification/Exec_Policy.thy ===== *)
theory Exec_Policy
  imports Py_Values
begin

text \<open>
  The runtime limits of a plugin (\<^verbatim>\<open>core/plugin_execution.py\<close>, \<^verbatim>\<open>PluginExecutionPolicy\<close>) and how they are
  read from configuration. How the interpreter reads a string as a number is the argument \<open>parse\<close>.
\<close>

record policy =
  timeout_seconds :: "pyfloat option"
  parallel_limit :: int
  admission_queue_limit :: int
  sync_parallel_limit :: int
  sync_queue_limit :: int
  failure_threshold :: int
  cooldown_seconds :: pyfloat
  drain_timeout_seconds :: pyfloat

definition default_policy :: policy where
  "default_policy = \<lparr>timeout_seconds = Some (Fin 60), parallel_limit = 4, admission_queue_limit = 64,
     sync_parallel_limit = 1, sync_queue_limit = 16, failure_threshold = 3, cooldown_seconds = Fin 60,
     drain_timeout_seconds = Fin 5\<rparr>"

text \<open>\<^verbatim>\<open>max(a, b)\<close> and \<^verbatim>\<open>min(a, b)\<close> keep the first argument unless the second compares beyond it.\<close>

definition float_max :: "pyfloat \<Rightarrow> pyfloat \<Rightarrow> pyfloat" where
  "float_max a b = (if float_less a b then b else a)"

definition float_min :: "pyfloat \<Rightarrow> pyfloat \<Rightarrow> pyfloat" where
  "float_min a b = (if float_less b a then b else a)"

definition clamp_float :: "real \<Rightarrow> pyfloat \<Rightarrow> pyfloat" where
  "clamp_float hi x = float_min (Fin hi) (float_max (Fin (1 / 10)) x)"

definition read_timeout :: "(ustr \<Rightarrow> pyfloat option) \<Rightarrow> pyval \<Rightarrow> pyfloat option \<Rightarrow> pyerr + pyfloat option" where
  "read_timeout parse raw base =
     (if raw = VNone \<or> raw = VInt 0 \<or> raw = VFloat (Fin 0) then Inr None
      else case py_float parse raw of
        Inr x \<Rightarrow> Inr (Some (clamp_float 86400 x))
      | Inl (TypeError _) \<Rightarrow> Inr base
      | Inl (ValueError _) \<Rightarrow> Inr base
      | Inl e \<Rightarrow> Inl e)"

definition bounded_int :: "pyval \<Rightarrow> int \<Rightarrow> int \<Rightarrow> int \<Rightarrow> pyerr + int" where
  "bounded_int raw dflt lo hi = (case raw of
      VBool _ \<Rightarrow> Inr dflt
    | _ \<Rightarrow> (case py_int raw of
        Inr n \<Rightarrow> Inr (min hi (max lo n))
      | Inl (TypeError _) \<Rightarrow> Inr dflt
      | Inl (ValueError _) \<Rightarrow> Inr dflt
      | Inl (OverflowError _) \<Rightarrow> Inr dflt
      | Inl e \<Rightarrow> Inl e))"

definition bounded_float :: "(ustr \<Rightarrow> pyfloat option) \<Rightarrow> pyval \<Rightarrow> pyfloat \<Rightarrow> real \<Rightarrow> pyerr + pyfloat" where
  "bounded_float parse raw dflt hi = (case raw of
      VBool _ \<Rightarrow> Inr dflt
    | _ \<Rightarrow> (case py_float parse raw of
        Inr x \<Rightarrow> Inr (clamp_float hi x)
      | Inl (TypeError _) \<Rightarrow> Inr dflt
      | Inl (ValueError _) \<Rightarrow> Inr dflt
      | Inl (OverflowError _) \<Rightarrow> Inr dflt
      | Inl e \<Rightarrow> Inl e))"

text \<open>
  \<^verbatim>\<open>from_mapping\<close>. A value that is not a mapping counts as an empty one; a missing field is the one of
  the fallback.
\<close>

definition policy_from_mapping ::
  "(ustr \<Rightarrow> pyfloat option) \<Rightarrow> pyval \<Rightarrow> policy option \<Rightarrow> pyerr + policy" where
  "policy_from_mapping parse values fallback =
     (let base = (case fallback of Some p \<Rightarrow> p | None \<Rightarrow> default_policy);
          d = (case values of VDict d \<Rightarrow> d | _ \<Rightarrow> []);
          timeout0 = (case timeout_seconds base of None \<Rightarrow> VNone | Some x \<Rightarrow> VFloat x);
          int_field = (\<lambda>name f lo hi. bounded_int (dget_default d (U name) (VInt (f base))) (f base) lo hi);
          float_field = (\<lambda>name f hi. bounded_float parse (dget_default d (U name) (VFloat (f base))) (f base) hi)
      in bindE (read_timeout parse (dget_default d (U ''timeout_seconds'') timeout0) (timeout_seconds base)) (\<lambda>t.
         bindE (int_field ''parallel_limit'' parallel_limit 1 1024) (\<lambda>pl.
         bindE (int_field ''admission_queue_limit'' admission_queue_limit 0 10000) (\<lambda>aq.
         bindE (int_field ''sync_parallel_limit'' sync_parallel_limit 1 3) (\<lambda>sp.
         bindE (int_field ''sync_queue_limit'' sync_queue_limit 0 10000) (\<lambda>sq.
         bindE (int_field ''failure_threshold'' failure_threshold 1 10000) (\<lambda>ft.
         bindE (float_field ''cooldown_seconds'' cooldown_seconds 86400) (\<lambda>cd.
         bindE (float_field ''drain_timeout_seconds'' drain_timeout_seconds 3600) (\<lambda>dt.
         Inr \<lparr>timeout_seconds = t, parallel_limit = pl, admission_queue_limit = aq, sync_parallel_limit = sp,
              sync_queue_limit = sq, failure_threshold = ft, cooldown_seconds = cd, drain_timeout_seconds = dt\<rparr>)))))))))"

definition float_within :: "real \<Rightarrow> pyfloat \<Rightarrow> bool" where
  "float_within hi x \<longleftrightarrow> (case x of Fin r \<Rightarrow> 1 / 10 \<le> r \<and> r \<le> hi | _ \<Rightarrow> False)"

definition policy_ok :: "policy \<Rightarrow> bool" where
  "policy_ok p \<longleftrightarrow> (\<forall>x. timeout_seconds p = Some x \<longrightarrow> float_within 86400 x)
     \<and> 1 \<le> parallel_limit p \<and> parallel_limit p \<le> 1024
     \<and> 0 \<le> admission_queue_limit p \<and> admission_queue_limit p \<le> 10000
     \<and> 1 \<le> sync_parallel_limit p \<and> sync_parallel_limit p \<le> 3
     \<and> 0 \<le> sync_queue_limit p \<and> sync_queue_limit p \<le> 10000
     \<and> 1 \<le> failure_threshold p \<and> failure_threshold p \<le> 10000
     \<and> float_within 86400 (cooldown_seconds p) \<and> float_within 3600 (drain_timeout_seconds p)"

lemma clamp_float_within: "1 / 10 \<le> hi \<Longrightarrow> float_within hi (clamp_float hi x)"
  by (cases x) (auto simp: clamp_float_def float_min_def float_max_def float_less_def float_within_def)

lemma py_int_errors: "py_int v = Inl e \<Longrightarrow> (\<exists>m. e = TypeError m \<or> e = ValueError m \<or> e = OverflowError m)"
  by (auto simp: py_int_def int_of_str_def int_of_digits_def err_int_def Let_def bindE_eq_Inl
      split: pyval.splits pyfloat.splits if_splits option.splits)

lemma py_float_errors: "py_float parse v = Inl e \<Longrightarrow>
    (\<exists>m. e = TypeError m \<or> e = ValueError m) \<or> (\<exists>m n. e = OverflowError m \<and> v = VInt n \<and> 2 ^ 1024 - 2 ^ 970 \<le> \<bar>n\<bar>)"
  by (auto simp: py_float_def float_of_int_def split: pyval.splits option.splits if_splits)

lemma bounded_int_total:
  "lo \<le> hi \<Longrightarrow> lo \<le> dflt \<Longrightarrow> dflt \<le> hi \<Longrightarrow> \<exists>n. bounded_int raw dflt lo hi = Inr n \<and> lo \<le> n \<and> n \<le> hi"
  by (cases "py_int raw"; cases raw) (auto simp: bounded_int_def dest!: py_int_errors)

lemma bounded_float_total:
  "1 / 10 \<le> hi \<Longrightarrow> float_within hi dflt \<Longrightarrow> \<exists>x. bounded_float parse raw dflt hi = Inr x \<and> float_within hi x"
  by (cases "py_float parse raw"; cases raw) (auto simp: bounded_float_def clamp_float_within dest!: py_float_errors)

text \<open>An integer too large for a float: the one value of the configuration that is not contained.\<close>

definition huge_timeout :: "pyval \<Rightarrow> bool" where
  "huge_timeout values \<longleftrightarrow> (\<exists>d n. values = VDict d \<and> dget d (U ''timeout_seconds'') = Some (VInt n)
     \<and> 2 ^ 1024 - 2 ^ 970 \<le> \<bar>n\<bar>)"

lemma read_timeout_ok:
  "read_timeout parse raw base = Inr t \<Longrightarrow> (\<forall>x. base = Some x \<longrightarrow> float_within 86400 x) \<Longrightarrow>
    (\<forall>x. t = Some x \<longrightarrow> float_within 86400 x)"
  using clamp_float_within [of 86400]
  by (auto simp: read_timeout_def split: if_splits sum.splits pyerr.splits)

lemma read_timeout_error:
  "(\<exists>e. read_timeout parse raw base = Inl e) \<longleftrightarrow> (\<exists>n. raw = VInt n \<and> 2 ^ 1024 - 2 ^ 970 \<le> \<bar>n\<bar>)"
proof
  assume "\<exists>e. read_timeout parse raw base = Inl e"
  then obtain e where e: "py_float parse raw = Inl e" "\<nexists>m. e = TypeError m \<or> e = ValueError m"
    by (auto simp: read_timeout_def split: if_splits sum.splits pyerr.splits)
  from py_float_errors [OF e(1)] e(2) show "\<exists>n. raw = VInt n \<and> 2 ^ 1024 - 2 ^ 970 \<le> \<bar>n\<bar>" by blast
next
  assume "\<exists>n. raw = VInt n \<and> 2 ^ 1024 - 2 ^ 970 \<le> \<bar>n\<bar>"
  then obtain n where n: "raw = VInt n" "2 ^ 1024 - 2 ^ 970 \<le> \<bar>n\<bar>" by blast
  moreover have "(0 :: int) < 2 ^ 1024 - 2 ^ 970" by simp
  ultimately have "n \<noteq> 0" by auto
  then show "\<exists>e. read_timeout parse raw base = Inl e"
    using n by (simp add: read_timeout_def py_float_def float_of_int_def)
qed

text \<open>
  C30. Whatever the configuration of a plugin holds, its limits are read without an error and lie in
  the documented ranges, except that an integer timeout too large for a float raises.
\<close>

theorem policy_from_mapping_bounds:
  assumes "\<forall>p. fallback = Some p \<longrightarrow> policy_ok p"
  shows "(\<exists>p. policy_from_mapping parse values fallback = Inr p \<and> policy_ok p) \<or>
    (huge_timeout values \<and> (\<exists>e. policy_from_mapping parse values fallback = Inl e))"
proof -
  define base where "base = (case fallback of Some p \<Rightarrow> p | None \<Rightarrow> default_policy)"
  define d where "d = (case values of VDict d \<Rightarrow> d | _ \<Rightarrow> [])"
  define raw where "raw = dget_default d (U ''timeout_seconds'')
    (case timeout_seconds base of None \<Rightarrow> VNone | Some x \<Rightarrow> VFloat x)"
  have base: "policy_ok base"
    using assms by (auto simp: base_def policy_ok_def default_policy_def float_within_def split: option.split)
  note b = base [unfolded policy_ok_def]
  show ?thesis
  proof (cases "read_timeout parse raw (timeout_seconds base)")
    case (Inl e)
    then obtain n where n: "raw = VInt n" "2 ^ 1024 - 2 ^ 970 \<le> \<bar>n\<bar>" using read_timeout_error by blast
    then have "huge_timeout values"
      by (auto simp: huge_timeout_def raw_def d_def dget_default_def simp del: U_simps
          split: pyval.splits option.splits)
    moreover have "policy_from_mapping parse values fallback = Inl e"
      using Inl by (simp add: policy_from_mapping_def raw_def d_def base_def Let_def del: U_simps)
    ultimately show ?thesis by blast
  next
    case (Inr t)
    note t = read_timeout_ok [OF Inr]
    define int_field where "int_field = (\<lambda>name f lo hi. bounded_int (dget_default d (U name) (VInt (f base))) (f base) lo hi)"
    define float_field where "float_field = (\<lambda>name f hi. bounded_float parse (dget_default d (U name) (VFloat (f base))) (f base) hi)"
    obtain pl where 1: "int_field ''parallel_limit'' parallel_limit 1 1024 = Inr pl" "1 \<le> pl" "pl \<le> 1024"
      using bounded_int_total [of 1 1024] b unfolding int_field_def by fastforce
    obtain aq where 2: "int_field ''admission_queue_limit'' admission_queue_limit 0 10000 = Inr aq" "0 \<le> aq" "aq \<le> 10000"
      using bounded_int_total [of 0 10000] b unfolding int_field_def by fastforce
    obtain sp where 3: "int_field ''sync_parallel_limit'' sync_parallel_limit 1 3 = Inr sp" "1 \<le> sp" "sp \<le> 3"
      using bounded_int_total [of 1 3] b unfolding int_field_def by fastforce
    obtain sq where 4: "int_field ''sync_queue_limit'' sync_queue_limit 0 10000 = Inr sq" "0 \<le> sq" "sq \<le> 10000"
      using bounded_int_total [of 0 10000] b unfolding int_field_def by fastforce
    obtain ft where 5: "int_field ''failure_threshold'' failure_threshold 1 10000 = Inr ft" "1 \<le> ft" "ft \<le> 10000"
      using bounded_int_total [of 1 10000] b unfolding int_field_def by fastforce
    obtain cd where 6: "float_field ''cooldown_seconds'' cooldown_seconds 86400 = Inr cd" "float_within 86400 cd"
      using bounded_float_total [of 86400] b unfolding float_field_def by fastforce
    obtain dt where 7: "float_field ''drain_timeout_seconds'' drain_timeout_seconds 3600 = Inr dt" "float_within 3600 dt"
      using bounded_float_total [of 3600] b unfolding float_field_def by fastforce
    have "policy_from_mapping parse values fallback =
      Inr \<lparr>timeout_seconds = t, parallel_limit = pl, admission_queue_limit = aq, sync_parallel_limit = sp,
        sync_queue_limit = sq, failure_threshold = ft, cooldown_seconds = cd, drain_timeout_seconds = dt\<rparr>"
      unfolding policy_from_mapping_def Let_def
      unfolding base_def [symmetric] d_def [symmetric] raw_def [symmetric]
      using Inr 1(1) 2(1) 3(1) 4(1) 5(1) 6(1) 7(1) unfolding int_field_def float_field_def by simp
    then show ?thesis
      using t b 1 2 3 4 5 6 7 by (auto simp: policy_ok_def)
  qed
qed

theorem policy_from_mapping_bounds_witness:
  "\<exists>p :: policy. policy_from_mapping (\<lambda>_. None) VNone None = Inr p \<and> policy_ok p"
  using policy_from_mapping_bounds [of None "\<lambda>_. None" VNone] by (auto simp: huge_timeout_def)

end
