(* ===== verification/Exec_Gate.thy ===== *)
theory Exec_Gate
  imports Admission Exec_Policy
begin

text \<open>
  The gate of one generation of a plugin (\<^verbatim>\<open>core/plugin_execution.py\<close>, \<^verbatim>\<open>PluginExecutionGate\<close>): bounded
  admission in order of arrival, the circuit that opens after failures, quarantine of work that cannot
  be stopped, and closing. Tasks, futures and fatal errors are objects; a number is their identity, and
  the argument \<open>done\<close> tells which have ended. A call of \<open>run\<close> is cut where it is suspended.
\<close>

section \<open>Errors and state\<close>

definition exec_closed :: pyerr where
  "exec_closed = OtherError ''PluginExecutionClosed''"

definition exec_unavailable :: pyerr where
  "exec_unavailable = OtherError ''PluginExecutionUnavailable''"

definition exec_overloaded :: pyerr where
  "exec_overloaded = OtherError ''PluginExecutionOverloaded''"

lemma exec_errors_distinct [simp]:
  "exec_closed \<noteq> exec_unavailable" "exec_closed \<noteq> exec_overloaded" "exec_unavailable \<noteq> exec_overloaded"
  by (simp_all add: exec_closed_def exec_unavailable_def exec_overloaded_def)

datatype gate_mode = Parallel | Sequential

text \<open>The future of a waiter: not done, a result, or the exception of closing.\<close>

datatype ready = RPending | RResult | RClosed

record gate_waiter =
  gw_ready :: ready
  gw_allow_closed :: bool
  gw_granted :: bool

type_synonym obj = nat

record gate =
  g_mode :: gate_mode
  g_policy :: policy
  g_running :: int
  g_waiters :: "wid list"
  g_info :: "wid \<Rightarrow> gate_waiter"
  g_active :: "obj list"
  g_operations :: "obj list"
  g_detached_operations :: "obj list"
  g_sync :: "obj list"
  g_broker_owned :: "obj list"
  g_detached_sync :: "obj list"
  g_fatal :: "obj list"
  g_closed :: bool
  g_token :: "obj option"
  g_failures :: int
  g_open_until :: real
  g_poisoned_timeout :: bool
  g_poisoned_sync :: bool

definition new_gate :: "ustr \<Rightarrow> policy option \<Rightarrow> pyerr + gate" where
  "new_gate mode p =
     (if mode \<noteq> U ''parallel'' \<and> mode \<noteq> U ''sequential''
      then Inl (ValueError ''unsupported plugin concurrency mode'')
      else Inr \<lparr>g_mode = (if mode = U ''sequential'' then Sequential else Parallel),
        g_policy = (case p of Some p \<Rightarrow> p | None \<Rightarrow> default_policy), g_running = 0, g_waiters = [],
        g_info = (\<lambda>_. \<lparr>gw_ready = RPending, gw_allow_closed = False, gw_granted = False\<rparr>),
        g_active = [], g_operations = [], g_detached_operations = [], g_sync = [], g_broker_owned = [],
        g_detached_sync = [], g_fatal = [], g_closed = False, g_token = None, g_failures = 0,
        g_open_until = 0, g_poisoned_timeout = False, g_poisoned_sync = False\<rparr>)"

definition pending_sync_callbacks :: "gate \<Rightarrow> nat" where
  "pending_sync_callbacks g = length (g_sync g)"

definition admitted_operations :: "gate \<Rightarrow> int" where
  "admitted_operations g = g_running g + int (length (g_waiters g))"

definition gate_drained :: "(obj \<Rightarrow> bool) \<Rightarrow> gate \<Rightarrow> bool" where
  "gate_drained done g \<longleftrightarrow> list_all done (g_active g @ g_operations g) \<and> g_sync g = []"

section \<open>Opening and closing\<close>

definition gate_close :: "gate \<Rightarrow> gate" where
  "gate_close g = g\<lparr>g_closed := True, g_token := None\<rparr>"

definition hold_for_publication :: "obj \<Rightarrow> gate \<Rightarrow> pyerr + gate" where
  "hold_for_publication token g =
     (if g_closed g then Inl exec_closed else Inr (g\<lparr>g_token := Some token, g_closed := True\<rparr>))"

definition release_publication_hold :: "obj \<Rightarrow> gate \<Rightarrow> pyerr + gate" where
  "release_publication_hold token g =
     (if g_token g \<noteq> Some token then Inl exec_closed else Inr (g\<lparr>g_token := None, g_closed := False\<rparr>))"

definition execution_capacity :: "gate \<Rightarrow> int" where
  "execution_capacity g = (if g_mode g = Sequential then 1 else parallel_limit (g_policy g))"

text \<open>\<open>now\<close> is the monotonic clock.\<close>

definition ensure_available :: "real \<Rightarrow> bool \<Rightarrow> gate \<Rightarrow> pyerr + unit" where
  "ensure_available now allow g =
     (if g_closed g \<and> \<not> allow then Inl exec_closed
      else if allow then Inr ()
      else if g_poisoned_timeout g \<or> g_poisoned_sync g \<or> now < g_open_until g then Inl exec_unavailable
      else Inr ())"

section \<open>Admission\<close>

definition set_ready :: "wid \<Rightarrow> ready \<Rightarrow> gate \<Rightarrow> gate" where
  "set_ready w r g = g\<lparr>g_info := (g_info g)(w := (g_info g w)\<lparr>gw_ready := r\<rparr>)\<rparr>"

text \<open>\<^verbatim>\<open>_grant_waiters_locked\<close>, as a recursion over the queue it empties from the front.\<close>

fun grant_loop :: "wid list \<Rightarrow> gate \<Rightarrow> gate" where
  "grant_loop [] g = g\<lparr>g_waiters := []\<rparr>"
| "grant_loop (w # ws) g =
     (if g_running g < execution_capacity g then
        (if gw_ready (g_info g w) \<noteq> RPending then grant_loop ws g
         else if g_closed g \<and> \<not> gw_allow_closed (g_info g w) then grant_loop ws (set_ready w RClosed g)
         else grant_loop ws (g\<lparr>g_running := g_running g + 1,
           g_info := (g_info g)(w := (g_info g w)\<lparr>gw_ready := RResult, gw_granted := True\<rparr>)\<rparr>))
      else g\<lparr>g_waiters := w # ws\<rparr>)"

definition grant_waiters :: "gate \<Rightarrow> gate" where
  "grant_waiters g = grant_loop (g_waiters g) g"

text \<open>\<open>set_policy\<close> changes the limits at once; its task \<^verbatim>\<open>_reconcile_policy\<close> runs \<open>grant_waiters\<close> later.\<close>

definition set_policy :: "policy \<Rightarrow> gate \<Rightarrow> gate" where
  "set_policy p g = g\<lparr>g_policy := p\<rparr>"

definition remove_or_release :: "wid \<Rightarrow> gate \<Rightarrow> gate" where
  "remove_or_release w g = grant_waiters
     (if gw_granted (g_info g w)
      then g\<lparr>g_info := (g_info g)(w := (g_info g w)\<lparr>gw_granted := False\<rparr>), g_running := max 0 (g_running g - 1)\<rparr>
      else g\<lparr>g_waiters := remove1 w (g_waiters g)\<rparr>)"

text \<open>
  The first critical section of \<open>run\<close> for the task \<open>t\<close>: an error, a slot at once, or a place in the
  queue under the new waiter \<open>w\<close>.
\<close>

definition run_enter :: "real \<Rightarrow> bool \<Rightarrow> obj \<Rightarrow> wid \<Rightarrow> gate \<Rightarrow> pyerr + bool \<times> gate" where
  "run_enter now allow t w g =
     bindE (ensure_available now allow g) (\<lambda>_.
       if admitted_operations g \<ge> execution_capacity g + admission_queue_limit (g_policy g)
       then Inl exec_overloaded
       else let g1 = g\<lparr>g_active := List.insert t (g_active g)\<rparr> in
         if g_running g1 < execution_capacity g1 \<and> g_waiters g1 = []
         then Inr (True, g1\<lparr>g_running := g_running g1 + 1\<rparr>)
         else Inr (False, g1\<lparr>g_waiters := g_waiters g1 @ [w],
                g_info := (g_info g1)(w := \<lparr>gw_ready = RPending, gw_allow_closed = allow, gw_granted = False\<rparr>)\<rparr>))"

text \<open>The last critical section of \<open>run\<close>; \<open>granted\<close> tells whether the call holds a slot.\<close>

definition run_exit :: "bool \<Rightarrow> obj \<Rightarrow> gate \<Rightarrow> gate" where
  "run_exit granted t g =
     (let g1 = (if granted then g\<lparr>g_running := max 0 (g_running g - 1)\<rparr> else g)
      in grant_waiters (g1\<lparr>g_active := removeAll t (g_active g1)\<rparr>))"

section \<open>The circuit and the quarantine\<close>

definition record_success :: "gate \<Rightarrow> gate" where
  "record_success g =
     (let g1 = g\<lparr>g_failures := 0\<rparr>
      in if \<not> g_poisoned_timeout g1 \<and> \<not> g_poisoned_sync g1 then g1\<lparr>g_open_until := 0\<rparr> else g1)"

definition real_of :: "pyfloat \<Rightarrow> real" where
  "real_of x = (case x of Fin r \<Rightarrow> r | _ \<Rightarrow> 0)"

definition record_failure :: "real \<Rightarrow> bool \<Rightarrow> gate \<Rightarrow> gate" where
  "record_failure now force g =
     (let g1 = g\<lparr>g_failures := g_failures g + 1\<rparr>
      in if force \<or> g_failures g1 \<ge> failure_threshold (g_policy g1)
         then g1\<lparr>g_open_until := now + real_of (cooldown_seconds (g_policy g1))\<rparr> else g1)"

definition defer_fatal_error :: "obj \<Rightarrow> gate \<Rightarrow> gate" where
  "defer_fatal_error e g = (if e \<notin> set (g_fatal g) then g\<lparr>g_fatal := g_fatal g @ [e]\<rparr> else g)"

definition consume_fatal_error :: "gate \<Rightarrow> obj option \<times> gate" where
  "consume_fatal_error g = (case g_fatal g of [] \<Rightarrow> (None, g) | e # es \<Rightarrow> (Some e, g\<lparr>g_fatal := es\<rparr>))"

text \<open>
  \<^verbatim>\<open>_discard_operation_task\<close>; \<open>fatal\<close> is the fatal error the task ended with, if any.
\<close>

definition discard_operation :: "(obj \<Rightarrow> bool) \<Rightarrow> obj option \<Rightarrow> obj \<Rightarrow> gate \<Rightarrow> gate" where
  "discard_operation done fatal t g =
     (if t \<notin> set (g_operations g) then g
      else let detached = t \<in> set (g_detached_operations g);
               g1 = g\<lparr>g_operations := removeAll t (g_operations g),
                      g_detached_operations := removeAll t (g_detached_operations g)\<rparr>;
               g2 = (case fatal of Some e \<Rightarrow> if detached then defer_fatal_error e g1 else g1 | None \<Rightarrow> g1)
           in if g_poisoned_timeout g2
                \<and> \<not> list_ex (\<lambda>p. p \<in> set (g_detached_operations g2) \<and> \<not> done p) (g_operations g2)
              then g2\<lparr>g_poisoned_timeout := False\<rparr> else g2)"

definition register_sync_future :: "obj \<Rightarrow> gate \<Rightarrow> gate" where
  "register_sync_future f g = g\<lparr>g_sync := List.insert f (g_sync g), g_broker_owned := List.insert f (g_broker_owned g)\<rparr>"

definition mark_detached_sync :: "obj \<Rightarrow> gate \<Rightarrow> gate" where
  "mark_detached_sync f g =
     (if f \<in> set (g_sync g)
      then g\<lparr>g_detached_sync := List.insert f (g_detached_sync g), g_poisoned_sync := True\<rparr> else g)"

definition discard_sync_future :: "(obj \<Rightarrow> bool) \<Rightarrow> obj \<Rightarrow> gate \<Rightarrow> gate" where
  "discard_sync_future done f g =
     (if f \<notin> set (g_sync g) then g
      else let g1 = g\<lparr>g_sync := removeAll f (g_sync g), g_broker_owned := removeAll f (g_broker_owned g),
                      g_detached_sync := removeAll f (g_detached_sync g)\<rparr>
           in if g_poisoned_sync g1 \<and> list_all done (g_detached_sync g1)
              then g1\<lparr>g_poisoned_sync := False\<rparr> else g1)"

definition discard_terminal_unowned :: "(obj \<Rightarrow> bool) \<Rightarrow> gate \<Rightarrow> gate" where
  "discard_terminal_unowned done g =
     fold (discard_sync_future done) (filter (\<lambda>f. done f \<and> f \<notin> set (g_broker_owned g)) (g_sync g)) g"

text \<open>\<open>finished\<close> tells whether the operation has ended.\<close>

definition mark_unfinished_child :: "bool \<Rightarrow> gate \<Rightarrow> gate" where
  "mark_unfinished_child finished g = (if \<not> finished then g\<lparr>g_poisoned_timeout := True\<rparr> else g)"

section \<open>Running an operation\<close>

text \<open>
  How the await of the operation in \<^verbatim>\<open>_run_bounded\<close> ends. After a timeout or a cancellation the
  operation gets one turn of the loop to end; the flag tells whether it did.
\<close>

datatype op_end = OpResult | OpError pyerr | OpTimeout bool | OpCancelled bool

definition begin_operation :: "obj \<Rightarrow> gate \<Rightarrow> gate" where
  "begin_operation t g = g\<lparr>g_operations := List.insert t (g_operations g)\<rparr>"

definition detach_operation :: "obj \<Rightarrow> bool \<Rightarrow> gate \<Rightarrow> gate" where
  "detach_operation t finished g =
     mark_unfinished_child finished (g\<lparr>g_detached_operations := List.insert t (g_detached_operations g)\<rparr>)"

definition end_operation :: "real \<Rightarrow> obj \<Rightarrow> op_end \<Rightarrow> gate \<Rightarrow> pyerr option \<times> gate" where
  "end_operation now t res g = (case res of
      OpTimeout finished \<Rightarrow> (Some (TimeoutError ''plugin callback timed out''),
        detach_operation t finished (record_failure now True g))
    | OpCancelled finished \<Rightarrow> (Some (CancelledError ''''), detach_operation t finished g)
    | OpError e \<Rightarrow> (Some e, if e = exec_closed \<or> e = exec_unavailable \<or> e = exec_overloaded then g
                             else record_failure now False g)
    | OpResult \<Rightarrow> (None, record_success g))"

section \<open>Closing with a bounded wait\<close>

text \<open>
  The beginning of \<open>close\<close> by the task \<open>self\<close>: the tasks to cancel, and the waiters of ordinary calls are
  told that the gate is closed.
\<close>

definition close_waiters :: "gate \<Rightarrow> gate" where
  "close_waiters g = g\<lparr>g_info := (\<lambda>w.
     if w \<in> set (g_waiters g) \<and> \<not> gw_allow_closed (g_info g w) \<and> gw_ready (g_info g w) = RPending
     then (g_info g w)\<lparr>gw_ready := RClosed\<rparr> else g_info g w)\<rparr>"

definition close_begin :: "(obj \<Rightarrow> bool) \<Rightarrow> obj \<Rightarrow> gate \<Rightarrow> obj list \<times> gate" where
  "close_begin done self g =
     (let g1 = gate_close g
      in (filter (\<lambda>t. t \<noteq> self \<and> \<not> done t) (remdups (g_active g1 @ g_operations g1)), close_waiters g1))"

record drain_result =
  dr_drained :: bool
  dr_pending_async :: nat
  dr_pending_sync :: nat

text \<open>One look of the waiting loop: go on waiting while work is pending and time is left.\<close>

definition close_waits :: "(obj \<Rightarrow> bool) \<Rightarrow> obj \<Rightarrow> real \<Rightarrow> real \<Rightarrow> gate \<Rightarrow> bool" where
  "close_waits done self now deadline g \<longleftrightarrow>
     \<not> (list_all (\<lambda>t. t = self \<or> done t) (g_active g @ g_operations g) \<and> g_sync g = []) \<and> 0 < deadline - now"

definition close_end :: "(obj \<Rightarrow> bool) \<Rightarrow> (obj \<Rightarrow> obj option) \<Rightarrow> obj \<Rightarrow> gate \<Rightarrow> drain_result \<times> gate" where
  "close_end done fatal self g =
     (let g1 = discard_terminal_unowned done g;
          pa = length (filter (\<lambda>t. t \<noteq> self \<and> \<not> done t) (remdups (g_active g1 @ g_operations g1)));
          ps = length (g_sync g1);
          g2 = fold (\<lambda>t. discard_operation done (fatal t) t) (filter done (g_operations g1)) g1;
          g3 = fold (discard_sync_future done) (filter done (g_sync g2)) g2
      in (\<lparr>dr_drained = (pa = 0 \<and> ps = 0), dr_pending_async = pa, dr_pending_sync = ps\<rparr>, g3))"

section \<open>The gate under concurrent calls\<close>

text \<open>The bookkeeping that touches neither the queue nor the slots.\<close>

inductive gate_quiet :: "gate \<Rightarrow> gate \<Rightarrow> bool" where
  q_begin: "gate_quiet g (begin_operation t g)"
| q_end: "gate_quiet g (snd (end_operation now t res g))"
| q_discard_operation: "gate_quiet g (discard_operation done fatal t g)"
| q_register: "gate_quiet g (register_sync_future f g)"
| q_mark: "gate_quiet g (mark_detached_sync f g)"
| q_discard_sync: "gate_quiet g (discard_sync_future done f g)"
| q_fatal: "gate_quiet g (defer_fatal_error e g)"
| q_consume: "gate_quiet g (snd (consume_fatal_error g))"
| q_close: "gate_quiet g (gate_close g)"
| q_hold: "hold_for_publication tok g = Inr g' \<Longrightarrow> gate_quiet g g'"
| q_release: "release_publication_hold tok g = Inr g' \<Longrightarrow> gate_quiet g g'"

text \<open>
  \<open>gy_waiting\<close> are the waiters of the suspended calls, \<open>gy_slots\<close> the calls that hold a slot, \<open>gy_reconcile\<close>
  the pending tasks of \<open>set_policy\<close>. A call leaves the queue by an exception: a timeout (\<open>timed\<close> is then
  the time of the failure), the closing of the gate or a cancellation.
\<close>

record gate_sys =
  gy_gate :: gate
  gy_waiting :: "wid set"
  gy_next :: wid
  gy_slots :: nat
  gy_reconcile :: nat

definition timed_failure :: "real option \<Rightarrow> gate \<Rightarrow> gate" where
  "timed_failure timed g = (case timed of Some now \<Rightarrow> record_failure now True g | None \<Rightarrow> g)"

inductive gate_step :: "gate_sys \<Rightarrow> gate_sys \<Rightarrow> bool" where
  gs_enter_now: "run_enter now allow t (gy_next s) (gy_gate s) = Inr (True, g) \<Longrightarrow>
    gate_step s (s\<lparr>gy_gate := g, gy_slots := gy_slots s + 1\<rparr>)"
| gs_enter_wait: "run_enter now allow t (gy_next s) (gy_gate s) = Inr (False, g) \<Longrightarrow>
    gate_step s (s\<lparr>gy_gate := g, gy_waiting := insert (gy_next s) (gy_waiting s), gy_next := gy_next s + 1\<rparr>)"
| gs_resume: "w \<in> gy_waiting s \<Longrightarrow> gw_ready (g_info (gy_gate s) w) = RResult \<Longrightarrow>
    gate_step s (s\<lparr>gy_waiting := gy_waiting s - {w}, gy_slots := gy_slots s + 1\<rparr>)"
| gs_abort: "w \<in> gy_waiting s \<Longrightarrow>
    gate_step s (s\<lparr>gy_gate := run_exit False t (timed_failure timed (remove_or_release w (gy_gate s))),
      gy_waiting := gy_waiting s - {w}\<rparr>)"
| gs_exit: "0 < gy_slots s \<Longrightarrow>
    gate_step s (s\<lparr>gy_gate := run_exit True t (gy_gate s), gy_slots := gy_slots s - 1\<rparr>)"
| gs_policy: "policy_ok p \<Longrightarrow>
    gate_step s (s\<lparr>gy_gate := set_policy p (gy_gate s), gy_reconcile := gy_reconcile s + 1\<rparr>)"
| gs_reconcile: "0 < gy_reconcile s \<Longrightarrow>
    gate_step s (s\<lparr>gy_gate := grant_waiters (gy_gate s), gy_reconcile := gy_reconcile s - 1\<rparr>)"
| gs_close: "gate_step s (s\<lparr>gy_gate := snd (close_begin done self (gy_gate s))\<rparr>)"
| gs_quiet: "gate_quiet (gy_gate s) g \<Longrightarrow> gate_step s (s\<lparr>gy_gate := g\<rparr>)"

definition gate_granted :: "gate_sys \<Rightarrow> wid set" where
  "gate_granted s = {w \<in> gy_waiting s. gw_granted (g_info (gy_gate s) w)}"

text \<open>
  A call waits and nothing is on its way that would look at the queue: no waiter has to leave it first,
  no change of policy is pending.
\<close>

definition gate_stalled :: "gate_sys \<Rightarrow> bool" where
  "gate_stalled s \<longleftrightarrow> gy_reconcile s = 0
     \<and> (\<exists>w\<in>gy_waiting s. gw_ready (g_info (gy_gate s) w) = RPending)
     \<and> (\<forall>w\<in>set (g_waiters (gy_gate s)). gw_ready (g_info (gy_gate s) w) = RPending)"

definition gate_core :: "wid set \<Rightarrow> nat \<Rightarrow> gate \<Rightarrow> bool" where
  "gate_core waiting n g \<longleftrightarrow> finite waiting \<and> distinct (g_waiters g) \<and> set (g_waiters g) \<subseteq> waiting
     \<and> (\<forall>w\<in>set (g_waiters g). gw_ready (g_info g w) \<noteq> RResult)
     \<and> (\<forall>w\<in>waiting. gw_ready (g_info g w) = RPending \<longrightarrow> w \<in> set (g_waiters g))
     \<and> (\<forall>w\<in>waiting. gw_granted (g_info g w) \<longleftrightarrow> gw_ready (g_info g w) = RResult)
     \<and> g_running g = int n + int (card {w \<in> waiting. gw_granted (g_info g w)})
     \<and> 0 < execution_capacity g"

definition gate_inv :: "gate_sys \<Rightarrow> bool" where
  "gate_inv s \<longleftrightarrow> gate_core (gy_waiting s) (gy_slots s) (gy_gate s) \<and> (\<forall>w\<in>gy_waiting s. w < gy_next s)
     \<and> (gate_stalled s \<longrightarrow> execution_capacity (gy_gate s) \<le> g_running (gy_gate s))"

text \<open>What the invariant reads of a gate.\<close>

definition same_queue :: "gate \<Rightarrow> gate \<Rightarrow> bool" where
  "same_queue g h \<longleftrightarrow> g_mode h = g_mode g \<and> g_policy h = g_policy g \<and> g_running h = g_running g
     \<and> g_waiters h = g_waiters g \<and> g_info h = g_info g"

lemma same_queue_refl [simp]: "same_queue g g"
  by (simp add: same_queue_def)

lemma same_queue_capacity: "same_queue g h \<Longrightarrow> execution_capacity h = execution_capacity g"
  by (simp add: same_queue_def execution_capacity_def)

lemma same_queue_core: "same_queue g h \<Longrightarrow> gate_core W n h \<longleftrightarrow> gate_core W n g"
  using same_queue_capacity [of g h] by (simp add: gate_core_def same_queue_def)

lemma record_same_queue:
  "same_queue g (record_failure now force g)" "same_queue g (record_success g)"
  "same_queue g (detach_operation t fin g)" "same_queue g (defer_fatal_error e g)"
  by (simp_all add: same_queue_def record_failure_def record_success_def detach_operation_def
      mark_unfinished_child_def defer_fatal_error_def Let_def)

lemma same_queue_trans: "same_queue g h \<Longrightarrow> same_queue h k \<Longrightarrow> same_queue g k"
  by (simp add: same_queue_def)

lemma gate_quiet_same: "gate_quiet g h \<Longrightarrow> same_queue g h"
proof (induction rule: gate_quiet.induct)
  case (q_end g now t res)
  then show ?case
    using record_same_queue same_queue_trans by (auto simp: end_operation_def split: op_end.split) metis
next
  case (q_discard_operation g "done" fatal t)
  then show ?case
    by (auto simp: same_queue_def discard_operation_def defer_fatal_error_def Let_def split: option.split)
qed (auto simp: same_queue_def begin_operation_def register_sync_future_def mark_detached_sync_def
    discard_sync_future_def defer_fatal_error_def consume_fatal_error_def gate_close_def
    hold_for_publication_def release_publication_hold_def Let_def split: list.splits if_splits)

lemma card_grant:
  assumes "finite W" "w \<in> W" "\<not> gw_granted (f w)"
  shows "card {v \<in> W. gw_granted ((f(w := (f w)\<lparr>gw_ready := r, gw_granted := True\<rparr>)) v)}
    = Suc (card {v \<in> W. gw_granted (f v)})"
proof -
  have "{v \<in> W. gw_granted ((f(w := (f w)\<lparr>gw_ready := r, gw_granted := True\<rparr>)) v)}
      = insert w {v \<in> W. gw_granted (f v)}" using assms by auto
  then show ?thesis using assms by simp
qed

lemma grant_loop_frame:
  "execution_capacity (grant_loop ws g) = execution_capacity g" "g_closed (grant_loop ws g) = g_closed g"
  by (induction ws g rule: grant_loop.induct) (auto simp: execution_capacity_def set_ready_def)

lemma grant_loop_core:
  assumes "gate_core W n (g\<lparr>g_waiters := ws\<rparr>)"
  shows "gate_core W n (grant_loop ws g)
    \<and> (g_waiters (grant_loop ws g) = [] \<or> execution_capacity g \<le> g_running (grant_loop ws g))
    \<and> (g_running (grant_loop ws g) = g_running g
        \<or> g_running g < g_running (grant_loop ws g) \<and> g_running (grant_loop ws g) \<le> execution_capacity g)"
  using assms
proof (induction ws g rule: grant_loop.induct)
  case (2 w ws g)
  let ?G = "g\<lparr>g_running := g_running g + 1,
    g_info := (g_info g)(w := (g_info g w)\<lparr>gw_ready := RResult, gw_granted := True\<rparr>)\<rparr>"
  have w: "w \<in> W" "finite W" using 2(4) by (auto simp: gate_core_def)
  show ?case
  proof (cases "g_running g < execution_capacity g")
    case free: True
    consider (gone) "gw_ready (g_info g w) \<noteq> RPending"
      | (shut) "gw_ready (g_info g w) = RPending" "g_closed g \<and> \<not> gw_allow_closed (g_info g w)"
      | (go) "gw_ready (g_info g w) = RPending" "\<not> (g_closed g \<and> \<not> gw_allow_closed (g_info g w))" by blast
    then show ?thesis
    proof cases
      case gone
      have "gate_core W n (g\<lparr>g_waiters := ws\<rparr>)" using 2(4) gone by (auto simp: gate_core_def execution_capacity_def)
      from 2(1) [OF free gone this] gone free show ?thesis by simp
    next
      case shut
      have ng: "\<not> gw_granted (g_info g w)" using 2(4) shut(1) w by (auto simp: gate_core_def)
      then have same: "{v \<in> W. gw_granted (if v = w then (g_info g w)\<lparr>gw_ready := RClosed\<rparr> else g_info g v)}
          = {v \<in> W. gw_granted (g_info g v)}" by auto
      have "gate_core W n ((set_ready w RClosed g)\<lparr>g_waiters := ws\<rparr>)"
        using 2(4) shut(1) same ng by (auto simp: gate_core_def set_ready_def execution_capacity_def)
      from 2(2) [OF free _ shut(2) this] shut free show ?thesis
        by (auto simp: set_ready_def execution_capacity_def)
    next
      case go
      have ng: "\<not> gw_granted (g_info g w)" using 2(4) go(1) w by (auto simp: gate_core_def)
      have "gate_core W n (?G\<lparr>g_waiters := ws\<rparr>)"
        using 2(4) go(1) card_grant [where f = "g_info g" and W = W and w = w and r = RResult, OF w(2,1) ng] by (auto simp: gate_core_def execution_capacity_def)
      from 2(3) [OF free _ go(2) this] go free show ?thesis
        by (auto simp: execution_capacity_def)
    qed
  qed (use 2(4) in auto)
qed auto

lemma grant_core:
  assumes "gate_core W n g"
  shows "gate_core W n (grant_waiters g)"
    "g_waiters (grant_waiters g) = [] \<or> execution_capacity g \<le> g_running (grant_waiters g)"
    "g_running (grant_waiters g) = g_running g
      \<or> g_running g < g_running (grant_waiters g) \<and> g_running (grant_waiters g) \<le> execution_capacity g"
    "execution_capacity (grant_waiters g) = execution_capacity g"
  using grant_loop_core [where W = W and n = n and g = g and ws = "g_waiters g"] assms
  by (simp_all add: grant_waiters_def grant_loop_frame)

lemma gate_inv_grant:
  assumes "gy_gate s = grant_waiters g" "gate_core (gy_waiting s) (gy_slots s) g" "\<forall>w\<in>gy_waiting s. w < gy_next s"
  shows "gate_inv s"
proof -
  note core = grant_core [OF assms(2)]
  have "execution_capacity (gy_gate s) \<le> g_running (gy_gate s)" if st: "gate_stalled s"
  proof -
    obtain w where "w \<in> gy_waiting s" "gw_ready (g_info (gy_gate s) w) = RPending"
      using st by (auto simp: gate_stalled_def)
    then have "w \<in> set (g_waiters (grant_waiters g))"
      using core(1) assms(1) by (auto simp: gate_core_def)
    then show ?thesis using core(2,4) assms(1) by auto
  qed
  then show ?thesis using core(1) assms by (simp add: gate_inv_def)
qed

lemma run_enter_cases:
  assumes "run_enter now allow t w g = Inr (granted, g')"
  obtains (now) "granted" "g_running g < execution_capacity g" "g_waiters g = []"
      "g' = g\<lparr>g_active := List.insert t (g_active g), g_running := g_running g + 1\<rparr>"
    | (wait) "\<not> granted" "g_waiters g \<noteq> [] \<or> execution_capacity g \<le> g_running g"
      "g' = g\<lparr>g_active := List.insert t (g_active g), g_waiters := g_waiters g @ [w],
         g_info := (g_info g)(w := \<lparr>gw_ready = RPending, gw_allow_closed = allow, gw_granted = False\<rparr>)\<rparr>"
  using assms by (auto simp: run_enter_def bindE_eq_Inr Let_def execution_capacity_def split: if_splits)

lemma gate_wait_core:
  assumes "gate_core W n g" "w \<notin> W"
  shows "gate_core (insert w W) n (g\<lparr>g_active := a, g_waiters := g_waiters g @ [w],
    g_info := (g_info g)(w := \<lparr>gw_ready = RPending, gw_allow_closed = allow, gw_granted = False\<rparr>)\<rparr>)"
proof -
  have ws: "w \<notin> set (g_waiters g)" using assms by (auto simp: gate_core_def)
  have "{v \<in> insert w W. gw_granted (((g_info g)(w := \<lparr>gw_ready = RPending, gw_allow_closed = allow, gw_granted = False\<rparr>)) v)}
      = {v \<in> W. gw_granted (g_info g v)}" using assms(2) by auto
  then show ?thesis using assms ws unfolding gate_core_def by (simp add: execution_capacity_def) auto
qed

lemma gate_enter_core:
  assumes c: "gate_core W n g" and e: "run_enter now allow t w g = Inr (granted, g')" and w: "w \<notin> W"
  shows "gate_core (if granted then W else insert w W) (if granted then n + 1 else n) g'"
    and "g_running g' = (if granted then g_running g + 1 else g_running g)"
    and "granted \<Longrightarrow> g_waiters g = [] \<and> g_waiters g' = [] \<and> g_running g < execution_capacity g"
    and "\<not> granted \<Longrightarrow> g_waiters g \<noteq> [] \<or> execution_capacity g \<le> g_running g"
    and "\<not> granted \<Longrightarrow> g_waiters g' = g_waiters g @ [w]"
    and "v \<noteq> w \<Longrightarrow> g_info g' v = g_info g v"
    and "execution_capacity g' = execution_capacity g"
proof -
  show "gate_core (if granted then W else insert w W) (if granted then n + 1 else n) g'"
    using e
  proof (cases rule: run_enter_cases)
    case now
    then show ?thesis using c by (auto simp: gate_core_def execution_capacity_def)
  next
    case wait
    then show ?thesis using gate_wait_core [OF c w] by simp
  qed
qed (use e in \<open>auto elim!: run_enter_cases simp: execution_capacity_def\<close>)

lemma gate_remove_core:
  assumes c: "gate_core W n g" and w: "w \<in> W"
  shows "gate_core (W - {w}) n (if gw_granted (g_info g w)
      then g\<lparr>g_info := (g_info g)(w := (g_info g w)\<lparr>gw_granted := False\<rparr>), g_running := max 0 (g_running g - 1)\<rparr>
      else g\<lparr>g_waiters := remove1 w (g_waiters g)\<rparr>)"
proof (cases "gw_granted (g_info g w)")
  case True
  have fin: "finite {v \<in> W. gw_granted (g_info g v)}" using c by (auto simp: gate_core_def)
  have "card {v \<in> W. gw_granted (g_info g v)} = Suc (card ({v \<in> W. gw_granted (g_info g v)} - {w}))"
    using fin w True by (subst card_Suc_Diff1) auto
  moreover have "{v \<in> W - {w}. gw_granted (if v = w then (g_info g w)\<lparr>gw_granted := False\<rparr> else g_info g v)}
      = {v \<in> W. gw_granted (g_info g v)} - {w}" by auto
  moreover have "w \<notin> set (g_waiters g)" using c w True by (auto simp: gate_core_def)
  ultimately show ?thesis using c True by (auto simp: gate_core_def execution_capacity_def)
next
  case False
  then have "{v \<in> W - {w}. gw_granted (g_info g v)} = {v \<in> W. gw_granted (g_info g v)}" by auto
  then show ?thesis
    using c False by (auto simp: gate_core_def execution_capacity_def in_set_remove1 distinct_remove1
        dest: set_remove1_subset [THEN subsetD])
qed

lemma run_exit_core:
  assumes "gate_core W n g" "granted \<Longrightarrow> 0 < n"
  defines "g1 \<equiv> (if granted then g\<lparr>g_running := max 0 (g_running g - 1)\<rparr> else g)"
  shows "gate_core W (if granted then n - 1 else n) (g1\<lparr>g_active := removeAll t (g_active g1)\<rparr>)"
  using assms by (auto simp: gate_core_def execution_capacity_def)

lemma timed_failure_same: "same_queue g (timed_failure timed g)"
  by (simp add: timed_failure_def record_same_queue split: option.split)

lemma policy_capacity: "policy_ok p \<Longrightarrow> 0 < execution_capacity (set_policy p g)"
  by (simp add: execution_capacity_def set_policy_def policy_ok_def)

lemma close_begin_core:
  assumes "gate_core W n g"
  shows "gate_core W n (snd (close_begin done self g))"
proof -
  have D: "{v \<in> W. gw_granted (g_info (snd (close_begin done self g)) v)} = {v \<in> W. gw_granted (g_info g v)}"
    by (auto simp: close_begin_def close_waiters_def gate_close_def Let_def)
  have "gate_core W n (snd (close_begin done self g)) \<longleftrightarrow> gate_core W n g"
    unfolding gate_core_def D
    using assms [unfolded gate_core_def]
    by (auto simp: close_begin_def close_waiters_def gate_close_def Let_def execution_capacity_def)
  then show ?thesis using assms by simp
qed

lemma gate_resume_core:
  assumes c: "gate_core W n g" and w: "w \<in> W" and r: "gw_ready (g_info g w) = RResult"
  shows "gate_core (W - {w}) (n + 1) g"
proof -
  let ?D = "{v \<in> W. gw_granted (g_info g v)}"
  have "gw_granted (g_info g w)" "w \<notin> set (g_waiters g)" using c w r by (auto simp: gate_core_def)
  moreover have "card ?D = Suc (card (?D - {w}))"
    using c w calculation(1) by (subst card_Suc_Diff1) (auto simp: gate_core_def)
  moreover have "{v \<in> W - {w}. gw_granted (g_info g v)} = ?D - {w}" by auto
  ultimately show ?thesis using c unfolding gate_core_def by (simp add: subset_Diff_insert)
qed

lemma gate_inv_step:
  assumes "gate_step s s'" "gate_inv s"
  shows "gate_inv s'"
proof -
  have core: "gate_core (gy_waiting s) (gy_slots s) (gy_gate s)"
    and nx: "\<forall>w\<in>gy_waiting s. w < gy_next s"
    and st: "gate_stalled s \<Longrightarrow> execution_capacity (gy_gate s) \<le> g_running (gy_gate s)"
    using assms(2) by (auto simp: gate_inv_def)
  have new: "gy_next s \<notin> gy_waiting s" using nx by blast
  from assms(1) show ?thesis
  proof cases
    case (gs_enter_now now allow t g)
    note e = gate_enter_core [OF core gs_enter_now(2) new]
    have "\<not> gate_stalled s'" using e(1,3) gs_enter_now(1) by (auto simp: gate_stalled_def gate_core_def)
    then show ?thesis using e(1) gs_enter_now(1) nx by (simp add: gate_inv_def)
  next
    case (gs_enter_wait now allow t g)
    note e = gate_enter_core [OF core gs_enter_wait(2) new]
    have "execution_capacity (gy_gate s') \<le> g_running (gy_gate s')" if s': "gate_stalled s'"
    proof (rule ccontr)
      assume "\<not> execution_capacity (gy_gate s') \<le> g_running (gy_gate s')"
      then have lt: "\<not> execution_capacity (gy_gate s) \<le> g_running (gy_gate s)"
        using e(2,7) gs_enter_wait(1) by simp
      then obtain w where w: "w \<in> set (g_waiters (gy_gate s))" using e(4) by (cases "g_waiters (gy_gate s)") auto
      have "\<forall>w\<in>set (g_waiters (gy_gate s)). gw_ready (g_info (gy_gate s) w) = RPending"
      proof
        fix v assume v: "v \<in> set (g_waiters (gy_gate s))"
        then have "v \<noteq> gy_next s" using core new by (auto simp: gate_core_def)
        then show "gw_ready (g_info (gy_gate s) v) = RPending"
          using s' v e(5) e(6) gs_enter_wait(1) by (auto simp: gate_stalled_def)
      qed
      then have "gate_stalled s"
        using w core s' gs_enter_wait(1) by (auto simp: gate_stalled_def gate_core_def)
      then show False using st lt by blast
    qed
    then show ?thesis using e(1) gs_enter_wait(1) nx by (auto simp: gate_inv_def less_SucI)
  next
    case (gs_resume w)
    have "gate_stalled s" if "gate_stalled s'" using that gs_resume(1) by (auto simp: gate_stalled_def)
    then show ?thesis
      using gate_resume_core [OF core gs_resume(2,3)] gs_resume(1) nx st by (simp add: gate_inv_def)
  next
    case (gs_abort w t timed)
    let ?g = "timed_failure timed (remove_or_release w (gy_gate s))"
    have "gate_core (gy_waiting s - {w}) (gy_slots s) (remove_or_release w (gy_gate s))"
      unfolding remove_or_release_def by (rule grant_core(1) [OF gate_remove_core [OF core gs_abort(2)]])
    then have "gate_core (gy_waiting s - {w}) (gy_slots s) ?g"
      using same_queue_core [OF timed_failure_same] by blast
    from run_exit_core [OF this, of False t] show ?thesis
      using gs_abort(1) nx
      by (intro gate_inv_grant [of s' "?g\<lparr>g_active := removeAll t (g_active ?g)\<rparr>"]) (auto simp: run_exit_def Let_def)
  next
    case (gs_exit t)
    let ?g = "(gy_gate s)\<lparr>g_running := max 0 (g_running (gy_gate s) - 1)\<rparr>"
    from run_exit_core [OF core, of True t] gs_exit show ?thesis
      using nx by (intro gate_inv_grant [of s' "?g\<lparr>g_active := removeAll t (g_active ?g)\<rparr>"]) (auto simp: run_exit_def Let_def)
  next
    case (gs_policy p)
    have "gate_core (gy_waiting s) (gy_slots s) (set_policy p (gy_gate s))"
      using core policy_capacity [OF gs_policy(2)] by (auto simp: gate_core_def set_policy_def)
    then show ?thesis using gs_policy(1) nx by (simp add: gate_inv_def gate_stalled_def)
  next
    case gs_reconcile
    then show ?thesis using core nx by (intro gate_inv_grant [of s' "gy_gate s"]) auto
  next
    case (gs_close "done" self)
    let ?g = "snd (close_begin done self (gy_gate s))"
    have flds: "g_waiters ?g = g_waiters (gy_gate s)" and bk: "gw_ready (g_info ?g w) = RPending \<Longrightarrow> gw_ready (g_info (gy_gate s) w) = RPending"
      for w by (auto simp: close_begin_def close_waiters_def gate_close_def Let_def split: if_splits)
    have s': "gy_gate s' = ?g" "gy_waiting s' = gy_waiting s" "gy_reconcile s' = gy_reconcile s"
      using gs_close by simp_all
    have "gate_stalled s" if "gate_stalled s'"
      using that bk unfolding gate_stalled_def s' flds by blast
    moreover have "execution_capacity ?g = execution_capacity (gy_gate s)" "g_running ?g = g_running (gy_gate s)"
      by (simp_all add: close_begin_def close_waiters_def gate_close_def Let_def execution_capacity_def)
    ultimately show ?thesis
      using close_begin_core [OF core, of "done" self] gs_close nx st unfolding gate_inv_def by simp
  next
    case (gs_quiet g)
    note q = gate_quiet_same [OF gs_quiet(2)]
    have "gate_stalled s' = gate_stalled s" using q gs_quiet(1) by (simp add: gate_stalled_def same_queue_def)
    then show ?thesis
      using core same_queue_core [OF q] same_queue_capacity [OF q] q gs_quiet(1) nx st
      by (auto simp: gate_inv_def same_queue_def)
  qed
qed


lemma gate_grant_bounded:
  assumes "gate_inv s" "gate_step s s'" "g_running (gy_gate s) < g_running (gy_gate s')"
  shows "g_running (gy_gate s') \<le> execution_capacity (gy_gate s')"
proof -
  have core: "gate_core (gy_waiting s) (gy_slots s) (gy_gate s)" and new: "gy_next s \<notin> gy_waiting s"
    using assms(1) by (auto simp: gate_inv_def)
  have nonneg: "0 \<le> g_running (gy_gate s)" using core by (auto simp: gate_core_def)
  have grant: "g_running (grant_waiters g) \<le> execution_capacity (grant_waiters g)"
    if "gate_core W n g" "g_running g < g_running (grant_waiters g)" for W n g
    using grant_core(3,4) [OF that(1)] that(2) by auto
  from assms(2) show ?thesis
  proof cases
    case (gs_enter_now now allow t g)
    note e = gate_enter_core [OF core gs_enter_now(2) new]
    then show ?thesis using gs_enter_now(1) by simp
  next
    case (gs_enter_wait now allow t g)
    from gate_enter_core(2) [OF core gs_enter_wait(2) new] show ?thesis using gs_enter_wait(1) assms(3) by simp
  next
    case (gs_abort w t timed)
    let ?r = "remove_or_release w (gy_gate s)" and ?W = "gy_waiting s - {w}"
    let ?g = "timed_failure timed ?r"
    note rc = gate_remove_core [OF core gs_abort(2)]
    have r: "gate_core ?W (gy_slots s) ?r" unfolding remove_or_release_def by (rule grant_core(1) [OF rc])
    have rr: "g_running ?r \<le> g_running (gy_gate s) \<or> g_running ?r \<le> execution_capacity ?r"
      using grant_core(3,4) [OF rc] nonneg unfolding remove_or_release_def
      by (auto simp: execution_capacity_def split: if_splits)
    have sq: "same_queue ?r ?g" by (rule timed_failure_same)
    have g: "gate_core ?W (gy_slots s) (?g\<lparr>g_active := removeAll t (g_active ?g)\<rparr>)"
      using run_exit_core [of ?W "gy_slots s" ?g False t] same_queue_core [OF sq] r by simp
    have "gy_gate s' = grant_waiters (?g\<lparr>g_active := removeAll t (g_active ?g)\<rparr>)"
      using gs_abort(1) by (simp add: run_exit_def Let_def)
    then show ?thesis
      using grant_core(3,4) [OF g] rr sq assms(3) same_queue_capacity [OF sq]
      by (auto simp: same_queue_def execution_capacity_def)
  next
    case (gs_exit t)
    let ?g = "(gy_gate s)\<lparr>g_running := max 0 (g_running (gy_gate s) - 1)\<rparr>"
    have g: "gate_core (gy_waiting s) (gy_slots s - 1) (?g\<lparr>g_active := removeAll t (g_active ?g)\<rparr>)"
      using run_exit_core [OF core, of True t] gs_exit(2) by simp
    then show ?thesis
      using nonneg grant_core(3,4) [OF g] gs_exit assms(3) by (auto simp: run_exit_def Let_def)
  next
    case gs_reconcile
    then show ?thesis using grant [OF core] assms(3) by simp
  next
    case (gs_quiet g)
    then show ?thesis using gate_quiet_same [OF gs_quiet(2)] assms(3) by (simp add: same_queue_def)
  qed (use assms(3) in \<open>auto simp: set_policy_def close_begin_def close_waiters_def gate_close_def Let_def\<close>)
qed

interpretation gate: slots gate_step gate_inv "\<lambda>s. g_running (gy_gate s)" "\<lambda>s. execution_capacity (gy_gate s)" gate_stalled
proof unfold_locales
  show "gate_inv s \<Longrightarrow> gate_step s s' \<Longrightarrow> gate_inv s'" for s s' by (rule gate_inv_step)
qed (rule gate_grant_bounded, assumption+, simp add: gate_inv_def)

definition gate_init :: "gate \<Rightarrow> gate_sys" where
  "gate_init g = \<lparr>gy_gate = g, gy_waiting = {}, gy_next = 0, gy_slots = 0, gy_reconcile = 0\<rparr>"

lemma gate_inv_init:
  assumes "new_gate mode p = Inr g" "\<forall>q. p = Some q \<longrightarrow> policy_ok q"
  shows "gate_inv (gate_init g)" "g_running g \<le> execution_capacity g"
  using assms
  by (auto simp: new_gate_def gate_inv_def gate_core_def gate_init_def gate_stalled_def execution_capacity_def
      policy_ok_def default_policy_def split: if_splits option.splits)

abbreviation gate_runs :: "gate \<Rightarrow> gate_sys \<Rightarrow> int \<Rightarrow> bool" where
  "gate_runs g \<equiv> capacity_run gate_step (\<lambda>s. execution_capacity (gy_gate s)) (gate_init g)"



section \<open>The circuit\<close>

text \<open>The failures of a run of operations that end at the given times.\<close>

definition failures :: "real list \<Rightarrow> gate \<Rightarrow> gate" where
  "failures ts g = fold (\<lambda>now. record_failure now False) ts g"

lemma failures_count:
  "g_failures (failures ts g) = g_failures g + int (length ts)"
  "g_policy (failures ts g) = g_policy g" "g_closed (failures ts g) = g_closed g"
  "g_poisoned_timeout (failures ts g) = g_poisoned_timeout g"
  "g_poisoned_sync (failures ts g) = g_poisoned_sync g"
  unfolding failures_def by (induction ts arbitrary: g) (auto simp: record_failure_def Let_def)

lemma failures_below:
  "g_failures g + int (length ts) < failure_threshold (g_policy g) \<Longrightarrow>
    g_open_until (failures ts g) = g_open_until g"
  unfolding failures_def
  by (induction ts arbitrary: g) (auto simp: record_failure_def Let_def)

text \<open>
  The circuit of a plugin that is open for business and has just succeeded: fewer consecutive
  failures than the threshold leave it open for business; from the threshold on, ordinary calls are
  refused until the cooldown after the last failure has passed and accepted afterwards; the next
  success resets it.
\<close>

lemma circuit_breaker_exact:
  assumes "\<not> g_closed g" "\<not> g_poisoned_timeout g" "\<not> g_poisoned_sync g" "0 \<le> now"
    and "h = failures (ts @ [t0]) (record_success g)"
  shows "(ensure_available now False h = Inr ()
      \<longleftrightarrow> int (length ts) + 1 < failure_threshold (g_policy g)
          \<or> t0 + real_of (cooldown_seconds (g_policy g)) \<le> now)
    \<and> ensure_available now False (record_success h) = Inr ()"
proof -
  let ?r = "record_success g"
  have r: "g_failures ?r = 0" "g_open_until ?r = 0" "g_policy ?r = g_policy g" "\<not> g_closed ?r"
    "\<not> g_poisoned_timeout ?r" "\<not> g_poisoned_sync ?r"
    using assms(1-3) by (auto simp: record_success_def Let_def)
  have h: "h = record_failure t0 False (failures ts ?r)" by (simp add: assms(5) failures_def)
  have "g_open_until h = (if int (length ts) + 1 < failure_threshold (g_policy g) then 0
      else t0 + real_of (cooldown_seconds (g_policy g)))"
    using failures_below [of ?r ts] failures_count [of ts ?r] r
    by (auto simp: h record_failure_def Let_def)
  moreover have "\<not> g_closed h" "\<not> g_poisoned_timeout h" "\<not> g_poisoned_sync h"
    using failures_count [of "ts @ [t0]" ?r] r by (simp_all add: assms(5))
  ultimately show ?thesis
    using assms(4) by (auto simp: ensure_available_def record_success_def Let_def)
qed

end
