(* ===== verification/Sync_Broker.thy ===== *)
theory Sync_Broker
  imports Exec_Gate
begin

text \<open>
  The broker of the synchronous callbacks of all plugins (\<^verbatim>\<open>core/plugin_execution.py\<close>,
  \<^verbatim>\<open>PluginSyncBroker\<close>): bounded queues, one lane for each gate, served in turn by a bounded number of
  workers. A job is its place in the list of all jobs ever submitted; its number also names the future
  of the worker that runs it. Every operation runs under the lock of the broker; the calls a gate
  receives after the lock is released belong to the same operation here.
\<close>

section \<open>State\<close>

type_synonym gid = nat
type_synonym jid = nat

datatype lane = GateLane gid | FallbackLane

datatype job_state = Queued | Running | Terminal | Dropped

text \<open>How a callback ended; an error that is not an ordinary exception has an identity.\<close>

datatype outcome = Returned | Raised "obj option" | WasCancelled

text \<open>The future of the caller.\<close>

datatype completion = Awaited | Completed | Failed | Cancelled

record job =
  j_lane :: lane
  j_gate :: "gid option"
  j_allow_closed :: bool
  j_state :: job_state
  j_future :: bool
  j_detached :: bool
  j_delivered :: bool
  j_outcome :: "outcome option"
  j_fatal_deferred :: bool
  j_delivery_pending :: bool
  j_completion :: completion
  j_cancel_due :: bool

record broker =
  b_max_workers :: int
  b_queue_limit :: int
  b_queues :: "(lane, jid list) dict"
  b_ready :: "lane list"
  b_ready_set :: "lane set"
  b_running_by :: "(lane, int) dict"
  b_queued :: int
  b_running :: int
  b_pending :: int
  b_closed :: bool
  b_executor :: bool
  b_shutdown :: bool
  b_jobs :: "job list"
  b_gates :: "gid \<Rightarrow> gate"

text \<open>
  What the surroundings decide during an operation: which event loops still take calls, which starts
  of a worker fail (with a fatal error or not), and which futures have ended.
\<close>

record env =
  e_alive :: "jid \<Rightarrow> bool"
  e_start_error :: "jid \<Rightarrow> obj option option"
  e_done :: "jid \<Rightarrow> bool"

definition new_broker :: "int \<Rightarrow> int \<Rightarrow> (gid \<Rightarrow> gate) \<Rightarrow> pyerr + broker" where
  "new_broker workers limit gates =
     (if workers < 1 then Inl (ValueError ''max_workers must be a positive integer'')
      else if limit < 1 then Inl (ValueError ''global_queue_limit must be a positive integer'')
      else Inr \<lparr>b_max_workers = workers, b_queue_limit = limit, b_queues = [], b_ready = [], b_ready_set = {},
        b_running_by = [], b_queued = 0, b_running = 0, b_pending = 0, b_closed = False,
        b_executor = False, b_shutdown = False, b_jobs = [], b_gates = gates\<rparr>)"

definition broker_drained :: "broker \<Rightarrow> bool" where
  "broker_drained b \<longleftrightarrow> b_queued b = 0 \<and> b_running b = 0 \<and> b_pending b = 0"

definition upd_job :: "jid \<Rightarrow> (job \<Rightarrow> job) \<Rightarrow> broker \<Rightarrow> broker" where
  "upd_job j f b = b\<lparr>b_jobs := (b_jobs b)[j := f (b_jobs b ! j)]\<rparr>"

definition upd_gate :: "gid option \<Rightarrow> (gate \<Rightarrow> gate) \<Rightarrow> broker \<Rightarrow> broker" where
  "upd_gate g f b = (case g of
      Some i \<Rightarrow> b\<lparr>b_gates := (b_gates b)(i := f (b_gates b i))\<rparr>
    | None \<Rightarrow> b)"

definition queue_of :: "broker \<Rightarrow> lane \<Rightarrow> jid list" where
  "queue_of b l = (case dget (b_queues b) l of Some q \<Rightarrow> q | None \<Rightarrow> [])"

definition running_of :: "broker \<Rightarrow> lane \<Rightarrow> int" where
  "running_of b l = (case dget (b_running_by b) l of Some n \<Rightarrow> n | None \<Rightarrow> 0)"

section \<open>Lanes\<close>

text \<open>With two workers or more a plugin never gets all of them.\<close>

definition lane_running_limit :: "broker \<Rightarrow> lane \<Rightarrow> int" where
  "lane_running_limit b l = (case l of
      GateLane g \<Rightarrow> max 1 (min (sync_parallel_limit (g_policy (b_gates b g)))
                              (if b_max_workers b > 1 then b_max_workers b - 1 else 1))
    | FallbackLane \<Rightarrow> b_max_workers b)"

definition lane_queue_limit :: "broker \<Rightarrow> lane \<Rightarrow> int" where
  "lane_queue_limit b l = (case l of
      GateLane g \<Rightarrow> sync_queue_limit (g_policy (b_gates b g))
    | FallbackLane \<Rightarrow> b_queue_limit b)"

definition queue_lane :: "lane \<Rightarrow> broker \<Rightarrow> broker" where
  "queue_lane l b =
     (if queue_of b l = [] \<or> l \<in> b_ready_set b then b
      else if running_of b l \<ge> lane_running_limit b l then b
      else b\<lparr>b_ready := b_ready b @ [l], b_ready_set := insert l (b_ready_set b)\<rparr>)"

definition drop_stale_ready :: "lane \<Rightarrow> broker \<Rightarrow> broker" where
  "drop_stale_ready l b =
     (if l \<notin> b_ready_set b then b
      else b\<lparr>b_ready_set := b_ready_set b - {l}, b_ready := filter (\<lambda>x. x \<noteq> l) (b_ready b)\<rparr>)"

text \<open>The two assertions of the source are the lemma \<open>release_asserts\<close> below.\<close>

definition release_running_slot :: "lane \<Rightarrow> broker \<Rightarrow> broker" where
  "release_running_slot l b =
     (let b1 = b\<lparr>b_running := b_running b - 1\<rparr>
      in if running_of b1 l = 1 then b1\<lparr>b_running_by := ddel l (b_running_by b1)\<rparr>
         else b1\<lparr>b_running_by := dset l (running_of b1 l - 1) (b_running_by b1)\<rparr>)"

definition take_drained_executor :: "broker \<Rightarrow> broker" where
  "take_drained_executor b =
     (if \<not> b_closed b \<or> b_queued b \<noteq> 0 \<or> b_running b \<noteq> 0 \<or> b_pending b \<noteq> 0 \<or> b_shutdown b \<or> \<not> b_executor b
      then b else b\<lparr>b_executor := False, b_shutdown := True\<rparr>)"

text \<open>A queued job that will not run: its caller is told through the loop when that still takes calls.\<close>

definition drop_job :: "env \<Rightarrow> jid \<Rightarrow> broker \<Rightarrow> broker" where
  "drop_job env j = upd_job j (\<lambda>x. x\<lparr>j_state := Dropped, j_detached := True, j_cancel_due := e_alive env j\<rparr>)"

text \<open>The lane after a job left its queue.\<close>

definition after_pop :: "lane \<Rightarrow> broker \<Rightarrow> broker" where
  "after_pop l b =
     (if queue_of b l \<noteq> [] then queue_lane l b
      else if running_of b l = 0 then b\<lparr>b_queues := ddel l (b_queues b)\<rparr>
      else b)"

section \<open>Delivery of outcomes\<close>

definition job_fatal :: "job \<Rightarrow> obj option" where
  "job_fatal x = (case j_outcome x of
      Some (Raised (Some e)) \<Rightarrow> if j_gate x \<noteq> None \<and> \<not> j_fatal_deferred x then Some e else None
    | _ \<Rightarrow> None)"

text \<open>\<^verbatim>\<open>_defer_fatal_locked\<close> and the call of \<^verbatim>\<open>_defer_fatal_error\<close> that follows it.\<close>

definition defer_fatal :: "jid \<Rightarrow> broker \<Rightarrow> broker" where
  "defer_fatal j b = (case job_fatal (b_jobs b ! j) of
      Some e \<Rightarrow> upd_gate (j_gate (b_jobs b ! j)) (defer_fatal_error e)
                 (upd_job j (\<lambda>x. x\<lparr>j_fatal_deferred := True\<rparr>) b)
    | None \<Rightarrow> b)"

definition discard_future :: "env \<Rightarrow> jid \<Rightarrow> broker \<Rightarrow> broker" where
  "discard_future env j b =
     (if j_future (b_jobs b ! j) then upd_gate (j_gate (b_jobs b ! j)) (discard_sync_future (e_done env) j) b else b)"

text \<open>A job nobody awaits any more is finished in the worker.\<close>

definition finish_detached :: "env \<Rightarrow> jid \<Rightarrow> broker \<Rightarrow> broker" where
  "finish_detached env j b = discard_future env j (defer_fatal j (upd_job j (\<lambda>x. x\<lparr>j_delivered := True\<rparr>) b))"

definition schedule_delivery :: "env \<Rightarrow> jid \<Rightarrow> broker \<Rightarrow> broker" where
  "schedule_delivery env j b =
     (if j_detached (b_jobs b ! j) then finish_detached env j b
      else if e_alive env j
      then upd_job j (\<lambda>x. x\<lparr>j_delivery_pending := True\<rparr>) (b\<lparr>b_pending := b_pending b + 1\<rparr>)
      else finish_detached env j (upd_job j (\<lambda>x. x\<lparr>j_detached := True\<rparr>) b))"

section \<open>Dispatching\<close>

definition job_refused :: "broker \<Rightarrow> job \<Rightarrow> bool" where
  "job_refused b x \<longleftrightarrow> (case j_gate x of Some g \<Rightarrow> g_closed (b_gates b g) \<and> \<not> j_allow_closed x | None \<Rightarrow> False)"

definition start_error :: "env \<Rightarrow> jid \<Rightarrow> broker \<Rightarrow> obj option option" where
  "start_error env j b = (if \<not> b_executor b \<and> b_shutdown b then Some None else e_start_error env j)"

definition start_job :: "env \<Rightarrow> lane \<Rightarrow> jid \<Rightarrow> broker \<Rightarrow> broker" where
  "start_job env l j b =
     (let b1 = upd_job j (\<lambda>x. x\<lparr>j_state := Running\<rparr>)
                 (b\<lparr>b_running := b_running b + 1, b_running_by := dset l (running_of b l + 1) (b_running_by b)\<rparr>)
      in case start_error env j b1 of
           Some fatal \<Rightarrow> queue_lane l (after_pop l (schedule_delivery env j
             (upd_job j (\<lambda>x. x\<lparr>j_state := Terminal, j_outcome := Some (Raised fatal)\<rparr>) (release_running_slot l b1))))
         | None \<Rightarrow> after_pop l (upd_gate (j_gate (b_jobs b1 ! j)) (register_sync_future j)
             (upd_job j (\<lambda>x. x\<lparr>j_future := True\<rparr>) (b1\<lparr>b_executor := True\<rparr>))))"

text \<open>One turn of the loop: the first lane that is ready gives at most one job.\<close>

definition dispatch_turn :: "env \<Rightarrow> broker \<Rightarrow> broker" where
  "dispatch_turn env b = (case b_ready b of
      [] \<Rightarrow> b
    | l # ls \<Rightarrow>
        (let b1 = b\<lparr>b_ready := ls, b_ready_set := b_ready_set b - {l}\<rparr> in
         case queue_of b1 l of
           [] \<Rightarrow> b1\<lparr>b_queues := ddel l (b_queues b1)\<rparr>
         | j # q \<Rightarrow>
             (if running_of b1 l \<ge> lane_running_limit b1 l then b1
              else let b2 = b1\<lparr>b_queues := dset l q (b_queues b1), b_queued := b_queued b1 - 1\<rparr>
                   in if job_refused b2 (b_jobs b2 ! j) then after_pop l (drop_job env j b2)
                      else start_job env l j b2)))"

text \<open>Each turn takes a job out of a queue or a lane off the list of ready lanes.\<close>

definition waiting_jobs :: "broker \<Rightarrow> nat" where
  "waiting_jobs b = sum_list (map (\<lambda>(l, q). length q) (b_queues b))"

lemma queue_total_dset:
  "dget d l = Some q \<Longrightarrow> length q' < length q \<Longrightarrow>
    sum_list (map (\<lambda>(l, q). length q) (dset l q' d)) < sum_list (map (\<lambda>(l, q). length q) d)"
  by (induction d) (auto split: if_splits)

lemma queue_total_ddel:
  "sum_list (map (\<lambda>(l, q). length q) (ddel l d)) \<le> sum_list (map (\<lambda>(l, q). length q) (d :: ('a, 'b list) dict))"
  by (induction d) auto

lemma upd_simps [simp]:
  "b_queues (upd_job j f b) = b_queues b" "b_ready (upd_job j f b) = b_ready b"
  "b_queues (upd_gate g h b) = b_queues b" "b_ready (upd_gate g h b) = b_ready b"
  "b_ready_set (upd_job j f b) = b_ready_set b" "b_ready_set (upd_gate g h b) = b_ready_set b"
  "b_running_by (upd_job j f b) = b_running_by b" "b_running_by (upd_gate g h b) = b_running_by b"
  "b_max_workers (upd_job j f b) = b_max_workers b" "b_max_workers (upd_gate g h b) = b_max_workers b"
  "b_queued (upd_job j f b) = b_queued b" "b_queued (upd_gate g h b) = b_queued b"
  "b_running (upd_job j f b) = b_running b" "b_running (upd_gate g h b) = b_running b"
  "b_pending (upd_job j f b) = b_pending b" "b_pending (upd_gate g h b) = b_pending b"
  "b_gates (upd_job j f b) = b_gates b" "b_jobs (upd_gate g h b) = b_jobs b"
  "b_queue_limit (upd_job j f b) = b_queue_limit b" "b_queue_limit (upd_gate g h b) = b_queue_limit b"
  "b_closed (upd_job j f b) = b_closed b" "b_closed (upd_gate g h b) = b_closed b"
  by (simp_all add: upd_job_def upd_gate_def split: option.split)

lemma queue_lane_simps [simp]: "b_queues (queue_lane l b) = b_queues b"
  by (simp add: queue_lane_def)

lemma after_pop_waiting: "waiting_jobs (after_pop l b) \<le> waiting_jobs b"
  using queue_total_ddel [of l "b_queues b"] by (simp add: after_pop_def waiting_jobs_def)

lemma delivery_queues [simp]: "b_queues (schedule_delivery env j b) = b_queues b"
  by (simp add: schedule_delivery_def finish_detached_def discard_future_def defer_fatal_def split: option.split)

lemma waiting_upd [simp]:
  "waiting_jobs (upd_job j f b) = waiting_jobs b" "waiting_jobs (upd_gate g h b) = waiting_jobs b"
  "waiting_jobs (schedule_delivery env j b) = waiting_jobs b"
  "waiting_jobs (queue_lane l b) = waiting_jobs b"
  "waiting_jobs (release_running_slot l b) = waiting_jobs b"
  by (simp_all add: waiting_jobs_def release_running_slot_def Let_def)

lemma start_job_waiting: "waiting_jobs (start_job env l j b) \<le> waiting_jobs b"
proof -
  have w: "waiting_jobs (after_pop l c) \<le> waiting_jobs b" if "waiting_jobs c = waiting_jobs b" for c
    using after_pop_waiting [of l c] that by simp
  show ?thesis
    by (auto simp: start_job_def Let_def intro!: w split: option.split) (auto simp: waiting_jobs_def)
qed

lemma dispatch_turn_decreases:
  assumes "b_ready b \<noteq> []"
  shows "waiting_jobs (dispatch_turn env b) < waiting_jobs b
    \<or> waiting_jobs (dispatch_turn env b) \<le> waiting_jobs b \<and> length (b_ready (dispatch_turn env b)) < length (b_ready b)"
proof -
  obtain l ls where r: "b_ready b = l # ls" using assms by (cases "b_ready b") auto
  let ?b1 = "b\<lparr>b_ready := ls, b_ready_set := b_ready_set b - {l}\<rparr>"
  show ?thesis
  proof (cases "queue_of ?b1 l")
    case Nil
    then show ?thesis
      using r queue_total_ddel [of l "b_queues b"] by (simp add: dispatch_turn_def waiting_jobs_def Let_def)
  next
    case (Cons j q)
    let ?b2 = "?b1\<lparr>b_queues := dset l q (b_queues ?b1), b_queued := b_queued ?b1 - 1\<rparr>"
    have "dget (b_queues b) l = Some (j # q)" using Cons by (auto simp: queue_of_def split: option.splits)
    then have dec: "waiting_jobs ?b2 < waiting_jobs b"
      using queue_total_dset [of "b_queues b" l "j # q" q] by (simp add: waiting_jobs_def)
    have "waiting_jobs (after_pop l (drop_job env j ?b2)) \<le> waiting_jobs ?b2"
      using after_pop_waiting [of l "drop_job env j ?b2"] by (simp add: drop_job_def)
    moreover have "waiting_jobs (start_job env l j ?b2) \<le> waiting_jobs ?b2" by (rule start_job_waiting)
    moreover have "waiting_jobs ?b1 = waiting_jobs b" by (simp add: waiting_jobs_def)
    ultimately show ?thesis
      using r Cons dec by (simp add: dispatch_turn_def Let_def)
  qed
qed

function dispatch :: "env \<Rightarrow> broker \<Rightarrow> broker" where
  "dispatch env b =
     (if b_running b < b_max_workers b \<and> b_ready b \<noteq> [] then dispatch env (dispatch_turn env b) else b)"
  by pat_completeness auto
termination
proof (relation "inv_image (less_than <*lex*> less_than) (\<lambda>(env, b). (waiting_jobs b, length (b_ready b)))")
  fix env :: env and b :: broker
  assume "b_running b < b_max_workers b \<and> b_ready b \<noteq> []"
  then show "((env, dispatch_turn env b), env, b)
      \<in> inv_image (less_than <*lex*> less_than) (\<lambda>(env, b). (waiting_jobs b, length (b_ready b)))"
    using dispatch_turn_decreases [of b env] by auto
qed auto

declare dispatch.simps [simp del]


section \<open>Operations\<close>

definition configure :: "env \<Rightarrow> int \<Rightarrow> broker \<Rightarrow> pyerr + broker" where
  "configure env limit b =
     (if limit < 1 \<or> 100000 < limit then Inl (ValueError ''global_queue_limit must be between 1 and 100000'')
      else Inr (dispatch env (b\<lparr>b_queue_limit := limit\<rparr>)))"

definition notify_policy_change :: "env \<Rightarrow> gid \<Rightarrow> broker \<Rightarrow> broker" where
  "notify_policy_change env g b =
     dispatch env (if dget (b_queues b) (GateLane g) \<noteq> None then queue_lane (GateLane g) b else b)"

text \<open>The changes of a gate that the broker hears of.\<close>

definition broker_set_policy :: "env \<Rightarrow> gid \<Rightarrow> policy \<Rightarrow> broker \<Rightarrow> broker" where
  "broker_set_policy env g p b = notify_policy_change env g (upd_gate (Some g) (set_policy p) b)"

definition broker_release_hold :: "env \<Rightarrow> gid \<Rightarrow> obj \<Rightarrow> broker \<Rightarrow> pyerr + broker" where
  "broker_release_hold env g token b =
     bindE (release_publication_hold token (b_gates b g)) (\<lambda>gate.
       Inr (notify_policy_change env g (upd_gate (Some g) (\<lambda>_. gate) b)))"

definition close_gate_admission :: "env \<Rightarrow> gid \<Rightarrow> broker \<Rightarrow> broker" where
  "close_gate_admission env g b =
     (let l = GateLane g; q = queue_of b l in
      if q = [] then b
      else let gone = filter (\<lambda>j. \<not> j_allow_closed (b_jobs b ! j)) q;
               retained = filter (\<lambda>j. j_allow_closed (b_jobs b ! j)) q;
               b1 = fold (drop_job env) gone (b\<lparr>b_queued := b_queued b - int (length gone)\<rparr>);
               b2 = drop_stale_ready l b1;
               b3 = (if retained \<noteq> [] then queue_lane l (b2\<lparr>b_queues := dset l retained (b_queues b2)\<rparr>)
                     else if running_of b2 l = 0 then b2\<lparr>b_queues := ddel l (b_queues b2)\<rparr>
                     else b2\<lparr>b_queues := dset l [] (b_queues b2)\<rparr>)
           in dispatch env b3)"

definition broker_close_gate :: "env \<Rightarrow> gid \<Rightarrow> broker \<Rightarrow> broker" where
  "broker_close_gate env g b = close_gate_admission env g (upd_gate (Some g) gate_close b)"

definition broker_hold_gate :: "env \<Rightarrow> gid \<Rightarrow> obj \<Rightarrow> broker \<Rightarrow> pyerr + broker" where
  "broker_hold_gate env g token b =
     bindE (hold_for_publication token (b_gates b g)) (\<lambda>gate.
       Inr (close_gate_admission env g (upd_gate (Some g) (\<lambda>_. gate) b)))"

definition new_job :: "gid option \<Rightarrow> bool \<Rightarrow> job" where
  "new_job g allow = \<lparr>j_lane = (case g of Some i \<Rightarrow> GateLane i | None \<Rightarrow> FallbackLane), j_gate = g,
     j_allow_closed = allow, j_state = Queued, j_future = False, j_detached = False, j_delivered = False,
     j_outcome = None, j_fatal_deferred = False, j_delivery_pending = False, j_completion = Awaited,
     j_cancel_due = False\<rparr>"

definition submit :: "env \<Rightarrow> gid option \<Rightarrow> bool \<Rightarrow> broker \<Rightarrow> (pyerr + jid) \<times> broker" where
  "submit env g allow b =
     (let x = new_job g allow; l = j_lane x; j = length (b_jobs b) in
      if b_closed b then (Inl exec_closed, b)
      else let b1 = (if dget (b_queues b) l = None then b\<lparr>b_queues := dset l [] (b_queues b)\<rparr> else b);
               q = queue_of b1 l;
               running = running_of b1 l;
               immediate = (b_running b1 < b_max_workers b1 \<and> running < lane_running_limit b1 l
                            \<and> q = [] \<and> b_ready b1 = []);
               refused = (if q = [] \<and> running = 0 then b1\<lparr>b_queues := ddel l (b_queues b1)\<rparr> else b1)
           in if \<not> immediate \<and> int (length q) \<ge> lane_queue_limit b1 l then (Inl exec_overloaded, refused)
              else if \<not> immediate \<and> b_queued b1 \<ge> b_queue_limit b1 then (Inl exec_overloaded, refused)
              else (Inr j, dispatch env (queue_lane l
                (b1\<lparr>b_jobs := b_jobs b1 @ [x], b_queues := dset l (q @ [j]) (b_queues b1), b_queued := b_queued b1 + 1\<rparr>))))"

text \<open>The callback of a worker has ended.\<close>

definition complete :: "env \<Rightarrow> jid \<Rightarrow> outcome \<Rightarrow> broker \<Rightarrow> broker" where
  "complete env j out b =
     (if j_state (b_jobs b ! j) \<noteq> Running then b
      else let l = j_lane (b_jobs b ! j);
               b1 = release_running_slot l (upd_job j (\<lambda>x. x\<lparr>j_state := Terminal\<rparr>) b);
               b2 = schedule_delivery env j (upd_job j (\<lambda>x. x\<lparr>j_outcome := Some out\<rparr>) b1);
               b3 = (if queue_of b2 l \<noteq> [] then queue_lane l b2 else b2\<lparr>b_queues := ddel l (b_queues b2)\<rparr>)
           in take_drained_executor (dispatch env b3))"

text \<open>The delivery on the loop of the caller.\<close>

definition deliver_to :: "outcome option \<Rightarrow> completion" where
  "deliver_to out = (case out of Some Returned \<Rightarrow> Completed | Some WasCancelled \<Rightarrow> Cancelled | _ \<Rightarrow> Failed)"

definition deliver :: "env \<Rightarrow> jid \<Rightarrow> broker \<Rightarrow> broker" where
  "deliver env j b =
     (if j_delivered (b_jobs b ! j) then b
      else let b1 = upd_job j (\<lambda>x. x\<lparr>j_delivered := True\<rparr>) b;
               b2 = (if j_delivery_pending (b_jobs b1 ! j)
                     then upd_job j (\<lambda>x. x\<lparr>j_delivery_pending := False\<rparr>) (b1\<lparr>b_pending := max 0 (b_pending b1 - 1)\<rparr>)
                     else b1);
               b3 = (if j_detached (b_jobs b2 ! j) then defer_fatal j b2
                     else if j_completion (b_jobs b2 ! j) = Awaited
                     then upd_job j (\<lambda>x. x\<lparr>j_completion := deliver_to (j_outcome x)\<rparr>) b2 else b2)
           in discard_future env j (take_drained_executor b3))"

text \<open>The scheduled cancellation of a dropped job.\<close>

definition run_cancel :: "jid \<Rightarrow> broker \<Rightarrow> broker" where
  "run_cancel j = upd_job j (\<lambda>x. x\<lparr>j_cancel_due := False,
     j_completion := (if j_completion x = Awaited then Cancelled else j_completion x)\<rparr>)"

text \<open>
  The caller gives up. \<open>cancelled\<close> tells that a future that has not ended was still cancelled before its
  worker started it; its end is then handled at once.
\<close>

definition cancel_completion :: "jid \<Rightarrow> broker \<Rightarrow> broker" where
  "cancel_completion j =
     upd_job j (\<lambda>x. x\<lparr>j_completion := (if j_completion x = Awaited then Cancelled else j_completion x)\<rparr>)"

definition cancel_queued :: "env \<Rightarrow> jid \<Rightarrow> broker \<Rightarrow> broker" where
  "cancel_queued env j b =
     (let l = j_lane (b_jobs b ! j);
          b1 = (if j \<in> set (queue_of b l)
                then b\<lparr>b_queues := dset l (remove1 j (queue_of b l)) (b_queues b), b_queued := b_queued b - 1\<rparr> else b);
          b2 = upd_job j (\<lambda>x. x\<lparr>j_state := Dropped, j_detached := True\<rparr>) b1;
          b3 = after_pop l (drop_stale_ready l b2)
      in dispatch env (cancel_completion j b3))"

definition cancel_started :: "env \<Rightarrow> bool \<Rightarrow> jid \<Rightarrow> broker \<Rightarrow> broker" where
  "cancel_started env cancelled j b =
     (let x0 = b_jobs b ! j;
          b1 = upd_job j (\<lambda>x. x\<lparr>j_detached := True\<rparr>) b;
          marked = j_future x0 \<and> \<not> e_done env j;
          b2 = (if marked \<and> cancelled then complete env j WasCancelled b1 else b1);
          x2 = b_jobs b2 ! j;
          dead = (j_state x2 = Terminal);
          taken = (dead \<and> \<not> j_delivered x2 \<and> j_delivery_pending x2);
          b3 = (if dead then defer_fatal j b2 else b2);
          b4 = (if taken then upd_job j (\<lambda>x. x\<lparr>j_delivered := True, j_delivery_pending := False\<rparr>)
                     (b3\<lparr>b_pending := max 0 (b_pending b3 - 1)\<rparr>) else b3);
          b5 = (if dead then take_drained_executor (cancel_completion j b4) else b4);
          b6 = (if marked then upd_gate (j_gate x0) (mark_detached_sync j) b5 else b5)
      in if taken then discard_future env j b6 else b6)"

definition cancel_or_detach :: "env \<Rightarrow> bool \<Rightarrow> jid \<Rightarrow> broker \<Rightarrow> broker" where
  "cancel_or_detach env cancelled j b =
     (if j_state (b_jobs b ! j) = Queued then cancel_queued env j b else cancel_started env cancelled j b)"

definition cancel_all_queued :: "env \<Rightarrow> broker \<Rightarrow> broker" where
  "cancel_all_queued env b =
     (fold (drop_job env) (filter (\<lambda>j. j_state (b_jobs b ! j) = Queued) (concat (map snd (b_queues b)))) b)
       \<lparr>b_queues := [], b_ready := [], b_ready_set := {}, b_queued := 0\<rparr>"

text \<open>Closing: at once, and the result after the bounded wait for the workers.\<close>

definition broker_close_begin :: "env \<Rightarrow> broker \<Rightarrow> broker" where
  "broker_close_begin env b = cancel_all_queued env (b\<lparr>b_closed := True\<rparr>)"

record broker_drain =
  bd_drained :: bool
  bd_pending :: int
  bd_queued :: int

definition broker_close_end :: "broker \<Rightarrow> broker_drain \<times> broker" where
  "broker_close_end b =
     (let pending = b_running b + b_pending b; drained = (pending = 0 \<and> b_queued b = 0)
      in (\<lparr>bd_drained = drained, bd_pending = pending, bd_queued = b_queued b\<rparr>,
          if drained then take_drained_executor b else b))"

section \<open>Accounts\<close>

text \<open>The jobs with a property, counted in the list of all jobs.\<close>

definition count_jobs :: "(job \<Rightarrow> bool) \<Rightarrow> job list \<Rightarrow> nat" where
  "count_jobs P xs = card {i. i < length xs \<and> P (xs ! i)}"

lemma count_jobs_Nil [simp]: "count_jobs P [] = 0"
  by (simp add: count_jobs_def)

lemma count_jobs_filter: "count_jobs P xs = length (filter P xs)"
  by (simp add: count_jobs_def length_filter_conv_card)

lemma count_jobs_append [simp]: "count_jobs P (xs @ [x]) = count_jobs P xs + (if P x then 1 else 0)"
  by (simp add: count_jobs_filter)

lemma count_jobs_update:
  assumes "j < length xs"
  shows "int (count_jobs P (xs[j := x])) =
    int (count_jobs P xs) - (if P (xs ! j) then 1 else 0) + (if P x then 1 else 0)"
  using assms
proof (induction xs arbitrary: j)
  case (Cons a xs)
  show ?case
  proof (cases j)
    case (Suc i)
    with Cons.IH [of i] Cons.prems show ?thesis by (auto simp: count_jobs_filter)
  qed (simp add: count_jobs_filter)
qed simp

lemma count_jobs_zero: "count_jobs P xs = 0 \<longleftrightarrow> (\<forall>x\<in>set xs. \<not> P x)"
  by (simp add: count_jobs_filter filter_empty_conv)

abbreviation is_queued :: "job \<Rightarrow> bool" where
  "is_queued x \<equiv> j_state x = Queued"

abbreviation is_running :: "job \<Rightarrow> bool" where
  "is_running x \<equiv> j_state x = Running"

text \<open>
  The queues hold exactly the queued jobs of their lanes, the counters count, the workers and the share
  of a plugin in them are bounded.
\<close>

definition acct :: "broker \<Rightarrow> bool" where
  "acct b \<longleftrightarrow>
     (\<forall>l j. j \<in> set (queue_of b l) \<longleftrightarrow> j < length (b_jobs b) \<and> is_queued (b_jobs b ! j) \<and> j_lane (b_jobs b ! j) = l)
     \<and> (\<forall>l. distinct (queue_of b l))
     \<and> b_queued b = int (count_jobs is_queued (b_jobs b))
     \<and> b_running b = int (count_jobs is_running (b_jobs b))
     \<and> (\<forall>l. running_of b l = int (count_jobs (\<lambda>x. is_running x \<and> j_lane x = l) (b_jobs b)))
     \<and> b_pending b = int (count_jobs j_delivery_pending (b_jobs b))
     \<and> distinct (b_ready b) \<and> set (b_ready b) = b_ready_set b
     \<and> 0 < b_max_workers b \<and> b_running b \<le> b_max_workers b
     \<and> (1 < b_max_workers b \<longrightarrow> (\<forall>g. running_of b (GateLane g) < b_max_workers b))"

text \<open>The parts of a broker that the accounts read.\<close>

definition same_accounts :: "broker \<Rightarrow> broker \<Rightarrow> bool" where
  "same_accounts b c \<longleftrightarrow> b_jobs c = b_jobs b \<and> (\<forall>l. queue_of c l = queue_of b l) \<and> b_queued c = b_queued b
     \<and> b_running c = b_running b \<and> (\<forall>l. running_of c l = running_of b l) \<and> b_pending c = b_pending b
     \<and> distinct (b_ready c) \<and> set (b_ready c) = b_ready_set c \<and> b_max_workers c = b_max_workers b"

lemma acct_same: "acct b \<Longrightarrow> (distinct (b_ready b) \<and> set (b_ready b) = b_ready_set b \<Longrightarrow> same_accounts b c) \<Longrightarrow> acct c"
  unfolding acct_def same_accounts_def by auto

text \<open>One job changes its state; every other part of the accounts follows.\<close>

lemma acct_move:
  assumes "acct b" "j < length (b_jobs b)"
    and "b_jobs c = (b_jobs b)[j := x']" "j_lane x' = j_lane (b_jobs b ! j)"
    and "is_queued x' \<Longrightarrow> is_queued (b_jobs b ! j)"
    and "\<And>l. queue_of c l = (if l = j_lane x' \<and> \<not> is_queued x' then remove1 j (queue_of b l) else queue_of b l)"
    and "b_queued c = b_queued b - (if is_queued (b_jobs b ! j) then 1 else 0) + (if is_queued x' then 1 else 0)"
    and "b_running c = b_running b - (if is_running (b_jobs b ! j) then 1 else 0) + (if is_running x' then 1 else 0)"
    and "\<And>l. running_of c l = running_of b l
      + (if l = j_lane x' then (if is_running x' then 1 else 0) - (if is_running (b_jobs b ! j) then 1 else 0) else 0)"
    and "b_pending c = b_pending b - (if j_delivery_pending (b_jobs b ! j) then 1 else 0)
      + (if j_delivery_pending x' then 1 else 0)"
    and "distinct (b_ready c)" "set (b_ready c) = b_ready_set c"
    and "b_max_workers c = b_max_workers b" "b_running c \<le> b_max_workers b"
    and "\<And>g. 1 < b_max_workers b \<Longrightarrow> running_of c (GateLane g) < b_max_workers b"
  shows "acct c"
proof -
  note a = assms(1) [unfolded acct_def]
  have q: "i \<in> set (queue_of c l) \<longleftrightarrow> i < length (b_jobs c) \<and> is_queued (b_jobs c ! i) \<and> j_lane (b_jobs c ! i) = l" for i l
    using a assms(2-6) by (cases "i = j") (auto simp: in_set_remove1 nth_list_update split: if_splits)
  have d: "distinct (queue_of c l)" for l using a assms(6) by simp
  have r: "running_of c l = int (count_jobs (\<lambda>x. is_running x \<and> j_lane x = l) (b_jobs c))" for l
    using a assms(2-4,9) count_jobs_update [OF assms(2), of "\<lambda>x. is_running x \<and> j_lane x = l" x'] by auto
  show ?thesis
    unfolding acct_def
    using a assms(3,7,8,10-15) q d r count_jobs_update [OF assms(2), of is_queued x']
      count_jobs_update [OF assms(2), of is_running x'] count_jobs_update [OF assms(2), of j_delivery_pending x']
    by simp
qed

lemma acct_ready: "acct b \<Longrightarrow> distinct (b_ready b) \<and> set (b_ready b) = b_ready_set b"
  by (simp add: acct_def)

lemma acct_gate: "acct b \<Longrightarrow> acct (upd_gate g h b)"
  by (erule acct_same)
    (auto simp: same_accounts_def upd_gate_def queue_of_def running_of_def split: option.split)

lemma acct_queue_lane: "acct b \<Longrightarrow> acct (queue_lane l b)"
  by (erule acct_same) (auto simp: same_accounts_def queue_lane_def queue_of_def running_of_def)

lemma acct_drop_stale: "acct b \<Longrightarrow> acct (drop_stale_ready l b)"
  by (erule acct_same) (auto simp: same_accounts_def drop_stale_ready_def queue_of_def running_of_def)

lemma queue_of_ddel: "queue_of (b\<lparr>b_queues := ddel l (b_queues b)\<rparr>) l' = (if l' = l then [] else queue_of b l')"
  by (simp add: queue_of_def)

lemma queue_of_dset: "queue_of (b\<lparr>b_queues := dset l q (b_queues b)\<rparr>) l' = (if l' = l then q else queue_of b l')"
  by (simp add: queue_of_def)

lemma running_of_queues [simp]: "running_of (b\<lparr>b_queues := q\<rparr>) l = running_of b l"
  by (simp add: running_of_def)

lemma acct_ddel: "acct b \<Longrightarrow> queue_of b l = [] \<Longrightarrow> acct (b\<lparr>b_queues := ddel l (b_queues b)\<rparr>)"
  by (erule acct_same) (auto simp: same_accounts_def queue_of_ddel)

lemma acct_after_pop: "acct b \<Longrightarrow> acct (after_pop l b)"
  by (simp add: after_pop_def acct_queue_lane acct_ddel)

lemma acct_take: "acct b \<Longrightarrow> acct (take_drained_executor b)"
  by (erule acct_same) (auto simp: same_accounts_def take_drained_executor_def queue_of_def running_of_def)

lemma queue_of_upd [simp]:
  "queue_of (upd_job j f b) l = queue_of b l" "queue_of (upd_gate g h b) l = queue_of b l"
  "running_of (upd_job j f b) l = running_of b l" "running_of (upd_gate g h b) l = running_of b l"
  by (simp_all add: queue_of_def running_of_def)

lemma upd_job_jobs [simp]: "b_jobs (upd_job j f b) = (b_jobs b)[j := f (b_jobs b ! j)]"
  by (simp add: upd_job_def)

text \<open>Changes of a job that the accounts do not see.\<close>

lemma acct_flags:
  assumes "acct b" "j < length (b_jobs b)"
    and "j_lane (f (b_jobs b ! j)) = j_lane (b_jobs b ! j)" "j_state (f (b_jobs b ! j)) = j_state (b_jobs b ! j)"
    "j_delivery_pending (f (b_jobs b ! j)) = j_delivery_pending (b_jobs b ! j)"
  shows "acct (upd_job j f b)"
proof (rule acct_move [OF assms(1,2), of _ "f (b_jobs b ! j)"])
  show "queue_of (upd_job j f b) l = (if l = j_lane (f (b_jobs b ! j)) \<and> \<not> is_queued (f (b_jobs b ! j))
      then remove1 j (queue_of b l) else queue_of b l)" for l
    using assms by (auto simp: acct_def remove1_idem)
qed (use assms in \<open>auto simp: acct_def\<close>)

lemma acct_defer_fatal: "acct b \<Longrightarrow> j < length (b_jobs b) \<Longrightarrow> acct (defer_fatal j b)"
  by (auto simp: defer_fatal_def split: option.split intro!: acct_gate acct_flags)

lemma acct_discard: "acct b \<Longrightarrow> acct (discard_future env j b)"
  by (simp add: discard_future_def acct_gate)

lemma defer_fatal_length [simp]: "length (b_jobs (defer_fatal j b)) = length (b_jobs b)"
  by (simp add: defer_fatal_def split: option.split)

lemma acct_finish_detached: "acct b \<Longrightarrow> j < length (b_jobs b) \<Longrightarrow> acct (finish_detached env j b)"
  unfolding finish_detached_def by (intro acct_discard acct_defer_fatal acct_flags) auto

lemma acct_schedule:
  assumes "acct b" "j < length (b_jobs b)" "\<not> j_delivery_pending (b_jobs b ! j)" "\<not> is_queued (b_jobs b ! j)"
  shows "acct (schedule_delivery env j b)"
proof -
  let ?c = "upd_job j (\<lambda>x. x\<lparr>j_delivery_pending := True\<rparr>) (b\<lparr>b_pending := b_pending b + 1\<rparr>)"
  have "acct ?c"
  proof (rule acct_move [OF assms(1,2)])
    show "b_jobs ?c = (b_jobs b)[j := (b_jobs b ! j)\<lparr>j_delivery_pending := True\<rparr>]" by simp
    show "queue_of ?c l = (if l = j_lane ((b_jobs b ! j)\<lparr>j_delivery_pending := True\<rparr>)
        \<and> \<not> is_queued ((b_jobs b ! j)\<lparr>j_delivery_pending := True\<rparr>) then remove1 j (queue_of b l) else queue_of b l)" for l
      using assms by (auto simp: acct_def remove1_idem queue_of_def)
  qed (use assms in \<open>auto simp: acct_def running_of_def\<close>)
  then show ?thesis
    using assms by (auto simp: schedule_delivery_def intro!: acct_finish_detached acct_flags)
qed

lemma acct_queue: "acct b \<Longrightarrow>
    j \<in> set (queue_of b l) \<longleftrightarrow> j < length (b_jobs b) \<and> is_queued (b_jobs b ! j) \<and> j_lane (b_jobs b ! j) = l"
  unfolding acct_def by blast

lemma acct_distinct: "acct b \<Longrightarrow> distinct (queue_of b l)"
  unfolding acct_def by blast

lemma acct_bounds: "acct b \<Longrightarrow> 0 < b_max_workers b \<and> b_running b \<le> b_max_workers b"
  unfolding acct_def by blast

lemma acct_share: "acct b \<Longrightarrow> 1 < b_max_workers b \<Longrightarrow> running_of b (GateLane g) < b_max_workers b"
  unfolding acct_def by blast

lemma acct_running: "acct b \<Longrightarrow>
    running_of b l = int (count_jobs (\<lambda>x. is_running x \<and> j_lane x = l) (b_jobs b))"
  unfolding acct_def by blast

section \<open>No eligible job waits\<close>

text \<open>Every lane with queued jobs is on the list of ready lanes or has all the workers it may have.\<close>

definition lane_ok :: "broker \<Rightarrow> lane \<Rightarrow> bool" where
  "lane_ok b l \<longleftrightarrow> queue_of b l = [] \<or> l \<in> b_ready_set b \<or> lane_running_limit b l \<le> running_of b l"

definition lanes_ok :: "broker \<Rightarrow> bool" where
  "lanes_ok b \<longleftrightarrow> (\<forall>l. lane_ok b l)"

text \<open>What the limits of the lanes read of the gates.\<close>

definition same_limits :: "broker \<Rightarrow> broker \<Rightarrow> bool" where
  "same_limits b c \<longleftrightarrow> b_max_workers c = b_max_workers b \<and> (\<forall>g. g_policy (b_gates c g) = g_policy (b_gates b g))"

lemma same_limits_refl [simp]: "same_limits b b"
  by (simp add: same_limits_def)

lemma same_limits_trans: "same_limits b c \<Longrightarrow> same_limits c d \<Longrightarrow> same_limits b d"
  by (simp add: same_limits_def)

lemma same_limits_limit: "same_limits b c \<Longrightarrow> lane_running_limit c l = lane_running_limit b l"
  by (simp add: same_limits_def lane_running_limit_def split: lane.split)

lemma lane_okI:
  assumes "lane_ok b l" "same_limits b c" "queue_of c l = queue_of b l" "running_of b l \<le> running_of c l"
    "l \<in> b_ready_set b \<Longrightarrow> l \<in> b_ready_set c"
  shows "lane_ok c l"
  using assms same_limits_limit [OF assms(2), of l] by (auto simp: lane_ok_def)

lemma queue_lane_frame:
  "same_limits b (queue_lane l b)" "queue_of (queue_lane l b) l' = queue_of b l'"
  "running_of (queue_lane l b) l' = running_of b l'" "b_ready_set b \<subseteq> b_ready_set (queue_lane l b)"
  "b_jobs (queue_lane l b) = b_jobs b"
  by (auto simp: queue_lane_def same_limits_def queue_of_def running_of_def)

lemma queue_lane_ok: "lane_ok (queue_lane l b) l"
proof -
  have "lane_running_limit (queue_lane l b) l = lane_running_limit b l"
    by (rule same_limits_limit) (rule queue_lane_frame)
  then show ?thesis by (auto simp: lane_ok_def queue_lane_frame) (auto simp: queue_lane_def split: if_splits)
qed

lemma queue_lane_other: "lane_ok b l' \<Longrightarrow> lane_ok (queue_lane l b) l'"
  by (erule lane_okI) (use queue_lane_frame(1-3) subsetD [OF queue_lane_frame(4)] in auto)

lemma same_limits_queues [simp]: "same_limits b (b\<lparr>b_queues := q\<rparr>)"
  by (simp add: same_limits_def)

lemma after_pop_ok: "lane_ok (after_pop l b) l"
proof (cases "queue_of b l = []")
  case True
  then show ?thesis by (auto simp: after_pop_def lane_ok_def queue_of_ddel)
qed (simp add: after_pop_def queue_lane_ok)

lemma after_pop_other: "lane_ok b l' \<Longrightarrow> l' \<noteq> l \<Longrightarrow> lane_ok (after_pop l b) l'"
  by (auto simp: after_pop_def queue_lane_other queue_of_ddel elim!: lane_okI)

lemma after_pop_jobs [simp]: "b_jobs (after_pop l b) = b_jobs b"
  by (simp add: after_pop_def queue_lane_frame)

lemma gate_keeps_policy:
  "g_policy (register_sync_future f g) = g_policy g" "g_policy (discard_sync_future d f g) = g_policy g"
  "g_policy (defer_fatal_error e g) = g_policy g" "g_policy (mark_detached_sync f g) = g_policy g"
  "g_closed (register_sync_future f g) = g_closed g" "g_closed (discard_sync_future d f g) = g_closed g"
  "g_closed (defer_fatal_error e g) = g_closed g" "g_closed (mark_detached_sync f g) = g_closed g"
  by (simp_all add: register_sync_future_def discard_sync_future_def defer_fatal_error_def
      mark_detached_sync_def Let_def)

lemma same_limits_upd:
  "same_limits b (upd_job j f b)" "(\<And>x. g_policy (h x) = g_policy x) \<Longrightarrow> same_limits b (upd_gate g h b)"
  by (auto simp: same_limits_def upd_gate_def split: option.split)

text \<open>Delivering an outcome touches neither queues nor workers.\<close>

definition same_lanes :: "broker \<Rightarrow> broker \<Rightarrow> bool" where
  "same_lanes b c \<longleftrightarrow> same_limits b c \<and> (\<forall>l. queue_of c l = queue_of b l) \<and> (\<forall>l. running_of c l = running_of b l)
     \<and> b_ready_set c = b_ready_set b \<and> b_ready c = b_ready b \<and> b_running c = b_running b
     \<and> length (b_jobs c) = length (b_jobs b) \<and> b_closed c = b_closed b"

lemma same_lanes_trans: "same_lanes b c \<Longrightarrow> same_lanes c d \<Longrightarrow> same_lanes b d"
  by (auto simp: same_lanes_def intro: same_limits_trans)

lemma same_lanes_refl [simp]: "same_lanes b b"
  by (simp add: same_lanes_def)

lemma same_lanes_ok: "same_lanes b c \<Longrightarrow> lane_ok b l \<Longrightarrow> lane_ok c l"
  by (erule lane_okI) (auto simp: same_lanes_def)

lemma same_lanes_all: "same_lanes b c \<Longrightarrow> lanes_ok b \<Longrightarrow> lanes_ok c"
  by (simp add: lanes_ok_def same_lanes_ok)

lemma same_lanes_job: "same_lanes b (upd_job j f b)"
  by (simp add: same_lanes_def same_limits_upd)

lemma same_lanes_gate: "(\<And>x. g_policy (h x) = g_policy x) \<Longrightarrow> same_lanes b (upd_gate g h b)"
  unfolding same_lanes_def using same_limits_upd(2) [of h b g]
  by (auto simp: upd_gate_def queue_of_def running_of_def split: option.split)

lemma same_lanes_pending: "same_lanes b (b\<lparr>b_pending := n\<rparr>)"
  by (simp add: same_lanes_def same_limits_def queue_of_def running_of_def)

lemma same_lanes_fatal: "same_lanes b (defer_fatal j b)"
  unfolding defer_fatal_def
  by (auto split: option.split intro!: same_lanes_trans [OF same_lanes_job same_lanes_gate] simp: gate_keeps_policy)

lemma same_lanes_discard: "same_lanes b (discard_future env j b)"
  by (auto simp: discard_future_def gate_keeps_policy intro!: same_lanes_gate)

lemma same_lanes_finish: "same_lanes b (finish_detached env j b)"
  unfolding finish_detached_def
  by (rule same_lanes_trans [OF same_lanes_trans [OF same_lanes_job same_lanes_fatal] same_lanes_discard])

lemma same_lanes_schedule: "same_lanes b (schedule_delivery env j b)"
  unfolding schedule_delivery_def
  using same_lanes_finish same_lanes_trans [OF same_lanes_job same_lanes_finish]
    same_lanes_trans [OF same_lanes_pending same_lanes_job] by auto

lemma same_lanes_take: "same_lanes b (take_drained_executor b)"
  by (simp add: take_drained_executor_def same_lanes_def same_limits_def queue_of_def running_of_def)

text \<open>Handing out and giving back a worker.\<close>

lemma release_running:
  "running_of (release_running_slot l b) l' = running_of b l' - (if l' = l then 1 else 0)"
  "queue_of (release_running_slot l b) l' = queue_of b l'"
  "b_running (release_running_slot l b) = b_running b - 1"
  "b_jobs (release_running_slot l b) = b_jobs b" "b_queued (release_running_slot l b) = b_queued b"
  "b_pending (release_running_slot l b) = b_pending b" "b_ready (release_running_slot l b) = b_ready b"
  "b_ready_set (release_running_slot l b) = b_ready_set b" "b_closed (release_running_slot l b) = b_closed b"
  "b_max_workers (release_running_slot l b) = b_max_workers b" "b_gates (release_running_slot l b) = b_gates b"
  by (auto simp: release_running_slot_def running_of_def queue_of_def Let_def)

lemma acct_running_le:
  assumes "acct b"
  shows "running_of b l \<le> b_running b"
proof -
  have "count_jobs (\<lambda>x. is_running x \<and> j_lane x = l) (b_jobs b) \<le> count_jobs is_running (b_jobs b)"
    unfolding count_jobs_def by (rule card_mono) auto
  then show ?thesis using assms by (simp add: acct_def)
qed

lemma running_job_counted:
  assumes "acct b" "j < length (b_jobs b)" "is_running (b_jobs b ! j)"
  shows "0 < running_of b (j_lane (b_jobs b ! j))"
proof -
  let ?A = "{i. i < length (b_jobs b) \<and> is_running (b_jobs b ! i) \<and> j_lane (b_jobs b ! i) = j_lane (b_jobs b ! j)}"
  have "finite ?A" by simp
  moreover have "j \<in> ?A" using assms by simp
  ultimately have "0 < card ?A" by (auto simp: card_gt_0_iff)
  then show ?thesis using assms(1) by (simp add: acct_def count_jobs_def)
qed

text \<open>The assertions of \<^verbatim>\<open>_release_running_slot_locked\<close> hold whenever a job that runs gives its worker back.\<close>

lemma release_asserts:
  "acct b \<Longrightarrow> j < length (b_jobs b) \<Longrightarrow> is_running (b_jobs b ! j) \<Longrightarrow>
    0 < b_running b \<and> 0 < running_of b (j_lane (b_jobs b ! j))"
  using running_job_counted [of b j] acct_running_le [of b "j_lane (b_jobs b ! j)"] by linarith

text \<open>A worker ends: the job is no longer running.\<close>

lemma acct_finish_running:
  assumes "acct b" "j < length (b_jobs b)" "is_running (b_jobs b ! j)"
    and "j_lane x' = j_lane (b_jobs b ! j)" "j_state x' = Terminal" "j_delivery_pending x' = j_delivery_pending (b_jobs b ! j)"
    and "b_jobs c = (b_jobs b)[j := x']" "\<And>l. queue_of c l = queue_of b l" "b_queued c = b_queued b"
      "b_running c = b_running b - 1" "b_pending c = b_pending b" "b_ready c = b_ready b"
      "b_ready_set c = b_ready_set b" "b_max_workers c = b_max_workers b"
      "\<And>l. running_of c l = running_of b l - (if l = j_lane (b_jobs b ! j) then 1 else 0)"
  shows "acct c"
proof (rule acct_move [OF assms(1,2,7,4)])
  have nq: "j \<notin> set (queue_of b l)" for l using assms(1,3) by (simp add: acct_queue)
  show "queue_of c l = (if l = j_lane x' \<and> \<not> is_queued x' then remove1 j (queue_of b l) else queue_of b l)" for l
    using assms(8) nq by (simp add: remove1_idem)
  show "running_of c (GateLane g) < b_max_workers b" if "1 < b_max_workers b" for g
  proof -
    have "running_of b (GateLane g) < b_max_workers b" using assms(1) that by (rule acct_share)
    then show ?thesis using assms(15) [of "GateLane g"] by (auto split: if_splits)
  qed
  have "b_running b \<le> b_max_workers b" using acct_bounds [OF assms(1)] by simp
  then show "b_running c \<le> b_max_workers b" using assms(10) by simp
qed (use assms acct_ready [OF assms(1)] in \<open>simp_all add: assms(15)\<close>)

lemma lane_limit_share: "1 < b_max_workers b \<Longrightarrow> lane_running_limit b (GateLane g) < b_max_workers b"
  by (auto simp: lane_running_limit_def)

text \<open>The first job of a lane gets a worker.\<close>

lemma acct_start:
  assumes a: "acct b" and q: "queue_of b l = j # q" and free: "b_running b < b_max_workers b"
    and lim: "running_of b l < lane_running_limit b l"
    and c: "b_jobs c = (b_jobs b)[j := (b_jobs b ! j)\<lparr>j_state := Running\<rparr>]"
      "\<And>l'. queue_of c l' = (if l' = l then q else queue_of b l')" "b_queued c = b_queued b - 1"
      "b_running c = b_running b + 1" "\<And>l'. running_of c l' = running_of b l' + (if l' = l then 1 else 0)"
      "b_pending c = b_pending b" "distinct (b_ready c)" "set (b_ready c) = b_ready_set c"
      "b_max_workers c = b_max_workers b"
  shows "acct c" "j < length (b_jobs b)" "is_queued (b_jobs b ! j)" "j_lane (b_jobs b ! j) = l"
proof -
  have "j \<in> set (queue_of b l)" using q by simp
  then show j: "j < length (b_jobs b)" "is_queued (b_jobs b ! j)" "j_lane (b_jobs b ! j) = l"
    using acct_queue [OF a] by blast+
  let ?x = "(b_jobs b ! j)\<lparr>j_state := Running\<rparr>"
  have lx: "j_lane ?x = l" using j(3) by simp
  show "acct c"
  proof (rule acct_move [OF a j(1) c(1)])
    show "queue_of c l' = (if l' = j_lane ?x \<and> \<not> is_queued ?x then remove1 j (queue_of b l') else queue_of b l')" for l'
      using c(2) [of l'] q lx by auto
    show "running_of c l' = running_of b l' + (if l' = j_lane ?x
      then (if is_running ?x then 1 else 0) - (if is_running (b_jobs b ! j) then 1 else 0) else 0)" for l'
      using c(5) [of l'] lx j(2) by simp
    show "running_of c (GateLane g) < b_max_workers b" if m: "1 < b_max_workers b" for g
      using c(5) [of "GateLane g"] acct_share [OF a m, of g] lane_limit_share [OF m, of g] lim by (auto split: if_splits)
  qed (use c j free in auto)
qed

text \<open>The first job of a lane leaves its queue without a worker.\<close>

lemma acct_drop:
  assumes a: "acct b" and j: "j < length (b_jobs b)" "is_queued (b_jobs b ! j)" "j_lane (b_jobs b ! j) = l"
    and c: "b_jobs c = (b_jobs b)[j := x']" "j_lane x' = l" "j_state x' = Dropped"
      "j_delivery_pending x' = j_delivery_pending (b_jobs b ! j)"
      "\<And>l'. queue_of c l' = (if l' = l then remove1 j (queue_of b l') else queue_of b l')" "b_queued c = b_queued b - 1"
      "b_running c = b_running b" "\<And>l'. running_of c l' = running_of b l'" "b_pending c = b_pending b"
      "distinct (b_ready c)" "set (b_ready c) = b_ready_set c" "b_max_workers c = b_max_workers b"
  shows "acct c"
proof (rule acct_move [OF a j(1) c(1)])
  show "running_of c (GateLane g) < b_max_workers b" if m: "1 < b_max_workers b" for g
    using acct_share [OF a m, of g] c(8) [of "GateLane g"] by simp
  show "b_running c \<le> b_max_workers b" using acct_bounds [OF a] c(7) by simp
qed (use c j in auto)

text \<open>The life of a job, and what its flags mean.\<close>

fun state_le :: "job_state \<Rightarrow> job_state \<Rightarrow> bool" where
  "state_le Queued t = True"
| "state_le Running t = (t = Running \<or> t = Terminal)"
| "state_le Terminal t = (t = Terminal)"
| "state_le Dropped t = (t = Dropped)"

definition job_next :: "job \<Rightarrow> job \<Rightarrow> bool" where
  "job_next x y \<longleftrightarrow> j_lane y = j_lane x \<and> j_gate y = j_gate x \<and> j_allow_closed y = j_allow_closed x
     \<and> state_le (j_state x) (j_state y) \<and> (j_completion x \<noteq> Awaited \<longrightarrow> j_completion y = j_completion x)
     \<and> (j_delivered x \<longrightarrow> j_delivered y) \<and> (j_detached x \<longrightarrow> j_detached y)"

definition job_ok :: "job \<Rightarrow> bool" where
  "job_ok x \<longleftrightarrow> (j_delivery_pending x \<longrightarrow> j_state x = Terminal \<and> \<not> j_delivered x)
     \<and> (j_delivered x \<longrightarrow> j_state x = Terminal) \<and> (j_cancel_due x \<longrightarrow> j_state x = Dropped)
     \<and> (j_state x = Terminal \<longrightarrow> j_outcome x \<noteq> None \<and> (j_delivered x \<or> j_delivery_pending x))
     \<and> (j_state x = Queued \<longrightarrow> j_completion x = Awaited \<and> \<not> j_detached x)
     \<and> (j_completion x = Completed \<or> j_completion x = Failed
         \<longrightarrow> j_delivered x \<and> j_completion x = deliver_to (j_outcome x))"

lemma job_next_refl [simp]: "job_next x x"
  by (cases "j_state x") (simp_all add: job_next_def)

lemma state_le_trans: "state_le s t \<Longrightarrow> state_le t u \<Longrightarrow> state_le s u"
  by (cases s; cases t) auto

lemma job_next_trans: "job_next x y \<Longrightarrow> job_next y z \<Longrightarrow> job_next x z"
  unfolding job_next_def using state_le_trans [of "j_state x" "j_state y" "j_state z"] by metis

definition jobs_next :: "broker \<Rightarrow> broker \<Rightarrow> bool" where
  "jobs_next b c \<longleftrightarrow> length (b_jobs b) \<le> length (b_jobs c)
     \<and> (\<forall>i<length (b_jobs b). job_next (b_jobs b ! i) (b_jobs c ! i))"

definition jobs_ok :: "jid set \<Rightarrow> broker \<Rightarrow> bool" where
  "jobs_ok J b \<longleftrightarrow> (\<forall>i<length (b_jobs b). i \<notin> J \<longrightarrow> job_ok (b_jobs b ! i))"

lemma jobs_next_refl [simp]: "jobs_next b b"
  by (simp add: jobs_next_def)

lemma jobs_next_trans: "jobs_next b c \<Longrightarrow> jobs_next c d \<Longrightarrow> jobs_next b d"
  unfolding jobs_next_def using job_next_trans by (meson less_le_trans order_trans)

lemma jobs_next_same: "b_jobs c = b_jobs b \<Longrightarrow> jobs_next b c"
  by (simp add: jobs_next_def)

lemma jobs_ok_same: "b_jobs c = b_jobs b \<Longrightarrow> jobs_ok J c = jobs_ok J b"
  by (simp add: jobs_ok_def)

lemma jobs_next_update:
  "b_jobs c = (b_jobs b)[j := x] \<Longrightarrow> job_next (b_jobs b ! j) x \<Longrightarrow> jobs_next b c"
  unfolding jobs_next_def by (metis job_next_refl length_list_update nth_list_update_eq nth_list_update_neq order_refl)

lemma jobs_ok_update:
  "b_jobs c = (b_jobs b)[j := x] \<Longrightarrow> jobs_ok J b \<Longrightarrow> J \<subseteq> {j} \<Longrightarrow> job_ok x \<Longrightarrow> jobs_ok {} c"
  unfolding jobs_ok_def by (metis empty_iff length_list_update nth_list_update_eq nth_list_update_neq singletonD subsetD)

lemma jobs_ok_but: "b_jobs c = (b_jobs b)[j := x] \<Longrightarrow> jobs_ok {} b \<Longrightarrow> jobs_ok {j} c"
  unfolding jobs_ok_def by (metis empty_iff insertI1 length_list_update nth_list_update_neq)

text \<open>What delivering an outcome does to the job.\<close>

lemma defer_fatal_jobs:
  "\<exists>f. b_jobs (defer_fatal j b) = (b_jobs b)[j := (b_jobs b ! j)\<lparr>j_fatal_deferred := f\<rparr>]"
proof (cases "job_fatal (b_jobs b ! j)")
  case None
  have "(b_jobs b)[j := (b_jobs b ! j)\<lparr>j_fatal_deferred := j_fatal_deferred (b_jobs b ! j)\<rparr>] = b_jobs b" by simp
  then show ?thesis using None unfolding defer_fatal_def by (metis option.simps(4))
qed (auto simp: defer_fatal_def)

lemma discard_jobs [simp]: "b_jobs (discard_future env j b) = b_jobs b"
  by (simp add: discard_future_def)

lemma finish_detached_jobs:
  assumes "j < length (b_jobs b)"
  shows "\<exists>f. b_jobs (finish_detached env j b) =
    (b_jobs b)[j := (b_jobs b ! j)\<lparr>j_delivered := True, j_fatal_deferred := f\<rparr>]"
  using defer_fatal_jobs [of j "upd_job j (\<lambda>x. x\<lparr>j_delivered := True\<rparr>) b"] assms
  by (auto simp: finish_detached_def)

lemma schedule_jobs:
  assumes "j < length (b_jobs b)"
  obtains f where "b_jobs (schedule_delivery env j b) =
      (b_jobs b)[j := (b_jobs b ! j)\<lparr>j_detached := True, j_delivered := True, j_fatal_deferred := f\<rparr>]"
    | "\<not> j_detached (b_jobs b ! j)"
      "b_jobs (schedule_delivery env j b) = (b_jobs b)[j := (b_jobs b ! j)\<lparr>j_delivery_pending := True\<rparr>]"
proof (cases "j_detached (b_jobs b ! j)")
  case True
  obtain f where f: "b_jobs (finish_detached env j b) =
      (b_jobs b)[j := (b_jobs b ! j)\<lparr>j_delivered := True, j_fatal_deferred := f\<rparr>]"
    using finish_detached_jobs [OF assms] by blast
  have "(b_jobs b ! j)\<lparr>j_detached := True\<rparr> = b_jobs b ! j" using True by simp
  then have "(b_jobs b ! j)\<lparr>j_delivered := True, j_fatal_deferred := f\<rparr>
      = (b_jobs b ! j)\<lparr>j_detached := True, j_delivered := True, j_fatal_deferred := f\<rparr>"
    by (cases "b_jobs b ! j") simp
  moreover have "schedule_delivery env j b = finish_detached env j b"
    using True by (simp add: schedule_delivery_def)
  ultimately show ?thesis using that(1) f by metis
next
  case False
  show ?thesis
  proof (cases "e_alive env j")
    case True
    then show ?thesis using that(2) False by (simp add: schedule_delivery_def)
  next
    case dead: False
    then show ?thesis
      using that(1) False assms finish_detached_jobs [of j "upd_job j (\<lambda>x. x\<lparr>j_detached := True\<rparr>) b" env]
      by (auto simp: schedule_delivery_def)
  qed
qed

lemma schedule_ok:
  assumes "j < length (b_jobs b)" "jobs_ok {j} b" "j_state (b_jobs b ! j) = Terminal"
    and "j_outcome (b_jobs b ! j) \<noteq> None" "\<not> j_delivery_pending (b_jobs b ! j)" "\<not> j_delivered (b_jobs b ! j)"
    and "j_completion (b_jobs b ! j) = Awaited \<or> j_completion (b_jobs b ! j) = Cancelled"
    and "\<not> j_cancel_due (b_jobs b ! j)"
  shows "jobs_ok {} (schedule_delivery env j b)" "jobs_next b (schedule_delivery env j b)"
proof -
  have "jobs_ok {} (schedule_delivery env j b) \<and> jobs_next b (schedule_delivery env j b)"
    using assms(1)
  proof (cases rule: schedule_jobs [where env = env])
    case (1 f)
    show ?thesis
      using jobs_ok_update [OF 1 assms(2)] jobs_next_update [OF 1] assms(3-)
      by (auto simp: job_ok_def job_next_def)
  next
    case 2
    show ?thesis
      using jobs_ok_update [OF 2(2) assms(2)] jobs_next_update [OF 2(2)] assms(3-)
      by (auto simp: job_ok_def job_next_def)
  qed
  then show "jobs_ok {} (schedule_delivery env j b)" "jobs_next b (schedule_delivery env j b)" by simp_all
qed

definition sound :: "broker \<Rightarrow> bool" where
  "sound b \<longleftrightarrow> acct b \<and> lanes_ok b \<and> jobs_ok {} b"

lemma running_of_dset: "running_of (b\<lparr>b_running_by := dset l n (b_running_by b)\<rparr>) l' = (if l' = l then n else running_of b l')"
  by (simp add: running_of_def)

lemma same_lanes_executor: "same_lanes b (b\<lparr>b_executor := e\<rparr>)"
  by (simp add: same_lanes_def same_limits_def queue_of_def running_of_def)

lemma acct_executor: "acct b \<Longrightarrow> acct (b\<lparr>b_executor := e\<rparr>)"
  by (erule acct_same) (auto simp: same_accounts_def queue_of_def running_of_def)

lemma after_pop_lanes:
  assumes "\<And>l'. l' \<noteq> l \<Longrightarrow> lane_ok b l'"
  shows "lanes_ok (after_pop l b)"
  unfolding lanes_ok_def
proof
  fix l'
  show "lane_ok (after_pop l b) l'"
    using after_pop_ok [of l b] after_pop_other [of b l' l] assms by (cases "l' = l") auto
qed

lemma queue_lane_lanes:
  assumes "\<And>l'. l' \<noteq> l \<Longrightarrow> lane_ok b l'"
  shows "lanes_ok (queue_lane l b)"
  unfolding lanes_ok_def
proof
  fix l'
  show "lane_ok (queue_lane l b) l'"
    using queue_lane_ok [of l b] queue_lane_other [of b l' l] assms by (cases "l' = l") auto
qed

lemma jobs_ok_get: "jobs_ok {} b \<Longrightarrow> j < length (b_jobs b) \<Longrightarrow> job_ok (b_jobs b ! j)"
  by (simp add: jobs_ok_def)

lemma job_ok_future [simp]: "job_ok (x\<lparr>j_future := f\<rparr>) = job_ok x"
  by (simp add: job_ok_def)

lemma start_job_sound:
  fixes b0 ls l j q
  defines "b \<equiv> b0\<lparr>b_ready := ls, b_ready_set := b_ready_set b0 - {l}, b_queues := dset l q (b_queues b0),
    b_queued := b_queued b0 - 1\<rparr>"
  assumes s: "sound b0" and r: "b_ready b0 = l # ls" and q: "queue_of b0 l = j # q"
    and free: "b_running b0 < b_max_workers b0" and lim: "running_of b0 l < lane_running_limit b0 l"
  shows "sound (start_job env l j b) \<and> jobs_next b0 (start_job env l j b)"
proof -
  have a: "acct b0" and lo: "lanes_ok b0" and jo: "jobs_ok {} b0" using s by (simp_all add: sound_def)
  define b1 where "b1 = upd_job j (\<lambda>x. x\<lparr>j_state := Running\<rparr>)
    (b\<lparr>b_running := b_running b + 1, b_running_by := dset l (running_of b l + 1) (b_running_by b)\<rparr>)"
  have f: "\<And>l'. queue_of b1 l' = (if l' = l then q else queue_of b0 l')"
    "\<And>l'. running_of b1 l' = running_of b0 l' + (if l' = l then 1 else 0)"
    "b_ready b1 = ls" "b_ready_set b1 = b_ready_set b0 - {l}" "b_gates b1 = b_gates b0"
    "b_max_workers b1 = b_max_workers b0" "b_running b1 = b_running b0 + 1" "b_queued b1 = b_queued b0 - 1"
    "b_pending b1 = b_pending b0" "b_jobs b1 = (b_jobs b0)[j := (b_jobs b0 ! j)\<lparr>j_state := Running\<rparr>]"
    by (auto simp: b1_def b_def queue_of_def running_of_def upd_job_def)
  have ready: "distinct ls" "set ls = b_ready_set b0 - {l}" using acct_ready [OF a] r by auto
  note st = acct_start [OF a q free lim f(10) f(1) f(8) f(7) f(2) f(9) _ _ f(6)]
  have b1: "acct b1" by (rule st(1)) (use f(3,4) ready in auto)
  have j0: "j < length (b_jobs b0)" "is_queued (b_jobs b0 ! j)" "j_lane (b_jobs b0 ! j) = l"
    using st(2-4) f(3,4) ready by auto
  have ok0: "job_ok (b_jobs b0 ! j)" using jo j0(1) by (rule jobs_ok_get)
  have j: "j < length (b_jobs b1)" "is_running (b_jobs b1 ! j)" "j_lane (b_jobs b1 ! j) = l"
    "\<not> j_delivery_pending (b_jobs b1 ! j)" "\<not> j_delivered (b_jobs b1 ! j)"
    "j_completion (b_jobs b1 ! j) = Awaited" "\<not> j_cancel_due (b_jobs b1 ! j)"
    using j0 f(10) ok0 by (auto simp: job_ok_def)
  have ok1: "jobs_ok {} b1"
    by (rule jobs_ok_update [OF f(10) jo]) (use ok0 j0(2) in \<open>auto simp: job_ok_def\<close>)
  have n1: "jobs_next b0 b1" by (rule jobs_next_update [OF f(10)]) (simp add: job_next_def j0(2))
  have sl: "same_limits b0 b1" using f(5,6) by (simp add: same_limits_def)
  have other: "lane_ok b1 l'" if "l' \<noteq> l" for l'
    by (rule lane_okI [OF _ sl]) (use lo f that in \<open>auto simp: lanes_ok_def\<close>)
  show ?thesis
  proof (cases "start_error env j b1")
    case None
    let ?c = "upd_gate (j_gate (b_jobs b1 ! j)) (register_sync_future j) (upd_job j (\<lambda>x. x\<lparr>j_future := True\<rparr>) (b1\<lparr>b_executor := True\<rparr>))"
    have eq: "start_job env l j b = after_pop l ?c"
      unfolding start_job_def Let_def b1_def [symmetric] None option.case by simp
    have c: "acct ?c" using b1 j by (intro acct_gate acct_flags acct_executor) auto
    have "same_lanes b1 ?c"
      by (rule same_lanes_trans [OF same_lanes_trans [OF same_lanes_executor same_lanes_job] same_lanes_gate])
        (simp add: gate_keeps_policy)
    then have "lane_ok ?c l'" if "l' \<noteq> l" for l' using other [OF that] by (rule same_lanes_ok)
    then have lanes: "lanes_ok (after_pop l ?c)" by (rule after_pop_lanes)
    have cj: "b_jobs (after_pop l ?c) = (b_jobs b1)[j := (b_jobs b1 ! j)\<lparr>j_future := True\<rparr>]" by simp
    have "jobs_ok {} (after_pop l ?c)"
      by (rule jobs_ok_update [OF cj ok1]) (simp_all add: jobs_ok_get [OF ok1 j(1)])
    moreover have "jobs_next b1 (after_pop l ?c)"
      by (rule jobs_next_update [OF cj]) (simp add: job_next_def j(2))
    then have "jobs_next b0 (after_pop l ?c)" by (rule jobs_next_trans [OF n1])
    ultimately show ?thesis
      unfolding eq sound_def using lanes acct_after_pop [OF c] by blast
  next
    case (Some fatal)
    let ?t = "upd_job j (\<lambda>x. x\<lparr>j_state := Terminal, j_outcome := Some (Raised fatal)\<rparr>) (release_running_slot l b1)"
    let ?x = "(b_jobs b1 ! j)\<lparr>j_state := Terminal, j_outcome := Some (Raised fatal)\<rparr>"
    let ?c = "schedule_delivery env j ?t"
    have eq: "start_job env l j b = queue_lane l (after_pop l ?c)"
      unfolding start_job_def Let_def b1_def [symmetric] Some option.case by simp
    have tj: "b_jobs ?t = (b_jobs b1)[j := ?x]" by (simp add: release_running)
    have t: "acct ?t"
      by (rule acct_finish_running [OF b1 j(1,2), of ?x]) (use j(3) in \<open>simp_all add: release_running\<close>)
    have c: "acct ?c" by (rule acct_schedule [OF t]) (use j tj in simp_all)
    have sc: "jobs_ok {} ?c \<and> jobs_next ?t ?c"
      using schedule_ok [OF _ jobs_ok_but [OF tj ok1], of env] j by (simp add: release_running)
    have "jobs_next b1 ?t" by (rule jobs_next_update [OF tj]) (simp add: job_next_def j)
    then have nx: "jobs_next b0 ?c" using n1 sc jobs_next_trans by blast
    have "lane_ok ?t l'" if "l' \<noteq> l" for l'
      by (rule lane_okI [OF other [OF that]])
        (use that in \<open>simp_all add: release_running same_limits_def\<close>)
    then have "lane_ok ?c l'" if "l' \<noteq> l" for l' using that same_lanes_ok [OF same_lanes_schedule] by blast
    then have "lanes_ok (after_pop l ?c)" by (rule after_pop_lanes)
    then have lanes: "lanes_ok (queue_lane l (after_pop l ?c))" by (intro queue_lane_lanes) (simp add: lanes_ok_def)
    have bj: "b_jobs (queue_lane l (after_pop l ?c)) = b_jobs ?c" by (simp add: queue_lane_frame)
    have "jobs_ok {} (queue_lane l (after_pop l ?c))" using jobs_ok_same [OF bj] sc by blast
    moreover have "jobs_next b0 (queue_lane l (after_pop l ?c))"
      using nx jobs_next_same [OF bj] jobs_next_trans by blast
    ultimately show ?thesis
      unfolding eq sound_def using lanes acct_queue_lane [OF acct_after_pop [OF c]] by blast
  qed
qed

lemma drop_job_jobs:
  "b_jobs (drop_job env j b) = (b_jobs b)[j := (b_jobs b ! j)\<lparr>j_state := Dropped, j_detached := True, j_cancel_due := e_alive env j\<rparr>]"
  by (simp add: drop_job_def)

lemma dispatch_turn_sound:
  assumes s: "sound b" and free: "b_running b < b_max_workers b"
  shows "sound (dispatch_turn env b) \<and> jobs_next b (dispatch_turn env b)"
proof (cases "b_ready b")
  case Nil
  then show ?thesis using s by (simp add: dispatch_turn_def)
next
  case (Cons l ls)
  have a: "acct b" and lo: "lanes_ok b" and jo: "jobs_ok {} b" using s by (simp_all add: sound_def)
  let ?b1 = "b\<lparr>b_ready := ls, b_ready_set := b_ready_set b - {l}\<rparr>"
  have ready: "distinct ls" "set ls = b_ready_set b - {l}" using acct_ready [OF a] Cons by auto
  have q1: "queue_of ?b1 l' = queue_of b l'" "running_of ?b1 l' = running_of b l'" for l'
    by (simp_all add: queue_of_def running_of_def)
  have sl: "same_limits b ?b1" by (simp add: same_limits_def)
  have b1: "acct ?b1" by (rule acct_same [OF a]) (use ready q1 in \<open>simp add: same_accounts_def\<close>)
  have other: "lane_ok ?b1 l'" if "l' \<noteq> l" for l'
    by (rule lane_okI [OF _ sl]) (use lo q1 that in \<open>auto simp: lanes_ok_def\<close>)
  have lim: "lane_running_limit ?b1 l = lane_running_limit b l" using sl by (rule same_limits_limit)
  show ?thesis
  proof (cases "queue_of b l")
    case Nil
    let ?c = "?b1\<lparr>b_queues := ddel l (b_queues ?b1)\<rparr>"
    have "dispatch_turn env b = ?c" using Cons Nil q1 by (simp add: dispatch_turn_def)
    moreover have "acct ?c" using b1 by (rule acct_ddel) (simp add: q1 Nil)
    moreover have "lane_ok ?c l'" for l'
    proof (cases "l' = l")
      case True
      then show ?thesis by (simp add: lane_ok_def queue_of_def)
    next
      case False
      then show ?thesis
        by (intro lane_okI [OF other]) (simp_all add: same_limits_def queue_of_def running_of_def)
    qed
    ultimately show ?thesis
      using jo by (simp add: sound_def lanes_ok_def jobs_ok_def jobs_next_same)
  next
    case q: (Cons j q)
    show ?thesis
    proof (cases "lane_running_limit b l \<le> running_of b l")
      case True
      then have "dispatch_turn env b = ?b1" using Cons q q1 lim by (simp add: dispatch_turn_def)
      moreover have "lanes_ok ?b1"
        unfolding lanes_ok_def using other True lim q1 by (metis lane_ok_def)
      ultimately show ?thesis using b1 jo by (simp add: sound_def jobs_ok_def jobs_next_same)
    next
      case False
      let ?b2 = "?b1\<lparr>b_queues := dset l q (b_queues ?b1), b_queued := b_queued ?b1 - 1\<rparr>"
      have turn: "dispatch_turn env b = (if job_refused ?b2 (b_jobs ?b2 ! j) then after_pop l (drop_job env j ?b2)
          else start_job env l j ?b2)"
        using Cons q q1 lim False by (simp add: dispatch_turn_def Let_def)
      have j: "j < length (b_jobs b)" "is_queued (b_jobs b ! j)" "j_lane (b_jobs b ! j) = l"
        using acct_queue [OF a, of j l] q by auto
      show ?thesis
      proof (cases "job_refused ?b2 (b_jobs ?b2 ! j)")
        case True
        let ?c = "drop_job env j ?b2"
        let ?x = "(b_jobs b ! j)\<lparr>j_state := Dropped, j_detached := True, j_cancel_due := e_alive env j\<rparr>"
        have cj: "b_jobs ?c = (b_jobs b)[j := ?x]" by (simp add: drop_job_jobs)
        have c: "acct ?c"
        proof (rule acct_drop [OF a j cj])
          show "queue_of ?c l' = (if l' = l then remove1 j (queue_of b l') else queue_of b l')" for l'
            using q by (simp add: drop_job_def queue_of_def)
        qed (use j ready in \<open>simp_all add: drop_job_def running_of_def\<close>)
        have "lane_ok ?c l'" if "l' \<noteq> l" for l'
          by (rule lane_okI [OF other [OF that]])
            (use that in \<open>auto simp: drop_job_def same_limits_def queue_of_def running_of_def\<close>)
        then have lanes: "lanes_ok (after_pop l ?c)" by (rule after_pop_lanes)
        have cj': "b_jobs (after_pop l ?c) = (b_jobs b)[j := ?x]" using cj by simp
        have "jobs_ok {} (after_pop l ?c)"
          by (rule jobs_ok_update [OF cj' jo]) (use jobs_ok_get [OF jo j(1)] j(2) in \<open>auto simp: job_ok_def\<close>)
        moreover have "jobs_next b (after_pop l ?c)"
          by (rule jobs_next_update [OF cj'])
            (use jobs_ok_get [OF jo j(1)] j(2) in \<open>auto simp: job_next_def job_ok_def\<close>)
        ultimately show ?thesis
          using turn True lanes acct_after_pop [OF c] by (simp add: sound_def)
      next
        case go: False
        have "?b2 = b\<lparr>b_ready := ls, b_ready_set := b_ready_set b - {l}, b_queues := dset l q (b_queues b),
            b_queued := b_queued b - 1\<rparr>" by simp
        then show ?thesis
          using start_job_sound [OF s Cons q free] False turn go by simp
      qed
    qed
  qed
qed

text \<open>After a dispatch no worker is free while a lane is ready.\<close>

definition busy :: "broker \<Rightarrow> bool" where
  "busy b \<longleftrightarrow> b_max_workers b \<le> b_running b \<or> b_ready b = []"

lemma dispatch_sound: "sound b \<Longrightarrow> sound (dispatch env b) \<and> jobs_next b (dispatch env b) \<and> busy (dispatch env b)"
proof (induction env b rule: dispatch.induct)
  case (1 env b)
  show ?case
  proof (cases "b_running b < b_max_workers b \<and> b_ready b \<noteq> []")
    case True
    then have d: "dispatch env b = dispatch env (dispatch_turn env b)" by (subst dispatch.simps) simp
    have t: "sound (dispatch_turn env b) \<and> jobs_next b (dispatch_turn env b)"
      using dispatch_turn_sound [OF 1(2)] True by blast
    then show ?thesis using 1(1) [OF True] jobs_next_trans unfolding d by blast
  next
    case False
    have "dispatch env b = b" using False by (subst dispatch.simps) (simp only: if_False)
    then show ?thesis using 1(2) False by (auto simp: busy_def)
  qed
qed

text \<open>Between two operations.\<close>

definition at_rest :: "broker \<Rightarrow> bool" where
  "at_rest b \<longleftrightarrow> sound b \<and> busy b"

lemma rest_dispatch: "sound b \<Longrightarrow> at_rest (dispatch env b) \<and> jobs_next b (dispatch env b)"
  using dispatch_sound by (simp add: at_rest_def)

lemma same_lanes_busy: "same_lanes b c \<Longrightarrow> busy b \<Longrightarrow> busy c"
  by (auto simp: busy_def same_lanes_def same_limits_def)

lemma rest_same_lanes:
  "at_rest b \<Longrightarrow> same_lanes b c \<Longrightarrow> acct c \<Longrightarrow> jobs_ok {} c \<Longrightarrow> at_rest c"
  unfolding at_rest_def sound_def using same_lanes_all same_lanes_busy by blast

lemma take_drained_jobs [simp]: "b_jobs (take_drained_executor b) = b_jobs b"
  by (simp add: take_drained_executor_def)

lemma rest_take: "at_rest b \<Longrightarrow> at_rest (take_drained_executor b)"
  by (rule rest_same_lanes) (auto simp: at_rest_def sound_def same_lanes_take acct_take jobs_ok_def)

subsection \<open>Ends of callbacks\<close>

lemma sound_end_of_job:
  assumes a: "acct b" and jo: "jobs_ok {} b" and other: "\<And>l'. l' \<noteq> l \<Longrightarrow> lane_ok b l'"
  defines "c \<equiv> (if queue_of b l \<noteq> [] then queue_lane l b else b\<lparr>b_queues := ddel l (b_queues b)\<rparr>)"
  shows "sound c" "b_jobs c = b_jobs b"
proof -
  show j: "b_jobs c = b_jobs b" by (simp add: c_def queue_lane_frame)
  have "acct c" unfolding c_def using acct_queue_lane [OF a] acct_ddel [OF a] by simp
  moreover have "lanes_ok c"
  proof (cases "queue_of b l = []")
    case True
    have "lane_ok c l'" for l'
    proof (cases "l' = l")
      case False
      show ?thesis
        unfolding c_def using True False by (auto simp: queue_of_ddel intro!: lane_okI [OF other])
    qed (use True in \<open>simp add: c_def lane_ok_def queue_of_ddel\<close>)
    then show ?thesis by (simp add: lanes_ok_def)
  next
    case False
    then show ?thesis unfolding c_def using queue_lane_lanes [OF other] by simp
  qed
  ultimately show "sound c" using jo jobs_ok_same [OF j] by (simp add: sound_def)
qed

lemma complete_rest:
  assumes r: "at_rest b" and j: "j < length (b_jobs b)"
  shows "at_rest (complete env j out b) \<and> jobs_next b (complete env j out b)"
proof (cases "j_state (b_jobs b ! j) = Running")
  case False
  then show ?thesis using r by (simp add: complete_def)
next
  case True
  let ?l = "j_lane (b_jobs b ! j)"
  let ?x = "(b_jobs b ! j)\<lparr>j_state := Terminal\<rparr>"
  let ?b1 = "release_running_slot ?l (upd_job j (\<lambda>x. x\<lparr>j_state := Terminal\<rparr>) b)"
  let ?t = "upd_job j (\<lambda>x. x\<lparr>j_outcome := Some out\<rparr>) ?b1"
  let ?c = "schedule_delivery env j ?t"
  have a: "acct b" and lo: "lanes_ok b" and jo: "jobs_ok {} b" using r by (simp_all add: at_rest_def sound_def)
  have ok: "job_ok (b_jobs b ! j)" using jo j by (rule jobs_ok_get)
  have b1: "acct ?b1"
    by (rule acct_finish_running [OF a j True, of ?x]) (simp_all add: release_running)
  have tj: "b_jobs ?t = (b_jobs b)[j := ?x\<lparr>j_outcome := Some out\<rparr>]" using j by (simp add: release_running)
  have t: "acct ?t" by (rule acct_flags [OF b1]) (use j in \<open>simp_all add: release_running\<close>)
  have c: "acct ?c" by (rule acct_schedule [OF t]) (use j ok True in \<open>simp_all add: release_running job_ok_def\<close>)
  have sc: "jobs_ok {} ?c \<and> jobs_next ?t ?c"
    using schedule_ok [OF _ jobs_ok_but [OF tj jo], of env] j ok True
    by (auto simp: release_running job_ok_def intro: completion.exhaust [of "j_completion (b_jobs b ! j)"])
  have nt: "jobs_next b ?t" by (rule jobs_next_update [OF tj]) (simp add: job_next_def True)
  have lt: "lane_ok ?t l'" if "l' \<noteq> ?l" for l'
    by (rule lane_okI [of b]) (use lo that in \<open>simp_all add: lanes_ok_def release_running same_limits_def\<close>)
  have lc: "lane_ok ?c l'" if "l' \<noteq> ?l" for l'
    using same_lanes_ok [OF same_lanes_schedule lt [OF that]] .
  define d where "d = (if queue_of ?c ?l \<noteq> [] then queue_lane ?l ?c else ?c\<lparr>b_queues := ddel ?l (b_queues ?c)\<rparr>)"
  have d: "sound d" "b_jobs d = b_jobs ?c"
    using sound_end_of_job [OF c, of ?l] sc lc unfolding d_def by blast+
  have eq: "complete env j out b = take_drained_executor (dispatch env d)"
    using True by (simp add: complete_def d_def Let_def)
  have "jobs_next b d" using nt sc d(2) jobs_next_same jobs_next_trans by metis
  then show ?thesis
    unfolding eq using rest_dispatch [OF d(1), of env] rest_take jobs_next_trans jobs_next_same take_drained_jobs by metis
qed

text \<open>Handing over an outcome that is pending.\<close>

lemma acct_delivered:
  assumes a: "acct b" and j: "j < length (b_jobs b)" "j_delivery_pending (b_jobs b ! j)" "\<not> is_queued (b_jobs b ! j)"
    and c: "b_jobs c = (b_jobs b)[j := x']" "j_lane x' = j_lane (b_jobs b ! j)" "j_state x' = j_state (b_jobs b ! j)"
      "\<not> j_delivery_pending x'" "b_pending c = b_pending b - 1"
      "\<And>l. queue_of c l = queue_of b l" "\<And>l. running_of c l = running_of b l" "b_queued c = b_queued b"
      "b_running c = b_running b" "b_ready c = b_ready b" "b_ready_set c = b_ready_set b" "b_max_workers c = b_max_workers b"
  shows "acct c"
proof (rule acct_move [OF a j(1) c(1)])
  have nq: "j \<notin> set (queue_of b l)" for l using acct_queue [OF a, of j l] j(3) by simp
  show "queue_of c l = (if l = j_lane x' \<and> \<not> is_queued x' then remove1 j (queue_of b l) else queue_of b l)" for l
    using nq c(6) by (simp add: remove1_idem)
  show "running_of c (GateLane g) < b_max_workers b" if m: "1 < b_max_workers b" for g
    using acct_share [OF a m, of g] c(7) by simp
qed (use c j acct_ready [OF a] acct_bounds [OF a] in auto)

lemma acct_pending_pos:
  assumes "acct b" "j < length (b_jobs b)" "j_delivery_pending (b_jobs b ! j)"
  shows "0 < b_pending b"
proof -
  have "j_delivery_pending (b_jobs b ! j)" "b_jobs b ! j \<in> set (b_jobs b)" using assms by simp_all
  then have "count_jobs j_delivery_pending (b_jobs b) \<noteq> 0" using count_jobs_zero by blast
  moreover have "b_pending b = int (count_jobs j_delivery_pending (b_jobs b))"
    using assms(1) unfolding acct_def by blast
  ultimately show ?thesis by simp
qed

text \<open>One step that changes one job and keeps the accounts and the lanes.\<close>

lemma rest_one_job:
  assumes "at_rest b" "same_lanes b c" "acct c" "b_jobs c = (b_jobs b)[j := x]" "job_ok x" "job_next (b_jobs b ! j) x"
  shows "at_rest c \<and> jobs_next b c"
proof -
  have "jobs_ok {} b" using assms(1) by (simp add: at_rest_def sound_def)
  then have "jobs_ok {} c" using jobs_ok_update [OF assms(4)] assms(5) by blast
  then show ?thesis using rest_same_lanes [OF assms(1-3)] jobs_next_update [OF assms(4,6)] by blast
qed

lemma job_ok_fatal [simp]: "job_ok (x\<lparr>j_fatal_deferred := f\<rparr>) = job_ok x"
  by (simp add: job_ok_def)

lemma defer_fatal_rest:
  assumes "at_rest b" "j < length (b_jobs b)"
  shows "at_rest (defer_fatal j b) \<and> jobs_next b (defer_fatal j b)"
proof -
  obtain f where f: "b_jobs (defer_fatal j b) = (b_jobs b)[j := (b_jobs b ! j)\<lparr>j_fatal_deferred := f\<rparr>]"
    using defer_fatal_jobs by blast
  have "acct b" "jobs_ok {} b" using assms(1) by (simp_all add: at_rest_def sound_def)
  then show ?thesis
    by (intro rest_one_job [OF assms(1) same_lanes_fatal acct_defer_fatal f])
      (use assms(2) jobs_ok_get in \<open>simp_all add: job_next_def, (cases "j_state (b_jobs b ! j)"; simp)\<close>)
qed

lemma discard_rest: "at_rest b \<Longrightarrow> at_rest (discard_future env j b) \<and> jobs_next b (discard_future env j b)"
  by (auto simp: at_rest_def sound_def jobs_next_same jobs_ok_def acct_discard
      intro: same_lanes_all [OF same_lanes_discard] same_lanes_busy [OF same_lanes_discard])

lemma gate_rest:
  assumes "at_rest b" "\<And>x. g_policy (h x) = g_policy x"
  shows "at_rest (upd_gate g h b) \<and> jobs_next b (upd_gate g h b)"
  using assms rest_same_lanes [OF assms(1) same_lanes_gate [of h b g]]
  by (auto simp: at_rest_def sound_def jobs_next_same jobs_ok_def acct_gate)

lemma rest_seq: "at_rest b \<and> jobs_next a b \<Longrightarrow> (at_rest b \<Longrightarrow> at_rest c \<and> jobs_next b c) \<Longrightarrow> at_rest c \<and> jobs_next a c"
  using jobs_next_trans by blast

lemma take_rest: "at_rest b \<Longrightarrow> at_rest (take_drained_executor b) \<and> jobs_next b (take_drained_executor b)"
  by (simp add: rest_take jobs_next_same)

text \<open>The pending outcome of a job is handed over, with or without an answer for the caller.\<close>

definition hand_over :: "jid \<Rightarrow> (job \<Rightarrow> completion) \<Rightarrow> broker \<Rightarrow> broker" where
  "hand_over j k b = upd_job j (\<lambda>x. x\<lparr>j_delivered := True, j_delivery_pending := False, j_completion := k x\<rparr>)
     (b\<lparr>b_pending := max 0 (b_pending b - 1)\<rparr>)"

lemma hand_over_rest:
  assumes r: "at_rest b" and j: "j < length (b_jobs b)" and p: "j_delivery_pending (b_jobs b ! j)"
    and k: "k (b_jobs b ! j) = j_completion (b_jobs b ! j)
      \<or> j_completion (b_jobs b ! j) = Awaited \<and> k (b_jobs b ! j) \<in> {Cancelled, deliver_to (j_outcome (b_jobs b ! j))}"
  shows "at_rest (hand_over j k b) \<and> jobs_next b (hand_over j k b)"
proof -
  let ?x = "(b_jobs b ! j)\<lparr>j_delivered := True, j_delivery_pending := False, j_completion := k (b_jobs b ! j)\<rparr>"
  have a: "acct b" and ok: "job_ok (b_jobs b ! j)"
    using r j jobs_ok_get by (auto simp: at_rest_def sound_def)
  have nq: "\<not> is_queued (b_jobs b ! j)" using ok p by (auto simp: job_ok_def)
  have pos: "0 < b_pending b" using a j p by (rule acct_pending_pos)
  have jobs: "b_jobs (hand_over j k b) = (b_jobs b)[j := ?x]" by (simp add: hand_over_def)
  show ?thesis
  proof (rule rest_one_job [OF r _ _ jobs])
    show "same_lanes b (hand_over j k b)"
      unfolding hand_over_def by (rule same_lanes_trans [OF same_lanes_pending same_lanes_job])
    show "acct (hand_over j k b)"
      by (rule acct_delivered [OF a j p nq jobs])
        (use pos in \<open>simp_all add: hand_over_def queue_of_def running_of_def\<close>)
    show "job_ok ?x" using ok p k by (auto simp: job_ok_def deliver_to_def)
    show "job_next (b_jobs b ! j) ?x" using ok p k by (auto simp: job_next_def job_ok_def)
  qed
qed

lemma deliver_eq:
  assumes "j < length (b_jobs b)" "job_ok (b_jobs b ! j)" "\<not> j_delivered (b_jobs b ! j)"
    "j_delivery_pending (b_jobs b ! j)"
  shows "deliver env j b = discard_future env j (take_drained_executor
    (if j_detached (b_jobs b ! j) then defer_fatal j (hand_over j j_completion b)
     else hand_over j (\<lambda>x. if j_completion x = Awaited then deliver_to (j_outcome x) else j_completion x) b))"
proof -
  have e: "upd_job j f (upd_job j g c) = upd_job j (f \<circ> g) c" if "j < length (b_jobs c)" for f g and c :: broker
    using that by (simp add: upd_job_def)
  have s: "(upd_job j g c)\<lparr>b_pending := n\<rparr> = upd_job j g (c\<lparr>b_pending := n\<rparr>)" for g n and c :: broker
    by (simp add: upd_job_def)
  have x1: "(b_jobs b ! j)\<lparr>j_delivered := True, j_delivery_pending := False, j_completion := j_completion (b_jobs b ! j)\<rparr>
      = (b_jobs b ! j)\<lparr>j_delivered := True, j_delivery_pending := False\<rparr>" by (cases "b_jobs b ! j") simp
  show ?thesis
    using assms x1 by (auto simp: deliver_def Let_def e s hand_over_def comp_def upd_job_def)
qed

lemma deliver_rest:
  assumes r: "at_rest b" and j: "j < length (b_jobs b)" and due: "j_delivered (b_jobs b ! j) \<or> j_delivery_pending (b_jobs b ! j)"
  shows "at_rest (deliver env j b) \<and> jobs_next b (deliver env j b)"
proof (cases "j_delivered (b_jobs b ! j)")
  case True
  then show ?thesis using r by (simp add: deliver_def)
next
  case False
  then have p: "j_delivery_pending (b_jobs b ! j)" using due by blast
  have ok: "job_ok (b_jobs b ! j)" using r j jobs_ok_get by (auto simp: at_rest_def sound_def)
  let ?k = "\<lambda>x. if j_completion x = Awaited then deliver_to (j_outcome x) else j_completion x"
  have "at_rest (if j_detached (b_jobs b ! j) then defer_fatal j (hand_over j j_completion b) else hand_over j ?k b)
    \<and> jobs_next b (if j_detached (b_jobs b ! j) then defer_fatal j (hand_over j j_completion b) else hand_over j ?k b)"
  proof (cases "j_detached (b_jobs b ! j)")
    case True
    have "at_rest (hand_over j j_completion b) \<and> jobs_next b (hand_over j j_completion b)"
      by (rule hand_over_rest [OF r j p]) simp
    then show ?thesis
      using True by (simp, elim rest_seq) (rule defer_fatal_rest, simp_all add: hand_over_def j)
  next
    case nd: False
    have "at_rest (hand_over j ?k b) \<and> jobs_next b (hand_over j ?k b)" by (rule hand_over_rest [OF r j p]) simp
    then show ?thesis using nd by simp
  qed
  then show ?thesis
    unfolding deliver_eq [OF j ok False p] by (rule rest_seq [OF rest_seq [OF _ take_rest] discard_rest])
qed

text \<open>The caller is told that its job was cancelled.\<close>

lemma cancel_completion_rest:
  assumes r: "at_rest b" and j: "j < length (b_jobs b)" and nq: "\<not> is_queued (b_jobs b ! j)"
  shows "at_rest (cancel_completion j b) \<and> jobs_next b (cancel_completion j b)"
    "at_rest (run_cancel j b) \<and> jobs_next b (run_cancel j b)"
proof -
  have a: "acct b" and ok: "job_ok (b_jobs b ! j)" using r j jobs_ok_get by (auto simp: at_rest_def sound_def)
  let ?k = "if j_completion (b_jobs b ! j) = Awaited then Cancelled else j_completion (b_jobs b ! j)"
  show "at_rest (cancel_completion j b) \<and> jobs_next b (cancel_completion j b)"
    by (rule rest_one_job [OF r, of _ j "(b_jobs b ! j)\<lparr>j_completion := ?k\<rparr>"])
      (use a j ok nq in \<open>auto simp: cancel_completion_def job_ok_def job_next_def same_lanes_job intro!: acct_flags\<close>,
       (cases "j_state (b_jobs b ! j)"; simp)+)
  show "at_rest (run_cancel j b) \<and> jobs_next b (run_cancel j b)"
    by (rule rest_one_job [OF r, of _ j "(b_jobs b ! j)\<lparr>j_cancel_due := False, j_completion := ?k\<rparr>"])
      (use a j ok nq in \<open>auto simp: run_cancel_def job_ok_def job_next_def same_lanes_job intro!: acct_flags\<close>,
       (cases "j_state (b_jobs b ! j)"; simp)+)
qed

subsection \<open>Callers that give up\<close>

lemma drop_stale_frame:
  "same_limits b (drop_stale_ready l b)" "queue_of (drop_stale_ready l b) l' = queue_of b l'"
  "running_of (drop_stale_ready l b) l' = running_of b l'" "b_jobs (drop_stale_ready l b) = b_jobs b"
  "l' \<noteq> l \<Longrightarrow> l' \<in> b_ready_set (drop_stale_ready l b) \<longleftrightarrow> l' \<in> b_ready_set b"
  by (auto simp: drop_stale_ready_def same_limits_def queue_of_def running_of_def)

lemma drop_stale_other: "lane_ok b l' \<Longrightarrow> l' \<noteq> l \<Longrightarrow> lane_ok (drop_stale_ready l b) l'"
  by (erule lane_okI) (auto simp: drop_stale_frame)

lemma cancel_queued_rest:
  assumes r: "at_rest b" and j: "j < length (b_jobs b)" and q: "is_queued (b_jobs b ! j)"
  shows "at_rest (cancel_queued env j b) \<and> jobs_next b (cancel_queued env j b)"
proof -
  let ?l = "j_lane (b_jobs b ! j)"
  let ?b1 = "b\<lparr>b_queues := dset ?l (remove1 j (queue_of b ?l)) (b_queues b), b_queued := b_queued b - 1\<rparr>"
  let ?x = "(b_jobs b ! j)\<lparr>j_state := Dropped, j_detached := True\<rparr>"
  let ?y = "?x\<lparr>j_completion := Cancelled\<rparr>"
  let ?c = "upd_job j (\<lambda>x. x\<lparr>j_state := Dropped, j_detached := True\<rparr>) ?b1"
  have a: "acct b" and lo: "lanes_ok b" and jo: "jobs_ok {} b" using r by (simp_all add: at_rest_def sound_def)
  have ok: "job_ok (b_jobs b ! j)" using jo j by (rule jobs_ok_get)
  have aw: "j_completion (b_jobs b ! j) = Awaited" using ok q by (simp add: job_ok_def)
  have jq: "j \<in> set (queue_of b ?l)" using acct_queue [OF a] j q by blast
  have cj: "b_jobs ?c = (b_jobs b)[j := ?x]" by simp
  have c: "acct ?c"
    by (rule acct_drop [OF a j q refl cj]) (use acct_ready [OF a] in \<open>auto simp: queue_of_def running_of_def\<close>)
  have lc: "lane_ok ?c l'" if "l' \<noteq> ?l" for l'
    by (rule lane_okI [of b]) (use lo that in \<open>auto simp: lanes_ok_def same_limits_def queue_of_def running_of_def\<close>)
  define d where "d = after_pop ?l (drop_stale_ready ?l ?c)"
  have d: "acct d" "lanes_ok d" "b_jobs d = (b_jobs b)[j := ?x]"
    unfolding d_def using c lc
    by (auto simp: drop_stale_frame intro!: acct_after_pop acct_drop_stale after_pop_lanes drop_stale_other)
  define e where "e = cancel_completion j d"
  have ej: "b_jobs e = (b_jobs b)[j := ?y]" using d(3) aw j by (simp add: e_def cancel_completion_def)
  have "acct e" unfolding e_def cancel_completion_def by (rule acct_flags [OF d(1)]) (use d(3) j in simp_all)
  moreover have "lanes_ok e" unfolding e_def cancel_completion_def by (rule same_lanes_all [OF same_lanes_job d(2)])
  moreover have "jobs_ok {} e"
    by (rule jobs_ok_update [OF ej jo]) (use ok q in \<open>auto simp: job_ok_def\<close>)
  ultimately have "sound e" by (simp add: sound_def)
  moreover have "jobs_next b e" by (rule jobs_next_update [OF ej]) (use q aw in \<open>simp add: job_next_def\<close>)
  moreover have "cancel_queued env j b = dispatch env e"
    using jq by (simp add: cancel_queued_def e_def d_def Let_def)
  ultimately show ?thesis using rest_dispatch jobs_next_trans by metis
qed

lemma detach_rest:
  assumes r: "at_rest b" and j: "j < length (b_jobs b)" and nq: "\<not> is_queued (b_jobs b ! j)"
  shows "at_rest (upd_job j (\<lambda>x. x\<lparr>j_detached := True\<rparr>) b) \<and> jobs_next b (upd_job j (\<lambda>x. x\<lparr>j_detached := True\<rparr>) b)"
proof -
  have a: "acct b" and ok: "job_ok (b_jobs b ! j)" using r j jobs_ok_get by (auto simp: at_rest_def sound_def)
  show ?thesis
    by (rule rest_one_job [OF r same_lanes_job, of _ _ _ "(b_jobs b ! j)\<lparr>j_detached := True\<rparr>"])
      (use a j ok nq in \<open>auto simp: job_ok_def job_next_def intro!: acct_flags\<close>,
       (cases "j_state (b_jobs b ! j)"; simp)+)
qed

lemma jobs_next_get:
  "jobs_next b c \<Longrightarrow> j < length (b_jobs b) \<Longrightarrow> j < length (b_jobs c) \<and> job_next (b_jobs b ! j) (b_jobs c ! j)"
  by (auto simp: jobs_next_def)

lemma not_queued_next: "job_next x y \<Longrightarrow> \<not> is_queued x \<Longrightarrow> \<not> is_queued y"
  by (cases "j_state x") (auto simp: job_next_def)

lemma cancel_started_rest:
  assumes r: "at_rest b" and j: "j < length (b_jobs b)" and nq: "\<not> is_queued (b_jobs b ! j)"
  shows "at_rest (cancel_started env cancelled j b) \<and> jobs_next b (cancel_started env cancelled j b)"
proof -
  define x0 where "x0 = b_jobs b ! j"
  define b1 where "b1 = upd_job j (\<lambda>x. x\<lparr>j_detached := True\<rparr>) b"
  define marked where "marked = (j_future x0 \<and> \<not> e_done env j)"
  define b2 where "b2 = (if marked \<and> cancelled then complete env j WasCancelled b1 else b1)"
  define x2 where "x2 = b_jobs b2 ! j"
  define dead where "dead = (j_state x2 = Terminal)"
  define taken where "taken = (dead \<and> \<not> j_delivered x2 \<and> j_delivery_pending x2)"
  define b3 where "b3 = (if dead then defer_fatal j b2 else b2)"
  define b4 where "b4 = (if taken then upd_job j (\<lambda>x. x\<lparr>j_delivered := True, j_delivery_pending := False\<rparr>)
                     (b3\<lparr>b_pending := max 0 (b_pending b3 - 1)\<rparr>) else b3)"
  define b5 where "b5 = (if dead then take_drained_executor (cancel_completion j b4) else b4)"
  define b6 where "b6 = (if marked then upd_gate (j_gate x0) (mark_detached_sync j) b5 else b5)"
  have eq: "cancel_started env cancelled j b = (if taken then discard_future env j b6 else b6)"
    unfolding cancel_started_def Let_def x0_def b1_def marked_def b2_def x2_def dead_def taken_def b3_def b4_def b5_def b6_def ..
  have r1: "at_rest b1 \<and> jobs_next b b1" unfolding b1_def using detach_rest [OF r j nq] .
  have r2: "at_rest b2 \<and> jobs_next b b2"
    unfolding b2_def using rest_seq [OF r1, of "complete env j WasCancelled b1"] r1 complete_rest [of b1 j env WasCancelled]
      jobs_next_get [of b b1 j] j by auto
  have j2: "j < length (b_jobs b2)" "\<not> is_queued x2"
    using jobs_next_get [of b b2 j] r2 j nq not_queued_next unfolding x2_def by blast+
  have r3: "at_rest b3 \<and> jobs_next b b3"
    unfolding b3_def using rest_seq [OF r2 defer_fatal_rest [OF _ j2(1)]] r2 by auto
  obtain f where x3: "b_jobs b3 = (b_jobs b2)[j := x2\<lparr>j_fatal_deferred := f\<rparr>]"
  proof (cases dead)
    case True
    then show ?thesis using defer_fatal_jobs [of j b2] that unfolding b3_def x2_def by auto
  next
    case False
    have "(b_jobs b2)[j := x2\<lparr>j_fatal_deferred := j_fatal_deferred x2\<rparr>] = b_jobs b2"
      by (simp add: x2_def)
    then show ?thesis using that False unfolding b3_def by metis
  qed
  have b4: "b4 = (if taken then hand_over j j_completion b3 else b3)"
  proof -
    have "(\<lambda>x. x\<lparr>j_delivered := True, j_delivery_pending := False, j_completion := j_completion x\<rparr>)
        = (\<lambda>x :: job. x\<lparr>j_delivered := True, j_delivery_pending := False\<rparr>)" by (rule ext) simp
    then show ?thesis unfolding b4_def hand_over_def by simp
  qed
  have j3: "j < length (b_jobs b3)" using x3 j2(1) by simp
  have "at_rest (hand_over j j_completion b3) \<and> jobs_next b3 (hand_over j j_completion b3)" if taken
    by (rule hand_over_rest [OF _ j3]) (use r3 x3 j2(1) that in \<open>auto simp: taken_def\<close>)
  then have r4: "at_rest b4 \<and> jobs_next b b4" using b4 r3 jobs_next_trans by auto
  have j4: "j < length (b_jobs b4)" "\<not> is_queued (b_jobs b4 ! j)"
    using jobs_next_get [of b b4 j] r4 j nq not_queued_next by blast+
  have r5: "at_rest b5 \<and> jobs_next b b5"
    unfolding b5_def using rest_seq [OF rest_seq [OF r4 cancel_completion_rest(1) [OF _ j4]] take_rest] r4 by auto
  have r6: "at_rest b6 \<and> jobs_next b b6"
    unfolding b6_def using rest_seq [OF r5 gate_rest] r5 by (auto simp: gate_keeps_policy)
  show ?thesis unfolding eq using rest_seq [OF r6 discard_rest] r6 by auto
qed

lemma cancel_or_detach_rest:
  "at_rest b \<Longrightarrow> j < length (b_jobs b) \<Longrightarrow>
    at_rest (cancel_or_detach env cancelled j b) \<and> jobs_next b (cancel_or_detach env cancelled j b)"
  by (simp add: cancel_or_detach_def cancel_queued_rest cancel_started_rest)

subsection \<open>New jobs\<close>

lemma acct_submit:
  assumes a: "acct b" and x: "is_queued x" "\<not> j_delivery_pending x" "j_lane x = l"
    and c: "b_jobs c = b_jobs b @ [x]" "\<And>l'. queue_of c l' = (if l' = l then queue_of b l @ [length (b_jobs b)] else queue_of b l')"
      "b_queued c = b_queued b + 1" "b_running c = b_running b" "\<And>l'. running_of c l' = running_of b l'"
      "b_pending c = b_pending b" "b_ready c = b_ready b" "b_ready_set c = b_ready_set b" "b_max_workers c = b_max_workers b"
  shows "acct c"
proof -
  have q: "i \<in> set (queue_of c l') \<longleftrightarrow> i < length (b_jobs c) \<and> is_queued (b_jobs c ! i) \<and> j_lane (b_jobs c ! i) = l'" for i l'
    using acct_queue [OF a, of i l'] acct_queue [OF a, of i l] x c(1) c(2) [of l']
    by (auto simp: nth_append less_Suc_eq)
  have d: "distinct (queue_of c l')" for l'
    using acct_distinct [OF a, of l'] acct_queue [OF a, of "length (b_jobs b)" l] c(2) [of l'] acct_distinct [OF a, of l] by auto
  have r: "running_of c l' = int (count_jobs (\<lambda>x. is_running x \<and> j_lane x = l') (b_jobs c))" for l'
    using acct_running [OF a, of l'] x(1) c(1) c(5) [of l'] by simp
  have rest: "b_queued b = int (count_jobs is_queued (b_jobs b))" "b_running b = int (count_jobs is_running (b_jobs b))"
    "b_pending b = int (count_jobs j_delivery_pending (b_jobs b))"
    using a unfolding acct_def by blast+
  have share: "1 < b_max_workers c \<longrightarrow> (\<forall>g. running_of c (GateLane g) < b_max_workers c)"
    using acct_share [OF a] c(5,9) by simp
  show ?thesis
    unfolding acct_def
    using q d r share rest acct_ready [OF a] acct_bounds [OF a] x c(1) c(3,4) c(6-9) by simp
qed

lemma new_job_ok: "job_ok (new_job g allow)" "is_queued (new_job g allow)" "\<not> j_delivery_pending (new_job g allow)"
  by (simp_all add: new_job_def job_ok_def)

lemma submit_rest:
  assumes r: "at_rest b"
  shows "at_rest (snd (submit env g allow b)) \<and> jobs_next b (snd (submit env g allow b))"
proof -
  let ?x = "new_job g allow"
  define l where "l = j_lane ?x"
  define b1 where "b1 = (if dget (b_queues b) l = None then b\<lparr>b_queues := dset l [] (b_queues b)\<rparr> else b)"
  define ref where "ref = (if queue_of b1 l = [] \<and> running_of b1 l = 0 then b1\<lparr>b_queues := ddel l (b_queues b1)\<rparr> else b1)"
  define c where "c = b1\<lparr>b_jobs := b_jobs b1 @ [?x], b_queues := dset l (queue_of b1 l @ [length (b_jobs b)]) (b_queues b1),
    b_queued := b_queued b1 + 1\<rparr>"
  have q1: "queue_of b1 l' = queue_of b l'" for l' by (auto simp: b1_def queue_of_def)
  have f1: "running_of b1 l' = running_of b l'" "b_jobs b1 = b_jobs b" for l' by (simp_all add: b1_def)
  have sl1: "same_lanes b b1"
    unfolding same_lanes_def using q1 f1 by (simp add: b1_def)
  have rest1: "at_rest b1"
    using r sl1 acct_same [of b b1] q1 f1
    by (intro rest_same_lanes [OF r sl1]) (auto simp: at_rest_def sound_def jobs_ok_def same_accounts_def same_lanes_def b1_def)
  have refl: "at_rest ref"
  proof (cases "queue_of b1 l = [] \<and> running_of b1 l = 0")
    case True
    then have e: "ref = b1\<lparr>b_queues := ddel l (b_queues b1)\<rparr>" by (simp add: ref_def)
    have "same_lanes b1 ref"
      unfolding same_lanes_def e using True by (auto simp: queue_of_ddel)
    then show ?thesis
      using rest1 True by (intro rest_same_lanes [OF rest1]) (auto simp: at_rest_def sound_def jobs_ok_def e acct_ddel)
  qed (use rest1 in \<open>auto simp: ref_def\<close>)
  have a1: "acct b1" using rest1 by (simp add: at_rest_def sound_def)
  have c: "acct c"
    by (rule acct_submit [OF a1 new_job_ok(2,3) l_def [symmetric]]) (auto simp: c_def f1 queue_of_def running_of_def)
  have "lane_ok c l'" if "l' \<noteq> l" for l'
    by (rule lane_okI [of b1]) (use rest1 that in \<open>auto simp: at_rest_def sound_def lanes_ok_def c_def same_limits_def queue_of_def running_of_def\<close>)
  then have lq: "lanes_ok (queue_lane l c)" by (rule queue_lane_lanes)
  have jc: "b_jobs (queue_lane l c) = b_jobs b @ [?x]" by (simp add: queue_lane_frame c_def f1)
  have "jobs_ok {} (queue_lane l c)"
    using r new_job_ok(1) unfolding jobs_ok_def jc by (auto simp: nth_append at_rest_def sound_def jobs_ok_def)
  then have "sound (queue_lane l c)" using lq acct_queue_lane [OF c] by (simp add: sound_def)
  then have d: "at_rest (dispatch env (queue_lane l c)) \<and> jobs_next (queue_lane l c) (dispatch env (queue_lane l c))"
    by (rule rest_dispatch)
  have "jobs_next b (queue_lane l c)" using jc by (simp add: jobs_next_def nth_append)
  then have d': "at_rest (dispatch env (queue_lane l c)) \<and> jobs_next b (dispatch env (queue_lane l c))"
    using d jobs_next_trans by blast
  have "jobs_next b ref" by (rule jobs_next_same) (simp add: ref_def f1)
  moreover have "snd (submit env g allow b) \<in> {b, ref, dispatch env (queue_lane l c)}"
    unfolding submit_def Let_def l_def [symmetric] b1_def [symmetric] unfolding f1(2) ref_def c_def f1(2)
    by (simp split del: if_split) auto
  ultimately show ?thesis using r refl d' by auto
qed

subsection \<open>Queues that are emptied\<close>

abbreviation dropped :: "env \<Rightarrow> jid \<Rightarrow> job \<Rightarrow> job" where
  "dropped env i x \<equiv> x\<lparr>j_state := Dropped, j_detached := True, j_cancel_due := e_alive env i\<rparr>"

lemma drop_all:
  "length (b_jobs (fold (drop_job env) js b)) = length (b_jobs b)"
  "i < length (b_jobs b) \<Longrightarrow> b_jobs (fold (drop_job env) js b) ! i =
    (if i \<in> set js then dropped env i (b_jobs b ! i) else b_jobs b ! i)"
  by (induction js arbitrary: b) (auto simp: drop_job_jobs nth_list_update, (case_tac "a = i"; simp)+)

lemma drop_all_frame:
  "b_queues (fold (drop_job env) js b) = b_queues b" "b_ready (fold (drop_job env) js b) = b_ready b"
  "b_ready_set (fold (drop_job env) js b) = b_ready_set b" "b_running_by (fold (drop_job env) js b) = b_running_by b"
  "b_max_workers (fold (drop_job env) js b) = b_max_workers b" "b_queued (fold (drop_job env) js b) = b_queued b"
  "b_running (fold (drop_job env) js b) = b_running b" "b_pending (fold (drop_job env) js b) = b_pending b"
  "b_gates (fold (drop_job env) js b) = b_gates b"
  by (induction js arbitrary: b) (simp_all add: drop_job_def)

definition drops :: "env \<Rightarrow> jid set \<Rightarrow> broker \<Rightarrow> broker \<Rightarrow> bool" where
  "drops env J b c \<longleftrightarrow> length (b_jobs c) = length (b_jobs b)
     \<and> (\<forall>i<length (b_jobs b). b_jobs c ! i = (if i \<in> J then dropped env i (b_jobs b ! i) else b_jobs b ! i))
     \<and> (\<forall>i\<in>J. i < length (b_jobs b) \<and> is_queued (b_jobs b ! i))"

lemma dropsD:
  assumes "drops env J b c"
  shows "length (b_jobs c) = length (b_jobs b)"
    "i < length (b_jobs b) \<Longrightarrow> b_jobs c ! i = (if i \<in> J then dropped env i (b_jobs b ! i) else b_jobs b ! i)"
    "i \<in> J \<Longrightarrow> i < length (b_jobs b)" "i \<in> J \<Longrightarrow> is_queued (b_jobs b ! i)"
  using assms unfolding drops_def by blast+

lemma job_ok_dropped: "job_ok x \<Longrightarrow> is_queued x \<Longrightarrow> job_ok (dropped env i x)"
  by (auto simp: job_ok_def)

lemma job_next_dropped: "is_queued x \<Longrightarrow> job_next x (dropped env i x)"
  by (simp add: job_next_def)

lemma drops_jobs:
  assumes d: "drops env J b c" and ok: "jobs_ok {} b"
  shows "jobs_ok {} c" "jobs_next b c"
proof -
  show "jobs_ok {} c"
    unfolding jobs_ok_def
  proof (intro allI impI)
    fix i assume i: "i < length (b_jobs c)"
    then have l: "i < length (b_jobs b)" using dropsD(1) [OF d] by simp
    have "job_ok (if i \<in> J then dropped env i (b_jobs b ! i) else b_jobs b ! i)"
    proof (cases "i \<in> J")
      case True
      show ?thesis
        unfolding if_P [OF True] by (rule job_ok_dropped [OF jobs_ok_get [OF ok l] dropsD(4) [OF d True]])
    qed (simp only: if_False jobs_ok_get [OF ok l])
    then show "job_ok (b_jobs c ! i)" by (simp only: dropsD(2) [OF d l])
  qed
  have "job_next (b_jobs b ! i) (b_jobs c ! i)" if l: "i < length (b_jobs b)" for i
  proof (cases "i \<in> J")
    case True
    show ?thesis
      unfolding dropsD(2) [OF d l] if_P [OF True] by (rule job_next_dropped) (rule dropsD(4) [OF d True])
  qed (simp only: dropsD(2) [OF d l] if_False job_next_refl)
  then show "jobs_next b c" using dropsD(1) [OF d] by (simp add: jobs_next_def)
qed

lemma drops_count:
  assumes d: "drops env J b c" and P: "\<And>i. i \<in> J \<Longrightarrow> P (dropped env i (b_jobs b ! i)) = P (b_jobs b ! i)"
  shows "count_jobs P (b_jobs c) = count_jobs P (b_jobs b)"
proof -
  have "{i. i < length (b_jobs c) \<and> P (b_jobs c ! i)} = {i. i < length (b_jobs b) \<and> P (b_jobs b ! i)}"
    using dropsD(1) [OF d] dropsD(2) [OF d] P by (auto split: if_splits)
  then show ?thesis by (simp add: count_jobs_def)
qed

lemma drops_queued:
  assumes d: "drops env J b c"
  shows "int (count_jobs is_queued (b_jobs c)) = int (count_jobs is_queued (b_jobs b)) - int (card J)"
proof -
  let ?Q = "{i. i < length (b_jobs b) \<and> is_queued (b_jobs b ! i)}"
  have "{i. i < length (b_jobs c) \<and> is_queued (b_jobs c ! i)} = ?Q - J"
    using dropsD(1) [OF d] dropsD(2) [OF d] by (auto split: if_splits)
  moreover have "J \<subseteq> ?Q" using dropsD(3,4) [OF d] by blast
  moreover have "finite ?Q" by simp
  ultimately have "count_jobs is_queued (b_jobs c) = card ?Q - card J" "card J \<le> card ?Q"
    using finite_subset [of J ?Q] by (simp_all add: count_jobs_def card_Diff_subset card_mono)
  then show ?thesis by (simp add: count_jobs_def)
qed

lemma acct_drops:
  assumes a: "acct b" and d: "drops env J b c" and ok: "jobs_ok {} b"
    and q: "\<And>l. queue_of c l = filter (\<lambda>i. i \<notin> J) (queue_of b l)" "b_queued c = b_queued b - int (card J)"
    and same: "b_running c = b_running b" "\<And>l. running_of c l = running_of b l" "b_pending c = b_pending b"
      "b_max_workers c = b_max_workers b"
    and ready: "distinct (b_ready c)" "set (b_ready c) = b_ready_set c"
  shows "acct c"
proof -
  have np: "\<not> j_delivery_pending (b_jobs b ! i)" if "i \<in> J" for i
    using jobs_ok_get [OF ok dropsD(3) [OF d that]] dropsD(4) [OF d that] by (simp add: job_ok_def)
  have cq: "i \<in> set (queue_of c l) \<longleftrightarrow> i < length (b_jobs c) \<and> is_queued (b_jobs c ! i) \<and> j_lane (b_jobs c ! i) = l" for i l
    using acct_queue [OF a, of i l] dropsD(1) [OF d] dropsD(2) [OF d, of i] dropsD(3,4) [OF d, of i] q(1) [of l]
    by (cases "i \<in> J") auto
  have dist: "distinct (queue_of c l)" for l using acct_distinct [OF a] q(1) by simp
  have run: "count_jobs is_running (b_jobs c) = count_jobs is_running (b_jobs b)"
    by (rule drops_count [OF d]) (simp add: dropsD(4) [OF d])
  have lane: "count_jobs (\<lambda>x. is_running x \<and> j_lane x = l) (b_jobs c)
      = count_jobs (\<lambda>x. is_running x \<and> j_lane x = l) (b_jobs b)" for l
    by (rule drops_count [OF d]) (simp add: dropsD(4) [OF d])
  have pend: "count_jobs j_delivery_pending (b_jobs c) = count_jobs j_delivery_pending (b_jobs b)"
    by (rule drops_count [OF d]) simp
  have n: "b_queued b = int (count_jobs is_queued (b_jobs b))" "b_running b = int (count_jobs is_running (b_jobs b))"
    "b_pending b = int (count_jobs j_delivery_pending (b_jobs b))"
    using a unfolding acct_def by blast+
  have share: "1 < b_max_workers c \<longrightarrow> (\<forall>g. running_of c (GateLane g) < b_max_workers c)"
    using acct_share [OF a] same by simp
  show ?thesis
    unfolding acct_def
    using cq dist run lane pend n share q(2) same ready acct_bounds [OF a] acct_running [OF a] drops_queued [OF d]
    by simp
qed

lemma drops_fold:
  assumes "J \<subseteq> {i. i < length (b_jobs b) \<and> is_queued (b_jobs b ! i)}" "b_jobs b' = b_jobs b"
    "\<And>i. i < length (b_jobs b) \<Longrightarrow> i \<in> set js \<longleftrightarrow> i \<in> J"
    "b_jobs c = b_jobs (fold (drop_job env) js b')"
  shows "drops env J b c"
  unfolding drops_def using assms(1) drop_all [where env = env and js = js and b = b'] assms(2-4) by auto

lemma cancel_all_queued_rest:
  assumes r: "at_rest b"
  shows "at_rest (cancel_all_queued env b) \<and> jobs_next b (cancel_all_queued env b)"
proof -
  let ?J = "{i. i < length (b_jobs b) \<and> is_queued (b_jobs b ! i)}"
  let ?js = "filter (\<lambda>j. is_queued (b_jobs b ! j)) (concat (map snd (b_queues b)))"
  let ?c = "cancel_all_queued env b"
  have a: "acct b" and ok: "jobs_ok {} b" using r by (simp_all add: at_rest_def sound_def)
  have js: "i \<in> set ?js \<longleftrightarrow> i \<in> ?J" if i: "i < length (b_jobs b)" for i
  proof
    assume "i \<in> ?J"
    then have "i \<in> set (queue_of b (j_lane (b_jobs b ! i)))" "is_queued (b_jobs b ! i)"
      using acct_queue [OF a] by blast+
    then show "i \<in> set ?js"
      using map_of_SomeD [of "b_queues b" "j_lane (b_jobs b ! i)"]
      by (force simp: queue_of_def split: option.splits)
  qed (use i in auto)
  have d: "drops env ?J b ?c"
    by (rule drops_fold [OF subset_refl refl js]) (simp_all add: cancel_all_queued_def)
  have n: "b_queued b = int (card ?J)" using a by (simp add: acct_def count_jobs_def)
  have qe: "queue_of b l = filter (\<lambda>i. i \<in> ?J) (queue_of b l)" for l
    using acct_queue [OF a, of _ l] by (simp add: filter_id_conv)
  have "acct ?c"
  proof (rule acct_drops [OF a d ok])
    show "queue_of ?c l = filter (\<lambda>i. i \<notin> ?J) (queue_of b l)" for l
      using acct_queue [OF a, of _ l] by (auto simp: cancel_all_queued_def queue_of_def filter_empty_conv)
  qed (use n in \<open>simp_all add: cancel_all_queued_def drop_all_frame running_of_def\<close>)
  moreover have "lanes_ok ?c" "busy ?c"
    by (simp_all add: lanes_ok_def lane_ok_def busy_def cancel_all_queued_def queue_of_def)
  ultimately show ?thesis using drops_jobs [OF d ok] by (simp add: at_rest_def sound_def)
qed

lemma close_gate_admission_rest:
  assumes r: "at_rest b"
  shows "at_rest (close_gate_admission env g b) \<and> jobs_next b (close_gate_admission env g b)"
proof -
  define l where "l = GateLane g"
  define q where "q = queue_of b l"
  define gone where "gone = filter (\<lambda>j. \<not> j_allow_closed (b_jobs b ! j)) q"
  define retained where "retained = filter (\<lambda>j. j_allow_closed (b_jobs b ! j)) q"
  define b1 where "b1 = fold (drop_job env) gone (b\<lparr>b_queued := b_queued b - int (length gone)\<rparr>)"
  define b2 where "b2 = drop_stale_ready l b1"
  define b2' where "b2' = b2\<lparr>b_queues := dset l retained (b_queues b2)\<rparr>"
  define b3 where "b3 = (if retained \<noteq> [] then queue_lane l b2' else if running_of b2 l = 0
     then b2\<lparr>b_queues := ddel l (b_queues b2)\<rparr> else b2')"
  have a: "acct b" and lo: "lanes_ok b" and ok: "jobs_ok {} b" using r by (simp_all add: at_rest_def sound_def)
  have qd: "distinct q" unfolding q_def by (rule acct_distinct [OF a])
  have inq: "i < length (b_jobs b) \<and> is_queued (b_jobs b ! i) \<and> j_lane (b_jobs b ! i) = l" if "i \<in> set q" for i
    using that acct_queue [OF a] by (simp add: q_def)
  have d: "drops env (set gone) b c" if "b_jobs c = b_jobs b1" for c
    by (rule drops_fold [of _ b "b\<lparr>b_queued := b_queued b - int (length gone)\<rparr>" gone])
      (use inq that in \<open>auto simp: gone_def b1_def\<close>)
  have j: "b_jobs b2' = b_jobs b1" "b_jobs b3 = b_jobs b1"
    by (simp_all add: b3_def b2'_def b2_def drop_stale_frame queue_lane_frame)
  have ql: "filter (\<lambda>i. i \<notin> set gone) (queue_of b l') = (if l' = l then retained else queue_of b l')" for l'
  proof (cases "l' = l")
    case True
    then show ?thesis using True by (auto simp: gone_def retained_def q_def intro: filter_cong)
  next
    case False
    then have "i \<notin> set gone" if "i \<in> set (queue_of b l')" for i
      using that inq [of i] acct_queue [OF a, of i l'] by (auto simp: gone_def)
    then show ?thesis using False by (simp add: filter_id_conv)
  qed
  have q1: "queue_of b1 l' = queue_of b l'" "running_of b1 l' = running_of b l'" for l'
    by (simp_all add: b1_def queue_of_def running_of_def drop_all_frame)
  have f1: "same_limits b b2'"
    by (simp add: same_limits_def b2'_def b2_def b1_def drop_stale_ready_def drop_all_frame)
  have f2: "queue_of b2 l' = queue_of b l'" "running_of b2 l' = running_of b l'" for l'
    by (simp_all add: b2_def drop_stale_frame q1)
  have fr: "b_queued b2 = b_queued b - int (length gone)" "b_running b2 = b_running b" "b_pending b2 = b_pending b"
    "b_max_workers b2 = b_max_workers b" "distinct (b_ready b2)" "set (b_ready b2) = b_ready_set b2"
    using acct_ready [OF a] by (auto simp: b2_def b1_def drop_stale_ready_def drop_all_frame)
  have card: "card (set gone) = length gone" unfolding gone_def by (rule distinct_card) (simp add: qd)
  have a2: "acct b2'"
    by (rule acct_drops [OF a d [OF j(1)] ok])
      (use fr f2 card in \<open>simp_all add: b2'_def queue_of_dset ql\<close>)
  have a3: "acct b3"
  proof (cases "retained = [] \<and> running_of b2 l = 0")
    case True
    have e: "b3 = b2\<lparr>b_queues := ddel l (b_queues b2)\<rparr>" using True by (simp add: b3_def)
    show ?thesis
      by (rule acct_drops [OF a d [OF j(2)] ok]) (use fr f2 card True in \<open>simp_all add: e queue_of_ddel ql\<close>)
  next
    case False
    then show ?thesis unfolding b3_def using a2 acct_queue_lane [OF a2] by auto
  qed
  have lane2: "lane_ok b2' l'" if "l' \<noteq> l" for l'
    by (rule lane_okI [of b]) (use lo that f1 f2 in \<open>auto simp: lanes_ok_def b2'_def queue_of_dset b2_def b1_def drop_stale_frame
      drop_all_frame\<close>)
  have l3: "lanes_ok b3"
  proof (cases "retained = []")
    case True
    have "lane_ok b3 l'" for l'
      using True lane2 [of l'] by (cases "l' = l")
        (auto simp: lane_ok_def b3_def b2'_def queue_of_dset queue_of_ddel lane_running_limit_def split: lane.splits)
    then show ?thesis by (simp add: lanes_ok_def)
  next
    case False
    then show ?thesis unfolding b3_def using queue_lane_lanes [OF lane2] by simp
  qed
  have s3: "sound b3" using a3 l3 drops_jobs(1) [OF d [OF j(2)] ok] by (simp add: sound_def)
  have n3: "jobs_next b b3" by (rule drops_jobs(2) [OF d [OF j(2)] ok])
  have "close_gate_admission env g b = (if q = [] then b else dispatch env b3)"
    unfolding close_gate_admission_def Let_def b3_def b2'_def b2_def b1_def gone_def retained_def q_def l_def by simp
  then show ?thesis using r rest_dispatch [OF s3] n3 jobs_next_trans by auto
qed


subsection \<open>Gates and closing\<close>

lemma acct_fields:
  "acct b \<Longrightarrow> acct (b\<lparr>b_closed := x\<rparr>)" "acct b \<Longrightarrow> acct (b\<lparr>b_queue_limit := n\<rparr>)" "acct b \<Longrightarrow> acct (b\<lparr>b_gates := h\<rparr>)"
  by (erule acct_same, simp add: same_accounts_def queue_of_def running_of_def)+

lemma restD: "at_rest b \<Longrightarrow> acct b" "at_rest b \<Longrightarrow> lane_ok b l" "at_rest b \<Longrightarrow> jobs_ok {} b" "at_rest b \<Longrightarrow> busy b"
  by (simp_all add: at_rest_def sound_def lanes_ok_def)

lemma close_begin_rest:
  assumes r: "at_rest b"
  shows "at_rest (broker_close_begin env b) \<and> jobs_next b (broker_close_begin env b)"
proof -
  let ?b = "b\<lparr>b_closed := True\<rparr>"
  have a: "acct ?b" by (rule acct_fields) (rule restD(1) [OF r])
  have "lanes_ok ?b"
    unfolding lanes_ok_def
    by (rule allI, rule lane_okI [of b])
      (simp_all add: restD(2) [OF r] same_limits_def queue_of_def running_of_def)
  then have "at_rest ?b"
    using restD(3,4) [OF r] a jobs_ok_same [of ?b b "{}"] by (simp add: at_rest_def sound_def busy_def)
  moreover have "jobs_next b ?b" by (rule jobs_next_same) simp
  ultimately show ?thesis
    using cancel_all_queued_rest [of ?b env] jobs_next_trans unfolding broker_close_begin_def by blast
qed

lemma close_end_rest:
  "at_rest b \<Longrightarrow> at_rest (snd (broker_close_end b)) \<and> jobs_next b (snd (broker_close_end b))"
  using take_rest by (simp add: broker_close_end_def Let_def)

text \<open>A gate whose policy may have changed: its lane is queued again.\<close>

lemma gate_change_rest:
  assumes r: "at_rest b" and w: "\<And>i. i \<noteq> g \<Longrightarrow> gates i = b_gates b i"
  shows "at_rest (notify_policy_change env g (b\<lparr>b_gates := gates\<rparr>))
    \<and> jobs_next b (notify_policy_change env g (b\<lparr>b_gates := gates\<rparr>))"
proof -
  let ?b = "b\<lparr>b_gates := gates\<rparr>"
  let ?c = "queue_lane (GateLane g) ?b"
  have a: "acct ?b" by (rule acct_fields) (rule restD(1) [OF r])
  have other: "lane_ok ?b l" if "l \<noteq> GateLane g" for l
  proof -
    have "lane_running_limit ?b l = lane_running_limit b l"
      using that w by (auto simp: lane_running_limit_def split: lane.split)
    moreover have "lane_ok b l" by (rule restD(2) [OF r])
    ultimately show ?thesis by (simp add: lane_ok_def queue_of_def running_of_def)
  qed
  have l: "lanes_ok ?c" by (rule queue_lane_lanes [OF other])
  have q: "?c = ?b" if "dget (b_queues b) (GateLane g) = None"
    using that by (simp add: queue_lane_def queue_of_def)
  have "sound ?c"
    using restD(3) [OF r] l acct_queue_lane [OF a] jobs_ok_same [of ?c b "{}"] by (simp add: sound_def queue_lane_frame)
  moreover have "notify_policy_change env g ?b = dispatch env ?c"
    using q by (simp add: notify_policy_change_def)
  moreover have "jobs_next b ?c" by (rule jobs_next_same) (simp add: queue_lane_frame)
  ultimately show ?thesis using rest_dispatch [of ?c env] jobs_next_trans by auto
qed

lemma upd_gate_Some: "upd_gate (Some g) f b = b\<lparr>b_gates := (b_gates b)(g := f (b_gates b g))\<rparr>"
  by (simp add: upd_gate_def)

lemma configure_rest:
  assumes r: "at_rest b" and c: "configure env n b = Inr c"
  shows "at_rest c \<and> jobs_next b c"
proof -
  let ?b = "b\<lparr>b_queue_limit := n\<rparr>"
  have a: "acct ?b" by (rule acct_fields) (rule restD(1) [OF r])
  have "lane_ok ?b l" if "lane_ok b l" for l
    by (rule lane_okI [OF that]) (simp_all add: same_limits_def queue_of_def running_of_def)
  then have "sound ?b"
    using restD(2,3) [OF r] a jobs_ok_same [of ?b b "{}"] by (simp add: sound_def lanes_ok_def)
  moreover have "jobs_next b ?b" by (rule jobs_next_same) simp
  moreover have "c = dispatch env ?b" using c by (auto simp: configure_def split: if_splits)
  ultimately show ?thesis using rest_dispatch [of ?b env] jobs_next_trans by auto
qed

lemma set_policy_rest:
  "at_rest b \<Longrightarrow> at_rest (broker_set_policy env g p b) \<and> jobs_next b (broker_set_policy env g p b)"
  unfolding broker_set_policy_def upd_gate_Some by (rule gate_change_rest) auto

lemma release_hold_rest:
  "at_rest b \<Longrightarrow> broker_release_hold env g t b = Inr c \<Longrightarrow> at_rest c \<and> jobs_next b c"
  unfolding broker_release_hold_def upd_gate_Some
  by (auto simp: bindE_def split: sum.splits intro!: gate_change_rest [of b g])

lemma close_gate_policy: "g_policy (gate_close g) = g_policy g"
  by (simp add: gate_close_def)

lemma close_gate_rest:
  assumes "at_rest b"
  shows "at_rest (broker_close_gate env g b) \<and> jobs_next b (broker_close_gate env g b)"
  unfolding broker_close_gate_def
  using rest_seq [OF gate_rest close_gate_admission_rest, of b gate_close] assms close_gate_policy by simp

lemma hold_gate_rest:
  assumes r: "at_rest b" and h: "broker_hold_gate env g t b = Inr c"
  shows "at_rest c \<and> jobs_next b c"
proof -
  obtain gate where g: "hold_for_publication t (b_gates b g) = Inr gate"
    and c: "c = close_gate_admission env g (upd_gate (Some g) (\<lambda>_. gate) b)"
    using h by (auto simp: broker_hold_gate_def bindE_def split: sum.splits)
  have p: "g_policy gate = g_policy (b_gates b g)"
    using g by (auto simp: hold_for_publication_def split: if_splits option.splits)
  have "same_lanes b (upd_gate (Some g) (\<lambda>_. gate) b)"
    using p by (simp add: same_lanes_def same_limits_def upd_gate_def queue_of_def running_of_def)
  then have "at_rest (upd_gate (Some g) (\<lambda>_. gate) b)"
    by (rule rest_same_lanes [OF r]) (use restD(1,3) [OF r] in \<open>simp_all add: acct_gate jobs_ok_def\<close>)
  moreover have "jobs_next b (upd_gate (Some g) (\<lambda>_. gate) b)" by (rule jobs_next_same) simp
  ultimately show ?thesis unfolding c using close_gate_admission_rest jobs_next_trans by blast
qed

section \<open>The running broker\<close>

text \<open>
  Every operation, at any moment; a delivery on the loop runs only for a job whose delivery was
  scheduled, a scheduled cancellation only for a dropped job, and a gate may change by itself as long
  as its policy stays (a change of policy comes with its notification).
\<close>

inductive broker_step :: "broker \<Rightarrow> broker \<Rightarrow> bool" where
  step_submit: "broker_step b (snd (submit env g allow b))"
| step_complete: "j < length (b_jobs b) \<Longrightarrow> broker_step b (complete env j out b)"
| step_deliver: "j < length (b_jobs b) \<Longrightarrow> j_delivered (b_jobs b ! j) \<or> j_delivery_pending (b_jobs b ! j)
    \<Longrightarrow> broker_step b (deliver env j b)"
| step_run_cancel: "j < length (b_jobs b) \<Longrightarrow> j_cancel_due (b_jobs b ! j) \<Longrightarrow> broker_step b (run_cancel j b)"
| step_cancel: "j < length (b_jobs b) \<Longrightarrow> broker_step b (cancel_or_detach env cancelled j b)"
| step_configure: "configure env n b = Inr c \<Longrightarrow> broker_step b c"
| step_set_policy: "broker_step b (broker_set_policy env g p b)"
| step_close_gate: "broker_step b (broker_close_gate env g b)"
| step_hold_gate: "broker_hold_gate env g t b = Inr c \<Longrightarrow> broker_step b c"
| step_release_hold: "broker_release_hold env g t b = Inr c \<Longrightarrow> broker_step b c"
| step_gate: "(\<And>x. g_policy (h x) = g_policy x) \<Longrightarrow> broker_step b (upd_gate g h b)"
| step_close_begin: "broker_step b (broker_close_begin env b)"
| step_close_end: "broker_step b (snd (broker_close_end b))"

inductive broker_steps :: "broker \<Rightarrow> broker \<Rightarrow> bool" where
  no_step: "broker_steps b b"
| one_more: "broker_steps b c \<Longrightarrow> broker_step c d \<Longrightarrow> broker_steps b d"

definition broker_reach :: "broker \<Rightarrow> bool" where
  "broker_reach b \<longleftrightarrow> (\<exists>workers limit gates start. new_broker workers limit gates = Inr start \<and> broker_steps start b)"

lemma new_broker_rest:
  assumes "new_broker workers limit gates = Inr b"
  shows "at_rest b"
proof -
  have b: "0 < b_max_workers b" "b_queues b = []" "b_running_by b = []" "b_ready b = []" "b_ready_set b = {}"
    "b_jobs b = []" "b_queued b = 0" "b_running b = 0" "b_pending b = 0"
    using assms by (auto simp: new_broker_def split: if_splits)
  have "queue_of b l = []" "running_of b l = 0" for l using b by (simp_all add: queue_of_def running_of_def)
  then show ?thesis
    using b by (simp add: at_rest_def sound_def busy_def jobs_ok_def lanes_ok_def lane_ok_def acct_def)
qed

lemma run_cancel_rest:
  assumes r: "at_rest b" and j: "j < length (b_jobs b)" "j_cancel_due (b_jobs b ! j)"
  shows "at_rest (run_cancel j b) \<and> jobs_next b (run_cancel j b)"
proof -
  have "job_ok (b_jobs b ! j)" by (rule jobs_ok_get [OF restD(3) [OF r] j(1)])
  then have "\<not> is_queued (b_jobs b ! j)" using j(2) by (auto simp: job_ok_def)
  then show ?thesis by (rule cancel_completion_rest(2) [OF r j(1)])
qed

lemma broker_step_rest: "broker_step b c \<Longrightarrow> at_rest b \<Longrightarrow> at_rest c \<and> jobs_next b c"
proof (induction rule: broker_step.induct)
  case (step_submit b env g allow)
  show ?case by (rule submit_rest) (fact step_submit)+
next
  case (step_complete j b env out)
  show ?case by (rule complete_rest) (fact step_complete)+
next
  case (step_deliver j b env)
  show ?case by (rule deliver_rest) (fact step_deliver)+
next
  case (step_run_cancel j b)
  show ?case by (rule run_cancel_rest) (fact step_run_cancel)+
next
  case (step_cancel j b env cancelled)
  show ?case by (rule cancel_or_detach_rest) (fact step_cancel)+
next
  case (step_configure env n b c)
  show ?case by (rule configure_rest) (fact step_configure)+
next
  case (step_set_policy b env g p)
  show ?case by (rule set_policy_rest) (fact step_set_policy)+
next
  case (step_close_gate b env g)
  show ?case by (rule close_gate_rest) (fact step_close_gate)+
next
  case (step_hold_gate env g t b c)
  show ?case by (rule hold_gate_rest) (fact step_hold_gate)+
next
  case (step_release_hold env g t b c)
  show ?case by (rule release_hold_rest) (fact step_release_hold)+
next
  case (step_gate h b g)
  show ?case by (rule gate_rest) (fact step_gate)+
next
  case (step_close_begin b env)
  show ?case by (rule close_begin_rest) (fact step_close_begin)+
next
  case (step_close_end b)
  show ?case by (rule close_end_rest) (fact step_close_end)+
qed

lemma broker_steps_rest: "broker_steps b c \<Longrightarrow> at_rest b \<Longrightarrow> at_rest c \<and> jobs_next b c"
proof (induction rule: broker_steps.induct)
  case (one_more b c d)
  then show ?case using rest_seq [of c b d] broker_step_rest by blast
qed simp

lemma broker_reach_rest: "broker_reach b \<Longrightarrow> at_rest b"
  unfolding broker_reach_def using broker_steps_rest new_broker_rest by blast

text \<open>
  C10. The bulkhead holds in every reachable state of the broker: the counters are the numbers of jobs
  queued, running and waiting for their delivery, never more than the workers run, and with two workers
  or more no plugin ever has all of them.
\<close>

theorem broker_bulkhead:
  assumes "broker_reach b"
  shows "b_queued b = int (count_jobs is_queued (b_jobs b))
    \<and> b_running b = int (count_jobs is_running (b_jobs b))
    \<and> b_pending b = int (count_jobs j_delivery_pending (b_jobs b))
    \<and> b_running b \<le> b_max_workers b
    \<and> int (count_jobs (\<lambda>x. is_running x \<and> j_lane x = GateLane g) (b_jobs b)) \<le> max 1 (b_max_workers b - 1)"
proof -
  have a: "acct b" by (rule restD(1) [OF broker_reach_rest [OF assms]])
  have n: "b_queued b = int (count_jobs is_queued (b_jobs b))" "b_running b = int (count_jobs is_running (b_jobs b))"
    "b_pending b = int (count_jobs j_delivery_pending (b_jobs b))" "b_running b \<le> b_max_workers b"
    using a unfolding acct_def by blast+
  have "running_of b (GateLane g) \<le> b_running b" by (rule acct_running_le [OF a])
  then have "int (count_jobs (\<lambda>x. is_running x \<and> j_lane x = GateLane g) (b_jobs b)) \<le> max 1 (b_max_workers b - 1)"
    using acct_running [OF a, of "GateLane g"] acct_share [OF a, of g] acct_bounds [OF a] by linarith
  then show ?thesis using n by blast
qed

text \<open>
  C21. The broker never idles while it could work: in every reachable state with a free worker, a job is
  queued only when its lane already has all the workers its policy allows.
\<close>

theorem broker_work_conserving:
  assumes "broker_reach b" "b_running b < b_max_workers b" "j < length (b_jobs b)" "is_queued (b_jobs b ! j)"
  shows "lane_running_limit b (j_lane (b_jobs b ! j))
    \<le> int (count_jobs (\<lambda>x. is_running x \<and> j_lane x = j_lane (b_jobs b ! j)) (b_jobs b))"
proof -
  have r: "at_rest b" by (rule broker_reach_rest [OF assms(1)])
  have "b_ready_set b = {}" using restD(4) [OF r] assms(2) acct_ready [OF restD(1) [OF r]] by (auto simp: busy_def)
  moreover have "queue_of b (j_lane (b_jobs b ! j)) \<noteq> []"
    using acct_queue [OF restD(1) [OF r], of j "j_lane (b_jobs b ! j)"] assms(3,4) by auto
  ultimately show ?thesis
    using restD(2) [OF r, of "j_lane (b_jobs b ! j)"] acct_running [OF restD(1) [OF r]] by (simp add: lane_ok_def)
qed


section \<open>Dispatching ends\<close>

lemma queue_lane_ready: "length (b_ready (queue_lane l b)) \<le> Suc (length (b_ready b))"
  by (simp add: queue_lane_def)

lemma after_pop_ready: "length (b_ready (after_pop l b)) \<le> Suc (length (b_ready b))"
  using queue_lane_ready by (simp add: after_pop_def)

lemma delivery_ready [simp]: "b_ready (schedule_delivery env j b) = b_ready b"
  using same_lanes_schedule [of b env j] by (simp add: same_lanes_def)

lemma release_ready [simp]: "b_ready (release_running_slot l b) = b_ready b"
  by (simp add: release_running_slot_def Let_def)

lemma start_job_ready: "length (b_ready (start_job env l j b)) \<le> length (b_ready b) + 2"
proof -
  have one: "length (b_ready (after_pop l c)) \<le> length (b_ready b) + 2" if "b_ready c = b_ready b" for c
    using after_pop_ready [of l c] that by simp
  have two: "length (b_ready (queue_lane l (after_pop l c))) \<le> length (b_ready b) + 2" if "b_ready c = b_ready b" for c
    using queue_lane_ready [of l "after_pop l c"] after_pop_ready [of l c] that by simp
  show ?thesis
    unfolding start_job_def Let_def by (split option.split, intro conjI impI allI one two; simp)
qed

definition turn_bound :: "broker \<Rightarrow> nat" where
  "turn_bound b = 2 * waiting_jobs b + length (b_ready b)"

lemma turn_bound_decreases:
  assumes "b_ready b \<noteq> []"
  shows "turn_bound (dispatch_turn env b) < turn_bound b"
proof -
  obtain l ls where r: "b_ready b = l # ls" using assms by (cases "b_ready b") auto
  let ?b1 = "b\<lparr>b_ready := ls, b_ready_set := b_ready_set b - {l}\<rparr>"
  have w1: "waiting_jobs ?b1 = waiting_jobs b" by (simp add: waiting_jobs_def)
  show ?thesis
  proof (cases "queue_of ?b1 l")
    case Nil
    then show ?thesis
      using r queue_total_ddel [of l "b_queues b"]
      by (simp add: dispatch_turn_def turn_bound_def waiting_jobs_def Let_def)
  next
    case (Cons j q)
    let ?b2 = "?b1\<lparr>b_queues := dset l q (b_queues ?b1), b_queued := b_queued ?b1 - 1\<rparr>"
    have "dget (b_queues b) l = Some (j # q)" using Cons by (auto simp: queue_of_def split: option.splits)
    then have dec: "waiting_jobs ?b2 < waiting_jobs b"
      using queue_total_dset [of "b_queues b" l "j # q" q] by (simp add: waiting_jobs_def)
    have "waiting_jobs (after_pop l (drop_job env j ?b2)) \<le> waiting_jobs ?b2"
      "length (b_ready (after_pop l (drop_job env j ?b2))) \<le> Suc (length ls)"
      using after_pop_waiting [of l "drop_job env j ?b2"] after_pop_ready [of l "drop_job env j ?b2"]
      by (simp_all add: drop_job_def)
    moreover have "waiting_jobs (start_job env l j ?b2) \<le> waiting_jobs ?b2"
      "length (b_ready (start_job env l j ?b2)) \<le> length ls + 2"
      using start_job_waiting start_job_ready [of env l j ?b2] by simp_all
    ultimately show ?thesis
      using r Cons dec w1 by (simp add: dispatch_turn_def turn_bound_def Let_def)
  qed
qed

text \<open>
  C38. The dispatching loop ends after at most two turns for each queued job and one for each ready
  lane, and it ends only when all workers are taken or no lane is ready.
\<close>

theorem dispatch_ends:
  "\<exists>n. n \<le> turn_bound b \<and> dispatch env b = (dispatch_turn env ^^ n) b
    \<and> busy (dispatch env b)"
proof (induction env b rule: dispatch.induct)
  case (1 env b)
  show ?case
  proof (cases "b_running b < b_max_workers b \<and> b_ready b \<noteq> []")
    case True
    obtain n where n: "n \<le> turn_bound (dispatch_turn env b)"
      "dispatch env (dispatch_turn env b) = (dispatch_turn env ^^ n) (dispatch_turn env b)"
      "busy (dispatch env (dispatch_turn env b))"
      using 1 [OF True] by blast
    have "dispatch env b = dispatch env (dispatch_turn env b)" using True by (subst dispatch.simps) simp
    then have "dispatch env b = (dispatch_turn env ^^ Suc n) b" "busy (dispatch env b)" "Suc n \<le> turn_bound b"
      using n turn_bound_decreases [of b env] True by (simp_all add: funpow_swap1)
    then show ?thesis by (intro exI [of _ "Suc n"]) (simp add: busy_def)
  next
    case False
    have "dispatch env b = b" using False by (subst dispatch.simps) (simp only: if_False)
    then show ?thesis using False by (intro exI [of _ 0]) (auto simp: busy_def)
  qed
qed

text \<open>A run: two jobs of one plugin on two workers, the first runs and answers, the second waits.\<close>

definition sample_env :: env where
  "sample_env = \<lparr>e_alive = (\<lambda>_. True), e_start_error = (\<lambda>_. None), e_done = (\<lambda>_. True)\<rparr>"

lemma dispatch_one:
  assumes "b_running b < b_max_workers b" "b_ready b \<noteq> []" "b_ready (dispatch_turn env b) = []"
  shows "dispatch env b = dispatch_turn env b"
proof -
  have "dispatch env b = dispatch env (dispatch_turn env b)" using assms by (subst dispatch.simps) simp
  also have "\<dots> = dispatch_turn env b" using assms(3) by (subst dispatch.simps) simp
  finally show ?thesis .
qed

lemma sample_run:
  obtains gate start b1 b2 b3 b4 where
    "new_gate (U ''parallel'') None = Inr gate" "new_broker 2 8 (\<lambda>_. gate) = Inr start"
    "b1 = snd (submit sample_env (Some 0) False start)" "b2 = snd (submit sample_env (Some 0) False b1)"
    "b3 = complete sample_env 0 Returned b2" "b4 = deliver sample_env 0 b3"
    "length (b_jobs b1) = 1" "is_running (b_jobs b1 ! 0)"
    "length (b_jobs b2) = 2" "is_running (b_jobs b2 ! 0)" "is_queued (b_jobs b2 ! 1)" "b_running b2 = 1" "b_max_workers b2 = 2"
    "j_delivery_pending (b_jobs b3 ! 0)" "length (b_jobs b3) = 2"
    "j_completion (b_jobs b4 ! 0) = Completed" "is_running (b_jobs b4 ! 1)"
proof -
  obtain gate where g: "new_gate (U ''parallel'') None = Inr gate"
    by (auto simp: new_gate_def simp del: U_simps)
  then have f: "g_closed gate = False" "g_policy gate = default_policy"
    by (auto simp: new_gate_def simp del: U_simps)
  obtain start where s: "new_broker 2 8 (\<lambda>_. gate) = Inr start" by (simp add: new_broker_def)
  note turn = dispatch_turn_def job_refused_def start_job_def start_error_def after_pop_def upd_job_def upd_gate_def
    queue_of_def running_of_def lane_running_limit_def queue_lane_def default_policy_def sample_env_def Let_def
    gate_keeps_policy
  note ops = submit_def new_job_def queue_of_def running_of_def lane_running_limit_def lane_queue_limit_def queue_lane_def
    dispatch.simps dispatch_turn_def job_refused_def start_job_def start_error_def after_pop_def upd_job_def upd_gate_def
    default_policy_def sample_env_def Let_def complete_def deliver_def release_running_slot_def schedule_delivery_def
    take_drained_executor_def discard_future_def deliver_to_def gate_keeps_policy
  define job0 where "job0 = \<lparr>j_lane = GateLane 0, j_gate = Some 0, j_allow_closed = False, j_state = Running,
    j_future = True, j_detached = False, j_delivered = False, j_outcome = None, j_fatal_deferred = False,
    j_delivery_pending = False, j_completion = Awaited, j_cancel_due = False\<rparr>"
  define b1 where "b1 = snd (submit sample_env (Some 0) False start)"
  define b2 where "b2 = snd (submit sample_env (Some 0) False b1)"
  define b3 where "b3 = complete sample_env 0 Returned b2"
  define b4 where "b4 = deliver sample_env 0 b3"
  have b0: "start = \<lparr>b_max_workers = 2, b_queue_limit = 8, b_queues = [], b_ready = [], b_ready_set = {},
      b_running_by = [], b_queued = 0, b_running = 0, b_pending = 0, b_closed = False,
      b_executor = False, b_shutdown = False, b_jobs = [], b_gates = (\<lambda>_. gate)\<rparr>"
    using s by (simp add: new_broker_def)
  have b1: "b1 = \<lparr>b_max_workers = 2, b_queue_limit = 8, b_queues = [(GateLane 0, [])],
      b_ready = [], b_ready_set = {}, b_running_by = [(GateLane 0, 1)], b_queued = 0, b_running = 1, b_pending = 0,
      b_closed = False, b_executor = True, b_shutdown = False, b_jobs = [job0],
      b_gates = (\<lambda>_. gate)(0 := register_sync_future 0 gate)\<rparr>"
    unfolding b1_def b0 job0_def by (simp add: ops f)
  have b2: "b2 = b1\<lparr>b_queues := [(GateLane 0, [1])], b_queued := 1,
      b_jobs := [job0, new_job (Some 0) False]\<rparr>"
    unfolding b2_def b1 job0_def by (simp add: ops f)
  have b3: "b3 = b1\<lparr>b_queues := [(GateLane 0, [])], b_queued := 0, b_pending := 1,
      b_jobs := [job0\<lparr>j_state := Terminal, j_outcome := Some Returned, j_delivery_pending := True\<rparr>, job0],
      b_gates := (\<lambda>_. gate)(0 := register_sync_future 1 (register_sync_future 0 gate))\<rparr>"
  proof -
    let ?c = "b1\<lparr>b_queues := [(GateLane 0, [1])], b_queued := 1, b_running := 0, b_running_by := [], b_pending := 1,
      b_ready := [GateLane 0], b_ready_set := {GateLane 0},
      b_jobs := [job0\<lparr>j_state := Terminal, j_outcome := Some Returned, j_delivery_pending := True\<rparr>,
        new_job (Some 0) False]\<rparr>"
    have "b3 = take_drained_executor (dispatch sample_env ?c)"
      unfolding b3_def b2 b1 job0_def complete_def Let_def
      by (simp add: release_running_slot_def schedule_delivery_def queue_lane_def queue_of_def running_of_def
          lane_running_limit_def upd_job_def new_job_def sample_env_def Let_def f default_policy_def gate_keeps_policy)
    moreover have "dispatch sample_env ?c = dispatch_turn sample_env ?c"
    proof (rule dispatch_one)
      show "b_ready (dispatch_turn sample_env ?c) = []"
        unfolding b1 job0_def new_job_def by (simp add: turn f)
    qed (simp_all add: b1)
    moreover have "dispatch_turn sample_env ?c = b1\<lparr>b_queues := [(GateLane 0, [])], b_queued := 0, b_pending := 1,
      b_jobs := [job0\<lparr>j_state := Terminal, j_outcome := Some Returned, j_delivery_pending := True\<rparr>, job0],
      b_gates := (\<lambda>_. gate)(0 := register_sync_future 1 (register_sync_future 0 gate))\<rparr>"
      unfolding b1 job0_def new_job_def by (simp add: turn f)
    ultimately show ?thesis by (simp add: take_drained_executor_def b1)
  qed
  have "b_jobs b4 = [job0\<lparr>j_state := Terminal, j_outcome := Some Returned, j_delivered := True, j_completion := Completed\<rparr>, job0]"
    unfolding b4_def b3 b1 job0_def by (simp add: ops f)
  then show ?thesis
    by (intro that [OF g s b1_def b2_def b3_def b4_def])
      (simp_all add: b1 b2 b3 job0_def new_job_def)
qed

lemma one_step: "broker_step b c \<Longrightarrow> broker_steps b c"
  by (rule one_more [OF no_step])


lemma sample_reach:
  obtains b2 b4 where "broker_reach b2" "broker_steps b2 b4" "length (b_jobs b2) = 2" "is_running (b_jobs b2 ! 0)"
    "is_queued (b_jobs b2 ! 1)" "b_running b2 = 1" "b_max_workers b2 = 2" "j_completion (b_jobs b4 ! 0) = Completed"
    "is_running (b_jobs b4 ! 1)"
proof -
  obtain gate start b1 b2 b3 b4 where run: "new_broker 2 8 (\<lambda>_. gate) = Inr start"
    "b1 = snd (submit sample_env (Some 0) False start)" "b2 = snd (submit sample_env (Some 0) False b1)"
    "b3 = complete sample_env 0 Returned b2" "b4 = deliver sample_env 0 b3"
    and facts: "length (b_jobs b2) = 2" "is_running (b_jobs b2 ! 0)" "is_queued (b_jobs b2 ! 1)" "b_running b2 = 1"
    "b_max_workers b2 = 2" "j_delivery_pending (b_jobs b3 ! 0)" "length (b_jobs b3) = 2"
    "j_completion (b_jobs b4 ! 0) = Completed" "is_running (b_jobs b4 ! 1)"
    by (rule sample_run) blast
  have "broker_steps start b1" unfolding run by (rule one_step) (rule step_submit)
  then have "broker_steps start b2" unfolding run(3) by (rule one_more) (rule step_submit)
  then have "broker_reach b2" using run(1) unfolding broker_reach_def by blast
  moreover have "broker_steps b2 b3" unfolding run(4) by (rule one_step, rule step_complete) (simp add: facts(1))
  then have "broker_steps b2 b4"
    unfolding run(5) by (rule one_more, intro step_deliver) (simp_all add: facts(6,7))
  ultimately show ?thesis using that facts by blast
qed

theorem broker_bulkhead_witness:
  "\<exists>b. broker_reach b \<and> b_max_workers b = 2 \<and> b_running b = 1
    \<and> int (count_jobs (\<lambda>x. is_running x \<and> j_lane x = GateLane 0) (b_jobs b)) \<le> 1"
proof -
  obtain b2 where b: "broker_reach b2" "b_running b2 = 1" "b_max_workers b2 = 2" by (rule sample_reach) blast
  then show ?thesis using broker_bulkhead [OF b(1), of 0] by (intro exI [of _ b2]) simp
qed

theorem broker_work_conserving_witness:
  "\<exists>b. broker_reach b \<and> b_running b < b_max_workers b \<and> is_queued (b_jobs b ! 1)
    \<and> lane_running_limit b (j_lane (b_jobs b ! 1))
        \<le> int (count_jobs (\<lambda>x. is_running x \<and> j_lane x = j_lane (b_jobs b ! 1)) (b_jobs b))"
proof -
  obtain b2 where b: "broker_reach b2" "b_running b2 = 1" "b_max_workers b2 = 2" "length (b_jobs b2) = 2"
    "is_queued (b_jobs b2 ! 1)" by (rule sample_reach) blast
  then show ?thesis using broker_work_conserving [OF b(1), of 1] by (intro exI [of _ b2]) simp
qed


section \<open>Which broker a callback goes to\<close>

text \<open>
  The execution scope of a task, set by the gate it runs in: outside every scope the fallback broker of
  the process takes the callback, inside one the broker of the gate (of several brokers, \<open>None\<close> names
  the fallback and \<open>Some i\<close> that of the gate \<open>i\<close>).
\<close>

record exec_scope =
  sc_gate :: gid
  sc_allow_closed :: bool
  sc_active :: bool

definition resolve_sync_broker :: "(gid \<Rightarrow> gate) \<Rightarrow> exec_scope option \<Rightarrow> pyerr + gid option \<times> bool" where
  "resolve_sync_broker gates scope = (case scope of
      None \<Rightarrow> Inr (None, False)
    | Some s \<Rightarrow>
        if \<not> sc_active s then Inl exec_closed
        else if g_closed (gates (sc_gate s)) \<and> \<not> sc_allow_closed s then Inl exec_closed
        else Inr (Some (sc_gate s), sc_allow_closed s))"

text \<open>The start of \<^verbatim>\<open>offload_plugin_sync\<close>; when its caller is cancelled, \<open>cancel_or_detach\<close> follows.\<close>

definition offload_plugin_sync :: "env \<Rightarrow> exec_scope option \<Rightarrow> broker \<Rightarrow> (pyerr + jid) \<times> broker" where
  "offload_plugin_sync env scope b = (case resolve_sync_broker (b_gates b) scope of
      Inl e \<Rightarrow> (Inl e, b)
    | Inr (g, allow) \<Rightarrow> submit env g allow b)"

lemma offload_rest:
  "at_rest b \<Longrightarrow> at_rest (snd (offload_plugin_sync env scope b)) \<and> jobs_next b (snd (offload_plugin_sync env scope b))"
  using submit_rest by (simp add: offload_plugin_sync_def split: sum.split prod.split)

end
