(* ===== verification/Command_Catalog.thy ===== *)
theory Command_Catalog
  imports Principal
begin

text \<open>
  The catalog of commands (first half of \<^verbatim>\<open>core/router.py\<close>): nodes, their rendering, the permission check
  every entry point shares, the expansion of a validated manifest, and the parsing of an argument string
  along the catalog.
\<close>

section \<open>Nodes\<close>

datatype cnode = CNode
  (n_code: ustr) (n_plugin: ustr) (n_path: "ustr list") (n_name: ustr) (n_aliases: "ustr list")
  (n_help: ustr) (n_usage: ustr) (n_match: ustr) (n_permission: ustr) (n_contexts: "ustr list")
  (n_examples: "ustr list") (n_invalid_examples: "ustr list") (n_children: "cnode list")

lemma child_size [termination_simp]: "c \<in> set (n_children n) \<Longrightarrow> size c < size n"
  by (cases n) (auto simp: less_Suc_eq_le dest: size_list_estimation' [where f = size, OF _ order_refl] intro: trans_le_add2)

fun walk :: "cnode \<Rightarrow> cnode list" where
  "walk n = n # concat (map walk (n_children n))"

declare walk.simps [simp del]

text \<open>\<open>cf\<close> is \<^verbatim>\<open>str.casefold\<close>.\<close>

definition resolve_child :: "(ustr \<Rightarrow> ustr) \<Rightarrow> cnode \<Rightarrow> ustr \<Rightarrow> cnode option" where
  "resolve_child cf n token =
     find (\<lambda>c. cf token = cf (n_name c) \<or> (\<exists>a\<in>set (n_aliases c). cf token = cf a)) (n_children n)"

definition vstrs :: "ustr list \<Rightarrow> pyval" where
  "vstrs ss = VList (map VStr ss)"

fun to_dict :: "cnode \<Rightarrow> pyval" where
  "to_dict n = VDict
     [(U ''code'', VStr (n_code n)), (U ''plugin'', VStr (n_plugin n)), (U ''path'', vstrs (n_path n)),
      (U ''name'', VStr (n_name n)), (U ''aliases'', vstrs (n_aliases n)), (U ''help'', VStr (n_help n)),
      (U ''usage'', VStr (n_usage n)), (U ''match'', VStr (n_match n)), (U ''permission'', VStr (n_permission n)),
      (U ''contexts'', vstrs (n_contexts n)), (U ''examples'', vstrs (n_examples n)),
      (U ''invalid_examples'', vstrs (n_invalid_examples n)), (U ''subcommands'', VList (map to_dict (n_children n)))]"

declare to_dict.simps [simp del]

definition default_contexts :: "ustr list" where
  "default_contexts = [U ''private'', U ''group'']"

text \<open>
  The lines of one node in the help text; the labels are the literals of the source as code points.
\<close>

definition node_lines :: "cnode \<Rightarrow> bool \<Rightarrow> cnode \<Rightarrow> ustr list" where
  "node_lines rt include_examples n =
     (let depth = length (n_path n) - length (n_path rt);
          pad = concat (replicate (depth + 1) (U ''  ''))
      in [concat (replicate depth (U ''  '')) @ [8226] @ U '' ['' @ n_code n @ U ''] '' @ n_usage n,
          pad @ n_help n]
         @ (if n_aliases n \<noteq> [] then [pad @ [21035, 21517] @ U '': '' @ ujoin (U '', '') (n_aliases n)] else [])
         @ (if n_permission n \<noteq> U ''public'' \<or> n_contexts n \<noteq> default_contexts
            then [pad @ [26435, 38480] @ U '': '' @ n_permission n @ U ''; '' @ [22330, 26223] @ U '': ''
                  @ ujoin (U ''/'') (n_contexts n)] else [])
         @ (if include_examples
            then (case n_examples n of e # _ \<Rightarrow> [pad @ [31034, 20363] @ U '': '' @ e] | [] \<Rightarrow> [])
              @ (case n_invalid_examples n of e # _ \<Rightarrow> [pad @ [38169, 35823, 31034, 20363] @ U '': '' @ e] | [] \<Rightarrow> [])
            else []))"

definition format_command_catalog :: "cnode \<Rightarrow> ustr option \<Rightarrow> bool \<Rightarrow> ustr" where
  "format_command_catalog rt title include_examples =
     (let head = (case title of
            Some t \<Rightarrow> if t = [] then [128218, 32] @ n_plugin rt @ [32, 21629, 20196, 30446, 24405] else t
          | None \<Rightarrow> [128218, 32] @ n_plugin rt @ [32, 21629, 20196, 30446, 24405])
      in ujoin [10] ([head, []] @ concat (map (node_lines rt include_examples) (walk rt))))"

section \<open>Permission\<close>

definition command_access :: "cnode \<Rightarrow> principal \<Rightarrow> bool option \<Rightarrow> ustr option" where
  "command_access n p override =
     (let admin = (case override of None \<Rightarrow> is_bot_admin p | Some b \<Rightarrow> b) in
      if n_permission n = U ''bot_admin'' \<and> \<not> admin then Some (U ''bot_admin'')
      else if n_permission n = U ''group_admin'' \<and> \<not> (admin \<or> can_manage_group p (pgroup p))
      then Some (U ''group_admin'')
      else if (if is_private p then U ''private'' else U ''group'') \<notin> set (n_contexts n) then Some (U ''context'')
      else None)"

definition effective_permission :: "ustr \<Rightarrow> ustr option \<Rightarrow> ustr" where
  "effective_permission parent declared =
     (let perm = (case declared of
            Some d \<Rightarrow> if d \<in> {U ''public'', U ''bot_admin'', U ''group_admin''} then d else parent
          | None \<Rightarrow> parent)
      in if parent = U ''bot_admin'' \<or> perm = U ''bot_admin'' then U ''bot_admin''
         else if parent = U ''group_admin'' \<or> perm = U ''group_admin'' then U ''group_admin''
         else U ''public'')"

section \<open>From the manifest\<close>

text \<open>
  A command of a validated manifest: the keys the expansion reads, \<open>None\<close> where a key is absent.
\<close>

datatype mcmd = MCmd
  (m_name: ustr) (m_triggers: "ustr list") (m_aliases: "ustr list") (m_help: ustr) (m_usage: "ustr option")
  (m_match: "ustr option") (m_permission: "ustr option") (m_contexts: "ustr list option")
  (m_examples: "ustr list") (m_invalid_examples: "ustr list") (m_subcommands: "mcmd list")

lemma sub_size [termination_simp]: "d \<in> set (m_subcommands c) \<Longrightarrow> size d < size c"
  by (cases c) (auto simp: less_Suc_eq_le dest: size_list_estimation' [where f = size, OF _ order_refl] intro: trans_le_add2)

definition err_context :: pyerr where
  "err_context = ValueError ''command has no usable context''"

function build_node ::
  "ustr \<Rightarrow> ustr list \<Rightarrow> ustr list \<Rightarrow> ustr \<Rightarrow> ustr list \<Rightarrow> bool \<Rightarrow> mcmd \<Rightarrow> pyerr + cnode" where
  "build_node plugin code_prefix path_prefix parent_perm parent_ctx is_root c =
     bindE (if is_root then (case m_triggers c of
                t # ts \<Rightarrow> Inr (t, ts) | [] \<Rightarrow> Inl (IndexError ''tuple index out of range''))
            else Inr (m_name c, m_aliases c)) (\<lambda>(name, aliases).
     let code_path = code_prefix @ [m_name c];
         path = path_prefix @ [name];
         perm = effective_permission parent_perm (m_permission c);
         ctx = (case m_contexts c of None \<Rightarrow> parent_ctx | Some allowed \<Rightarrow> filter (\<lambda>v. v \<in> set allowed) parent_ctx)
     in if ctx = [] then Inl err_context
        else bindE (mapE (build_node plugin code_path path perm ctx False) (m_subcommands c)) (\<lambda>subs.
          Inr (CNode (plugin @ U ''.'' @ ujoin (U ''.'') code_path) plugin path name aliases (m_help c)
            (case m_usage c of Some u \<Rightarrow> if u = [] then U ''/'' @ ujoin (U '' '') path else u
                             | None \<Rightarrow> U ''/'' @ ujoin (U '' '') path)
            (case m_match c of Some mm \<Rightarrow> mm | None \<Rightarrow> U ''prefix'')
            perm ctx (m_examples c) (m_invalid_examples c) subs)))"
  by pat_completeness auto
termination
  by (relation "measure (\<lambda>(_, _, _, _, _, _, c). size c)") (auto simp: sub_size)

declare build_node.simps [simp del]

section \<open>Parsing an invocation\<close>

record invocation =
  inv_root :: cnode
  chain :: "cnode list"
  remainders :: "ustr list"

definition inv_node :: "invocation \<Rightarrow> cnode" where
  "inv_node i = last (chain i)"

definition inv_arguments :: "invocation \<Rightarrow> ustr" where
  "inv_arguments i = last (remainders i)"

definition remainder_after :: "invocation \<Rightarrow> int \<Rightarrow> pyerr + ustr" where
  "remainder_after i d =
     (if d < 0 \<or> d \<ge> int (length (remainders i)) then Inl (IndexError ''command invocation depth is out of range'')
      else Inr (remainders i ! nat d))"

lemma find_set: "find P xs = Some x \<Longrightarrow> x \<in> set xs \<and> P x"
  by (auto simp: find_Some_iff)

lemma resolve_child_in: "resolve_child cf n t = Some c \<Longrightarrow> c \<in> set (n_children n)"
  unfolding resolve_child_def by (blast dest: find_set)

text \<open>The loop: from a node and the text after it, the nodes and remainders still to come.\<close>

function descend :: "(ustr \<Rightarrow> ustr) \<Rightarrow> cnode \<Rightarrow> ustr \<Rightarrow> (cnode \<times> ustr) list" where
  "descend cf cur remaining =
     (if remaining = [] \<or> n_children cur = [] then []
      else case usplit1 remaining of
        [] \<Rightarrow> []
      | token # rest \<Rightarrow>
          (case resolve_child cf cur token of
             None \<Rightarrow> []
           | Some c \<Rightarrow>
               (let next_remaining = (case rest of r # _ \<Rightarrow> r | [] \<Rightarrow> []) in
                if n_match c = U ''exact'' \<and> next_remaining \<noteq> [] then []
                else (c, next_remaining) # descend cf c next_remaining)))"
  by pat_completeness auto
termination
  by (relation "measure (\<lambda>(_, n, _). size n)") (auto dest: resolve_child_in child_size)

declare descend.simps [simp del]

definition resolve_invocation :: "(ustr \<Rightarrow> ustr) \<Rightarrow> cnode \<Rightarrow> ustr \<Rightarrow> invocation" where
  "resolve_invocation cf rt args =
     (let remaining = strip args; steps = descend cf rt remaining
      in \<lparr>inv_root = rt, chain = rt # map fst steps, remainders = remaining # map snd steps\<rparr>)"

text \<open>
  Plugins read the invocation of their request, or parse again from the catalog. \<open>current\<close> is the invocation
  of the request, \<open>catalog\<close> what \<^verbatim>\<open>get_command_catalog\<close> returns (\<open>None\<close>: no such method).
\<close>

definition context_command_root :: "invocation option \<Rightarrow> cnode list option \<Rightarrow> ustr \<Rightarrow> cnode option" where
  "context_command_root current catalog code =
     (case current of
        Some i \<Rightarrow> if n_code (inv_root i) = code then Some (inv_root i)
                  else (case catalog of None \<Rightarrow> None | Some ns \<Rightarrow> find (\<lambda>n. n_code n = code) ns)
      | None \<Rightarrow> (case catalog of None \<Rightarrow> None | Some ns \<Rightarrow> find (\<lambda>n. n_code n = code) ns))"

definition context_invocation ::
  "(ustr \<Rightarrow> ustr) \<Rightarrow> invocation option \<Rightarrow> cnode list option \<Rightarrow> ustr \<Rightarrow> ustr \<Rightarrow> invocation option" where
  "context_invocation cf current catalog code args =
     (case current of
        Some i \<Rightarrow> if n_code (inv_root i) = code then Some i
                  else map_option (\<lambda>r. resolve_invocation cf r args) (context_command_root current catalog code)
      | None \<Rightarrow> map_option (\<lambda>r. resolve_invocation cf r args) (context_command_root current catalog code))"

section \<open>Lemmas on permission\<close>

text \<open>How strict a permission is; anything the manifest cannot declare counts as public.\<close>

definition strictness :: "ustr \<Rightarrow> nat" where
  "strictness perm = (if perm = U ''bot_admin'' then 2 else if perm = U ''group_admin'' then 1 else 0)"

lemma effective_strict: "strictness parent \<le> strictness (effective_permission parent declared)"
  by (auto simp: strictness_def effective_permission_def Let_def)

text \<open>Access to a stricter node in fewer contexts gives access to a laxer one.\<close>

lemma access_mono:
  assumes "strictness (n_permission a) \<le> strictness (n_permission b)"
    and "set (n_contexts b) \<subseteq> set (n_contexts a)" and "command_access b p ad = None"
  shows "command_access a p ad = None"
  using assms by (auto simp: command_access_def strictness_def Let_def split: if_splits)

definition attenuated :: "cnode \<Rightarrow> bool" where
  "attenuated n \<longleftrightarrow> (\<forall>a\<in>set (walk n). n_contexts a \<noteq> [] \<and> (\<forall>b\<in>set (n_children a).
     strictness (n_permission a) \<le> strictness (n_permission b) \<and> set (n_contexts b) \<subseteq> set (n_contexts a)))"

lemma walk_unfold: "set (walk n) = insert n (\<Union>c\<in>set (n_children n). set (walk c))"
  by (subst walk.simps) auto

lemma attenuated_unfold:
  "attenuated n \<longleftrightarrow> n_contexts n \<noteq> [] \<and> (\<forall>c\<in>set (n_children n). attenuated c \<and>
     strictness (n_permission n) \<le> strictness (n_permission c) \<and> set (n_contexts c) \<subseteq> set (n_contexts n))"
  unfolding attenuated_def by (subst walk_unfold) blast

text \<open>Every node of an expanded command is stricter than its parent and has fewer contexts.\<close>

lemma build_node_attenuated:
  "build_node plugin cp pp perm ctx is_root c = Inr n \<Longrightarrow>
     attenuated n \<and> strictness perm \<le> strictness (n_permission n) \<and> set (n_contexts n) \<subseteq> set ctx"
proof (induction plugin cp pp perm ctx is_root c arbitrary: n rule: build_node.induct)
  case (1 plugin cp pp perm ctx is_root c)
  define perm' where "perm' = effective_permission perm (m_permission c)"
  define ctx' where "ctx' = (case m_contexts c of None \<Rightarrow> ctx | Some allowed \<Rightarrow> filter (\<lambda>v. v \<in> set allowed) ctx)"
  obtain name aliases subs where nm: "(if is_root then (case m_triggers c of
                t # ts \<Rightarrow> Inr (t, ts) | [] \<Rightarrow> Inl (IndexError ''tuple index out of range''))
            else Inr (m_name c, m_aliases c)) = Inr (name, aliases)"
    and subs: "mapE (build_node plugin (cp @ [m_name c]) (pp @ [name]) perm' ctx' False) (m_subcommands c) = Inr subs"
    and c': "ctx' \<noteq> []"
    and n: "n_permission n = perm'" "n_contexts n = ctx'" "n_children n = subs"
    using "1.prems" unfolding build_node.simps [of plugin cp pp perm ctx is_root c] perm'_def [symmetric] ctx'_def [symmetric] Let_def
    by (auto simp: bindE_eq_Inr split: if_splits)
  have sub: "attenuated d \<and> strictness perm' \<le> strictness (n_permission d) \<and> set (n_contexts d) \<subseteq> set ctx'"
    if d: "d \<in> set subs" for d
  proof -
    obtain x where x: "x \<in> set (m_subcommands c)"
      "build_node plugin (cp @ [m_name c]) (pp @ [name]) perm' ctx' False x = Inr d"
      using mapE_Inr_set [OF subs d] by blast
    show ?thesis
      using "1.IH" [OF nm refl refl refl perm'_def ctx'_def c' x(1) x(2)] .
  qed
  have "set ctx' \<subseteq> set ctx" by (auto simp: ctx'_def split: option.splits)
  then show ?case
    unfolding attenuated_unfold [of n] n using c' sub effective_strict [of perm "m_permission c"]
    by (simp add: perm'_def)
qed

section \<open>Lemmas on parsing\<close>

lemma usplit1_words:
  assumes "usplit1 s = token # rest"
  shows "token \<noteq> [] \<and> list_all (\<lambda>c. \<not> uspace c) token
    \<and> (\<exists>sp r. lstrip s = token @ sp @ r \<and> list_all uspace sp \<and> (sp \<noteq> [] \<or> r = [])
        \<and> (r = [] \<or> \<not> uspace (hd r)) \<and> (case rest of [] \<Rightarrow> r = [] | x # _ \<Rightarrow> x = r \<and> r \<noteq> []))"
proof -
  obtain c t where ct: "lstrip s = c # t" using assms by (cases "lstrip s") (auto simp: usplit1_def)
  define w where "w = takeWhile (\<lambda>x. \<not> uspace x) t"
  define d where "d = dropWhile (\<lambda>x. \<not> uspace x) t"
  obtain sp where sp: "d = sp @ lstrip d" "list_all uspace sp" using lstrip_suffix by blast
  have nc: "\<not> uspace c" using lstrip_hd [OF ct] .
  have tok: "token = c # w" and rest: "rest = (if lstrip d = [] then [] else [lstrip d])"
    using assms ct by (auto simp: usplit1_def w_def d_def Let_def split: if_splits)
  have "list_all (\<lambda>c. \<not> uspace c) w" by (auto simp: w_def list_all_iff dest: set_takeWhileD)
  moreover have "lstrip s = token @ sp @ lstrip d"
    using ct tok sp(1) by (simp add: w_def d_def)
  moreover have "sp \<noteq> [] \<or> lstrip d = []"
  proof (cases d)
    case (Cons x xs)
    then have "uspace x" using hd_dropWhile [of "\<lambda>x. \<not> uspace x" t] by (simp add: d_def)
    then have "length (lstrip d) < length d" using Cons by (simp add: lstrip_def length_dropWhile_less)
    then show ?thesis using sp(1) by (metis append_Nil less_irrefl)
  qed (simp add: lstrip_def)
  moreover have "lstrip d = [] \<or> \<not> uspace (hd (lstrip d))"
    using lstrip_hd by (cases "lstrip d") auto
  ultimately show ?thesis using tok nc rest sp(2) by (intro conjI exI [of _ sp] exI [of _ "lstrip d"]) auto
qed

text \<open>
  What a step of the loop consumes: a word that names the child, and the white space after it.
\<close>

definition consumes :: "(ustr \<Rightarrow> ustr) \<Rightarrow> ustr \<Rightarrow> cnode \<Rightarrow> cnode \<Rightarrow> ustr \<Rightarrow> bool" where
  "consumes cf before n c after \<longleftrightarrow> (\<exists>token sp. lstrip before = token @ sp @ after \<and> token \<noteq> [] \<and> list_all uspace sp
     \<and> (sp \<noteq> [] \<or> after = []) \<and> list_all (\<lambda>x. \<not> uspace x) token \<and> resolve_child cf n token = Some c
     \<and> (n_match c = U ''exact'' \<longrightarrow> after = []))"

fun steps_ok :: "(ustr \<Rightarrow> ustr) \<Rightarrow> cnode \<Rightarrow> ustr \<Rightarrow> (cnode \<times> ustr) list \<Rightarrow> bool" where
  "steps_ok cf n before [] \<longleftrightarrow> True"
| "steps_ok cf n before ((c, after) # xs) \<longleftrightarrow> consumes cf before n c after \<and> steps_ok cf c after xs"

lemma descend_steps: "steps_ok cf n r (descend cf n r)"
proof (induction cf n r rule: descend.induct)
  case (1 cf cur remaining)
  show ?case
  proof (cases "descend cf cur remaining")
    case (Cons ca xs)
    then obtain token rest c where h: "remaining \<noteq> []" "n_children cur \<noteq> []" "usplit1 remaining = token # rest"
      "resolve_child cf cur token = Some c"
      and ex: "\<not> (n_match c = U ''exact'' \<and> (case rest of r # _ \<Rightarrow> r | [] \<Rightarrow> []) \<noteq> [])"
      and eq: "ca = (c, case rest of r # _ \<Rightarrow> r | [] \<Rightarrow> [])" "xs = descend cf c (case rest of r # _ \<Rightarrow> r | [] \<Rightarrow> [])"
      by (subst (asm) descend.simps) (auto simp: Let_def split: if_splits list.splits option.splits)
    have "consumes cf remaining cur c (case rest of r # _ \<Rightarrow> r | [] \<Rightarrow> [])"
      using usplit1_words [OF h(3)] h(4) ex unfolding consumes_def by (cases rest) auto
    moreover have "steps_ok cf c (case rest of r # _ \<Rightarrow> r | [] \<Rightarrow> []) xs"
      using "1.IH" [OF _ h(3) h(4) refl] h(1,2) ex eq(2) by auto
    ultimately show ?thesis using Cons eq by simp
  qed simp
qed

text \<open>Where the loop stops, no further child could have been taken.\<close>

definition stuck :: "(ustr \<Rightarrow> ustr) \<Rightarrow> cnode \<Rightarrow> ustr \<Rightarrow> bool" where
  "stuck cf n r \<longleftrightarrow> (\<forall>c after. \<not> consumes cf r n c after)"

lemma word_split:
  assumes "t @ s @ r = t' @ s' @ r'" "list_all (\<lambda>x. \<not> uspace x) t" "list_all (\<lambda>x. \<not> uspace x) t'"
    and "s @ r = [] \<or> uspace (hd (s @ r))" "s' @ r' = [] \<or> uspace (hd (s' @ r'))"
  shows "t' = t"
proof -
  have "takeWhile (\<lambda>x. \<not> uspace x) (t @ s @ r) = t"
    using assms(2,4) by (cases "s @ r") (auto simp: list_all_iff takeWhile_append)
  moreover have "takeWhile (\<lambda>x. \<not> uspace x) (t' @ s' @ r') = t'"
    using assms(3,5) by (cases "s' @ r'") (auto simp: list_all_iff takeWhile_append)
  ultimately show ?thesis using assms(1) by simp
qed

lemma consumes_word:
  assumes "consumes cf r n c after" and "usplit1 r = token # rest"
  shows "resolve_child cf n token = Some c \<and> (n_match c = U ''exact'' \<longrightarrow> rest = [])"
proof -
  obtain sp x where u: "lstrip r = token @ sp @ x" "list_all uspace sp" "sp \<noteq> [] \<or> x = []"
    "x = [] \<or> \<not> uspace (hd x)" "case rest of [] \<Rightarrow> x = [] | y # _ \<Rightarrow> y = x \<and> x \<noteq> []" "list_all (\<lambda>c. \<not> uspace c) token"
    using usplit1_words [OF assms(2)] by blast
  obtain token' sp' where v: "lstrip r = token' @ sp' @ after" "list_all uspace sp'" "sp' \<noteq> [] \<or> after = []"
    "list_all (\<lambda>c. \<not> uspace c) token'" "resolve_child cf n token' = Some c" "n_match c = U ''exact'' \<longrightarrow> after = []"
    using assms(1) by (auto simp: consumes_def)
  have hd1: "sp @ x = [] \<or> uspace (hd (sp @ x))" using u(2,3) by (cases sp) auto
  have hd2: "sp' @ after = [] \<or> uspace (hd (sp' @ after))" using v(2,3) by (cases sp') auto
  have eq: "token' = token" using word_split [OF _ u(6) v(4) hd1 hd2] u(1) v(1) by simp
  moreover have "rest = []" if "n_match c = U ''exact''"
  proof (rule ccontr)
    assume "rest \<noteq> []"
    then have "x \<noteq> []" "x = hd rest" using u(5) by (cases rest; simp)+
    moreover have "sp @ x = sp'" using u(1) v(1,6) eq that by simp
    ultimately have "list_all uspace x" using v(2) by auto
    moreover have "\<not> uspace (hd x)" using u(4) \<open>x \<noteq> []\<close> by simp
    ultimately show False using \<open>x \<noteq> []\<close> by (cases x) auto
  qed
  ultimately show ?thesis using v(5) by simp
qed

lemma usplit1_Nil: "usplit1 s = [] \<longleftrightarrow> lstrip s = []"
  by (auto simp: usplit1_def Let_def split: list.splits)

lemma descend_Nil_stuck: "descend cf n r = [] \<Longrightarrow> stuck cf n r"
proof -
  assume d: "descend cf n r = []"
  have False if c: "consumes cf r n c after" for c after
  proof -
    obtain token sp where t: "lstrip r = token @ sp @ after" "token \<noteq> []" "resolve_child cf n token = Some c"
      using c by (auto simp: consumes_def)
    have "r \<noteq> []" using t(1,2) by (auto simp: lstrip_def)
    moreover have "n_children n \<noteq> []" using resolve_child_in [OF t(3)] by auto
    moreover obtain tk rest where u: "usplit1 r = tk # rest"
      using t(1,2) usplit1_Nil [of r] by (cases "usplit1 r") auto
    moreover have "resolve_child cf n tk = Some c \<and> (n_match c = U ''exact'' \<longrightarrow> rest = [])"
      by (rule consumes_word [OF c u])
    ultimately show False using d by (subst (asm) descend.simps) (auto simp: Let_def split: if_splits)
  qed
  then show ?thesis by (auto simp: stuck_def)
qed

lemma descend_stuck:
  "stuck cf (fst (last ((n, r) # descend cf n r))) (snd (last ((n, r) # descend cf n r)))"
proof (induction cf n r rule: descend.induct)
  case (1 cf cur remaining)
  show ?case
  proof (cases "descend cf cur remaining")
    case Nil
    then show ?thesis using descend_Nil_stuck by simp
  next
    case (Cons ca xs)
    then obtain token rest c where h: "remaining \<noteq> []" "n_children cur \<noteq> []" "usplit1 remaining = token # rest"
      "resolve_child cf cur token = Some c"
      and ex: "\<not> (n_match c = U ''exact'' \<and> (case rest of r # _ \<Rightarrow> r | [] \<Rightarrow> []) \<noteq> [])"
      and eq: "ca = (c, case rest of r # _ \<Rightarrow> r | [] \<Rightarrow> [])" "xs = descend cf c (case rest of r # _ \<Rightarrow> r | [] \<Rightarrow> [])"
      by (subst (asm) descend.simps) (auto simp: Let_def split: if_splits list.splits option.splits)
    have "stuck cf (fst (last ((c, case rest of r # _ \<Rightarrow> r | [] \<Rightarrow> []) # xs)))
        (snd (last ((c, case rest of r # _ \<Rightarrow> r | [] \<Rightarrow> []) # xs)))"
      using "1.IH" [OF _ h(3) h(4) refl] h(1,2) ex eq(2) by auto
    then show ?thesis using Cons eq by simp
  qed
qed

section \<open>Properties\<close>

text \<open>
  C18. A subcommand is never more open than its command: in a catalog expanded from a manifest, whoever may
  use a node here may use its parent here, whatever permissions and contexts the manifest declares, and
  every node can be used in some context.
\<close>

theorem catalog_access_monotone:
  assumes "build_node plugin [] [] (U ''public'') default_contexts True c = Inr n"
    and "a \<in> set (walk n)" and "b \<in> set (n_children a)" and "command_access b p ad = None"
  shows "command_access a p ad = None \<and> n_contexts a \<noteq> []"
proof -
  have "attenuated n" using build_node_attenuated [OF assms(1)] by blast
  then have "strictness (n_permission a) \<le> strictness (n_permission b)" "set (n_contexts b) \<subseteq> set (n_contexts a)"
    "n_contexts a \<noteq> []"
    using assms(2,3) by (auto simp: attenuated_def)
  then show ?thesis using access_mono assms(4) by blast
qed

theorem catalog_access_monotone_witness:
  "\<exists>n b p. build_node (U ''p'') [] [] (U ''public'') default_contexts True
      (MCmd (U ''a'') [U ''a''] [] [] None None (Some (U ''group_admin'')) None [] []
        [MCmd (U ''b'') [] [] [] None None (Some (U ''public'')) None [] [] []]) = Inr n
    \<and> b \<in> set (n_children n) \<and> n_permission b = U ''group_admin'' \<and> command_access b p None = None
    \<and> command_access n p None = None"
proof -
  let ?c = "MCmd (U ''a'') [U ''a''] [] [] None None (Some (U ''group_admin'')) None [] []
        [MCmd (U ''b'') [] [] [] None None (Some (U ''public'')) None [] [] []]"
  let ?p = "\<lparr>pkind = UserKind, puser = Some 7, pgroup = Some 9, is_bot_admin = False, is_private = False,
     group_role = GroupAdmin, delivery_targets = [], schedule_delivery = None\<rparr>"
  obtain n b where n: "build_node (U ''p'') [] [] (U ''public'') default_contexts True ?c = Inr n"
    and b: "n_children n = [b]" "n_permission b = U ''group_admin''" "n_contexts b = default_contexts"
    by (simp add: build_node.simps [of _ _ _ _ _ True] build_node.simps [of _ _ _ _ _ False]
        effective_permission_def Let_def default_contexts_def)
  have "command_access b ?p None = None"
    using b by (simp add: command_access_def can_manage_group_def default_contexts_def)
  moreover have "n \<in> set (walk n)" by (subst walk_unfold) simp
  moreover have "b \<in> set (n_children n)" using b(1) by simp
  ultimately have "command_access n ?p None = None" using catalog_access_monotone [OF n] by blast
  with \<open>command_access b ?p None = None\<close> \<open>b \<in> set (n_children n)\<close> show ?thesis using b(2) n by blast
qed

text \<open>
  Parsing an invocation takes the longest path: it starts at the root, every step consumes one word that
  names the next node (and, for a node that matches exactly, the whole rest), and when it stops no child of
  the reached node could have been taken.
\<close>

lemma invocation_longest:
  "let i = resolve_invocation cf rt args in length (remainders i) = length (chain i) \<and> hd (chain i) = rt \<and> hd (remainders i) = strip args
    \<and> steps_ok cf rt (strip args) (zip (tl (chain i)) (tl (remainders i)))
    \<and> stuck cf (inv_node i) (inv_arguments i)"
proof -
  have z: "zip (map fst xs) (map snd xs) = xs" for xs :: "(cnode \<times> ustr) list"
    by (induction xs) auto
  define i where "i = resolve_invocation cf rt args"
  have i: "i = \<lparr>inv_root = rt, chain = rt # map fst (descend cf rt (strip args)),
      remainders = strip args # map snd (descend cf rt (strip args))\<rparr>"
    by (simp add: i_def resolve_invocation_def Let_def)
  have "stuck cf (inv_node i) (inv_arguments i)"
    using descend_stuck [of cf rt "strip args"]
    by (cases "descend cf rt (strip args) = []") (simp_all add: i inv_node_def inv_arguments_def last_map)
  then show ?thesis unfolding i_def [symmetric] Let_def using descend_steps by (simp add: i z)
qed

end
