(* ===== verification/Router.thy ===== *)
theory Router
  imports Command_Catalog "HOL-Library.Product_Lexorder" "HOL-Library.List_Lexorder"
begin

text \<open>
  The command router (second half of \<^verbatim>\<open>core/router.py\<close>): registration with the check of ambiguous triggers,
  the index built on demand, and the resolution of a text to a command.
\<close>

section \<open>State\<close>

text \<open>\<open>handler\<close> and \<open>gate\<close> stand for the handler of the plugin and its execution gate.\<close>

record cmd =
  c_plugin :: ustr
  c_name :: ustr
  triggers :: "ustr list"
  c_help :: ustr
  admin_only :: bool
  handler :: nat
  priority :: int
  c_usage :: "ustr option"
  c_catalog :: "cnode option"
  gate :: "nat option"

record router =
  commands :: "cmd list"
  ordered :: "cmd list"
  trigger_index :: "(uchar, (cmd \<times> ustr) list) dict"
  index_dirty :: bool

definition new_router :: router where
  "new_router = \<lparr>commands = [], ordered = [], trigger_index = [], index_dirty = True\<rparr>"

section \<open>Registration\<close>

definition command_sort_key :: "cmd \<Rightarrow> int \<times> nat" where
  "command_sort_key c = (priority c, foldr max (map length (triggers c)) 0)"

text \<open>The conflict that is reported: the trigger, its priority, and the two commands.\<close>

fun claim_triggers ::
  "cmd \<Rightarrow> ustr list \<Rightarrow> (ustr \<times> int, cmd) dict \<Rightarrow> (ustr \<times> int \<times> cmd \<times> cmd) + (ustr \<times> int, cmd) dict" where
  "claim_triggers c [] owners = Inr owners"
| "claim_triggers c (t # ts) owners =
     (case dget owners (t, priority c) of
        Some prev \<Rightarrow> Inl (t, priority c, prev, c)
      | None \<Rightarrow> claim_triggers c ts (dset (t, priority c) c owners))"

fun claim_all ::
  "cmd list \<Rightarrow> (ustr \<times> int, cmd) dict \<Rightarrow> (ustr \<times> int \<times> cmd \<times> cmd) + (ustr \<times> int, cmd) dict" where
  "claim_all [] owners = Inr owners"
| "claim_all (c # cs) owners = bindE (claim_triggers c (triggers c) owners) (claim_all cs)"

definition validate_unambiguous :: "cmd list \<Rightarrow> (ustr \<times> int \<times> cmd \<times> cmd) + unit" where
  "validate_unambiguous cs = bindE (claim_all cs []) (\<lambda>_. Inr ())"

definition register :: "cmd \<Rightarrow> router \<Rightarrow> ((ustr \<times> int \<times> cmd \<times> cmd) + unit) \<times> router" where
  "register c r = (let replacement = commands r @ [c] in
     case validate_unambiguous replacement of
       Inl e \<Rightarrow> (Inl e, r)
     | Inr _ \<Rightarrow> (Inr (), r\<lparr>commands := replacement, index_dirty := True\<rparr>))"

definition replace_plugin ::
  "ustr \<Rightarrow> cmd list \<Rightarrow> router \<Rightarrow> ((ustr \<times> int \<times> cmd \<times> cmd) + cmd list) \<times> router" where
  "replace_plugin plugin specs r =
     (let previous = filter (\<lambda>c. c_plugin c = plugin) (commands r);
          replacement = filter (\<lambda>c. c_plugin c \<noteq> plugin) (commands r) @ specs
      in case validate_unambiguous replacement of
           Inl e \<Rightarrow> (Inl e, r)
         | Inr _ \<Rightarrow> (Inr previous, r\<lparr>commands := replacement, index_dirty := True\<rparr>))"

definition clear_plugin :: "ustr \<Rightarrow> router \<Rightarrow> ((ustr \<times> int \<times> cmd \<times> cmd) + unit) \<times> router" where
  "clear_plugin plugin r = (case replace_plugin plugin [] r of (x, r') \<Rightarrow> (bindE x (\<lambda>_. Inr ()), r'))"

section \<open>The index\<close>

text \<open>
  \<^verbatim>\<open>sorted(..., reverse=True)\<close> and \<^verbatim>\<open>sort(..., reverse=True)\<close> keep the order of equal elements: a stable sort by
  the negated keys.
\<close>

definition neg_key :: "int \<times> nat \<Rightarrow> int \<times> int" where
  "neg_key k = (- fst k, - int (snd k))"

definition index_add :: "cmd \<Rightarrow> ustr \<Rightarrow> (uchar, (cmd \<times> ustr) list) dict \<Rightarrow> (uchar, (cmd \<times> ustr) list) dict" where
  "index_add c t d = (case t of
      [] \<Rightarrow> d
    | h # _ \<Rightarrow> dset h ((case dget d h of Some xs \<Rightarrow> xs | None \<Rightarrow> []) @ [(c, t)]) d)"

definition build_index :: "cmd list \<Rightarrow> (uchar, (cmd \<times> ustr) list) dict" where
  "build_index cs =
     map (\<lambda>(h, xs). (h, sort_key (\<lambda>ct. neg_key (priority (fst ct), length (snd ct))) xs))
       (fold (\<lambda>c d. fold (index_add c) (triggers c) d) cs [])"

definition ensure_indexes :: "router \<Rightarrow> router" where
  "ensure_indexes r =
     (if \<not> index_dirty r then r
      else let cs = sort_key (\<lambda>c. neg_key (command_sort_key c)) (commands r)
           in r\<lparr>ordered := cs, trigger_index := build_index cs, index_dirty := False\<rparr>)"

section \<open>Resolution\<close>

definition trigger_matches :: "ustr \<Rightarrow> ustr \<Rightarrow> bool" where
  "trigger_matches msg t \<longleftrightarrow> startswith msg t \<and>
     (case drop (length t) msg of [] \<Rightarrow> True | c # _ \<Rightarrow> uspace c)"

definition resolve :: "ustr \<Rightarrow> router \<Rightarrow> (cmd \<times> ustr) option \<times> router" where
  "resolve msg r = (case msg of
      [] \<Rightarrow> (None, r)
    | h # _ \<Rightarrow>
        (let r' = ensure_indexes r;
             candidates = (case dget (trigger_index r') h of Some xs \<Rightarrow> xs | None \<Rightarrow> [])
         in (map_option (\<lambda>ct. (fst ct, strip (drop (length (snd ct)) msg)))
               (find (\<lambda>ct. trigger_matches msg (snd ct)) candidates), r')))"

definition catalog_entry :: "cmd \<Rightarrow> cnode" where
  "catalog_entry c = (case c_catalog c of
      Some n \<Rightarrow> n
    | None \<Rightarrow>
        (let t = (case triggers c of t # _ \<Rightarrow> t | [] \<Rightarrow> c_name c);
             dflt = (if t = [] then [] else U ''/'' @ t);
             us = (case c_usage c of Some u \<Rightarrow> if u = [] then dflt else u | None \<Rightarrow> dflt)
         in CNode (c_plugin c @ U ''.'' @ c_name c) (c_plugin c) [t] t (drop 1 (triggers c)) (c_help c) us
              (U ''prefix'') (if admin_only c then U ''bot_admin'' else U ''public'') default_contexts [] [] []))"

definition get_command_catalog :: "router \<Rightarrow> cnode list \<times> router" where
  "get_command_catalog r = (let r' = ensure_indexes r in
     (sort_key (\<lambda>n. (n_plugin n, n_code n)) (map catalog_entry (ordered r')), r'))"

section \<open>Lemmas\<close>

text \<open>The commands and triggers a router answers to, in the order of the commands.\<close>

definition claims :: "cmd list \<Rightarrow> (cmd \<times> ustr) list" where
  "claims cs = concat (map (\<lambda>c. map (Pair c) (triggers c)) cs)"

lemma claims_simps [simp]: "claims [] = []" "claims (c # cs) = map (Pair c) (triggers c) @ claims cs"
  by (simp_all add: claims_def)

lemma claims_append [simp]: "claims (cs @ ds) = claims cs @ claims ds"
  by (simp add: claims_def)

lemma set_claims: "(c, t) \<in> set (claims cs) \<longleftrightarrow> c \<in> set cs \<and> t \<in> set (triggers c)"
  by (auto simp: claims_def)

definition claim_key :: "cmd \<times> ustr \<Rightarrow> ustr \<times> int" where
  "claim_key ct = (snd ct, priority (fst ct))"

definition unambiguous :: "cmd list \<Rightarrow> bool" where
  "unambiguous cs \<longleftrightarrow> distinct (map claim_key (claims cs))"

definition own_keys :: "cmd \<Rightarrow> ustr list \<Rightarrow> (ustr \<times> int) list" where
  "own_keys c ts = map (\<lambda>t. (t, priority c)) ts"

definition keys :: "cmd list \<Rightarrow> (ustr \<times> int) list" where
  "keys cs = map claim_key (claims cs)"

lemma own_keys_simps [simp]: "own_keys c [] = []" "own_keys c (t # ts) = (t, priority c) # own_keys c ts"
  by (simp_all add: own_keys_def)

lemma keys_simps [simp]: "keys [] = []" "keys (c # cs) = own_keys c (triggers c) @ keys cs"
  by (simp_all add: keys_def own_keys_def claim_key_def comp_def)

lemma unambiguous_keys: "unambiguous cs \<longleftrightarrow> distinct (keys cs)"
  by (simp add: unambiguous_def keys_def)

lemma claim_triggers_Inr:
  "(\<exists>d'. claim_triggers c ts d = Inr d') \<longleftrightarrow> distinct (own_keys c ts) \<and> set (own_keys c ts) \<inter> dom (dget d) = {}"
  by (induction ts arbitrary: d) (auto split: option.splits)

lemma claim_triggers_dom:
  "claim_triggers c ts d = Inr d' \<Longrightarrow> dom (dget d') = dom (dget d) \<union> set (own_keys c ts)"
  by (induction ts arbitrary: d) (auto split: option.splits)

lemma claim_all_Inr:
  "(\<exists>d'. claim_all cs d = Inr d') \<longleftrightarrow> distinct (keys cs) \<and> set (keys cs) \<inter> dom (dget d) = {}"
proof (induction cs arbitrary: d)
  case (Cons c cs)
  show ?case
  proof (cases "claim_triggers c (triggers c) d")
    case (Inl e)
    then have "\<not> (distinct (own_keys c (triggers c)) \<and> set (own_keys c (triggers c)) \<inter> dom (dget d) = {})"
      unfolding claim_triggers_Inr [symmetric] by simp
    then show ?thesis using Inl by auto
  next
    case (Inr d1)
    then have "distinct (own_keys c (triggers c)) \<and> set (own_keys c (triggers c)) \<inter> dom (dget d) = {}"
      unfolding claim_triggers_Inr [symmetric] by blast
    then show ?thesis using Inr Cons.IH [of d1] claim_triggers_dom [OF Inr] by auto
  qed
qed simp

lemma validate_iff: "validate_unambiguous cs = Inr u \<longleftrightarrow> unambiguous cs"
proof -
  have "validate_unambiguous cs = Inr u \<longleftrightarrow> (\<exists>d'. claim_all cs [] = Inr d')"
    by (auto simp: validate_unambiguous_def bindE_eq_Inr)
  then show ?thesis using claim_all_Inr [of cs "[]"] by (simp add: unambiguous_keys)
qed

text \<open>The state of the index: fresh, or what the commands make it.\<close>

definition router_ok :: "router \<Rightarrow> bool" where
  "router_ok r \<longleftrightarrow> unambiguous (commands r) \<and>
     (\<not> index_dirty r \<longrightarrow> ordered r = sort_key (\<lambda>c. neg_key (command_sort_key c)) (commands r)
        \<and> trigger_index r = build_index (ordered r))"

lemma router_ok_new: "router_ok new_router"
  by (simp add: router_ok_def new_router_def unambiguous_def)

lemma router_ok_register: "router_ok r \<Longrightarrow> router_ok (snd (register c r))"
  by (auto simp: router_ok_def register_def Let_def validate_iff split: sum.splits)

lemma router_ok_replace: "router_ok r \<Longrightarrow> router_ok (snd (replace_plugin p specs r))"
  by (auto simp: router_ok_def replace_plugin_def Let_def validate_iff split: sum.splits)

lemma ensure_ok:
  assumes "router_ok r"
  shows "router_ok (ensure_indexes r) \<and> commands (ensure_indexes r) = commands r \<and> \<not> index_dirty (ensure_indexes r)
    \<and> ordered (ensure_indexes r) = sort_key (\<lambda>c. neg_key (command_sort_key c)) (commands r)
    \<and> trigger_index (ensure_indexes r) = build_index (ordered (ensure_indexes r))"
  using assms by (auto simp: ensure_indexes_def router_ok_def Let_def)

lemma index_get_add:
  "dget (index_add c t d) h = (if \<exists>r. t = h # r
     then Some ((case dget d h of Some xs \<Rightarrow> xs | None \<Rightarrow> []) @ [(c, t)]) else dget d h)"
  by (cases t) (auto simp: index_add_def)

definition bucket :: "(uchar, (cmd \<times> ustr) list) dict \<Rightarrow> uchar \<Rightarrow> (cmd \<times> ustr) list" where
  "bucket d h = (case dget d h of Some xs \<Rightarrow> xs | None \<Rightarrow> [])"

definition starts :: "uchar \<Rightarrow> cmd \<times> ustr \<Rightarrow> bool" where
  "starts h ct \<longleftrightarrow> (case snd ct of c # _ \<Rightarrow> c = h | [] \<Rightarrow> False)"

lemma bucket_add: "bucket (index_add c t d) h = bucket d h @ filter (starts h) [(c, t)]"
  by (cases t) (auto simp: bucket_def index_add_def starts_def)

lemma bucket_fold_add: "bucket (fold (index_add c) ts d) h = bucket d h @ filter (starts h) (map (Pair c) ts)"
  by (induction ts arbitrary: d) (simp_all add: bucket_add)

lemma bucket_fold: "bucket (fold (\<lambda>c d. fold (index_add c) (triggers c) d) cs d) h = bucket d h @ filter (starts h) (claims cs)"
  by (induction cs arbitrary: d) (simp_all add: bucket_fold_add)

lemma map_of_map_snd: "map_of (map (\<lambda>(k, v). (k, f v)) d) k = map_option f (map_of d k)"
  by (induction d) auto

lemma bucket_build:
  "bucket (build_index cs) h = sort_key (\<lambda>ct. neg_key (priority (fst ct), length (snd ct))) (filter (starts h) (claims cs))"
  using bucket_fold [of cs "[]" h]
  by (auto simp: build_index_def bucket_def map_of_map_snd split: option.splits)

section \<open>Resolution finds the best command\<close>

definition rank :: "cmd \<times> ustr \<Rightarrow> int \<times> nat" where
  "rank ct = (priority (fst ct), length (snd ct))"

lemma neg_key_le: "neg_key k \<le> neg_key k' \<longleftrightarrow> k' \<le> k"
  by (cases k; cases k') (auto simp: neg_key_def less_eq_prod_def)

lemma find_first_min:
  assumes "sorted (map f xs)" and "find P xs = Some x" and "y \<in> set xs" and "P y"
  shows "f x \<le> (f y :: 'b :: linorder)"
  using assms by (induction xs) (auto split: if_splits)

text \<open>The triggers of a router that a text starts with, at a word boundary.\<close>

definition matching :: "cmd list \<Rightarrow> ustr \<Rightarrow> (cmd \<times> ustr) set" where
  "matching cs msg = {ct \<in> set (claims cs). snd ct \<noteq> [] \<and> trigger_matches msg (snd ct)}"

lemma matching_starts: "ct \<in> matching cs msg \<Longrightarrow> \<exists>h r. msg = h # r \<and> starts h ct"
  by (cases "snd ct") (auto simp: matching_def trigger_matches_def startswith_iff starts_def)

lemma matching_unique:
  assumes "unambiguous cs" and "a \<in> matching cs msg" and "b \<in> matching cs msg" and "rank a = rank b"
  shows "a = b"
proof -
  have "startswith msg (snd a)" "startswith msg (snd b)" using assms(2,3) by (auto simp: matching_def trigger_matches_def)
  moreover have "length (snd a) = length (snd b)" using assms(4) by (simp add: rank_def)
  ultimately have "snd a = snd b" unfolding startswith_def by metis
  then have "claim_key a = claim_key b" using assms(4) by (simp add: claim_key_def rank_def)
  moreover have "inj_on claim_key (set (claims cs))" using assms(1) by (simp add: unambiguous_def distinct_map)
  moreover have "a \<in> set (claims cs)" "b \<in> set (claims cs)" using assms(2,3) by (simp_all add: matching_def)
  ultimately show ?thesis by (auto dest: inj_onD)
qed

text \<open>What \<open>resolve\<close> has to return: the matching trigger of the highest priority, then the longest one.\<close>

definition best_match :: "cmd list \<Rightarrow> ustr \<Rightarrow> cmd \<Rightarrow> ustr \<Rightarrow> bool" where
  "best_match cs msg c args \<longleftrightarrow> (\<exists>t. (c, t) \<in> matching cs msg \<and> args = strip (drop (length t) msg)
     \<and> (\<forall>ct\<in>matching cs msg. rank ct \<le> rank (c, t)))"

lemma claims_sorted: "set (claims (sort_key f cs)) = set (claims cs)"
  by (auto simp: claims_def)

lemma resolve_find:
  assumes "router_ok r"
  shows "\<exists>xs. (\<forall>ct. ct \<in> set xs \<and> trigger_matches msg (snd ct) \<longleftrightarrow> ct \<in> matching (commands r) msg)
    \<and> sorted (map (\<lambda>ct. neg_key (rank ct)) xs)
    \<and> fst (resolve msg r) = map_option (\<lambda>ct. (fst ct, strip (drop (length (snd ct)) msg)))
         (find (\<lambda>ct. trigger_matches msg (snd ct)) xs)"
proof (cases msg)
  case Nil
  then show ?thesis using matching_starts by (intro exI [of _ "[]"]) (auto simp: resolve_def)
next
  case (Cons h rest)
  define cs where "cs = sort_key (\<lambda>c. neg_key (command_sort_key c)) (commands r)"
  define xs where "xs = bucket (build_index cs) h"
  have xs: "xs = sort_key (\<lambda>ct. neg_key (rank ct)) (filter (starts h) (claims cs))"
    by (simp add: xs_def bucket_build rank_def)
  have "trigger_index (ensure_indexes r) = build_index cs" using ensure_ok [OF assms] by (simp add: cs_def)
  then have "fst (resolve msg r) = map_option (\<lambda>ct. (fst ct, strip (drop (length (snd ct)) msg)))
         (find (\<lambda>ct. trigger_matches msg (snd ct)) xs)"
    by (simp add: resolve_def local.Cons Let_def xs_def bucket_def)
  moreover have "sorted (map (\<lambda>ct. neg_key (rank ct)) xs)" by (simp add: xs)
  moreover have "ct \<in> set xs \<and> trigger_matches msg (snd ct) \<longleftrightarrow> ct \<in> matching (commands r) msg" for ct
    using matching_starts [of ct "commands r" msg] Cons
    by (auto simp: xs matching_def claims_sorted cs_def starts_def split: list.splits)
  ultimately show ?thesis by blast
qed

lemma resolve_best:
  assumes ok: "router_ok r"
  shows "fst (resolve msg r) = Some (c, args) \<longleftrightarrow> best_match (commands r) msg c args"
    and "fst (resolve msg r) = None \<longleftrightarrow> matching (commands r) msg = {}"
proof -
  obtain xs where xs: "\<And>ct. ct \<in> set xs \<and> trigger_matches msg (snd ct) \<longleftrightarrow> ct \<in> matching (commands r) msg"
    and s: "sorted (map (\<lambda>ct. neg_key (rank ct)) xs)"
    and r: "fst (resolve msg r) = map_option (\<lambda>ct. (fst ct, strip (drop (length (snd ct)) msg)))
         (find (\<lambda>ct. trigger_matches msg (snd ct)) xs)"
    using resolve_find [OF ok] by blast
  have un: "unambiguous (commands r)" using ok by (simp add: router_ok_def)
  have found: "ct \<in> matching (commands r) msg \<and> (\<forall>y\<in>matching (commands r) msg. rank y \<le> rank ct)"
    if f: "find (\<lambda>ct. trigger_matches msg (snd ct)) xs = Some ct" for ct
  proof -
    have "ct \<in> matching (commands r) msg" using find_set [OF f] xs by blast
    moreover have "rank y \<le> rank ct" if y: "y \<in> matching (commands r) msg" for y
    proof -
      have "y \<in> set xs" "trigger_matches msg (snd y)" using y xs by blast+
      then have "neg_key (rank ct) \<le> neg_key (rank y)" using find_first_min [OF s f] by blast
      then show ?thesis by (simp add: neg_key_le)
    qed
    ultimately show ?thesis by blast
  qed
  show "fst (resolve msg r) = None \<longleftrightarrow> matching (commands r) msg = {}"
    using r xs by (auto simp: find_None_iff)
  show "fst (resolve msg r) = Some (c, args) \<longleftrightarrow> best_match (commands r) msg c args"
  proof
    assume "fst (resolve msg r) = Some (c, args)"
    then obtain t where f: "find (\<lambda>ct. trigger_matches msg (snd ct)) xs = Some (c, t)"
      and a: "args = strip (drop (length t) msg)" using r by auto
    show "best_match (commands r) msg c args" unfolding best_match_def using found [OF f] a by blast
  next
    assume "best_match (commands r) msg c args"
    then obtain t where t: "(c, t) \<in> matching (commands r) msg" "args = strip (drop (length t) msg)"
      "\<forall>ct\<in>matching (commands r) msg. rank ct \<le> rank (c, t)" unfolding best_match_def by blast
    then have "find (\<lambda>ct. trigger_matches msg (snd ct)) xs \<noteq> None" using xs by (auto simp: find_None_iff)
    then obtain ct where f: "find (\<lambda>ct. trigger_matches msg (snd ct)) xs = Some ct" by blast
    have "rank ct = rank (c, t)" using found [OF f] t(1,3) by (blast intro: antisym)
    then have "ct = (c, t)" using matching_unique [OF un _ t(1)] found [OF f] by blast
    then show "fst (resolve msg r) = Some (c, args)" using r f t(2) by simp
  qed
qed

section \<open>Reachable routers\<close>

inductive router_reach :: "router \<Rightarrow> bool" where
  rr_new: "router_reach new_router"
| rr_register: "router_reach r \<Longrightarrow> router_reach (snd (register c r))"
| rr_replace: "router_reach r \<Longrightarrow> router_reach (snd (replace_plugin p specs r))"
| rr_clear: "router_reach r \<Longrightarrow> router_reach (snd (clear_plugin p r))"
| rr_resolve: "router_reach r \<Longrightarrow> router_reach (snd (resolve msg r))"
| rr_catalog: "router_reach r \<Longrightarrow> router_reach (snd (get_command_catalog r))"

lemma router_reach_ok: "router_reach r \<Longrightarrow> router_ok r"
proof (induction rule: router_reach.induct)
  case (rr_clear r p)
  then show ?case using router_ok_replace [of r p "[]"] by (cases "replace_plugin p [] r") (simp add: clear_plugin_def)
next
  case (rr_resolve r msg)
  then show ?case using ensure_ok [of r] by (cases msg) (simp_all add: resolve_def Let_def)
next
  case (rr_catalog r)
  then show ?case using ensure_ok [of r] by (simp add: get_command_catalog_def Let_def)
qed (simp_all add: router_ok_new router_ok_register router_ok_replace)

section \<open>Properties\<close>

text \<open>
  C33. Resolution is right and unambiguous: in every reachable router, with its index fresh or stale, a text
  resolves to a command exactly when that command has a trigger which the text starts with at a word
  boundary and no other such trigger has a higher priority, or the same priority and more characters; the
  arguments are the trimmed rest. The answer depends on the registered commands only, not on their order,
  and there is none exactly when no trigger matches.
\<close>

theorem router_resolve_best:
  assumes "router_reach r"
  shows "(fst (resolve msg r) = Some (c, args) \<longleftrightarrow> best_match (commands r) msg c args)
    \<and> (fst (resolve msg r) = None \<longleftrightarrow> matching (commands r) msg = {})"
  using resolve_best [OF router_reach_ok [OF assms]] by blast

theorem router_resolve_best_witness:
  "\<exists>r c. router_reach r \<and> fst (resolve (U ''sh  x'') r) = Some (c, U ''x'') \<and> best_match (commands r) (U ''sh  x'') c (U ''x'')
     \<and> fst (resolve (U ''show'') r) = None"
proof -
  let ?c = "\<lparr>c_plugin = U ''p'', c_name = U ''sh'', triggers = [U ''sh''], c_help = [], admin_only = False, handler = 0,
     priority = 0, c_usage = None, c_catalog = None, gate = None\<rparr>"
  define r where "r = snd (register ?c new_router)"
  have r: "router_reach r" unfolding r_def by (intro rr_register rr_new)
  have "commands r = [?c]" "index_dirty r"
    by (simp_all add: r_def register_def new_router_def validate_unambiguous_def Let_def)
  then have "fst (resolve (U ''sh  x'') r) = Some (?c, U ''x'')" "fst (resolve (U ''show'') r) = None"
    by (simp_all add: resolve_def ensure_indexes_def Let_def build_index_def index_add_def trigger_matches_def
        startswith_def strip_def lstrip_def rstrip_def uspace_def)
  moreover have "best_match (commands r) (U ''sh  x'') ?c (U ''x'')"
    using router_resolve_best [OF r] calculation(1) by blast
  ultimately show ?thesis using r by blast
qed

text \<open>
  Registration is atomic: replacing the commands of a plugin either reports a real conflict (a trigger that
  two commands would claim at one priority) and changes nothing, or keeps all other commands in their
  order, adds the new ones, and returns those it removed; it succeeds exactly when the result has no
  conflict.
\<close>

lemma router_replace_atomic:
  "case replace_plugin p specs r of
     (Inl e, r') \<Rightarrow> r' = r \<and> \<not> unambiguous (filter (\<lambda>c. c_plugin c \<noteq> p) (commands r) @ specs)
   | (Inr previous, r') \<Rightarrow> commands r' = filter (\<lambda>c. c_plugin c \<noteq> p) (commands r) @ specs
       \<and> unambiguous (commands r') \<and> previous = filter (\<lambda>c. c_plugin c = p) (commands r)"
proof (cases "validate_unambiguous (filter (\<lambda>c. c_plugin c \<noteq> p) (commands r) @ specs)")
  case (Inl e)
  have "\<not> unambiguous (filter (\<lambda>c. c_plugin c \<noteq> p) (commands r) @ specs)"
    unfolding validate_iff [of _ "()", symmetric] using Inl by simp
  then show ?thesis using Inl by (simp add: replace_plugin_def)
next
  case (Inr u)
  then have "unambiguous (filter (\<lambda>c. c_plugin c \<noteq> p) (commands r) @ specs)" by (simp add: validate_iff)
  then show ?thesis using Inr by (simp add: replace_plugin_def)
qed

end
