(* ===== verification/Dispatcher.thy ===== *)
theory Dispatcher
  imports Router Messages Session
begin

text \<open>
  The dispatcher of message events (\<^verbatim>\<open>core/dispatcher.py\<close>): the mute table, the parser of events, the flow
  that decides which part of the bot answers a message, the permission check before a command, the
  continuation of a session, the fallback to small talk, and commands that run on behalf of a user.
  What a plugin does when it is called is a parameter; the model records every call in its order.
\<close>

section \<open>Muted groups\<close>

type_synonym mutes = "(int, real) dict"

definition seconds_per_minute :: real where
  "seconds_per_minute = 60"

definition prune_mutes :: "real \<Rightarrow> mutes \<Rightarrow> mutes" where
  "prune_mutes now ms = fold ddel (map fst (filter (\<lambda>(g, unmute). now \<ge> unmute) ms)) ms"

text \<open>\<open>d\<close> is the duration in minutes; an integer too large for a float raises in \<^verbatim>\<open>float\<close>.\<close>

definition mute_group :: "real \<Rightarrow> int \<Rightarrow> pyval \<Rightarrow> mutes \<Rightarrow> pyerr + mutes" where
  "mute_group now g d ms =
     bindE (guardE (g \<le> 0) (ValueError ''group_id must be a positive integer'')) (\<lambda>_.
     bindE (case d of
         VInt n \<Rightarrow> float_of_int n
       | VFloat x \<Rightarrow> Inr x
       | _ \<Rightarrow> Inl (ValueError ''duration_minutes must be a positive finite number'')) (\<lambda>x.
     case x of
       Fin r \<Rightarrow> (if r \<le> 0 then Inl (ValueError ''duration_minutes must be a positive finite number'')
                 else Inr (dset g (now + r * seconds_per_minute) (prune_mutes now ms)))
     | _ \<Rightarrow> Inl (ValueError ''duration_minutes must be a positive finite number'')))"

definition unmute_group :: "int \<Rightarrow> mutes \<Rightarrow> bool \<times> mutes" where
  "unmute_group g ms = (if dget ms g \<noteq> None then (True, ddel g ms) else (False, ms))"

definition is_muted :: "real \<Rightarrow> int option \<Rightarrow> mutes \<Rightarrow> bool \<times> mutes" where
  "is_muted now g ms = (case g of
      None \<Rightarrow> (False, ms)
    | Some i \<Rightarrow> let ms' = prune_mutes now ms in (dget ms' i \<noteq> None, ms'))"

definition mute_remaining :: "real \<Rightarrow> int \<Rightarrow> mutes \<Rightarrow> real \<times> mutes" where
  "mute_remaining now g ms =
     (if ms = [] then (0, ms)
      else let ms' = prune_mutes now ms in
        case dget ms' g of
          None \<Rightarrow> (0, ms')
        | Some unmute \<Rightarrow> (max 0 ((unmute - now) / seconds_per_minute), ms'))"

section \<open>Contexts of messages\<close>

text \<open>The configuration the dispatcher reads, with the defaults of its keys.\<close>

record dconfig =
  dc_bot_name :: ustr
  dc_prefixes :: "ustr list"
  dc_require_name :: bool
  dc_plugins :: pyval

record prefix_cache =
  pc_key :: "(ustr \<times> ustr list) option"
  pc_pattern :: "ustr option"
  pc_bot_name :: ustr
  pc_prefixes :: "ustr list"

definition refresh_prefix_cache :: "dconfig \<Rightarrow> prefix_cache \<Rightarrow> prefix_cache" where
  "refresh_prefix_cache c pc =
     (let key = (dc_bot_name c, dc_prefixes c) in
      if pc_key pc = Some key then pc
      else \<lparr>pc_key = Some key, pc_pattern = compile_bot_name_pattern (fst key), pc_bot_name = fst key,
            pc_prefixes = snd key\<rparr>)"

definition new_prefix_cache :: "dconfig \<Rightarrow> prefix_cache" where
  "new_prefix_cache c = refresh_prefix_cache c
     \<lparr>pc_key = None, pc_pattern = None, pc_bot_name = [], pc_prefixes = []\<rparr>"

record message_context =
  mc_text :: ustr
  mc_clean :: ustr
  mc_user :: "int option"
  mc_group :: "int option"
  mc_private :: bool
  mc_bot_name :: bool
  mc_prefix :: bool
  mc_command_prefix :: bool
  mc_only_name :: bool
  mc_at_me :: bool
  mc_url_only :: bool
  mc_event :: pydict
  mc_empty :: bool
  mc_session :: "session option"

text \<open>
  A validated event holds integers or \<^verbatim>\<open>None\<close> as its identifiers. The functions \<open>other\<close>, \<open>lower\<close> and \<open>ieq\<close>
  are those of the theory of messages.
\<close>

definition id_of :: "pyval \<Rightarrow> int option" where
  "id_of v = (case v of VInt n \<Rightarrow> Some n | _ \<Rightarrow> None)"

definition str_or_empty :: "(pyval \<Rightarrow> ustr) \<Rightarrow> pyval \<Rightarrow> ustr" where
  "str_or_empty other v = py_str other (if truthy v then v else VStr [])"

definition parse_event ::
  "(pyval \<Rightarrow> ustr) \<Rightarrow> (ustr \<Rightarrow> ustr) \<Rightarrow> (uchar \<Rightarrow> uchar \<Rightarrow> bool) \<Rightarrow> prefix_cache \<Rightarrow> bool \<Rightarrow> pydict
     \<Rightarrow> pyerr + message_context option" where
  "parse_event other lower ieq pc allow_empty event =
     (let self_id = str_or_empty other (dget_default event (U ''self_id'') (VStr []));
          raw = str_or_empty other (dget_default event kRaw (VStr []))
      in bindE (scan_message other (dget_default event kMessage VNone) self_id (VStr raw)) (\<lambda>sc.
         let txt = strip (scan_text sc);
             user = dget_default event (U ''user_id'') VNone;
             group = dget_default event (U ''group_id'') VNone;
             empty = (txt = [] \<and> \<not> scan_has_media sc \<and> \<not> scan_is_at_me sc)
         in if empty \<and> \<not> allow_empty then Inr None
            else if self_id \<noteq> [] \<and> truthy user \<and> py_str other user = self_id then Inr None
            else bindE (parse_text_command_context other lower ieq txt event (pc_bot_name pc) (pc_prefixes pc) self_id
                         (pc_pattern pc) (Some sc)) (\<lambda>tc.
              Inr (Some \<lparr>mc_text = txt, mc_clean = tc_clean_text tc, mc_user = id_of user, mc_group = id_of group,
                mc_private = (group = VNone), mc_bot_name = tc_has_bot_name tc, mc_prefix = tc_has_prefix tc,
                mc_command_prefix = tc_has_command_prefix tc, mc_only_name = tc_is_only_bot_name tc,
                mc_at_me = tc_is_at_me tc, mc_url_only = tc_is_url_only tc, mc_event = event, mc_empty = empty,
                mc_session = None\<rparr>))))"

section \<open>Calls of plugins\<close>

text \<open>
  How a call through the gate of a plugin ends: with a value, refused or timed out by the gate, with an
  ordinary exception, or with one that nothing here catches.
\<close>

datatype call_end = Answers pyval | Refuses | Fails pyerr | Aborts pyerr

text \<open>What the dispatcher does to the outside: the calls it makes.\<close>

datatype act =
    RunCommand cmd ustr principal
  | CallPlugin ustr ustr ustr
  | ContinueSession ustr ustr ustr
  | CloseSession ustr
  | DropSession ustr

text \<open>
  The surroundings of one event. \<open>w_has p m\<close> tells that the plugin \<open>p\<close> is loaded and its module has \<open>m\<close>;
  \<open>w_public\<close> is the message for the user that a failure becomes; an attempt to continue a session finds
  the session it looks up and the one that is there under the lock.
\<close>

record attempt =
  at_seen :: "session option"
  at_held :: "session option"
  at_admitted :: bool
  at_call :: call_end
  at_commit :: "pyerr option"
  at_cleanup_admitted :: bool
  at_left :: "session option"

record world =
  w_config :: dconfig
  w_has_sessions :: bool
  w_peek :: "session option"
  w_attempts :: "attempt list"
  w_loaded :: "ustr \<Rightarrow> bool"
  w_has :: "ustr \<Rightarrow> ustr \<Rightarrow> bool"
  w_call :: "ustr \<Rightarrow> ustr \<Rightarrow> call_end"
  w_handler :: "cmd \<Rightarrow> ustr \<Rightarrow> call_end"
  w_public :: "pyerr \<Rightarrow> pyval"
  w_blocked_url :: "ustr \<Rightarrow> bool"
  w_choice :: ustr
  w_now :: real
  w_issues :: bool
  w_other :: "pyval \<Rightarrow> ustr"
  w_lower :: "ustr \<Rightarrow> ustr"
  w_casefold :: "ustr \<Rightarrow> ustr"
  w_alpha :: "uchar \<Rightarrow> bool"

record dstate =
  ds_router :: router
  ds_identity :: identity
  ds_mutes :: mutes
  ds_trace :: "act list"

type_synonym 'a disp = "dstate \<Rightarrow> (pyerr + 'a) \<times> dstate"

definition ret :: "'a \<Rightarrow> 'a disp" where
  "ret x st = (Inr x, st)"

definition raise :: "pyerr \<Rightarrow> 'a disp" where
  "raise e st = (Inl e, st)"

definition andthen :: "'a disp \<Rightarrow> ('a \<Rightarrow> 'b disp) \<Rightarrow> 'b disp" where
  "andthen m f st = (case m st of (Inl e, st') \<Rightarrow> (Inl e, st') | (Inr x, st') \<Rightarrow> f x st')"

definition perform :: "act \<Rightarrow> unit disp" where
  "perform a st = (Inr (), st\<lparr>ds_trace := ds_trace st @ [a]\<rparr>)"

definition muted :: "world \<Rightarrow> message_context \<Rightarrow> bool disp" where
  "muted w ctx st = (case is_muted (w_now w) (mc_group ctx) (ds_mutes st) of (b, ms) \<Rightarrow> (Inr b, st\<lparr>ds_mutes := ms\<rparr>))"

definition resolve_text :: "ustr \<Rightarrow> (cmd \<times> ustr) option disp" where
  "resolve_text txt st = (case resolve txt (ds_router st) of (r, router) \<Rightarrow> (Inr r, st\<lparr>ds_router := router\<rparr>))"

definition text_reply :: "ustr \<Rightarrow> pyval" where
  "text_reply txt = VList [text_segment txt]"

definition or_empty :: "pyval \<Rightarrow> pyval" where
  "or_empty v = (if truthy v then v else VList [])"

text \<open>The principal of the sender, issued by the identity service when there is one.\<close>

definition principal_for_event :: "world \<Rightarrow> message_context \<Rightarrow> principal disp" where
  "principal_for_event w ctx st =
     (if w_issues w
      then (case issue_user_principal (w_lower w) (w_other w) (mc_event ctx) (mc_user ctx) (mc_group ctx)
                   (mc_private ctx) (ds_identity st) of
              (Inl e, ident) \<Rightarrow> (Inl e, st\<lparr>ds_identity := ident\<rparr>)
            | (Inr (_, p), ident) \<Rightarrow> (Inr p, st\<lparr>ds_identity := ident\<rparr>))
      else (bindE (event_role (w_lower w) (w_other w) (mc_event ctx) (mc_user ctx) (mc_group ctx)) (\<lambda>role.
              make_principal \<lparr>raw_kind = VStr (if mc_user ctx \<noteq> None then U ''user'' else U ''lifecycle''),
                raw_user = opt_val (mc_user ctx), raw_group = opt_val (mc_group ctx),
                raw_admin = VBool (is_admin (ds_identity st) (mc_user ctx)), raw_private = VBool (mc_private ctx),
                raw_role = VStr role, raw_targets = Some [], raw_delivery = VNone\<rparr>), st))"

section \<open>Small talk and observation\<close>

definition smalltalk_provider :: "dconfig \<Rightarrow> ustr" where
  "smalltalk_provider c = (case dc_plugins c of
      VDict d \<Rightarrow> (case dget_default d (U ''smalltalk_provider'') (VStr (U ''smalltalk'')) of
          VStr s \<Rightarrow> if s \<noteq> [] then s else U ''smalltalk''
        | _ \<Rightarrow> U ''smalltalk'')
    | _ \<Rightarrow> U ''smalltalk'')"

definition call_provider :: "world \<Rightarrow> ustr \<Rightarrow> ustr \<Rightarrow> message_context \<Rightarrow> ustr \<Rightarrow> pyval option disp" where
  "call_provider w provider meth ctx txt st =
     (if \<not> w_has w provider meth then (Inr None, st)
      else case principal_for_event w ctx st of
        (Inl _, st1) \<Rightarrow> (Inr None, st1)
      | (Inr _, st1) \<Rightarrow>
          (case perform (CallPlugin provider meth txt) st1 of (_, st2) \<Rightarrow>
            (case w_call w provider meth of
               Answers v \<Rightarrow> (Inr (Some (or_empty v)), st2)
             | Refuses \<Rightarrow> (Inr None, st2)
             | Fails _ \<Rightarrow> (Inr None, st2)
             | Aborts e \<Rightarrow> (Inl e, st2))))"

definition dispatch_to_provider :: "world \<Rightarrow> ustr \<Rightarrow> message_context \<Rightarrow> ustr \<Rightarrow> ustr option \<Rightarrow> pyval disp" where
  "dispatch_to_provider w meth ctx txt dflt =
     (let provider = smalltalk_provider (w_config w);
          final = (case dflt of Some t \<Rightarrow> if t \<noteq> [] then text_reply t else VList [] | None \<Rightarrow> VList [])
      in andthen (call_provider w provider meth ctx txt) (\<lambda>r. case r of
           Some v \<Rightarrow> ret v
         | None \<Rightarrow>
             if provider \<noteq> U ''smalltalk'' \<and> provider \<noteq> U ''xiaoqing_chat''
             then andthen (call_provider w (U ''smalltalk'') meth ctx txt) (\<lambda>r. case r of
                    Some v \<Rightarrow> ret v | None \<Rightarrow> ret final)
             else ret final))"

definition handle_smalltalk :: "world \<Rightarrow> message_context \<Rightarrow> pyval disp" where
  "handle_smalltalk w ctx = dispatch_to_provider w (U ''handle_smalltalk'') ctx (mc_clean ctx) None"

definition smalltalk_unless_muted :: "world \<Rightarrow> message_context \<Rightarrow> pyval disp" where
  "smalltalk_unless_muted w ctx =
     andthen (muted w ctx) (\<lambda>m. if m then ret (VList []) else handle_smalltalk w ctx)"

definition handle_only_name :: "world \<Rightarrow> message_context \<Rightarrow> pyval disp" where
  "handle_only_name w ctx =
     (if \<not> mc_private ctx \<and> smalltalk_provider (w_config w) = U ''xiaoqing_chat''
      then dispatch_to_provider w (U ''handle_smalltalk'') ctx (mc_text ctx) None
      else dispatch_to_provider w (U ''call_bot_name_only'') ctx [] (Some (w_choice w)))"

definition observe_message :: "world \<Rightarrow> message_context \<Rightarrow> unit disp" where
  "observe_message w ctx =
     andthen (call_provider w (smalltalk_provider (w_config w)) (U ''observe_message'') ctx (mc_clean ctx)) (\<lambda>_. ret ())"

definition observation_skip_reason :: "message_context \<Rightarrow> (cmd \<times> ustr) option \<Rightarrow> ustr option" where
  "observation_skip_reason ctx resolved =
     (if mc_url_only ctx then Some (U ''url'')
      else case resolved of
        Some (spec, _) \<Rightarrow> Some (U ''command:'' @ c_plugin spec)
      | None \<Rightarrow>
          if mc_command_prefix ctx then Some (U ''command-prefix'')
          else map_option (\<lambda>s. U ''session:'' @ plugin_name s) (mc_session ctx))"

definition is_unknown_command :: "world \<Rightarrow> message_context \<Rightarrow> (cmd \<times> ustr) option \<Rightarrow> bool" where
  "is_unknown_command w ctx resolved \<longleftrightarrow>
     resolved = None \<and> mc_command_prefix ctx \<and> (case mc_clean ctx of c # _ \<Rightarrow> w_alpha w c | [] \<Rightarrow> False)"

definition allow_plain_smalltalk :: "world \<Rightarrow> message_context \<Rightarrow> bool" where
  "allow_plain_smalltalk w ctx \<longleftrightarrow>
     \<not> (mc_private ctx \<or> mc_prefix ctx \<or> mc_only_name ctx) \<and> smalltalk_provider (w_config w) = U ''xiaoqing_chat''"

definition truncate_text :: "ustr \<Rightarrow> nat \<Rightarrow> ustr" where
  "truncate_text txt n = (if length txt > n then take n txt @ U ''...'' else txt)"

section \<open>Links\<close>

definition invoke_url_parser :: "world \<Rightarrow> message_context \<Rightarrow> ustr \<Rightarrow> pyval disp" where
  "invoke_url_parser w ctx url =
     (if \<not> w_has w (U ''url_parser'') (U ''handle_url'') then ret VNone
      else andthen (principal_for_event w ctx) (\<lambda>_.
           andthen (perform (CallPlugin (U ''url_parser'') (U ''handle_url'') url)) (\<lambda>_.
           case w_call w (U ''url_parser'') (U ''handle_url'') of
             Answers v \<Rightarrow> ret (if truthy v then v else VNone)
           | Refuses \<Rightarrow> ret VNone
           | Fails _ \<Rightarrow> ret VNone
           | Aborts e \<Rightarrow> raise e)))"

section \<open>Commands\<close>

definition refusal_text :: "cnode \<Rightarrow> ustr \<Rightarrow> bool \<Rightarrow> bool \<Rightarrow> ustr" where
  "refusal_text node refusal private runner =
     (if refusal = U ''context''
      then if \<not> runner then [24403, 21069, 20250, 35805, 31867, 22411, 19981, 25903, 25345, 27492, 21629, 20196]
           else U ''/'' @ ujoin (U '' '') (n_path node) @ [32, 21482, 33021, 22312]
             @ (if U ''private'' \<in> set (n_contexts node) then [31169, 32842] else [32676, 32842]) @ [37324, 20351, 29992, 65292, 24403, 21069, 26159]
             @ (if private then [31169, 32842] else [32676, 32842]) @ [65292, 36825, 37324, 19981, 33021, 25191, 34892, 12290]
      else if refusal = U ''group_admin'' then [38656, 35201, 24403, 21069, 32676, 31649, 29702, 21592, 25110, 32676, 20027, 26435, 38480]
      else [26435, 38480, 19981, 36275])"

definition unavailable_text :: ustr where
  "unavailable_text = [9888, 65039, 32, 25554, 20214, 26242, 26102, 19981, 21487, 29992, 65292, 35831, 31245, 21518, 37325, 35797]"

definition run_handler :: "world \<Rightarrow> cmd \<Rightarrow> ustr \<Rightarrow> principal \<Rightarrow> pyval disp" where
  "run_handler w spec args p =
     andthen (perform (RunCommand spec args p)) (\<lambda>_.
     case w_handler w spec args of
       Answers v \<Rightarrow> ret v
     | Refuses \<Rightarrow> ret (text_reply unavailable_text)
     | Fails e \<Rightarrow> ret (w_public w e)
     | Aborts e \<Rightarrow> raise e)"

definition event_runner :: "message_context \<Rightarrow> bool" where
  "event_runner ctx = truthy (dget_default (mc_event ctx) (U ''_command_runner'') VNone)"

definition execute_command :: "world \<Rightarrow> cmd \<times> ustr \<Rightarrow> message_context \<Rightarrow> pyval disp" where
  "execute_command w resolved ctx =
     (case resolved of (spec, args) \<Rightarrow>
      andthen (principal_for_event w ctx) (\<lambda>p.
      case c_catalog spec of
        Some rt \<Rightarrow>
          (let inv = resolve_invocation (w_casefold w) rt args in
           case command_access (inv_node inv) p None of
             Some refusal \<Rightarrow> ret (text_reply (refusal_text (inv_node inv) refusal (mc_private ctx) (event_runner ctx)))
           | None \<Rightarrow> run_handler w spec args p)
      | None \<Rightarrow>
          (\<lambda>st. if admin_only spec \<and> \<not> is_admin (ds_identity st) (mc_user ctx)
                then ret (text_reply [26435, 38480, 19981, 36275]) st
                else run_handler w spec args p st)))"

section \<open>Continuing a session\<close>

definition exit_commands :: "ustr list" where
  "exit_commands = [[36864, 20986], [21462, 28040], U ''exit'', U ''quit'', U ''q'']"

definition session_unavailable_text :: ustr where
  "session_unavailable_text = [9888, 65039, 32, 20250, 35805, 25554, 20214, 26242, 26102, 19981, 21487, 29992, 65292, 35831, 31245,
    21518, 37325, 35797]"

definition session_still_usable :: "ustr \<Rightarrow> principal \<Rightarrow> bool disp" where
  "session_still_usable plugin p st = (case get_command_catalog (ds_router st) of (roots, router) \<Rightarrow>
     (let own = filter (\<lambda>n. n_plugin n = plugin) roots
      in (Inr (own = [] \<or> list_ex (\<lambda>n. command_access n p None = None) own), st\<lparr>ds_router := router\<rparr>)))"

text \<open>The hook of the plugin; its errors are only reported.\<close>

definition close_plugin_session :: "world \<Rightarrow> ustr \<Rightarrow> unit disp" where
  "close_plugin_session w plugin =
     (if w_has w plugin (U ''close_session'') then perform (CloseSession plugin) else ret ())"

definition end_session :: "world \<Rightarrow> ustr \<Rightarrow> ustr \<Rightarrow> call_end disp" where
  "end_session w plugin notice =
     andthen (close_plugin_session w plugin) (\<lambda>_.
     andthen (perform (DropSession plugin)) (\<lambda>_. ret (Answers (text_reply notice))))"

text \<open>The callback of the transaction, for a session of the generation that was looked up.\<close>

definition handle_active_session :: "world \<Rightarrow> attempt \<Rightarrow> message_context \<Rightarrow> ustr \<Rightarrow> call_end disp" where
  "handle_active_session w a ctx plugin st =
     (case principal_for_event w ctx st of
        (Inl e, st1) \<Rightarrow> (Inr (Fails e), st1)
      | (Inr p, st1) \<Rightarrow>
          andthen (session_still_usable plugin p) (\<lambda>usable.
            if \<not> usable then end_session w plugin [20320, 22312, 36825, 37324, 24050, 32463, 19981, 33021, 20877, 29992, 36825, 20010, 21151, 33021,
    65292, 20250, 35805, 24050, 20851, 38381]
            else if w_lower w (strip (mc_text ctx)) \<in> set exit_commands
            then end_session w plugin [24050, 36864, 20986, 24403, 21069, 23545, 35805]
            else if w_has w plugin (U ''handle_session'')
            then andthen (perform (ContinueSession plugin (U ''handle_session'') (mc_clean ctx))) (\<lambda>_. ret (at_call a))
            else if w_has w plugin (U ''handle'')
            then andthen (perform (ContinueSession plugin (U ''handle'') (mc_clean ctx))) (\<lambda>_. ret (at_call a))
            else ret (Answers VNone)) st1)"

definition same_generation :: "session \<Rightarrow> session option \<Rightarrow> bool" where
  "same_generation s held = (case held of
      Some h \<Rightarrow> plugin_name h = plugin_name s \<and> session_id h = session_id s
    | None \<Rightarrow> False)"

text \<open>
  After a failure the session of that generation is removed, with the hook when the gate still admits it; the
  store itself does not fail here.
\<close>

definition failed_session_transaction :: "world \<Rightarrow> bool \<Rightarrow> attempt \<Rightarrow> session \<Rightarrow> unit disp" where
  "failed_session_transaction w with_hook a seen =
     (if \<not> same_generation seen (at_left a) then ret ()
      else andthen (if with_hook then close_plugin_session w (plugin_name seen) else ret ()) (\<lambda>_.
           perform (DropSession (plugin_name seen))))"

definition cleanup_session :: "world \<Rightarrow> attempt \<Rightarrow> session \<Rightarrow> unit disp" where
  "cleanup_session w a seen =
     failed_session_transaction w (\<not> (w_loaded w (plugin_name seen) \<and> \<not> at_cleanup_admitted a)) a seen"

definition session_value :: "pyval \<Rightarrow> pyval" where
  "session_value v = (case v of VNone \<Rightarrow> VNone | VList xs \<Rightarrow> VList xs | _ \<Rightarrow> VNone)"

text \<open>One attempt: \<open>None\<close> when the session was replaced under way.\<close>

definition session_attempt :: "world \<Rightarrow> attempt \<Rightarrow> message_context \<Rightarrow> pyval option disp" where
  "session_attempt w a ctx = (case at_seen a of
      None \<Rightarrow> ret (Some VNone)
    | Some seen \<Rightarrow>
        andthen (principal_for_event w ctx) (\<lambda>_.
          if w_loaded w (plugin_name seen) \<and> \<not> at_admitted a then ret (Some (text_reply session_unavailable_text))
          else case at_held a of
            None \<Rightarrow> ret (Some VNone)
          | Some held \<Rightarrow>
              if \<not> same_generation seen (Some held) then ret None
              else andthen (handle_active_session w a ctx (plugin_name seen)) (\<lambda>r.
                case (case (r, at_commit a) of (Answers v, Some e) \<Rightarrow> Fails e | _ \<Rightarrow> r) of
                  Answers v \<Rightarrow> ret (Some (session_value v))
                | Refuses \<Rightarrow> ret (Some (text_reply session_unavailable_text))
                | Fails e \<Rightarrow> andthen (cleanup_session w a seen) (\<lambda>_. ret (Some (w_public w e)))
                | Aborts e \<Rightarrow> raise e)))"

fun session_loop :: "world \<Rightarrow> attempt list \<Rightarrow> message_context \<Rightarrow> pyval disp" where
  "session_loop w [] ctx = ret VNone"
| "session_loop w (a # as) ctx = andthen (session_attempt w a ctx) (\<lambda>r. case r of
      Some v \<Rightarrow> ret v
    | None \<Rightarrow> session_loop w as ctx)"

definition try_handle_session :: "world \<Rightarrow> message_context \<Rightarrow> pyval disp" where
  "try_handle_session w ctx =
     (if \<not> w_has_sessions w \<or> mc_user ctx = None then ret VNone
      else session_loop w (take 2 (w_attempts w)) ctx)"

section \<open>The flow of a message\<close>

definition unknown_command_text :: "ustr \<Rightarrow> ustr" where
  "unknown_command_text word = [10067, 32, 26410, 30693, 21629, 20196, 58, 32, 47] @ truncate_text word 20"

definition help_hint :: ustr where
  "help_hint = [10, 128161, 32, 36755, 20837, 32, 47, 104, 101, 108, 112, 32, 26597, 30475, 21487, 29992, 21629, 20196]"

definition first_word :: "ustr \<Rightarrow> pyerr + ustr" where
  "first_word txt = (case usplit txt of x # _ \<Rightarrow> Inr x | [] \<Rightarrow> Inl (IndexError ''list index out of range''))"

definition lift_error :: "pyerr + 'a \<Rightarrow> 'a disp" where
  "lift_error r = (case r of Inl e \<Rightarrow> raise e | Inr x \<Rightarrow> ret x)"

text \<open>Whether the session of the sender is looked up before the gate.\<close>

definition looks_up_session :: "world \<Rightarrow> message_context \<Rightarrow> bool" where
  "looks_up_session w ctx \<longleftrightarrow> w_has_sessions w \<and> mc_user ctx \<noteq> None \<and> \<not> mc_only_name ctx"

text \<open>Steps B to G, for a message that may be processed.\<close>

definition answer_message :: "world \<Rightarrow> message_context \<Rightarrow> (cmd \<times> ustr) option \<Rightarrow> pyval disp" where
  "answer_message w ctx resolved =
     (if mc_url_only ctx
      then andthen (muted w ctx) (\<lambda>m.
             if m then ret (VList [])
             else let url = strip (mc_clean ctx) in
               if w_blocked_url w url then ret (VList [])
               else andthen (invoke_url_parser w ctx url) (\<lambda>v. ret (or_empty v)))
      else if mc_only_name ctx then handle_only_name w ctx
      else andthen (if mc_session ctx \<noteq> None then try_handle_session w ctx else ret VNone) (\<lambda>v.
             if v \<noteq> VNone then ret v
             else case resolved of
               Some r \<Rightarrow> andthen (execute_command w r ctx) (\<lambda>v. ret (or_empty v))
             | None \<Rightarrow>
                 if is_unknown_command w ctx resolved
                 then andthen (lift_error (first_word (mc_clean ctx))) (\<lambda>word.
                        ret (text_reply (unknown_command_text word @ help_hint)))
                 else smalltalk_unless_muted w ctx))"

text \<open>
  From the parsed context on. The later lookups of the session in the source are never reached with a
  session that was not looked up here: they need a message that is not only the name of the bot.
\<close>

definition process_context :: "world \<Rightarrow> message_context \<Rightarrow> pyval disp" where
  "process_context w ctx0 =
     (let ctx = (if looks_up_session w ctx0 then ctx0\<lparr>mc_session := w_peek w\<rparr> else ctx0);
          should = (mc_private ctx \<or> \<not> dc_require_name (w_config w) \<or> mc_prefix ctx \<or> mc_session ctx \<noteq> None)
      in if mc_empty ctx \<and> mc_session ctx = None then ret (VList [])
         else andthen (if should \<and> \<not> mc_url_only ctx \<and> \<not> mc_only_name ctx then resolve_text (mc_clean ctx) else ret None)
           (\<lambda>resolved.
            andthen (if observation_skip_reason ctx resolved = None then observe_message w ctx else ret ()) (\<lambda>_.
            if \<not> should \<and> mc_url_only ctx then ret (VList [])
            else if \<not> should \<and> allow_plain_smalltalk w ctx then smalltalk_unless_muted w ctx
            else if \<not> should then ret (VList [])
            else answer_message w ctx resolved)))"

text \<open>
  The entry: \<open>validate\<close> is the schema of an event, which a validated event skips; the semaphore in front of
  the flow is the component of its own.
\<close>

definition handle_event ::
  "(pydict \<Rightarrow> pydict option) \<Rightarrow> (uchar \<Rightarrow> uchar \<Rightarrow> bool) \<Rightarrow> prefix_cache \<Rightarrow> world \<Rightarrow> pydict \<Rightarrow> pyval disp" where
  "handle_event validate ieq pc w event st =
     (if dget_default event (U ''post_type'') VNone \<noteq> VStr (U ''message'') then (Inr (VList []), st)
      else case validate event of
        None \<Rightarrow> (Inr (VList []), st)
      | Some ev \<Rightarrow>
          andthen (lift_error (parse_event (w_other w) (w_lower w) ieq pc True ev)) (\<lambda>c. case c of
              None \<Rightarrow> ret (VList [])
            | Some ctx \<Rightarrow> process_context w ctx)
          (st\<lparr>ds_mutes := prune_mutes (w_now w) (ds_mutes st)\<rparr>))"

section \<open>Commands on behalf of a user\<close>

text \<open>\<^verbatim>\<open>[CQ:at,qq=...]\<close> with one to twenty digits or \<^verbatim>\<open>all\<close> at the start of a text: the number and the rest.\<close>

definition cq_head :: ustr where
  "cq_head = U ''[CQ:at,qq=''"

definition match_cq_at :: "ustr \<Rightarrow> (ustr \<times> ustr) option" where
  "match_cq_at s =
     (if \<not> startswith s cq_head then None
      else let r = drop (length cq_head) s; ds = takeWhile (\<lambda>c. digit_value c \<noteq> None) r; r' = drop (length ds) r in
        if ds \<noteq> [] \<and> length ds \<le> 20 \<and> (case r' of c # _ \<Rightarrow> c = 93 | [] \<Rightarrow> False) then Some (ds, drop 1 r')
        else if startswith r (U ''all]'') then Some (U ''all'', drop 4 r)
        else None)"

lemma match_cq_at_shorter: "match_cq_at s = Some (qq, r) \<Longrightarrow> length r < length s"
  by (auto simp: match_cq_at_def cq_head_def startswith_iff Let_def split: if_splits list.splits)

function find_cq_at :: "ustr \<Rightarrow> ustr list" where
  "find_cq_at s = (case match_cq_at s of
      Some (qq, r) \<Rightarrow> qq # find_cq_at r
    | None \<Rightarrow> (case s of [] \<Rightarrow> [] | _ # r \<Rightarrow> find_cq_at r))"
  by pat_completeness auto
termination by (relation "measure length") (auto dest: match_cq_at_shorter)

function sub_cq_at :: "ustr \<Rightarrow> ustr" where
  "sub_cq_at s = (case match_cq_at s of
      Some (_, r) \<Rightarrow> 32 # sub_cq_at r
    | None \<Rightarrow> (case s of [] \<Rightarrow> [] | c # r \<Rightarrow> c # sub_cq_at r))"
  by pat_completeness auto
termination by (relation "measure length") (auto dest: match_cq_at_shorter)

declare find_cq_at.simps [simp del] sub_cq_at.simps [simp del]

definition split_cq_mentions :: "ustr \<Rightarrow> ustr \<times> pyval list" where
  "split_cq_mentions txt =
     (let mentions = map (\<lambda>qq. VDict [(kType, VStr (U ''at'')), (kData, VDict [(U ''qq'', VStr qq)])]) (find_cq_at txt)
      in if mentions = [] then (txt, []) else (ujoin (U '' '') (usplit (sub_cq_at txt)), mentions))"

text \<open>The command prefix of a text: what is left, and the prefix that counts as used.\<close>

definition strip_used_prefix :: "ustr list \<Rightarrow> ustr \<Rightarrow> ustr \<times> ustr" where
  "strip_used_prefix prefixes txt = (case find (\<lambda>p. p \<noteq> [] \<and> startswith txt p) prefixes of
      Some p \<Rightarrow> (lstrip (drop (length p) txt), p)
    | None \<Rightarrow> (txt, case find (\<lambda>p. p \<noteq> []) prefixes of Some p \<Rightarrow> p | None \<Rightarrow> U ''/''))"

text \<open>
  Who runs a command for whom. \<open>ru_opened\<close> is the session the command opened in its own session space,
  \<open>ru_hook\<close> whether the plugin that opened it is loaded with a hook to close it and its gate admits the
  call; \<open>ru_id\<close> is the request the command runs under.
\<close>

record runner =
  ru_user :: int
  ru_group :: "int option"
  ru_excluded :: "ustr list"
  ru_caller :: ustr
  ru_role :: ustr
  ru_name :: ustr
  ru_opened :: "session option"
  ru_admitted :: bool

definition runner_event :: "runner \<Rightarrow> ustr \<Rightarrow> pyval list \<Rightarrow> pydict" where
  "runner_event ru raw mentions =
     (let private = (ru_group ru = None);
          sender = [(U ''user_id'', VInt (ru_user ru))]
            @ (if ru_name ru \<noteq> [] then [(U ''nickname'', VStr (ru_name ru))] else [])
            @ (if \<not> private \<and> ru_role ru \<in> {U ''owner'', U ''admin'', U ''member''}
               then [(U ''role'', VStr (ru_role ru))] else [])
      in [(U ''post_type'', VStr (U ''message'')),
          (U ''message_type'', VStr (if private then U ''private'' else U ''group'')),
          (U ''user_id'', VInt (ru_user ru)), (kMessage, VList (text_segment raw # mentions)),
          (kRaw, VStr raw), (U ''sender'', VDict sender),
          (U ''_command_runner'', VStr (if ru_caller ru \<noteq> [] then ru_caller ru else U ''core''))]
         @ (case ru_group ru of Some g \<Rightarrow> [(U ''group_id'', VInt g)] | None \<Rightarrow> []))"

definition runner_context :: "runner \<Rightarrow> ustr \<Rightarrow> ustr \<Rightarrow> pyval list \<Rightarrow> message_context" where
  "runner_context ru raw clean mentions =
     \<lparr>mc_text = raw, mc_clean = clean, mc_user = Some (ru_user ru), mc_group = ru_group ru,
      mc_private = (ru_group ru = None), mc_bot_name = False, mc_prefix = True, mc_command_prefix = True,
      mc_only_name = False, mc_at_me = False, mc_url_only = False, mc_event = runner_event ru raw mentions,
      mc_empty = False, mc_session = None\<rparr>"

definition runner_note :: pyval where
  "runner_note = text_segment [65288, 36825, 26465, 21629, 20196, 20572, 22312, 20102, 31561, 24453, 22238, 22797, 30340, 20132,
    20114, 27493, 39588, 65292, 25805, 20316, 27809, 26377, 23436, 25104, 65292, 20250, 35805, 24050,
    32467, 26463, 12290, 35831, 25913, 29992, 19968, 27425, 24615, 20889, 27861, 65292, 27604, 22914,
    34917, 20840, 21442, 25968, 25110, 20351, 29992, 36339, 36807, 30830, 35748, 30340, 36873, 39033,
    65307, 38656, 35201, 21457, 36215, 20154, 20915, 23450, 30340, 65292, 20808, 25226, 24773, 20917,
    21578, 35785, 21457, 36215, 20154, 12290, 65289]"

definition close_runner_session :: "world \<Rightarrow> runner \<Rightarrow> session \<Rightarrow> message_context \<Rightarrow> unit disp" where
  "close_runner_session w ru opened ctx =
     (let plugin = plugin_name opened in
      if \<not> w_has w plugin (U ''close_session'') then perform (DropSession plugin)
      else andthen (principal_for_event w ctx) (\<lambda>_.
           andthen (if ru_admitted ru then perform (CloseSession plugin) else ret ()) (\<lambda>_.
             perform (DropSession plugin))))"

text \<open>The reply, and whether the command stopped in an interactive step.\<close>

definition run_command_text :: "world \<Rightarrow> runner \<Rightarrow> ustr \<Rightarrow> (pyval \<times> bool) disp" where
  "run_command_text w ru command =
     (case strip_used_prefix (if dc_prefixes (w_config w) = [] then [U ''/''] else dc_prefixes (w_config w))
             (strip command) of (stripped, used) \<Rightarrow>
      case split_cq_mentions stripped of (txt, mentions) \<Rightarrow>
      if txt = [] then ret (text_reply [21629, 20196, 20026, 31354], False)
      else andthen (resolve_text txt) (\<lambda>resolved. case resolved of
          None \<Rightarrow> andthen (lift_error (first_word txt)) (\<lambda>word. ret (text_reply (unknown_command_text word), False))
        | Some (spec, args) \<Rightarrow>
            if c_plugin spec \<in> set (ru_excluded ru)
            then ret (text_reply ([19981, 33021, 20174, 36825, 37324, 35843, 29992, 32, 47] @ c_name spec), False)
            else let ctx = runner_context ru (used @ txt) txt mentions in
              andthen (execute_command w (spec, args) ctx) (\<lambda>v.
                case ru_opened ru of
                  None \<Rightarrow> ret (or_empty v, False)
                | Some opened \<Rightarrow>
                    andthen (close_runner_session w ru opened ctx) (\<lambda>_.
                      ret (VList (case or_empty v of VList xs \<Rightarrow> xs @ [runner_note] | _ \<Rightarrow> [runner_note]), True)))))"

end
