(* ===== verification/Dispatcher_Flow.thy ===== *)
theory Dispatcher_Flow
  imports Dispatcher
begin

text \<open>
  What the dispatcher can set in motion: the mute table is exact, and the trace of calls of one event is
  confined by the gate of the group, the mute, the privacy of structured input and the permissions.
  Each part of the flow has one lemma that bounds its acts; the properties are read off their sums.
\<close>


section \<open>The mute table\<close>

lemma dget_fold_ddel: "dget (fold ddel ks d) k = (if k \<in> set ks then None else dget d k)"
  by (induction ks arbitrary: d) auto

lemma dict_ok_fold_ddel: "dict_ok d \<Longrightarrow> dict_ok (fold ddel ks d)"
  by (induction ks arbitrary: d) (auto intro: distinct_delete)

lemma prune_dget:
  assumes "dict_ok ms"
  shows "dget (prune_mutes now ms) g = (case dget ms g of Some t \<Rightarrow> if now \<ge> t then None else Some t | None \<Rightarrow> None)"
proof (cases "dget ms g")
  case (Some t)
  have "g \<in> fst ` set (filter (\<lambda>(g, unmute). now \<ge> unmute) ms) \<longleftrightarrow> now \<ge> t"
  proof
    assume "g \<in> fst ` set (filter (\<lambda>(g, unmute). now \<ge> unmute) ms)"
    then obtain u where "(g, u) \<in> set ms" "now \<ge> u" by auto
    then show "now \<ge> t" using Some map_of_is_SomeI [OF assms, of g u] by simp
  next
    assume "now \<ge> t"
    then show "g \<in> fst ` set (filter (\<lambda>(g, unmute). now \<ge> unmute) ms)"
      using map_of_SomeD [OF Some] by (intro image_eqI [of _ _ "(g, t)"]) auto
  qed
  then show ?thesis using Some by (simp add: prune_mutes_def dget_fold_ddel)
qed (simp add: prune_mutes_def dget_fold_ddel)

lemma prune_ok: "dict_ok ms \<Longrightarrow> dict_ok (prune_mutes now ms)"
  by (simp add: prune_mutes_def dict_ok_fold_ddel)




section \<open>What an event can set in motion\<close>

text \<open>
  \<open>runs ids now g b A m\<close>: from a state with these administrators, in which the group \<open>g\<close> is muted or not, the
  part \<open>m\<close> of the flow adds only acts of \<open>A\<close> to the trace and keeps administrators and mute.
\<close>

definition steady :: "int list \<Rightarrow> real \<Rightarrow> int option \<Rightarrow> bool \<Rightarrow> dstate \<Rightarrow> bool" where
  "steady ids now g b st \<longleftrightarrow> admin_ids (ds_identity st) = ids \<and> dict_ok (ds_mutes st)
     \<and> fst (is_muted now g (ds_mutes st)) = b"

definition runs :: "(dstate \<Rightarrow> bool) \<Rightarrow> act set \<Rightarrow> 'a disp \<Rightarrow> bool" where
  "runs I A m \<longleftrightarrow> (\<forall>st. I st \<longrightarrow> I (snd (m st)) \<and> (\<exists>as. ds_trace (snd (m st)) = ds_trace st @ as \<and> set as \<subseteq> A))"

named_theorems run_rules \<open>parts of the flow and the acts they may perform\<close>

lemma runsD: "runs I A m \<Longrightarrow> I st \<Longrightarrow> m st = (r, st') \<Longrightarrow> I st' \<and> (\<exists>as. ds_trace st' = ds_trace st @ as \<and> set as \<subseteq> A)"
  unfolding runs_def by force

lemma runs_mono: "runs I A m \<Longrightarrow> A \<subseteq> B \<Longrightarrow> runs I B m"
  unfolding runs_def by blast

lemma runs_ret [run_rules]: "runs I A (ret x)"
  by (simp add: runs_def ret_def)

lemma runs_raise [run_rules]: "runs I A (raise e)"
  by (simp add: runs_def raise_def)

lemma runs_andthen [run_rules]:
  assumes "runs I A m" "\<And>x. runs I A (f x)"
  shows "runs I A (andthen m f)"
  unfolding runs_def
proof (intro allI impI)
  fix st assume i: "I st"
  obtain r st1 where m: "m st = (r, st1)" by (cases "m st") auto
  obtain as where a: "I st1" "ds_trace st1 = ds_trace st @ as" "set as \<subseteq> A" using runsD [OF assms(1) i m] by blast
  show "I (snd (andthen m f st)) \<and> (\<exists>as. ds_trace (snd (andthen m f st)) = ds_trace st @ as \<and> set as \<subseteq> A)"
  proof (cases r)
    case (Inl e)
    then show ?thesis using m a by (auto simp: andthen_def)
  next
    case (Inr x)
    obtain r2 st2 where f: "f x st1 = (r2, st2)" by (cases "f x st1") auto
    obtain bs where "I st2" "ds_trace st2 = ds_trace st1 @ bs" "set bs \<subseteq> A" using runsD [OF assms(2) a(1) f] by blast
    then show ?thesis using m a f Inr by (auto simp: andthen_def)
  qed
qed

lemma runs_perform [run_rules]: "(\<And>st a. I st \<Longrightarrow> I (st\<lparr>ds_trace := ds_trace st @ [a]\<rparr>)) \<Longrightarrow> a \<in> A \<Longrightarrow> runs I A (perform a)"
  by (simp add: runs_def perform_def)

lemma runs_if [run_rules]: "(c \<Longrightarrow> runs I A m) \<Longrightarrow> (\<not> c \<Longrightarrow> runs I A n) \<Longrightarrow> runs I A (if c then m else n)"
  by simp

lemma steady_trace: "steady ids now g b st \<Longrightarrow> steady ids now g b (st\<lparr>ds_trace := t\<rparr>)"
  by (simp add: steady_def)

lemma runs_resolve [run_rules]: "runs (steady ids now g b) A (resolve_text txt)"
  by (auto simp: runs_def resolve_text_def steady_def split: prod.split)

lemma muted_again:
  assumes "dict_ok ms"
  shows "fst (is_muted now g (snd (is_muted now g' ms))) = fst (is_muted now g ms)" "dict_ok (snd (is_muted now g ms))"
proof -
  have "dget (prune_mutes now (prune_mutes now ms)) i = dget (prune_mutes now ms) i" for i
    unfolding prune_dget [OF prune_ok [OF assms]] prune_dget [OF assms] by (cases "dget ms i") simp_all
  then show "fst (is_muted now g (snd (is_muted now g' ms))) = fst (is_muted now g ms)"
    by (simp add: is_muted_def Let_def split: option.split)
  show "dict_ok (snd (is_muted now g ms))"
    using assms prune_ok [OF assms] by (simp add: is_muted_def Let_def split: option.split)
qed

lemma muted_steady:
  assumes "steady ids (w_now w) (mc_group ctx) b st"
  shows "\<exists>st'. muted w ctx st = (Inr b, st') \<and> steady ids (w_now w) (mc_group ctx) b st' \<and> ds_trace st' = ds_trace st"
  using assms muted_again [where ms = "ds_mutes st" and now = "w_now w" and g = "mc_group ctx"]
  by (cases "is_muted (w_now w) (mc_group ctx) (ds_mutes st)") (simp add: muted_def steady_def, metis snd_conv)

lemma runs_muted [run_rules]: "runs (steady ids (w_now w) (mc_group ctx) b) A (muted w ctx)"
  using muted_steady unfolding runs_def by fastforce

text \<open>The principal of an event has the identity of its sender and the authority of an administrator or not.\<close>

definition event_principal :: "int list \<Rightarrow> message_context \<Rightarrow> principal \<Rightarrow> bool" where
  "event_principal ids ctx p \<longleftrightarrow> puser p = mc_user ctx \<and> pgroup p = mc_group ctx \<and> is_private p = mc_private ctx
     \<and> is_bot_admin p = (case mc_user ctx of Some n \<Rightarrow> 0 < n \<and> n \<in> set ids | None \<Rightarrow> False)"

lemma principal_event:
  assumes "principal_for_event w ctx st = (r, st')" "steady ids now g b st"
  shows "steady ids now g b st' \<and> ds_trace st' = ds_trace st \<and> (\<forall>p. r = Inr p \<longrightarrow> event_principal ids ctx p)"
proof (cases "w_issues w")
  case True
  obtain ir ident where i: "issue_user_principal (w_lower w) (w_other w) (mc_event ctx) (mc_user ctx) (mc_group ctx)
                   (mc_private ctx) (ds_identity st) = (ir, ident)" by fastforce
  have k: "admin_ids ident = admin_ids (ds_identity st)"
    using i by (auto simp: issue_user_principal_def issue_def split: sum.splits prod.splits)
  have "event_principal ids ctx p" if jp: "ir = Inr (j, p)" for j p
  proof -
    obtain role where "issue (VStr (U ''user'')) (mc_user ctx) (mc_group ctx) (is_admin (ds_identity st) (mc_user ctx))
        (mc_private ctx) role None VNone (ds_identity st) = (Inr (j, p), ident)"
      using i jp unfolding issue_user_principal_def by (cases "event_role (w_lower w) (w_other w) (mc_event ctx)
        (mc_user ctx) (mc_group ctx)") auto
    from issue_Inr [OF this] show ?thesis
      using assms(2) by (auto simp: event_principal_def steady_def is_admin_def)
  qed
  then show ?thesis
    using assms True i k by (auto simp: principal_for_event_def steady_def split: sum.splits prod.splits)
next
  case False
  have "event_principal ids ctx p" if "r = Inr p" for p
    using assms that False
    by (auto simp: principal_for_event_def bindE_eq_Inr make_principal_def check_id_Inr check_name_Inr
        event_principal_def steady_def is_admin_def opt_val_def split: option.splits if_splits)
  then show ?thesis using assms False by (auto simp: principal_for_event_def)
qed

lemma runs_principal [run_rules]: "runs (steady ids now g b) A (principal_for_event w ctx)"
  unfolding runs_def using principal_event by (metis append_Nil2 empty_set empty_subsetI prod.collapse)


subsection \<open>The acts of the parts\<close>

abbreviation flow :: "int list \<Rightarrow> world \<Rightarrow> message_context \<Rightarrow> bool \<Rightarrow> act set \<Rightarrow> 'a disp \<Rightarrow> bool" where
  "flow ids w ctx b A m \<equiv> runs (steady ids (w_now w) (mc_group ctx) b) A m"

lemma flow_provider:
  assumes "mc_group c = mc_group ctx"
  shows "flow ids w c b {CallPlugin provider meth txt} (call_provider w provider meth ctx txt)"
  unfolding runs_def
proof (intro allI impI)
  fix st assume st: "steady ids (w_now w) (mc_group c) b st"
  obtain r st1 where p: "principal_for_event w ctx st = (r, st1)" by (cases "principal_for_event w ctx st") auto
  note q = principal_event [OF p st]
  show "steady ids (w_now w) (mc_group c) b (snd (call_provider w provider meth ctx txt st)) \<and>
      (\<exists>as. ds_trace (snd (call_provider w provider meth ctx txt st)) = ds_trace st @ as \<and> set as \<subseteq> {CallPlugin provider meth txt})"
    using st p q by (auto simp: call_provider_def perform_def steady_trace split: sum.split call_end.split)
qed

lemma flow_dispatch [run_rules]:
  assumes "mc_group c = mc_group ctx"
  shows "flow ids w c b (range (\<lambda>q. CallPlugin q meth txt)) (dispatch_to_provider w meth ctx txt d)"
proof -
  have p: "flow ids w c b (range (\<lambda>q. CallPlugin q meth txt)) (call_provider w q meth ctx txt)" for q
    by (rule runs_mono [OF flow_provider [OF assms]]) auto
  show ?thesis
    unfolding dispatch_to_provider_def Let_def
    by (intro runs_andthen p) (auto split: option.split intro!: run_rules p)
qed

lemma flow_perform: "a \<in> A \<Longrightarrow> flow ids w ctx b A (perform a)"
  by (rule runs_perform) (auto simp: steady_trace)

lemma flow_url:
  "flow ids w ctx b (range (\<lambda>u. CallPlugin (U ''url_parser'') (U ''handle_url'') u)) (invoke_url_parser w ctx url)"
  unfolding invoke_url_parser_def
  by (auto split: call_end.split intro!: run_rules flow_perform simp del: U_simps)

text \<open>A command runs only for a principal that its node admits.\<close>

definition admitted :: "int list \<Rightarrow> world \<Rightarrow> message_context \<Rightarrow> cmd \<Rightarrow> ustr \<Rightarrow> principal \<Rightarrow> bool" where
  "admitted ids w ctx spec args p \<longleftrightarrow> event_principal ids ctx p
     \<and> (case c_catalog spec of
          Some rt \<Rightarrow> command_access (inv_node (resolve_invocation (w_casefold w) rt args)) p None = None
        | None \<Rightarrow> admin_only spec \<longrightarrow> (case mc_user ctx of Some n \<Rightarrow> 0 < n \<and> n \<in> set ids | None \<Rightarrow> False))"

lemma flow_handler: "RunCommand spec args p \<in> A \<Longrightarrow> flow ids w ctx b A (run_handler w spec args p)"
  unfolding run_handler_def by (auto split: call_end.split intro!: run_rules flow_perform)

lemma flow_command:
  assumes g: "mc_group c = mc_group ctx" and u: "mc_user c = mc_user ctx"
  shows "flow ids w c b {RunCommand spec args p | p. admitted ids w ctx spec args p} (execute_command w (spec, args) ctx)"
  unfolding runs_def
proof (intro allI impI)
  fix st assume st: "steady ids (w_now w) (mc_group c) b st"
  let ?A = "{RunCommand spec args p | p. admitted ids w ctx spec args p}"
  obtain r st1 where p: "principal_for_event w ctx st = (r, st1)" by (cases "principal_for_event w ctx st") auto
  note q = principal_event [OF p st]
  have h: "steady ids (w_now w) (mc_group c) b (snd (run_handler w spec args p st1)) \<and>
      (\<exists>as. ds_trace (snd (run_handler w spec args p st1)) = ds_trace st @ as \<and> set as \<subseteq> ?A)"
    if "admitted ids w ctx spec args p" for p
    using flow_handler [of spec args p ?A ids w c b] that q unfolding runs_def by auto
  have plain: "steady ids (w_now w) (mc_group c) b (snd (ret x st1)) \<and>
      (\<exists>as. ds_trace (snd (ret x st1)) = ds_trace st @ as \<and> set as \<subseteq> ?A)" for x
    using q by (simp add: ret_def)
  have adm: "is_admin (ds_identity st1) (mc_user ctx) = (case mc_user ctx of Some n \<Rightarrow> 0 < n \<and> n \<in> set ids | None \<Rightarrow> False)"
    using q by (simp add: is_admin_def steady_def split: option.split)
  show "steady ids (w_now w) (mc_group c) b (snd (execute_command w (spec, args) ctx st)) \<and>
      (\<exists>as. ds_trace (snd (execute_command w (spec, args) ctx st)) = ds_trace st @ as \<and> set as \<subseteq> ?A)"
  proof (cases r)
    case (Inl e)
    then show ?thesis using p q by (simp add: execute_command_def andthen_def)
  next
    case (Inr pr)
    have ep: "event_principal ids ctx pr" using q Inr by blast
    show ?thesis
    proof (cases "c_catalog spec")
      case None
      have e: "execute_command w (spec, args) ctx st
          = (if admin_only spec \<and> \<not> is_admin (ds_identity st1) (mc_user ctx)
             then ret (text_reply [26435, 38480, 19981, 36275]) st1 else run_handler w spec args pr st1)"
        using p Inr None by (simp add: execute_command_def andthen_def)
      show ?thesis
      proof (cases "admin_only spec \<and> \<not> is_admin (ds_identity st1) (mc_user ctx)")
        case True
        then show ?thesis unfolding e using plain by (simp only: if_True simp_thms)
      next
        case False
        then have "admitted ids w ctx spec args pr" using ep adm None by (simp add: admitted_def)
        then show ?thesis unfolding e using False h by (simp only: if_False)
      qed
    next
      case (Some rt)
      let ?node = "inv_node (resolve_invocation (w_casefold w) rt args)"
      show ?thesis
      proof (cases "command_access ?node pr None")
        case None
        then have "execute_command w (spec, args) ctx st = run_handler w spec args pr st1"
          using p Inr Some by (simp add: execute_command_def andthen_def Let_def)
        moreover have "admitted ids w ctx spec args pr" using ep Some None by (simp add: admitted_def)
        ultimately show ?thesis using h by (simp only:)
      next
        case (Some refusal)
        then have "execute_command w (spec, args) ctx st
            = ret (text_reply (refusal_text ?node refusal (mc_private ctx) (event_runner ctx))) st1"
          using p Inr \<open>c_catalog spec = Some rt\<close> by (simp add: execute_command_def andthen_def Let_def)
        then show ?thesis using plain by (simp only:)
      qed
    qed
  qed
qed

definition session_acts :: "act set" where
  "session_acts = {ContinueSession p m t | p m t. True} \<union> range CloseSession \<union> range DropSession"

lemma flow_usable [run_rules]: "flow ids w ctx b A (session_still_usable plugin p)"
  by (auto simp: runs_def session_still_usable_def steady_def Let_def split: prod.split)

lemma flow_close [run_rules]: "CloseSession plugin \<in> A \<Longrightarrow> flow ids w ctx b A (close_plugin_session w plugin)"
  unfolding close_plugin_session_def by (intro run_rules flow_perform)

lemma flow_active:
  assumes "mc_group c = mc_group ctx"
  shows "flow ids w c b session_acts (handle_active_session w a ctx plugin)"
  unfolding runs_def
proof (intro allI impI)
  fix st assume st: "steady ids (w_now w) (mc_group c) b st"
  obtain r st1 where p: "principal_for_event w ctx st = (r, st1)" by (cases "principal_for_event w ctx st") auto
  note q = principal_event [OF p st]
  define m where "m = (\<lambda>p. andthen (session_still_usable plugin p) (\<lambda>usable.
            if \<not> usable then end_session w plugin [20320, 22312, 36825, 37324, 24050, 32463, 19981, 33021, 20877, 29992, 36825, 20010, 21151, 33021,
    65292, 20250, 35805, 24050, 20851, 38381]
            else if w_lower w (strip (mc_text ctx)) \<in> set exit_commands
            then end_session w plugin [24050, 36864, 20986, 24403, 21069, 23545, 35805]
            else if w_has w plugin (U ''handle_session'')
            then andthen (perform (ContinueSession plugin (U ''handle_session'') (mc_clean ctx))) (\<lambda>_. ret (at_call a))
            else if w_has w plugin (U ''handle'')
            then andthen (perform (ContinueSession plugin (U ''handle'') (mc_clean ctx))) (\<lambda>_. ret (at_call a))
            else ret (Answers VNone)))"
  have "flow ids w c b session_acts (m p)" for p
    unfolding m_def end_session_def by (intro run_rules flow_perform) (auto simp: session_acts_def simp del: U_simps)
  then have "steady ids (w_now w) (mc_group c) b (snd (m p st1)) \<and>
      (\<exists>as. ds_trace (snd (m p st1)) = ds_trace st @ as \<and> set as \<subseteq> session_acts)" for p
    using q unfolding runs_def by metis
  moreover have "handle_active_session w a ctx plugin st = (case r of Inl e \<Rightarrow> (Inr (Fails e), st1) | Inr p \<Rightarrow> m p st1)"
    unfolding handle_active_session_def p m_def by simp
  ultimately show "steady ids (w_now w) (mc_group c) b (snd (handle_active_session w a ctx plugin st)) \<and>
      (\<exists>as. ds_trace (snd (handle_active_session w a ctx plugin st)) = ds_trace st @ as \<and> set as \<subseteq> session_acts)"
    using q by (cases r) auto
qed

lemma flow_cleanup: "flow ids w ctx b session_acts (cleanup_session w a seen)"
  unfolding cleanup_session_def failed_session_transaction_def by (intro run_rules flow_perform) (auto simp: session_acts_def)

lemma runs_call_end: "(\<And>v. runs I A (f1 v)) \<Longrightarrow> runs I A f2 \<Longrightarrow> (\<And>e. runs I A (f3 e)) \<Longrightarrow> (\<And>e. runs I A (f4 e)) \<Longrightarrow>
    runs I A (case r of Answers v \<Rightarrow> f1 v | Refuses \<Rightarrow> f2 | Fails e \<Rightarrow> f3 e | Aborts e \<Rightarrow> f4 e)"
  by (cases r) auto

lemma runs_option: "runs I A m \<Longrightarrow> (\<And>x. runs I A (f x)) \<Longrightarrow> runs I A (case r of None \<Rightarrow> m | Some x \<Rightarrow> f x)"
  by (cases r) auto

lemma flow_attempt:
  assumes "mc_group c = mc_group ctx"
  shows "flow ids w c b session_acts (session_attempt w a ctx)"
proof -
  have p: "flow ids w c b session_acts (principal_for_event w ctx)" by (rule runs_principal)
  show ?thesis
    unfolding session_attempt_def
    by (intro runs_option run_rules p runs_call_end flow_cleanup flow_active assms)
qed

lemma flow_session:
  assumes "mc_group c = mc_group ctx"
  shows "flow ids w c b session_acts (try_handle_session w ctx)"
proof -
  have "flow ids w c b session_acts (session_loop w as ctx)" for as
    by (induction as) (auto intro!: run_rules runs_option flow_attempt assms)
  then show ?thesis unfolding try_handle_session_def by (intro run_rules)
qed

subsection \<open>The acts of an answer\<close>

lemma runs_muted_then:
  assumes "flow ids w ctx b A (f b)"
  shows "flow ids w ctx b A (andthen (muted w ctx) f)"
  unfolding runs_def
proof (intro allI impI)
  fix st assume "steady ids (w_now w) (mc_group ctx) b st"
  then obtain st1 where "muted w ctx st = (Inr b, st1)" "steady ids (w_now w) (mc_group ctx) b st1"
    "ds_trace st1 = ds_trace st"
    using muted_steady by blast
  then show "steady ids (w_now w) (mc_group ctx) b (snd (andthen (muted w ctx) f st)) \<and>
      (\<exists>as. ds_trace (snd (andthen (muted w ctx) f st)) = ds_trace st @ as \<and> set as \<subseteq> A)"
    using assms unfolding runs_def by (auto simp: andthen_def)
qed

abbreviation provider_acts :: "ustr \<Rightarrow> ustr \<Rightarrow> act set" where
  "provider_acts meth txt \<equiv> range (\<lambda>q. CallPlugin q meth txt)"

definition url_acts :: "act set" where
  "url_acts = range (\<lambda>u. CallPlugin (U ''url_parser'') (U ''handle_url'') u)"

definition smalltalk_acts :: "bool \<Rightarrow> message_context \<Rightarrow> act set" where
  "smalltalk_acts b ctx = (if b then {} else provider_acts (U ''handle_smalltalk'') (mc_clean ctx))"

lemma flow_smalltalk: "flow ids w ctx b (smalltalk_acts b ctx) (smalltalk_unless_muted w ctx)"
  unfolding smalltalk_unless_muted_def handle_smalltalk_def smalltalk_acts_def
  by (rule runs_muted_then) (auto intro!: run_rules)

lemma flow_observe: "flow ids w ctx b (provider_acts (U ''observe_message'') (mc_clean ctx)) (observe_message w ctx)"
  unfolding observe_message_def
  by (intro runs_andthen runs_ret runs_mono [OF flow_provider]) auto

definition name_acts :: "message_context \<Rightarrow> act set" where
  "name_acts ctx = provider_acts (U ''handle_smalltalk'') (mc_text ctx) \<union> provider_acts (U ''call_bot_name_only'') []"

lemma flow_name: "flow ids w ctx b (name_acts ctx) (handle_only_name w ctx)"
  unfolding handle_only_name_def name_acts_def
  by (intro runs_if runs_mono [OF flow_dispatch]) auto

definition command_acts :: "int list \<Rightarrow> world \<Rightarrow> message_context \<Rightarrow> (cmd \<times> ustr) option \<Rightarrow> act set" where
  "command_acts ids w ctx resolved =
     {RunCommand spec args p | spec args p. resolved = Some (spec, args) \<and> admitted ids w ctx spec args p}"

text \<open>What answering a message may do: one line for each of the steps B to G.\<close>

definition answer_acts :: "int list \<Rightarrow> world \<Rightarrow> message_context \<Rightarrow> bool \<Rightarrow> (cmd \<times> ustr) option \<Rightarrow> act set" where
  "answer_acts ids w ctx b resolved =
     (if mc_url_only ctx then (if b then {} else url_acts)
      else if mc_only_name ctx then name_acts ctx
      else (if mc_session ctx = None then {} else session_acts) \<union> command_acts ids w ctx resolved
        \<union> (if resolved = None then smalltalk_acts b ctx else {}))"

lemma flow_lift: "flow ids w ctx b A (lift_error r)"
  by (cases r) (simp_all add: lift_error_def run_rules)

lemma flow_answer: "flow ids w ctx b (answer_acts ids w ctx b resolved) (answer_message w ctx resolved)"
proof -
  consider (url) "mc_url_only ctx" | (name) "\<not> mc_url_only ctx" "mc_only_name ctx"
    | (other) "\<not> mc_url_only ctx" "\<not> mc_only_name ctx" by blast
  then show ?thesis
  proof cases
    case url
    have "flow ids w ctx b url_acts (invoke_url_parser w ctx u)" for u
      unfolding url_acts_def by (rule flow_url)
    then show ?thesis
      using url unfolding answer_message_def answer_acts_def Let_def
      by (simp only: if_True) (rule runs_muted_then, cases b, auto intro!: run_rules)
  next
    case name
    then show ?thesis unfolding answer_message_def answer_acts_def by (simp only: if_False if_True flow_name)
  next
    case other
    let ?A = "answer_acts ids w ctx b resolved"
    have s: "flow ids w ctx b ?A (try_handle_session w ctx)" if "mc_session ctx \<noteq> None"
      by (rule runs_mono [OF flow_session]) (use that other in \<open>auto simp: answer_acts_def\<close>)
    have c: "flow ids w ctx b ?A (execute_command w (spec, args) ctx)" if "resolved = Some (spec, args)" for spec args
      by (rule runs_mono [OF flow_command]) (use that other in \<open>auto simp: answer_acts_def command_acts_def\<close>)
    have t: "flow ids w ctx b ?A (smalltalk_unless_muted w ctx)" if "resolved = None"
      by (rule runs_mono [OF flow_smalltalk]) (use that other in \<open>auto simp: answer_acts_def\<close>)
    show ?thesis
      unfolding answer_message_def
      using other c t s
      by (cases resolved) (auto intro!: runs_andthen runs_ret flow_lift)
  qed
qed

section \<open>One event\<close>

text \<open>The context with the session of its sender, and whether the message may be processed.\<close>

definition routed :: "world \<Rightarrow> message_context \<Rightarrow> message_context" where
  "routed w ctx = (if looks_up_session w ctx then ctx\<lparr>mc_session := w_peek w\<rparr> else ctx)"

definition addressed :: "world \<Rightarrow> message_context \<Rightarrow> bool" where
  "addressed w ctx \<longleftrightarrow> mc_private ctx \<or> \<not> dc_require_name (w_config w) \<or> mc_prefix ctx \<or> mc_session ctx \<noteq> None"

definition event_acts :: "int list \<Rightarrow> world \<Rightarrow> message_context \<Rightarrow> bool \<Rightarrow> (cmd \<times> ustr) option \<Rightarrow> act set" where
  "event_acts ids w ctx b resolved =
     (if observation_skip_reason ctx resolved = None then provider_acts (U ''observe_message'') (mc_clean ctx) else {})
     \<union> (if addressed w ctx then answer_acts ids w ctx b resolved
        else if mc_url_only ctx then {}
        else if allow_plain_smalltalk w ctx then smalltalk_acts b ctx else {})"

lemma routed_simps [simp]:
  "mc_group (routed w ctx) = mc_group ctx" "mc_clean (routed w ctx) = mc_clean ctx" "mc_user (routed w ctx) = mc_user ctx"
  "mc_private (routed w ctx) = mc_private ctx" "mc_prefix (routed w ctx) = mc_prefix ctx"
  "mc_only_name (routed w ctx) = mc_only_name ctx" "mc_url_only (routed w ctx) = mc_url_only ctx"
  "mc_command_prefix (routed w ctx) = mc_command_prefix ctx" "mc_text (routed w ctx) = mc_text ctx"
  by (simp_all add: routed_def)

lemma andthen_Inr: "m st = (Inr x, st1) \<Longrightarrow> andthen m f st = f x st1"
  by (simp add: andthen_def)

text \<open>The acts of an event for the command its text resolves to, when it is one that may run.\<close>

lemma process_acts:
  assumes p: "process_context w ctx st = (r, st')" and st: "steady ids (w_now w) (mc_group ctx) b st"
  shows "\<exists>resolved as. ds_trace st' = ds_trace st @ as \<and> set as \<subseteq> event_acts ids w (routed w ctx) b resolved
    \<and> (resolved \<noteq> None \<longrightarrow> addressed w (routed w ctx) \<and> \<not> mc_url_only ctx \<and> \<not> mc_only_name ctx
        \<and> fst (resolve (mc_clean ctx) (ds_router st)) = resolved)"
proof (cases "mc_empty (routed w ctx) \<and> mc_session (routed w ctx) = None")
  case True
  then have "st' = st" using p by (simp add: process_context_def routed_def Let_def ret_def)
  then show ?thesis by (intro exI [of _ None] exI [of _ "[]"]) simp
next
  case False
  define c where "c = routed w ctx"
  define can where "can \<longleftrightarrow> addressed w c \<and> \<not> mc_url_only c \<and> \<not> mc_only_name c"
  obtain resolved st1 where res: "(if can then resolve_text (mc_clean c) else ret None) st = (Inr resolved, st1)"
    and s1: "ds_trace st1 = ds_trace st" "steady ids (w_now w) (mc_group c) b st1" "resolved \<noteq> None \<longrightarrow> can \<and> fst (resolve (mc_clean c) (ds_router st)) = resolved"
    using st by (cases can; cases "resolve (mc_clean c) (ds_router st)")
      (auto simp: resolve_text_def ret_def steady_def c_def)
  define m where "m = andthen (if observation_skip_reason c resolved = None then observe_message w c else ret ()) (\<lambda>_.
            if \<not> addressed w c \<and> mc_url_only c then ret (VList [])
            else if \<not> addressed w c \<and> allow_plain_smalltalk w c then smalltalk_unless_muted w c
            else if \<not> addressed w c then ret (VList [])
            else answer_message w c resolved)"
  have e: "\<not> (mc_empty c \<and> mc_session c = None)" using False by (simp add: c_def)
  have eq: "process_context w ctx st = m st1"
    unfolding process_context_def Let_def routed_def [symmetric] c_def [symmetric] addressed_def [symmetric] can_def
      if_not_P [OF e] m_def
    by (rule andthen_Inr) (rule res [unfolded can_def])
  have "flow ids w c b (event_acts ids w c b resolved) m"
    unfolding m_def
    by (intro runs_andthen runs_if runs_ret runs_mono [OF flow_observe] runs_mono [OF flow_answer] runs_mono [OF flow_smalltalk])
      (auto simp: event_acts_def)
  moreover have "m st1 = (r, st')" using p eq by simp
  ultimately obtain as where "ds_trace st' = ds_trace st @ as" "set as \<subseteq> event_acts ids w c b resolved"
    using runsD [of _ _ m st1 r st'] s1 by metis
  then show ?thesis using s1(3) unfolding can_def c_def by auto
qed


text \<open>The acts an event added to the trace.\<close>

definition new_acts :: "dstate \<Rightarrow> dstate \<Rightarrow> act list" where
  "new_acts st st' = drop (length (ds_trace st)) (ds_trace st')"

lemma process_new:
  assumes "process_context w ctx st = (r, st')" "dict_ok (ds_mutes st)"
  obtains resolved where
    "set (new_acts st st') \<subseteq> event_acts (admin_ids (ds_identity st)) w (routed w ctx)
       (fst (is_muted (w_now w) (mc_group ctx) (ds_mutes st))) resolved"
    "resolved \<noteq> None \<Longrightarrow> addressed w (routed w ctx) \<and> \<not> mc_url_only ctx \<and> \<not> mc_only_name ctx
        \<and> fst (resolve (mc_clean ctx) (ds_router st)) = resolved"
proof -
  have "steady (admin_ids (ds_identity st)) (w_now w) (mc_group ctx)
      (fst (is_muted (w_now w) (mc_group ctx) (ds_mutes st))) st"
    using assms(2) by (simp add: steady_def)
  from process_acts [OF assms(1) this] obtain resolved as where "ds_trace st' = ds_trace st @ as"
    "set as \<subseteq> event_acts (admin_ids (ds_identity st)) w (routed w ctx)
       (fst (is_muted (w_now w) (mc_group ctx) (ds_mutes st))) resolved"
    "resolved \<noteq> None \<longrightarrow> addressed w (routed w ctx) \<and> \<not> mc_url_only ctx \<and> \<not> mc_only_name ctx
        \<and> fst (resolve (mc_clean ctx) (ds_router st)) = resolved"
    by blast
  then show ?thesis using that [of resolved] by (simp add: new_acts_def)
qed

section \<open>Properties of the dispatcher\<close>


text \<open>
  C25. Structured input never becomes the memory of a chat: an event whose text an observer saw runs no
  command, continues no session and opens no link, and its text has no command prefix and is no link; the
  only other calls are those of small talk.
\<close>

theorem dispatcher_private_input:
  assumes "process_context w ctx st = (r, st')" "dict_ok (ds_mutes st)"
    "CallPlugin q (U ''observe_message'') t \<in> set (new_acts st st')"
  shows "t = mc_clean ctx \<and> \<not> mc_command_prefix ctx \<and> \<not> mc_url_only ctx
    \<and> list_all (\<lambda>a. \<exists>p m u. a = CallPlugin p m u
        \<and> m \<in> {U ''observe_message'', U ''handle_smalltalk'', U ''call_bot_name_only''}) (new_acts st st')"
proof -
  obtain resolved where acts: "set (new_acts st st') \<subseteq> event_acts (admin_ids (ds_identity st)) w (routed w ctx)
       (fst (is_muted (w_now w) (mc_group ctx) (ds_mutes st))) resolved"
    using process_new [OF assms(1,2)] by blast
  then have "CallPlugin q (U ''observe_message'') t \<in> event_acts (admin_ids (ds_identity st)) w (routed w ctx)
       (fst (is_muted (w_now w) (mc_group ctx) (ds_mutes st))) resolved"
    using assms(3) by blast
  then have skip: "observation_skip_reason (routed w ctx) resolved = None" "t = mc_clean ctx"
    by (auto simp: event_acts_def answer_acts_def smalltalk_acts_def url_acts_def name_acts_def session_acts_def
        command_acts_def split: if_splits)
  then have s: "\<not> mc_url_only ctx" "\<not> mc_command_prefix ctx" "resolved = None" "mc_session (routed w ctx) = None"
    by (auto simp: observation_skip_reason_def split: if_splits option.splits)
  have "\<exists>p m u. a = CallPlugin p m u \<and> m \<in> {U ''observe_message'', U ''handle_smalltalk'', U ''call_bot_name_only''}"
    if "a \<in> event_acts (admin_ids (ds_identity st)) w (routed w ctx)
       (fst (is_muted (w_now w) (mc_group ctx) (ds_mutes st))) resolved" for a
    using that s
    by (auto simp: event_acts_def answer_acts_def smalltalk_acts_def name_acts_def command_acts_def simp del: U_simps
        split: if_splits)
  then show ?thesis using s skip(2) acts by (auto simp: list_all_iff simp del: U_simps)
qed

text \<open>
  C8. No command runs without permission: the command an event runs is the one its text resolves to, for a
  principal with the identity of the sender, who counts as an administrator of the bot exactly when the
  identity service says so; the node of the catalog the arguments reach admits that principal here and now,
  and a command without a catalog that is for administrators runs for administrators only.
\<close>

theorem dispatcher_permission:
  assumes "process_context w ctx st = (r, st')" "dict_ok (ds_mutes st)"
    "RunCommand spec args p \<in> set (new_acts st st')"
  shows "fst (resolve (mc_clean ctx) (ds_router st)) = Some (spec, args)
    \<and> puser p = mc_user ctx \<and> pgroup p = mc_group ctx \<and> is_private p = mc_private ctx
    \<and> is_bot_admin p = is_admin (ds_identity st) (mc_user ctx)
    \<and> (case c_catalog spec of
          Some rt \<Rightarrow> command_access (inv_node (resolve_invocation (w_casefold w) rt args)) p None = None
        | None \<Rightarrow> admin_only spec \<longrightarrow> is_admin (ds_identity st) (mc_user ctx))"
proof -
  obtain resolved where acts: "RunCommand spec args p \<in> event_acts (admin_ids (ds_identity st)) w (routed w ctx)
       (fst (is_muted (w_now w) (mc_group ctx) (ds_mutes st))) resolved"
    and res: "resolved \<noteq> None \<Longrightarrow> fst (resolve (mc_clean ctx) (ds_router st)) = resolved"
    using process_new [OF assms(1,2)] assms(3) by blast
  have "resolved = Some (spec, args)" "admitted (admin_ids (ds_identity st)) w (routed w ctx) spec args p"
    using acts by (auto simp: event_acts_def answer_acts_def smalltalk_acts_def url_acts_def name_acts_def
        session_acts_def command_acts_def split: if_splits)
  then show ?thesis
    using res by (auto simp: admitted_def event_principal_def is_admin_def split: option.splits)
qed


text \<open>A chat message of a group the bot only listens to, and a command of an administrator.\<close>

definition sample_world :: world where
  "sample_world = \<lparr>w_config = \<lparr>dc_bot_name = U ''bot'', dc_prefixes = [U ''/''], dc_require_name = True,
       dc_plugins = VDict [(U ''smalltalk_provider'', VStr (U ''xiaoqing_chat''))]\<rparr>,
     w_has_sessions = False, w_peek = None, w_attempts = [], w_loaded = (\<lambda>_. True), w_has = (\<lambda>_ _. True),
     w_call = (\<lambda>_ _. Answers VNone), w_handler = (\<lambda>_ _. Answers (VList [])), w_public = (\<lambda>_. VNone),
     w_blocked_url = (\<lambda>_. False), w_choice = [], w_now = 0, w_issues = True, w_other = (\<lambda>_. []),
     w_lower = (\<lambda>s. s), w_casefold = (\<lambda>s. s), w_alpha = (\<lambda>_. True)\<rparr>"

definition sample_context :: "int option \<Rightarrow> ustr \<Rightarrow> bool \<Rightarrow> message_context" where
  "sample_context grp txt command = \<lparr>mc_text = txt, mc_clean = txt, mc_user = Some 7, mc_group = grp,
     mc_private = (grp = None), mc_bot_name = False, mc_prefix = command, mc_command_prefix = command,
     mc_only_name = False, mc_at_me = False, mc_url_only = False, mc_event = [], mc_empty = False, mc_session = None\<rparr>"

definition sample_command :: cmd where
  "sample_command = \<lparr>c_plugin = U ''p'', c_name = U ''hi'', triggers = [U ''hi''], c_help = [], admin_only = True,
     handler = 0, priority = 0, c_usage = None, c_catalog = None, gate = None\<rparr>"

definition sample_state :: dstate where
  "sample_state = \<lparr>ds_router = new_router\<lparr>commands := [sample_command]\<rparr>,
     ds_identity = \<lparr>admin_ids = [7], issued = Map.empty, next_obj = 0\<rparr>, ds_mutes = [], ds_trace = []\<rparr>"

lemma sample_runs:
  "list_ex (\<lambda>a. case a of RunCommand c t p \<Rightarrow> c_name c = U ''hi'' | _ \<Rightarrow> False)
     (new_acts sample_state (snd (process_context sample_world (sample_context None (U ''hi'') True) sample_state)))"
  by code_simp

lemma sample_listens:
  "new_acts sample_state (snd (process_context sample_world (sample_context (Some 9) (U ''hi'') False) sample_state))
     = [CallPlugin (U ''xiaoqing_chat'') (U ''observe_message'') (U ''hi''),
        CallPlugin (U ''xiaoqing_chat'') (U ''handle_smalltalk'') (U ''hi'')]"
  by code_simp


lemma sample_mutes [simp]: "dict_ok (ds_mutes sample_state)"
  by (simp add: sample_state_def)


theorem dispatcher_private_input_witness:
  "\<exists>r st'. process_context sample_world (sample_context (Some 9) (U ''hi'') False) sample_state = (r, st')
    \<and> CallPlugin (U ''xiaoqing_chat'') (U ''observe_message'') (U ''hi'') \<in> set (new_acts sample_state st')
    \<and> \<not> mc_command_prefix (sample_context (Some 9) (U ''hi'') False)"
proof -
  obtain r st' where p: "process_context sample_world (sample_context (Some 9) (U ''hi'') False) sample_state = (r, st')"
    by fastforce
  then have a: "CallPlugin (U ''xiaoqing_chat'') (U ''observe_message'') (U ''hi'') \<in> set (new_acts sample_state st')"
    using sample_listens by (simp del: U_simps)
  show ?thesis using dispatcher_private_input [OF p sample_mutes a] p a by blast
qed

theorem dispatcher_permission_witness:
  "\<exists>r st' c t p. process_context sample_world (sample_context None (U ''hi'') True) sample_state = (r, st')
    \<and> RunCommand c t p \<in> set (new_acts sample_state st') \<and> c_name c = U ''hi''
    \<and> is_bot_admin p = is_admin (ds_identity sample_state) (Some 7)"
proof -
  let ?c = "sample_context None (U ''hi'') True"
  obtain r st' where p: "process_context sample_world ?c sample_state = (r, st')" by fastforce
  then obtain x where x: "x \<in> set (new_acts sample_state st')"
    "case x of RunCommand c t p \<Rightarrow> c_name c = U ''hi'' | _ \<Rightarrow> False"
    using sample_runs by (auto simp: list_ex_iff simp del: U_simps)
  then obtain c t pr where a: "RunCommand c t pr \<in> set (new_acts sample_state st')" "c_name c = U ''hi''"
    by (cases x rule: act.exhaust) (simp_all del: U_simps)
  have "mc_user ?c = Some 7" by (simp add: sample_context_def)
  then show ?thesis using dispatcher_permission [OF p sample_mutes a(1)] p a by metis
qed

end
