(* ===== verification/Atomic_Store.thy ===== *)
theory Atomic_Store
  imports Keyed_Lock
begin

text \<open>
  Crash-safe files (\<^verbatim>\<open>core/atomic_store.py\<close>). The program runs on a file system that may answer any
  system call with an error and may lose power between any two of them; the model makes both
  explicit, so that the order of writing, flushing and renaming is what the theorems are about:
  whatever happens, a reader finds the old bytes or the new ones, and after a successful write only
  the new ones.
\<close>

section \<open>The file system\<close>

text \<open>
  One directory of a file system, as POSIX describes it. A name leads to a node that holds bytes.
  \<open>older\<close> are the versions of the directory since it was last synchronised: after a power failure
  any of them may be found. The bytes of a node that was not flushed are lost then.
\<close>

type_synonym fname = ustr
type_synonym directory = "fname \<Rightarrow> nat option"

record disk =
  names :: directory
  older :: "directory list"
  content :: "nat \<Rightarrow> bytes"
  flushed :: "nat \<Rightarrow> bool"
  next_node :: nat

definition versions :: "disk \<Rightarrow> directory set" where
  "versions d = insert (names d) (set (older d))"

text \<open>What a process reads now, what a reader may find after a power failure, and the failure itself.\<close>

definition visible :: "disk \<Rightarrow> fname \<Rightarrow> bytes option" where
  "visible d p = map_option (content d) (names d p)"

definition may_read :: "disk \<Rightarrow> fname \<Rightarrow> bytes option \<Rightarrow> bool" where
  "may_read d p c \<longleftrightarrow> (\<exists>v\<in>versions d. case v p of
      None \<Rightarrow> c = None
    | Some i \<Rightarrow> c \<noteq> None \<and> (flushed d i \<longrightarrow> c = Some (content d i)))"

definition power_failure :: "disk \<Rightarrow> disk \<Rightarrow> bool" where
  "power_failure d d' \<longleftrightarrow> names d' \<in> versions d \<and> older d' = [] \<and> next_node d' = next_node d
     \<and> (\<forall>i. flushed d i \<longrightarrow> content d' i = content d i) \<and> flushed d' = (\<lambda>_. True)"

definition disk_ok :: "disk \<Rightarrow> bool" where
  "disk_ok d \<longleftrightarrow> (\<forall>v\<in>versions d. \<forall>p i. v p = Some i \<longrightarrow> i < next_node d)"

section \<open>Programs on the file system\<close>

text \<open>
  The exceptions of the file system and of the values stored; \<open>Io_failure\<close> stands for every one the
  code does not name. The answers of the system are an argument: each call takes the next one, \<open>Done\<close>
  with what the system chose, \<open>Denied\<close>, or \<open>Fails\<close> with the bytes a failed write left. Where the
  answers end, the power fails.
\<close>

datatype ioerr =
    File_not_found
  | Permission_denied
  | Io_failure
  | Undecodable
  | Py_error pyerr

datatype reply = Done ustr | Denied | Fails bytes

datatype 'a io_outcome = Ret 'a | Raise ioerr | Crash

type_synonym 'a io = "reply list \<Rightarrow> disk \<Rightarrow> 'a io_outcome \<times> reply list \<times> disk"

definition retI :: "'a \<Rightarrow> 'a io" where
  "retI x rs d = (Ret x, rs, d)"

definition raiseI :: "ioerr \<Rightarrow> 'a io" where
  "raiseI e rs d = (Raise e, rs, d)"

definition bindI :: "'a io \<Rightarrow> ('a \<Rightarrow> 'b io) \<Rightarrow> 'b io" where
  "bindI m f rs d = (case m rs d of
      (Ret x, rs', d') \<Rightarrow> f x rs' d'
    | (Raise e, rs', d') \<Rightarrow> (Raise e, rs', d')
    | (Crash, rs', d') \<Rightarrow> (Crash, rs', d'))"

definition catchI :: "'a io \<Rightarrow> (ioerr \<Rightarrow> 'a io) \<Rightarrow> 'a io" where
  "catchI m h rs d = (case m rs d of
      (Raise e, rs', d') \<Rightarrow> h e rs' d'
    | r \<Rightarrow> r)"

text \<open>\<^verbatim>\<open>try: m finally: f\<close>.\<close>

definition finallyI :: "'a io \<Rightarrow> unit io \<Rightarrow> 'a io" where
  "finallyI m f = bindI (catchI m (\<lambda>e. bindI f (\<lambda>_. raiseI e))) (\<lambda>x. bindI f (\<lambda>_. retI x))"

text \<open>A system call: \<open>ok\<close> is its effect when it succeeds, \<open>bad\<close> what remains of it when it does not.\<close>

definition call :: "(ustr \<Rightarrow> disk \<Rightarrow> (ioerr + 'a) \<times> disk) \<Rightarrow> (bytes \<Rightarrow> disk \<Rightarrow> disk) \<Rightarrow> 'a io" where
  "call ok bad rs d = (case rs of
      [] \<Rightarrow> (Crash, [], d)
    | Done s # rs' \<Rightarrow> (case ok s d of (Inl e, d') \<Rightarrow> (Raise e, rs', d') | (Inr x, d') \<Rightarrow> (Ret x, rs', d'))
    | Denied # rs' \<Rightarrow> (Raise Permission_denied, rs', d)
    | Fails b # rs' \<Rightarrow> (Raise Io_failure, rs', bad b d))"

text \<open>Calls that change nothing the model keeps: \<^verbatim>\<open>mkdir\<close>, opening, closing, sleeping.\<close>

definition quiet_call :: "unit io" where
  "quiet_call = call (\<lambda>_ d. (Inr (), d)) (\<lambda>_ d. d)"

definition with_names :: "directory \<Rightarrow> disk \<Rightarrow> disk" where
  "with_names v d = d\<lparr>names := v, older := names d # older d\<rparr>"

text \<open>\<^verbatim>\<open>tempfile.mkstemp\<close> picks a name that is not taken, here \<open>.name.\<close> and letters of the system.\<close>

definition temp_name :: "fname \<Rightarrow> ustr \<Rightarrow> fname" where
  "temp_name p s = 46 # p @ [46] @ s"

definition mkstemp :: "fname \<Rightarrow> (nat \<times> fname) io" where
  "mkstemp p = call (\<lambda>s d. let t = temp_name p s; i = next_node d in
     if names d t \<noteq> None then (Inl Io_failure, d)
     else (Inr (i, t), with_names ((names d)(t \<mapsto> i)) (d\<lparr>content := (content d)(i := []),
             flushed := (flushed d)(i := False), next_node := Suc i\<rparr>))) (\<lambda>_ d. d)"

definition write_node :: "nat \<Rightarrow> bytes \<Rightarrow> unit io" where
  "write_node i b = call (\<lambda>_ d. (Inr (), d\<lparr>content := (content d)(i := b), flushed := (flushed d)(i := False)\<rparr>))
     (\<lambda>b' d. d\<lparr>content := (content d)(i := b'), flushed := (flushed d)(i := False)\<rparr>)"

definition fsync_node :: "nat \<Rightarrow> unit io" where
  "fsync_node i = call (\<lambda>_ d. (Inr (), d\<lparr>flushed := (flushed d)(i := True)\<rparr>)) (\<lambda>_ d. d)"

definition fsync_directory :: "unit io" where
  "fsync_directory = call (\<lambda>_ d. (Inr (), d\<lparr>older := []\<rparr>)) (\<lambda>_ d. d)"

definition rename :: "fname \<Rightarrow> fname \<Rightarrow> unit io" where
  "rename t p = call (\<lambda>_ d. case names d t of
       None \<Rightarrow> (Inl File_not_found, d)
     | Some i \<Rightarrow> (Inr (), with_names ((names d)(t := None, p \<mapsto> i)) d)) (\<lambda>_ d. d)"

definition unlink :: "fname \<Rightarrow> unit io" where
  "unlink t = call (\<lambda>_ d. case names d t of
       None \<Rightarrow> (Inl File_not_found, d)
     | Some i \<Rightarrow> (Inr (), with_names ((names d)(t := None)) d)) (\<lambda>_ d. d)"

definition read_bytes :: "fname \<Rightarrow> bytes io" where
  "read_bytes p = call (\<lambda>_ d. case visible d p of
       None \<Rightarrow> (Inl File_not_found, d)
     | Some b \<Rightarrow> (Inr b, d)) (\<lambda>_ d. d)"

section \<open>Atomic writes\<close>

definition atomic_replace_retry_delays :: "real list" where
  "atomic_replace_retry_delays = [1 / 100, 2 / 100, 4 / 100, 8 / 100]"

text \<open>The loop of \<^verbatim>\<open>atomic_write_bytes\<close> with its \<^verbatim>\<open>else\<close> branch: a denied replacement is tried again
  after a delay, the last one is not.\<close>

fun replace_retrying :: "real list \<Rightarrow> fname \<Rightarrow> fname \<Rightarrow> unit io" where
  "replace_retrying [] t p = rename t p"
| "replace_retrying (delay # delays) t p =
     catchI (rename t p) (\<lambda>e. if e = Permission_denied
       then bindI quiet_call (\<lambda>_. replace_retrying delays t p) else raiseI e)"

definition write_temp :: "nat \<Rightarrow> bytes \<Rightarrow> unit io" where
  "write_temp i payload = bindI quiet_call (\<lambda>_. finallyI
     (bindI (write_node i payload) (\<lambda>_. fsync_node i)) quiet_call)"

definition sync_parent :: "unit io" where
  "sync_parent = bindI quiet_call (\<lambda>_. finallyI fsync_directory quiet_call)"

definition unlink_temp :: "fname \<Rightarrow> unit io" where
  "unlink_temp t = catchI (unlink t) (\<lambda>e. if e = File_not_found then retI () else raiseI e)"

text \<open>\<open>posix\<close> is \<^verbatim>\<open>os.name != "nt"\<close>.\<close>

definition atomic_write_bytes :: "bool \<Rightarrow> fname \<Rightarrow> bytes \<Rightarrow> unit io" where
  "atomic_write_bytes posix p payload =
     bindI quiet_call (\<lambda>_. bindI (mkstemp p) (\<lambda>(i, t).
       catchI
         (bindI (write_temp i payload) (\<lambda>_.
          bindI (replace_retrying atomic_replace_retry_delays t p) (\<lambda>_.
          if posix then sync_parent else retI ())))
         (\<lambda>e. bindI (unlink_temp t) (\<lambda>_. raiseI e))))"

definition atomic_write_text :: "bool \<Rightarrow> fname \<Rightarrow> ustr \<Rightarrow> unit io" where
  "atomic_write_text posix p payload =
     (case utf8_encode payload of
        Inl e \<Rightarrow> raiseI (Py_error e)
      | Inr b \<Rightarrow> atomic_write_bytes posix p b)"

section \<open>The JSON store\<close>

text \<open>
  How a value is written as bytes and read back is the argument \<open>codec\<close>: \<^verbatim>\<open>_encode\<close> with what it
  raises, and \<^verbatim>\<open>_decode\<close>, where \<open>Undecodable\<close> are the \<^verbatim>\<open>UnicodeDecodeError\<close> and \<^verbatim>\<open>JSONDecodeError\<close> the
  store handles.
\<close>

record 'v codec =
  encode :: "'v \<Rightarrow> pyerr + bytes"
  decode :: "bytes \<Rightarrow> ioerr + 'v"

definition liftI :: "ioerr + 'a \<Rightarrow> 'a io" where
  "liftI m = (case m of Inl e \<Rightarrow> raiseI e | Inr x \<Rightarrow> retI x)"

definition encode_io :: "'v codec \<Rightarrow> 'v \<Rightarrow> bytes io" where
  "encode_io k v = liftI (case encode k v of Inl e \<Rightarrow> Inl (Py_error e) | Inr b \<Rightarrow> Inr b)"

definition backup_path :: "fname \<Rightarrow> fname" where
  "backup_path p = p @ U ''.bak''"

definition read_payload :: "fname \<Rightarrow> bytes option io" where
  "read_payload p = catchI (bindI (read_bytes p) (\<lambda>b. retI (Some b)))
     (\<lambda>e. if e = File_not_found then retI None else raiseI e)"

definition store_read :: "bool \<Rightarrow> 'v codec \<Rightarrow> fname \<Rightarrow> 'v \<Rightarrow> bool \<Rightarrow> 'v io" where
  "store_read posix k p dflt raise_on_error =
     bindI (read_payload p) (\<lambda>payload. case payload of
       None \<Rightarrow> retI dflt
     | Some b \<Rightarrow> (case decode k b of
           Inr v \<Rightarrow> retI v
         | Inl e \<Rightarrow>
             if e \<noteq> Undecodable then raiseI e
             else if raise_on_error then raiseI Undecodable
             else bindI
               (catchI (bindI (read_bytes (backup_path p)) (\<lambda>bb.
                        bindI (liftI (decode k bb)) (\<lambda>recovered. retI (Some (bb, recovered)))))
                 (\<lambda>e'. if e' = File_not_found \<or> e' = Undecodable then retI None else raiseI e'))
               (\<lambda>found. case found of
                   None \<Rightarrow> retI dflt
                 | Some (bb, recovered) \<Rightarrow>
                     bindI (atomic_write_bytes posix p bb) (\<lambda>_. retI recovered))))"

definition store_write :: "bool \<Rightarrow> 'v codec \<Rightarrow> fname \<Rightarrow> 'v \<Rightarrow> unit io" where
  "store_write posix k p v =
     bindI (encode_io k v) (\<lambda>payload.
     bindI (read_payload p) (\<lambda>current.
     bindI (case current of
         None \<Rightarrow> retI ()
       | Some b \<Rightarrow> (case decode k b of
             Inl e \<Rightarrow> if e = Undecodable then retI () else raiseI e
           | Inr old \<Rightarrow> atomic_write_bytes posix (backup_path p) b)) (\<lambda>_.
     atomic_write_bytes posix p payload)))"

definition store_write_with_backup :: "bool \<Rightarrow> 'v codec \<Rightarrow> fname \<Rightarrow> 'v \<Rightarrow> unit io" where
  "store_write_with_backup posix k p v =
     bindI (encode_io k v) (\<lambda>payload.
     bindI (atomic_write_bytes posix p payload) (\<lambda>_.
     atomic_write_bytes posix (backup_path p) payload))"

section \<open>Reasoning about programs that may fail or stop anywhere\<close>

text \<open>
  From \<open>P\<close>, the program returns in \<open>Q\<close>, raises in \<open>E\<close>, and wherever the power fails \<open>C\<close> holds.
\<close>

definition io_spec :: "(disk \<Rightarrow> bool) \<Rightarrow> 'a io \<Rightarrow> ('a \<Rightarrow> disk \<Rightarrow> bool) \<Rightarrow> (ioerr \<Rightarrow> disk \<Rightarrow> bool) \<Rightarrow> (disk \<Rightarrow> bool) \<Rightarrow> bool" where
  "io_spec P m Q E C \<longleftrightarrow> (\<forall>rs d. P d \<longrightarrow> (case m rs d of
      (Ret x, _, d') \<Rightarrow> Q x d'
    | (Raise e, _, d') \<Rightarrow> E e d'
    | (Crash, _, d') \<Rightarrow> C d'))"

named_theorems io_rules \<open>rules for the programs on the file system\<close>

lemma io_specI:
  assumes "\<And>rs d. P d \<Longrightarrow> (case m rs d of (Ret x, _, d') \<Rightarrow> Q x d' | (Raise e, _, d') \<Rightarrow> E e d' | (Crash, _, d') \<Rightarrow> C d')"
  shows "io_spec P m Q E C"
  using assms by (simp add: io_spec_def)

lemma io_specD:
  assumes "io_spec P m Q E C" and "P d" and "m rs d = (r, rs', d')"
  shows "(\<forall>x. r = Ret x \<longrightarrow> Q x d') \<and> (\<forall>e. r = Raise e \<longrightarrow> E e d') \<and> (r = Crash \<longrightarrow> C d')"
proof -
  have "case m rs d of (Ret x, _, d') \<Rightarrow> Q x d' | (Raise e, _, d') \<Rightarrow> E e d' | (Crash, _, d') \<Rightarrow> C d'"
    using assms(1,2) by (simp add: io_spec_def)
  then show ?thesis by (cases r) (simp_all add: assms(3))
qed

lemma io_weaken:
  assumes "io_spec P' m Q' E' C'" and "\<And>d. P d \<Longrightarrow> P' d" and "\<And>x d. Q' x d \<Longrightarrow> Q x d"
    and "\<And>e d. E' e d \<Longrightarrow> E e d" and "\<And>d. C' d \<Longrightarrow> C d"
  shows "io_spec P m Q E C"
proof (rule io_specI)
  fix rs d
  assume "P d"
  obtain r rs' d' where m: "m rs d = (r, rs', d')" by (cases "m rs d")
  show "case m rs d of (Ret x, _, d') \<Rightarrow> Q x d' | (Raise e, _, d') \<Rightarrow> E e d' | (Crash, _, d') \<Rightarrow> C d'"
    using io_specD [OF assms(1) assms(2) [OF \<open>P d\<close>] m] assms(3-5) by (cases r) (auto simp: m)
qed

lemma io_ret: "(\<And>d. P d \<Longrightarrow> Q x d) \<Longrightarrow> io_spec P (retI x) Q E C"
  by (simp add: io_spec_def retI_def)

lemma io_raise: "(\<And>d. P d \<Longrightarrow> E e d) \<Longrightarrow> io_spec P (raiseI e) Q E C"
  by (simp add: io_spec_def raiseI_def)

lemma io_bind:
  assumes "io_spec P m R E C" and "\<And>x. io_spec (R x) (f x) Q E C"
  shows "io_spec P (bindI m f) Q E C"
proof (rule io_specI)
  fix rs d
  assume "P d"
  obtain r rs' d' where m: "m rs d = (r, rs', d')" by (cases "m rs d")
  show "case bindI m f rs d of (Ret x, _, d') \<Rightarrow> Q x d' | (Raise e, _, d') \<Rightarrow> E e d' | (Crash, _, d') \<Rightarrow> C d'"
    using io_specD [OF assms(1) \<open>P d\<close> m] assms(2) by (cases r) (auto simp: bindI_def m io_spec_def)
qed

lemma io_catch:
  assumes "io_spec P m Q F C" and "\<And>e. io_spec (F e) (h e) Q E C"
  shows "io_spec P (catchI m h) Q E C"
proof (rule io_specI)
  fix rs d
  assume "P d"
  obtain r rs' d' where m: "m rs d = (r, rs', d')" by (cases "m rs d")
  show "case catchI m h rs d of (Ret x, _, d') \<Rightarrow> Q x d' | (Raise e, _, d') \<Rightarrow> E e d' | (Crash, _, d') \<Rightarrow> C d'"
    using io_specD [OF assms(1) \<open>P d\<close> m] assms(2) by (cases r) (auto simp: catchI_def m io_spec_def)
qed

lemma io_call:
  assumes "\<And>s d. P d \<Longrightarrow> (case ok s d of (Inl e, d') \<Rightarrow> E e d' | (Inr x, d') \<Rightarrow> Q x d')"
    and "\<And>b d. P d \<Longrightarrow> E Io_failure (bad b d)" and "\<And>d. P d \<Longrightarrow> E Permission_denied d" and "\<And>d. P d \<Longrightarrow> C d"
  shows "io_spec P (call ok bad) Q E C"
proof (rule io_specI)
  fix rs d
  assume P: "P d"
  show "case call ok bad rs d of (Ret x, _, d') \<Rightarrow> Q x d' | (Raise e, _, d') \<Rightarrow> E e d' | (Crash, _, d') \<Rightarrow> C d'"
  proof (cases rs)
    case (Cons r rs')
    then show ?thesis
    proof (cases r)
      case (Done s)
      then show ?thesis
        using assms(1) [OF P, of s] Cons by (auto simp: call_def split: prod.splits sum.splits)
    qed (use assms(2,3) [OF P] Cons in \<open>simp_all add: call_def\<close>)
  qed (use assms(4) [OF P] in \<open>simp add: call_def\<close>)
qed

lemma io_quiet: "(\<And>d. P d \<Longrightarrow> Q () d) \<Longrightarrow> (\<And>e d. P d \<Longrightarrow> E e d) \<Longrightarrow> (\<And>d. P d \<Longrightarrow> C d) \<Longrightarrow> io_spec P quiet_call Q E C"
  unfolding quiet_call_def by (rule io_call) auto

lemma io_exists: "(\<And>b. io_spec (P b) m Q E C) \<Longrightarrow> io_spec (\<lambda>d. \<exists>b. P b d) m Q E C"
  by (intro io_specI, elim exE) (rule io_spec_def [THEN iffD1, rule_format])

text \<open>A program none of whose parts, errors included, leaves \<open>J\<close>; its return is in \<open>Q\<close>.\<close>

lemma io_finally:
  assumes "io_spec P m (\<lambda>x. R) (\<lambda>_. J) J" and "io_spec R f (\<lambda>_. Q) (\<lambda>_. J) J" and "io_spec J f (\<lambda>_. J) (\<lambda>_. J) J"
  shows "io_spec P (finallyI m f) (\<lambda>x. Q) (\<lambda>_. J) J"
  unfolding finallyI_def
  by (rule io_bind, rule io_catch, rule assms(1), rule io_bind, rule assms(3), rule io_raise, assumption,
      rule io_bind, rule assms(2), rule io_ret)

section \<open>The states of an atomic write\<close>

lemma temp_name_neq [simp]: "temp_name p s \<noteq> p" "p \<noteq> temp_name p s"
  by (auto simp: temp_name_def dest: arg_cong [where f = length])

lemma versions_with_names [simp]: "versions (with_names v d) = insert v (versions d)"
  by (auto simp: versions_def with_names_def)

lemma with_names_simps [simp]:
  "names (with_names v d) = v" "content (with_names v d) = content d"
  "flushed (with_names v d) = flushed d" "next_node (with_names v d) = next_node d"
  by (simp_all add: with_names_def)

lemma versions_cong: "versions (d\<lparr>content := c\<rparr>) = versions d" "versions (d\<lparr>flushed := f\<rparr>) = versions d"
  "versions (d\<lparr>next_node := n\<rparr>) = versions d"
  by (simp_all add: versions_def)

lemma names_versions [simp]: "names d \<in> versions d"
  by (simp add: versions_def)

text \<open>
  What a write of \<open>payload\<close> to \<open>p\<close> may have done, however far it got: \<open>p\<close> has its old bytes or the
  new ones, no other file but a temporary one has changed.
\<close>

definition is_temp :: "fname \<Rightarrow> fname \<Rightarrow> bool" where
  "is_temp p q \<longleftrightarrow> (\<exists>s. q = temp_name p s)"

definition wrote :: "disk \<Rightarrow> fname \<Rightarrow> bytes \<Rightarrow> disk \<Rightarrow> bool" where
  "wrote d0 p payload d \<longleftrightarrow> disk_ok d
     \<and> (\<forall>c. may_read d p c \<longrightarrow> may_read d0 p c \<or> c = Some payload)
     \<and> (visible d p = visible d0 p \<or> visible d p = Some payload)
     \<and> (\<forall>q. q \<noteq> p \<and> \<not> is_temp p q \<longrightarrow> visible d q = visible d0 q \<and> (\<forall>c. may_read d q c \<longrightarrow> may_read d0 q c))"

definition published :: "bool \<Rightarrow> fname \<Rightarrow> bytes \<Rightarrow> disk \<Rightarrow> bool" where
  "published posix p payload d \<longleftrightarrow> visible d p = Some payload
     \<and> (posix \<longrightarrow> (\<forall>c. may_read d p c \<longrightarrow> c = Some payload))"

text \<open>The write with its temporary file \<open>t\<close> at the node \<open>n\<close>; \<open>b\<close> tells that it may have been published.\<close>

definition version_of :: "disk \<Rightarrow> fname \<Rightarrow> fname \<Rightarrow> nat \<Rightarrow> bool \<Rightarrow> directory \<Rightarrow> bool" where
  "version_of d0 p t n b v \<longleftrightarrow> (\<exists>w\<in>versions d0. (\<forall>q. q \<noteq> t \<longrightarrow> q \<noteq> p \<longrightarrow> v q = w q) \<and> (v p = w p \<or> b \<and> v p = Some n))"

definition names_of :: "disk \<Rightarrow> fname \<Rightarrow> fname \<Rightarrow> nat \<Rightarrow> bool \<Rightarrow> directory \<Rightarrow> bool" where
  "names_of d0 p t n b v \<longleftrightarrow> (\<forall>q. q \<noteq> t \<longrightarrow> q \<noteq> p \<longrightarrow> v q = names d0 q) \<and> (v p = names d0 p \<or> b \<and> v p = Some n)"

definition mid :: "disk \<Rightarrow> fname \<Rightarrow> fname \<Rightarrow> nat \<Rightarrow> bytes \<Rightarrow> bool \<Rightarrow> disk \<Rightarrow> bool" where
  "mid d0 p t n payload b d \<longleftrightarrow>
     next_node d = Suc n \<and> disk_ok d
     \<and> (\<forall>i<n. content d i = content d0 i \<and> flushed d i = flushed d0 i)
     \<and> (b \<longrightarrow> flushed d n \<and> content d n = payload)
     \<and> (\<forall>v\<in>versions d. version_of d0 p t n b v) \<and> names_of d0 p t n b (names d)"

lemma midD:
  assumes "mid d0 p t n payload b d"
  shows "next_node d = Suc n" "disk_ok d" "\<And>i. i < n \<Longrightarrow> content d i = content d0 i"
    "\<And>i. i < n \<Longrightarrow> flushed d i = flushed d0 i" "b \<Longrightarrow> flushed d n" "b \<Longrightarrow> content d n = payload"
    "\<And>v. v \<in> versions d \<Longrightarrow> version_of d0 p t n b v" "names_of d0 p t n b (names d)"
  using assms by (simp_all add: mid_def)

lemma version_of_names: "names_of d0 p t n b v \<Longrightarrow> version_of d0 p t n b v"
  unfolding version_of_def names_of_def using names_versions by blast

lemma version_of_mono: "version_of d0 p t n b v \<Longrightarrow> version_of d0 p t n True v"
  by (auto simp: version_of_def)

lemma version_of_old: "v \<in> versions d0 \<Longrightarrow> version_of d0 p t n b v"
  by (auto simp: version_of_def)

lemma names_of_temp: "names_of d0 p t n b v \<Longrightarrow> t \<noteq> p \<Longrightarrow> names_of d0 p t n b (v(t := x))"
  by (simp add: names_of_def)

lemma names_of_rename: "names_of d0 p t n b v \<Longrightarrow> t \<noteq> p \<Longrightarrow> names_of d0 p t n True (v(t := None, p \<mapsto> n))"
  by (simp add: names_of_def)

lemma disk_ok_versions:
  "disk_ok d \<Longrightarrow> (\<And>q i. v q = Some i \<Longrightarrow> i < next_node d) \<Longrightarrow> disk_ok (with_names v d)"
  by (auto simp: disk_ok_def)

lemma disk_ok_cong:
  "versions d' = versions d \<Longrightarrow> next_node d \<le> next_node d' \<Longrightarrow> disk_ok d \<Longrightarrow> disk_ok d'"
  by (fastforce simp: disk_ok_def)

lemma disk_ok_less: "disk_ok d \<Longrightarrow> v \<in> versions d \<Longrightarrow> v q = Some i \<Longrightarrow> i < next_node d"
  by (auto simp: disk_ok_def)

lemma mid_start:
  assumes "disk_ok d0" and "t \<noteq> p"
  shows "mid d0 p t (next_node d0) payload False (with_names ((names d0)(t \<mapsto> next_node d0))
     (d0\<lparr>content := (content d0)(next_node d0 := []), flushed := (flushed d0)(next_node d0 := False),
        next_node := Suc (next_node d0)\<rparr>))" (is "mid _ _ _ _ _ _ (with_names ?v ?d)")
proof -
  have "disk_ok ?d" by (rule disk_ok_cong [OF _ _ assms(1)]) (simp_all add: versions_cong)
  then have "disk_ok (with_names ?v ?d)"
    by (rule disk_ok_versions)
      (use disk_ok_less [OF assms(1) names_versions] in \<open>auto split: if_splits intro: less_SucI\<close>)
  moreover have "names_of d0 p t (next_node d0) False ?v"
    using assms(2) by (simp add: names_of_def)
  ultimately show ?thesis
    using version_of_names version_of_old by (simp add: mid_def versions_cong)
qed

lemma mid_node:
  assumes "mid d0 p t n payload False d"
  shows "mid d0 p t n payload False (d\<lparr>content := (content d)(n := b), flushed := (flushed d)(n := f)\<rparr>)"
    and "mid d0 p t n payload False (d\<lparr>flushed := (flushed d)(n := f)\<rparr>)"
proof -
  have "disk_ok (d\<lparr>content := (content d)(n := b), flushed := (flushed d)(n := f)\<rparr>)"
    "disk_ok (d\<lparr>flushed := (flushed d)(n := f)\<rparr>)"
    by (rule disk_ok_cong [OF _ _ midD(2) [OF assms]], simp_all add: versions_cong)+
  then show "mid d0 p t n payload False (d\<lparr>content := (content d)(n := b), flushed := (flushed d)(n := f)\<rparr>)"
    and "mid d0 p t n payload False (d\<lparr>flushed := (flushed d)(n := f)\<rparr>)"
    using assms by (simp_all add: mid_def versions_cong)
qed

lemma mid_rename:
  assumes m: "mid d0 p t n payload b d" and t: "t \<noteq> p" and r: "flushed d n" "content d n = payload"
  shows "mid d0 p t n payload True (with_names ((names d)(t := None, p \<mapsto> n)) d)"
proof -
  have "disk_ok (with_names ((names d)(t := None, p \<mapsto> n)) d)"
    by (rule disk_ok_versions [OF midD(2) [OF m]])
      (use midD(1) [OF m] disk_ok_less [OF midD(2) [OF m] names_versions] in \<open>auto split: if_splits\<close>)
  then show ?thesis
    using midD [OF m] r names_of_rename [OF midD(8) [OF m] t] version_of_names
      version_of_mono [OF midD(7) [OF m]] by (simp add: mid_def)
qed

lemma mid_unlink:
  assumes m: "mid d0 p t n payload b d" and t: "t \<noteq> p"
  shows "mid d0 p t n payload b (with_names ((names d)(t := None)) d)"
proof -
  have "disk_ok (with_names ((names d)(t := None)) d)"
    by (rule disk_ok_versions [OF midD(2) [OF m]])
      (use disk_ok_less [OF midD(2) [OF m] names_versions] in \<open>auto split: if_splits\<close>)
  then show ?thesis
    using midD [OF m] names_of_temp [OF midD(8) [OF m] t] version_of_names by (simp add: mid_def)
qed

lemma mid_sync: "mid d0 p t n payload b d \<Longrightarrow> mid d0 p t n payload b (d\<lparr>older := []\<rparr>)"
  unfolding mid_def versions_def disk_ok_def by clarsimp

lemma mid_may_read:
  assumes m: "mid d0 p t n payload b d" and ok: "disk_ok d0" "next_node d0 = n"
    and c: "may_read d q c" and q: "q \<noteq> t"
  shows "may_read d0 q c \<or> q = p \<and> c = Some payload"
proof -
  obtain v where v: "v \<in> versions d" "case v q of None \<Rightarrow> c = None
      | Some i \<Rightarrow> c \<noteq> None \<and> (flushed d i \<longrightarrow> c = Some (content d i))"
    using c by (auto simp: may_read_def)
  obtain w where w: "w \<in> versions d0" "\<forall>q. q \<noteq> t \<longrightarrow> q \<noteq> p \<longrightarrow> v q = w q" "v p = w p \<or> b \<and> v p = Some n"
    using midD(7) [OF m v(1)] unfolding version_of_def by blast
  show ?thesis
  proof (cases "v q = w q")
    case True
    have "i < n" if "w q = Some i" for i using disk_ok_less [OF ok(1) w(1) that] ok(2) by simp
    then have "case w q of None \<Rightarrow> c = None | Some i \<Rightarrow> c \<noteq> None \<and> (flushed d0 i \<longrightarrow> c = Some (content d0 i))"
      using v(2) True midD(3,4) [OF m] by (simp split: option.splits)
    then have "may_read d0 q c" using w(1) unfolding may_read_def by blast
    then show ?thesis ..
  next
    case False
    then show ?thesis using w v(2) q midD(5,6) [OF m] by (cases "q = p") auto
  qed
qed

lemma mid_visible:
  assumes m: "mid d0 p t n payload b d" and ok: "disk_ok d0" "next_node d0 = n" and q: "q \<noteq> t"
  shows "visible d q = visible d0 q \<or> q = p \<and> visible d q = Some payload"
proof (cases "names d q = names d0 q")
  case True
  have "i < n" if "names d0 q = Some i" for i using disk_ok_less [OF ok(1) names_versions that] ok(2) by simp
  then have "visible d q = visible d0 q"
    using True midD(3) [OF m] by (cases "names d0 q") (auto simp: visible_def)
  then show ?thesis ..
next
  case False
  then show ?thesis using midD(6,8) [OF m] q by (cases "q = p") (auto simp: names_of_def visible_def)
qed

lemma mid_wrote:
  assumes "mid d0 p t n payload b d" and "disk_ok d0" and "next_node d0 = n" and "is_temp p t"
  shows "wrote d0 p payload d"
proof -
  note read = mid_may_read [OF assms(1-3)] and look = mid_visible [OF assms(1-3)]
  have p: "p \<noteq> t" using assms(4) by (auto simp: is_temp_def)
  have q: "q \<noteq> t" if "\<not> is_temp p q" for q using assms(4) that by auto
  have "disk_ok d" by (rule midD(2) [OF assms(1)])
  moreover have "may_read d0 p c \<or> c = Some payload" if "may_read d p c" for c
    using read [OF that p] by simp
  moreover have "visible d p = visible d0 p \<or> visible d p = Some payload"
    using look [OF p] by simp
  moreover have "visible d q = visible d0 q" if "q \<noteq> p" "\<not> is_temp p q" for q
    using look [OF q [OF that(2)]] that(1) by simp
  moreover have "may_read d0 q c" if "q \<noteq> p" "\<not> is_temp p q" "may_read d q c" for q c
    using read [OF that(3) q [OF that(2)]] that(1) by simp
  ultimately show ?thesis unfolding wrote_def by blast
qed

lemma mid_published:
  assumes "mid d0 p t n payload True d" and "names d p = Some n" and "posix \<longrightarrow> older d = []"
  shows "published posix p payload d"
  using assms(2,3) midD(5,6) [OF assms(1)] by (auto simp: published_def visible_def may_read_def versions_def)

lemma wrote_refl: "disk_ok d \<Longrightarrow> wrote d p payload d"
  by (simp add: wrote_def)

section \<open>Atomic writes\<close>

text \<open>
  The parts of the write. \<open>W\<close> is what every error and every power failure leaves; \<open>ready\<close> is the
  state in which the bytes are in the temporary file and flushed.
\<close>

lemma write_temp_spec:
  "io_spec (\<lambda>d. mid d0 p t n payload False d \<and> names d t = Some n) (write_temp n payload)
     (\<lambda>_ d. mid d0 p t n payload False d \<and> names d t = Some n \<and> flushed d n \<and> content d n = payload)
     (\<lambda>_ d. mid d0 p t n payload False d) (\<lambda>d. mid d0 p t n payload False d)"
  unfolding write_temp_def
proof (rule io_bind [OF io_quiet], assumption)
  let ?J = "\<lambda>d. mid d0 p t n payload False d"
  let ?w = "\<lambda>d. ?J d \<and> names d t = Some n"
  let ?r = "\<lambda>d. ?J d \<and> names d t = Some n \<and> flushed d n \<and> content d n = payload"
  fix x
  have body: "io_spec ?w (bindI (write_node n payload) (\<lambda>_. fsync_node n)) (\<lambda>_. ?r) (\<lambda>_. ?J) ?J"
  proof (rule io_bind [where R = "\<lambda>_ d. ?w d \<and> content d n = payload"])
    show "io_spec ?w (write_node n payload) (\<lambda>_ d. ?w d \<and> content d n = payload) (\<lambda>_. ?J) ?J"
      unfolding write_node_def by (rule io_call) (auto intro: mid_node)
    show "io_spec (\<lambda>d. ?w d \<and> content d n = payload) (fsync_node n) (\<lambda>_. ?r) (\<lambda>_. ?J) ?J" for x
      unfolding fsync_node_def by (rule io_call) (auto intro: mid_node)
  qed
  show "io_spec ?w (finallyI (bindI (write_node n payload) (\<lambda>_. fsync_node n)) quiet_call) (\<lambda>_. ?r) (\<lambda>_. ?J) ?J"
    by (rule io_finally [OF body]; rule io_quiet) auto
qed auto

lemma rename_spec:
  assumes "t \<noteq> p"
  shows "io_spec (\<lambda>d. mid d0 p t n payload False d \<and> names d t = Some n \<and> flushed d n \<and> content d n = payload)
     (rename t p) (\<lambda>_ d. mid d0 p t n payload True d \<and> names d p = Some n)
     (\<lambda>_ d. mid d0 p t n payload False d \<and> names d t = Some n \<and> flushed d n \<and> content d n = payload)
     (\<lambda>d. mid d0 p t n payload False d)"
  unfolding rename_def by (rule io_call) (auto intro: mid_rename [OF _ assms])

lemma replace_retrying_spec:
  assumes "t \<noteq> p"
  shows "io_spec (\<lambda>d. mid d0 p t n payload False d \<and> names d t = Some n \<and> flushed d n \<and> content d n = payload)
     (replace_retrying delays t p) (\<lambda>_ d. mid d0 p t n payload True d \<and> names d p = Some n)
     (\<lambda>_ d. mid d0 p t n payload False d) (\<lambda>d. mid d0 p t n payload False d)"
proof (induction delays)
  case Nil
  show ?case unfolding replace_retrying.simps by (rule io_weaken [OF rename_spec [OF assms]]) auto
next
  case (Cons delay delays)
  show ?case
    unfolding replace_retrying.simps
  proof (rule io_catch [OF rename_spec [OF assms]])
    fix e
    show "io_spec (\<lambda>d. mid d0 p t n payload False d \<and> names d t = Some n \<and> flushed d n \<and> content d n = payload)
       (if e = Permission_denied then bindI quiet_call (\<lambda>_. replace_retrying delays t p) else raiseI e)
       (\<lambda>_ d. mid d0 p t n payload True d \<and> names d p = Some n)
       (\<lambda>_ d. mid d0 p t n payload False d) (\<lambda>d. mid d0 p t n payload False d)"
      by (cases "e = Permission_denied") (auto intro!: io_bind [OF io_quiet Cons.IH] io_raise)
  qed
qed

lemma sync_parent_spec:
  "io_spec (\<lambda>d. mid d0 p t n payload True d \<and> names d p = Some n) sync_parent
     (\<lambda>_ d. mid d0 p t n payload True d \<and> names d p = Some n \<and> older d = [])
     (\<lambda>_ d. mid d0 p t n payload True d) (\<lambda>d. mid d0 p t n payload True d)"
  unfolding sync_parent_def
proof (rule io_bind [OF io_quiet], assumption)
  let ?J = "\<lambda>d. mid d0 p t n payload True d"
  let ?w = "\<lambda>d. ?J d \<and> names d p = Some n"
  have sync: "io_spec ?w fsync_directory (\<lambda>_ d. ?w d \<and> older d = []) (\<lambda>_. ?J) ?J"
    unfolding fsync_directory_def by (rule io_call) (auto intro: mid_sync)
  have "io_spec ?w (finallyI fsync_directory quiet_call) (\<lambda>_ d. ?w d \<and> older d = []) (\<lambda>_. ?J) ?J"
    by (rule io_finally [OF sync]; rule io_quiet) auto
  then show "io_spec ?w (finallyI fsync_directory quiet_call)
      (\<lambda>_ d. ?J d \<and> names d p = Some n \<and> older d = []) (\<lambda>_. ?J) ?J" by simp
qed auto

lemma unlink_temp_spec:
  assumes "t \<noteq> p"
  shows "io_spec (\<lambda>d. mid d0 p t n payload b d) (unlink_temp t)
     (\<lambda>_ d. mid d0 p t n payload b d) (\<lambda>_ d. mid d0 p t n payload b d) (\<lambda>d. mid d0 p t n payload b d)"
  unfolding unlink_temp_def
proof (rule io_catch)
  show "io_spec (\<lambda>d. mid d0 p t n payload b d) (unlink t)
     (\<lambda>_ d. mid d0 p t n payload b d) (\<lambda>_ d. mid d0 p t n payload b d) (\<lambda>d. mid d0 p t n payload b d)"
    unfolding unlink_def by (rule io_call) (auto intro: mid_unlink [OF _ assms] split: option.splits)
qed (auto intro: io_ret io_raise)

lemma publish_spec:
  assumes "disk_ok d0" and "next_node d0 = n" and t: "t \<noteq> p" "is_temp p t"
  shows "io_spec (\<lambda>d. mid d0 p t n payload False d \<and> names d t = Some n \<and> flushed d n \<and> content d n = payload)
     (bindI (replace_retrying delays t p) (\<lambda>_. if posix then sync_parent else retI ()))
     (\<lambda>_ d. wrote d0 p payload d \<and> published posix p payload d) (\<lambda>_ d. \<exists>b. mid d0 p t n payload b d) (wrote d0 p payload)"
proof (rule io_bind [where R = "\<lambda>_ d. mid d0 p t n payload True d \<and> names d p = Some n",
      OF io_weaken [OF replace_retrying_spec [OF t(1)]]])
  note wrote = mid_wrote [OF _ assms(1,2) t(2)]
  fix x
  show "io_spec (\<lambda>d. mid d0 p t n payload True d \<and> names d p = Some n) (if posix then sync_parent else retI ())
     (\<lambda>_ d. wrote d0 p payload d \<and> published posix p payload d) (\<lambda>_ d. \<exists>b. mid d0 p t n payload b d) (wrote d0 p payload)"
  proof (cases posix)
    case True
    show ?thesis unfolding if_P [OF True] by (rule io_weaken [OF sync_parent_spec]) (auto intro: wrote mid_published)
  next
    case False
    show ?thesis unfolding if_not_P [OF False] by (rule io_ret) (auto intro: wrote mid_published simp: False)
  qed
qed (auto intro: mid_wrote [OF _ assms(1,2) t(2)])

lemma handler_spec:
  assumes "disk_ok d0" and "next_node d0 = n" and t: "t \<noteq> p" "is_temp p t"
  shows "io_spec (\<lambda>d. \<exists>b. mid d0 p t n payload b d) (bindI (unlink_temp t) (\<lambda>_. raiseI e)) Q
     (\<lambda>_. wrote d0 p payload) (wrote d0 p payload)"
proof (rule io_bind [where R = "\<lambda>_. wrote d0 p payload"])
  show "io_spec (\<lambda>d. \<exists>b. mid d0 p t n payload b d) (unlink_temp t) (\<lambda>_. wrote d0 p payload)
      (\<lambda>_. wrote d0 p payload) (wrote d0 p payload)"
  proof (rule io_exists)
    fix b
    show "io_spec (\<lambda>d. mid d0 p t n payload b d) (unlink_temp t) (\<lambda>_. wrote d0 p payload)
      (\<lambda>_. wrote d0 p payload) (wrote d0 p payload)"
      by (rule io_weaken [OF unlink_temp_spec [OF t(1)]]) (auto intro: mid_wrote [OF _ assms(1,2) t(2)])
  qed
qed (rule io_raise)

lemma atomic_write_spec:
  assumes "disk_ok d0"
  shows "io_spec (\<lambda>d. d = d0) (atomic_write_bytes posix p payload)
     (\<lambda>_ d. wrote d0 p payload d \<and> published posix p payload d)
     (\<lambda>_. wrote d0 p payload) (wrote d0 p payload)"
  unfolding atomic_write_bytes_def
proof (rule io_bind [OF io_quiet], assumption)
  let ?n = "next_node d0"
  let ?W = "wrote d0 p payload"
  let ?start = "\<lambda>(i, t) d. i = ?n \<and> mid d0 p t ?n payload False d \<and> names d t = Some ?n \<and> is_temp p t"
  let ?body = "\<lambda>(i, t). catchI (bindI (write_temp i payload) (\<lambda>_.
        bindI (replace_retrying atomic_replace_retry_delays t p) (\<lambda>_. if posix then sync_parent else retI ())))
        (\<lambda>e. bindI (unlink_temp t) (\<lambda>_. raiseI e))"
  show "io_spec (\<lambda>d. d = d0) (bindI (mkstemp p) ?body) (\<lambda>_ d. ?W d \<and> published posix p payload d) (\<lambda>_. ?W) ?W"
  proof (rule io_bind [where R = ?start])
    show "io_spec (\<lambda>d. d = d0) (mkstemp p) ?start (\<lambda>_. ?W) ?W"
      unfolding mkstemp_def
      by (rule io_call) (auto simp: Let_def is_temp_def intro!: mid_start assms wrote_refl)
    fix it :: "nat \<times> fname"
    obtain i t where it: "it = (i, t)" by (cases it)
    show "io_spec (?start it) (?body it) (\<lambda>_ d. ?W d \<and> published posix p payload d) (\<lambda>_. ?W) ?W"
    proof (cases "i = ?n \<and> is_temp p t")
      case True
      then have t: "t \<noteq> p" "is_temp p t" by (auto simp: is_temp_def)
      have "io_spec (\<lambda>d. mid d0 p t ?n payload False d \<and> names d t = Some ?n) (?body (?n, t))
          (\<lambda>_ d. ?W d \<and> published posix p payload d) (\<lambda>_. ?W) ?W"
        unfolding prod.case
        by (rule io_catch [OF io_bind [OF io_weaken [OF write_temp_spec] publish_spec [OF assms refl t]]
              handler_spec [OF assms refl t]]) (auto intro: mid_wrote [OF _ assms refl t(2)])
      then show ?thesis
        unfolding it using True by (auto elim: io_weaken)
    qed (auto simp: it io_spec_def)
  qed
qed (auto intro: wrote_refl assms)

section \<open>The store\<close>

lemma backup_names [simp]: "backup_path p \<noteq> p" "p \<noteq> backup_path p"
  by (simp_all add: backup_path_def)

lemma backup_not_temp: "\<not> is_temp p (backup_path p)" "\<not> is_temp (backup_path p) p"
proof -
  show "\<not> is_temp p (backup_path p)"
  proof
    assume "is_temp p (backup_path p)"
    then obtain s where s: "p @ U ''.bak'' = (46 # p) @ (46 # s)"
      by (auto simp: is_temp_def backup_path_def temp_name_def)
    then have "length (p @ U ''.bak'') = length ((46 # p) @ (46 # s))" by (rule arg_cong)
    then have "length s = Suc (Suc 0)" by simp
    then obtain x y where "s = [x, y]" by (auto simp: length_Suc_conv)
    then have "(p @ [46]) @ [98, 97, 107] = (46 # p) @ [46, x, y]" using s by simp
    then have "[98, 97, 107] = [46, x, y]" by (subst (asm) append_eq_append_conv) simp_all
    then show False by simp
  qed
  show "\<not> is_temp (backup_path p) p"
    by (auto simp: is_temp_def backup_path_def temp_name_def dest: arg_cong [where f = length])
qed

lemma io_lift: "io_spec P (liftI m) Q E C \<longleftrightarrow>
   (case m of Inl e \<Rightarrow> (\<forall>d. P d \<longrightarrow> E e d) | Inr x \<Rightarrow> (\<forall>d. P d \<longrightarrow> Q x d))"
  by (auto simp: io_spec_def liftI_def raiseI_def retI_def split: sum.splits)

lemma read_payload_spec:
  "io_spec (\<lambda>d. d = d0) (read_payload p) (\<lambda>x d. d = d0 \<and> x = visible d0 p) (\<lambda>_ d. d = d0) (\<lambda>d. d = d0)"
  unfolding read_payload_def
proof (rule io_catch [OF io_bind])
  show "io_spec (\<lambda>d. d = d0) (read_bytes p) (\<lambda>b d. d = d0 \<and> visible d0 p = Some b)
     (\<lambda>e d. d = d0 \<and> (e = File_not_found \<longrightarrow> visible d0 p = None)) (\<lambda>d. d = d0)"
    unfolding read_bytes_def by (rule io_call) (auto split: option.splits)
qed (auto intro!: io_ret io_raise)

lemma io_each: "(\<And>d1. P d1 \<Longrightarrow> io_spec (\<lambda>d. d = d1) m Q E C) \<Longrightarrow> io_spec P m Q E C"
  by (auto simp: io_spec_def)

text \<open>What a write of the store may have done, however far it got.\<close>

definition store_files :: "fname \<Rightarrow> fname \<Rightarrow> bool" where
  "store_files p q \<longleftrightarrow> q = p \<or> q = backup_path p \<or> is_temp p q \<or> is_temp (backup_path p) q"

definition same_files :: "fname \<Rightarrow> disk \<Rightarrow> disk \<Rightarrow> bool" where
  "same_files p d0 d \<longleftrightarrow> (\<forall>q. \<not> store_files p q \<longrightarrow> visible d q = visible d0 q \<and> (\<forall>x. may_read d q x \<longrightarrow> may_read d0 q x))"

definition saved :: "disk \<Rightarrow> 'v codec \<Rightarrow> fname \<Rightarrow> bytes \<Rightarrow> disk \<Rightarrow> bool" where
  "saved d0 k p c d \<longleftrightarrow> disk_ok d
     \<and> (\<forall>x. may_read d p x \<longrightarrow> may_read d0 p x \<or> x = Some c)
     \<and> (visible d p = visible d0 p \<or> visible d p = Some c)
     \<and> (\<forall>x. may_read d (backup_path p) x \<longrightarrow> may_read d0 (backup_path p) x
          \<or> x = visible d0 p \<and> (\<exists>b w. x = Some b \<and> decode k b = Inr w))
     \<and> same_files p d0 d"

definition backed :: "disk \<Rightarrow> 'v codec \<Rightarrow> fname \<Rightarrow> disk \<Rightarrow> bool" where
  "backed d0 k p d \<longleftrightarrow> disk_ok d
     \<and> (\<forall>x. may_read d p x \<longrightarrow> may_read d0 p x) \<and> visible d p = visible d0 p
     \<and> (\<forall>x. may_read d (backup_path p) x \<longrightarrow> may_read d0 (backup_path p) x
          \<or> x = visible d0 p \<and> (\<exists>b w. x = Some b \<and> decode k b = Inr w))
     \<and> same_files p d0 d"

lemma backed_refl: "disk_ok d \<Longrightarrow> backed d k p d"
  by (simp add: backed_def same_files_def)

lemma backed_saved: "backed d0 k p d \<Longrightarrow> saved d0 k p c d"
  by (auto simp: backed_def saved_def)

lemma wrote_backed:
  assumes "wrote d0 (backup_path p) b d" and "visible d0 p = Some b" and "decode k b = Inr w"
  shows "backed d0 k p d"
  using assms backup_not_temp(2) [of p] unfolding wrote_def backed_def same_files_def store_files_def by auto

lemma wrote_saved:
  assumes "backed d0 k p d1" and "wrote d1 p c d"
  shows "saved d0 k p c d"
proof -
  have "may_read d1 (backup_path p) x" if "may_read d (backup_path p) x" for x
    using assms(2) that backup_not_temp(1) [of p] unfolding wrote_def by auto
  moreover have "same_files p d0 d"
    using assms unfolding backed_def wrote_def same_files_def store_files_def by auto
  ultimately show ?thesis using assms unfolding backed_def saved_def wrote_def by metis
qed

lemma store_write_spec:
  assumes ok: "disk_ok d0" and enc: "encode k v = Inr c"
  shows "io_spec (\<lambda>d. d = d0) (store_write posix k p v)
     (\<lambda>_ d. saved d0 k p c d \<and> published posix p c d) (\<lambda>_. saved d0 k p c) (saved d0 k p c)"
  unfolding store_write_def
proof (rule io_bind [where R = "\<lambda>x d. d = d0 \<and> x = c"])
  let ?S = "saved d0 k p c" and ?B = "backed d0 k p"
  show "io_spec (\<lambda>d. d = d0) (encode_io k v) (\<lambda>x d. d = d0 \<and> x = c) (\<lambda>_. ?S) ?S"
    by (simp add: encode_io_def io_lift enc)
  fix payload
  have writing: "io_spec ?B (atomic_write_bytes posix p c) (\<lambda>_ d. ?S d \<and> published posix p c d) (\<lambda>_. ?S) ?S"
  proof (rule io_each)
    fix d1
    assume B: "?B d1"
    then have "disk_ok d1" by (simp add: backed_def)
    then show "io_spec (\<lambda>d. d = d1) (atomic_write_bytes posix p c)
        (\<lambda>_ d. ?S d \<and> published posix p c d) (\<lambda>_. ?S) ?S"
      by (rule io_weaken [OF atomic_write_spec]) (auto intro: wrote_saved [OF B])
  qed
  have backup: "io_spec (\<lambda>d. d = d0 \<and> current = visible d0 p)
      (case current of None \<Rightarrow> retI () | Some b \<Rightarrow> (case decode k b of
          Inl e \<Rightarrow> if e = Undecodable then retI () else raiseI e
        | Inr old \<Rightarrow> atomic_write_bytes posix (backup_path p) b))
      (\<lambda>_. ?B) (\<lambda>_. ?S) ?S" for current
  proof (cases current)
    case None
    then show ?thesis by (auto intro!: io_ret backed_refl ok)
  next
    case (Some b)
    show ?thesis
    proof (cases "decode k b")
      case (Inr w)
      show ?thesis
        unfolding Some option.case Inr sum.case
        by (rule io_each, rule io_weaken [OF atomic_write_spec [OF ok]])
          (auto dest!: sym [of "Some b"] intro: wrote_backed [OF _ _ Inr] backed_saved [OF wrote_backed [OF _ _ Inr]])
    qed (auto simp: Some intro!: io_ret io_raise backed_refl ok backed_saved)
  qed
  show "io_spec (\<lambda>d. d = d0 \<and> payload = c)
     (bindI (read_payload p) (\<lambda>current. bindI (case current of None \<Rightarrow> retI () | Some b \<Rightarrow> (case decode k b of
          Inl e \<Rightarrow> if e = Undecodable then retI () else raiseI e
        | Inr old \<Rightarrow> atomic_write_bytes posix (backup_path p) b)) (\<lambda>_. atomic_write_bytes posix p payload)))
     (\<lambda>_ d. ?S d \<and> published posix p c d) (\<lambda>_. ?S) ?S"
  proof (cases "payload = c")
    case True
    have "io_spec (\<lambda>d. d = d0) (read_payload p) (\<lambda>x d. d = d0 \<and> x = visible d0 p) (\<lambda>_. ?S) ?S"
      by (rule io_weaken [OF read_payload_spec]) (auto intro: backed_saved backed_refl ok)
    from io_bind [OF this io_bind [OF backup writing]] show ?thesis unfolding True by (rule io_weaken) auto
  qed (simp add: io_spec_def)
qed

text \<open>A reader after the write, or after a power failure that interrupted or followed it.\<close>

lemma visible_may_read: "may_read d p (visible d p)"
  unfolding may_read_def visible_def by (rule bexI [OF _ names_versions]) (auto split: option.splits)

lemma failure_may_read: "power_failure d d' \<Longrightarrow> may_read d p (visible d' p)"
  unfolding power_failure_def may_read_def visible_def
  by (auto split: option.splits)

lemma failure_ok: "power_failure d d' \<Longrightarrow> disk_ok d \<Longrightarrow> disk_ok d'"
  by (auto simp: power_failure_def disk_ok_def versions_def)

text \<open>What a stored file means, the default where it is missing.\<close>

definition stored_value :: "'v codec \<Rightarrow> 'v \<Rightarrow> bytes option \<Rightarrow> 'v option" where
  "stored_value k dflt c = (case c of
      None \<Rightarrow> Some dflt
    | Some b \<Rightarrow> (case decode k b of Inl e \<Rightarrow> None | Inr x \<Rightarrow> Some x))"

lemma store_read_value:
  assumes "stored_value k dflt (visible d p) = Some x"
  shows "store_read posix k p dflt strict (Done s # rs) d = (Ret x, rs, d)"
proof (cases "visible d p")
  case None
  then have "read_payload p (Done s # rs) d = (Ret None, rs, d)"
    by (simp add: read_payload_def catchI_def bindI_def read_bytes_def call_def retI_def)
  then show ?thesis
    using assms None by (simp add: store_read_def bindI_def retI_def stored_value_def)
next
  case (Some b)
  then have "read_payload p (Done s # rs) d = (Ret (Some b), rs, d)"
    by (simp add: read_payload_def catchI_def bindI_def read_bytes_def call_def retI_def)
  then show ?thesis
    using assms Some by (auto simp: store_read_def bindI_def retI_def stored_value_def split: sum.splits)
qed

text \<open>
  C2. The JSON store survives everything: if every state of the file that a power failure could bring
  back is whole, then after a write of \<open>v\<close> that returned, raised or was cut off at any system call, and
  after a power failure or without one, the next read returns \<open>v\<close> or a value the file could have had
  before; after a write that returned it is \<open>v\<close>.
\<close>

theorem store_crash_safe:
  assumes "disk_ok d0" and "encode k v = Inr c" and "decode k c = Inr v"
    and "\<And>x. may_read d0 p x \<Longrightarrow> stored_value k dflt x \<noteq> None"
    and "store_write posix k p v rs d0 = (r, rs', d1)"
    and "d2 = d1 \<or> power_failure d1 d2"
  shows "\<exists>x. fst (store_read posix k p dflt strict (Done s # rs2) d2) = Ret x
     \<and> (x = v \<or> (\<exists>b. may_read d0 p b \<and> stored_value k dflt b = Some x))
     \<and> (r = Ret () \<and> (posix \<or> d2 = d1) \<longrightarrow> x = v)"
proof -
  have S: "saved d0 k p c d1" and P: "r = Ret () \<longrightarrow> published posix p c d1"
    using io_specD [OF store_write_spec [OF assms(1,2)] refl assms(5)] by (cases r; auto)+
  have v: "stored_value k dflt (Some c) = Some v" by (simp add: stored_value_def assms(3))
  have "may_read d1 p (visible d2 p)" using assms(6) failure_may_read visible_may_read by blast
  then have old: "may_read d0 p (visible d2 p) \<or> visible d2 p = Some c" using S by (simp add: saved_def)
  then obtain x where x: "stored_value k dflt (visible d2 p) = Some x" using v assms(4) by fastforce
  have "x = v" if "r = Ret ()" "posix \<or> d2 = d1"
  proof -
    have "visible d2 p = Some c"
      using P that \<open>may_read d1 p (visible d2 p)\<close> by (auto simp: published_def)
    then show ?thesis using x v by simp
  qed
  moreover have "x = v \<or> (\<exists>b. may_read d0 p b \<and> stored_value k dflt b = Some x)"
    using old x v by auto
  ultimately show ?thesis by (simp add: store_read_value [OF x])
qed

section \<open>Calls that succeed\<close>

lemma call_done: "call ok bad (Done s # rs) d =
   (case ok s d of (Inl e, d') \<Rightarrow> (Raise e, rs, d') | (Inr x, d') \<Rightarrow> (Ret x, rs, d'))"
  by (simp add: call_def)

lemma bind_done: "m rs d = (Ret x, rs', d') \<Longrightarrow> bindI m f rs d = f x rs' d'"
  by (simp add: bindI_def)

lemma catch_done: "m rs d = (Ret x, rs', d') \<Longrightarrow> catchI m h rs d = (Ret x, rs', d')"
  by (simp add: catchI_def)

lemma finally_done:
  "m rs d = (Ret x, rs', d') \<Longrightarrow> f rs' d' = (Ret (), rs'', d'') \<Longrightarrow> finallyI m f rs d = (Ret x, rs'', d'')"
  by (simp add: finallyI_def bindI_def catchI_def retI_def)

lemma rename_done: "names d t = Some i \<Longrightarrow>
    rename t p (Done s # rs) d = (Ret (), rs, with_names ((names d)(t := None, p \<mapsto> i)) d)"
  by (simp add: rename_def call_done)

lemma replace_done: "names d t = Some i \<Longrightarrow>
    replace_retrying ds t p (Done s # rs) d = (Ret (), rs, with_names ((names d)(t := None, p \<mapsto> i)) d)"
  by (cases ds) (simp_all add: rename_done catch_done)

lemma atomic_write_completes:
  assumes "names d (temp_name p t) = None"
  shows "\<exists>rs' d'. atomic_write_bytes posix p c (replicate (10 + n) (Done t)) d = (Ret (), rs', d')"
proof -
  have q: "quiet_call (Done s # rs) d = (Ret (), rs, d)" for s rs d
    by (simp add: quiet_call_def call_done)
  show ?thesis
    using assms
    by (simp add: numeral_eq_Suc atomic_write_bytes_def q bind_done mkstemp_def call_done Let_def catchI_def
        write_temp_def bindI_def finallyI_def write_node_def fsync_node_def replace_done retI_def sync_parent_def
        fsync_directory_def)
qed

text \<open>
  C29. A file that can no longer be decoded: a strict read raises and changes nothing, so that it never
  falls back to older data; any other read returns the value of the backup and, when the file system
  answers, has put it in the place of the damaged file.
\<close>

theorem store_recovers:
  assumes "disk_ok d" and "visible d p = Some b" and "decode k b = Inl Undecodable"
    and "visible d (backup_path p) = Some bb" and "decode k bb = Inr x" and "names d (temp_name p t) = None"
  shows "store_read posix k p dflt True (Done s # rs) d = (Raise Undecodable, rs, d)
     \<and> (\<exists>rs' d'. store_read posix k p dflt False (replicate (12 + n) (Done t)) d = (Ret x, rs', d')
          \<and> visible d' p = Some bb \<and> (posix \<longrightarrow> (\<forall>c. may_read d' p c \<longrightarrow> c = Some bb)))"
proof
  have read: "read_bytes q (Done s # rs) d = (Ret c, rs, d)" if "visible d q = Some c" for q c s rs
    using that by (simp add: read_bytes_def call_done)
  have payload: "read_payload p (Done s # rs) d = (Ret (Some b), rs, d)" for s rs
    by (simp add: read_payload_def catchI_def bindI_def read [OF assms(2)] retI_def)
  show "store_read posix k p dflt True (Done s # rs) d = (Raise Undecodable, rs, d)"
    using assms(3) by (simp add: store_read_def bindI_def payload raiseI_def)
  obtain rs' d' where w: "atomic_write_bytes posix p bb (replicate (10 + n) (Done t)) d = (Ret (), rs', d')"
    using atomic_write_completes [OF assms(6)] by blast
  have "replicate (12 + n) (Done t) = Done t # Done t # replicate (10 + n) (Done t)"
    by (simp add: numeral_eq_Suc)
  then have "store_read posix k p dflt False (replicate (12 + n) (Done t)) d = (Ret x, rs', d')"
    using assms(3,5) w
    by (simp add: store_read_def bindI_def payload read [OF assms(4)] liftI_def catchI_def retI_def
        del: replicate.simps)
  moreover have "published posix p bb d'"
    using io_specD [OF atomic_write_spec [OF assms(1)] refl w] by simp
  ultimately show "\<exists>rs' d'. store_read posix k p dflt False (replicate (12 + n) (Done t)) d = (Ret x, rs', d')
      \<and> visible d' p = Some bb \<and> (posix \<longrightarrow> (\<forall>c. may_read d' p c \<longrightarrow> c = Some bb))"
    by (auto simp: published_def)
qed

section \<open>Concrete files\<close>

text \<open>A file \<open>a\<close> with the byte 1, its backup with the byte 2; a store of bytes that cannot read 9.\<close>

definition sample_disk :: "bytes \<Rightarrow> disk" where
  "sample_disk b = \<lparr>names = [U ''a'' \<mapsto> 0, U ''a.bak'' \<mapsto> 1], older = [], content = (\<lambda>i. if i = 0 then b else [2]),
     flushed = (\<lambda>_. True), next_node = 2\<rparr>"

definition sample_codec :: "bytes codec" where
  "sample_codec = \<lparr>encode = Inr, decode = (\<lambda>b. if b = [9] then Inl Undecodable else Inr b)\<rparr>"

lemma sample_ok: "disk_ok (sample_disk b)"
  by (auto simp: disk_ok_def sample_disk_def versions_def split: if_splits)

lemma store_crash_safe_witness:
  "fst (store_write True sample_codec (U ''a'') [3] (replicate 21 (Done (U ''x''))) (sample_disk [1])) = Ret ()
   \<and> fst (store_read True sample_codec (U ''a'') [] False [Done []]
       (snd (snd (store_write True sample_codec (U ''a'') [3] (replicate 21 (Done (U ''x''))) (sample_disk [1]))))) = Ret [3]"
proof -
  let ?w = "store_write True sample_codec (U ''a'') [3] (replicate 21 (Done (U ''x''))) (sample_disk [1])"
  have r: "fst ?w = Ret ()" by code_simp
  have whole: "stored_value sample_codec [] x \<noteq> None" if "may_read (sample_disk [1]) (U ''a'') x" for x
    using that by (auto simp: may_read_def versions_def sample_disk_def stored_value_def sample_codec_def)
  have c: "encode sample_codec [3] = Inr [3]" "decode sample_codec [3] = Inr [3]"
    by (simp_all add: sample_codec_def)
  obtain r rs' d1 where w: "?w = (r, rs', d1)" by (metis prod.collapse)
  have "\<exists>x. fst (store_read True sample_codec (U ''a'') [] False [Done []] d1) = Ret x
      \<and> (x = [3] \<or> (\<exists>b. may_read (sample_disk [1]) (U ''a'') b \<and> stored_value sample_codec [] b = Some x))
      \<and> (r = Ret () \<and> (True \<or> d1 = d1) \<longrightarrow> x = [3])"
    by (rule store_crash_safe [OF sample_ok c whole w disjI1 [OF refl]])
  moreover have "r = Ret ()" using r unfolding w by simp
  ultimately show ?thesis unfolding w by auto
qed

lemma store_recovers_witness:
  "fst (store_read True sample_codec (U ''a'') [] True [Done []] (sample_disk [9])) = Raise Undecodable
   \<and> fst (store_read True sample_codec (U ''a'') [] False (replicate 12 (Done (U ''x''))) (sample_disk [9])) = Ret [2]"
proof -
  have "visible (sample_disk [9]) (U ''a'') = Some [9]" "visible (sample_disk [9]) (backup_path (U ''a'')) = Some [2]"
    "names (sample_disk [9]) (temp_name (U ''a'') (U ''x'')) = None"
    by (simp_all add: visible_def sample_disk_def backup_path_def temp_name_def)
  note w = this
  from store_recovers [OF sample_ok w(1) _ w(2) _ w(3), where k = sample_codec and x = "[2]"
      and posix = True and dflt = "[]" and s = "[]" and rs = "[]" and n = 0]
  show ?thesis by (auto simp: sample_codec_def)
qed

section \<open>The locks of paths\<close>

text \<open>
  \<^verbatim>\<open>keyed_path_lock\<close>: an entry, known by its number, has a reentrant lock of \<^verbatim>\<open>threading\<close>, which keeps its
  owner and depth, and the count of its users; the table holds the entry of a path while it has users.
\<close>

type_synonym thread = nat

record path_locks =
  pl_table :: "(fname, nat) dict"
  pl_users :: "int list"
  pl_owner :: "nat \<Rightarrow> (thread \<times> nat) option"

definition no_path_locks :: path_locks where
  "no_path_locks = \<lparr>pl_table = [], pl_users = [], pl_owner = (\<lambda>_. None)\<rparr>"

text \<open>The part before the body, under the guard of the pool: the entry of the path, with one more user.\<close>

definition path_lock_enter :: "fname \<Rightarrow> path_locks \<Rightarrow> nat \<times> path_locks" where
  "path_lock_enter key s =
     (let (e, s1) = (case dget (pl_table s) key of
            Some e \<Rightarrow> (e, s)
          | None \<Rightarrow> (length (pl_users s), s\<lparr>pl_table := dset key (length (pl_users s)) (pl_table s),
                      pl_users := pl_users s @ [0]\<rparr>))
      in (e, s1\<lparr>pl_users := (pl_users s1)[e := pl_users s1 ! e + 1]\<rparr>))"

text \<open>The part after it.\<close>

definition path_lock_exit :: "fname \<Rightarrow> nat \<Rightarrow> path_locks \<Rightarrow> path_locks" where
  "path_lock_exit key e s =
     (let s1 = s\<lparr>pl_users := (pl_users s)[e := pl_users s ! e - 1]\<rparr>
      in if pl_users s1 ! e = 0 then s1\<lparr>pl_table := ddel key (pl_table s1)\<rparr> else s1)"

text \<open>The reentrant lock of an entry: it can be acquired when it is free or by its owner.\<close>

definition rlock_acquire :: "thread \<Rightarrow> nat \<Rightarrow> path_locks \<Rightarrow> path_locks option" where
  "rlock_acquire t e s = (case pl_owner s e of
      None \<Rightarrow> Some (s\<lparr>pl_owner := (pl_owner s)(e \<mapsto> (t, 1))\<rparr>)
    | Some (t', n) \<Rightarrow> if t' = t then Some (s\<lparr>pl_owner := (pl_owner s)(e \<mapsto> (t, n + 1))\<rparr>) else None)"

definition rlock_release :: "nat \<Rightarrow> path_locks \<Rightarrow> path_locks" where
  "rlock_release e s = (case pl_owner s e of
      None \<Rightarrow> s
    | Some (t, n) \<Rightarrow> s\<lparr>pl_owner := (pl_owner s)(e := (if n = 1 then None else Some (t, n - 1)))\<rparr>)"

text \<open>
  The uses of the context manager that are under way: the thread, the path, the entry, and where it
  is. A wait may be interrupted, and then the entry is left without the body.
\<close>

datatype lock_phase = Lock_waiting | Lock_inside | Lock_left

type_synonym lock_use = "thread \<times> fname \<times> nat \<times> lock_phase"

inductive pl_step :: "path_locks \<times> lock_use list \<Rightarrow> path_locks \<times> lock_use list \<Rightarrow> bool" where
  Enter: "path_lock_enter key s = (e, s') \<Longrightarrow> pl_step (s, us) (s', (t, key, e, Lock_waiting) # us)"
| Acquire: "rlock_acquire t e s = Some s' \<Longrightarrow>
    pl_step (s, us @ (t, key, e, Lock_waiting) # vs) (s', us @ (t, key, e, Lock_inside) # vs)"
| Release: "pl_step (s, us @ (t, key, e, Lock_inside) # vs) (rlock_release e s, us @ (t, key, e, Lock_left) # vs)"
| Exit: "ph \<noteq> Lock_inside \<Longrightarrow>
    pl_step (s, us @ (t, key, e, ph) # vs) (path_lock_exit key e s, us @ vs)"

inductive_cases pl_stepE: "pl_step s s'"

definition uses :: "nat \<Rightarrow> lock_use list \<Rightarrow> int" where
  "uses e us = int (length (filter (\<lambda>(t, key, e', ph). e' = e) us))"

definition depth :: "thread \<Rightarrow> nat \<Rightarrow> lock_use list \<Rightarrow> nat" where
  "depth t e us = length (filter (\<lambda>(t', key, e', ph). t' = t \<and> e' = e \<and> ph = Lock_inside) us)"

lemma uses_simps [simp]:
  "uses e [] = 0"
  "uses e ((t, key, e', ph) # us) = (if e' = e then 1 else 0) + uses e us"
  "uses e (us @ vs) = uses e us + uses e vs"
  by (simp_all add: uses_def)

lemma depth_simps [simp]:
  "depth t e [] = 0"
  "depth t e ((t', key, e', ph) # us) = (if t' = t \<and> e' = e \<and> ph = Lock_inside then 1 else 0) + depth t e us"
  "depth t e (us @ vs) = depth t e us + depth t e vs"
  by (simp_all add: depth_def)

lemma uses_nonneg: "0 \<le> uses e us"
  by (simp add: uses_def)

lemma uses_pos: "0 < uses e us \<longleftrightarrow> (\<exists>t key ph. (t, key, e, ph) \<in> set us)"
  by (auto simp: uses_def filter_empty_conv)

lemma depth_pos: "0 < depth t e us \<longleftrightarrow> (\<exists>key. (t, key, e, Lock_inside) \<in> set us)"
  by (auto simp: depth_def filter_empty_conv)

definition pl_inv :: "path_locks \<times> lock_use list \<Rightarrow> bool" where
  "pl_inv x \<longleftrightarrow> (case x of (s, us) \<Rightarrow>
       (\<forall>e < length (pl_users s). pl_users s ! e = uses e us)
     \<and> (\<forall>(t, key, e, ph)\<in>set us. dget (pl_table s) key = Some e \<and> e < length (pl_users s))
     \<and> (\<forall>key e. dget (pl_table s) key = Some e \<longrightarrow> (\<exists>t ph. (t, key, e, ph) \<in> set us))
     \<and> (\<forall>key key' e. dget (pl_table s) key = Some e \<longrightarrow> dget (pl_table s) key' = Some e \<longrightarrow> key' = key)
     \<and> (\<forall>e t. depth t e us = (case pl_owner s e of Some (t', n) \<Rightarrow> if t' = t then n else 0 | None \<Rightarrow> 0))
     \<and> (\<forall>e t n. pl_owner s e = Some (t, n) \<longrightarrow> 0 < n))"

definition use_inside :: "path_locks \<times> lock_use list \<Rightarrow> thread \<Rightarrow> fname \<Rightarrow> bool" where
  "use_inside x t key \<longleftrightarrow> (\<exists>e. (t, key, e, Lock_inside) \<in> set (snd x))"

lemma pl_exclusive: "pl_inv x \<Longrightarrow> use_inside x t key \<Longrightarrow> use_inside x t' key \<Longrightarrow> t' = t"
proof -
  assume inv: "pl_inv x" and "use_inside x t key" "use_inside x t' key"
  obtain s us where x: "x = (s, us)" by (cases x)
  obtain e e' where in_us: "(t, key, e, Lock_inside) \<in> set us" "(t', key, e', Lock_inside) \<in> set us"
    using \<open>use_inside x t key\<close> \<open>use_inside x t' key\<close> by (auto simp: use_inside_def x)
  have "dget (pl_table s) key = Some e" "dget (pl_table s) key = Some e'"
    using inv in_us by (auto simp: pl_inv_def x)
  then have "0 < depth t e us" "0 < depth t' e us" using in_us by (auto simp: depth_pos)
  moreover have "\<forall>t. depth t e us = (case pl_owner s e of Some (t', n) \<Rightarrow> if t' = t then n else 0 | None \<Rightarrow> 0)"
    using inv by (simp add: pl_inv_def x)
  ultimately show ?thesis by (auto split: option.splits if_splits)
qed

lemma pl_invD:
  assumes "pl_inv (s, us)"
  shows "\<And>e. e < length (pl_users s) \<Longrightarrow> pl_users s ! e = uses e us"
    "\<And>t key e ph. (t, key, e, ph) \<in> set us \<Longrightarrow> dget (pl_table s) key = Some e"
    "\<And>t key e ph. (t, key, e, ph) \<in> set us \<Longrightarrow> e < length (pl_users s)"
    "\<And>key e. dget (pl_table s) key = Some e \<Longrightarrow> \<exists>t ph. (t, key, e, ph) \<in> set us"
    "\<And>key key' e. dget (pl_table s) key = Some e \<Longrightarrow> dget (pl_table s) key' = Some e \<Longrightarrow> key' = key"
    "\<And>e t. depth t e us = (case pl_owner s e of Some (t', n) \<Rightarrow> if t' = t then n else 0 | None \<Rightarrow> 0)"
    "\<And>e t n. pl_owner s e = Some (t, n) \<Longrightarrow> 0 < n"
  using assms by (auto simp: pl_inv_def)

lemma pl_invI:
  assumes "\<And>e. e < length (pl_users s) \<Longrightarrow> pl_users s ! e = uses e us"
    "\<And>t key e ph. (t, key, e, ph) \<in> set us \<Longrightarrow> dget (pl_table s) key = Some e \<and> e < length (pl_users s)"
    "\<And>key e. dget (pl_table s) key = Some e \<Longrightarrow> \<exists>t ph. (t, key, e, ph) \<in> set us"
    "\<And>key key' e. dget (pl_table s) key = Some e \<Longrightarrow> dget (pl_table s) key' = Some e \<Longrightarrow> key' = key"
    "\<And>e t. depth t e us = (case pl_owner s e of Some (t', n) \<Rightarrow> if t' = t then n else 0 | None \<Rightarrow> 0)"
    "\<And>e t n. pl_owner s e = Some (t, n) \<Longrightarrow> 0 < n"
  shows "pl_inv (s, us)"
  using assms by (auto simp: pl_inv_def)

lemma uses_zero: "pl_inv (s, us) \<Longrightarrow> length (pl_users s) \<le> e \<Longrightarrow> uses e us = 0"
  using uses_pos [of e us] uses_nonneg [of e us] pl_invD(3) [of s us] by fastforce

lemma enter_pl_inv:
  assumes inv: "pl_inv (s, us)" and e: "path_lock_enter key s = (e, s')"
  shows "pl_inv (s', (t, key, e, Lock_waiting) # us)"
proof (cases "dget (pl_table s) key")
  case None
  then have s': "e = length (pl_users s)" "pl_table s' = dset key e (pl_table s)" "pl_users s' = pl_users s @ [1]"
      "pl_owner s' = pl_owner s"
    using e by (auto simp: path_lock_enter_def Let_def nth_append list_update_append)
  have new: "dget (pl_table s) key' \<noteq> Some e" for key'
    using pl_invD(4) [OF inv] pl_invD(3) [OF inv] s'(1) by fastforce
  show ?thesis
  proof (rule pl_invI)
    fix e' assume "e' < length (pl_users s')"
    then show "pl_users s' ! e' = uses e' ((t, key, e, Lock_waiting) # us)"
      using pl_invD(1) [OF inv, of e'] uses_zero [OF inv, of e] s' by (auto simp: nth_append less_Suc_eq)
  next
    fix t' k e' ph assume "(t', k, e', ph) \<in> set ((t, key, e, Lock_waiting) # us)"
    then show "dget (pl_table s') k = Some e' \<and> e' < length (pl_users s')"
      using pl_invD(2,3) [OF inv] s' None by (fastforce simp: less_SucI)
  next
    fix k e' assume "dget (pl_table s') k = Some e'"
    then show "\<exists>t' ph. (t', k, e', ph) \<in> set ((t, key, e, Lock_waiting) # us)"
      using pl_invD(4) [OF inv, of k e'] s' by (cases "k = key") auto
  next
    fix k k' e' assume "dget (pl_table s') k = Some e'" "dget (pl_table s') k' = Some e'"
    then show "k' = k"
      using pl_invD(5) [OF inv, of k e' k'] new s' by (auto split: if_splits)
  qed (use pl_invD(6,7) [OF inv] s' in \<open>auto simp: s'(4)\<close>)
next
  case (Some e1)
  then have s': "e1 = e" "pl_table s' = pl_table s" "pl_users s' = (pl_users s)[e := pl_users s ! e + 1]"
      "pl_owner s' = pl_owner s"
    using e by (auto simp: path_lock_enter_def Let_def)
  have e_in: "\<exists>t' ph. (t', key, e, ph) \<in> set us" using pl_invD(4) [OF inv Some] s'(1) by simp
  then have len: "e < length (pl_users s)" using pl_invD(3) [OF inv] by blast
  show ?thesis
  proof (rule pl_invI)
    fix e' assume "e' < length (pl_users s')"
    then show "pl_users s' ! e' = uses e' ((t, key, e, Lock_waiting) # us)"
      using pl_invD(1) [OF inv, of e'] s' len by (auto simp: nth_list_update)
  next
    fix t' k e' ph assume "(t', k, e', ph) \<in> set ((t, key, e, Lock_waiting) # us)"
    then show "dget (pl_table s') k = Some e' \<and> e' < length (pl_users s')"
      using pl_invD(2,3) [OF inv] s' Some len by auto
  next
    fix k e' assume "dget (pl_table s') k = Some e'"
    then show "\<exists>t' ph. (t', k, e', ph) \<in> set ((t, key, e, Lock_waiting) # us)"
      using pl_invD(4) [OF inv, of k e'] s' by auto
  qed (use pl_invD(5,6,7) [OF inv] s' in \<open>auto simp: s'(2,4)\<close>)
qed

lemma acquire_pl_inv:
  assumes inv: "pl_inv (s, us @ (t, key, e, Lock_waiting) # vs)" and a: "rlock_acquire t e s = Some s'"
  shows "pl_inv (s', us @ (t, key, e, Lock_inside) # vs)"
proof (rule pl_invI)
  have s': "pl_table s' = pl_table s" "pl_users s' = pl_users s"
    using a by (auto simp: rlock_acquire_def split: option.splits if_splits)
  show "pl_users s' ! e' = uses e' (us @ (t, key, e, Lock_inside) # vs)" if "e' < length (pl_users s')" for e'
    using pl_invD(1) [OF inv, of e'] that s' by simp
  show "dget (pl_table s') k = Some e' \<and> e' < length (pl_users s')"
    if "(t', k, e', ph) \<in> set (us @ (t, key, e, Lock_inside) # vs)" for t' k e' ph
    using pl_invD(2,3) [OF inv] that s' by fastforce
  show "\<exists>t' ph. (t', k, e', ph) \<in> set (us @ (t, key, e, Lock_inside) # vs)"
    if "dget (pl_table s') k = Some e'" for k e'
    using pl_invD(4) [OF inv, of k e'] that s' by fastforce
  show "k' = k" if "dget (pl_table s') k = Some e'" "dget (pl_table s') k' = Some e'" for k k' e'
    using pl_invD(5) [OF inv] that s' by simp
  show "depth t' e' (us @ (t, key, e, Lock_inside) # vs)
      = (case pl_owner s' e' of Some (t'', n) \<Rightarrow> if t'' = t' then n else 0 | None \<Rightarrow> 0)" for e' t'
    using pl_invD(6) [OF inv, of t' e'] a by (auto simp: rlock_acquire_def split: option.splits if_splits)
  show "0 < n" if "pl_owner s' e' = Some (t', n)" for e' t' n
    using pl_invD(7) [OF inv, of e'] a that by (auto simp: rlock_acquire_def split: option.splits if_splits)
qed

lemma release_pl_inv:
  assumes inv: "pl_inv (s, us @ (t, key, e, Lock_inside) # vs)"
  shows "pl_inv (rlock_release e s, us @ (t, key, e, Lock_left) # vs)"
proof (rule pl_invI)
  let ?s = "rlock_release e s"
  have s': "pl_table ?s = pl_table s" "pl_users ?s = pl_users s"
    by (auto simp: rlock_release_def split: option.splits)
  have "depth t e (us @ (t, key, e, Lock_inside) # vs) \<noteq> 0" by simp
  then obtain n where o: "pl_owner s e = Some (t, n)"
    using pl_invD(6) [OF inv, of t e] by (auto split: option.splits if_splits)
  show "pl_users ?s ! e' = uses e' (us @ (t, key, e, Lock_left) # vs)" if "e' < length (pl_users ?s)" for e'
    using pl_invD(1) [OF inv, of e'] that s' by simp
  show "dget (pl_table ?s) k = Some e' \<and> e' < length (pl_users ?s)"
    if "(t', k, e', ph) \<in> set (us @ (t, key, e, Lock_left) # vs)" for t' k e' ph
    using pl_invD(2,3) [OF inv] that s' by fastforce
  show "\<exists>t' ph. (t', k, e', ph) \<in> set (us @ (t, key, e, Lock_left) # vs)"
    if "dget (pl_table ?s) k = Some e'" for k e'
    using pl_invD(4) [OF inv, of k e'] that s' by fastforce
  show "k' = k" if "dget (pl_table ?s) k = Some e'" "dget (pl_table ?s) k' = Some e'" for k k' e'
    using pl_invD(5) [OF inv] that s' by simp
  show "depth t' e' (us @ (t, key, e, Lock_left) # vs)
      = (case pl_owner ?s e' of Some (t'', n) \<Rightarrow> if t'' = t' then n else 0 | None \<Rightarrow> 0)" for e' t'
    using pl_invD(6) [OF inv, of t' e'] o by (auto simp: rlock_release_def split: if_splits)
  show "0 < m" if "pl_owner ?s e' = Some (t', m)" for e' t' m
    using pl_invD(7) [OF inv, of e'] pl_invD(7) [OF inv o] o that by (auto simp: rlock_release_def split: if_splits)
qed

lemma exit_pl_inv:
  assumes inv: "pl_inv (s, us @ (t, key, e, ph) # vs)" and ph: "ph \<noteq> Lock_inside"
  shows "pl_inv (path_lock_exit key e s, us @ vs)"
proof -
  let ?s = "path_lock_exit key e s"
  have key: "dget (pl_table s) key = Some e" and len: "e < length (pl_users s)"
    by (rule pl_invD(2,3) [OF inv, of t key e ph], simp)+
  have n: "pl_users s ! e = 1 + uses e (us @ vs)" using pl_invD(1) [OF inv len] by simp
  have s': "pl_users ?s = (pl_users s)[e := uses e (us @ vs)]" "pl_owner ?s = pl_owner s"
      "pl_table ?s = (if uses e (us @ vs) = 0 then ddel key (pl_table s) else pl_table s)"
    using len n by (auto simp: path_lock_exit_def Let_def)
  have gone: "(t', k, e', ph') \<notin> set (us @ vs)" if "uses e (us @ vs) = 0" "k = key \<or> e' = e" for t' k e' ph'
    using that uses_pos [of e "us @ vs"] pl_invD(2) [OF inv, of t' k e' ph'] key by auto
  show ?thesis
  proof (rule pl_invI)
    fix e' assume "e' < length (pl_users ?s)"
    then show "pl_users ?s ! e' = uses e' (us @ vs)"
      using pl_invD(1) [OF inv, of e'] len by (auto simp: s'(1) nth_list_update)
  next
    fix t' k e' ph' assume a: "(t', k, e', ph') \<in> set (us @ vs)"
    then have "dget (pl_table s) k = Some e' \<and> e' < length (pl_users s)"
      using pl_invD(2,3) [OF inv, of t' k e' ph'] by auto
    then show "dget (pl_table ?s) k = Some e' \<and> e' < length (pl_users ?s)"
      using gone [of k e' t' ph'] a by (auto simp: s')
  next
    fix k e' assume a: "dget (pl_table ?s) k = Some e'"
    then have old: "dget (pl_table s) k = Some e'" "k = key \<longrightarrow> uses e (us @ vs) \<noteq> 0" by (auto simp: s' split: if_splits)
    show "\<exists>t' ph. (t', k, e', ph) \<in> set (us @ vs)"
    proof (cases "k = key")
      case True
      then have "0 < uses e (us @ vs)" using old(2) uses_nonneg [of e "us @ vs"] by simp
      then obtain t' k' ph' where u: "(t', k', e, ph') \<in> set (us @ vs)" unfolding uses_pos by blast
      then have "dget (pl_table s) k' = Some e" using pl_invD(2) [OF inv, of t' k' e ph'] by auto
      then have "k' = key" using pl_invD(5) [OF inv key] by simp
      then show ?thesis using u True old(1) key by auto
    next
      case False
      then show ?thesis using pl_invD(4) [OF inv old(1)] by auto
    qed
  next
    fix k k' e' assume "dget (pl_table ?s) k = Some e'" "dget (pl_table ?s) k' = Some e'"
    then show "k' = k" using pl_invD(5) [OF inv, of k e' k'] by (auto simp: s' split: if_splits)
  qed (use pl_invD(6,7) [OF inv] ph in \<open>auto simp: s'(2)\<close>)
qed

lemma pl_step_inv: "pl_step x y \<Longrightarrow> pl_inv x \<Longrightarrow> pl_inv y"
  by (induction rule: pl_step.induct) (auto intro: enter_pl_inv acquire_pl_inv release_pl_inv exit_pl_inv)

lemma pl_reach_inv: "pl_step\<^sup>*\<^sup>* (no_path_locks, []) x \<Longrightarrow> pl_inv x"
proof (induction rule: rtranclp_induct)
  case base
  show ?case by (rule pl_invI) (simp_all add: no_path_locks_def)
qed (rule pl_step_inv)

interpretation plock: exclusion pl_inv use_inside
  by unfold_locales (rule pl_exclusive)

text \<open>
  C20. The path locks under any interleaving of threads, interrupted waits included: two threads are never
  inside one path; a path is in the table exactly while some thread uses it, with the exact count; and
  when all have left, the table is empty.
\<close>

theorem path_lock_sound:
  assumes "pl_step\<^sup>*\<^sup>* (no_path_locks, []) (s, us)"
  shows "(\<forall>t t' key. use_inside (s, us) t key \<longrightarrow> use_inside (s, us) t' key \<longrightarrow> t' = t)
     \<and> (\<forall>key. (dget (pl_table s) key \<noteq> None) = (\<exists>t e ph. (t, key, e, ph) \<in> set us))
     \<and> (\<forall>key e. dget (pl_table s) key = Some e \<longrightarrow> pl_users s ! e = int (length (filter (\<lambda>(t, k, e', ph). k = key) us)))"
proof (intro conjI allI impI)
  have inv: "pl_inv (s, us)" by (rule pl_reach_inv [OF assms])
  show "t' = t" if "use_inside (s, us) t key" "use_inside (s, us) t' key" for t t' key
    using plock.exclusive [OF inv that] .
  show "(dget (pl_table s) key \<noteq> None) = (\<exists>t e ph. (t, key, e, ph) \<in> set us)" for key
  proof
    assume "dget (pl_table s) key \<noteq> None"
    then show "\<exists>t e ph. (t, key, e, ph) \<in> set us" using pl_invD(4) [OF inv] by blast
  next
    assume "\<exists>t e ph. (t, key, e, ph) \<in> set us"
    then show "dget (pl_table s) key \<noteq> None" using pl_invD(2) [OF inv] by fastforce
  qed
  fix key e
  assume k: "dget (pl_table s) key = Some e"
  then have "e < length (pl_users s)" using pl_invD(3,4) [OF inv] by blast
  then have "pl_users s ! e = uses e us" by (rule pl_invD(1) [OF inv])
  moreover have "filter (\<lambda>(t, k, e', ph). e' = e) us = filter (\<lambda>(t, k, e', ph). k = key) us"
  proof (rule filter_cong [OF refl], clarify)
    fix t k' e' ph
    assume "(t, k', e', ph) \<in> set us"
    then have "dget (pl_table s) k' = Some e'" by (rule pl_invD(2) [OF inv])
    then show "(e' = e) = (k' = key)" using pl_invD(5) [OF inv k, of k'] k by auto
  qed
  ultimately show "pl_users s ! e = int (length (filter (\<lambda>(t, k, e', ph). k = key) us))"
    by (simp add: uses_def)
qed

lemma path_lock_run: "\<exists>s us. pl_step\<^sup>*\<^sup>* (no_path_locks, []) (s, us) \<and> use_inside (s, us) 1 (U ''a'')"
proof -
  let ?e = "path_lock_enter (U ''a'') no_path_locks"
  have "rlock_acquire 1 (fst ?e) (snd ?e) \<noteq> None"
    by (simp add: rlock_acquire_def path_lock_enter_def no_path_locks_def Let_def)
  then obtain s' where "rlock_acquire 1 (fst ?e) (snd ?e) = Some s'" by blast
  then have "pl_step (snd ?e, [] @ (1, U ''a'', fst ?e, Lock_waiting) # []) (s', [] @ (1, U ''a'', fst ?e, Lock_inside) # [])"
    by (rule pl_step.Acquire)
  moreover have "pl_step (no_path_locks, []) (snd ?e, [(1, U ''a'', fst ?e, Lock_waiting)])"
    by (rule pl_step.Enter) simp
  ultimately have "pl_step\<^sup>*\<^sup>* (no_path_locks, []) (s', [(1, U ''a'', fst ?e, Lock_inside)])"
    by (auto intro: converse_rtranclp_into_rtranclp)
  then show ?thesis by (intro exI conjI) (assumption, simp add: use_inside_def)
qed

lemma path_lock_sound_witness:
  "\<exists>s us. use_inside (s, us) 1 (U ''a'') \<and> \<not> use_inside (s, us) 2 (U ''a'') \<and> dget (pl_table s) (U ''a'') \<noteq> None"
proof -
  obtain s us where run: "pl_step\<^sup>*\<^sup>* (no_path_locks, []) (s, us)" and "use_inside (s, us) 1 (U ''a'')"
    using path_lock_run by blast
  then obtain e where "(1, U ''a'', e, Lock_inside) \<in> set us" by (auto simp: use_inside_def)
  then show ?thesis
    using path_lock_sound [OF run] \<open>use_inside (s, us) 1 (U ''a'')\<close> by (metis numeral_eq_one_iff semiring_norm(85))
qed

lemma store_write_result:
  assumes ok: "disk_ok d0" and run: "store_write posix k p v rs d0 = (r, rs', d)"
  shows "disk_ok d \<and> same_files p d0 d
     \<and> (\<forall>x. may_read d p x \<longrightarrow> may_read d0 p x \<or> (\<exists>c. encode k v = Inr c \<and> x = Some c))
     \<and> (r = Ret () \<longrightarrow> (\<exists>c. encode k v = Inr c \<and> published posix p c d))"
proof (cases "encode k v")
  case (Inl e)
  then have "d = d0" "r \<noteq> Ret ()"
    using run by (auto simp: store_write_def encode_io_def liftI_def bindI_def raiseI_def)
  then show ?thesis using ok by (simp add: same_files_def)
next
  case (Inr c)
  have "saved d0 k p c d" and "r = Ret () \<longrightarrow> published posix p c d"
    using io_specD [OF store_write_spec [OF ok Inr] refl run] by (cases r; auto)+
  then show ?thesis using Inr by (auto simp: saved_def)
qed

lemma same_files_refl: "same_files p d d"
  by (simp add: same_files_def)

lemma same_files_trans: "same_files p d0 d1 \<Longrightarrow> same_files p d1 d2 \<Longrightarrow> same_files p d0 d2"
  by (simp add: same_files_def)

end
