(* ===== verification/Durable_Fanout.thy ===== *)
theory Durable_Fanout
  imports Atomic_Store Py_Values "HOL-Library.List_Lexorder"
begin

text \<open>
  The outbox of scheduled notifications (\<^verbatim>\<open>core/durable_fanout.py\<close>): the targets of a notification,
  which of them have been served, and how that is kept in a file. The lemmas show that what is loaded is
  what was saved, whatever is on the disk is checked before it is trusted, and an interrupted save leaves
  the former progress or the new one.
\<close>

section \<open>Targets and pending notifications\<close>

record fanout_target =
  kind :: ustr
  target_id :: int

definition err_fanout :: "string \<Rightarrow> pyerr" where
  "err_fanout msg = ValueError msg"

text \<open>\<^verbatim>\<open>FanoutTarget(kind, target_id)\<close> with its \<^verbatim>\<open>__post_init__\<close>.\<close>

definition make_fanout_target :: "ustr \<Rightarrow> pyval \<Rightarrow> pyerr + fanout_target" where
  "make_fanout_target knd tid =
     (if knd \<notin> {U ''group'', U ''private''} then Inl (err_fanout ''fanout target kind is invalid'')
      else case tid of
          VInt i \<Rightarrow> if i \<le> 0 then Inl (err_fanout ''fanout target id is invalid'')
                    else Inr \<lparr>kind = knd, target_id = i\<rparr>
        | _ \<Rightarrow> Inl (err_fanout ''fanout target id is invalid''))"

definition target_key :: "fanout_target \<Rightarrow> ustr" where
  "target_key t = kind t @ U '':'' @ int_str (target_id t)"

definition target_json :: "fanout_target \<Rightarrow> pyval" where
  "target_json t = VDict [(U ''kind'', VStr (kind t)), (U ''id'', VInt (target_id t))]"

text \<open>
  \<^verbatim>\<open>default_group_targets\<close>: the groups of the context, when it has the method, without what is not a
  positive number and without repetitions.
\<close>

definition group_id_of :: "pyval \<Rightarrow> pyerr + int option" where
  "group_id_of v = (case v of
      VInt i \<Rightarrow> Inr (Some i)
    | VStr s \<Rightarrow> if s \<noteq> [] \<and> isascii s \<and> isdecimal s then bindE (int_of_digits s) (\<lambda>n. Inr (Some n)) else Inr None
    | _ \<Rightarrow> Inr None)"

fun collect_group_ids :: "pyval list \<Rightarrow> int list \<Rightarrow> pyerr + int list" where
  "collect_group_ids [] ids = Inr ids"
| "collect_group_ids (v # vs) ids = bindE (group_id_of v) (\<lambda>found. case found of
      None \<Rightarrow> collect_group_ids vs ids
    | Some n \<Rightarrow> collect_group_ids vs (if 0 < n \<and> n \<notin> set ids then ids @ [n] else ids))"

definition default_group_targets :: "pyval list option \<Rightarrow> pyerr + fanout_target list" where
  "default_group_targets groups =
     bindE (collect_group_ids (case groups of Some vs \<Rightarrow> vs | None \<Rightarrow> []) [])
       (mapE (\<lambda>n. make_fanout_target (U ''group'') (VInt n)))"

record pending_fanout =
  event_id :: ustr
  payload :: "pyval list"
  targets :: "fanout_target list"
  commit :: "(ustr \<times> pyval) list"
  delivered :: "ustr set"

definition fanout_complete :: "pending_fanout \<Rightarrow> bool" where
  "fanout_complete p \<longleftrightarrow> list_all (\<lambda>t. target_key t \<in> delivered p) (targets p)"

definition pending_targets :: "pending_fanout \<Rightarrow> fanout_target list" where
  "pending_targets p = filter (\<lambda>t. target_key t \<notin> delivered p) (targets p)"

definition pending_json :: "pending_fanout \<Rightarrow> pyval" where
  "pending_json p = VDict
     [(U ''event_id'', VStr (event_id p)), (U ''payload'', VList (payload p)),
      (U ''targets'', VList (map target_json (targets p))),
      (U ''delivered'', VList (map VStr (sorted_list_of_set (delivered p)))),
      (U ''commit'', VDict (commit p))]"

definition max_targets :: nat where "max_targets = 1000"
definition max_segments :: nat where "max_segments = 1000"
definition max_event_id_chars :: nat where "max_event_id_chars = 256"

section \<open>Reading what is stored\<close>

text \<open>The value a dictionary has under a key, \<^verbatim>\<open>None\<close> when there is none.\<close>

abbreviation entry_of :: "(ustr \<times> pyval) list \<Rightarrow> string \<Rightarrow> pyval" where
  "entry_of d key \<equiv> dget_default d (U key) VNone"

text \<open>One element of the stored targets; \<open>other\<close> is how \<^verbatim>\<open>str\<close> prints what is not text or a number.\<close>

definition decode_target :: "(pyval \<Rightarrow> ustr) \<Rightarrow> pyval \<Rightarrow> pyerr + fanout_target" where
  "decode_target other item = (case as_dict item of
      None \<Rightarrow> Inl (err_fanout ''fanout target must be an object'')
    | Some d \<Rightarrow> make_fanout_target (py_str other (dget_default d (U ''kind'') (VStr []))) (entry_of d ''id''))"

definition event_id_bad :: "pyval \<Rightarrow> bool" where
  "event_id_bad v = (case as_str v of None \<Rightarrow> True | Some s \<Rightarrow> s = [] \<or> length s > max_event_id_chars)"

definition payload_bad :: "pyval \<Rightarrow> bool" where
  "payload_bad v = (case as_list v of None \<Rightarrow> True
     | Some xs \<Rightarrow> length xs > max_segments \<or> list_ex (\<lambda>x. as_dict x = None) xs)"

definition targets_bad :: "pyval \<Rightarrow> bool" where
  "targets_bad v = (case as_list v of None \<Rightarrow> True | Some xs \<Rightarrow> \<not> (0 < length xs \<and> length xs \<le> max_targets))"

definition delivered_bad :: "ustr list \<Rightarrow> pyval \<Rightarrow> bool" where
  "delivered_bad ks v = (case as_list v of None \<Rightarrow> True
     | Some xs \<Rightarrow> list_ex (\<lambda>x. as_str x = None) xs \<or> \<not> list_all (\<lambda>x. case as_str x of Some s \<Rightarrow> s \<in> set ks | None \<Rightarrow> False) xs)"

definition list_of :: "pyval \<Rightarrow> pyval list" where
  "list_of v = (case as_list v of Some xs \<Rightarrow> xs | None \<Rightarrow> [])"

definition str_of :: "pyval \<Rightarrow> ustr" where
  "str_of v = (case as_str v of Some s \<Rightarrow> s | None \<Rightarrow> [])"

definition decode_pending :: "(pyval \<Rightarrow> ustr) \<Rightarrow> pyval \<Rightarrow> pyerr + pending_fanout" where
  "decode_pending other v = (case as_dict v of
      None \<Rightarrow> Inl (err_fanout ''fanout pending state must be an object'')
    | Some d \<Rightarrow>
        bindE (guardE (event_id_bad (entry_of d ''event_id'')) (err_fanout ''fanout event id is invalid'')) (\<lambda>_.
        bindE (guardE (payload_bad (entry_of d ''payload'')) (err_fanout ''fanout payload is invalid'')) (\<lambda>_.
        bindE (guardE (targets_bad (entry_of d ''targets'')) (err_fanout ''fanout targets are invalid'')) (\<lambda>_.
        bindE (mapE (decode_target other) (list_of (entry_of d ''targets''))) (\<lambda>ts.
        let ks = map target_key ts in
        bindE (guardE (\<not> distinct ks) (err_fanout ''fanout targets must be unique'')) (\<lambda>_.
        bindE (guardE (delivered_bad ks (entry_of d ''delivered'')) (err_fanout ''fanout delivered set is invalid'')) (\<lambda>_.
        (case as_dict (entry_of d ''commit'') of
            None \<Rightarrow> Inl (err_fanout ''fanout commit data must be an object'')
          | Some c \<Rightarrow> Inr \<lparr>event_id = str_of (entry_of d ''event_id''), payload = list_of (entry_of d ''payload''),
              targets = ts, commit = c,
              delivered = set (map str_of (list_of (entry_of d ''delivered'')))\<rparr>))))))))"

section \<open>The outbox file\<close>

text \<open>\<^verbatim>\<open>root.get("version") != 1\<close>: the numbers equal to one pass, whatever their type.\<close>

definition equals_one :: "pyval \<Rightarrow> bool" where
  "equals_one v = (case v of VInt i \<Rightarrow> i = 1 | VBool b \<Rightarrow> b | VFloat x \<Rightarrow> x = Fin 1 | _ \<Rightarrow> False)"

definition pending_of_root :: "(pyval \<Rightarrow> ustr) \<Rightarrow> pyval \<Rightarrow> pyerr + pending_fanout option" where
  "pending_of_root other doc = (case as_dict doc of
      None \<Rightarrow> Inl (err_fanout ''fanout root schema is invalid'')
    | Some d \<Rightarrow>
        if \<not> equals_one (entry_of d ''version'') then Inl (err_fanout ''fanout root schema is invalid'')
        else if entry_of d ''pending'' = VNone then Inr None
        else bindE (decode_pending other (entry_of d ''pending'')) (\<lambda>p. Inr (Some p)))"

definition py_io :: "pyerr + 'a \<Rightarrow> 'a io" where
  "py_io m = liftI (case m of Inl e \<Rightarrow> Inl (Py_error e) | Inr x \<Rightarrow> Inr x)"

definition load_pending :: "(pyval \<Rightarrow> ustr) \<Rightarrow> pyval codec \<Rightarrow> fname \<Rightarrow> pending_fanout option io" where
  "load_pending other k path = bindI (read_payload path) (\<lambda>b. case b of
      None \<Rightarrow> retI None
    | Some b \<Rightarrow> bindI (liftI (decode k b)) (\<lambda>doc. py_io (pending_of_root other doc)))"

definition fanout_root :: "pyval \<Rightarrow> pyval" where
  "fanout_root v = VDict [(U ''version'', VInt 1), (U ''pending'', v)]"

definition save_pending :: "bool \<Rightarrow> (pyval \<Rightarrow> ustr) \<Rightarrow> pyval codec \<Rightarrow> fname \<Rightarrow> pending_fanout \<Rightarrow> unit io" where
  "save_pending posix other k path p =
     bindI (py_io (decode_pending other (pending_json p))) (\<lambda>validated.
       store_write posix k path (fanout_root (pending_json validated)))"

definition create_pending ::
  "bool \<Rightarrow> (pyval \<Rightarrow> ustr) \<Rightarrow> pyval codec \<Rightarrow> fname \<Rightarrow> ustr \<Rightarrow> pyval list \<Rightarrow> fanout_target list \<Rightarrow> (ustr \<times> pyval) list
     \<Rightarrow> pending_fanout io" where
  "create_pending posix other k path ev pl ts cm =
     (let p = \<lparr>event_id = ev, payload = pl, targets = ts, commit = cm, delivered = {}\<rparr>
      in bindI (save_pending posix other k path p) (\<lambda>_. retI p))"

text \<open>The object is updated before it is saved and keeps the update when the save fails.\<close>

definition mark_delivered ::
  "bool \<Rightarrow> (pyval \<Rightarrow> ustr) \<Rightarrow> pyval codec \<Rightarrow> fname \<Rightarrow> pending_fanout \<Rightarrow> fanout_target \<Rightarrow> pending_fanout \<times> unit io" where
  "mark_delivered posix other k path p t =
     (if t \<notin> set (targets p)
      then (p, raiseI (Py_error (err_fanout ''cannot acknowledge an unknown fanout target'')))
      else let p' = p\<lparr>delivered := insert (target_key t) (delivered p)\<rparr>
           in (p', save_pending posix other k path p'))"

definition clear_pending :: "bool \<Rightarrow> pyval codec \<Rightarrow> fname \<Rightarrow> unit io" where
  "clear_pending posix k path = store_write posix k path (fanout_root VNone)"

section \<open>Round trips\<close>

text \<open>
  The values that JSON keeps: what \<^verbatim>\<open>json.loads\<close> returns for the output of \<^verbatim>\<open>json.dumps\<close> is equal to the
  argument for these, by the documentation of the module. Tuples come back as lists.
\<close>

fun json_value :: "pyval \<Rightarrow> bool" where
  "json_value (VList xs) = list_all json_value xs"
| "json_value (VDict d) = (dict_ok d \<and> list_all (\<lambda>x. json_value (snd x)) d)"
| "json_value (VTuple xs) = False"
| "json_value (VFloat x) = isfinite x"
| "json_value VOther = False"
| "json_value _ = True"

definition json_codec :: "pyval codec \<Rightarrow> bool" where
  "json_codec k \<longleftrightarrow> (\<forall>v c. json_value v \<longrightarrow> encode k v = Inr c \<longrightarrow> decode k c = Inr v)"

definition target_ok :: "fanout_target \<Rightarrow> bool" where
  "target_ok t \<longleftrightarrow> kind t \<in> {U ''group'', U ''private''} \<and> 0 < target_id t"

lemma make_fanout_target_ok: "make_fanout_target knd tid = Inr t \<longleftrightarrow> tid = VInt (target_id t) \<and> kind t = knd \<and> target_ok t"
  by (cases tid; cases t) (auto simp: make_fanout_target_def target_ok_def)

text \<open>A pending notification as the program builds it.\<close>

definition pending_ok :: "pending_fanout \<Rightarrow> bool" where
  "pending_ok p \<longleftrightarrow> event_id p \<noteq> [] \<and> length (event_id p) \<le> max_event_id_chars
     \<and> length (payload p) \<le> max_segments \<and> list_all (\<lambda>x. as_dict x \<noteq> None) (payload p)
     \<and> 0 < length (targets p) \<and> length (targets p) \<le> max_targets \<and> list_all target_ok (targets p)
     \<and> distinct (map target_key (targets p)) \<and> delivered p \<subseteq> set (map target_key (targets p))"

lemma decode_target_json: "decode_target other (target_json t) = make_fanout_target (kind t) (VInt (target_id t))"
  by (simp add: decode_target_def target_json_def as_dict_def dget_default_def)

lemma decode_targets_json:
  "mapE (decode_target other) (map target_json ts) = Inr us \<longleftrightarrow> us = ts \<and> list_all target_ok ts"
proof (induction ts arbitrary: us)
  case (Cons t ts)
  then show ?case
    by (simp add: bindE_eq_Inr decode_target_json make_fanout_target_ok del: ex_simps) (metis fanout_target.equality unit_eq)
qed auto

lemma entry_simps [simp]:
  "dget_default ((k, v) # d) k' w = (if k' = k then v else dget_default d k' w)"
  "dget_default [] k' w = w"
  by (simp_all add: dget_default_def)

lemma pending_entries:
  "entry_of [(U ''event_id'', a), (U ''payload'', b), (U ''targets'', c), (U ''delivered'', d), (U ''commit'', e)] ''event_id'' = a"
  "entry_of [(U ''event_id'', a), (U ''payload'', b), (U ''targets'', c), (U ''delivered'', d), (U ''commit'', e)] ''payload'' = b"
  "entry_of [(U ''event_id'', a), (U ''payload'', b), (U ''targets'', c), (U ''delivered'', d), (U ''commit'', e)] ''targets'' = c"
  "entry_of [(U ''event_id'', a), (U ''payload'', b), (U ''targets'', c), (U ''delivered'', d), (U ''commit'', e)] ''delivered'' = d"
  "entry_of [(U ''event_id'', a), (U ''payload'', b), (U ''targets'', c), (U ''delivered'', d), (U ''commit'', e)] ''commit'' = e"
  by (simp_all del: U_simps)

lemma delivered_bad_json:
  assumes "finite D"
  shows "delivered_bad ks (VList (map VStr (sorted_list_of_set D))) \<longleftrightarrow> \<not> D \<subseteq> set ks"
  using assms by (auto simp: delivered_bad_def as_list_def as_str_def list_ex_iff list_all_iff)

lemma decode_pending_json:
  assumes "finite (delivered p)"
  shows "decode_pending other (pending_json p) = Inr q \<longleftrightarrow> q = p \<and> pending_ok p"
proof -
  have d: "set (map str_of (list_of (VList (map VStr (sorted_list_of_set (delivered p)))))) = delivered p"
    using assms by (simp add: list_of_def as_list_def str_of_def as_str_def image_image)
  show ?thesis
    unfolding decode_pending_def pending_json_def as_dict_def pyval.case option.case pending_entries
    by (auto simp: bindE_eq_Inr Let_def d delivered_bad_json [OF assms] decode_targets_json pending_ok_def
        event_id_bad_def payload_bad_def targets_bad_def list_of_def str_of_def as_list_def as_str_def list_all_iff
        list_ex_iff set_sorted_list_of_set [OF assms])
qed

section \<open>Crash safety of the outbox\<close>

text \<open>What a file of the outbox means, as \<^verbatim>\<open>load_pending\<close> reads it.\<close>

definition outbox :: "(pyval \<Rightarrow> ustr) \<Rightarrow> pyval codec \<Rightarrow> bytes option \<Rightarrow> ioerr + pending_fanout option" where
  "outbox other k c = (case c of
      None \<Rightarrow> Inr None
    | Some b \<Rightarrow> (case decode k b of
          Inl e \<Rightarrow> Inl e
        | Inr doc \<Rightarrow> (case pending_of_root other doc of Inl e \<Rightarrow> Inl (Py_error e) | Inr p \<Rightarrow> Inr p)))"

lemma load_pending_outbox:
  "load_pending other k path (Done s # rs) d =
     (case outbox other k (visible d path) of Inl e \<Rightarrow> Raise e | Inr p \<Rightarrow> Ret p, rs, d)"
  by (cases "visible d path")
    (auto simp: load_pending_def outbox_def read_payload_def read_bytes_def call_done catchI_def bindI_def retI_def
      liftI_def raiseI_def py_io_def split: sum.splits)

definition pending_storable :: "pending_fanout \<Rightarrow> bool" where
  "pending_storable p \<longleftrightarrow> list_all json_value (payload p) \<and> json_value (VDict (commit p))"

lemma root_json_value:
  assumes "pending_storable p"
  shows "json_value (fanout_root (pending_json p))" "json_value (fanout_root VNone)"
  using assms by (simp_all add: fanout_root_def pending_json_def pending_storable_def target_json_def list_all_iff
      del: U_simps)

lemma pending_of_root_json:
  assumes "finite (delivered p)" and "pending_ok p"
  shows "pending_of_root other (fanout_root (pending_json p)) = Inr (Some p)"
    "pending_of_root other (fanout_root VNone) = Inr None"
proof -
  have "decode_pending other (pending_json p) = Inr p" using decode_pending_json [OF assms(1)] assms(2) by simp
  moreover have "pending_json p \<noteq> VNone" by (simp add: pending_json_def)
  ultimately show "pending_of_root other (fanout_root (pending_json p)) = Inr (Some p)"
    by (simp add: pending_of_root_def fanout_root_def as_dict_def equals_one_def del: U_simps)
  show "pending_of_root other (fanout_root VNone) = Inr None"
    by (simp add: pending_of_root_def fanout_root_def as_dict_def equals_one_def del: U_simps)
qed

lemma outbox_saved:
  assumes "json_codec k" and "finite (delivered p)" and "pending_ok p" and "pending_storable p"
    and "encode k (fanout_root (pending_json p)) = Inr c"
  shows "outbox other k (Some c) = Inr (Some p)"
proof -
  have "decode k c = Inr (fanout_root (pending_json p))"
    using assms(1,5) root_json_value(1) [OF assms(4)] by (auto simp: json_codec_def)
  then show ?thesis by (simp add: outbox_def pending_of_root_json [OF assms(2,3)])
qed

lemma outbox_cleared:
  assumes "json_codec k" and "encode k (fanout_root VNone) = Inr c"
  shows "outbox other k (Some c) = Inr None"
proof -
  have "json_value (fanout_root VNone)" by (simp add: fanout_root_def del: U_simps)
  then have "decode k c = Inr (fanout_root VNone)"
    using assms by (auto simp: json_codec_def)
  moreover have "pending_of_root other (fanout_root VNone) = Inr None"
    by (simp add: pending_of_root_def fanout_root_def as_dict_def equals_one_def del: U_simps)
  ultimately show ?thesis by (simp add: outbox_def)
qed

text \<open>The contents the outbox may have, now or after a power failure, are all in \<open>S\<close>.\<close>

definition outbox_in ::
  "(pyval \<Rightarrow> ustr) \<Rightarrow> pyval codec \<Rightarrow> fname \<Rightarrow> pending_fanout option set \<Rightarrow> disk \<Rightarrow> bool" where
  "outbox_in other k path S d \<longleftrightarrow> disk_ok d \<and> (\<forall>c. may_read d path c \<longrightarrow> (\<exists>p\<in>S. outbox other k c = Inr p))"

lemma outbox_in_mono: "outbox_in other k path S d \<Longrightarrow> S \<subseteq> T \<Longrightarrow> outbox_in other k path T d"
  unfolding outbox_in_def by blast

lemma store_write_outbox:
  assumes box: "outbox_in other k path S d0" and run: "store_write True k path v rs d0 = (r, rs', d)"
    and new: "\<And>c. encode k v = Inr c \<Longrightarrow> outbox other k (Some c) = Inr p"
  shows "outbox_in other k path (insert p S) d \<and> same_files path d0 d
     \<and> (r = Ret () \<longrightarrow> outbox_in other k path {p} d)"
proof -
  have w: "disk_ok d" "same_files path d0 d"
    "\<And>x. may_read d path x \<Longrightarrow> may_read d0 path x \<or> (\<exists>c. encode k v = Inr c \<and> x = Some c)"
    "r = Ret () \<Longrightarrow> \<exists>c. encode k v = Inr c \<and> published True path c d"
    using store_write_result [OF _ run] box by (auto simp: outbox_in_def)
  have "outbox_in other k path (insert p S) d"
    unfolding outbox_in_def using w(1,3) new box by (auto simp: outbox_in_def)
  moreover have "outbox_in other k path {p} d" if "r = Ret ()"
    unfolding outbox_in_def using w(1) w(4) [OF that] new by (auto simp: published_def)
  ultimately show ?thesis using w(2) by blast
qed

lemma save_pending_outbox:
  assumes "json_codec k" and fin: "finite (delivered p)" and "pending_storable p"
    and box: "outbox_in other k path S d0" and run: "save_pending True other k path p rs d0 = (r, rs', d)"
  shows "outbox_in other k path (insert (Some p) S) d \<and> same_files path d0 d
     \<and> (r = Ret () \<longrightarrow> pending_ok p \<and> outbox_in other k path {Some p} d)"
proof (cases "decode_pending other (pending_json p)")
  case (Inl e)
  then have "d = d0" "r \<noteq> Ret ()"
    using run by (auto simp: save_pending_def py_io_def liftI_def bindI_def raiseI_def)
  then show ?thesis using box by (auto intro: outbox_in_mono same_files_refl)
next
  case (Inr q)
  then have q: "q = p" "pending_ok p" using decode_pending_json [OF fin] by auto
  then have "store_write True k path (fanout_root (pending_json p)) rs d0 = (r, rs', d)"
    using run Inr by (simp add: save_pending_def py_io_def liftI_def bindI_def retI_def)
  from store_write_outbox [OF box this outbox_saved [OF assms(1) fin q(2) assms(3)]] q(2)
  show ?thesis by simp
qed

lemma clear_pending_outbox:
  assumes "json_codec k" and "outbox_in other k path S d0" and "clear_pending True k path rs d0 = (r, rs', d)"
  shows "outbox_in other k path (insert None S) d \<and> same_files path d0 d
     \<and> (r = Ret () \<longrightarrow> outbox_in other k path {None} d)"
  using store_write_outbox [OF assms(2) assms(3) [unfolded clear_pending_def] outbox_cleared [OF assms(1)]] .

text \<open>
  C39. What is loaded is what was saved: after \<open>save_pending\<close> returned, the next load gives the same
  notification, with the same targets in the same order and the same progress.
\<close>

theorem fanout_roundtrip:
  assumes "json_codec k" and "disk_ok d0" and "finite (delivered p)" and "pending_storable p"
    and "save_pending posix other k path p rs d0 = (Ret (), rs', d)"
  shows "fst (load_pending other k path (Done s # rs2) d) = Ret (Some p)"
proof (cases "decode_pending other (pending_json p)")
  case (Inl e)
  then show ?thesis using assms(5) by (simp add: save_pending_def py_io_def liftI_def bindI_def raiseI_def)
next
  case (Inr q)
  then have q: "q = p" "pending_ok p" using decode_pending_json [OF assms(3)] by auto
  then have "store_write posix k path (fanout_root (pending_json p)) rs d0 = (Ret (), rs', d)"
    using assms(5) Inr by (simp add: save_pending_def py_io_def liftI_def bindI_def retI_def)
  from store_write_result [OF assms(2) this] obtain c where
    "encode k (fanout_root (pending_json p)) = Inr c" "visible d path = Some c"
    by (auto simp: published_def)
  then show ?thesis
    using outbox_saved [OF assms(1,3) q(2) assms(4)] by (simp add: load_pending_outbox)
qed

text \<open>A codec that knows the documents of a table, by their position.\<close>

definition table_codec :: "'v list \<Rightarrow> 'v codec" where
  "table_codec vs = \<lparr>encode = (\<lambda>v. case filter (\<lambda>i. vs ! i = v) [0..<length vs] of
       [] \<Rightarrow> Inl (TypeError ''not serializable'') | i # _ \<Rightarrow> Inr [i]),
     decode = (\<lambda>b. case b of [i] \<Rightarrow> if i < length vs then Inr (vs ! i) else Inl Undecodable | _ \<Rightarrow> Inl Undecodable)\<rparr>"

lemma table_codec_ok: "json_codec (table_codec vs)"
  unfolding json_codec_def
proof (intro allI impI)
  fix v c
  assume "encode (table_codec vs) v = Inr c"
  then obtain i is' where c: "c = [i]" and f: "filter (\<lambda>i. vs ! i = v) [0..<length vs] = i # is'"
    by (auto simp: table_codec_def split: list.splits)
  then have "i \<in> set (filter (\<lambda>i. vs ! i = v) [0..<length vs])" by simp
  then show "decode (table_codec vs) c = Inr v" by (auto simp: table_codec_def c)
qed

definition sample_pending :: "ustr set \<Rightarrow> pending_fanout" where
  "sample_pending ds = \<lparr>event_id = U ''e'', payload = [VDict []],
     targets = [\<lparr>kind = U ''group'', target_id = 1\<rparr>, \<lparr>kind = U ''group'', target_id = 2\<rparr>],
     commit = [(U ''history'', VDict [])], delivered = ds\<rparr>"

definition empty_disk :: disk where
  "empty_disk = \<lparr>names = (\<lambda>_. None), older = [], content = (\<lambda>_. []), flushed = (\<lambda>_. True), next_node = 0\<rparr>"

lemma empty_disk_ok: "disk_ok empty_disk"
  by (simp add: disk_ok_def empty_disk_def versions_def)

definition sample_docs :: "pyval list" where
  "sample_docs = [fanout_root (pending_json (sample_pending {})), fanout_root VNone]"

lemma sample_encode: "encode (table_codec (a # vs)) a = Inr [0]"
  by (simp add: table_codec_def upt_conv_Cons del: upt_Suc)

lemma fanout_roundtrip_witness:
  "fst (load_pending (\<lambda>_. []) (table_codec sample_docs) (U ''f'') [Done []]
     (snd (snd (save_pending True (\<lambda>_. []) (table_codec sample_docs) (U ''f'') (sample_pending {})
        (replicate 11 (Done (U ''x''))) empty_disk)))) = Ret (Some (sample_pending {}))"
proof -
  let ?k = "table_codec sample_docs" and ?p = "sample_pending {}"
  have "pending_ok ?p"
    by (simp add: pending_ok_def sample_pending_def target_ok_def target_key_def max_event_id_chars_def
        max_segments_def max_targets_def as_dict_def int_str_def nat_str.simps)
  then have v: "decode_pending (\<lambda>_. []) (pending_json ?p) = Inr ?p"
    by (subst decode_pending_json) (simp_all add: sample_pending_def)
  have e: "encode ?k (fanout_root (pending_json ?p)) = Inr [0]"
    by (simp add: sample_docs_def sample_encode)
  have "names empty_disk (temp_name (U ''f'') (U ''x'')) = None" by (simp add: empty_disk_def)
  then obtain rs' d' where w: "atomic_write_bytes True (U ''f'') [0] (replicate (10 + 0) (Done (U ''x''))) empty_disk = (Ret (), rs', d')"
    using atomic_write_completes by blast
  have split: "replicate 11 (Done (U ''x'')) = Done (U ''x'') # replicate (10 + 0) (Done (U ''x''))"
    by (simp add: numeral_eq_Suc)
  have "read_payload (U ''f'') (Done (U ''x'') # rs) empty_disk = (Ret None, rs, empty_disk)" for rs
    by (simp add: read_payload_def read_bytes_def call_done catchI_def bindI_def retI_def visible_def empty_disk_def
        del: U_simps)
  then have run: "save_pending True (\<lambda>_. []) ?k (U ''f'') ?p (replicate 11 (Done (U ''x''))) empty_disk = (Ret (), rs', d')"
    unfolding split using w v e
    by (simp add: save_pending_def py_io_def liftI_def bindI_def retI_def store_write_def encode_io_def
        del: replicate.simps U_simps)
  have "finite (delivered ?p)" "pending_storable ?p" by (simp_all add: sample_pending_def pending_storable_def)
  from fanout_roundtrip [OF table_codec_ok empty_disk_ok this run] show ?thesis by (simp only: run fst_conv snd_conv)
qed

end
