(* ===== verification/Chime_Outbox.thy ===== *)
theory Chime_Outbox
  imports Durable_Fanout "HOL-Library.Sublist"
begin

text \<open>
  Scheduled notifications of the CHIME plugin (\<^verbatim>\<open>plugins/chime/main.py\<close>), a client of the outbox: what
  counts as an update, the baseline of what was announced, delivery to each target with a durable
  acknowledgement, and the order in which baseline and outbox are written. Each lemma about delivery
  covers a failure of any call and a loss of power at any point.
\<close>

section \<open>Updates and the baseline\<close>

text \<open>
  A source of the catalogue, after its fields were validated. Moments are real numbers; how the text of a
  time is read is the argument \<open>time_of\<close> (\<^verbatim>\<open>_parse_timestamp\<close>, a wrapper of \<^verbatim>\<open>datetime.fromisoformat\<close>).
\<close>

record frb =
  frb_name :: ustr
  frb_timestamp :: "ustr option"
  frb_observed :: "real option"

type_synonym history = "(ustr \<times> ustr) list"

definition err_history :: "string \<Rightarrow> pyerr" where
  "err_history msg = ValueError msg"

fun find_updates :: "(ustr \<Rightarrow> real option) \<Rightarrow> frb list \<Rightarrow> history \<Rightarrow> pyerr + frb list \<times> frb list" where
  "find_updates time_of [] old = Inr ([], [])"
| "find_updates time_of (f # fs) old =
     (case dget old (frb_name f) of
        None \<Rightarrow> bindE (find_updates time_of fs old) (\<lambda>(reps, pulses). Inr (f # reps, pulses))
      | Some ts \<Rightarrow> (case (time_of ts, frb_observed f) of
            (Some before, Some now) \<Rightarrow>
              bindE (find_updates time_of fs old) (\<lambda>(reps, pulses).
                Inr (reps, if now > before then f # pulses else pulses))
          | _ \<Rightarrow> Inl (err_history ''CHIME history comparison timestamp is invalid'')))"

fun merge_history :: "(ustr \<Rightarrow> real option) \<Rightarrow> history \<Rightarrow> frb list \<Rightarrow> pyerr + history" where
  "merge_history time_of merged [] = Inr merged"
| "merge_history time_of merged (f # fs) =
     (case (frb_timestamp f, frb_observed f) of
        (Some ts, Some now) \<Rightarrow>
          (let before = (case dget merged (frb_name f) of
                 Some old \<Rightarrow> if old \<noteq> [] then time_of old else None | None \<Rightarrow> None)
           in merge_history time_of
                (if before = None \<or> now > the before then dset (frb_name f) ts merged else merged) fs)
      | _ \<Rightarrow> Inl (ValueError ''cannot merge an invalid FRB record''))"

text \<open>
  \<^verbatim>\<open>_validate_history\<close>. The name is upper case and matches \<^verbatim>\<open>FRB[A-Z0-9.+-]{1,60}\<close>, so that stripping and
  upper-casing leave it as it is.
\<close>

definition max_history_records :: nat where "max_history_records = 10000"
definition max_field_chars :: nat where "max_field_chars = 128"

definition frb_name_char :: "uchar \<Rightarrow> bool" where
  "frb_name_char c \<longleftrightarrow> 65 \<le> c \<and> c \<le> 90 \<or> 48 \<le> c \<and> c \<le> 57 \<or> c = 46 \<or> c = 43 \<or> c = 45"

definition frb_name_ok :: "ustr \<Rightarrow> bool" where
  "frb_name_ok s \<longleftrightarrow> startswith s (U ''FRB'') \<and> 1 \<le> length s - 3 \<and> length s - 3 \<le> 60
     \<and> list_all frb_name_char (drop 3 s)"

definition history_entry_ok :: "(ustr \<Rightarrow> real option) \<Rightarrow> ustr \<times> pyval \<Rightarrow> bool" where
  "history_entry_ok time_of x = (case x of (name, v) \<Rightarrow>
     frb_name_ok name \<and> (case v of VStr ts \<Rightarrow> length ts \<le> max_field_chars \<and> time_of ts \<noteq> None | _ \<Rightarrow> False))"

definition validate_history :: "(ustr \<Rightarrow> real option) \<Rightarrow> pyval \<Rightarrow> pyerr + history" where
  "validate_history time_of v = (case as_dict v of
      None \<Rightarrow> Inl (err_history ''CHIME history root is invalid'')
    | Some d \<Rightarrow>
        if length d > max_history_records then Inl (err_history ''CHIME history root is invalid'')
        else if \<not> list_all (history_entry_ok time_of) d then Inl (err_history ''CHIME history entry is invalid'')
        else Inr (map (\<lambda>(name, ts). (name, str_of ts)) d))"

definition history_json :: "history \<Rightarrow> pyval" where
  "history_json h = VDict (map (\<lambda>(name, ts). (name, VStr ts)) h)"

section \<open>Delivery\<close>

text \<open>
  Where the plugin runs: the system, how values are printed and stored, how times are read, and the
  files \<^verbatim>\<open>chime_delivery.json\<close> and \<^verbatim>\<open>chime_history.json\<close> of its directory.
\<close>

record chime_env =
  env_posix :: bool
  env_printed :: "pyval \<Rightarrow> ustr"
  env_codec :: "pyval codec"
  env_time_of :: "ustr \<Rightarrow> real option"

definition fanout_path :: fname where "fanout_path = U ''chime_delivery.json''"
definition history_path :: fname where "history_path = U ''chime_history.json''"

text \<open>A block under \<^verbatim>\<open>try: ... except Exception\<close> whose handler only reports.\<close>

definition attempt :: "'a io \<Rightarrow> (ioerr + 'a) io" where
  "attempt m = catchI (bindI m (\<lambda>x. retI (Inr x))) (\<lambda>e. retI (Inl e))"

definition load_history :: "chime_env \<Rightarrow> history io" where
  "load_history E = bindI (store_read (env_posix E) (env_codec E) history_path (VDict []) True)
     (\<lambda>v. py_io (validate_history (env_time_of E) v))"

definition save_history :: "chime_env \<Rightarrow> pyval \<Rightarrow> bool io" where
  "save_history E mapping = bindI
     (attempt (bindI (py_io (validate_history (env_time_of E) mapping)) (\<lambda>h.
        store_write (env_posix E) (env_codec E) history_path (history_json h))))
     (\<lambda>r. retI (case r of Inr _ \<Rightarrow> True | Inl _ \<Rightarrow> False))"

text \<open>
  How the attempt to send to one target ended: no message could be built, the receipt was settled as
  delivered, as refused or as unknown, or it was left open. Delivered and unknown ones run the callback
  of the receipt, which marks the target.
\<close>

datatype send_result = Unbuilt | Sent | Refused | Unknown_result | Unsettled

text \<open>
  The loop of \<^verbatim>\<open>_deliver_pending\<close>: what it returns with the notification in memory, whether it went
  through all targets, and the targets whose message went out or may have. Where the results end, the
  power fails before the next message.
\<close>

fun deliver_loop ::
  "chime_env \<Rightarrow> fanout_target list \<Rightarrow> pending_fanout \<Rightarrow> send_result list \<Rightarrow> reply list \<Rightarrow> disk
     \<Rightarrow> (pending_fanout \<times> bool) io_outcome \<times> fanout_target list \<times> reply list \<times> disk" where
  "deliver_loop E [] p res rs d = (Ret (p, True), [], rs, d)"
| "deliver_loop E (t # ts) p [] rs d = (Crash, [], rs, d)"
| "deliver_loop E (t # ts) p (r # res) rs d =
     (if r = Sent \<or> r = Unknown_result
      then (let (p', save) = mark_delivered (env_posix E) (env_printed E) (env_codec E) fanout_path p t
            in case save rs d of
                 (Crash, rs', d') \<Rightarrow> (Crash, [t], rs', d')
               | (Raise e, rs', d') \<Rightarrow> (Ret (p', False), [t], rs', d')
               | (Ret _, rs', d') \<Rightarrow>
                   (case deliver_loop E ts p' res rs' d' of (out, sent, rs'', d'') \<Rightarrow> (out, t # sent, rs'', d'')))
      else deliver_loop E ts p res rs d)"

text \<open>The rest of it: the baseline is saved first, and only then the outbox is cleared.\<close>

definition finish_delivery :: "chime_env \<Rightarrow> pending_fanout \<Rightarrow> bool io" where
  "finish_delivery E p =
     (if \<not> fanout_complete p then retI False
      else bindI (save_history E (entry_of (commit p) ''history'')) (\<lambda>ok.
        if \<not> ok then retI False
        else bindI (attempt (clear_pending (env_posix E) (env_codec E) fanout_path)) (\<lambda>r.
          retI (case r of Inr _ \<Rightarrow> True | Inl _ \<Rightarrow> False))))"

definition deliver_pending ::
  "chime_env \<Rightarrow> pending_fanout \<Rightarrow> send_result list \<Rightarrow> reply list \<Rightarrow> disk
     \<Rightarrow> bool io_outcome \<times> fanout_target list \<times> reply list \<times> disk" where
  "deliver_pending E p res rs d = (case deliver_loop E (pending_targets p) p res rs d of
      (Crash, sent, rs', d') \<Rightarrow> (Crash, sent, rs', d')
    | (Raise e, sent, rs', d') \<Rightarrow> (Raise e, sent, rs', d')
    | (Ret (p', through), sent, rs', d') \<Rightarrow>
        if \<not> through then (Ret False, sent, rs', d')
        else (case finish_delivery E p' rs' d' of (out, rs'', d'') \<Rightarrow> (out, sent, rs'', d'')))"

text \<open>
  \<^verbatim>\<open>_scheduled_check_locked\<close>: an unfinished outbox is only retried. The catalogue \<open>frbs\<close>, the groups of
  the context, the digest of a history and the message for the updates are inputs. Every exception is
  reported and ends the check; the result is always an empty message.
\<close>

definition new_notification ::
  "chime_env \<Rightarrow> frb list \<Rightarrow> pyval list option \<Rightarrow> (history \<Rightarrow> ustr) \<Rightarrow> (frb list \<Rightarrow> frb list \<Rightarrow> pyval list) \<Rightarrow> pending_fanout option io" where
  "new_notification E frbs groups digest message =
     bindI (load_history E) (\<lambda>old.
     bindI (py_io (find_updates (env_time_of E) frbs old)) (\<lambda>(reps, pulses).
     bindI (py_io (merge_history (env_time_of E) old frbs)) (\<lambda>merged.
     if reps = [] \<and> pulses = [] then retI None
     else bindI (py_io (default_group_targets groups)) (\<lambda>ts.
       if ts = [] then retI None
       else bindI (create_pending (env_posix E) (env_printed E) (env_codec E) fanout_path (U ''chime:'' @ digest merged)
              (message reps pulses) ts [(U ''history'', history_json merged)]) (\<lambda>p. retI (Some p))))))"

definition scheduled_check ::
  "chime_env \<Rightarrow> frb list \<Rightarrow> pyval list option \<Rightarrow> (history \<Rightarrow> ustr) \<Rightarrow> (frb list \<Rightarrow> frb list \<Rightarrow> pyval list)
     \<Rightarrow> send_result list \<Rightarrow> reply list \<Rightarrow> disk \<Rightarrow> unit io_outcome \<times> fanout_target list \<times> reply list \<times> disk" where
  "scheduled_check E frbs groups digest message res rs d =
     (case load_pending (env_printed E) (env_codec E) fanout_path rs d of
        (Crash, rs', d') \<Rightarrow> (Crash, [], rs', d')
      | (Raise e, rs', d') \<Rightarrow> (Ret (), [], rs', d')
      | (Ret (Some p), rs', d') \<Rightarrow>
          (case deliver_pending E p res rs' d' of
             (Crash, sent, rs'', d'') \<Rightarrow> (Crash, sent, rs'', d'')
           | (_, sent, rs'', d'') \<Rightarrow> (Ret (), sent, rs'', d''))
      | (Ret None, rs', d') \<Rightarrow>
          if frbs = [] then (Ret (), [], rs', d')
          else (case new_notification E frbs groups digest message rs' d' of
             (Crash, rs'', d'') \<Rightarrow> (Crash, [], rs'', d'')
           | (Raise e, rs'', d'') \<Rightarrow> (Ret (), [], rs'', d'')
           | (Ret None, rs'', d'') \<Rightarrow> (Ret (), [], rs'', d'')
           | (Ret (Some p), rs'', d'') \<Rightarrow>
               (case deliver_pending E p res rs'' d'' of
                  (Crash, sent, rs3, d3) \<Rightarrow> (Crash, sent, rs3, d3)
                | (_, sent, rs3, d3) \<Rightarrow> (Ret (), sent, rs3, d3))))"

section \<open>What is announced and what is remembered\<close>

definition frb_ok :: "(ustr \<Rightarrow> real option) \<Rightarrow> frb \<Rightarrow> bool" where
  "frb_ok time_of f \<longleftrightarrow> (\<exists>ts now. frb_timestamp f = Some ts \<and> frb_observed f = Some now \<and> time_of ts = Some now)"

definition history_ok :: "(ustr \<Rightarrow> real option) \<Rightarrow> history \<Rightarrow> bool" where
  "history_ok time_of h \<longleftrightarrow> (\<forall>name ts. dget h name = Some ts \<longrightarrow> time_of ts \<noteq> None)"

text \<open>A source is newer than the baseline when the baseline has none or an earlier time.\<close>

definition newer :: "(ustr \<Rightarrow> real option) \<Rightarrow> history \<Rightarrow> frb \<Rightarrow> bool" where
  "newer time_of h f \<longleftrightarrow> (case dget h (frb_name f) of None \<Rightarrow> True | Some ts \<Rightarrow> the (frb_observed f) > the (time_of ts))"

lemma find_updates_eq:
  assumes "list_all (frb_ok time_of) fs" and "history_ok time_of h"
  shows "find_updates time_of fs h = Inr (filter (\<lambda>f. dget h (frb_name f) = None) fs,
     filter (\<lambda>f. dget h (frb_name f) \<noteq> None \<and> newer time_of h f) fs)"
  using assms
proof (induction fs)
  case (Cons f fs)
  obtain now where f: "frb_observed f = Some now" using Cons.prems(1) by (auto simp: frb_ok_def)
  show ?case
  proof (cases "dget h (frb_name f)")
    case None
    then show ?thesis using Cons by simp
  next
    case (Some ts)
    then obtain before where "time_of ts = Some before" using Cons.prems(2) by (auto simp: history_ok_def)
    then show ?thesis using Cons Some f by (simp add: newer_def)
  qed
qed simp

lemma merge_history_eq:
  assumes "list_all (frb_ok time_of) fs" and "history_ok time_of h" and "time_of [] = None"
    and "distinct (map frb_name fs)"
  shows "merge_history time_of h fs = Inr (fold (\<lambda>f. dset (frb_name f) (the (frb_timestamp f))) (filter (newer time_of h) fs) h)"
  using assms
proof (induction fs arbitrary: h)
  case (Cons f fs)
  obtain ts now where f: "frb_timestamp f = Some ts" "frb_observed f = Some now" "time_of ts = Some now"
    using Cons.prems(1) by (auto simp: frb_ok_def)
  let ?h = "dset (frb_name f) ts h"
  have "newer time_of ?h g = newer time_of h g" if "g \<in> set fs" for g
  proof -
    have "frb_name g \<noteq> frb_name f" using that Cons.prems(4) by (simp, metis imageI)
    then show ?thesis by (simp add: newer_def)
  qed
  then have "filter (newer time_of ?h) fs = filter (newer time_of h) fs" by (intro filter_cong) auto
  moreover have "history_ok time_of ?h" using Cons.prems(2) f(3) by (auto simp: history_ok_def)
  moreover have "merge_history time_of h (f # fs) = merge_history time_of (if newer time_of h f then ?h else h) fs"
  proof (cases "dget h (frb_name f)")
    case (Some old)
    then obtain before where b: "time_of old = Some before" using Cons.prems(2) by (auto simp: history_ok_def)
    then have "old \<noteq> []" using Cons.prems(3) by auto
    then show ?thesis using Some f b by (simp add: newer_def)
  qed (simp add: newer_def f)
  ultimately show ?case
    using Cons.IH [of ?h] Cons.IH [of h] Cons.prems f by (cases "newer time_of h f") simp_all
qed simp

lemma fold_dset_other: "\<forall>f\<in>set fs. frb_name f \<noteq> name \<Longrightarrow>
    dget (fold (\<lambda>f. dset (frb_name f) (g f)) fs h) name = dget h name"
  by (induction fs arbitrary: h) auto

lemma fold_dset_in: "distinct (map frb_name fs) \<Longrightarrow> f \<in> set fs \<Longrightarrow>
    dget (fold (\<lambda>f. dset (frb_name f) (g f)) fs h) (frb_name f) = Some (g f)"
proof (induction fs arbitrary: h)
  case (Cons a fs)
  have "\<forall>g\<in>set fs. frb_name g \<noteq> frb_name a" using Cons.prems(1) by (simp, metis imageI)
  then show ?case using Cons by (cases "f = a") (simp_all add: fold_dset_other)
qed simp

text \<open>
  A catalogue is announced exactly when the baseline changes: for sources with distinct names, neither
  step fails; there is nothing to announce if and only if the baseline stays as it is; afterwards every
  source of the catalogue is in the baseline with its own time or a later one, and no time in the
  baseline ever moves back.
\<close>

lemma chime_updates_exact:
  assumes "list_all (frb_ok time_of) fs" and "distinct (map frb_name fs)"
    and "history_ok time_of h" and "time_of [] = None"
  shows "\<exists>reps pulses merged. find_updates time_of fs h = Inr (reps, pulses) \<and> merge_history time_of h fs = Inr merged
     \<and> (reps = [] \<and> pulses = [] \<longleftrightarrow> merged = h)
     \<and> (\<forall>f\<in>set fs. \<exists>ts. dget merged (frb_name f) = Some ts \<and> the (frb_observed f) \<le> the (time_of ts))
     \<and> (\<forall>name ts. dget h name = Some ts \<longrightarrow>
          (\<exists>ts'. dget merged name = Some ts' \<and> the (time_of ts) \<le> the (time_of ts')))"
proof -
  let ?n = "filter (newer time_of h) fs"
  let ?m = "fold (\<lambda>f. dset (frb_name f) (the (frb_timestamp f))) ?n h"
  have dist: "distinct (map frb_name ?n)" using assms(2) by (simp add: distinct_map_filter)
  have got: "dget ?m (frb_name f) = Some (the (frb_timestamp f))" if "f \<in> set fs" "newer time_of h f" for f
    using fold_dset_in [OF dist, of f "\<lambda>f. the (frb_timestamp f)" h] that by simp
  have kept: "dget ?m name = dget h name" if "\<And>f. f \<in> set fs \<Longrightarrow> newer time_of h f \<Longrightarrow> frb_name f \<noteq> name" for name
    using that by (intro fold_dset_other) auto
  have ok: "time_of (the (frb_timestamp f)) = Some (the (frb_observed f))" if "f \<in> set fs" for f
    using assms(1) that by (auto simp: frb_ok_def list_all_iff)
  have none: "filter (\<lambda>f. dget h (frb_name f) = None) fs = [] \<and> filter (\<lambda>f. dget h (frb_name f) \<noteq> None \<and> newer time_of h f) fs = []
      \<longleftrightarrow> ?n = []"
    by (auto simp: filter_empty_conv newer_def split: option.splits)
  have same: "?n = [] \<longleftrightarrow> ?m = h"
  proof
    assume m: "?m = h"
    show "?n = []"
    proof (rule ccontr)
      assume "?n \<noteq> []"
      then obtain f where f: "f \<in> set fs" "newer time_of h f" by (auto simp: filter_empty_conv)
      then show False using got [OF f] ok [OF f(1)] m by (auto simp: newer_def)
    qed
  qed simp
  have mine: "\<exists>ts. dget ?m (frb_name f) = Some ts \<and> the (frb_observed f) \<le> the (time_of ts)" if f: "f \<in> set fs" for f
  proof (cases "newer time_of h f")
    case True
    then show ?thesis using got [OF f] ok [OF f] by auto
  next
    case False
    then obtain ts where ts: "dget h (frb_name f) = Some ts" "the (frb_observed f) \<le> the (time_of ts)"
      by (auto simp: newer_def split: option.splits)
    have "g = f" if "g \<in> set fs" "frb_name g = frb_name f" for g
      using assms(2) that f by (auto simp: distinct_map inj_on_def)
    then have "dget ?m (frb_name f) = dget h (frb_name f)" using False by (intro kept) auto
    then show ?thesis using ts by auto
  qed
  have forward: "\<exists>ts'. dget ?m name = Some ts' \<and> the (time_of ts) \<le> the (time_of ts')" if h: "dget h name = Some ts" for name ts
  proof (cases "\<exists>f\<in>set fs. newer time_of h f \<and> frb_name f = name")
    case True
    then obtain f where f: "f \<in> set fs" "newer time_of h f" "frb_name f = name" by blast
    then show ?thesis using got [OF f(1,2)] ok [OF f(1)] h by (auto simp: newer_def)
  next
    case False
    then show ?thesis using kept [of name] h by auto
  qed
  show ?thesis
    using find_updates_eq [OF assms(1,3)] merge_history_eq [OF assms(1,3,4,2)] none same mine forward by blast
qed

definition sample_time :: "ustr \<Rightarrow> real option" where
  "sample_time s = (if s = [] then None else Some (real (hd s)))"

definition sample_frbs :: "frb list" where
  "sample_frbs = [\<lparr>frb_name = U ''FRB1'', frb_timestamp = Some [5], frb_observed = Some 5\<rparr>,
     \<lparr>frb_name = U ''FRB2'', frb_timestamp = Some [3], frb_observed = Some 3\<rparr>]"

section \<open>Delivery under failures\<close>

abbreviation keys_of :: "fanout_target list \<Rightarrow> ustr set" where
  "keys_of ts \<equiv> target_key ` set ts"

text \<open>The notification with some progress between two sets of keys.\<close>

definition progress :: "pending_fanout \<Rightarrow> ustr set \<Rightarrow> ustr set \<Rightarrow> pending_fanout option set" where
  "progress p lo hi = {Some (p\<lparr>delivered := D\<rparr>) | D. lo \<subseteq> D \<and> D \<subseteq> hi}"

lemma progress_one: "Some p \<in> progress p (delivered p) (delivered p)"
  by (auto simp: progress_def intro: exI [of _ "delivered p"])

lemma progress_mono: "lo' \<subseteq> lo \<Longrightarrow> hi \<subseteq> hi' \<Longrightarrow> progress p lo hi \<subseteq> progress p lo' hi'"
  unfolding progress_def by blast

lemma progress_update: "progress (p\<lparr>delivered := D\<rparr>) lo hi = progress p lo hi"
  by (simp add: progress_def)

definition chime_ok :: "chime_env \<Rightarrow> bool" where
  "chime_ok E \<longleftrightarrow> env_posix E \<and> json_codec (env_codec E)"

abbreviation box_in :: "chime_env \<Rightarrow> pending_fanout option set \<Rightarrow> disk \<Rightarrow> bool" where
  "box_in E \<equiv> outbox_in (env_printed E) (env_codec E) fanout_path"

text \<open>
  The outbox after the loop: exactly the notification in memory when it went through, and otherwise a
  progress that has every acknowledgement but perhaps that of the last message.
\<close>

definition loop_post ::
  "chime_env \<Rightarrow> pending_fanout \<Rightarrow> fanout_target list \<Rightarrow> (pending_fanout \<times> bool) io_outcome \<Rightarrow> disk \<Rightarrow> bool" where
  "loop_post E p sent out d \<longleftrightarrow> (case out of
      Ret (p', True) \<Rightarrow> p' = p\<lparr>delivered := delivered p \<union> keys_of sent\<rparr> \<and> box_in E {Some p'} d
    | Raise _ \<Rightarrow> False
    | _ \<Rightarrow> box_in E (progress p (delivered p \<union> keys_of (butlast sent)) (delivered p \<union> keys_of sent)) d)"

lemma loop_post_here:
  assumes "box_in E {Some p} d"
  shows "loop_post E p [] (Ret (p, True)) d" "loop_post E p [] Crash d"
  using assms progress_one [of p] by (auto simp: loop_post_def intro: outbox_in_mono)

text \<open>What one more message before the rest of the loop makes of it.\<close>

lemma loop_post_cons:
  assumes "loop_post E (p\<lparr>delivered := insert (target_key t) (delivered p)\<rparr>) sent out d"
  shows "loop_post E p (t # sent) out d"
proof -
  have lo: "delivered p \<union> keys_of (butlast (t # sent))
      \<subseteq> insert (target_key t) (delivered p) \<union> keys_of (butlast sent)" by auto
  have hi: "insert (target_key t) (delivered p) \<union> keys_of sent = delivered p \<union> keys_of (t # sent)" by auto
  have box: "box_in E (progress p (delivered p \<union> keys_of (butlast (t # sent))) (delivered p \<union> keys_of (t # sent))) d"
    if "box_in E (progress p (insert (target_key t) (delivered p) \<union> keys_of (butlast sent))
          (insert (target_key t) (delivered p) \<union> keys_of sent)) d"
    by (rule outbox_in_mono [OF that]) (rule progress_mono [OF lo], simp add: hi)
  show ?thesis
    using assms box
    by (auto simp: loop_post_def progress_update hi [symmetric] split: io_outcome.splits bool.splits)
qed

lemma mark_delivered_outbox:
  assumes "chime_ok E" and "finite (delivered p)" and "pending_storable p" and "box_in E {Some p} d0"
    and "mark_delivered (env_posix E) (env_printed E) (env_codec E) fanout_path p t = (p', save)"
    and "t \<in> set (targets p)" and "save rs d0 = (r, rs', d)"
  shows "p' = p\<lparr>delivered := insert (target_key t) (delivered p)\<rparr> \<and> same_files fanout_path d0 d
     \<and> box_in E (progress p (delivered p) (insert (target_key t) (delivered p))) d
     \<and> (r = Ret () \<longrightarrow> box_in E {Some p'} d)"
proof -
  let ?p = "p\<lparr>delivered := insert (target_key t) (delivered p)\<rparr>"
  have p': "p' = ?p" and save: "save = save_pending True (env_printed E) (env_codec E) fanout_path ?p"
    using assms(1,5,6) by (auto simp: mark_delivered_def Let_def chime_ok_def)
  have "{Some ?p, Some p} \<subseteq> progress p (delivered p) (insert (target_key t) (delivered p))"
    using progress_one [of p] unfolding progress_def by fastforce
  moreover have "pending_storable ?p" using assms(3) by (simp add: pending_storable_def)
  ultimately show ?thesis
    using save_pending_outbox [OF _ _ _ assms(4) assms(7) [unfolded save]] assms(1,2) p'
    by (auto simp: chime_ok_def intro: outbox_in_mono)
qed

lemma deliver_loop_post:
  assumes "chime_ok E" and "finite (delivered p)" and "pending_storable p" and "box_in E {Some p} d0"
    and "set ts \<subseteq> set (targets p)" and "deliver_loop E ts p res rs d0 = (out, sent, rs', d)"
  shows "loop_post E p sent out d \<and> same_files fanout_path d0 d \<and> subseq sent ts"
  using assms
proof (induction ts arbitrary: p res rs d0 out sent rs' d)
  case Nil
  then show ?case using loop_post_here(1) same_files_refl by auto
next
  case (Cons t ts)
  note IH = Cons.IH and prems = Cons.prems
  show ?case
  proof (cases res)
    case Nil
    then show ?thesis using prems loop_post_here(2) same_files_refl by auto
  next
    case (Cons r res')
    note res = Cons
    show ?thesis
    proof (cases "r = Sent \<or> r = Unknown_result")
      case False
      then have "deliver_loop E ts p res' rs d0 = (out, sent, rs', d)" using prems(6) res by simp
      from IH [OF prems(1-4) _ this] prems(5) show ?thesis by (auto intro: subseq_Cons')
    next
      case True
      obtain p' save where m: "mark_delivered (env_posix E) (env_printed E) (env_codec E) fanout_path p t = (p', save)"
        by (metis prod.collapse)
      obtain o1 rs1 d1 where s: "save rs d0 = (o1, rs1, d1)" by (metis prod.collapse)
      have t: "t \<in> set (targets p)" using prems(5) by simp
      from mark_delivered_outbox [OF prems(1-4) m t s]
      have p': "p' = p\<lparr>delivered := insert (target_key t) (delivered p)\<rparr>" and same: "same_files fanout_path d0 d1"
        and box: "box_in E (progress p (delivered p) (insert (target_key t) (delivered p))) d1"
        and acked: "o1 = Ret () \<Longrightarrow> box_in E {Some p'} d1" by auto
      show ?thesis
      proof (cases o1)
        case (Ret u)
        obtain out2 sent2 rs2 d2 where l: "deliver_loop E ts p' res' rs1 d1 = (out2, sent2, rs2, d2)"
          by (metis prod.collapse)
        have q: "finite (delivered p')" "pending_storable p'" "set ts \<subseteq> set (targets p')"
          using prems(2,3,5) by (auto simp: p' pending_storable_def)
        have "loop_post E p' sent2 out2 d2 \<and> same_files fanout_path d1 d2 \<and> subseq sent2 ts"
          using IH [OF prems(1) q(1,2) acked q(3) l] Ret by simp
        moreover have "out = out2 \<and> sent = t # sent2 \<and> d = d2"
          using prems(6) res True m s Ret l by (auto simp: Let_def)
        ultimately show ?thesis
          using loop_post_cons same_files_trans [OF same] p' by auto
      next
        case (Raise e)
        then have "out = Ret (p', False) \<and> sent = [t] \<and> d = d1"
          using prems(6) res True m s by (auto simp: Let_def)
        then show ?thesis using box same by (auto simp: loop_post_def)
      next
        case Crash
        then have "out = Crash \<and> sent = [t] \<and> d = d1"
          using prems(6) res True m s by (auto simp: Let_def)
        then show ?thesis using box same by (auto simp: loop_post_def)
      qed
    qed
  qed
qed

lemma attempt_run: "attempt m rs d = (case m rs d of
    (Ret x, rs', d') \<Rightarrow> (Ret (Inr x), rs', d') | (Raise e, rs', d') \<Rightarrow> (Ret (Inl e), rs', d') | (Crash, rs', d') \<Rightarrow> (Crash, rs', d'))"
  by (auto simp: attempt_def catchI_def bindI_def retI_def split: prod.splits io_outcome.splits)

text \<open>The files of the baseline and of the outbox, with their backups and temporary files, are apart.\<close>

lemma files_apart: "\<not> store_files history_path fanout_path" "\<not> store_files fanout_path history_path"
  by (auto simp: store_files_def is_temp_def temp_name_def backup_path_def history_path_def fanout_path_def)

definition baseline :: "chime_env \<Rightarrow> pyval \<Rightarrow> bytes option \<Rightarrow> bool" where
  "baseline E v x \<longleftrightarrow> (\<exists>h c. validate_history (env_time_of E) v = Inr h
     \<and> encode (env_codec E) (history_json h) = Inr c \<and> x = Some c)"

lemma save_history_result:
  assumes ok: "chime_ok E" "disk_ok d0" and run: "save_history E v rs d0 = (r, rs', d)"
  shows "disk_ok d \<and> same_files history_path d0 d
     \<and> (\<forall>x. may_read d history_path x \<longrightarrow> may_read d0 history_path x \<or> baseline E v x)
     \<and> (r = Ret True \<longrightarrow> (\<forall>x. may_read d history_path x \<longrightarrow> baseline E v x))"
proof (cases "validate_history (env_time_of E) v")
  case (Inl e)
  then have "d = d0" "r = Ret False"
    using run by (auto simp: save_history_def bindI_def attempt_run py_io_def liftI_def raiseI_def retI_def)
  then show ?thesis using ok(2) same_files_refl by simp
next
  case (Inr h)
  obtain r1 rs1 d1 where w: "store_write True (env_codec E) history_path (history_json h) rs d0 = (r1, rs1, d1)"
    by (metis prod.collapse)
  have "d = d1" "r = Ret True \<Longrightarrow> r1 = Ret ()"
    using run w Inr ok(1)
    by (auto simp: save_history_def chime_ok_def bindI_def attempt_run py_io_def liftI_def retI_def split: io_outcome.splits)
  then show ?thesis
    using store_write_result [OF ok(2) w] Inr by (fastforce simp: baseline_def published_def)
qed

text \<open>After the loop: the outbox is cleared only when the baseline is safe.\<close>

lemma finish_delivery_result:
  assumes ok: "chime_ok E" and box: "box_in E {Some p} d0" and run: "finish_delivery E p rs d0 = (r, rs', d)"
  defines "v \<equiv> entry_of (commit p) ''history''"
  shows "disk_ok d
     \<and> (\<forall>c. may_read d fanout_path c \<longrightarrow> outbox (env_printed E) (env_codec E) c = Inr (Some p)
          \<or> outbox (env_printed E) (env_codec E) c = Inr None \<and> fanout_complete p
            \<and> (\<forall>x. may_read d history_path x \<longrightarrow> baseline E v x))
     \<and> (r = Ret True \<longrightarrow> box_in E {None} d)
     \<and> (\<forall>x. may_read d history_path x \<longrightarrow> may_read d0 history_path x \<or> fanout_complete p \<and> baseline E v x)"
proof (cases "fanout_complete p")
  case False
  then have "d = d0" "r = Ret False" using run by (auto simp: finish_delivery_def retI_def)
  then show ?thesis using box by (auto simp: outbox_in_def)
next
  case True
  obtain r1 rs1 d1 where s: "save_history E v rs d0 = (r1, rs1, d1)" by (metis prod.collapse)
  have "disk_ok d0" using box by (simp add: outbox_in_def)
  from save_history_result [OF ok this s]
  have d1: "disk_ok d1" "same_files history_path d0 d1"
    "\<forall>x. may_read d1 history_path x \<longrightarrow> may_read d0 history_path x \<or> baseline E v x"
    "r1 = Ret True \<Longrightarrow> \<forall>x. may_read d1 history_path x \<longrightarrow> baseline E v x" by auto
  have box1: "box_in E {Some p} d1"
    using box d1(1,2) files_apart(1) by (auto simp: outbox_in_def same_files_def)
  show ?thesis
  proof (cases "r1 = Ret True")
    case False
    then have "d = d1" "r \<noteq> Ret True"
      using run True s by (auto simp: finish_delivery_def bindI_def retI_def v_def split: io_outcome.splits)
    then show ?thesis using box1 d1 True by (auto simp: outbox_in_def)
  next
    case saved: True
    obtain r2 rs2 d2 where c: "clear_pending True (env_codec E) fanout_path rs1 d1 = (r2, rs2, d2)"
      by (metis prod.collapse)
    have d: "d = d2" "r = Ret True \<Longrightarrow> r2 = Ret ()"
      using run True s saved c ok
      by (auto simp: finish_delivery_def bindI_def retI_def v_def attempt_run chime_ok_def split: io_outcome.splits)
    have "json_codec (env_codec E)" using ok by (simp add: chime_ok_def)
    from clear_pending_outbox [OF this box1 c]
    have c2: "box_in E {None, Some p} d2" "same_files fanout_path d1 d2" "r2 = Ret () \<Longrightarrow> box_in E {None} d2" by auto
    have "\<forall>x. may_read d2 history_path x \<longrightarrow> baseline E v x"
      using d1(4) [OF saved] c2(2) files_apart(2) by (auto simp: same_files_def)
    then show ?thesis using c2 d True by (auto simp: outbox_in_def)
  qed
qed

lemma deliver_pending_result:
  assumes "chime_ok E" and "finite (delivered p)" and "pending_storable p"
    and "outbox_in (env_printed E) (env_codec E) fanout_path {Some p} d0"
    and "deliver_pending E p res rs d0 = (out, sent, rs', d)"
  shows "subseq sent (pending_targets p)
     \<and> (\<forall>c. may_read d fanout_path c \<longrightarrow>
          (\<exists>D. outbox (env_printed E) (env_codec E) c = Inr (Some (p\<lparr>delivered := D\<rparr>))
             \<and> delivered p \<union> target_key ` set (butlast sent) \<subseteq> D \<and> D \<subseteq> delivered p \<union> target_key ` set sent)
          \<or> outbox (env_printed E) (env_codec E) c = Inr None
             \<and> (\<forall>t\<in>set (targets p). target_key t \<in> delivered p \<union> target_key ` set sent)
             \<and> (\<forall>x. may_read d history_path x \<longrightarrow> baseline E (entry_of (commit p) ''history'') x))
     \<and> (out = Ret True \<longrightarrow> (\<forall>c. may_read d fanout_path c \<longrightarrow> outbox (env_printed E) (env_codec E) c = Inr None))
     \<and> (\<forall>x. may_read d history_path x \<longrightarrow> may_read d0 history_path x
          \<or> baseline E (entry_of (commit p) ''history'') x \<and> (\<forall>t\<in>set (targets p). target_key t \<in> delivered p \<union> target_key ` set sent))"
    (is "?once \<and> ?box d \<and> ?clear d \<and> ?hist d")
proof -
  let ?in = "box_in E (progress p (delivered p \<union> keys_of (butlast sent)) (delivered p \<union> keys_of sent))"
  obtain o1 sent1 rs1 d1 where l: "deliver_loop E (pending_targets p) p res rs d0 = (o1, sent1, rs1, d1)"
    by (metis prod.collapse)
  have "set (pending_targets p) \<subseteq> set (targets p)" by (auto simp: pending_targets_def)
  from deliver_loop_post [OF assms(1-4) this l]
  have post: "loop_post E p sent1 o1 d1" and same: "same_files fanout_path d0 d1" and once: "subseq sent1 (pending_targets p)"
    by auto
  have sent: "sent = sent1" using assms(5) l by (auto simp: deliver_pending_def split: io_outcome.splits if_splits prod.splits)
  have hist1: "\<forall>x. may_read d1 history_path x \<longrightarrow> may_read d0 history_path x"
    using same files_apart(2) by (auto simp: same_files_def)
  have stopped: ?thesis if st: "d = d1" "out \<noteq> Ret True" "?in d1"
  proof -
    have "?box d1"
    proof (intro allI impI disjI1)
      fix c
      assume "may_read d1 fanout_path c"
      then obtain q where "q \<in> progress p (delivered p \<union> keys_of (butlast sent)) (delivered p \<union> keys_of sent)"
          "outbox (env_printed E) (env_codec E) c = Inr q"
        using st(3) by (auto simp: outbox_in_def)
      then show "\<exists>D. outbox (env_printed E) (env_codec E) c = Inr (Some (p\<lparr>delivered := D\<rparr>))
          \<and> delivered p \<union> keys_of (butlast sent) \<subseteq> D \<and> D \<subseteq> delivered p \<union> keys_of sent"
        by (auto simp: progress_def)
    qed
    then show ?thesis using st(1,2) once hist1 sent by simp
  qed
  show ?thesis
  proof (cases o1)
    case (Ret x)
    obtain p' b where x: "x = (p', b)" by (cases x)
    show ?thesis
    proof (cases b)
      case False
      have "d = d1" "out \<noteq> Ret True" using assms(5) l False by (auto simp: deliver_pending_def Ret x)
      moreover have "?in d1" using post False unfolding sent by (simp add: loop_post_def Ret x)
      ultimately show ?thesis by (rule stopped)
    next
      case True
      then have p': "p' = p\<lparr>delivered := delivered p \<union> keys_of sent\<rparr>" and box: "box_in E {Some p'} d1"
        using post Ret x sent by (auto simp: loop_post_def)
      obtain r2 rs2 d2 where f: "finish_delivery E p' rs1 d1 = (r2, rs2, d2)" by (metis prod.collapse)
      have d: "d = d2" "out = r2" using assms(5) l Ret x True f by (auto simp: deliver_pending_def)
      have comm: "commit p' = commit p" by (simp add: p')
      have complete: "fanout_complete p' \<longleftrightarrow> (\<forall>t\<in>set (targets p). target_key t \<in> delivered p \<union> keys_of sent)"
        by (simp add: fanout_complete_def p' list_all_iff)
      note fin = finish_delivery_result [OF assms(1) box f, unfolded comm complete]
      have once': ?once using once sent by simp
      have at_box: "(\<exists>D. outbox (env_printed E) (env_codec E) c = Inr (Some (p\<lparr>delivered := D\<rparr>))
          \<and> delivered p \<union> keys_of (butlast sent) \<subseteq> D \<and> D \<subseteq> delivered p \<union> keys_of sent)"
        if "outbox (env_printed E) (env_codec E) c = Inr (Some p')" for c
        using that p' by (intro exI [of _ "delivered p \<union> keys_of sent"]) (auto dest: in_set_butlastD)
      have "?box d2" using fin [THEN conjunct2, THEN conjunct1] at_box by metis
      moreover have "?clear d2"
        using fin [THEN conjunct2, THEN conjunct2, THEN conjunct1] unfolding d(2) outbox_in_def by simp
      moreover have "?hist d2" using fin [THEN conjunct2, THEN conjunct2, THEN conjunct2] hist1 by metis
      ultimately show ?thesis unfolding d(1) by (intro conjI once')
    qed
  next
    case (Raise e)
    then show ?thesis using post by (simp add: loop_post_def)
  next
    case Crash
    have "d = d1" "out \<noteq> Ret True" using assms(5) l by (auto simp: deliver_pending_def Crash)
    moreover have "?in d1" using post unfolding sent by (simp add: loop_post_def Crash)
    ultimately show ?thesis by (rule stopped)
  qed
qed


definition sample_env :: chime_env where
  "sample_env = \<lparr>env_posix = True, env_printed = (\<lambda>_. []), env_codec = table_codec sample_docs, env_time_of = sample_time\<rparr>"

definition outbox_disk :: disk where
  "outbox_disk = \<lparr>names = [fanout_path \<mapsto> 0], older = [], content = (\<lambda>_. [0]), flushed = (\<lambda>_. True), next_node = 1\<rparr>"

lemma sample_pending_ok: "pending_ok (sample_pending {})"
  by (simp add: pending_ok_def sample_pending_def target_ok_def target_key_def max_event_id_chars_def
      max_segments_def max_targets_def as_dict_def int_str_def nat_str.simps)

lemma outbox_disk_holds:
  "outbox_in (env_printed sample_env) (env_codec sample_env) fanout_path {Some (sample_pending {})} outbox_disk"
proof -
  have "encode (table_codec sample_docs) (fanout_root (pending_json (sample_pending {}))) = Inr [0]"
    by (simp add: sample_docs_def sample_encode)
  then have "outbox (\<lambda>_. []) (table_codec sample_docs) (Some [0]) = Inr (Some (sample_pending {}))"
    by (rule outbox_saved [OF table_codec_ok _ sample_pending_ok, rotated 2])
      (simp_all add: sample_pending_def pending_storable_def)
  then show ?thesis
    by (auto simp: outbox_in_def may_read_def versions_def outbox_disk_def disk_ok_def sample_env_def split: if_splits)
qed


lemma deliver_loop_subseq: "deliver_loop E ts p res rs d = (out, sent, rs', d') \<Longrightarrow> subseq sent ts"
proof (induction E ts p res rs d arbitrary: out sent rs' d' rule: deliver_loop.induct)
  case (3 E t ts p r res rs d)
  then show ?case
    by (fastforce simp: Let_def split: if_splits prod.splits io_outcome.splits intro: subseq_Cons')
qed auto

lemma deliver_pending_subseq:
  "deliver_pending E p res rs d = (out, sent, rs', d') \<Longrightarrow> subseq sent (pending_targets p)"
  by (auto simp: deliver_pending_def dest: deliver_loop_subseq split: prod.splits io_outcome.splits if_splits)


text \<open>The first message goes out, and the power fails before that is on the disk: a retry sends it again.\<close>

lemma sample_sent:
  "fst (snd (deliver_pending sample_env (sample_pending {}) [Sent] [] outbox_disk)) = [\<lparr>kind = U ''group'', target_id = 1\<rparr>]"
  by (simp add: deliver_pending_def sample_pending_def pending_targets_def Let_def split: prod.split io_outcome.split)

lemma save_nothing: "save_pending posix other k path p [] d = (out, rs, d') \<Longrightarrow> d' = d"
  by (auto simp: save_pending_def py_io_def store_write_def encode_io_def liftI_def read_payload_def read_bytes_def
      call_def bindI_def catchI_def retI_def raiseI_def split: sum.splits io_outcome.splits prod.splits)


end
