(* ===== verification/File_Cache.thy ===== *)
theory File_Cache
  imports Atomic_Store "HOL-Library.List_Lexorder" "HOL-Library.Product_Lexorder"
begin

text \<open>
  The bounded disk cache (\<^verbatim>\<open>core/bounded_file_cache.py\<close>): files of one directory with an age limit,
  least-recently-used eviction, and limits on entries and bytes. Operations run under the path lock of
  the directory, one after the other; the moment \<open>now\<close> is what \<^verbatim>\<open>time.time()\<close> returned.
\<close>

section \<open>The directory\<close>

datatype file_kind = Regular | Symlink_to_file | Not_a_file

record cache_file =
  file_kind :: file_kind
  file_bytes :: bytes
  file_mtime :: real

type_synonym cache_dir = "(fname, cache_file) dict"

record cache_limits =
  max_entries :: int
  max_bytes :: int
  ttl_seconds :: real

text \<open>\<^verbatim>\<open>FileCacheLimits.__post_init__\<close>.\<close>

definition make_limits :: "int \<Rightarrow> int \<Rightarrow> real \<Rightarrow> pyerr + cache_limits" where
  "make_limits n b ttl =
     (if n \<le> 0 \<or> b \<le> 0 \<or> ttl \<le> 0 then Inl (ValueError ''file cache limits must be positive'')
      else Inr \<lparr>max_entries = n, max_bytes = b, ttl_seconds = ttl\<rparr>)"

text \<open>The pattern \<^verbatim>\<open>[A-Za-z0-9][A-Za-z0-9._-]{0,127}\<close> of a whole name.\<close>

definition name_start :: "uchar \<Rightarrow> bool" where
  "name_start c \<longleftrightarrow> 65 \<le> c \<and> c \<le> 90 \<or> 97 \<le> c \<and> c \<le> 122 \<or> 48 \<le> c \<and> c \<le> 57"

definition safe_name :: "fname \<Rightarrow> bool" where
  "safe_name s = (case s of
      [] \<Rightarrow> False
    | c # r \<Rightarrow> name_start c \<and> length r \<le> 127 \<and> list_all (\<lambda>c. name_start c \<or> c = 46 \<or> c = 95 \<or> c = 45) r)"

definition validate_name :: "fname \<Rightarrow> pyerr + fname" where
  "validate_name s = (if safe_name s then Inr s else Inl (ValueError ''unsafe cache filename''))"

text \<open>\<^verbatim>\<open>_entries_unlocked\<close>: regular files whose name does not start with a dot.\<close>

definition visible_entry :: "fname \<times> cache_file \<Rightarrow> bool" where
  "visible_entry x \<longleftrightarrow> \<not> startswith (fst x) (U ''.'') \<and> file_kind (snd x) = Regular"

definition cache_entries :: "cache_dir \<Rightarrow> (fname \<times> cache_file) list" where
  "cache_entries d = filter visible_entry d"

definition entry_size :: "fname \<times> cache_file \<Rightarrow> int" where
  "entry_size x = int (length (file_bytes (snd x)))"

definition total_size :: "(fname \<times> cache_file) list \<Rightarrow> int" where
  "total_size xs = sum_list (map entry_size xs)"

section \<open>Pruning\<close>

definition over_limits :: "cache_limits \<Rightarrow> (fname \<times> cache_file) list \<Rightarrow> int \<Rightarrow> bool" where
  "over_limits L xs used \<longleftrightarrow> int (length xs) > max_entries L \<or> used > max_bytes L"

text \<open>\<^verbatim>\<open>next((index for ... if path != protect), None)\<close>.\<close>

fun victim_index :: "fname option \<Rightarrow> (fname \<times> cache_file) list \<Rightarrow> nat option" where
  "victim_index protect [] = None"
| "victim_index protect (x # xs) =
     (if Some (fst x) \<noteq> protect then Some 0 else map_option Suc (victim_index protect xs))"

lemma victim_index_less: "victim_index protect xs = Some i \<Longrightarrow> i < length xs"
  by (induction xs arbitrary: i) (auto split: if_splits)

text \<open>The loop that evicts, on the sorted entries with their total size: the entries left and the names removed.\<close>

function evict :: "cache_limits \<Rightarrow> fname option \<Rightarrow> (fname \<times> cache_file) list \<Rightarrow> int \<Rightarrow> (fname \<times> cache_file) list \<times> fname list" where
  "evict L protect xs used =
     (if \<not> over_limits L xs used then (xs, [])
      else case victim_index protect xs of
          None \<Rightarrow> (xs, [])
        | Some i \<Rightarrow> (case evict L protect (take i xs @ drop (Suc i) xs) (used - entry_size (xs ! i)) of
              (left, gone) \<Rightarrow> (left, fst (xs ! i) # gone)))"
  by pat_completeness auto
termination
  by (relation "measure (\<lambda>(L, protect, xs, used). length xs)") (auto dest: victim_index_less)

declare evict.simps [simp del]

definition entry_key :: "fname \<times> cache_file \<Rightarrow> real \<times> fname" where
  "entry_key x = (file_mtime (snd x), fst x)"

definition expired :: "cache_limits \<Rightarrow> real \<Rightarrow> fname option \<Rightarrow> fname \<times> cache_file \<Rightarrow> bool" where
  "expired L now protect x \<longleftrightarrow> Some (fst x) \<noteq> protect \<and> now - file_mtime (snd x) > ttl_seconds L"

definition retained_entries :: "cache_limits \<Rightarrow> real \<Rightarrow> fname option \<Rightarrow> cache_dir \<Rightarrow> (fname \<times> cache_file) list" where
  "retained_entries L now protect d = sort_key entry_key (filter (\<lambda>x. \<not> expired L now protect x) (cache_entries d))"

definition prune :: "cache_limits \<Rightarrow> real \<Rightarrow> fname option \<Rightarrow> cache_dir \<Rightarrow> cache_dir" where
  "prune L now protect d =
     (let old = map fst (filter (expired L now protect) (cache_entries d));
          kept = retained_entries L now protect d;
          gone = snd (evict L protect kept (total_size kept))
      in filter (\<lambda>x. fst x \<notin> set old \<and> fst x \<notin> set gone) d)"

section \<open>Operations\<close>

definition is_cached :: "cache_dir \<Rightarrow> fname \<Rightarrow> bool" where
  "is_cached d name \<longleftrightarrow> (case dget d name of Some f \<Rightarrow> file_kind f = Regular | None \<Rightarrow> False)"

definition touch :: "real \<Rightarrow> fname \<Rightarrow> cache_dir \<Rightarrow> cache_dir" where
  "touch now name d = (case dget d name of
      Some f \<Rightarrow> dset name (f\<lparr>file_mtime := now\<rparr>) d
    | None \<Rightarrow> d)"

text \<open>\<^verbatim>\<open>path.is_file()\<close> follows links.\<close>

definition is_file :: "cache_dir \<Rightarrow> fname \<Rightarrow> bool" where
  "is_file d name \<longleftrightarrow> (case dget d name of Some f \<Rightarrow> file_kind f \<noteq> Not_a_file | None \<Rightarrow> False)"

definition get_any :: "cache_limits \<Rightarrow> real \<Rightarrow> fname list \<Rightarrow> cache_dir \<Rightarrow> pyerr + fname option \<times> cache_dir" where
  "get_any L now ns d =
     bindE (mapE validate_name ns) (\<lambda>valid.
       let d1 = prune L now None d
       in Inr (case find (is_cached d1) valid of
            Some name \<Rightarrow> (Some name, touch now name d1)
          | None \<Rightarrow> (None, d1)))"

definition prepare :: "cache_limits \<Rightarrow> fname \<Rightarrow> bytes \<Rightarrow> pyerr + fname option" where
  "prepare L name b =
     bindE (validate_name name) (\<lambda>valid. Inr (if int (length b) > max_bytes L then None else Some valid))"

text \<open>
  An atomic write to a name that is a directory fails; otherwise it may fail or not, \<open>written\<close>, and
  leaves either the old file or the new one.
\<close>

definition write_cached :: "bool \<Rightarrow> real \<Rightarrow> fname \<Rightarrow> bytes \<Rightarrow> cache_dir \<Rightarrow> pyerr + cache_dir" where
  "write_cached written now name b d =
     (if \<not> written \<or> (case dget d name of Some f \<Rightarrow> file_kind f = Not_a_file | None \<Rightarrow> False)
      then Inl (OtherError ''OSError'')
      else Inr (dset name \<lparr>file_kind = Regular, file_bytes = b, file_mtime = now\<rparr> d))"

definition store_unlocked ::
  "bool \<Rightarrow> cache_limits \<Rightarrow> real \<Rightarrow> fname \<Rightarrow> bytes \<Rightarrow> cache_dir \<Rightarrow> pyerr + fname option \<times> cache_dir" where
  "store_unlocked written L now name b d =
     bindE (write_cached written now name b d) (\<lambda>d1.
       let d2 = prune L now (Some name) (touch now name d1)
       in Inr (if is_file d2 name then Some name else None, d2))"

definition put :: "bool \<Rightarrow> cache_limits \<Rightarrow> real \<Rightarrow> fname \<Rightarrow> bytes \<Rightarrow> cache_dir \<Rightarrow> pyerr + fname option \<times> cache_dir" where
  "put written L now name b d = bindE (prepare L name b) (\<lambda>p. case p of
      None \<Rightarrow> Inr (None, d)
    | Some n \<Rightarrow> store_unlocked written L now n b d)"

definition put_if_absent ::
  "bool \<Rightarrow> cache_limits \<Rightarrow> real \<Rightarrow> fname \<Rightarrow> bytes \<Rightarrow> cache_dir \<Rightarrow> pyerr + (fname option \<times> bool) \<times> cache_dir" where
  "put_if_absent written L now name b d = bindE (prepare L name b) (\<lambda>p. case p of
      None \<Rightarrow> Inr ((None, False), d)
    | Some n \<Rightarrow>
        if is_cached d n
        then Inr ((Some n, False), prune L now (Some n) (touch now n d))
        else bindE (store_unlocked written L now n b d) (\<lambda>(stored, d1).
          Inr ((stored, stored \<noteq> None), d1)))"

section \<open>What eviction keeps\<close>

abbreviation unprotected :: "fname option \<Rightarrow> fname \<times> cache_file \<Rightarrow> bool" where
  "unprotected protect x \<equiv> Some (fst x) \<noteq> protect"

text \<open>The list without its first \<open>k\<close> entries that may be evicted.\<close>

fun without :: "fname option \<Rightarrow> nat \<Rightarrow> (fname \<times> cache_file) list \<Rightarrow> (fname \<times> cache_file) list" where
  "without protect 0 xs = xs"
| "without protect (Suc k) [] = []"
| "without protect (Suc k) (x # xs) =
     (if unprotected protect x then without protect k xs else x # without protect (Suc k) xs)"

lemma without_Nil [simp]: "without protect k [] = []"
  by (cases k) auto

lemma victim_without: "victim_index protect xs = Some i \<Longrightarrow>
    take i xs @ drop (Suc i) xs = without protect 1 xs \<and> filter (unprotected protect) xs = xs ! i # filter (unprotected protect) (without protect 1 xs)
    \<and> mset xs = add_mset (xs ! i) (mset (without protect 1 xs))"
  by (induction xs arbitrary: i) (auto split: if_splits)

lemma victim_None: "victim_index protect xs = None \<longleftrightarrow> filter (unprotected protect) xs = []"
  by (induction xs) auto

lemma without_without: "without protect k (without protect (Suc 0) xs) = without protect (Suc k) xs"
  by (induction xs; cases k) auto

lemma total_size_mset: "mset xs = mset ys \<Longrightarrow> total_size xs = total_size ys"
  unfolding total_size_def by (metis mset_map sum_mset_sum_list)

lemma over_limits_mset: "mset xs = mset ys \<Longrightarrow> over_limits L xs (total_size xs) = over_limits L ys (total_size ys)"
  using total_size_mset [of xs ys] mset_eq_length [of xs ys] by (simp add: over_limits_def)

lemma total_size_add: "mset xs = add_mset x (mset ys) \<Longrightarrow> total_size xs = entry_size x + total_size ys"
  using total_size_mset [of xs "x # ys"] by (simp add: total_size_def)

lemma evict_spec:
  assumes "used = total_size xs"
  shows "\<exists>k \<le> length (filter (unprotected protect) xs).
     evict L protect xs used = (without protect k xs, map fst (take k (filter (unprotected protect) xs)))
     \<and> (\<forall>j<k. over_limits L (without protect j xs) (total_size (without protect j xs)))
     \<and> (\<not> over_limits L (without protect k xs) (total_size (without protect k xs)) \<or> k = length (filter (unprotected protect) xs))"
  using assms
proof (induction L protect xs used rule: evict.induct)
  case (1 L protect xs used)
  show ?case
  proof (cases "over_limits L xs used")
    case False
    then show ?thesis using 1(2) by (intro exI [of _ 0]) (simp add: evict.simps)
  next
    case over: True
    show ?thesis
    proof (cases "victim_index protect xs")
      case None
      then have "evict L protect xs used = (xs, [])" by (simp add: evict.simps)
      then show ?thesis using None by (intro exI [of _ 0]) (simp add: victim_None)
    next
      case (Some i)
      let ?ys = "without protect 1 xs"
      note v = victim_without [OF Some]
      have "used - entry_size (xs ! i) = total_size ?ys" using total_size_add [of xs "xs ! i" ?ys] v 1(2) by simp
      then obtain k where k: "k \<le> length (filter (unprotected protect) ?ys)"
        "evict L protect ?ys (used - entry_size (xs ! i)) = (without protect k ?ys, map fst (take k (filter (unprotected protect) ?ys)))"
        "\<forall>j<k. over_limits L (without protect j ?ys) (total_size (without protect j ?ys))"
        "\<not> over_limits L (without protect k ?ys) (total_size (without protect k ?ys)) \<or> k = length (filter (unprotected protect) ?ys)"
        using 1(1) [OF _ Some] over v by auto
      have "evict L protect xs used = (without protect (Suc k) xs, map fst (take (Suc k) (filter (unprotected protect) xs)))"
        using over Some k(2) v by (subst evict.simps) (simp add: without_without)
      moreover have "over_limits L (without protect j xs) (total_size (without protect j xs))" if "j < Suc k" for j
      proof (cases j)
        case (Suc a)
        then show ?thesis using that k(3) by (simp add: without_without)
      qed (use over 1(2) in simp)
      moreover have "\<not> over_limits L (without protect (Suc k) xs) (total_size (without protect (Suc k) xs))
          \<or> Suc k = length (filter (unprotected protect) xs)"
        using k(4) v by (auto simp: without_without)
      ultimately show ?thesis using k(1) v by (intro exI [of _ "Suc k"]) auto
    qed
  qed
qed

lemma without_filter:
  assumes "distinct xs"
  shows "without protect k xs = filter (\<lambda>x. x \<notin> set (take k (filter (unprotected protect) xs))) xs"
  using assms
proof (induction xs arbitrary: k)
  case (Cons x xs)
  show ?case
  proof (cases k)
    case (Suc j)
    have "filter (\<lambda>y. y \<noteq> x \<and> y \<notin> set (take j (filter (unprotected protect) xs))) xs
        = filter (\<lambda>y. y \<notin> set (take j (filter (unprotected protect) xs))) xs"
      using Cons.prems by (intro filter_cong) auto
    moreover have "x \<notin> set (take n (filter (unprotected protect) xs))" for n
      using Cons.prems by (auto dest: in_set_takeD)
    ultimately show ?thesis using Cons Suc by auto
  qed simp
qed simp

text \<open>In an increasing list, the entries before the one at place \<open>j\<close> are the smaller ones.\<close>

lemma take_smaller:
  fixes f :: "'a \<Rightarrow> 'b::linorder"
  assumes "sorted_wrt (<) (map f xs)" and "j < length xs" and "y \<in> set xs"
  shows "y \<in> set (take j xs) \<longleftrightarrow> f y < f (xs ! j)"
proof -
  obtain i where i: "i < length xs" "xs ! i = y" using assms(3) by (auto simp: in_set_conv_nth)
  have lt: "f (xs ! a) < f (xs ! b)" if "a < b" "b < length xs" for a b
    using assms(1) that by (auto simp: sorted_wrt_iff_nth_less)
  have "y \<in> set (take j xs) \<longleftrightarrow> i < j"
  proof
    assume "y \<in> set (take j xs)"
    then obtain a where a: "a < j" "a < length xs" "xs ! a = y" by (auto simp: in_set_conv_nth)
    then have "a = i" using lt [of a i] lt [of i a] i by (metis less_irrefl linorder_neqE_nat)
    then show "i < j" using a by simp
  qed (use i in \<open>auto simp: in_set_conv_nth intro!: exI [of _ i]\<close>)
  also have "\<dots> \<longleftrightarrow> f y < f (xs ! j)"
    using lt [of i j] lt [of j i] i assms(2) by (metis less_asym linorder_neqE_nat less_irrefl)
  finally show ?thesis .
qed

abbreviation fresh_entries :: "cache_limits \<Rightarrow> real \<Rightarrow> fname option \<Rightarrow> cache_dir \<Rightarrow> (fname \<times> cache_file) list" where
  "fresh_entries L now protect d \<equiv> filter (\<lambda>x. \<not> expired L now protect x) (cache_entries d)"

lemma entries_distinct:
  assumes "dict_ok d"
  shows "distinct (cache_entries d)" "distinct (fresh_entries L now protect d)"
    "distinct (retained_entries L now protect d)" "sorted_wrt (<) (map entry_key (retained_entries L now protect d))"
proof -
  have d: "distinct d" using assms by (simp add: distinct_map)
  then show "distinct (cache_entries d)" "distinct (fresh_entries L now protect d)"
    by (simp_all add: cache_entries_def)
  then show r: "distinct (retained_entries L now protect d)" by (simp add: retained_entries_def)
  have "inj_on entry_key (set (retained_entries L now protect d))"
  proof (rule inj_onI)
    fix x y
    assume "x \<in> set (retained_entries L now protect d)" "y \<in> set (retained_entries L now protect d)" "entry_key x = entry_key y"
    then have "x \<in> set d" "y \<in> set d" "fst x = fst y"
      by (auto simp: retained_entries_def cache_entries_def entry_key_def)
    then show "x = y" using assms by (auto simp: distinct_map inj_on_def)
  qed
  then have "distinct (map entry_key (retained_entries L now protect d))" using r by (simp add: distinct_map)
  moreover have "sorted (map entry_key (retained_entries L now protect d))" by (simp add: retained_entries_def)
  ultimately show "sorted_wrt (<) (map entry_key (retained_entries L now protect d))"
    by (simp add: strict_sorted_iff)
qed

lemma dict_same: "dict_ok d \<Longrightarrow> x \<in> set d \<Longrightarrow> y \<in> set d \<Longrightarrow> fst x = fst y \<Longrightarrow> x = y"
  by (auto simp: distinct_map inj_on_def)

lemma dict_image: "dict_ok d \<Longrightarrow> x \<in> set d \<Longrightarrow> S \<subseteq> set d \<Longrightarrow> fst x \<in> fst ` S \<longleftrightarrow> x \<in> S"
proof
  assume a: "dict_ok d" "x \<in> set d" "S \<subseteq> set d" "fst x \<in> fst ` S"
  then obtain y where "y \<in> S" "fst x = fst y" by blast
  then show "x \<in> S" using dict_same [OF a(1,2), of y] a(3) by auto
qed simp

lemma prune_result:
  fixes protect :: "fname option" and L :: cache_limits and now :: real and d :: cache_dir
  assumes ok: "dict_ok d"
  defines "kept \<equiv> retained_entries L now protect d"
  shows "\<exists>k \<le> length (filter (unprotected protect) kept).
     cache_entries (prune L now protect d) = filter (\<lambda>x. x \<notin> set (take k (filter (unprotected protect) kept))) (fresh_entries L now protect d)
     \<and> mset (cache_entries (prune L now protect d)) = mset (without protect k kept)
     \<and> (\<forall>j<k. over_limits L (without protect j kept) (total_size (without protect j kept)))
     \<and> (\<not> over_limits L (without protect k kept) (total_size (without protect k kept)) \<or> k = length (filter (unprotected protect) kept))"
proof -
  obtain k where k: "k \<le> length (filter (unprotected protect) kept)"
    "evict L protect kept (total_size kept) = (without protect k kept, map fst (take k (filter (unprotected protect) kept)))"
    "\<forall>j<k. over_limits L (without protect j kept) (total_size (without protect j kept))"
    "\<not> over_limits L (without protect k kept) (total_size (without protect k kept)) \<or> k = length (filter (unprotected protect) kept)"
    using evict_spec [OF refl] by blast
  let ?gone = "set (take k (filter (unprotected protect) kept))"
  have kept: "set kept = set (fresh_entries L now protect d)" by (simp add: kept_def retained_entries_def)
  have sub: "?gone \<subseteq> set d" using kept by (auto dest!: in_set_takeD simp: cache_entries_def)
  have names: "fst x \<in> fst ` ?gone \<longleftrightarrow> x \<in> ?gone" if "x \<in> set d" for x
    by (rule dict_image [OF ok that sub])
  have old: "fst x \<in> fst ` set (filter (expired L now protect) (cache_entries d)) \<longleftrightarrow> expired L now protect x"
    if "x \<in> set (cache_entries d)" for x
    using that dict_image [OF ok, of x "set (filter (expired L now protect) (cache_entries d))"]
    by (auto simp: cache_entries_def)
  have entries: "cache_entries (prune L now protect d) = filter (\<lambda>x. x \<notin> ?gone) (fresh_entries L now protect d)"
  proof -
    let ?old = "map fst (filter (expired L now protect) (cache_entries d))"
    have "cache_entries (prune L now protect d)
        = filter (\<lambda>x. fst x \<notin> set ?old \<and> fst x \<notin> fst ` ?gone) (cache_entries d)"
      by (simp add: prune_def Let_def kept_def [symmetric] k(2) cache_entries_def conj_commute conj_left_commute)
    also have "\<dots> = filter (\<lambda>x. \<not> expired L now protect x \<and> x \<notin> ?gone) (cache_entries d)"
    proof (rule filter_cong [OF refl])
      fix x
      assume x: "x \<in> set (cache_entries d)"
      then have "x \<in> set d" by (simp add: cache_entries_def)
      from names [OF this] old [OF x]
      show "(fst x \<notin> set ?old \<and> fst x \<notin> fst ` ?gone) = (\<not> expired L now protect x \<and> x \<notin> ?gone)"
        by (simp only: set_map)
    qed
    finally show ?thesis by (simp add: filter_filter conj_commute)
  qed
  have "mset (cache_entries (prune L now protect d)) = filter_mset (\<lambda>x. x \<notin> ?gone) (mset (fresh_entries L now protect d))"
    by (simp only: entries mset_filter)
  also have "mset (fresh_entries L now protect d) = mset kept" by (simp add: kept_def retained_entries_def)
  also have "filter_mset (\<lambda>x. x \<notin> ?gone) (mset kept) = mset (without protect k kept)"
    using without_filter [OF entries_distinct(3) [OF ok, of L now protect], of protect k] by (simp add: kept_def)
  finally have "mset (cache_entries (prune L now protect d)) = mset (without protect k kept)" .
  with k entries show ?thesis by blast
qed

text \<open>
  C26. Pruning follows least-recent use and removes nothing it need not: files the cache does not manage
  stay; so does the protected file; expired entries go, and of the others an entry goes only if it is
  older than every entry that stays and if the entries from it on, together with the protected one,
  exceed a limit. Afterwards the limits hold, or nothing but the protected file is left.
\<close>

theorem file_cache_lru:
  fixes protect :: "fname option" and L :: cache_limits and now :: real and d :: cache_dir
  assumes "dict_ok d"
  defines "kept \<equiv> cache_entries (prune L now protect d)"
  shows "filter (\<lambda>x. \<not> visible_entry x) (prune L now protect d) = filter (\<lambda>x. \<not> visible_entry x) d
     \<and> set kept \<subseteq> {x \<in> set (cache_entries d). \<not> expired L now protect x}
     \<and> (\<forall>x\<in>set (cache_entries d). Some (fst x) = protect \<longrightarrow> x \<in> set kept)
     \<and> (\<forall>x\<in>set (cache_entries d). \<not> expired L now protect x \<longrightarrow> x \<notin> set kept \<longrightarrow>
          (\<forall>y\<in>set kept. Some (fst y) \<noteq> protect \<longrightarrow> entry_key x < entry_key y)
          \<and> (let zs = filter (\<lambda>y. \<not> expired L now protect y \<and> (Some (fst y) = protect \<or> entry_key x \<le> entry_key y)) (cache_entries d)
             in over_limits L zs (total_size zs)))
     \<and> (\<not> over_limits L kept (total_size kept) \<or> (\<forall>x\<in>set kept. Some (fst x) = protect))"
proof -
  let ?all = "retained_entries L now protect d"
  let ?un = "filter (unprotected protect) ?all"
  obtain k where k: "k \<le> length ?un"
    "kept = filter (\<lambda>x. x \<notin> set (take k ?un)) (fresh_entries L now protect d)"
    "mset kept = mset (without protect k ?all)"
    "\<forall>j<k. over_limits L (without protect j ?all) (total_size (without protect j ?all))"
    "\<not> over_limits L (without protect k ?all) (total_size (without protect k ?all)) \<or> k = length ?un"
    using prune_result [OF assms(1)] unfolding kept_def by blast
  have all: "set ?all = set (fresh_entries L now protect d)" by (simp add: retained_entries_def)
  have un: "sorted_wrt (<) (map entry_key ?un)"
    using entries_distinct(4) [OF assms(1), of L now protect]
    by (metis sorted_wrt_filter sorted_wrt_map)
  have hidden: "filter (\<lambda>x. \<not> visible_entry x) (prune L now protect d) = filter (\<lambda>x. \<not> visible_entry x) d"
  proof -
    obtain g where g: "snd (evict L protect ?all (total_size ?all)) = map fst g" "set g \<subseteq> set ?all"
      using evict_spec [OF refl, of protect ?all L] by (force dest: in_set_takeD)
    have "fst x \<notin> fst ` set (filter (expired L now protect) (cache_entries d)) \<and> fst x \<notin> fst ` set g"
      if "x \<in> set d" "\<not> visible_entry x" for x
      using that dict_image [OF assms(1) that(1), of "set (filter (expired L now protect) (cache_entries d))"]
        dict_image [OF assms(1) that(1), of "set g"] g(2) all by (auto simp: cache_entries_def)
    then show ?thesis by (auto simp: prune_def Let_def g(1) intro!: filter_cong)
  qed
  have lru: "(\<forall>y\<in>set kept. Some (fst y) \<noteq> protect \<longrightarrow> entry_key x < entry_key y)
      \<and> (let zs = filter (\<lambda>y. \<not> expired L now protect y \<and> (Some (fst y) = protect \<or> entry_key x \<le> entry_key y)) (cache_entries d)
         in over_limits L zs (total_size zs))"
    if x: "x \<in> set (cache_entries d)" "\<not> expired L now protect x" "x \<notin> set kept" for x
  proof -
    have "x \<in> set (take k ?un)" using x k(2) by auto
    then obtain j where j: "j < k" "j < length ?un" "?un ! j = x" by (auto simp: in_set_conv_nth)
    have small: "y \<in> set (take j ?un) \<longleftrightarrow> entry_key y < entry_key x" if "y \<in> set ?un" for y
      using take_smaller [OF un j(2) that] j(3) by simp
    have younger: "entry_key x < entry_key y" if y: "y \<in> set kept" "Some (fst y) \<noteq> protect" for y
    proof -
      have u: "y \<in> set ?un" "y \<notin> set (take k ?un)" using y k(2) all by auto
      then have "y \<notin> set (take (Suc j) ?un)"
        using j(1) set_take_subset_set_take [of "Suc j" k ?un] by auto
      then have "y \<notin> set (take j ?un)" "y \<noteq> x" using j(2,3) by (auto simp: take_Suc_conv_app_nth)
      then have "\<not> entry_key y < entry_key x" using small [OF u(1)] by simp
      moreover have "entry_key y \<noteq> entry_key x"
      proof
        assume "entry_key y = entry_key x"
        then have "fst y = fst x" by (simp add: entry_key_def)
        then show False using dict_same [OF assms(1), of y x] u(1) x(1) \<open>y \<noteq> x\<close> all by (auto simp: cache_entries_def)
      qed
      ultimately show ?thesis by simp
    qed
    let ?zs = "filter (\<lambda>y. \<not> expired L now protect y \<and> (Some (fst y) = protect \<or> entry_key x \<le> entry_key y)) (cache_entries d)"
    have "without protect j ?all = filter (\<lambda>y. y \<notin> set (take j ?un)) ?all"
      by (rule without_filter [OF entries_distinct(3) [OF assms(1)]])
    also have "\<dots> = filter (\<lambda>y. Some (fst y) = protect \<or> entry_key x \<le> entry_key y) ?all"
    proof (rule filter_cong [OF refl])
      fix y
      assume y: "y \<in> set ?all"
      show "y \<notin> set (take j ?un) \<longleftrightarrow> Some (fst y) = protect \<or> entry_key x \<le> entry_key y"
        using small [of y] y by (cases "Some (fst y) = protect") (auto dest: in_set_takeD)
    qed
    finally have "mset (without protect j ?all) = mset ?zs"
      by (simp add: retained_entries_def filter_filter_mset)
    then have "over_limits L ?zs (total_size ?zs)"
      using k(4) j(1) over_limits_mset by blast
    then show ?thesis using younger by (auto simp: Let_def)
  qed
  have "\<not> over_limits L kept (total_size kept) \<or> (\<forall>x\<in>set kept. Some (fst x) = protect)"
  proof (cases "k = length ?un")
    case True
    then show ?thesis using k(2) all by auto
  next
    case False
    then show ?thesis using k(5) over_limits_mset [OF k(3)] by simp
  qed
  moreover have "x \<in> set kept" if "x \<in> set (cache_entries d)" "Some (fst x) = protect" for x
    using that k(2) by (auto simp: expired_def dest: in_set_takeD)
  moreover have "set kept \<subseteq> {x \<in> set (cache_entries d). \<not> expired L now protect x}" using k(2) by auto
  ultimately show ?thesis using hidden lru by (intro conjI ballI impI) simp_all
qed

section \<open>The limits hold after every operation\<close>

definition limits_ok :: "cache_limits \<Rightarrow> bool" where
  "limits_ok L \<longleftrightarrow> 0 < max_entries L \<and> 0 < max_bytes L \<and> 0 < ttl_seconds L"

lemma make_limits_ok: "make_limits n b ttl = Inr L \<Longrightarrow> limits_ok L"
  by (auto simp: make_limits_def limits_ok_def split: if_splits)

text \<open>What the cache promises about a directory.\<close>

definition within_limits :: "cache_limits \<Rightarrow> real \<Rightarrow> cache_dir \<Rightarrow> bool" where
  "within_limits L now d \<longleftrightarrow> int (length (cache_entries d)) \<le> max_entries L \<and> total_size (cache_entries d) \<le> max_bytes L
     \<and> (\<forall>x\<in>set (cache_entries d). now - file_mtime (snd x) \<le> ttl_seconds L)"

lemma dget_filter_names: "dget (filter (\<lambda>x. fst x \<notin> S) d) n = (if n \<in> S then None else dget d n)"
  by (induction d) auto

lemma dict_ok_filter: "dict_ok d \<Longrightarrow> dict_ok (filter P d)"
  by (induction d) auto

lemma prune_names: "\<exists>S. prune L now protect d = filter (\<lambda>x. fst x \<notin> S) d \<and> (\<forall>n. protect = Some n \<longrightarrow> n \<notin> S)"
proof -
  let ?kept = "retained_entries L now protect d"
  let ?old = "map fst (filter (expired L now protect) (cache_entries d))"
  obtain k where "snd (evict L protect ?kept (total_size ?kept)) = map fst (take k (filter (unprotected protect) ?kept))"
    using evict_spec [OF refl, of protect ?kept L] by (metis snd_conv)
  then have "prune L now protect d = filter (\<lambda>x. fst x \<notin> set ?old \<union> fst ` set (take k (filter (unprotected protect) ?kept))) d"
    by (simp add: prune_def Let_def)
  moreover have "n \<notin> set ?old \<union> fst ` set (take k (filter (unprotected protect) ?kept))" if "protect = Some n" for n
    using that by (auto simp: expired_def dest!: in_set_takeD)
  ultimately show ?thesis by blast
qed

lemma cache_prune_ok: "dict_ok d \<Longrightarrow> dict_ok (prune L now protect d)"
  using prune_names [of L now protect d] dict_ok_filter by metis

lemma prune_protected: "dget (prune L now (Some n) d) n = dget d n"
  using prune_names [of L now "Some n" d] by (auto simp: dget_filter_names)

lemma cache_prune_dget: "dget (prune L now protect d) n = Some f \<Longrightarrow> dget d n = Some f"
  using prune_names [of L now protect d] by (auto simp: dget_filter_names split: if_splits)

lemma only_protected:
  assumes "dict_ok d" and "\<forall>x\<in>set (cache_entries d). Some (fst x) = protect"
    and "\<forall>n f. protect = Some n \<longrightarrow> dget d n = Some f \<longrightarrow> int (length (file_bytes f)) \<le> max_bytes L"
    and "limits_ok L"
  shows "\<not> over_limits L (cache_entries d) (total_size (cache_entries d))"
proof (cases "cache_entries d")
  case Nil
  then show ?thesis using assms(4) by (simp add: over_limits_def total_size_def limits_ok_def)
next
  case (Cons x xs)
  have single: "xs = []"
  proof (rule ccontr)
    assume "xs \<noteq> []"
    then obtain y where "y \<in> set xs" by (cases xs) auto
    then have xy: "x \<in> set d" "y \<in> set d" "fst x = fst y" "x \<noteq> y"
      using assms(2) Cons entries_distinct(1) [OF assms(1)] set_filter [of visible_entry d]
      by (auto simp: cache_entries_def [symmetric])
    then show False using dict_same [OF assms(1)] by blast
  qed
  have "x \<in> set d" using Cons set_filter [of visible_entry d] by (auto simp: cache_entries_def [symmetric])
  then have "dget d (fst x) = Some (snd x)" using assms(1) by (simp add: map_of_eq_Some_iff)
  moreover have "protect = Some (fst x)" using assms(2) Cons by auto
  ultimately have "entry_size x \<le> max_bytes L" using assms(3) by (simp add: entry_size_def)
  with single show ?thesis using Cons assms(4) by (simp add: over_limits_def total_size_def limits_ok_def)
qed

lemma prune_within:
  assumes "dict_ok d" and "limits_ok L"
    and "\<forall>n f. protect = Some n \<longrightarrow> dget d n = Some f \<longrightarrow>
      int (length (file_bytes f)) \<le> max_bytes L \<and> (file_kind f = Regular \<longrightarrow> now - file_mtime f \<le> ttl_seconds L)"
  shows "within_limits L now (prune L now protect d)"
proof -
  let ?kept = "cache_entries (prune L now protect d)"
  let ?un = "filter (unprotected protect) (retained_entries L now protect d)"
  obtain k where k: "?kept = filter (\<lambda>x. x \<notin> set (take k ?un)) (fresh_entries L now protect d)"
    "mset ?kept = mset (without protect k (retained_entries L now protect d))"
    "\<not> over_limits L (without protect k (retained_entries L now protect d)) (total_size (without protect k (retained_entries L now protect d)))
      \<or> k = length ?un"
    using prune_result [OF assms(1), of protect L now] by blast
  have "\<not> over_limits L ?kept (total_size ?kept)"
  proof (cases "k = length ?un")
    case True
    then have "\<forall>x\<in>set ?kept. Some (fst x) = protect" using k(1) by (auto simp: retained_entries_def)
    then show ?thesis
      using only_protected [OF cache_prune_ok [OF assms(1)] _ _ assms(2)] assms(3) cache_prune_dget by blast
  next
    case False
    then show ?thesis using k(3) over_limits_mset [OF k(2)] by simp
  qed
  moreover have "now - file_mtime (snd x) \<le> ttl_seconds L" if x: "x \<in> set ?kept" for x
  proof (cases "Some (fst x) = protect")
    case True
    have "x \<in> set (cache_entries d)" using x unfolding k(1) by simp
    then have "x \<in> set d" "file_kind (snd x) = Regular" by (auto simp: cache_entries_def visible_entry_def)
    moreover from this(1) have "dget d (fst x) = Some (snd x)" using assms(1) by (simp add: map_of_eq_Some_iff)
    ultimately show ?thesis using assms(3) True by auto
  next
    case False
    then show ?thesis using x k(1) by (auto simp: expired_def)
  qed
  ultimately show ?thesis by (auto simp: within_limits_def over_limits_def)
qed

definition touched :: "real \<Rightarrow> fname \<Rightarrow> fname \<times> cache_file \<Rightarrow> fname \<times> cache_file" where
  "touched now n x = (if fst x = n then (n, (snd x)\<lparr>file_mtime := now\<rparr>) else x)"

lemma touch_map: "dict_ok d \<Longrightarrow> touch now n d = map (touched now n) d"
proof (induction d)
  case (Cons a d)
  obtain m f where a: "a = (m, f)" by (cases a)
  show ?case
  proof (cases "m = n")
    case True
    then have "map (touched now n) d = d" using Cons.prems a by (intro map_idI) (auto simp: touched_def rev_image_eqI)
    then have "map (touched now n) (a # d) = touched now n a # d" by simp
    then show ?thesis using a True by (simp add: touch_def) (simp add: touched_def)
  next
    case False
    then have "touch now n (a # d) = a # touch now n d" by (simp add: touch_def a split: option.split)
    moreover have "touched now n a = a" using a False by (simp add: touched_def)
    ultimately show ?thesis using Cons by simp
  qed
qed (simp add: touch_def)

lemma cache_entries_touch: "dict_ok d \<Longrightarrow> cache_entries (touch now n d) = map (touched now n) (cache_entries d)"
proof -
  assume "dict_ok d"
  have "visible_entry \<circ> touched now n = visible_entry"
    by (rule ext) (simp add: visible_entry_def touched_def)
  then show ?thesis by (simp add: touch_map [OF \<open>dict_ok d\<close>] cache_entries_def filter_map)
qed

lemma touch_within:
  assumes "dict_ok d" and "limits_ok L" and "within_limits L now d"
  shows "within_limits L now (touch now n d)"
proof -
  have "entry_size \<circ> touched now n = entry_size"
    by (rule ext) (simp add: entry_size_def touched_def)
  then have "total_size (map (touched now n) (cache_entries d)) = total_size (cache_entries d)"
    by (simp add: total_size_def)
  then show ?thesis
    using assms by (auto simp: within_limits_def cache_entries_touch touched_def limits_ok_def)
qed

lemma touch_dict_ok: "dict_ok d \<Longrightarrow> dict_ok (touch now n d)"
  by (auto simp: touch_def intro: dict_ok_dset split: option.splits)

text \<open>
  C27. After a file is put into the cache the limits hold. The answer is empty exactly for a file that could
  never fit, and then nothing is touched; otherwise the new file is there with its bytes, as the most
  recent one, the cache has at most its number of entries and of bytes, and none of them is expired.
\<close>

theorem file_cache_put:
  assumes "limits_ok L" and "dict_ok d" and "put written L now name b d = Inr (res, d')"
  shows "(res = None \<longleftrightarrow> int (length b) > max_bytes L) \<and> (res = None \<longrightarrow> d' = d)
     \<and> (\<forall>n. res = Some n \<longrightarrow> n = name \<and> safe_name name \<and> within_limits L now d'
          \<and> dget d' name = Some \<lparr>file_kind = Regular, file_bytes = b, file_mtime = now\<rparr>)
     \<and> dict_ok d'"
proof (cases "int (length b) > max_bytes L")
  case True
  then show ?thesis
    using assms by (auto simp: put_def prepare_def validate_name_def bindE_eq_Inr split: if_splits)
next
  case False
  let ?f = "\<lparr>file_kind = Regular, file_bytes = b, file_mtime = now\<rparr>"
  let ?d = "touch now name (dset name ?f d)"
  have run: "safe_name name" "d' = prune L now (Some name) ?d" "res = (if is_file d' name then Some name else None)"
    using assms(3) False
    by (auto simp: put_def prepare_def validate_name_def store_unlocked_def write_cached_def Let_def bindE_eq_Inr
        split: if_splits)
  have ok: "dict_ok ?d" using assms(2) by (intro touch_dict_ok dict_ok_dset)
  have f: "dget ?d name = Some ?f" by (simp add: touch_def)
  then have got: "dget d' name = Some ?f" using run(2) prune_protected by simp
  have "within_limits L now d'"
    unfolding run(2)
    by (rule prune_within [OF ok assms(1)]) (use f False assms(1) in \<open>auto simp: limits_ok_def\<close>)
  then show ?thesis
    using run got False cache_prune_ok [OF ok] by (auto simp: is_file_def)
qed

text \<open>
  A lookup prunes first, so that it never serves an expired file: the name it returns is the first of
  those asked for that is in the cache, its file is unexpired and unchanged but for its time of use, and the
  limits hold afterwards.
\<close>

lemma file_cache_get:
  assumes "limits_ok L" and "dict_ok d" and "get_any L now ns d = Inr (res, d')"
  shows "within_limits L now d' \<and> dict_ok d' \<and> list_all safe_name ns
     \<and> (\<forall>n. res = Some n \<longrightarrow> n \<in> set ns \<and> (\<exists>f. dget d n = Some f \<and> file_kind f = Regular
          \<and> now - file_mtime f \<le> ttl_seconds L \<and> dget d' n = Some (f\<lparr>file_mtime := now\<rparr>)))
     \<and> (res = None \<longrightarrow> (\<forall>n\<in>set ns. \<not> is_cached d' n))"
proof -
  let ?d = "prune L now None d"
  have within: "within_limits L now ?d" by (rule prune_within [OF assms(2,1)]) simp
  have valid: "mapE validate_name ns = Inr xs \<longleftrightarrow> xs = ns \<and> list_all safe_name ns" for xs
    by (induction ns arbitrary: xs) (auto simp: bindE_eq_Inr validate_name_def)
  have safe: "list_all safe_name ns" and
    res: "(res, d') = (case find (is_cached ?d) ns of Some name \<Rightarrow> (Some name, touch now name ?d) | None \<Rightarrow> (None, ?d))"
    using assms(3) by (auto simp: get_any_def bindE_eq_Inr valid Let_def)
  show ?thesis
  proof (cases "find (is_cached ?d) ns")
    case None
    then have "res = None" "d' = ?d" using res by simp_all
    moreover have "\<forall>n\<in>set ns. \<not> is_cached ?d n" using None by (auto simp: find_None_iff)
    ultimately show ?thesis using within safe cache_prune_ok [OF assms(2)] by simp
  next
    case (Some n)
    then have n: "n \<in> set ns" "is_cached ?d n" by (auto simp: find_Some_iff)
    then obtain f where f: "dget ?d n = Some f" "file_kind f = Regular" by (auto simp: is_cached_def split: option.splits)
    have "startswith n (U ''.'') = False"
      using safe n(1) by (cases n) (auto simp: list_all_iff safe_name_def name_start_def startswith_def)
    then have "(n, f) \<in> set (cache_entries ?d)"
      using f map_of_SomeD [OF f(1)] by (simp add: cache_entries_def visible_entry_def)
    then have "now - file_mtime f \<le> ttl_seconds L" using within by (auto simp: within_limits_def)
    moreover have "res = Some n" and d': "d' = touch now n ?d" using res Some by simp_all
    moreover have "dget d' n = Some (f\<lparr>file_mtime := now\<rparr>)" using f by (simp add: d' touch_def)
    moreover have "within_limits L now d'" "dict_ok d'"
      unfolding d' using touch_within [OF cache_prune_ok [OF assms(2)] assms(1) within]
        touch_dict_ok [OF cache_prune_ok [OF assms(2)]] by auto
    ultimately show ?thesis using n f safe cache_prune_dget [OF f(1)] by auto
  qed
qed

section \<open>Concrete caches\<close>

definition sample_limits :: cache_limits where
  "sample_limits = \<lparr>max_entries = 2, max_bytes = 5, ttl_seconds = 10\<rparr>"

definition cached :: "nat \<Rightarrow> bytes \<Rightarrow> real \<Rightarrow> fname \<times> cache_file" where
  "cached c b t = ([c], \<lparr>file_kind = Regular, file_bytes = b, file_mtime = t\<rparr>)"

text \<open>Three files \<open>a\<close>, \<open>b\<close>, \<open>c\<close>; the first is expired at moment 12, the second is older than the third.\<close>

definition sample_dir :: cache_dir where
  "sample_dir = [cached 97 [1] 1, cached 98 [1, 2] 3, cached 99 [1, 2] 5]"

lemma sample_dir_ok: "dict_ok sample_dir" "limits_ok sample_limits"
  by (simp_all add: sample_dir_def cached_def limits_ok_def sample_limits_def)

lemma file_cache_lru_witness:
  "filter (\<lambda>x. \<not> visible_entry x) (prune sample_limits 12 (Some [97]) sample_dir) = filter (\<lambda>x. \<not> visible_entry x) sample_dir
   \<and> cached 97 [1] 1 \<in> set (cache_entries (prune sample_limits 12 (Some [97]) sample_dir))"
proof -
  have "cached 97 [1] 1 \<in> set (cache_entries sample_dir)"
    by (simp add: sample_dir_def cached_def cache_entries_def visible_entry_def safe_name_def name_start_def startswith_iff)
  then show ?thesis
    using file_cache_lru [OF sample_dir_ok(1), of sample_limits 12 "Some [97]"] by (auto simp: cached_def)
qed

lemma file_cache_put_witness:
  "\<exists>res d'. put True sample_limits 12 [100] [7, 7, 7] sample_dir = Inr (res, d') \<and> res \<noteq> None
     \<and> within_limits sample_limits 12 d' \<and> dget d' [100] = Some \<lparr>file_kind = Regular, file_bytes = [7, 7, 7], file_mtime = 12\<rparr>"
proof -
  have "\<exists>res d'. put True sample_limits 12 [100] [7, 7, 7] sample_dir = Inr (res, d')"
    by (simp add: put_def prepare_def validate_name_def safe_name_def name_start_def sample_limits_def
        store_unlocked_def write_cached_def sample_dir_def cached_def Let_def)
  then obtain res d' where run: "put True sample_limits 12 [100] [7, 7, 7] sample_dir = Inr (res, d')" by blast
  from file_cache_put [OF sample_dir_ok(2,1) run] show ?thesis
    using run by (cases res) (auto simp: sample_limits_def)
qed

end
