(* ===== verification/Bounded_Json.thy ===== *)
theory Bounded_Json
  imports Py_Values
begin

text \<open>
  JSON from outside (\<^verbatim>\<open>core/bounded_http.py\<close>): the scan of the raw text before it is parsed, the check
  of the parsed value, and what each of the two accepts. The lemmas show that each of
  the two passes accepts exactly the values whose depth, node count and text are within the limits.
\<close>

section \<open>Limits and errors\<close>

datatype http_error =
    Limit_error string
  | Format_error string
  | Transport_error string
  | Status_error int
  | Redirect_error string
  | Raised pyerr

record json_limits =
  jl_bytes :: nat
  jl_depth :: nat
  jl_nodes :: nat
  jl_string_chars :: nat
  jl_number_chars :: nat

text \<open>\<^verbatim>\<open>JsonLimits.__post_init__\<close>.\<close>

definition make_json_limits :: "int \<Rightarrow> int \<Rightarrow> int \<Rightarrow> int \<Rightarrow> int \<Rightarrow> pyerr + json_limits" where
  "make_json_limits bytes depth nodes chars number =
     (case find (\<lambda>(name, n). n \<le> 0) [(''max_bytes'', bytes), (''max_depth'', depth), (''max_nodes'', nodes),
          (''max_string_chars'', chars), (''max_number_chars'', number)] of
        Some (name, _) \<Rightarrow> Inl (ValueError (name @ '' must be positive''))
      | None \<Rightarrow> Inr \<lparr>jl_bytes = nat bytes, jl_depth = nat depth, jl_nodes = nat nodes,
                  jl_string_chars = nat chars, jl_number_chars = nat number\<rparr>)"

section \<open>The scan of the text\<close>

definition json_hex :: "uchar \<Rightarrow> bool" where
  "json_hex c \<longleftrightarrow> 48 \<le> c \<and> c \<le> 57 \<or> 65 \<le> c \<and> c \<le> 70 \<or> 97 \<le> c \<and> c \<le> 102"

text \<open>Blanks, commas and colons; the characters that end a token; the escapes of one character.\<close>

definition json_skip :: "uchar \<Rightarrow> bool" where
  "json_skip c \<longleftrightarrow> c \<in> {32, 9, 13, 10, 44, 58}"

definition json_delimiter :: "uchar \<Rightarrow> bool" where
  "json_delimiter c \<longleftrightarrow> c \<in> {32, 9, 13, 10, 44, 93, 125, 58}"

definition json_escape :: "uchar \<Rightarrow> bool" where
  "json_escape c \<longleftrightarrow> c \<in> {34, 92, 47, 98, 102, 110, 114, 116}"

definition count_node :: "json_limits \<Rightarrow> nat \<Rightarrow> http_error + nat" where
  "count_node L n = (if n + 1 > jl_nodes L then Inl (Limit_error ''JSON response has too many nodes'') else Inr (n + 1))"

text \<open>The inner loop, after the opening quote: the rest of the text and the characters of strings so far.\<close>

function scan_string :: "json_limits \<Rightarrow> ustr \<Rightarrow> nat \<Rightarrow> http_error + ustr \<times> nat" where
  "scan_string L text chars = (case text of
      [] \<Rightarrow> Inl (Format_error ''unterminated JSON string'')
    | c # r \<Rightarrow>
        if c = 34 then Inr (r, chars)
        else if c < 32 then Inl (Format_error ''invalid control character in JSON string'')
        else if c = 92 then
          (case r of
             [] \<Rightarrow> Inl (Format_error ''invalid JSON escape'')
           | e # r' \<Rightarrow>
               if e = 117 then
                 (if length (take 4 r') \<noteq> 4 \<or> list_ex (\<lambda>d. \<not> json_hex d) (take 4 r')
                  then Inl (Format_error ''invalid JSON unicode escape'')
                  else if chars + 1 > jl_string_chars L then Inl (Limit_error ''JSON response strings are too large'')
                  else scan_string L (drop 4 r') (chars + 1))
               else if \<not> json_escape e then Inl (Format_error ''invalid JSON escape'')
               else if chars + 1 > jl_string_chars L then Inl (Limit_error ''JSON response strings are too large'')
               else scan_string L r' (chars + 1))
        else if chars + 1 > jl_string_chars L then Inl (Limit_error ''JSON response strings are too large'')
        else scan_string L r (chars + 1))"
  by pat_completeness auto
termination by (relation "measure (\<lambda>(L, s, chars). length s)") auto

declare scan_string.simps [simp del]

lemma scan_string_shorter: "scan_string L s chars = Inr (r, n) \<Longrightarrow> length r < length s"
proof (induction L s chars rule: scan_string.induct)
  case (1 L s chars)
  then show ?case
    by (subst (asm) (4) scan_string.simps) (fastforce split: list.splits if_splits)
qed

text \<open>The outer loop: the closing brackets still expected, the nodes and the characters of strings.\<close>

function scan_json :: "json_limits \<Rightarrow> ustr \<Rightarrow> ustr \<Rightarrow> nat \<Rightarrow> nat \<Rightarrow> http_error + unit" where
  "scan_json L [] stack nodes chars =
     (if stack \<noteq> [] then Inl (Format_error ''unterminated JSON container'') else Inr ())"
| "scan_json L (c # r) stack nodes chars =
     (if json_skip c then scan_json L r stack nodes chars
      else if c = 123 \<or> c = 91 then
        (let stack' = (if c = 123 then 125 else 93) # stack
         in if length stack' > jl_depth L then Inl (Limit_error ''JSON response is too deeply nested'')
            else (case count_node L nodes of Inl e \<Rightarrow> Inl e | Inr n \<Rightarrow> scan_json L r stack' n chars))
      else if c = 125 \<or> c = 93 then
        (case stack of
           [] \<Rightarrow> Inl (Format_error ''invalid JSON nesting'')
         | t # stack' \<Rightarrow> if t \<noteq> c then Inl (Format_error ''invalid JSON nesting'') else scan_json L r stack' nodes chars)
      else if c = 34 then
        (case count_node L nodes of
           Inl e \<Rightarrow> Inl e
         | Inr n \<Rightarrow> (case scan_string L r chars of Inl e \<Rightarrow> Inl e | Inr (r', m) \<Rightarrow> scan_json L r' stack n m))
      else
        (let token = takeWhile (\<lambda>x. \<not> json_delimiter x) (c # r); r' = dropWhile (\<lambda>x. \<not> json_delimiter x) (c # r)
         in if token \<in> {U ''true'', U ''false'', U ''null''} then
              (case count_node L nodes of Inl e \<Rightarrow> Inl e | Inr n \<Rightarrow> scan_json L r' stack n chars)
            else if token \<in> {U ''NaN'', U ''Infinity'', U ''-Infinity''} then
              Inl (Format_error ''non-finite JSON number is not allowed'')
            else if token = [] \<or> \<not> (hd token = 45 \<or> 48 \<le> hd token \<and> hd token \<le> 57) then
              Inl (Format_error ''invalid JSON token'')
            else if length token > jl_number_chars L then Inl (Limit_error ''JSON number token is too large'')
            else (case count_node L nodes of Inl e \<Rightarrow> Inl e | Inr n \<Rightarrow> scan_json L r' stack n chars)))"
  by pat_completeness auto
termination
proof (relation "measure (\<lambda>(L, s, stack, nodes, chars). length s)", goal_cases)
  case (5 L c r stack nodes chars n r' m)
  then show ?case by (auto dest: scan_string_shorter)
next
  case (6 L c r stack nodes chars token r' n)
  then have "\<not> json_delimiter c" by (auto simp: U_def split: if_splits)
  then show ?case using 6 length_dropWhile_le [of "\<lambda>x. \<not> json_delimiter x" r] by (simp add: less_Suc_eq_le)
next
  case (7 L c r stack nodes chars token r' n)
  then have "\<not> json_delimiter c" by (auto split: if_splits)
  then show ?case using 7 length_dropWhile_le [of "\<lambda>x. \<not> json_delimiter x" r] by (simp add: less_Suc_eq_le)
qed auto

declare scan_json.simps [simp del]

definition preflight_json :: "json_limits \<Rightarrow> ustr \<Rightarrow> http_error + unit" where
  "preflight_json L s = scan_json L s [] 0 0"

section \<open>The check of the parsed value\<close>

text \<open>The loop over the entries of an object: counts each key and puts each child on the stack.\<close>

fun push_entries :: "json_limits \<Rightarrow> nat \<Rightarrow> (ustr \<times> pyval) list \<Rightarrow> (pyval \<times> nat) list \<Rightarrow> nat \<Rightarrow> nat
     \<Rightarrow> http_error + (pyval \<times> nat) list \<times> nat \<times> nat" where
  "push_entries L d [] stack nodes chars = Inr (stack, nodes, chars)"
| "push_entries L d ((key, child) # kvs) stack nodes chars =
     (case count_node L nodes of
        Inl e \<Rightarrow> Inl e
      | Inr n \<Rightarrow> push_entries L d kvs ((child, d + 1) # stack) n (chars + length key))"

definition string_check :: "json_limits \<Rightarrow> nat \<Rightarrow> http_error + unit" where
  "string_check L chars =
     (if chars > jl_string_chars L then Inl (Limit_error ''JSON response strings are too large'') else Inr ())"

lemma push_entries_Inr:
  "push_entries L d kvs stack nodes chars = Inr (stack', n, m) \<Longrightarrow>
     stack' = rev (map (\<lambda>x. (snd x, d + 1)) kvs) @ stack \<and> n = nodes + length kvs \<and> m = chars + sum_list (map (length \<circ> fst) kvs)"
  by (induction L d kvs stack nodes chars rule: push_entries.induct)
    (auto simp: count_node_def split: if_splits sum.splits)

function check_values :: "json_limits \<Rightarrow> (pyval \<times> nat) list \<Rightarrow> nat \<Rightarrow> nat \<Rightarrow> http_error + unit" where
  "check_values L [] nodes chars = Inr ()"
| "check_values L ((v, d) # stack) nodes chars =
     (if d > jl_depth L then Inl (Limit_error ''JSON response is too deeply nested'')
      else (case count_node L nodes of
          Inl e \<Rightarrow> Inl e
        | Inr n \<Rightarrow>
            (case v of
               VDict kvs \<Rightarrow> (case push_entries L d kvs stack n chars of
                   Inl e \<Rightarrow> Inl e
                 | Inr (stack', n', m) \<Rightarrow>
                     (case string_check L m of Inl e \<Rightarrow> Inl e | Inr _ \<Rightarrow> check_values L stack' n' m))
             | VList vs \<Rightarrow>
                 (case string_check L chars of
                    Inl e \<Rightarrow> Inl e
                  | Inr _ \<Rightarrow> check_values L (rev (map (\<lambda>x. (x, d + 1)) vs) @ stack) n chars)
             | VStr s \<Rightarrow>
                 (case string_check L (chars + length s) of
                    Inl e \<Rightarrow> Inl e | Inr _ \<Rightarrow> check_values L stack n (chars + length s))
             | VFloat x \<Rightarrow>
                 if \<not> isfinite x then Inl (Format_error ''non-finite JSON number is not allowed'')
                 else (case string_check L chars of Inl e \<Rightarrow> Inl e | Inr _ \<Rightarrow> check_values L stack n chars)
             | VTuple _ \<Rightarrow> Inl (Format_error ''JSON response contains an invalid value'')
             | VOther \<Rightarrow> Inl (Format_error ''JSON response contains an invalid value'')
             | _ \<Rightarrow> (case string_check L chars of Inl e \<Rightarrow> Inl e | Inr _ \<Rightarrow> check_values L stack n chars))))"
  by pat_completeness auto

text \<open>
  The size of a value as the documents count it: a node for every value and every key of an object, the
  characters of strings and keys, and the nesting of values with a value on its own at depth one. Each turn
  of the loop replaces a value by its parts, which ends it.
\<close>

fun value_nodes :: "pyval \<Rightarrow> nat" where
  "value_nodes (VList vs) = 1 + sum_list (map value_nodes vs)"
| "value_nodes (VDict kvs) = 1 + sum_list (map (\<lambda>x. 1 + value_nodes (snd x)) kvs)"
| "value_nodes _ = 1"

fun value_chars :: "pyval \<Rightarrow> nat" where
  "value_chars (VList vs) = sum_list (map value_chars vs)"
| "value_chars (VDict kvs) = sum_list (map (\<lambda>x. length (fst x) + value_chars (snd x)) kvs)"
| "value_chars (VStr s) = length s"
| "value_chars _ = 0"

fun value_depth :: "pyval \<Rightarrow> nat" where
  "value_depth (VList vs) = Suc (foldr max (map value_depth vs) 0)"
| "value_depth (VDict kvs) = Suc (foldr max (map (\<lambda>x. value_depth (snd x)) kvs) 0)"
| "value_depth _ = 1"

text \<open>The values JSON has.\<close>

fun value_plain :: "pyval \<Rightarrow> bool" where
  "value_plain (VList vs) = list_all value_plain vs"
| "value_plain (VDict kvs) = list_all (\<lambda>x. value_plain (snd x)) kvs"
| "value_plain (VFloat x) = isfinite x"
| "value_plain (VTuple _) = False"
| "value_plain VOther = False"
| "value_plain _ = True"

lemma value_nodes_pos: "0 < value_nodes v"
  by (cases v) auto

definition stack_nodes :: "(pyval \<times> nat) list \<Rightarrow> nat" where
  "stack_nodes st = sum_list (map (value_nodes \<circ> fst) st)"

lemma stack_nodes_simps [simp]:
  "stack_nodes [] = 0" "stack_nodes (x # st) = value_nodes (fst x) + stack_nodes st"
  "stack_nodes (st @ st') = stack_nodes st + stack_nodes st'"
  "stack_nodes (rev st) = stack_nodes st"
  by (simp_all add: stack_nodes_def rev_map [symmetric])

lemma stack_nodes_values: "stack_nodes (map (\<lambda>x. (x, d)) vs) = sum_list (map value_nodes vs)"
  "stack_nodes (map (\<lambda>x. (snd x, d)) kvs) + length kvs = sum_list (map (\<lambda>x. 1 + value_nodes (snd x)) kvs)"
  by (induction vs) (auto, induction kvs, auto)

lemma push_entries_nodes:
  "push_entries L d kvs stack nodes chars = Inr (stack', n, m) \<Longrightarrow>
     stack_nodes stack' < value_nodes (VDict kvs) + stack_nodes stack"
  using stack_nodes_values(2) [of "d + 1" kvs] by (auto dest!: push_entries_Inr)

lemma push_list_nodes:
  "stack_nodes (rev (map (\<lambda>x. (x, d)) vs) @ stack) < value_nodes (VList vs) + stack_nodes stack"
  using stack_nodes_values(1) [of d vs] by simp

termination check_values
  by (relation "measure (\<lambda>(L, stack, nodes, chars). stack_nodes stack)")
    (use push_list_nodes in \<open>auto dest: push_entries_nodes simp del: stack_nodes_simps(3,4) value_nodes.simps intro: value_nodes_pos\<close>)

declare check_values.simps [simp del]

text \<open>\<^verbatim>\<open>_validate_json_value\<close>.\<close>

definition validate_json_value :: "json_limits \<Rightarrow> pyval \<Rightarrow> http_error + unit" where
  "validate_json_value L v = check_values L [(v, 1)] 0 0"

section \<open>What the check of the value accepts\<close>

text \<open>The sums over the stack; the nesting is that of the deepest value below its own depth.\<close>

definition stack_chars :: "(pyval \<times> nat) list \<Rightarrow> nat" where
  "stack_chars st = sum_list (map (value_chars \<circ> fst) st)"

definition stack_within :: "nat \<Rightarrow> (pyval \<times> nat) list \<Rightarrow> bool" where
  "stack_within D st \<longleftrightarrow> (\<forall>(v, d) \<in> set st. d + value_depth v \<le> D + 1 \<and> value_plain v)"

lemma foldr_max_le: "d \<le> D \<Longrightarrow> d + foldr max ns 0 \<le> (D::nat) \<longleftrightarrow> (\<forall>n \<in> set ns. d + n \<le> D)"
  by (induction ns) (auto simp: max_def)

lemma stack_within_simps [simp]:
  "stack_within D []"
  "stack_within D (x # st) \<longleftrightarrow> snd x + value_depth (fst x) \<le> D + 1 \<and> value_plain (fst x) \<and> stack_within D st"
  "stack_within D (st @ st') \<longleftrightarrow> stack_within D st \<and> stack_within D st'"
  "stack_within D (rev st) \<longleftrightarrow> stack_within D st"
  by (auto simp: stack_within_def)

lemma stack_within_parts:
  "d \<le> D \<Longrightarrow> stack_within D (map (\<lambda>x. (x, Suc d)) vs) \<longleftrightarrow> d + value_depth (VList vs) \<le> D + 1 \<and> value_plain (VList vs)"
  "d \<le> D \<Longrightarrow> stack_within D (map (\<lambda>x. (snd x, Suc d)) kvs) \<longleftrightarrow> d + value_depth (VDict kvs) \<le> D + 1 \<and> value_plain (VDict kvs)"
  by (auto simp: stack_within_def list_all_iff foldr_max_le)

lemma stack_chars_simps [simp]:
  "stack_chars [] = 0" "stack_chars (x # st) = value_chars (fst x) + stack_chars st"
  "stack_chars (st @ st') = stack_chars st + stack_chars st'"
  "stack_chars (rev st) = stack_chars st"
  by (simp_all add: stack_chars_def rev_map [symmetric])

lemma stack_chars_parts:
  "stack_chars (map (\<lambda>x. (x, d)) vs) = value_chars (VList vs)"
  "stack_chars (map (\<lambda>x. (snd x, d)) kvs) + sum_list (map (length \<circ> fst) kvs) = value_chars (VDict kvs)"
  by (induction vs) (auto, induction kvs, auto)

lemma push_entries_ok:
  "nodes \<le> jl_nodes L \<Longrightarrow>
     (\<exists>r. push_entries L d kvs stack nodes chars = Inr r) \<longleftrightarrow> nodes + length kvs \<le> jl_nodes L"
  by (induction L d kvs stack nodes chars rule: push_entries.induct) (auto simp: count_node_def)

lemma push_entries_eq:
  assumes "nodes + length kvs \<le> jl_nodes L"
  shows "push_entries L d kvs stack nodes chars
    = Inr (rev (map (\<lambda>x. (snd x, d + 1)) kvs) @ stack, nodes + length kvs, chars + sum_list (map (length \<circ> fst) kvs))"
  using assms push_entries_ok [of nodes L d kvs stack chars] push_entries_Inr by fastforce

text \<open>One value is taken from the stack: what it may be, and what remains to be checked.\<close>

definition opened :: "pyval \<Rightarrow> nat \<Rightarrow> (pyval \<times> nat) list" where
  "opened v d = rev (case v of VDict kvs \<Rightarrow> map (\<lambda>x. (snd x, Suc d)) kvs | VList vs \<Rightarrow> map (\<lambda>x. (x, Suc d)) vs | _ \<Rightarrow> [])"

definition own_chars :: "pyval \<Rightarrow> nat" where
  "own_chars v = (case v of VDict kvs \<Rightarrow> sum_list (map (length \<circ> fst) kvs) | VStr s \<Rightarrow> length s | _ \<Rightarrow> 0)"

definition own_nodes :: "pyval \<Rightarrow> nat" where
  "own_nodes v = (case v of VDict kvs \<Rightarrow> Suc (length kvs) | _ \<Rightarrow> 1)"

definition json_kind :: "pyval \<Rightarrow> bool" where
  "json_kind v = (case v of VTuple _ \<Rightarrow> False | VOther \<Rightarrow> False | VFloat x \<Rightarrow> isfinite x | _ \<Rightarrow> True)"

lemma check_values_step:
  assumes "nodes \<le> jl_nodes L" "chars \<le> jl_string_chars L"
  shows "check_values L ((v, d) # st) nodes chars = Inr () \<longleftrightarrow>
    d \<le> jl_depth L \<and> json_kind v \<and> nodes + own_nodes v \<le> jl_nodes L \<and> chars + own_chars v \<le> jl_string_chars L
    \<and> check_values L (opened v d @ st) (nodes + own_nodes v) (chars + own_chars v) = Inr ()"
proof (cases v)
  case (VDict kvs)
  show ?thesis
  proof (cases "Suc nodes + length kvs \<le> jl_nodes L")
    case True
    then show ?thesis using assms push_entries_eq [OF True, of d st chars] VDict
      by (auto simp: check_values.simps(2) count_node_def string_check_def opened_def own_chars_def own_nodes_def json_kind_def)
  next
    case False
    then have "\<nexists>r. push_entries L d kvs st (Suc nodes) chars = Inr r" if "Suc nodes \<le> jl_nodes L"
      using push_entries_ok [OF that, of d kvs st chars] by simp
    with False assms VDict show ?thesis
      by (auto simp: check_values.simps(2) count_node_def own_nodes_def split: sum.splits)
  qed
qed (use assms in \<open>auto simp: check_values.simps(2) count_node_def string_check_def opened_def own_chars_def own_nodes_def json_kind_def\<close>)

lemma opened_nodes: "value_nodes v = own_nodes v + stack_nodes (opened v d)"
proof (cases v)
  case (VDict kvs)
  then show ?thesis using stack_nodes_values(2) [of "Suc d" kvs] by (simp add: own_nodes_def opened_def)
qed (simp_all add: own_nodes_def opened_def stack_nodes_values(1))

lemma opened_chars: "value_chars v = own_chars v + stack_chars (opened v d)"
proof (cases v)
  case (VDict kvs)
  then show ?thesis using stack_chars_parts(2) [of "Suc d" kvs] by (simp add: own_chars_def opened_def)
qed (simp_all add: own_chars_def opened_def stack_chars_parts(1))

lemma opened_within:
  "d \<le> D \<Longrightarrow> d + value_depth v \<le> D + 1 \<and> value_plain v \<longleftrightarrow> json_kind v \<and> stack_within D (opened v d)"
  using stack_within_parts [of d D]
  by (cases v) (simp_all add: opened_def json_kind_def del: value_depth.simps(1,2) value_plain.simps(1,2))

lemma value_depth_pos: "0 < value_depth v"
  by (cases v) auto

lemma check_values_exact:
  assumes "nodes \<le> jl_nodes L" "chars \<le> jl_string_chars L"
  shows "check_values L st nodes chars = Inr () \<longleftrightarrow>
    stack_within (jl_depth L) st \<and> nodes + stack_nodes st \<le> jl_nodes L \<and> chars + stack_chars st \<le> jl_string_chars L"
  using assms
proof (induction "stack_nodes st" arbitrary: st nodes chars rule: less_induct)
  case less
  show ?case
  proof (cases st)
    case Nil
    with less.prems show ?thesis by (simp add: check_values.simps)
  next
    case (Cons x st')
    obtain v d where x: "x = (v, d)" by (cases x)
    have "0 < own_nodes v" by (cases v) (auto simp: own_nodes_def)
    then have "stack_nodes (opened v d @ st') < stack_nodes st"
      using opened_nodes [of v d] Cons x by simp
    from less.hyps [OF this, of "nodes + own_nodes v" "chars + own_chars v"]
    show ?thesis
      using less.prems opened_nodes [of v d] opened_chars [of v d] opened_within [of d "jl_depth L" v] value_depth_pos [of v]
      by (cases "d \<le> jl_depth L") (auto simp: Cons x check_values_step)
  qed
qed

lemma check_value_exact:
  "validate_json_value L v = Inr () \<longleftrightarrow>
     value_plain v \<and> value_depth v \<le> jl_depth L \<and> value_nodes v \<le> jl_nodes L \<and> value_chars v \<le> jl_string_chars L"
  by (auto simp: validate_json_value_def check_values_exact)

section \<open>What the scan of the text accepts\<close>

text \<open>
  JSON documents as they are written: the pieces of a string, and numbers as their text. \<open>doc_text w\<close> writes
  one with the blanks \<open>w\<close> wherever blanks may be.
\<close>

datatype jitem = Plain uchar | Escaped uchar | Code uchar uchar uchar uchar

datatype jdoc =
    Constant ustr
  | Number ustr
  | Text "jitem list"
  | Array "jdoc list"
  | Object "(jitem list \<times> jdoc) list"

fun item_text :: "jitem \<Rightarrow> ustr" where
  "item_text (Plain c) = [c]"
| "item_text (Escaped c) = [92, c]"
| "item_text (Code a b c d) = [92, 117, a, b, c, d]"

definition quoted_text :: "jitem list \<Rightarrow> ustr" where
  "quoted_text is = 34 # concat (map item_text is) @ [34]"

fun spaced :: "ustr \<Rightarrow> ustr list \<Rightarrow> ustr" where
  "spaced w [] = w"
| "spaced w [t] = w @ t @ w"
| "spaced w (t # u # ts) = w @ t @ w @ 44 # spaced w (u # ts)"

fun doc_text :: "ustr \<Rightarrow> jdoc \<Rightarrow> ustr" where
  "doc_text w (Constant c) = c"
| "doc_text w (Number n) = n"
| "doc_text w (Text is) = quoted_text is"
| "doc_text w (Array ds) = 91 # spaced w (map (doc_text w) ds) @ [93]"
| "doc_text w (Object kds) = 123 # spaced w (map (\<lambda>x. quoted_text (fst x) @ w @ 58 # w @ doc_text w (snd x)) kds) @ [125]"

definition json_blank :: "uchar \<Rightarrow> bool" where
  "json_blank c \<longleftrightarrow> c \<in> {32, 9, 13, 10}"

fun item_ok :: "jitem \<Rightarrow> bool" where
  "item_ok (Plain c) \<longleftrightarrow> 32 \<le> c \<and> c \<noteq> 34 \<and> c \<noteq> 92"
| "item_ok (Escaped c) \<longleftrightarrow> json_escape c"
| "item_ok (Code a b c d) \<longleftrightarrow> json_hex a \<and> json_hex b \<and> json_hex c \<and> json_hex d"

definition number_char :: "uchar \<Rightarrow> bool" where
  "number_char c \<longleftrightarrow> 48 \<le> c \<and> c \<le> 57 \<or> c \<in> {43, 45, 46, 69, 101}"

definition number_text :: "ustr \<Rightarrow> bool" where
  "number_text n \<longleftrightarrow> n \<noteq> [] \<and> list_all number_char n \<and> (hd n = 45 \<or> 48 \<le> hd n \<and> hd n \<le> 57)"

fun doc_ok :: "jdoc \<Rightarrow> bool" where
  "doc_ok (Constant c) \<longleftrightarrow> c \<in> {U ''true'', U ''false'', U ''null''}"
| "doc_ok (Number n) \<longleftrightarrow> number_text n"
| "doc_ok (Text is) \<longleftrightarrow> list_all item_ok is"
| "doc_ok (Array ds) \<longleftrightarrow> list_all doc_ok ds"
| "doc_ok (Object kds) \<longleftrightarrow> list_all (\<lambda>x. list_all item_ok (fst x) \<and> doc_ok (snd x)) kds"

text \<open>The measures of a document: its nesting, its values and keys, its characters, its longest number.\<close>

record json_size =
  js_depth :: nat
  js_nodes :: nat
  js_chars :: nat
  js_number :: nat

definition size_add :: "json_size \<Rightarrow> json_size \<Rightarrow> json_size" where
  "size_add a b = \<lparr>js_depth = max (js_depth a) (js_depth b), js_nodes = js_nodes a + js_nodes b,
     js_chars = js_chars a + js_chars b, js_number = max (js_number a) (js_number b)\<rparr>"

definition size_none :: json_size where
  "size_none = \<lparr>js_depth = 0, js_nodes = 0, js_chars = 0, js_number = 0\<rparr>"

definition string_size :: "jitem list \<Rightarrow> json_size" where
  "string_size is = size_none\<lparr>js_nodes := 1, js_chars := length is\<rparr>"

definition inner_size :: "json_size list \<Rightarrow> json_size" where
  "inner_size ms = foldr size_add ms size_none"

definition nested_size :: "json_size list \<Rightarrow> json_size" where
  "nested_size ms = (let m = inner_size ms in m\<lparr>js_depth := Suc (js_depth m), js_nodes := Suc (js_nodes m)\<rparr>)"

fun doc_size :: "jdoc \<Rightarrow> json_size" where
  "doc_size (Constant c) = size_none\<lparr>js_nodes := 1\<rparr>"
| "doc_size (Number n) = size_none\<lparr>js_nodes := 1, js_number := length n\<rparr>"
| "doc_size (Text is) = string_size is"
| "doc_size (Array ds) = nested_size (map doc_size ds)"
| "doc_size (Object kds) = nested_size (map (\<lambda>x. size_add (string_size (fst x)) (doc_size (snd x))) kds)"

text \<open>A text is scanned as \<open>m\<close>: it is passed over and counted when it fits, else a limit is reported.\<close>

definition fits :: "json_limits \<Rightarrow> nat \<Rightarrow> nat \<Rightarrow> nat \<Rightarrow> json_size \<Rightarrow> bool" where
  "fits L depth nodes chars m \<longleftrightarrow> depth + js_depth m \<le> jl_depth L \<and> nodes + js_nodes m \<le> jl_nodes L
     \<and> chars + js_chars m \<le> jl_string_chars L \<and> js_number m \<le> jl_number_chars L"

definition scans :: "json_limits \<Rightarrow> bool \<Rightarrow> ustr \<Rightarrow> json_size \<Rightarrow> bool" where
  "scans L ends s m \<longleftrightarrow> (\<forall>r stack nodes chars. fits L (length stack) nodes chars size_none \<longrightarrow>
     (ends \<longrightarrow> r = [] \<or> json_delimiter (hd r)) \<longrightarrow>
     (if fits L (length stack) nodes chars m
      then scan_json L (s @ r) stack nodes chars = scan_json L r stack (nodes + js_nodes m) (chars + js_chars m)
      else (\<exists>e. scan_json L (s @ r) stack nodes chars = Inl (Limit_error e))))"

lemma scan_skip [simp]: "json_skip c \<Longrightarrow> scan_json L (c # r) stack nodes chars = scan_json L r stack nodes chars"
  by (subst scan_json.simps) simp

lemma scans_skip: "list_all json_skip w \<Longrightarrow> scans L False w size_none"
proof (induction w)
  case Nil
  then show ?case by (simp add: scans_def size_none_def)
next
  case (Cons c w)
  then show ?case unfolding scans_def by (simp add: size_none_def)
qed

lemma size_add_none [simp]: "size_add m size_none = m" "size_add size_none m = m"
  by (simp_all add: size_add_def size_none_def)

lemma scans_append:
  assumes "scans L a s m" "scans L b s' m'" "a \<longrightarrow> s' \<noteq> [] \<and> json_delimiter (hd s')"
  shows "scans L b (s @ s') (size_add m m')"
  unfolding scans_def
proof (intro allI impI)
  fix r stack :: ustr and nodes chars :: nat
  assume *: "fits L (length stack) nodes chars size_none" "b \<longrightarrow> r = [] \<or> json_delimiter (hd r)"
  let ?add = "size_add m m'"
  have 1: "if fits L (length stack) nodes chars m
      then scan_json L (s @ (s' @ r)) stack nodes chars = scan_json L (s' @ r) stack (nodes + js_nodes m) (chars + js_chars m)
      else (\<exists>e. scan_json L (s @ (s' @ r)) stack nodes chars = Inl (Limit_error e))"
    using assms(1,3) * unfolding scans_def by (cases s') auto
  show "if fits L (length stack) nodes chars ?add
      then scan_json L ((s @ s') @ r) stack nodes chars = scan_json L r stack (nodes + js_nodes ?add) (chars + js_chars ?add)
      else (\<exists>e. scan_json L ((s @ s') @ r) stack nodes chars = Inl (Limit_error e))"
  proof (cases "fits L (length stack) nodes chars m")
    case True
    then have "fits L (length stack) (nodes + js_nodes m) (chars + js_chars m) size_none"
      and "fits L (length stack) (nodes + js_nodes m) (chars + js_chars m) m' \<longleftrightarrow> fits L (length stack) nodes chars ?add"
      by (auto simp: fits_def size_none_def size_add_def)
    with assms(2) * 1 True show ?thesis unfolding scans_def by (simp add: size_add_def add.assoc)
  next
    case False
    then have "\<not> fits L (length stack) nodes chars ?add" by (auto simp: fits_def size_add_def)
    with 1 False show ?thesis by simp
  qed
qed


lemma scan_string_item:
  assumes "item_ok i"
  shows "scan_string L (item_text i @ r) chars
    = (if chars + 1 > jl_string_chars L then Inl (Limit_error ''JSON response strings are too large'')
       else scan_string L r (chars + 1))"
proof (cases i)
  case (Escaped c)
  with assms show ?thesis by (subst scan_string.simps) (auto simp: json_escape_def)
qed (use assms in \<open>subst scan_string.simps; auto\<close>)+

lemma scan_string_items:
  assumes "list_all item_ok is" "chars \<le> jl_string_chars L"
  shows "scan_string L (concat (map item_text is) @ 34 # r) chars
    = (if chars + length is > jl_string_chars L then Inl (Limit_error ''JSON response strings are too large'')
       else Inr (r, chars + length is))"
  using assms
proof (induction "is" arbitrary: chars)
  case Nil
  then show ?case by (subst scan_string.simps) simp
next
  case (Cons i "is")
  then show ?case by (auto simp: scan_string_item simp del: add_Suc_right)
qed

lemma scans_string:
  assumes "list_all item_ok is"
  shows "scans L False (quoted_text is) (string_size is)"
  unfolding scans_def
  by (auto simp: quoted_text_def fits_def size_none_def string_size_def scan_json.simps(2) json_skip_def
    count_node_def scan_string_items [OF assms])

lemma token_rest:
  assumes "list_all (\<lambda>c. \<not> json_delimiter c) t" "r = [] \<or> json_delimiter (hd r)"
  shows "takeWhile (\<lambda>x. \<not> json_delimiter x) (t @ r) = t" "dropWhile (\<lambda>x. \<not> json_delimiter x) (t @ r) = r"
  using assms by (induction t) (cases r; auto)+

lemma scan_token:
  assumes "t \<noteq> []" "list_all (\<lambda>c. \<not> json_delimiter c) t" "hd t \<notin> {123, 91, 34}" "r = [] \<or> json_delimiter (hd r)"
  shows "scan_json L (t @ r) stack nodes chars =
     (if t \<in> {U ''true'', U ''false'', U ''null''} then
        (case count_node L nodes of Inl e \<Rightarrow> Inl e | Inr n \<Rightarrow> scan_json L r stack n chars)
      else if t \<in> {U ''NaN'', U ''Infinity'', U ''-Infinity''} then
        Inl (Format_error ''non-finite JSON number is not allowed'')
      else if \<not> (hd t = 45 \<or> 48 \<le> hd t \<and> hd t \<le> 57) then Inl (Format_error ''invalid JSON token'')
      else if length t > jl_number_chars L then Inl (Limit_error ''JSON number token is too large'')
      else (case count_node L nodes of Inl e \<Rightarrow> Inl e | Inr n \<Rightarrow> scan_json L r stack n chars))"
proof -
  obtain c t' where t: "t = c # t'" using assms(1) by (cases t) auto
  have c: "\<not> json_skip c" "c \<noteq> 123" "c \<noteq> 91" "c \<noteq> 125" "c \<noteq> 93" "c \<noteq> 34"
    using assms(2,3) by (auto simp: t json_skip_def json_delimiter_def)
  show ?thesis
    using token_rest [OF assms(2,4)] c by (simp add: t scan_json.simps(2) Let_def del: takeWhile.simps dropWhile.simps)
qed

lemma scansI:
  assumes "\<And>r stack nodes chars. (ends \<longrightarrow> r = [] \<or> json_delimiter (hd r)) \<Longrightarrow> nodes \<le> jl_nodes L \<Longrightarrow>
      scan_json L (s @ r) stack nodes chars = (if k > jl_number_chars L then Inl (Limit_error e)
        else case count_node L nodes of Inl e \<Rightarrow> Inl e | Inr n \<Rightarrow> scan_json L r stack n chars)"
  shows "scans L ends s (size_none\<lparr>js_nodes := 1, js_number := k\<rparr>)"
  unfolding scans_def
  using assms by (auto simp: fits_def size_none_def count_node_def)

lemma scans_constant:
  assumes "t \<in> {U ''true'', U ''false'', U ''null''}"
  shows "scans L True t (size_none\<lparr>js_nodes := 1, js_number := 0\<rparr>)"
proof (rule scansI)
  fix r stack :: ustr and nodes chars :: nat
  assume r: "True \<longrightarrow> r = [] \<or> json_delimiter (hd r)"
  have "t \<noteq> []" "list_all (\<lambda>c. \<not> json_delimiter c) t" "hd t \<notin> {123, 91, 34}"
    using assms by (auto simp: json_delimiter_def)
  from scan_token [OF this, of r L stack nodes chars] r assms
  show "scan_json L (t @ r) stack nodes chars = (if 0 > jl_number_chars L then Inl (Limit_error e)
      else case count_node L nodes of Inl e \<Rightarrow> Inl e | Inr n \<Rightarrow> scan_json L r stack n chars)"
    by simp
qed

lemma scans_number:
  assumes "number_text t"
  shows "scans L True t (size_none\<lparr>js_nodes := 1, js_number := length t\<rparr>)"
proof (rule scansI)
  fix r stack :: ustr and nodes chars :: nat
  assume r: "True \<longrightarrow> r = [] \<or> json_delimiter (hd r)"
  have t: "t \<noteq> []" "list_all (\<lambda>c. \<not> json_delimiter c) t" "hd t \<notin> {123, 91, 34}"
    using assms by (auto simp: number_text_def list_all_iff number_char_def json_delimiter_def)
  have "t \<notin> {U ''true'', U ''false'', U ''null''}" "t \<notin> {U ''NaN'', U ''Infinity'', U ''-Infinity''}"
    using assms by (auto simp: number_text_def number_char_def)
  moreover have "hd t = 45 \<or> 48 \<le> hd t \<and> hd t \<le> 57" using assms by (simp add: number_text_def)
  ultimately show "scan_json L (t @ r) stack nodes chars
      = (if length t > jl_number_chars L then Inl (Limit_error ''JSON number token is too large'')
         else case count_node L nodes of Inl e \<Rightarrow> Inl e | Inr n \<Rightarrow> scan_json L r stack n chars)"
    using scan_token [OF t, of r L stack nodes chars] r by simp
qed

lemma scans_brackets:
  assumes "scans L True s m" "c = 91 \<and> c' = 93 \<or> c = 123 \<and> c' = 125"
  shows "scans L False (c # s @ [c']) (m\<lparr>js_depth := Suc (js_depth m), js_nodes := Suc (js_nodes m)\<rparr>)"
  unfolding scans_def
proof (intro allI impI)
  fix r stack :: ustr and nodes chars :: nat
  assume *: "fits L (length stack) nodes chars size_none"
  let ?m = "m\<lparr>js_depth := Suc (js_depth m), js_nodes := Suc (js_nodes m)\<rparr>"
  have open_eq: "scan_json L (c # s @ c' # r) stack nodes chars =
      (if Suc (length stack) > jl_depth L then Inl (Limit_error ''JSON response is too deeply nested'')
       else if Suc nodes > jl_nodes L then Inl (Limit_error ''JSON response has too many nodes'')
       else scan_json L (s @ c' # r) (c' # stack) (Suc nodes) chars)"
    using assms(2) by (auto simp: scan_json.simps(2) json_skip_def count_node_def)
  have close_eq: "scan_json L (c' # r) (c' # stack) n k = scan_json L r stack n k" for n k
    using assms(2) by (auto simp: scan_json.simps(2) json_skip_def)
  have "json_delimiter c'" using assms(2) by (auto simp: json_delimiter_def)
  with assms(1) have inner: "fits L (Suc (length stack)) (Suc nodes) chars size_none \<Longrightarrow>
      (if fits L (Suc (length stack)) (Suc nodes) chars m
       then scan_json L (s @ c' # r) (c' # stack) (Suc nodes) chars
         = scan_json L (c' # r) (c' # stack) (Suc nodes + js_nodes m) (chars + js_chars m)
       else (\<exists>e. scan_json L (s @ c' # r) (c' # stack) (Suc nodes) chars = Inl (Limit_error e)))"
    unfolding scans_def by (metis length_Cons list.sel(1))
  show "if fits L (length stack) nodes chars ?m
      then scan_json L ((c # s @ [c']) @ r) stack nodes chars = scan_json L r stack (nodes + js_nodes ?m) (chars + js_chars ?m)
      else (\<exists>e. scan_json L ((c # s @ [c']) @ r) stack nodes chars = Inl (Limit_error e))"
    using inner * by (auto simp: open_eq close_eq fits_def size_none_def split: if_splits)
qed

lemma scans_weaken: "scans L False s m \<Longrightarrow> scans L ends s m"
  unfolding scans_def by blast

lemma blanks: "list_all json_blank w \<Longrightarrow> list_all json_skip w"
  by (auto simp: list_all_iff json_blank_def json_skip_def)

lemma blank_hd: "list_all json_blank w \<Longrightarrow> w @ c # r \<noteq> [] \<and> (json_delimiter c \<longrightarrow> json_delimiter (hd (w @ c # r)))"
  by (cases w) (auto simp: json_blank_def json_delimiter_def)

lemma delimiters [simp]: "json_delimiter 44" "json_delimiter 58" "json_delimiter 93" "json_delimiter 125"
  by (simp_all add: json_delimiter_def)

lemma scans_padded:
  assumes "scans L True s m" "list_all json_blank w"
  shows "scans L True (w @ s @ w) m"
proof -
  have w: "scans L ends w size_none" for ends
    using scans_weaken [OF scans_skip [OF blanks [OF assms(2)]]] .
  have "scans L True (s @ w) (size_add m size_none)"
  proof (cases w)
    case (Cons c w')
    then have "json_delimiter (hd w)" using assms(2) by (auto simp: json_blank_def json_delimiter_def)
    then show ?thesis using scans_append [OF assms(1) w] Cons by blast
  qed (use assms(1) in simp)
  from scans_append [OF w [of False] this] show ?thesis by simp
qed

lemma scans_spaced:
  assumes "list_all json_blank w" "list_all2 (scans L True) ts ms"
  shows "scans L True (spaced w ts) (inner_size ms)"
  using assms(2)
proof (induction ts arbitrary: ms rule: induct_list012)
  case 1
  then show ?case
    using scans_weaken [OF scans_skip [OF blanks [OF assms(1)]]] by (simp add: inner_size_def)
next
  case (2 t)
  then show ?case using scans_padded [OF _ assms(1)] by (auto simp: inner_size_def list_all2_Cons1)
next
  case (3 t u ts)
  then obtain m ms' where ms: "ms = m # ms'" "scans L True t m" "list_all2 (scans L True) (u # ts) ms'"
    by (auto simp: list_all2_Cons1)
  have "scans L True (44 # spaced w (u # ts)) (inner_size ms')"
    using scans_append [OF scans_skip [of "[44]"] "3.IH"(2) [OF ms(3)]] by (simp add: json_skip_def)
  with scans_append [OF scans_padded [OF ms(2) assms(1)] this]
  show ?case by (simp add: ms(1) inner_size_def)
qed

lemma scans_entry:
  assumes "list_all item_ok k" "scans L True s m" "list_all json_blank w"
  shows "scans L True (quoted_text k @ w @ 58 # w @ s) (size_add (string_size k) m)"
proof -
  have "list_all json_skip (w @ 58 # w)" using blanks [OF assms(3)] by (simp add: json_skip_def)
  from scans_append [OF scans_skip [OF this] assms(2)]
  have "scans L True (w @ 58 # w @ s) m" by simp
  then show ?thesis using scans_append [OF scans_string [OF assms(1)]] by blast
qed

lemma scans_doc:
  assumes "list_all json_blank w"
  shows "doc_ok d \<Longrightarrow> scans L True (doc_text w d) (doc_size d)"
proof (induction d)
  case (Constant c)
  then show ?case using scans_constant [of c L] by (simp add: size_none_def)
next
  case (Number n)
  then show ?case using scans_number by simp
next
  case (Text "is")
  then show ?case using scans_weaken [OF scans_string] by simp
next
  case (Array ds)
  then have "list_all2 (scans L True) (map (doc_text w) ds) (map doc_size ds)"
    by (auto simp: list_all2_conv_all_nth list_all_iff)
  from scans_brackets [OF scans_spaced [OF assms this], of 91 93] show ?case
    using scans_weaken by (simp add: nested_size_def Let_def)
next
  case (Object kds)
  have entry: "scans L True (quoted_text (fst x) @ w @ 58 # w @ doc_text w (snd x)) (size_add (string_size (fst x)) (doc_size (snd x)))"
    if "x \<in> set kds" for x
  proof -
    have ok: "list_all item_ok (fst x)" "doc_ok (snd x)" using that Object.prems by (auto simp: list_all_iff)
    have "snd x \<in> Basic_BNFs.snds x" by (cases x) simp
    from scans_entry [OF ok(1) Object.IH [OF that this ok(2)] assms] show ?thesis .
  qed
  have "list_all2 (scans L True) (map (\<lambda>x. quoted_text (fst x) @ w @ 58 # w @ doc_text w (snd x)) kds)
      (map (\<lambda>x. size_add (string_size (fst x)) (doc_size (snd x))) kds)"
    using entry by (auto simp: list_all2_conv_all_nth)
  from scans_brackets [OF scans_spaced [OF assms this], of 123 125] show ?case
    using scans_weaken by (simp add: nested_size_def Let_def)
qed

lemma scansD:
  assumes "scans L ends s m" "fits L (length stack) nodes chars size_none" "ends \<longrightarrow> r = [] \<or> json_delimiter (hd r)"
  shows "if fits L (length stack) nodes chars m
      then scan_json L (s @ r) stack nodes chars = scan_json L r stack (nodes + js_nodes m) (chars + js_chars m)
      else (\<exists>e. scan_json L (s @ r) stack nodes chars = Inl (Limit_error e))"
  using assms unfolding scans_def by blast

lemma preflight_doc:
  assumes "doc_ok d" and "list_all json_blank w"
  shows "if fits L 0 0 0 (doc_size d) then preflight_json L (w @ doc_text w d @ w) = Inr ()
    else \<exists>e. preflight_json L (w @ doc_text w d @ w) = Inl (Limit_error e)"
proof -
  have "scans L True (w @ doc_text w d @ w) (doc_size d)" by (rule scans_padded [OF scans_doc [OF assms(2,1)] assms(2)])
  moreover have "fits L (length ([] :: ustr)) 0 0 size_none" by (simp add: fits_def size_none_def)
  ultimately show ?thesis
    using scansD [of L True "w @ doc_text w d @ w" "doc_size d" "[]" 0 0 "[]"]
    by (auto simp: preflight_json_def scan_json.simps(1) split: if_splits)
qed

end
