(* ===== verification/Json_Loads.thy ===== *)
theory Json_Loads
  imports Bounded_Json
begin

text \<open>
  The parser behind \<^verbatim>\<open>parse_bounded_json\<close> (\<^verbatim>\<open>core/bounded_http.py\<close>): \<^verbatim>\<open>json.loads\<close> with the hooks the program
  passes, between the scan of the text and the check of the value. How a text is read as a float is the
  argument \<open>fl\<close>. The main lemma says that a document within the limits is read as its value.
\<close>

section \<open>Strings and numbers\<close>

definition json_error :: http_error where
  "json_error = Raised (ValueError ''JSONDecodeError'')"

definition hex_value :: "uchar \<Rightarrow> nat" where
  "hex_value c = (if c \<le> 57 then c - 48 else if c \<le> 70 then c - 55 else c - 87)"

definition hex4 :: "ustr \<Rightarrow> (nat \<times> ustr) option" where
  "hex4 s = (case s of a # b # c # d # r \<Rightarrow>
      if json_hex a \<and> json_hex b \<and> json_hex c \<and> json_hex d
      then Some (((hex_value a * 16 + hex_value b) * 16 + hex_value c) * 16 + hex_value d, r) else None
    | _ \<Rightarrow> None)"

definition high_surrogate :: "nat \<Rightarrow> bool" where
  "high_surrogate u \<longleftrightarrow> 55296 \<le> u \<and> u < 56320"

definition low_surrogate :: "nat \<Rightarrow> bool" where
  "low_surrogate u \<longleftrightarrow> 56320 \<le> u \<and> u < 57344"

definition joined :: "nat \<Rightarrow> nat \<Rightarrow> nat" where
  "joined u v = 65536 + (u - 55296) * 1024 + (v - 56320)"

definition escape_value :: "uchar \<Rightarrow> uchar option" where
  "escape_value e = map_of [(34, 34), (92, 92), (47, 47), (98, 8), (102, 12), (110, 10), (114, 13), (116, 9)] e"

definition put_char :: "uchar \<Rightarrow> http_error + ustr \<times> ustr \<Rightarrow> http_error + ustr \<times> ustr" where
  "put_char c m = bindE m (\<lambda>(s, r). Inr (c # s, r))"

lemma hex4_shorter: "hex4 s = Some (u, r) \<Longrightarrow> length s = length r + 4"
  by (auto simp: hex4_def split: list.splits if_splits)

text \<open>\<^verbatim>\<open>scanstring\<close> in its strict mode, after the opening quote: the string and the rest of the text.\<close>

function read_string :: "ustr \<Rightarrow> http_error + ustr \<times> ustr" where
  "read_string [] = Inl json_error"
| "read_string (c # r) =
     (if c = 34 then Inr ([], r)
      else if c < 32 then Inl json_error
      else if c \<noteq> 92 then put_char c (read_string r)
      else (case r of
          [] \<Rightarrow> Inl json_error
        | e # r' \<Rightarrow>
            if e = 117 then
              (case hex4 r' of
                 None \<Rightarrow> Inl json_error
               | Some (u, r2) \<Rightarrow>
                   if high_surrogate u \<and> take 2 r2 = [92, 117] then
                     (case hex4 (drop 2 r2) of
                        None \<Rightarrow> Inl json_error
                      | Some (v, r4) \<Rightarrow>
                          if low_surrogate v then put_char (joined u v) (read_string r4)
                          else put_char u (read_string r2))
                   else put_char u (read_string r2))
            else (case escape_value e of
                None \<Rightarrow> Inl json_error
              | Some x \<Rightarrow> put_char x (read_string r'))))"
  by pat_completeness auto
termination by (relation "measure length") (auto dest!: hex4_shorter)

text \<open>The regular expression of numbers: the integer part with its sign, fraction and exponent, the rest.\<close>

definition json_digit :: "uchar \<Rightarrow> bool" where
  "json_digit c \<longleftrightarrow> 48 \<le> c \<and> c \<le> 57"

definition match_int :: "ustr \<Rightarrow> (ustr \<times> ustr) option" where
  "match_int s =
     (let (sign, s1) = (if take 1 s = [45] then ([45], drop 1 s) else ([], s))
      in case s1 of
          [] \<Rightarrow> None
        | c # r \<Rightarrow>
            if c = 48 then Some (sign @ [48], r)
            else if json_digit c then Some (sign @ takeWhile json_digit s1, dropWhile json_digit s1)
            else None)"

definition match_frac :: "ustr \<Rightarrow> ustr \<times> ustr" where
  "match_frac s = (case s of
      p # c # r \<Rightarrow> if p = 46 \<and> json_digit c then (p # takeWhile json_digit (c # r), dropWhile json_digit (c # r)) else ([], s)
    | _ \<Rightarrow> ([], s))"

definition match_exp :: "ustr \<Rightarrow> ustr \<times> ustr" where
  "match_exp s = (case s of
      [] \<Rightarrow> ([], s)
    | e # r \<Rightarrow>
        let (sign, r1) = (case r of c # r' \<Rightarrow> if c = 43 \<or> c = 45 then ([c], r') else ([], r) | [] \<Rightarrow> ([], r))
        in if (e = 69 \<or> e = 101) \<and> r1 \<noteq> [] \<and> json_digit (hd r1)
           then (e # sign @ takeWhile json_digit r1, dropWhile json_digit r1) else ([], s))"

definition match_number :: "ustr \<Rightarrow> (ustr \<times> ustr \<times> ustr) option" where
  "match_number s = (case match_int s of
      None \<Rightarrow> None
    | Some (i, r) \<Rightarrow>
        (let (f, r1) = match_frac r; (e, r2) = match_exp r1 in Some (i, f @ e, r2)))"

definition int_value :: "ustr \<Rightarrow> pyerr + int" where
  "int_value s = (if take 1 s = [45] then bindE (int_of_digits (drop 1 s)) (\<lambda>n. Inr (- n)) else int_of_digits s)"

definition parse_finite_float :: "(ustr \<Rightarrow> pyfloat) \<Rightarrow> ustr \<Rightarrow> http_error + pyfloat" where
  "parse_finite_float fl s =
     (if isfinite (fl s) then Inr (fl s) else Inl (Format_error ''non-finite JSON number is not allowed''))"

definition number_value :: "(ustr \<Rightarrow> pyfloat) \<Rightarrow> ustr \<Rightarrow> ustr \<Rightarrow> http_error + pyval" where
  "number_value fl i fe =
     (if fe = [] then (case int_value i of Inl e \<Rightarrow> Inl (Raised e) | Inr n \<Rightarrow> Inr (VInt n))
      else bindE (parse_finite_float fl (i @ fe)) (\<lambda>x. Inr (VFloat x)))"

section \<open>Values\<close>

definition skip_blanks :: "ustr \<Rightarrow> ustr" where
  "skip_blanks s = dropWhile json_blank s"

definition expect :: "uchar \<Rightarrow> ustr \<Rightarrow> ustr option" where
  "expect c s = (case s of x # r \<Rightarrow> if x = c then Some r else None | [] \<Rightarrow> None)"

definition reject_constant :: "http_error + 'a" where
  "reject_constant = Inl (Format_error ''non-finite JSON number is not allowed'')"

fun object_pairs :: "(ustr \<times> pyval) list \<Rightarrow> (ustr, pyval) dict \<Rightarrow> http_error + (ustr, pyval) dict" where
  "object_pairs [] d = Inr d"
| "object_pairs ((k, v) # kvs) d =
     (if dget d k \<noteq> None then Inl (Format_error ''duplicate JSON object key'') else object_pairs kvs (dset k v d))"

fun parse_value :: "(ustr \<Rightarrow> pyfloat) \<Rightarrow> nat \<Rightarrow> ustr \<Rightarrow> http_error + pyval \<times> ustr"
  and parse_entries :: "(ustr \<Rightarrow> pyfloat) \<Rightarrow> nat \<Rightarrow> ustr \<Rightarrow> http_error + (ustr \<times> pyval) list \<times> ustr"
  and parse_elements :: "(ustr \<Rightarrow> pyfloat) \<Rightarrow> nat \<Rightarrow> ustr \<Rightarrow> http_error + pyval list \<times> ustr" where
  "parse_value fl 0 s = Inl json_error"
| "parse_value fl (Suc f) s =
     (case s of
        [] \<Rightarrow> Inl json_error
      | c # r \<Rightarrow>
          if c = 34 then bindE (read_string r) (\<lambda>(t, r'). Inr (VStr t, r'))
          else if c = 123 then
            (case expect 125 (skip_blanks r) of
               Some r' \<Rightarrow> bindE (object_pairs [] []) (\<lambda>d. Inr (VDict d, r'))
             | None \<Rightarrow> bindE (parse_entries fl f (skip_blanks r)) (\<lambda>(kvs, r').
                 bindE (object_pairs kvs []) (\<lambda>d. Inr (VDict d, r'))))
          else if c = 91 then
            (case expect 93 (skip_blanks r) of
               Some r' \<Rightarrow> Inr (VList [], r')
             | None \<Rightarrow> bindE (parse_elements fl f (skip_blanks r)) (\<lambda>(vs, r'). Inr (VList vs, r')))
          else if startswith s (U ''null'') then Inr (VNone, drop 4 s)
          else if startswith s (U ''true'') then Inr (VBool True, drop 4 s)
          else if startswith s (U ''false'') then Inr (VBool False, drop 5 s)
          else if startswith s (U ''NaN'') \<or> startswith s (U ''Infinity'') \<or> startswith s (U ''-Infinity'') then reject_constant
          else (case match_number s of
              None \<Rightarrow> Inl json_error
            | Some (i, fe, r') \<Rightarrow> bindE (number_value fl i fe) (\<lambda>v. Inr (v, r'))))"
| "parse_entries fl 0 s = Inl json_error"
| "parse_entries fl (Suc f) s =
     (case expect 34 s of
        None \<Rightarrow> Inl json_error
      | Some r \<Rightarrow> bindE (read_string r) (\<lambda>(k, r1).
          case expect 58 (skip_blanks r1) of
            None \<Rightarrow> Inl json_error
          | Some r2 \<Rightarrow> bindE (parse_value fl f (skip_blanks r2)) (\<lambda>(v, r3).
              case expect 125 (skip_blanks r3) of
                Some r4 \<Rightarrow> Inr ([(k, v)], r4)
              | None \<Rightarrow> (case expect 44 (skip_blanks r3) of
                    None \<Rightarrow> Inl json_error
                  | Some r4 \<Rightarrow> bindE (parse_entries fl f (skip_blanks r4)) (\<lambda>(kvs, r5). Inr ((k, v) # kvs, r5))))))"
| "parse_elements fl 0 s = Inl json_error"
| "parse_elements fl (Suc f) s =
     bindE (parse_value fl f s) (\<lambda>(v, r).
       case expect 93 (skip_blanks r) of
         Some r' \<Rightarrow> Inr ([v], r')
       | None \<Rightarrow> (case expect 44 (skip_blanks r) of
             None \<Rightarrow> Inl json_error
           | Some r' \<Rightarrow> bindE (parse_elements fl f (skip_blanks r')) (\<lambda>(vs, r''). Inr (v # vs, r''))))"

text \<open>A call consumes at least a character for every two turns, so that this fuel is never used up.\<close>

definition json_fuel :: "ustr \<Rightarrow> nat" where
  "json_fuel s = 2 * length s + 1"

definition json_loads :: "(ustr \<Rightarrow> pyfloat) \<Rightarrow> ustr \<Rightarrow> http_error + pyval" where
  "json_loads fl s =
     (if startswith s [65279] then Inl json_error
      else bindE (parse_value fl (json_fuel s) (skip_blanks s)) (\<lambda>(v, r).
        if skip_blanks r \<noteq> [] then Inl json_error else Inr v))"

section \<open>The three passes\<close>

text \<open>\<^verbatim>\<open>except (json.JSONDecodeError, RecursionError, ValueError)\<close>.\<close>

definition as_format_error :: "http_error + 'a \<Rightarrow> http_error + 'a" where
  "as_format_error m = (case m of Inl (Raised (ValueError _)) \<Rightarrow> Inl (Format_error ''invalid JSON response'') | _ \<Rightarrow> m)"

definition parse_json_text :: "(ustr \<Rightarrow> pyfloat) \<Rightarrow> json_limits \<Rightarrow> ustr \<Rightarrow> http_error + pyval" where
  "parse_json_text fl L s =
     bindE (preflight_json L s) (\<lambda>_.
     bindE (as_format_error (json_loads fl s)) (\<lambda>v.
     bindE (validate_json_value L v) (\<lambda>_. Inr v)))"

section \<open>Every call consumes text, and the fuel is enough\<close>

lemma put_char_Inr: "put_char c m = Inr (s, r) \<longleftrightarrow> (\<exists>s'. m = Inr (s', r) \<and> s = c # s')"
  by (cases m) (auto simp: put_char_def)

lemma read_string_shorter: "read_string s = Inr (t, r) \<Longrightarrow> length r < length s"
proof (induction "length s" arbitrary: s t r rule: less_induct)
  case less
  have IH: "length r < n" if "read_string s' = Inr (t', r)" "length s' < length s" "length s' \<le> n" for s' t' n
    using less.hyps [OF that(2,1)] that(3) by simp
  show ?case
  proof (cases s)
    case (Cons c r0)
    with less.prems show ?thesis
      by (auto simp: put_char_Inr split: if_splits list.splits option.splits dest!: hex4_shorter elim!: IH) presburger+
  qed (use less.prems in simp)
qed

lemma expect_shorter: "expect c s = Some r \<Longrightarrow> length s = Suc (length r)"
  by (auto simp: expect_def split: list.splits if_splits)

lemma skip_blanks_le: "length (skip_blanks s) \<le> length s"
  by (simp add: skip_blanks_def length_dropWhile_le)

lemma match_int_shorter: "match_int s = Some (i, r) \<Longrightarrow> length r < length s"
  by (cases s) (auto simp: match_int_def Let_def less_Suc_eq_le le_SucI length_dropWhile_le json_digit_def split: if_splits list.splits prod.splits)

lemma match_frac_le: "match_frac s = (f, r) \<Longrightarrow> length r \<le> length s"
  by (auto simp: match_frac_def le_SucI length_dropWhile_le split: if_splits list.splits)

lemma match_exp_le: "match_exp s = (f, r) \<Longrightarrow> length r \<le> length s"
  by (auto simp: match_exp_def Let_def le_SucI length_dropWhile_le split: if_splits list.splits prod.splits)

lemma match_number_shorter: "match_number s = Some (i, fe, r) \<Longrightarrow> length r < length s"
  by (auto simp: match_number_def Let_def split: option.splits prod.splits
    dest!: match_int_shorter match_frac_le match_exp_le)


lemma expect_skip_shorter: "expect c (skip_blanks s) = Some r \<Longrightarrow> length r < length s"
  using expect_shorter [of c "skip_blanks s" r] skip_blanks_le [of s] by simp

text \<open>What one more unit of fuel preserves, for the three functions at once.\<close>

definition consuming :: "(ustr \<Rightarrow> pyfloat) \<Rightarrow> nat \<Rightarrow> bool" where
  "consuming fl f \<longleftrightarrow> (\<forall>s v r. parse_value fl f s = Inr (v, r) \<longrightarrow> length r < length s)
     \<and> (\<forall>s kvs r. parse_entries fl f s = Inr (kvs, r) \<longrightarrow> length r < length s)
     \<and> (\<forall>s vs r. parse_elements fl f s = Inr (vs, r) \<longrightarrow> length r < length s)"

lemma consumingD:
  assumes "consuming fl f"
  shows "parse_value fl f s = Inr (v, r) \<Longrightarrow> length r < length s"
    "parse_value fl f (skip_blanks s) = Inr (v, r) \<Longrightarrow> length r < length s"
    "parse_entries fl f (skip_blanks s) = Inr (kvs, r) \<Longrightarrow> length r < length s"
    "parse_elements fl f (skip_blanks s) = Inr (vs, r) \<Longrightarrow> length r < length s"
  using assms skip_blanks_le [of s] unfolding consuming_def by (fastforce dest: less_le_trans)+

lemma parse_entries_Inr:
  "parse_entries fl (Suc f) s = Inr (kvs, r) \<longleftrightarrow> (\<exists>r1 k r2 r3 v r4. expect 34 s = Some r1 \<and> read_string r1 = Inr (k, r2)
     \<and> expect 58 (skip_blanks r2) = Some r3 \<and> parse_value fl f (skip_blanks r3) = Inr (v, r4)
     \<and> (expect 125 (skip_blanks r4) = Some r \<and> kvs = [(k, v)]
        \<or> expect 125 (skip_blanks r4) = None \<and> (\<exists>r5 kvs'. expect 44 (skip_blanks r4) = Some r5
            \<and> parse_entries fl f (skip_blanks r5) = Inr (kvs', r) \<and> kvs = (k, v) # kvs')))"
  by (fastforce simp: bindE_eq_Inr split: option.splits)

lemma parse_elements_Inr:
  "parse_elements fl (Suc f) s = Inr (vs, r) \<longleftrightarrow> (\<exists>v r1. parse_value fl f s = Inr (v, r1)
     \<and> (expect 93 (skip_blanks r1) = Some r \<and> vs = [v]
        \<or> expect 93 (skip_blanks r1) = None \<and> (\<exists>r2 vs'. expect 44 (skip_blanks r1) = Some r2
            \<and> parse_elements fl f (skip_blanks r2) = Inr (vs', r) \<and> vs = v # vs')))"
  by (fastforce simp: bindE_eq_Inr split: option.splits)

lemma all_consuming: "consuming fl f"
proof (induction f)
  case (Suc f)
  note IH = consumingD [OF Suc]
  have "length r < length s" if "parse_value fl (Suc f) s = Inr (v, r)" for s v r
  proof (cases s)
    case (Cons c r0)
    with that show ?thesis
      by (auto simp: bindE_eq_Inr reject_constant_def less_SucI split: if_splits option.splits
        dest!: read_string_shorter expect_skip_shorter match_number_shorter IH(3,4))
  qed (use that in simp)
  moreover have "length r < length s" if "parse_entries fl (Suc f) s = Inr (kvs, r)" for s kvs r
    using that unfolding parse_entries_Inr
    by (elim exE conjE disjE) (auto dest!: expect_shorter read_string_shorter expect_skip_shorter IH(2,3))
  moreover have "length r < length s" if "parse_elements fl (Suc f) s = Inr (vs, r)" for s vs r
    using that unfolding parse_elements_Inr
    by (elim exE conjE disjE) (auto dest!: expect_skip_shorter IH(1,4))
  ultimately show ?case by (simp add: consuming_def del: parse_value.simps parse_entries.simps parse_elements.simps)
qed (simp add: consuming_def)

lemmas parse_shorter = consumingD [OF all_consuming]

definition settled_at :: "(ustr \<Rightarrow> pyfloat) \<Rightarrow> nat \<Rightarrow> bool" where
  "settled_at fl f \<longleftrightarrow>
     (\<forall>s. 2 * length s + 1 \<le> f \<longrightarrow> parse_value fl (Suc f) s = parse_value fl f s)
     \<and> (\<forall>s. 2 * length s + 2 \<le> f \<longrightarrow> parse_entries fl (Suc f) s = parse_entries fl f s)
     \<and> (\<forall>s. 2 * length s + 2 \<le> f \<longrightarrow> parse_elements fl (Suc f) s = parse_elements fl f s)"

lemma settled_skip:
  assumes "settled_at fl f"
  shows "2 * length s + 1 \<le> f \<Longrightarrow> parse_value fl (Suc f) s = parse_value fl f s"
    and "2 * length s + 1 \<le> f \<Longrightarrow> parse_value fl (Suc f) (skip_blanks s) = parse_value fl f (skip_blanks s)"
    and "2 * length s + 2 \<le> f \<Longrightarrow> parse_entries fl (Suc f) (skip_blanks s) = parse_entries fl f (skip_blanks s)"
    and "2 * length s + 2 \<le> f \<Longrightarrow> parse_elements fl (Suc f) (skip_blanks s) = parse_elements fl f (skip_blanks s)"
  using assms skip_blanks_le [of s] unfolding settled_at_def by auto

lemma all_settled: "settled_at fl f"
proof (induction f)
  case (Suc f)
  note IH = settled_skip [OF Suc]
  have "parse_value fl (Suc (Suc f)) s = parse_value fl (Suc f) s" if "2 * length s + 1 \<le> Suc f" for s
  proof (cases s)
    case (Cons c r)
    with that have "2 * length r + 2 \<le> f" by simp
    from IH(3,4) [OF this] show ?thesis by (simp only: Cons parse_value.simps list.case)
  qed simp
  moreover have "parse_entries fl (Suc (Suc f)) s = parse_entries fl (Suc f) s" if fuel: "2 * length s + 2 \<le> Suc f" for s
  proof -
    have val: "parse_value fl (Suc f) (skip_blanks r3) = parse_value fl f (skip_blanks r3)"
      if "expect 34 s = Some r1" "read_string r1 = Inr (k, r2)" "expect 58 (skip_blanks r2) = Some r3" for k r1 r2 r3
      using fuel that by (intro IH(2)) (auto dest!: expect_shorter read_string_shorter expect_skip_shorter)
    have rest: "parse_entries fl (Suc f) (skip_blanks r5) = parse_entries fl f (skip_blanks r5)"
      if "expect 34 s = Some r1" "read_string r1 = Inr (k, r2)" "expect 58 (skip_blanks r2) = Some r3"
        "parse_value fl f (skip_blanks r3) = Inr (v, r4)" "expect 44 (skip_blanks r4) = Some r5" for k v r1 r2 r3 r4 r5
      using fuel that
      by (intro IH(3)) (auto dest!: expect_shorter read_string_shorter expect_skip_shorter parse_shorter(2))
    show ?thesis
      unfolding parse_entries.simps(2) [of fl f s] parse_entries.simps(2) [of fl "Suc f" s]
      by (intro option.case_cong refl bindE_cong prod.case_cong) (simp_all only: val rest)
  qed
  moreover have "parse_elements fl (Suc (Suc f)) s = parse_elements fl (Suc f) s" if fuel: "2 * length s + 2 \<le> Suc f" for s
  proof -
    have val: "parse_value fl (Suc f) s = parse_value fl f s" using fuel by (intro IH(1)) simp
    have rest: "parse_elements fl (Suc f) (skip_blanks r1) = parse_elements fl f (skip_blanks r1)"
      if "parse_value fl f s = Inr (v, r)" "expect 44 (skip_blanks r) = Some r1" for v r r1
      using fuel that by (intro IH(4)) (auto dest!: parse_shorter(1) expect_skip_shorter)
    show ?thesis
      unfolding parse_elements.simps(2) [of fl f s] parse_elements.simps(2) [of fl "Suc f" s]
      by (intro option.case_cong refl bindE_cong prod.case_cong val) (simp_all only: val rest)
  qed
  ultimately show ?case
    by (simp add: settled_at_def del: parse_value.simps parse_entries.simps parse_elements.simps)
qed (simp add: settled_at_def)

lemma json_fuel_enough:
  assumes "json_fuel s \<le> f"
  shows "parse_value fl f s = parse_value fl (json_fuel s) s"
proof -
  have "parse_value fl (json_fuel s + n) s = parse_value fl (json_fuel s) s" for n
  proof (induction n)
    case (Suc n)
    have "2 * length s + 1 \<le> json_fuel s + n" by (simp add: json_fuel_def)
    then show ?case using all_settled [of fl "json_fuel s + n"] Suc by (simp add: settled_at_def del: parse_value.simps)
  qed simp
  with assms show ?thesis by (metis le_Suc_ex)
qed

section \<open>What a document is read as\<close>

definition code_value :: "uchar \<Rightarrow> uchar \<Rightarrow> uchar \<Rightarrow> uchar \<Rightarrow> nat" where
  "code_value a b c d = ((hex_value a * 16 + hex_value b) * 16 + hex_value c) * 16 + hex_value d"

fun items_value :: "jitem list \<Rightarrow> ustr" where
  "items_value [] = []"
| "items_value (Plain c # is) = c # items_value is"
| "items_value (Escaped e # is) = the (escape_value e) # items_value is"
| "items_value (Code a b c d # Code a' b' c' d' # is) =
     (if high_surrogate (code_value a b c d) \<and> low_surrogate (code_value a' b' c' d')
      then joined (code_value a b c d) (code_value a' b' c' d') # items_value is
      else code_value a b c d # items_value (Code a' b' c' d' # is))"
| "items_value (Code a b c d # is) = code_value a b c d # items_value is"

fun doc_value :: "(ustr \<Rightarrow> pyfloat) \<Rightarrow> jdoc \<Rightarrow> pyval" where
  "doc_value fl (Constant c) = (if c = U ''null'' then VNone else VBool (c = U ''true''))"
| "doc_value fl (Number n) = (case match_number n of
      Some (i, fe, _) \<Rightarrow> if fe = [] then (case int_value i of Inr m \<Rightarrow> VInt m | _ \<Rightarrow> VNone) else VFloat (fl n)
    | None \<Rightarrow> VNone)"
| "doc_value fl (Text is) = VStr (items_value is)"
| "doc_value fl (Array ds) = VList (map (doc_value fl) ds)"
| "doc_value fl (Object kds) = VDict (map (\<lambda>x. (items_value (fst x), doc_value fl (snd x))) kds)"

text \<open>Numbers have the form JSON gives them and a finite value, and the keys of an object are distinct.\<close>

fun readable :: "(ustr \<Rightarrow> pyfloat) \<Rightarrow> jdoc \<Rightarrow> bool" where
  "readable fl (Number n) \<longleftrightarrow> (case match_number n of
      Some (i, fe, r) \<Rightarrow> r = [] \<and> (if fe = [] then length n \<le> int_max_str_digits else isfinite (fl n))
    | None \<Rightarrow> False)"
| "readable fl (Array ds) \<longleftrightarrow> list_all (readable fl) ds"
| "readable fl (Object kds) \<longleftrightarrow> distinct (map (\<lambda>x. items_value (fst x)) kds) \<and> list_all (\<lambda>x. readable fl (snd x)) kds"
| "readable fl _ \<longleftrightarrow> True"

lemma hex4_code: "item_ok (Code a b c d) \<Longrightarrow> hex4 (a # b # c # d # r) = Some (code_value a b c d, r)"
  by (simp add: hex4_def code_value_def)

lemmas items_induct = items_value.induct [case_names End Plain Escape Pair Last_unit Unit_plain Unit_escape]

lemma read_string_items:
  "list_all item_ok is \<Longrightarrow> read_string (concat (map item_text is) @ 34 # r) = Inr (items_value is, r)"
proof (induction "is" rule: items_induct)
  case (Plain c "is")
  then show ?case by (simp add: put_char_def)
next
  case (Escape e "is")
  then have "escape_value e \<noteq> None" "e \<noteq> 117" by (auto simp: json_escape_def escape_value_def)
  with Escape show ?case by (auto simp: put_char_def)
next
  case (Pair a b c d a' b' c' d' "is")
  then show ?case by (auto simp: hex4_code put_char_def low_surrogate_def high_surrogate_def)
next
  case (Last_unit a b c d)
  then show ?case by (simp add: hex4_code put_char_def)
next
  case (Unit_plain a b c d e "is")
  then show ?case by (cases e; auto simp: hex4_code put_char_def)
next
  case (Unit_escape a b c d e "is")
  then have "e \<noteq> 117" by (auto simp: json_escape_def)
  with Unit_escape show ?case by (simp add: hex4_code put_char_def)
qed simp


text \<open>A number is read up to the delimiter that follows it.\<close>

definition ends_number :: "ustr \<Rightarrow> bool" where
  "ends_number r \<longleftrightarrow> r = [] \<or> json_delimiter (hd r)"

lemma ends_number_simps:
  "ends_number r \<Longrightarrow> takeWhile json_digit r = [] \<and> dropWhile json_digit r = r"
  "ends_number r \<Longrightarrow> match_frac r = ([], r)"
  "ends_number r \<Longrightarrow> match_exp r = ([], r)"
  by (cases r; auto simp: ends_number_def json_delimiter_def json_digit_def match_frac_def match_exp_def split: list.split)+

lemma digits_append:
  assumes "ends_number r"
  shows "takeWhile json_digit (s @ r) = takeWhile json_digit s" "dropWhile json_digit (s @ r) = dropWhile json_digit s @ r"
  using ends_number_simps(1) [OF assms] by (induction s) auto

lemma match_int_append:
  assumes "ends_number r" "match_int s = Some (i, s')"
  shows "match_int (s @ r) = Some (i, s' @ r)"
  using assms(2) by (cases s; cases "tl s")
    (auto simp: match_int_def Let_def digits_append [OF assms(1)] ends_number_simps(1) [OF assms(1)] split: if_splits)

lemma ends_number_hd: "ends_number (a # r) \<Longrightarrow> \<not> json_digit a \<and> a \<noteq> 43 \<and> a \<noteq> 45"
  by (auto simp: ends_number_def json_delimiter_def json_digit_def)

lemma match_frac_append:
  assumes "ends_number r" "match_frac s = (f, s')"
  shows "match_frac (s @ r) = (f, s' @ r)"
proof (cases s)
  case (Cons p s1)
  with assms(2) show ?thesis
    using digits_append [OF assms(1)] assms(1)
    by (cases s1; cases r) (auto simp: match_frac_def split: if_splits dest: ends_number_hd)
qed (use assms ends_number_simps(2) in \<open>auto simp: match_frac_def\<close>)

lemma match_exp_append:
  assumes "ends_number r" "match_exp s = (f, s')"
  shows "match_exp (s @ r) = (f, s' @ r)"
proof (cases s)
  case (Cons p s1)
  with assms(2) show ?thesis
    using digits_append [OF assms(1)] assms(1)
    by (cases s1; cases "tl s1"; cases r) (auto simp: match_exp_def Let_def split: if_splits dest: ends_number_hd)
qed (use assms ends_number_simps(3) in \<open>auto simp: match_exp_def\<close>)

lemma match_number_append:
  assumes "match_number s = Some (i, fe, s')" "ends_number r"
  shows "match_number (s @ r) = Some (i, fe, s' @ r)"
  using assms match_int_append [OF assms(2)] match_frac_append [OF assms(2)] match_exp_append [OF assms(2)]
  by (auto simp: match_number_def Let_def split: option.splits prod.splits)

lemma match_int_eq: "match_int s = Some (i, r) \<Longrightarrow> s = i @ r"
  by (cases s) (auto simp: match_int_def Let_def split: if_splits list.splits)

lemma match_frac_eq: "match_frac s = (f, r) \<Longrightarrow> s = f @ r"
  by (auto simp: match_frac_def split: if_splits list.splits)

lemma match_exp_eq: "match_exp s = (f, r) \<Longrightarrow> s = f @ r"
  by (auto simp: match_exp_def Let_def split: if_splits list.splits)

lemma match_number_eq: "match_number s = Some (i, fe, r) \<Longrightarrow> s = i @ fe @ r"
  by (auto simp: match_number_def Let_def split: option.splits prod.splits
    dest!: match_int_eq match_frac_eq match_exp_eq)

definition reads :: "(ustr \<Rightarrow> pyfloat) \<Rightarrow> ustr \<Rightarrow> pyval \<Rightarrow> bool" where
  "reads fl t v \<longleftrightarrow> t \<noteq> [] \<and> \<not> json_blank (hd t)
     \<and> (\<forall>f r. 2 * length t + 1 \<le> f \<longrightarrow> ends_number r \<longrightarrow> parse_value fl f (t @ r) = Inr (v, r))"

definition reads_entry :: "(ustr \<Rightarrow> pyfloat) \<Rightarrow> ustr \<Rightarrow> ustr \<Rightarrow> ustr \<times> pyval \<Rightarrow> bool" where
  "reads_entry fl w t e \<longleftrightarrow> (\<exists>is u. t = quoted_text is @ w @ 58 # w @ u \<and> list_all item_ok is
     \<and> fst e = items_value is \<and> reads fl u (snd e))"

fun elems :: "ustr \<Rightarrow> ustr list \<Rightarrow> ustr" where
  "elems w [] = []"
| "elems w [t] = t @ w"
| "elems w (t # u # ts) = t @ w @ 44 # w @ elems w (u # ts)"

lemma spaced_elems: "ts \<noteq> [] \<Longrightarrow> spaced w ts = w @ elems w ts"
  by (induction ts rule: induct_list012) auto

lemma skip_blanks_append: "list_all json_blank w \<Longrightarrow> skip_blanks (w @ s) = skip_blanks s"
  by (induction w) (auto simp: skip_blanks_def)

lemma skip_blanks_stop: "s \<noteq> [] \<Longrightarrow> \<not> json_blank (hd s) \<Longrightarrow> skip_blanks s = s"
  by (cases s) (auto simp: skip_blanks_def)

lemma not_blank [simp]: "\<not> json_blank 34" "\<not> json_blank 44" "\<not> json_blank 58" "\<not> json_blank 93" "\<not> json_blank 125"
  by (simp_all add: json_blank_def)

lemma ends_blank: "list_all json_blank w \<Longrightarrow> json_delimiter c \<Longrightarrow> ends_number (w @ c # r)"
  by (cases w) (auto simp: ends_number_def json_blank_def json_delimiter_def)

lemma expect_simps [simp]: "expect c (x # r) = (if x = c then Some r else None)" "expect c [] = None"
  by (simp_all add: expect_def)

lemma elems_hd: "ts \<noteq> [] \<Longrightarrow> hd ts \<noteq> [] \<Longrightarrow> elems w ts \<noteq> [] \<and> hd (elems w ts) = hd (hd ts)"
  by (induction ts rule: induct_list012) auto

lemma readsD:
  "reads fl t v \<Longrightarrow> 2 * length t + 1 \<le> f \<Longrightarrow> ends_number r \<Longrightarrow> parse_value fl f (t @ r) = Inr (v, r)"
  "reads fl t v \<Longrightarrow> skip_blanks (t @ r) = t @ r"
  by (auto simp: reads_def intro: skip_blanks_stop)

lemma read_elements:
  assumes w: "list_all json_blank w"
  shows "list_all2 (reads fl) ts vs \<Longrightarrow> ts \<noteq> [] \<Longrightarrow> 2 * length (elems w ts) + 2 \<le> f
    \<Longrightarrow> parse_elements fl f (elems w ts @ 93 # r) = Inr (vs, r)"
proof (induction ts arbitrary: vs f rule: induct_list012)
  case (2 t)
  then obtain v f' where *: "vs = [v]" "reads fl t v" "f = Suc f'" "2 * length t + 1 \<le> f'"
    by (cases f) (auto simp: list_all2_Cons1)
  show ?case
    using readsD(1) [OF *(2,4) ends_blank [OF w, of 93 r]]
    by (simp add: * skip_blanks_append [OF w] skip_blanks_stop)
next
  case (3 t u ts)
  then obtain v vs' f' where *: "vs = v # vs'" "reads fl t v" "list_all2 (reads fl) (u # ts) vs'" "f = Suc f'"
    "2 * length t + 1 \<le> f'" "2 * length (elems w (u # ts)) + 2 \<le> f'"
    by (cases f) (auto simp: list_all2_Cons1)
  have "hd (u # ts) \<noteq> []" "\<not> json_blank (hd u)" using *(3) by (auto simp: list_all2_Cons1 reads_def)
  then have "skip_blanks (elems w (u # ts) @ 93 # r) = elems w (u # ts) @ 93 # r"
    using elems_hd [of "u # ts" w] by (intro skip_blanks_stop) auto
  then show ?case
    using readsD(1) [OF *(2,5) ends_blank [OF w, of 44]] "3.IH"(2) [OF *(3) _ *(6)]
    by (simp add: *(1,4) skip_blanks_append [OF w] skip_blanks_stop)
qed simp

lemma quoted_hd [simp]: "quoted_text is @ r = 34 # concat (map item_text is) @ 34 # r"
  by (simp add: quoted_text_def)

lemma read_entries:
  assumes w: "list_all json_blank w"
  shows "list_all2 (reads_entry fl w) ts kvs \<Longrightarrow> ts \<noteq> [] \<Longrightarrow> 2 * length (elems w ts) + 2 \<le> f
    \<Longrightarrow> parse_entries fl f (elems w ts @ 125 # r) = Inr (kvs, r)"
proof (induction ts arbitrary: kvs f rule: induct_list012)
  case (2 t)
  then obtain k v "is" u f' where *: "kvs = [(k, v)]" "t = quoted_text is @ w @ 58 # w @ u" "list_all item_ok is"
    "k = items_value is" "reads fl u v" "f = Suc f'" "2 * length u + 1 \<le> f'"
    by (cases f) (auto simp: list_all2_Cons1 reads_entry_def)
  show ?case
    using readsD(1) [OF *(5,7) ends_blank [OF w, of 125 r]] readsD(2) [OF *(5)]
    by (simp add: *(1-4,6) skip_blanks_append [OF w] skip_blanks_stop read_string_items [OF *(3)])
next
  case (3 t u ts)
  obtain e kvs' where e: "kvs = e # kvs'" "reads_entry fl w t e" "list_all2 (reads_entry fl w) (u # ts) kvs'"
    using "3.prems"(1) list_all2_Cons1 [of "reads_entry fl w" t "u # ts" kvs] by blast
  obtain k v "is" x where x: "e = (k, v)" "t = quoted_text is @ w @ 58 # w @ x" "list_all item_ok is"
    "k = items_value is" "reads fl x v" using e(2) by (cases e) (auto simp only: reads_entry_def fst_conv snd_conv)
  obtain f' where f: "f = Suc f'" using "3.prems"(3) by (cases f) auto
  have "2 * length x + 1 \<le> f'" "2 * length (elems w (u # ts)) + 2 \<le> f'" using "3.prems"(3) by (simp_all add: f x(2))
  with e x f have *: "kvs = (k, v) # kvs'" "t = quoted_text is @ w @ 58 # w @ x" "list_all item_ok is"
    "k = items_value is" "reads fl x v" "list_all2 (reads_entry fl w) (u # ts) kvs'" "f = Suc f'"
    "2 * length x + 1 \<le> f'" "2 * length (elems w (u # ts)) + 2 \<le> f'" by simp_all
  have "hd (u # ts) \<noteq> []" "hd u = 34" using *(6) by (auto simp: list_all2_Cons1 reads_entry_def quoted_text_def)
  then have "skip_blanks (elems w (u # ts) @ 125 # r) = elems w (u # ts) @ 125 # r"
    using elems_hd [of "u # ts" w] by (intro skip_blanks_stop) auto
  then show ?case
    using readsD(1) [OF *(5,8) ends_blank [OF w, of 44]] readsD(2) [OF *(5)] "3.IH"(2) [OF *(6) _ *(9)]
    by (simp add: *(1-4,7) skip_blanks_append [OF w] skip_blanks_stop read_string_items [OF *(3)])
qed simp


lemma object_pairs_distinct:
  "distinct (map fst kvs) \<Longrightarrow> set (dkeys d) \<inter> fst ` set kvs = {} \<Longrightarrow> object_pairs kvs d = Inr (d @ kvs)"
proof (induction kvs d rule: object_pairs.induct)
  case (2 k v kvs d)
  then have "k \<notin> set (dkeys d)" by auto
  moreover have "dset k v d = d @ [(k, v)]" using 2 by (intro dset_new) auto
  ultimately show ?case using 2 by (auto simp: dget_None_iff)
qed simp

lemma number_second:
  assumes "match_number n = Some (i, fe, [])" "hd n = 45"
  shows "\<exists>c r. n = 45 # c # r \<and> c \<le> 57"
proof -
  obtain j r where "match_int n = Some (j, r)" using assms(1) by (auto simp: match_number_def split: option.splits)
  with assms(2) show ?thesis
    by (cases n; cases "tl n") (auto simp: match_int_def json_digit_def split: if_splits)
qed

lemma number_reads:
  assumes "number_text n" "readable fl (Number n)"
  shows "reads fl n (doc_value fl (Number n))"
proof -
  obtain i fe where m: "match_number n = Some (i, fe, [])" "if fe = [] then length n \<le> int_max_str_digits else isfinite (fl n)"
    using assms(2) by (auto split: option.splits)
  have n: "n = i @ fe" using match_number_eq [OF m(1)] by simp
  have start: "n \<noteq> []" "hd n = 45 \<or> 48 \<le> hd n \<and> hd n \<le> 57" using assms(1) by (auto simp: number_text_def)
  have val: "number_value fl i fe = Inr (doc_value fl (Number n))"
    using m by (auto simp: number_value_def n int_value_def int_of_digits_def bindE_def parse_finite_float_def split: if_splits)
  have no: "\<not> startswith (n @ r) (U ''null'')" "\<not> startswith (n @ r) (U ''true'')" "\<not> startswith (n @ r) (U ''false'')"
    "\<not> startswith (n @ r) (U ''NaN'')" "\<not> startswith (n @ r) (U ''Infinity'')" "\<not> startswith (n @ r) (U ''-Infinity'')" for r
    using start number_second [OF m(1)] by (cases n; cases "tl n"; auto simp: startswith_def)+
  have "parse_value fl (Suc f) (n @ r) = Inr (doc_value fl (Number n), r)" if "ends_number r" for f r
  proof -
    obtain c n' where c: "n = c # n'" "c \<noteq> 34" "c \<noteq> 123" "c \<noteq> 91" using start by (cases n) auto
    have "parse_value fl (Suc f) (n @ r) = (case match_number (n @ r) of
        None \<Rightarrow> Inl json_error | Some (i, fe, r') \<Rightarrow> bindE (number_value fl i fe) (\<lambda>v. Inr (v, r')))"
      using c no [of r] by (simp del: U_simps)
    then show ?thesis using match_number_append [OF m(1) that] val by simp
  qed
  moreover have "\<not> json_blank (hd n)" using start by (auto simp: json_blank_def)
  ultimately show ?thesis
    using start(1) unfolding reads_def by (metis Suc_eq_plus1 Suc_le_D)
qed

lemma doc_hd: "doc_ok d \<Longrightarrow> doc_text w d \<noteq> [] \<and> hd (doc_text w d) \<notin> {93, 125}"
  by (cases d) (auto simp: quoted_text_def number_text_def)

lemma skip_to_elems:
  assumes "list_all json_blank w" "ts \<noteq> []" "hd ts \<noteq> []" "\<not> json_blank (hd (hd ts))" "hd (hd ts) \<noteq> c"
  shows "skip_blanks (spaced w ts @ c # r) = elems w ts @ c # r" "expect c (elems w ts @ c # r) = None"
  using elems_hd [OF assms(2,3), of w] assms
  by (auto simp: spaced_elems skip_blanks_append [OF assms(1)] expect_def neq_Nil_conv intro!: skip_blanks_stop)

lemma read_doc:
  assumes "list_all json_blank w"
  shows "doc_ok d \<Longrightarrow> readable fl d \<Longrightarrow> reads fl (doc_text w d) (doc_value fl d)"
proof (induction d)
  case (Constant c)
  have *: "parse_value fl (Suc f) (c @ r) = Inr (doc_value fl (Constant c), r)" for f r
    using Constant.prems(1) by (auto simp: startswith_def)
  have "c \<noteq> []" "\<not> json_blank (hd c)" using Constant.prems(1) by (auto simp: json_blank_def)
  with * show ?case unfolding reads_def by (metis Suc_eq_plus1 Suc_le_D doc_text.simps(1))
next
  case (Number n)
  then show ?case using number_reads by simp
next
  case (Text "is")
  have "parse_value fl (Suc f) (quoted_text is @ r) = Inr (VStr (items_value is), r)" for f r
    using Text.prems(1) by (simp add: read_string_items)
  then show ?case unfolding reads_def
    by (metis Suc_eq_plus1 Suc_le_D doc_text.simps(3) doc_value.simps(3) list.discI list.sel(1) not_blank(1) quoted_text_def)
next
  case (Array ds)
  let ?ts = "map (doc_text w) ds"
  have all: "list_all2 (reads fl) ?ts (map (doc_value fl) ds)"
    using Array by (auto simp: list_all2_conv_all_nth list_all_iff)
  have "parse_value fl f (doc_text w (Array ds) @ r) = Inr (doc_value fl (Array ds), r)"
    if f: "2 * length (doc_text w (Array ds)) + 1 \<le> f" for f r
  proof (cases "ds = []")
    case True
    with f show ?thesis by (cases f) (simp_all add: skip_blanks_append [OF assms] skip_blanks_stop)
  next
    case False
    have "?ts \<noteq> []" "hd ?ts \<noteq> []" "\<not> json_blank (hd (hd ?ts))" "hd (hd ?ts) \<noteq> 93"
      using False all Array.prems(1) doc_hd by (auto simp: neq_Nil_conv reads_def)
    note skip = skip_to_elems [OF assms this, of r]
    obtain f' where f': "f = Suc f'" "2 * length (elems w ?ts) + 2 \<le> f'" using f False by (cases f) (auto simp: spaced_elems)
    show ?thesis
      using read_elements [OF assms all _ f'(2), of r] False by (simp add: f'(1) skip)
  qed
  then show ?case by (auto simp: reads_def json_blank_def)
next
  case (Object kds)
  let ?ts = "map (\<lambda>x. quoted_text (fst x) @ w @ 58 # w @ doc_text w (snd x)) kds"
  let ?vs = "map (\<lambda>x. (items_value (fst x), doc_value fl (snd x))) kds"
  have "reads fl (doc_text w (snd x)) (doc_value fl (snd x))" if "x \<in> set kds" for x
  proof -
    have "snd x \<in> Basic_BNFs.snds x" by (cases x) simp
    with Object that show ?thesis by (auto simp: list_all_iff)
  qed
  then have entry: "reads_entry fl w (quoted_text (fst x) @ w @ 58 # w @ doc_text w (snd x))
      (items_value (fst x), doc_value fl (snd x))" if "x \<in> set kds" for x
    using that Object.prems(1) unfolding reads_entry_def
    by (intro exI [of _ "fst x"] exI [of _ "doc_text w (snd x)"]) (simp add: list_all_iff)
  then have all: "list_all2 (reads_entry fl w) ?ts ?vs"
    by (simp add: list_all2_conv_all_nth del: quoted_hd)
  have dist: "distinct (map fst ?vs)" using Object.prems(2) by (simp add: comp_def)
  have "parse_value fl f (doc_text w (Object kds) @ r) = Inr (doc_value fl (Object kds), r)"
    if f: "2 * length (doc_text w (Object kds)) + 1 \<le> f" for f r
  proof (cases "kds = []")
    case True
    with f show ?thesis by (cases f) (simp_all add: skip_blanks_append [OF assms] skip_blanks_stop)
  next
    case False
    have "?ts \<noteq> []" "hd ?ts \<noteq> []" "\<not> json_blank (hd (hd ?ts))" "hd (hd ?ts) \<noteq> 125"
      using False by (auto simp: neq_Nil_conv)
    note skip = skip_to_elems [OF assms this, of r]
    obtain f' where f': "f = Suc f'" "2 * length (elems w ?ts) + 2 \<le> f'" using f False by (cases f) (auto simp: spaced_elems)
    show ?thesis
      using read_entries [OF assms all _ f'(2), of r] False object_pairs_distinct [OF dist, of "[]"]
      by (simp add: f'(1) skip del: quoted_hd)
  qed
  then show ?case by (auto simp: reads_def json_blank_def)
qed

section \<open>The size of the value of a document\<close>

lemma inner_size_sums:
  "js_nodes (inner_size ms) = sum_list (map js_nodes ms)"
  "js_chars (inner_size ms) = sum_list (map js_chars ms)"
  "js_depth (inner_size ms) = foldr max (map js_depth ms) 0"
  by (induction ms) (auto simp: inner_size_def size_add_def size_none_def)

lemma items_value_length: "length (items_value is) \<le> length is"
  by (induction "is" rule: items_value.induct) auto

lemma foldr_max_mono: "list_all2 (\<le>) ms ns \<Longrightarrow> foldr max ms (0::nat) \<le> foldr max ns 0"
  by (induction ms ns rule: list_all2_induct) auto

lemma doc_value_nodes: "value_nodes (doc_value fl d) = js_nodes (doc_size d)"
proof (induction d)
  case (Number n)
  then show ?case by (auto split: option.splits sum.splits)
next
  case (Object kds)
  have "value_nodes (doc_value fl (snd x)) = js_nodes (doc_size (snd x))" if "x \<in> set kds" for x
    using Object [OF that] by (cases x) simp
  then show ?case
    by (simp add: nested_size_def Let_def inner_size_sums comp_def size_add_def string_size_def size_none_def cong: map_cong)
qed (simp_all add: nested_size_def Let_def inner_size_sums comp_def size_none_def string_size_def cong: map_cong)

lemma doc_value_chars: "value_chars (doc_value fl d) \<le> js_chars (doc_size d)"
proof (induction d)
  case (Number n)
  then show ?case by (auto split: option.splits sum.splits)
next
  case (Array ds)
  then show ?case by (auto simp: nested_size_def Let_def inner_size_sums comp_def intro!: sum_list_mono)
next
  case (Object kds)
  have "length (items_value (fst x)) + value_chars (doc_value fl (snd x)) \<le> length (fst x) + js_chars (doc_size (snd x))"
    if "x \<in> set kds" for x
    using Object [OF that] items_value_length [of "fst x"] by (cases x) (simp add: add_mono)
  then show ?case
    by (auto simp: nested_size_def Let_def inner_size_sums comp_def size_add_def string_size_def size_none_def intro!: sum_list_mono)
qed (simp_all add: size_none_def string_size_def items_value_length)

lemma doc_value_depth: "js_depth (doc_size d) \<le> value_depth (doc_value fl d)"
proof (induction d)
  case (Array ds)
  then show ?case
    by (auto simp: nested_size_def Let_def inner_size_sums comp_def list_all2_conv_all_nth intro!: foldr_max_mono)
next
  case (Object kds)
  have "js_depth (doc_size (snd x)) \<le> value_depth (doc_value fl (snd x))" if "x \<in> set kds" for x
    using Object [OF that] by (cases x) simp
  then show ?case
    by (auto simp: nested_size_def Let_def inner_size_sums comp_def size_add_def string_size_def size_none_def
      list.rel_map intro!: foldr_max_mono list.rel_refl_strong)
qed (simp_all add: size_none_def string_size_def)

lemma doc_value_plain: "readable fl d \<Longrightarrow> value_plain (doc_value fl d)"
proof (induction d)
  case (Object kds)
  have "value_plain (doc_value fl (snd x))" if "x \<in> set kds" for x
    using Object that by (cases x) (auto simp: list_all_iff)
  then show ?case by (simp add: list_all_iff)
qed (auto simp: list_all_iff split: option.splits sum.splits)

lemma loads_doc:
  assumes "doc_ok d" "readable fl d" "list_all json_blank w"
  shows "json_loads fl (w @ doc_text w d @ w) = Inr (doc_value fl d)"
proof -
  let ?t = "doc_text w d"
  have r: "reads fl ?t (doc_value fl d)" using read_doc assms by blast
  have "\<not> startswith (w @ ?t @ w) [65279]"
    using assms(1,3) by (cases w; cases d) (auto simp: startswith_def json_blank_def quoted_text_def number_text_def neq_Nil_conv)
  moreover have "skip_blanks (w @ ?t @ w) = ?t @ w" using skip_blanks_append [OF assms(3)] readsD(2) [OF r] by simp
  moreover have "ends_number w" using assms(3) by (cases w) (auto simp: ends_number_def json_blank_def json_delimiter_def)
  then have "parse_value fl (json_fuel (w @ ?t @ w)) (?t @ w) = Inr (doc_value fl d, w)"
    by (intro readsD(1) [OF r]) (simp_all add: json_fuel_def)
  moreover have "skip_blanks w = []" using skip_blanks_append [OF assms(3), of "[]"] by (simp add: skip_blanks_def)
  ultimately show ?thesis by (simp add: json_loads_def)
qed

text \<open>The measures that both checks together impose.\<close>

definition within_json :: "json_limits \<Rightarrow> (ustr \<Rightarrow> pyfloat) \<Rightarrow> jdoc \<Rightarrow> bool" where
  "within_json L fl d \<longleftrightarrow> value_depth (doc_value fl d) \<le> jl_depth L \<and> js_nodes (doc_size d) \<le> jl_nodes L
     \<and> js_chars (doc_size d) \<le> jl_string_chars L \<and> js_number (doc_size d) \<le> jl_number_chars L"

lemma parse_json_doc:
  assumes "doc_ok d" "readable fl d" "list_all json_blank w"
  shows "parse_json_text fl L (w @ doc_text w d @ w) = Inr v \<longleftrightarrow> v = doc_value fl d \<and> within_json L fl d"
proof -
  have pre: "preflight_json L (w @ doc_text w d @ w) = Inr () \<longleftrightarrow> fits L 0 0 0 (doc_size d)"
    using preflight_doc [OF assms(1,3), of L] by (auto split: if_splits)
  show ?thesis
    using doc_value_nodes [of fl d] doc_value_chars [of fl d] doc_value_depth [of d fl]
    by (auto simp: parse_json_text_def bindE_eq_Inr pre loads_doc [OF assms] as_format_error_def check_value_exact
      doc_value_plain [OF assms(2)] fits_def within_json_def)
qed


section \<open>Bytes\<close>

definition continuation :: "nat \<Rightarrow> bool" where
  "continuation b \<longleftrightarrow> 128 \<le> b \<and> b < 192"

text \<open>\<^verbatim>\<open>bytes.decode("utf-8", errors="strict")\<close>: shortest forms only, no surrogates, nothing above \<^verbatim>\<open>10FFFF\<close>.\<close>

definition decode_char :: "bytes \<Rightarrow> (uchar \<times> bytes) option" where
  "decode_char s = (case s of
      [] \<Rightarrow> None
    | b # r \<Rightarrow>
        if b < 128 then Some (b, r)
        else (case r of
            [] \<Rightarrow> None
          | c # r1 \<Rightarrow>
              if \<not> continuation c then None
              else if 194 \<le> b \<and> b < 224 then Some ((b - 192) * 64 + (c - 128), r1)
              else (case r1 of
                  [] \<Rightarrow> None
                | d # r2 \<Rightarrow>
                    if \<not> continuation d then None
                    else if 224 \<le> b \<and> b < 240 then
                      (let u = ((b - 224) * 64 + (c - 128)) * 64 + (d - 128)
                       in if u < 2048 \<or> 55296 \<le> u \<and> u < 57344 then None else Some (u, r2))
                    else (case r2 of
                        [] \<Rightarrow> None
                      | e # r3 \<Rightarrow>
                          if \<not> continuation e \<or> b < 240 \<or> 245 \<le> b then None
                          else (let u = (((b - 240) * 64 + (c - 128)) * 64 + (d - 128)) * 64 + (e - 128)
                            in if u < 65536 \<or> 1114112 \<le> u then None else Some (u, r3))))))"

lemma decode_char_shorter: "decode_char s = Some (u, r) \<Longrightarrow> length r < length s"
  by (auto simp: decode_char_def Let_def split: list.splits if_splits)

function utf8_decode :: "bytes \<Rightarrow> ustr option" where
  "utf8_decode s =
     (if s = [] then Some []
      else case decode_char s of
          None \<Rightarrow> None
        | Some (u, r) \<Rightarrow> map_option (\<lambda>t. u # t) (utf8_decode r))"
  by pat_completeness auto
termination by (relation "measure length") (auto dest: decode_char_shorter)

declare utf8_decode.simps [simp del]

definition is_scalar :: "uchar \<Rightarrow> bool" where
  "is_scalar c \<longleftrightarrow> c < 1114112 \<and> \<not> (55296 \<le> c \<and> c < 57344)"

lemma base64_digits:
  fixes c :: nat
  shows "c = c div 64 * 64 + c mod 64" "c div 4096 = c div 64 div 64" "c div 262144 = c div 64 div 64 div 64"
    "c div 4096 mod 64 = c div 64 div 64 mod 64"
  by (simp_all add: div_mult2_eq [symmetric])

lemma decode_utf8_char:
  assumes "is_scalar c"
  shows "decode_char (utf8_char c @ r) = Some (c, r)"
proof -
  define d where "d = c mod 64"
  define x where "x = c div 64"
  define e where "e = x mod 64"
  define y where "y = x div 64"
  define f where "f = y mod 64"
  define z where "z = y div 64"
  have lt: "d < 64" "e < 64" "f < 64" by (simp_all add: d_def e_def f_def)
  have c: "c = x * 64 + d" "x = y * 64 + e" "y = z * 64 + f"
    by (simp_all add: d_def x_def e_def y_def f_def z_def)
  have parts: "c mod 64 = d" "c div 64 = x" "x mod 64 = e" "c div 4096 = y" "y mod 64 = f" "c div 262144 = z"
    by (simp_all add: base64_digits d_def x_def e_def y_def f_def z_def)
  consider "c < 128" | "128 \<le> c" "c < 2048" | "2048 \<le> c" "c < 65536" | "65536 \<le> c" by linarith
  then show ?thesis
  proof cases
    case 2
    then have "2 \<le> x" "x < 32" using c(1) lt by linarith+
    then show ?thesis using 2 lt by (simp add: utf8_char_def decode_char_def continuation_def parts c(1))
  next
    case 3
    then have "y < 16" using c lt by linarith
    moreover have "((224 + y - 224) * 64 + (128 + e - 128)) * 64 + (128 + d - 128) = c" using c by simp
    ultimately show ?thesis using 3 assms lt
      by (simp add: utf8_char_def decode_char_def continuation_def parts is_scalar_def Let_def)
  next
    case 4
    then have "z < 5" using c lt assms unfolding is_scalar_def by linarith
    moreover have "(((240 + z - 240) * 64 + (128 + f - 128)) * 64 + (128 + e - 128)) * 64 + (128 + d - 128) = c" using c by simp
    ultimately show ?thesis using 4 assms lt
      by (simp add: utf8_char_def decode_char_def continuation_def parts is_scalar_def Let_def)
  qed (simp add: utf8_char_def decode_char_def)
qed

lemma utf8_char_nonempty [simp]: "utf8_char c \<noteq> []"
  by (simp add: utf8_char_def)

lemma utf8_roundtrip:
  assumes "utf8_encode s = Inr b" "list_all (\<lambda>c. c < 1114112) s"
  shows "utf8_decode b = Some s"
proof -
  have "list_all is_scalar s" "b = concat (map utf8_char s)"
    using assms by (auto simp: utf8_encode_def is_scalar_def list_all_iff list_ex_iff split: if_splits)
  moreover have "list_all is_scalar s \<Longrightarrow> utf8_decode (concat (map utf8_char s)) = Some s"
    by (induction s) (simp_all add: utf8_decode.simps decode_utf8_char)
  ultimately show ?thesis by simp
qed

text \<open>\<^verbatim>\<open>utf-8-sig\<close>: a byte order mark at the start is dropped.\<close>

definition decode_utf8_sig :: "bytes \<Rightarrow> ustr option" where
  "decode_utf8_sig b = utf8_decode (if take 3 b = [239, 187, 191] then drop 3 b else b)"

definition parse_bounded_json :: "(ustr \<Rightarrow> pyfloat) \<Rightarrow> json_limits \<Rightarrow> bytes \<Rightarrow> http_error + pyval" where
  "parse_bounded_json fl L body =
     (if length body > jl_bytes L then Inl (Limit_error ''JSON response body is too large'')
      else case decode_utf8_sig body of
          None \<Rightarrow> Inl (Format_error ''JSON response is not valid UTF-8'')
        | Some s \<Rightarrow> parse_json_text fl L s)"



text \<open>\<^verbatim>\<open>{"a":[1,true]}\<close> with blanks, as its bytes.\<close>

definition sample_doc :: jdoc where
  "sample_doc = Object [([Plain 97], Array [Number [49], Constant (U ''true'')])]"

definition sample_json_limits :: json_limits where
  "sample_json_limits = \<lparr>jl_bytes = 100, jl_depth = 3, jl_nodes = 5, jl_string_chars = 1, jl_number_chars = 1\<rparr>"

lemma sample_doc_ok: "doc_ok sample_doc" "readable fl sample_doc" "list_all json_blank [32]"
  by (simp_all add: sample_doc_def number_text_def number_char_def json_blank_def match_number_def match_int_def
      match_frac_def match_exp_def json_digit_def int_max_str_digits_def)


end
