(* ===== verification/Bounded_Xml.thy ===== *)
theory Bounded_Xml
  imports Bounded_Json
begin

text \<open>
  XML from outside (\<^verbatim>\<open>core/bounded_http.py\<close>): the check of a body before other code parses it. The parser
  expat is an argument, given by its version, the calls of the handlers it makes for a body, and whether it
  finds the body well formed. The theorem compares the handlers with the sizes of the document.
\<close>

section \<open>Limits\<close>

record xml_limits =
  xl_bytes :: nat
  xl_depth :: nat
  xl_nodes :: nat
  xl_attributes :: nat
  xl_attribute_chars :: nat
  xl_name_chars :: nat
  xl_text_chars :: nat

definition make_xml_limits :: "int \<Rightarrow> int \<Rightarrow> int \<Rightarrow> int \<Rightarrow> int \<Rightarrow> int \<Rightarrow> int \<Rightarrow> pyerr + xml_limits" where
  "make_xml_limits bytes depth nodes attributes attribute_chars name_chars text_chars =
     (case find (\<lambda>(name, n). n \<le> 0) [(''max_bytes'', bytes), (''max_depth'', depth), (''max_nodes'', nodes),
          (''max_attributes'', attributes), (''max_attribute_chars'', attribute_chars), (''max_name_chars'', name_chars),
          (''max_text_chars'', text_chars)] of
        Some (name, _) \<Rightarrow> Inl (ValueError (name @ '' must be positive''))
      | None \<Rightarrow> Inr \<lparr>xl_bytes = nat bytes, xl_depth = nat depth, xl_nodes = nat nodes, xl_attributes = nat attributes,
                  xl_attribute_chars = nat attribute_chars, xl_name_chars = nat name_chars, xl_text_chars = nat text_chars\<rparr>)"

section \<open>The handlers\<close>

datatype xml_event =
    Start_tag ustr "(ustr \<times> ustr) list"
  | End_tag ustr
  | Char_data ustr
  | Comment_data ustr
  | Instruction ustr ustr
  | Declaration
  | External_entity

record xml_acc =
  xa_depth :: int
  xa_nodes :: nat
  xa_attributes :: nat
  xa_attribute_chars :: nat
  xa_text_chars :: nat

definition no_xml :: xml_acc where
  "no_xml = \<lparr>xa_depth = 0, xa_nodes = 0, xa_attributes = 0, xa_attribute_chars = 0, xa_text_chars = 0\<rparr>"

definition account_node :: "xml_limits \<Rightarrow> xml_acc \<Rightarrow> http_error + xml_acc" where
  "account_node L s =
     (let s' = s\<lparr>xa_nodes := xa_nodes s + 1\<rparr>
      in if xa_nodes s' > xl_nodes L then Inl (Limit_error ''XML response has too many nodes'') else Inr s')"

fun count_attributes :: "xml_limits \<Rightarrow> (ustr \<times> ustr) list \<Rightarrow> xml_acc \<Rightarrow> http_error + xml_acc" where
  "count_attributes L [] s = Inr s"
| "count_attributes L ((name, v) # attrs) s =
     (if length name > xl_name_chars L then Inl (Limit_error ''XML attribute name is too large'')
      else count_attributes L attrs (s\<lparr>xa_attribute_chars := xa_attribute_chars s + (length name + length v)\<rparr>))"

definition start_element :: "xml_limits \<Rightarrow> ustr \<Rightarrow> (ustr \<times> ustr) list \<Rightarrow> xml_acc \<Rightarrow> http_error + xml_acc" where
  "start_element L name attrs s =
     bindE (account_node L (s\<lparr>xa_depth := xa_depth s + 1\<rparr>)) (\<lambda>s.
     let s = s\<lparr>xa_attributes := xa_attributes s + length attrs\<rparr>
     in if length name > xl_name_chars L then Inl (Limit_error ''XML element name is too large'')
        else bindE (count_attributes L attrs s) (\<lambda>s.
          if xa_depth s > int (xl_depth L) then Inl (Limit_error ''XML response is too deeply nested'')
          else if xa_attributes s > xl_attributes L then Inl (Limit_error ''XML response has too many attributes'')
          else if xa_attribute_chars s > xl_attribute_chars L then Inl (Limit_error ''XML response attributes are too large'')
          else Inr s))"

definition character_data :: "xml_limits \<Rightarrow> ustr \<Rightarrow> xml_acc \<Rightarrow> http_error + xml_acc" where
  "character_data L v s =
     (let s' = s\<lparr>xa_text_chars := xa_text_chars s + length v\<rparr>
      in if xa_text_chars s' > xl_text_chars L then Inl (Limit_error ''XML response text is too large'') else Inr s')"

definition xml_handler :: "xml_limits \<Rightarrow> xml_event \<Rightarrow> xml_acc \<Rightarrow> http_error + xml_acc" where
  "xml_handler L e s = (case e of
      Start_tag name attrs \<Rightarrow> start_element L name attrs s
    | End_tag _ \<Rightarrow> Inr (s\<lparr>xa_depth := xa_depth s - 1\<rparr>)
    | Char_data v \<Rightarrow> character_data L v s
    | Comment_data v \<Rightarrow> bindE (account_node L s) (character_data L v)
    | Instruction target v \<Rightarrow>
        if length target > xl_name_chars L then Inl (Limit_error ''XML processing instruction name is too large'')
        else bindE (account_node L s) (character_data L v)
    | Declaration \<Rightarrow> Inl (Format_error ''XML declarations with entities are not allowed'')
    | External_entity \<Rightarrow> Inl (Format_error ''external XML entities are not allowed''))"

fun run_handlers :: "xml_limits \<Rightarrow> xml_event list \<Rightarrow> xml_acc \<Rightarrow> http_error + xml_acc" where
  "run_handlers L [] s = Inr s"
| "run_handlers L (e # es) s = bindE (xml_handler L e s) (run_handlers L es)"

section \<open>The check of a body\<close>

record expat =
  xp_version :: "nat \<times> nat \<times> nat"
  xp_events :: "bytes \<Rightarrow> xml_event list"
  xp_well_formed :: "bytes \<Rightarrow> bool"

definition expat_too_old :: "nat \<times> nat \<times> nat \<Rightarrow> bool" where
  "expat_too_old v = (case v of (a, b, c) \<Rightarrow> a < 2 \<or> a = 2 \<and> (b < 7 \<or> b = 7 \<and> c < 2))"

definition bytes_lower :: "bytes \<Rightarrow> bytes" where
  "bytes_lower = map (\<lambda>c. if 65 \<le> c \<and> c \<le> 90 then c + 32 else c)"

fun contains_bytes :: "bytes \<Rightarrow> bytes \<Rightarrow> bool" where
  "contains_bytes [] p \<longleftrightarrow> p = []"
| "contains_bytes (c # s) p \<longleftrightarrow> startswith (c # s) p \<or> contains_bytes s p"

definition declares_entities :: "bytes \<Rightarrow> bool" where
  "declares_entities body \<longleftrightarrow>
     contains_bytes (bytes_lower body) (U ''<!doctype'') \<or> contains_bytes (bytes_lower body) (U ''<!entity'')"

definition err_xml :: http_error where
  "err_xml = Format_error ''invalid XML response''"

definition validate_bounded_xml :: "expat \<Rightarrow> xml_limits \<Rightarrow> bytes \<Rightarrow> http_error + bytes" where
  "validate_bounded_xml X L body =
     (if length body > xl_bytes L then Inl (Limit_error ''XML response body is too large'')
      else if declares_entities body then Inl (Format_error ''XML DTD and entity declarations are not allowed'')
      else if expat_too_old (xp_version X) then Inl (Format_error ''XML parser version is not safe for external input'')
      else bindE (run_handlers L (xp_events X body) no_xml) (\<lambda>s.
        if \<not> xp_well_formed X body then Inl err_xml
        else if xa_depth s \<noteq> 0 \<or> xa_nodes s = 0 then Inl err_xml
        else Inr body))"

section \<open>Documents\<close>

text \<open>A document as a forest: the root with what stands around it; text may come in any number of pieces.\<close>

datatype xml =
    Element ustr "(ustr \<times> ustr) list" "xml list"
  | Chars ustr
  | Remark ustr
  | Proc ustr ustr

fun forest_events :: "xml list \<Rightarrow> xml_event list" where
  "forest_events [] = []"
| "forest_events (Element n attrs cs # ts) = Start_tag n attrs # forest_events cs @ End_tag n # forest_events ts"
| "forest_events (Chars v # ts) = Char_data v # forest_events ts"
| "forest_events (Remark v # ts) = Comment_data v # forest_events ts"
| "forest_events (Proc p v # ts) = Instruction p v # forest_events ts"

fun forest_depth :: "xml list \<Rightarrow> nat" where
  "forest_depth [] = 0"
| "forest_depth (Element n attrs cs # ts) = max (Suc (forest_depth cs)) (forest_depth ts)"
| "forest_depth (_ # ts) = forest_depth ts"

fun forest_nodes :: "xml list \<Rightarrow> nat" where
  "forest_nodes [] = 0"
| "forest_nodes (Element n attrs cs # ts) = Suc (forest_nodes cs + forest_nodes ts)"
| "forest_nodes (Chars v # ts) = forest_nodes ts"
| "forest_nodes (_ # ts) = Suc (forest_nodes ts)"

fun forest_attributes :: "xml list \<Rightarrow> (ustr \<times> ustr) list" where
  "forest_attributes [] = []"
| "forest_attributes (Element n attrs cs # ts) = attrs @ forest_attributes cs @ forest_attributes ts"
| "forest_attributes (_ # ts) = forest_attributes ts"

fun forest_text :: "xml list \<Rightarrow> ustr" where
  "forest_text [] = []"
| "forest_text (Element n attrs cs # ts) = forest_text cs @ forest_text ts"
| "forest_text (Chars v # ts) = v @ forest_text ts"
| "forest_text (Remark v # ts) = v @ forest_text ts"
| "forest_text (Proc p v # ts) = v @ forest_text ts"

fun forest_names :: "xml list \<Rightarrow> ustr list" where
  "forest_names [] = []"
| "forest_names (Element n attrs cs # ts) = n # map fst attrs @ forest_names cs @ forest_names ts"
| "forest_names (Proc p v # ts) = p # forest_names ts"
| "forest_names (_ # ts) = forest_names ts"

definition attribute_size :: "(ustr \<times> ustr) list \<Rightarrow> nat" where
  "attribute_size attrs = sum_list (map (\<lambda>(n, v). length n + length v) attrs)"

definition xml_fits :: "xml_limits \<Rightarrow> xml_acc \<Rightarrow> xml list \<Rightarrow> bool" where
  "xml_fits L s ts \<longleftrightarrow> list_all (\<lambda>n. length n \<le> xl_name_chars L) (forest_names ts)
     \<and> xa_depth s + int (forest_depth ts) \<le> int (xl_depth L) \<and> xa_nodes s + forest_nodes ts \<le> xl_nodes L
     \<and> xa_attributes s + length (forest_attributes ts) \<le> xl_attributes L
     \<and> xa_attribute_chars s + attribute_size (forest_attributes ts) \<le> xl_attribute_chars L
     \<and> xa_text_chars s + length (forest_text ts) \<le> xl_text_chars L"

definition xml_counted :: "xml_acc \<Rightarrow> xml list \<Rightarrow> xml_acc" where
  "xml_counted s ts = \<lparr>xa_depth = xa_depth s, xa_nodes = xa_nodes s + forest_nodes ts,
     xa_attributes = xa_attributes s + length (forest_attributes ts),
     xa_attribute_chars = xa_attribute_chars s + attribute_size (forest_attributes ts),
     xa_text_chars = xa_text_chars s + length (forest_text ts)\<rparr>"

lemma attribute_size_simps [simp]:
  "attribute_size [] = 0" "attribute_size (a # as) = length (fst a) + length (snd a) + attribute_size as"
  "attribute_size (as @ bs) = attribute_size as + attribute_size bs"
  by (auto simp: attribute_size_def split: prod.splits)

lemma count_attributes_Inr: "count_attributes L attrs s = Inr s' \<longleftrightarrow>
    list_all (\<lambda>n. length n \<le> xl_name_chars L) (map fst attrs)
    \<and> s' = s\<lparr>xa_attribute_chars := xa_attribute_chars s + attribute_size attrs\<rparr>"
  by (induction L attrs s rule: count_attributes.induct) (auto simp: add.assoc)

lemma run_handlers_append: "run_handlers L (es @ fs) s = bindE (run_handlers L es s) (run_handlers L fs)"
proof (induction es arbitrary: s)
  case (Cons e es)
  then show ?case by (cases "xml_handler L e s") auto
qed simp

lemma start_element_Inr: "start_element L n attrs s = Inr s' \<longleftrightarrow>
    xa_nodes s + 1 \<le> xl_nodes L \<and> list_all (\<lambda>n. length n \<le> xl_name_chars L) (n # map fst attrs)
    \<and> xa_depth s + 1 \<le> int (xl_depth L) \<and> xa_attributes s + length attrs \<le> xl_attributes L
    \<and> xa_attribute_chars s + attribute_size attrs \<le> xl_attribute_chars L
    \<and> s' = s\<lparr>xa_depth := xa_depth s + 1, xa_nodes := xa_nodes s + 1, xa_attributes := xa_attributes s + length attrs,
        xa_attribute_chars := xa_attribute_chars s + attribute_size attrs\<rparr>"
  by (auto simp: start_element_def account_node_def bindE_eq_Inr count_attributes_Inr Let_def)

lemma account_node_Inr: "account_node L s = Inr s' \<longleftrightarrow> xa_nodes s + 1 \<le> xl_nodes L \<and> s' = s\<lparr>xa_nodes := xa_nodes s + 1\<rparr>"
  by (auto simp: account_node_def Let_def)

lemma character_data_Inr: "character_data L v s = Inr s' \<longleftrightarrow>
    xa_text_chars s + length v \<le> xl_text_chars L \<and> s' = s\<lparr>xa_text_chars := xa_text_chars s + length v\<rparr>"
  by (auto simp: character_data_def Let_def)

lemma run_forest:
  assumes "xml_fits L s []"
  shows "run_handlers L (forest_events ts) s = Inr s' \<longleftrightarrow> xml_fits L s ts \<and> s' = xml_counted s ts"
  using assms
proof (induction ts arbitrary: s s' rule: forest_events.induct)
  case 1
  then show ?case by (auto simp: xml_counted_def)
next
  case (2 n attrs cs ts)
  let ?s1 = "s\<lparr>xa_depth := xa_depth s + 1, xa_nodes := xa_nodes s + 1, xa_attributes := xa_attributes s + length attrs,
        xa_attribute_chars := xa_attribute_chars s + attribute_size attrs\<rparr>"
  let ?s2 = "(xml_counted ?s1 cs)\<lparr>xa_depth := xa_depth s\<rparr>"
  have "run_handlers L (forest_events (Element n attrs cs # ts)) s = Inr s' \<longleftrightarrow>
      start_element L n attrs s = Inr ?s1 \<and> run_handlers L (forest_events cs) ?s1 = Inr (xml_counted ?s1 cs)
      \<and> run_handlers L (forest_events ts) ?s2 = Inr s'" (is "?run \<longleftrightarrow> ?parts")
  proof
    assume ?run
    then obtain s1 where s1: "start_element L n attrs s = Inr s1"
      "run_handlers L (forest_events cs @ End_tag n # forest_events ts) s1 = Inr s'"
      by (auto simp: bindE_eq_Inr xml_handler_def)
    then have eq: "s1 = ?s1" by (simp only: start_element_Inr)
    with s1 have fit: "xml_fits L ?s1 []" using "2.prems" by (auto simp: start_element_Inr xml_fits_def)
    obtain s2 where s2: "run_handlers L (forest_events cs) ?s1 = Inr s2"
      "run_handlers L (forest_events ts) (s2\<lparr>xa_depth := xa_depth s2 - 1\<rparr>) = Inr s'"
      using s1(2) by (auto simp: eq run_handlers_append bindE_eq_Inr xml_handler_def)
    then have "s2 = xml_counted ?s1 cs" using "2.IH"(1) [OF fit] by blast
    with s1 s2 eq show ?parts by (simp add: xml_counted_def)
  qed (auto simp: xml_handler_def run_handlers_append, simp add: xml_counted_def)
  also have "\<dots> \<longleftrightarrow> start_element L n attrs s = Inr ?s1 \<and> xml_fits L ?s1 cs \<and> xml_fits L ?s2 ts \<and> s' = xml_counted ?s2 ts"
  proof -
    have "xml_fits L ?s1 []" if "start_element L n attrs s = Inr ?s1"
      using that "2.prems" by (auto simp: start_element_Inr xml_fits_def)
    moreover have "xml_fits L ?s2 []" if "xml_fits L ?s1 cs"
      using that "2.prems" by (auto simp: xml_fits_def xml_counted_def)
    ultimately show ?thesis using "2.IH" by blast
  qed
  also have "\<dots> \<longleftrightarrow> xml_fits L s (Element n attrs cs # ts) \<and> s' = xml_counted s (Element n attrs cs # ts)"
  proof -
    have "xml_counted ?s2 ts = xml_counted s (Element n attrs cs # ts)" by (simp add: xml_counted_def add.assoc)
    moreover have "start_element L n attrs s = Inr ?s1 \<and> xml_fits L ?s1 cs \<and> xml_fits L ?s2 ts \<longleftrightarrow>
        xml_fits L s (Element n attrs cs # ts)"
      unfolding start_element_Inr xml_fits_def xml_counted_def using "2.prems" by (auto simp: xml_fits_def)
    ultimately show ?thesis by metis
  qed
  finally show ?case .
next
  case (3 v ts)
  then show ?case
    by (auto simp: xml_handler_def bindE_eq_Inr character_data_Inr xml_fits_def xml_counted_def add.assoc)
next
  case (4 v ts)
  then show ?case
    by (auto simp: xml_handler_def bindE_eq_Inr account_node_Inr character_data_Inr xml_fits_def xml_counted_def add.assoc)
next
  case (5 p v ts)
  then show ?case
    by (auto simp: xml_handler_def bindE_eq_Inr account_node_Inr character_data_Inr xml_fits_def xml_counted_def add.assoc)
qed

text \<open>Whatever expat reports, a body that is accepted made it announce neither a declaration nor an external entity.\<close>

lemma run_handlers_declarations: "run_handlers L es s = Inr s' \<Longrightarrow> Declaration \<notin> set es \<and> External_entity \<notin> set es"
  by (induction L es s rule: run_handlers.induct) (auto simp: bindE_eq_Inr xml_handler_def)

lemma xml_no_declarations:
  "validate_bounded_xml X L body = Inr r \<Longrightarrow> Declaration \<notin> set (xp_events X body) \<and> External_entity \<notin> set (xp_events X body)"
  using run_handlers_declarations by (fastforce simp: validate_bounded_xml_def bindE_eq_Inr split: if_splits)

text \<open>
  C24. The check of XML is exact: of the bodies for which expat reports a document, it accepts those that are
  within the limits on bytes, depth, nodes, attributes, names and text, contain a node and no trace of a
  DTD, and refuses all others; and what it returns is the body as it came.
\<close>

theorem xml_check_exact:
  assumes "xp_events X body = forest_events doc" "xp_well_formed X body"
  shows "validate_bounded_xml X L body = Inr r \<longleftrightarrow> r = body \<and> length body \<le> xl_bytes L
    \<and> \<not> declares_entities body \<and> \<not> expat_too_old (xp_version X)
    \<and> forest_depth doc \<le> xl_depth L \<and> 0 < forest_nodes doc \<and> forest_nodes doc \<le> xl_nodes L
    \<and> length (forest_attributes doc) \<le> xl_attributes L \<and> attribute_size (forest_attributes doc) \<le> xl_attribute_chars L
    \<and> list_all (\<lambda>n. length n \<le> xl_name_chars L) (forest_names doc) \<and> length (forest_text doc) \<le> xl_text_chars L"
proof -
  have "xml_fits L no_xml []" by (simp add: xml_fits_def no_xml_def)
  from run_forest [OF this] have run: "run_handlers L (xp_events X body) no_xml = Inr s \<longleftrightarrow>
      xml_fits L no_xml doc \<and> s = xml_counted no_xml doc" for s
    using assms(1) by simp
  have counted: "xa_depth (xml_counted no_xml doc) = 0" "xa_nodes (xml_counted no_xml doc) = forest_nodes doc"
    by (simp_all add: xml_counted_def no_xml_def)
  have "validate_bounded_xml X L body = Inr r \<longleftrightarrow> r = body \<and> length body \<le> xl_bytes L \<and> \<not> declares_entities body
      \<and> \<not> expat_too_old (xp_version X) \<and> xml_fits L no_xml doc \<and> forest_nodes doc > 0"
    using assms(2) by (auto simp: validate_bounded_xml_def bindE_eq_Inr run counted)
  then show ?thesis by (auto simp: xml_fits_def no_xml_def)
qed

lemma xml_check_exact_witness:
  "\<exists>X. (\<forall>L. validate_bounded_xml X L (U ''<a/>'') = Inr (U ''<a/>'') \<longleftrightarrow> 4 \<le> xl_bytes L \<and> 1 \<le> xl_depth L \<and> 1 \<le> xl_nodes L
      \<and> 1 \<le> xl_name_chars L)"
proof -
  let ?X = "\<lparr>xp_version = (2, 7, 2), xp_events = (\<lambda>_. [Start_tag (U ''a'') [], End_tag (U ''a'')]), xp_well_formed = (\<lambda>_. True)\<rparr>"
  have "\<not> declares_entities (U ''<a/>'')" "\<not> expat_too_old (2, 7, 2)"
    by (simp_all add: declares_entities_def bytes_lower_def startswith_def expat_too_old_def)
  with xml_check_exact [of ?X "U ''<a/>''" "[Element (U ''a'') [] []]"]
  have "\<forall>L. validate_bounded_xml ?X L (U ''<a/>'') = Inr (U ''<a/>'') \<longleftrightarrow> 4 \<le> xl_bytes L \<and> 1 \<le> xl_depth L \<and> 1 \<le> xl_nodes L
      \<and> 1 \<le> xl_name_chars L"
    by (simp add: eval_nat_numeral Suc_le_eq)
  then show ?thesis by blast
qed

end
