(* ===== verification/Bounded_Http.thy ===== *)
theory Bounded_Http
  imports Bounded_Json
begin

text \<open>
  Responses from outside (\<^verbatim>\<open>core/bounded_http.py\<close>): what the headers of a response say, the decoder that
  bounds a body while it arrives, reading of a response, and requests with redirects that are followed by
  hand. How a URL is taken apart and joined, case folding, the decompression of zlib, and the answers of
  servers are arguments, so that the properties hold for all of them.
\<close>

section \<open>The world outside\<close>

record url_parts =
  up_scheme :: ustr
  up_host :: "ustr option"
  up_port :: "nat option"
  up_user :: bool

text \<open>\<open>ev_split\<close> is \<^verbatim>\<open>urlsplit\<close> with its \<^verbatim>\<open>port\<close>, where \<open>None\<close> is an error; \<open>up_user\<close> tells whether there is userinfo.\<close>

record http_env =
  ev_casefold :: "ustr \<Rightarrow> ustr"
  ev_upper :: "ustr \<Rightarrow> ustr"
  ev_split :: "ustr \<Rightarrow> url_parts option"
  ev_join :: "ustr \<Rightarrow> ustr \<Rightarrow> ustr"

text \<open>
  A decompression object of \<^verbatim>\<open>zlib\<close>: \<open>z_decompress\<close> with its bound on the output, \<open>z_flush\<close>, and the attributes
  \<^verbatim>\<open>unconsumed_tail\<close>, \<^verbatim>\<open>unused_data\<close> (whether they are empty) and \<^verbatim>\<open>eof\<close>. The left side is \<^verbatim>\<open>zlib.error\<close>.
\<close>

record 'z zlib =
  z_gzip :: 'z
  z_deflate :: 'z
  z_decompress :: "'z \<Rightarrow> bytes \<Rightarrow> nat \<Rightarrow> unit + bytes \<times> 'z"
  z_flush :: "'z \<Rightarrow> nat \<Rightarrow> unit + bytes \<times> 'z"
  z_tail :: "'z \<Rightarrow> bool"
  z_unused :: "'z \<Rightarrow> bool"
  z_eof :: "'z \<Rightarrow> bool"

section \<open>Limits and policies\<close>

record body_limits =
  bl_wire :: nat
  bl_decoded :: nat
  bl_ratio :: nat
  bl_grace :: nat
  bl_chunk :: nat

definition make_body_limits :: "int \<Rightarrow> int \<Rightarrow> int \<Rightarrow> int \<Rightarrow> int \<Rightarrow> pyerr + body_limits" where
  "make_body_limits wire decoded ratio grace chunk =
     (case find (\<lambda>(name, n). n \<le> 0) [(''max_wire_bytes'', wire), (''max_decoded_bytes'', decoded),
          (''max_decompression_ratio'', ratio), (''ratio_grace_bytes'', grace), (''chunk_bytes'', chunk)] of
        Some (name, _) \<Rightarrow> Inl (ValueError (name @ '' must be positive''))
      | None \<Rightarrow> Inr \<lparr>bl_wire = nat wire, bl_decoded = nat decoded, bl_ratio = nat ratio, bl_grace = nat grace, bl_chunk = nat chunk\<rparr>)"

definition token_char :: "uchar \<Rightarrow> bool" where
  "token_char c \<longleftrightarrow> 48 \<le> c \<and> c \<le> 57 \<or> 65 \<le> c \<and> c \<le> 90 \<or> 97 \<le> c \<and> c \<le> 122
     \<or> c \<in> set (U ''!#$%&*+.^_|~-'') \<or> c = 39 \<or> c = 96"

definition is_token :: "ustr \<Rightarrow> bool" where
  "is_token s \<longleftrightarrow> s \<noteq> [] \<and> list_all token_char s"

definition charset_ok :: "ustr \<Rightarrow> bool" where
  "charset_ok s \<longleftrightarrow> 1 \<le> length s \<and> length s \<le> 64
     \<and> list_all (\<lambda>c. 48 \<le> c \<and> c \<le> 57 \<or> 65 \<le> c \<and> c \<le> 90 \<or> 97 \<le> c \<and> c \<le> 122 \<or> c \<in> {46, 95, 45}) s"

text \<open>\<^verbatim>\<open>s.split(c)\<close> and \<^verbatim>\<open>s.split(c, 1)\<close> for one character.\<close>

fun split_at :: "uchar \<Rightarrow> ustr \<Rightarrow> ustr list" where
  "split_at c [] = [[]]"
| "split_at c (x # s) =
     (if x = c then [] # split_at c s
      else case split_at c s of p # ps \<Rightarrow> (x # p) # ps | [] \<Rightarrow> [[x]])"

definition split_once :: "uchar \<Rightarrow> ustr \<Rightarrow> (ustr \<times> ustr) option" where
  "split_once c s = (case dropWhile (\<lambda>x. x \<noteq> c) s of
      [] \<Rightarrow> None
    | _ # r \<Rightarrow> Some (takeWhile (\<lambda>x. x \<noteq> c) s, r))"

definition endswith :: "ustr \<Rightarrow> ustr \<Rightarrow> bool" where
  "endswith s p \<longleftrightarrow> startswith (rev s) (rev p)"

definition err_mime :: pyerr where
  "err_mime = ValueError ''invalid MIME type''"

definition validate_media_type :: "http_env \<Rightarrow> ustr \<Rightarrow> bool \<Rightarrow> pyerr + unit" where
  "validate_media_type E s prefix =
     (let t = ev_casefold E s
      in if prefix then
           (if \<not> endswith t [47] then Inl (ValueError ''MIME type prefix must end with /'')
            else if \<not> is_token (butlast t) then Inl (ValueError ''invalid MIME type prefix'') else Inr ())
         else (case split_once 47 t of
             None \<Rightarrow> Inl err_mime
           | Some (a, b) \<Rightarrow> if is_token a \<and> is_token b then Inr () else Inl err_mime))"

record mime_policy =
  mp_exact :: "ustr list"
  mp_prefixes :: "ustr list"
  mp_suffixes :: "ustr list"
  mp_missing :: bool

definition make_mime_policy :: "http_env \<Rightarrow> ustr list \<Rightarrow> ustr list \<Rightarrow> ustr list \<Rightarrow> bool \<Rightarrow> pyerr + mime_policy" where
  "make_mime_policy E exact prefixes suffixes missing =
     bindE (mapE (\<lambda>t. validate_media_type E t False) exact) (\<lambda>_.
     bindE (mapE (\<lambda>t. validate_media_type E t True) prefixes) (\<lambda>_.
     bindE (mapE (\<lambda>s. guardE (\<not> startswith s [43] \<or> \<not> is_token (drop 1 s)) (ValueError ''invalid structured MIME suffix'')) suffixes) (\<lambda>_.
     Inr \<lparr>mp_exact = exact, mp_prefixes = prefixes, mp_suffixes = suffixes, mp_missing = missing\<rparr>)))"

definition mime_accepts :: "http_env \<Rightarrow> mime_policy \<Rightarrow> ustr option \<Rightarrow> bool" where
  "mime_accepts E p media = (case media of
      None \<Rightarrow> mp_missing p
    | Some m \<Rightarrow>
        let t = ev_casefold E m
        in t \<in> ev_casefold E ` set (mp_exact p)
           \<or> list_ex (\<lambda>q. startswith t (ev_casefold E q)) (mp_prefixes p)
           \<or> list_ex (\<lambda>q. startswith t (U ''application/'') \<and> endswith t (ev_casefold E q)) (mp_suffixes p))"

section \<open>Headers\<close>

type_synonym http_headers = "(ustr \<times> ustr) list"

definition single_header :: "http_env \<Rightarrow> http_headers \<Rightarrow> string \<Rightarrow> http_error + ustr option" where
  "single_header E hs name =
     (case filter (\<lambda>x. ev_casefold E (fst x) = ev_casefold E (U name)) hs of
        [] \<Rightarrow> Inr None
      | [x] \<Rightarrow> Inr (Some (snd x))
      | _ \<Rightarrow> Inl (Format_error (''duplicate '' @ name @ '' header'')))"

text \<open>\<^verbatim>\<open>s.strip(c)\<close> for a character.\<close>

definition strip_char :: "uchar \<Rightarrow> ustr \<Rightarrow> ustr" where
  "strip_char c s = rev (dropWhile (\<lambda>x. x = c) (rev (dropWhile (\<lambda>x. x = c) s)))"

fun find_charset :: "http_env \<Rightarrow> ustr list \<Rightarrow> http_error + ustr option" where
  "find_charset E [] = Inr None"
| "find_charset E (p # ps) = (case split_once 61 p of
      None \<Rightarrow> find_charset E ps
    | Some (name, v) \<Rightarrow>
        if ev_casefold E (strip name) \<noteq> U ''charset'' then find_charset E ps
        else (let candidate = strip_char 39 (strip_char 34 (strip v))
              in if charset_ok candidate then Inr (Some candidate) else Inl (Format_error ''invalid response charset'')))"

definition parse_content_type :: "http_env \<Rightarrow> http_headers \<Rightarrow> http_error + ustr option \<times> ustr option" where
  "parse_content_type E hs =
     bindE (single_header E hs ''Content-Type'') (\<lambda>raw. case raw of
       None \<Rightarrow> Inr (None, None)
     | Some v \<Rightarrow>
         if v = [] then Inr (None, None)
         else if length v > 512 then Inl (Format_error ''invalid Content-Type header'')
         else (let parts = map strip (split_at 59 v); media = ev_casefold E (hd parts)
               in case validate_media_type E media False of
                    Inl _ \<Rightarrow> Inl (Format_error ''invalid Content-Type header'')
                  | Inr _ \<Rightarrow> bindE (find_charset E (tl parts)) (\<lambda>c. Inr (Some media, c))))"

text \<open>\<open>attr\<close> is the attribute \<^verbatim>\<open>content_length\<close> of the response.\<close>

definition content_length :: "http_env \<Rightarrow> http_headers \<Rightarrow> int option \<Rightarrow> http_error + nat option" where
  "content_length E hs attr =
     bindE (single_header E hs ''Content-Length'') (\<lambda>raw.
       let n = (case raw of
            Some v \<Rightarrow> if v = [] then map_option Inr attr else Some (int_of_str v)
          | None \<Rightarrow> map_option Inr attr)
       in case n of
            None \<Rightarrow> Inr None
          | Some (Inl _) \<Rightarrow> Inl (Format_error ''invalid Content-Length header'')
          | Some (Inr i) \<Rightarrow> if i < 0 then Inl (Format_error ''invalid Content-Length header'') else Inr (Some (nat i)))"

datatype encoding = Identity | Gzip | Deflate

definition content_encoding :: "http_env \<Rightarrow> http_headers \<Rightarrow> http_error + encoding" where
  "content_encoding E hs =
     bindE (single_header E hs ''Content-Encoding'') (\<lambda>raw.
       let v = (case raw of Some r \<Rightarrow> if r = [] then U ''identity'' else r | None \<Rightarrow> U ''identity'')
       in if 44 \<in> set v then Inl (Format_error ''multiple content encodings are not supported'')
          else (let t = ev_casefold E (strip v); enc = (if t = [] then U ''identity'' else t)
            in if enc = U ''x-gzip'' \<or> enc = U ''gzip'' then Inr Gzip
               else if enc = U ''identity'' then Inr Identity
               else if enc = U ''deflate'' then Inr Deflate
               else Inl (Format_error ''unsupported content encoding'')))"

section \<open>The decoder\<close>

record 'z decoder =
  dec_wire :: nat
  dec_body :: bytes
  dec_z :: "'z option"

definition declares_more :: "nat option \<Rightarrow> nat \<Rightarrow> bool" where
  "declares_more declared n \<longleftrightarrow> (case declared of Some k \<Rightarrow> k > n | None \<Rightarrow> False)"

definition new_decoder :: "'z zlib \<Rightarrow> body_limits \<Rightarrow> encoding \<Rightarrow> nat option \<Rightarrow> http_error + 'z decoder" where
  "new_decoder Z L enc declared =
     (if declares_more declared (bl_wire L) then Inl (Limit_error ''declared response body is too large'')
      else if enc = Identity \<and> declares_more declared (bl_decoded L)
      then Inl (Limit_error ''declared decoded body is too large'')
      else Inr \<lparr>dec_wire = 0, dec_body = [],
        dec_z = (case enc of Identity \<Rightarrow> None | Gzip \<Rightarrow> Some (z_gzip Z) | Deflate \<Rightarrow> Some (z_deflate Z))\<rparr>)"

definition permitted_by_ratio :: "body_limits \<Rightarrow> 'z decoder \<Rightarrow> nat" where
  "permitted_by_ratio L D = max (bl_grace L) (dec_wire D * bl_ratio L)"

definition dec_append :: "body_limits \<Rightarrow> bytes \<Rightarrow> 'z decoder \<Rightarrow> http_error + 'z decoder" where
  "dec_append L output D =
     (if output = [] then Inr D
      else if length (dec_body D) + length output > bl_decoded L then Inl (Limit_error ''decoded response body is too large'')
      else (let D' = D\<lparr>dec_body := dec_body D @ output\<rparr>
            in if length (dec_body D') > permitted_by_ratio L D
               then Inl (Limit_error ''response decompression ratio is too large'') else Inr D'))"

definition remaining_budget :: "body_limits \<Rightarrow> 'z decoder \<Rightarrow> http_error + nat" where
  "remaining_budget L D =
     (let remaining = min (int (bl_decoded L) - int (length (dec_body D))) (int (permitted_by_ratio L D) - int (length (dec_body D)))
      in if remaining < 0 then Inl (Limit_error ''decoded response body is too large'') else Inr (nat remaining))"

datatype chunk = Bytes bytes | Not_bytes

definition dec_feed :: "'z zlib \<Rightarrow> body_limits \<Rightarrow> chunk \<Rightarrow> 'z decoder \<Rightarrow> http_error + 'z decoder" where
  "dec_feed Z L c D = (case c of
      Not_bytes \<Rightarrow> Inl (Format_error ''response stream yielded a non-bytes chunk'')
    | Bytes payload \<Rightarrow>
        if payload = [] then Inr D
        else (let D1 = D\<lparr>dec_wire := dec_wire D + length payload\<rparr>
          in if dec_wire D1 > bl_wire L then Inl (Limit_error ''response wire body is too large'')
             else (case dec_z D1 of
                 None \<Rightarrow> dec_append L payload D1
               | Some z \<Rightarrow>
                   bindE (remaining_budget L D1) (\<lambda>n. case z_decompress Z z payload (n + 1) of
                     Inl _ \<Rightarrow> Inl (Format_error ''invalid compressed response'')
                   | Inr (output, z') \<Rightarrow>
                       bindE (dec_append L output (D1\<lparr>dec_z := Some z'\<rparr>)) (\<lambda>D2.
                         if z_tail Z z' then Inl (Limit_error ''decoded response body is too large'') else Inr D2)))))"

definition dec_finish :: "'z zlib \<Rightarrow> body_limits \<Rightarrow> 'z decoder \<Rightarrow> http_error + bytes" where
  "dec_finish Z L D = (case dec_z D of
      None \<Rightarrow> Inr (dec_body D)
    | Some z \<Rightarrow>
        bindE (remaining_budget L D) (\<lambda>n. case z_flush Z z (n + 1) of
          Inl _ \<Rightarrow> Inl (Format_error ''invalid compressed response'')
        | Inr (output, z') \<Rightarrow>
            bindE (dec_append L output (D\<lparr>dec_z := Some z'\<rparr>)) (\<lambda>D'.
              if \<not> z_eof Z z' then Inl (Format_error ''truncated compressed response'')
              else if z_unused Z z' \<or> z_tail Z z' then Inl (Format_error ''compressed response has trailing data'')
              else Inr (dec_body D'))))"


section \<open>Reading a response\<close>

text \<open>
  What a server answers: the attributes of the response object, the chunks of its body with the readings of
  the clock around each, the readings at its end, and whether the stream broke instead. \<open>an_read1\<close> tells whether
  the raw stream of requests has \<^verbatim>\<open>read1\<close>, which adds a check of the clock, and \<open>an_stream\<close> whether there is a stream.
\<close>

record pull =
  pl_before :: real
  pl_socket :: real
  pl_after :: real
  pl_chunk :: chunk

record answer =
  an_url :: ustr
  an_status :: int
  an_headers :: http_headers
  an_length :: "int option"
  an_stream :: bool
  an_read1 :: bool
  an_pulls :: "pull list"
  an_end :: "real \<times> real \<times> real"
  an_broken :: bool

record http_response =
  rs_url :: ustr
  rs_status :: int
  rs_body :: bytes
  rs_media :: "ustr option"
  rs_charset :: "ustr option"
  rs_headers :: "(ustr, ustr) dict"
  rs_wire :: nat
  rs_decoded :: nat

definition header_get :: "http_env \<Rightarrow> http_headers \<Rightarrow> ustr \<Rightarrow> ustr option" where
  "header_get E hs k = map_option snd (find (\<lambda>x. ev_casefold E (fst x) = ev_casefold E k) hs)"

definition build_response :: "http_env \<Rightarrow> answer \<Rightarrow> bytes \<Rightarrow> ustr option \<Rightarrow> ustr option \<Rightarrow> nat \<Rightarrow> http_response" where
  "build_response E a body media charset wire =
     \<lparr>rs_url = an_url a, rs_status = an_status a, rs_body = body, rs_media = media, rs_charset = charset,
      rs_headers = foldl (\<lambda>d x. dset (fst x) (the (header_get E (an_headers a) (fst x))) d) [] (an_headers a),
      rs_wire = wire, rs_decoded = length body\<rparr>"

fun feed_all :: "'z zlib \<Rightarrow> body_limits \<Rightarrow> chunk list \<Rightarrow> 'z decoder \<Rightarrow> http_error + 'z decoder" where
  "feed_all Z L [] D = Inr D"
| "feed_all Z L (c # cs) D = bindE (dec_feed Z L c D) (feed_all Z L cs)"

text \<open>What both readers do before the body: the media type, the policy, the encoding.\<close>

definition check_headers :: "http_env \<Rightarrow> mime_policy option \<Rightarrow> answer \<Rightarrow> http_error + (ustr option \<times> ustr option) \<times> encoding" where
  "check_headers E mp a =
     bindE (parse_content_type E (an_headers a)) (\<lambda>(media, charset).
     bindE (guardE (case mp of Some p \<Rightarrow> \<not> mime_accepts E p media | None \<Rightarrow> False)
        (Format_error ''response content type is not allowed'')) (\<lambda>_.
     bindE (content_encoding E (an_headers a)) (\<lambda>enc. Inr ((media, charset), enc))))"

definition read_aiohttp_response ::
  "http_env \<Rightarrow> 'z zlib \<Rightarrow> body_limits \<Rightarrow> mime_policy option \<Rightarrow> answer \<Rightarrow> http_error + http_response" where
  "read_aiohttp_response E Z L mp a =
     bindE (check_headers E mp a) (\<lambda>((media, charset), enc).
     bindE (content_length E (an_headers a) (an_length a)) (\<lambda>declared.
     bindE (new_decoder Z L enc declared) (\<lambda>D.
     bindE (guardE (\<not> an_stream a) (Format_error ''aiohttp response has no bounded byte stream'')) (\<lambda>_.
     bindE (feed_all Z L (map pl_chunk (an_pulls a)) D) (\<lambda>D'.
     bindE (guardE (an_broken a) (Transport_error ''response body transport failed'')) (\<lambda>_.
     bindE (dec_finish Z L D') (\<lambda>body.
     Inr (build_response E a body media charset (dec_wire D')))))))))"

definition err_deadline :: http_error where
  "err_deadline = Transport_error ''response total timeout exceeded''"

definition before_deadline :: "real option \<Rightarrow> real \<Rightarrow> http_error + unit" where
  "before_deadline dl now = guardE (case dl of Some t \<Rightarrow> now \<ge> t | None \<Rightarrow> False) err_deadline"

text \<open>The loop of \<^verbatim>\<open>decode_limited_chunks\<close> over \<^verbatim>\<open>_raw_chunks\<close>.\<close>

fun pull_all :: "'z zlib \<Rightarrow> body_limits \<Rightarrow> real option \<Rightarrow> bool \<Rightarrow> real \<times> real \<times> real \<Rightarrow> bool \<Rightarrow> pull list
     \<Rightarrow> 'z decoder \<Rightarrow> http_error + 'z decoder" where
  "pull_all Z L dl read1 (t0, t1, t2) broken [] D =
     bindE (before_deadline dl t0) (\<lambda>_.
     bindE (if read1 then before_deadline dl t1 else Inr ()) (\<lambda>_.
     bindE (guardE broken (Transport_error ''response body transport failed'')) (\<lambda>_.
     bindE (before_deadline dl t2) (\<lambda>_. Inr D))))"
| "pull_all Z L dl read1 e broken (p # ps) D =
     bindE (before_deadline dl (pl_before p)) (\<lambda>_.
     bindE (if read1 then before_deadline dl (pl_socket p) else Inr ()) (\<lambda>_.
     bindE (before_deadline dl (pl_after p)) (\<lambda>_.
     bindE (dec_feed Z L (pl_chunk p) D) (\<lambda>D'. pull_all Z L dl read1 e broken ps D'))))"

definition read_requests_response ::
  "http_env \<Rightarrow> 'z zlib \<Rightarrow> body_limits \<Rightarrow> mime_policy option \<Rightarrow> real option \<Rightarrow> answer \<Rightarrow> http_error + http_response" where
  "read_requests_response E Z L mp dl a =
     bindE (check_headers E mp a) (\<lambda>((media, charset), enc).
     bindE (guardE (\<not> an_stream a) (Format_error ''requests response has no bounded raw stream'')) (\<lambda>_.
     bindE (content_length E (an_headers a) (an_length a)) (\<lambda>declared.
     bindE (new_decoder Z L enc declared) (\<lambda>D.
     bindE (pull_all Z L dl (an_read1 a) (an_end a) (an_broken a) (an_pulls a) D) (\<lambda>D'.
     bindE (dec_finish Z L D') (\<lambda>body.
     Inr (build_response E a body media charset (dec_wire D'))))))))"

section \<open>Redirects\<close>

type_synonym origin = "ustr \<times> ustr \<times> nat"

definition http :: ustr where "http = U ''http''"
definition https :: ustr where "https = U ''https''"

definition origin_from_url :: "http_env \<Rightarrow> ustr \<Rightarrow> http_error + origin" where
  "origin_from_url E url = (case ev_split E url of
      None \<Rightarrow> Inl (Redirect_error ''invalid request URL'')
    | Some p \<Rightarrow>
        let scheme = ev_casefold E (up_scheme p);
            host = ev_casefold E (rev (dropWhile (\<lambda>c. c = 46) (rev (case up_host p of Some h \<Rightarrow> h | None \<Rightarrow> []))))
        in if scheme \<notin> {http, https} \<or> host = [] then Inl (Redirect_error ''request URL must be absolute HTTP(S)'')
           else if up_user p then Inl (Redirect_error ''request URL userinfo is not allowed'')
           else Inr (scheme, host, case up_port p of
               Some n \<Rightarrow> if n = 0 then (if scheme = https then 443 else 80) else n
             | None \<Rightarrow> if scheme = https then 443 else 80))"

record redirect_policy =
  rp_hops :: nat
  rp_schemes :: "ustr list"
  rp_origins :: "ustr list option"
  rp_same :: bool
  rp_upgrade :: bool

definition make_redirect_policy ::
  "http_env \<Rightarrow> int \<Rightarrow> ustr list \<Rightarrow> ustr list option \<Rightarrow> bool \<Rightarrow> bool \<Rightarrow> http_error + redirect_policy" where
  "make_redirect_policy E hops schemes origins same upgrade =
     bindE (guardE (hops < 0) (Raised (ValueError ''max_hops must not be negative''))) (\<lambda>_.
     bindE (guardE (schemes = []) (Raised (ValueError ''allowed_schemes must not be empty''))) (\<lambda>_.
     bindE (guardE (\<not> set (map (ev_casefold E) schemes) \<subseteq> {http, https})
        (Raised (ValueError ''redirect schemes must be http or https''))) (\<lambda>_.
     bindE (case origins of Some os \<Rightarrow> mapE (origin_from_url E) os | None \<Rightarrow> Inr []) (\<lambda>_.
     Inr \<lparr>rp_hops = nat hops, rp_schemes = schemes, rp_origins = origins, rp_same = same, rp_upgrade = upgrade\<rparr>))))"

definition redirect_target :: "http_env \<Rightarrow> redirect_policy \<Rightarrow> ustr \<Rightarrow> ustr \<Rightarrow> http_error + ustr \<times> bool" where
  "redirect_target E rp current location =
     (let target = ev_join E current location
      in bindE (origin_from_url E current) (\<lambda>co. bindE (origin_from_url E target) (\<lambda>t_o.
         if fst co = https \<and> fst t_o \<noteq> https then Inl (Redirect_error ''HTTPS redirect downgrade is not allowed'')
         else if fst t_o \<notin> ev_casefold E ` set (rp_schemes rp) then Inl (Redirect_error ''redirect scheme is not allowed'')
         else (let same = (t_o = co);
                   upgraded = (rp_upgrade rp \<and> fst co = http \<and> fst t_o = https \<and> fst (snd co) = fst (snd t_o))
           in if rp_same rp \<and> \<not> (same \<or> upgraded) then Inl (Redirect_error ''cross-origin redirect is not allowed'')
              else (case rp_origins rp of
                  None \<Rightarrow> Inr (target, same)
                | Some os \<Rightarrow> bindE (mapE (origin_from_url E) os) (\<lambda>allowed.
                    if t_o \<notin> set allowed then Inl (Redirect_error ''redirect origin is not allowed'')
                    else Inr (target, same)))))))"

definition request_headers :: "http_env \<Rightarrow> (ustr, ustr) dict \<Rightarrow> ustr \<Rightarrow> http_error + (ustr, ustr) dict" where
  "request_headers E hs accept =
     (if accept \<notin> {U ''identity'', U ''gzip, deflate''}
      then Inl (Raised (ValueError ''accept_encoding must be identity or gzip, deflate''))
      else Inr (dset (U ''Accept-Encoding'') accept
        (filter (\<lambda>x. ev_casefold E (fst x) \<noteq> U ''accept-encoding'') hs)))"

definition sensitive_redirect_headers :: "ustr list" where
  "sensitive_redirect_headers = [U ''authorization'', U ''cookie'', U ''proxy-authorization'']"

definition without_sensitive_headers :: "http_env \<Rightarrow> (ustr, ustr) dict \<Rightarrow> (ustr, ustr) dict" where
  "without_sensitive_headers E hs = filter (\<lambda>x. ev_casefold E (fst x) \<notin> set sensitive_redirect_headers) hs"

definition next_redirect_hop ::
  "http_env \<Rightarrow> redirect_policy \<Rightarrow> ustr \<Rightarrow> nat \<Rightarrow> answer \<Rightarrow> (ustr, ustr) dict \<Rightarrow> http_error + ustr \<times> (ustr, ustr) dict" where
  "next_redirect_hop E rp m hop a hs =
     (if m \<notin> {U ''GET'', U ''HEAD''} then Inl (Redirect_error ''redirects are disabled for this HTTP method'')
      else if hop \<ge> rp_hops rp then Inl (Redirect_error ''too many redirects'')
      else (case header_get E (an_headers a) (U ''Location'') of
          None \<Rightarrow> Inl (Redirect_error ''redirect has no Location header'')
        | Some location \<Rightarrow>
            if location = [] then Inl (Redirect_error ''redirect has no Location header'')
            else bindE (redirect_target E rp (an_url a) location) (\<lambda>(url, same).
              Inr (url, if same then hs else without_sensitive_headers E hs))))"

definition redirect_statuses :: "int list" where
  "redirect_statuses = [301, 302, 303, 307, 308]"

section \<open>Requests\<close>

text \<open>
  A request that was sent, with the three timeouts of \<^verbatim>\<open>requests\<close> where there are any, and what came of it: an
  exception or an answer.
\<close>

record sent =
  st_method :: ustr
  st_url :: ustr
  st_headers :: "(ustr, ustr) dict"
  st_options :: "(ustr, pyval) dict"
  st_timeout :: "(real \<times> real \<times> real) option"

datatype reply = No_answer pyerr | Answer answer

definition hop_options :: "nat \<Rightarrow> (ustr, pyval) dict \<Rightarrow> (ustr, pyval) dict" where
  "hop_options hop opts = (if hop \<noteq> 0 then ddel (U ''params'') opts else opts)"

text \<open>
  The loop over the hops. \<open>timeout\<close> and \<open>admit\<close> are the checks before a request and after its answer, which only
  the client of \<^verbatim>\<open>requests\<close> has; \<open>read\<close> is how a final answer is read, and \<open>srv\<close> what the request of a hop comes to.
  The requests sent are returned with the result.
\<close>

record hop_env =
  he_timeout :: "nat \<Rightarrow> http_error + (real \<times> real \<times> real) option"
  he_admit :: "nat \<Rightarrow> http_error + unit"
  he_read :: "answer \<Rightarrow> http_error + http_response"
  he_server :: "nat \<Rightarrow> reply"

fun request_hops ::
  "http_env \<Rightarrow> redirect_policy \<Rightarrow> int list \<Rightarrow> hop_env \<Rightarrow> ustr \<Rightarrow> (ustr, pyval) dict
     \<Rightarrow> nat \<Rightarrow> nat \<Rightarrow> ustr \<Rightarrow> (ustr, ustr) dict \<Rightarrow> sent list \<times> (http_error + http_response)" where
  "request_hops E rp ok W m opts 0 hop url hs = ([], Inl (Redirect_error ''too many redirects''))"
| "request_hops E rp ok W m opts (Suc left) hop url hs =
     (case he_timeout W hop of
        Inl e \<Rightarrow> ([], Inl e)
      | Inr t \<Rightarrow>
          let s = \<lparr>st_method = m, st_url = url, st_headers = hs, st_options = hop_options hop opts, st_timeout = t\<rparr>
          in (case he_server W hop of
              No_answer e \<Rightarrow> ([s], Inl (Raised e))
            | Answer a \<Rightarrow>
                (case he_admit W hop of
                   Inl e \<Rightarrow> ([s], Inl e)
                 | Inr _ \<Rightarrow>
                     if an_status a \<in> set redirect_statuses then
                       (case next_redirect_hop E rp m hop a hs of
                          Inl e \<Rightarrow> ([s], Inl e)
                        | Inr (url', hs') \<Rightarrow>
                            (case request_hops E rp ok W m opts left (Suc hop) url' hs' of (ss, r) \<Rightarrow> (s # ss, r)))
                     else if an_status a \<notin> set ok then ([s], Inl (Status_error (an_status a)))
                     else ([s], he_read W a))))"

text \<open>What both clients check first: the URL, the headers, and that no option overrides a guard.\<close>

definition prepare_request :: "http_env \<Rightarrow> ustr list \<Rightarrow> string \<Rightarrow> ustr \<Rightarrow> (ustr, ustr) dict \<Rightarrow> ustr \<Rightarrow> (ustr, pyval) dict
     \<Rightarrow> http_error + (ustr, ustr) dict" where
  "prepare_request E reserved msg url headers accept opts =
     bindE (origin_from_url E url) (\<lambda>_.
     bindE (request_headers E headers accept) (\<lambda>hs.
     bindE (guardE (list_ex (\<lambda>k. k \<in> set (dkeys opts)) reserved) (Raised (ValueError msg))) (\<lambda>_. Inr hs)))"

definition reserved_aiohttp_kwargs :: "ustr list" where
  "reserved_aiohttp_kwargs = [U ''allow_redirects'', U ''auto_decompress'', U ''headers'', U ''method'', U ''url'']"

definition aiohttp_hops :: "http_env \<Rightarrow> 'z zlib \<Rightarrow> body_limits \<Rightarrow> mime_policy option \<Rightarrow> (nat \<Rightarrow> reply) \<Rightarrow> hop_env" where
  "aiohttp_hops E Z L mp srv =
     \<lparr>he_timeout = (\<lambda>_. Inr None), he_admit = (\<lambda>_. Inr ()), he_read = read_aiohttp_response E Z L mp, he_server = srv\<rparr>"

definition aiohttp_request_bounded ::
  "http_env \<Rightarrow> 'z zlib \<Rightarrow> body_limits \<Rightarrow> mime_policy option \<Rightarrow> redirect_policy \<Rightarrow> int list \<Rightarrow> (ustr, ustr) dict
     \<Rightarrow> (ustr, pyval) dict \<Rightarrow> ustr \<Rightarrow> ustr \<Rightarrow> ustr \<Rightarrow> (nat \<Rightarrow> reply) \<Rightarrow> sent list \<times> (http_error + http_response)" where
  "aiohttp_request_bounded E Z L mp rp ok headers opts accept m url srv =
     (case prepare_request E reserved_aiohttp_kwargs ''bounded aiohttp request options cannot override transport guards''
          url headers accept opts of
        Inl e \<Rightarrow> ([], Inl e)
      | Inr hs \<Rightarrow> request_hops E rp ok (aiohttp_hops E Z L mp srv) (ev_upper E m) opts (rp_hops rp + 1) 0 url hs)"

subsection \<open>The client of requests and its deadline\<close>

definition float_add :: "pyfloat \<Rightarrow> pyfloat \<Rightarrow> pyfloat" where
  "float_add x y = (case (x, y) of
      (Fin a, Fin b) \<Rightarrow> Fin (a + b)
    | (PosInf, NegInf) \<Rightarrow> NaN | (NegInf, PosInf) \<Rightarrow> NaN
    | (NaN, _) \<Rightarrow> NaN | (_, NaN) \<Rightarrow> NaN
    | (Fin _, y) \<Rightarrow> y | (x, _) \<Rightarrow> x)"

text \<open>The checks both timeouts share: \<^verbatim>\<open>float\<close>, finite, positive.\<close>

definition positive_seconds :: "(ustr \<Rightarrow> pyfloat option) \<Rightarrow> string \<Rightarrow> pyval \<Rightarrow> http_error + real" where
  "positive_seconds parse msg v =
     (case v of
        VBool _ \<Rightarrow> Inl (Raised (ValueError msg))
      | _ \<Rightarrow> (case py_float parse v of
            Inl (TypeError _) \<Rightarrow> Inl (Raised (ValueError msg))
          | Inl (ValueError _) \<Rightarrow> Inl (Raised (ValueError msg))
          | Inl e \<Rightarrow> Inl (Raised e)
          | Inr (Fin r) \<Rightarrow> if r \<le> 0 then Inl (Raised (ValueError msg)) else Inr r
          | Inr _ \<Rightarrow> Inl (Raised (ValueError msg))))"

definition pair_of :: "pyval \<Rightarrow> (pyval \<times> pyval) option" where
  "pair_of v = (case v of VTuple [a, b] \<Rightarrow> Some (a, b) | VList [a, b] \<Rightarrow> Some (a, b) | _ \<Rightarrow> None)"

definition raised :: "pyerr + 'a \<Rightarrow> http_error + 'a" where
  "raised m = (case m of Inl e \<Rightarrow> Inl (Raised e) | Inr x \<Rightarrow> Inr x)"

definition requests_total_timeout :: "(ustr \<Rightarrow> pyfloat option) \<Rightarrow> (ustr, pyval) dict \<Rightarrow> pyval \<Rightarrow> http_error + real" where
  "requests_total_timeout parse opts explicit =
     bindE (if explicit \<noteq> VNone then Inr explicit
            else let v = dget_default opts (U ''timeout'') (VFloat (Fin 30))
              in case pair_of v of
                   None \<Rightarrow> Inr v
                 | Some (a, b) \<Rightarrow> raised (bindE (py_float parse a) (\<lambda>x. bindE (py_float parse b) (\<lambda>y. Inr (VFloat (float_add x y))))))
       (positive_seconds parse ''total timeout must be a positive finite number'')"

definition capped_timeout :: "(ustr \<Rightarrow> pyfloat option) \<Rightarrow> real \<Rightarrow> pyval \<Rightarrow> http_error + real" where
  "capped_timeout parse remaining v =
     (if v = VNone then Inr remaining
      else bindE (positive_seconds parse ''request timeout must be a positive finite number'' v) (\<lambda>r. Inr (min r remaining)))"

definition requests_deadline_timeout :: "(ustr \<Rightarrow> pyfloat option) \<Rightarrow> pyval \<Rightarrow> real \<Rightarrow> http_error + real \<times> real \<times> real" where
  "requests_deadline_timeout parse configured remaining =
     (let (connect, read) = (case pair_of configured of Some p \<Rightarrow> p | None \<Rightarrow> (configured, configured))
      in bindE (capped_timeout parse remaining connect) (\<lambda>c. bindE (capped_timeout parse remaining read) (\<lambda>r.
           Inr (remaining, c, r))))"

definition remaining_before_deadline :: "real \<Rightarrow> real \<Rightarrow> http_error + real" where
  "remaining_before_deadline dl now = (if dl - now \<le> 0 then Inl err_deadline else Inr (dl - now))"

definition reserved_requests_kwargs :: "ustr list" where
  "reserved_requests_kwargs = [U ''allow_redirects'', U ''stream'', U ''headers'', U ''method'', U ''url'']"

definition requests_hops ::
  "http_env \<Rightarrow> (ustr \<Rightarrow> pyfloat option) \<Rightarrow> 'z zlib \<Rightarrow> body_limits \<Rightarrow> mime_policy option \<Rightarrow> pyval \<Rightarrow> real
     \<Rightarrow> (nat \<Rightarrow> real) \<Rightarrow> (nat \<Rightarrow> real) \<Rightarrow> (nat \<Rightarrow> reply) \<Rightarrow> hop_env" where
  "requests_hops E parse Z L mp configured dl before after srv =
     \<lparr>he_timeout = (\<lambda>hop. bindE (remaining_before_deadline dl (before hop)) (\<lambda>left.
        bindE (requests_deadline_timeout parse configured left) (\<lambda>t. Inr (Some t)))),
      he_admit = (\<lambda>hop. before_deadline (Some dl) (after hop)),
      he_read = read_requests_response E Z L mp (Some dl), he_server = srv\<rparr>"

text \<open>\<open>start\<close> is the clock when the deadline is set, \<open>before\<close> and \<open>after\<close> are its readings around the request of a hop.\<close>

definition requests_request_bounded ::
  "http_env \<Rightarrow> (ustr \<Rightarrow> pyfloat option) \<Rightarrow> 'z zlib \<Rightarrow> body_limits \<Rightarrow> mime_policy option \<Rightarrow> redirect_policy \<Rightarrow> int list
     \<Rightarrow> (ustr, ustr) dict \<Rightarrow> (ustr, pyval) dict \<Rightarrow> ustr \<Rightarrow> pyval \<Rightarrow> ustr \<Rightarrow> ustr
     \<Rightarrow> real \<Rightarrow> (nat \<Rightarrow> real) \<Rightarrow> (nat \<Rightarrow> real) \<Rightarrow> (nat \<Rightarrow> reply) \<Rightarrow> sent list \<times> (http_error + http_response)" where
  "requests_request_bounded E parse Z L mp rp ok headers opts0 accept total_seconds m url start before after srv =
     (let opts = (if U ''timeout'' \<in> set (dkeys opts0) then opts0 else dset (U ''timeout'') (VFloat (Fin 30)) opts0)
      in case bindE (prepare_request E reserved_requests_kwargs ''bounded requests options cannot override transport guards''
               url headers accept opts0) (\<lambda>hs.
             bindE (requests_total_timeout parse opts total_seconds) (\<lambda>t. Inr (hs, start + t))) of
          Inl e \<Rightarrow> ([], Inl e)
        | Inr (hs, dl) \<Rightarrow> request_hops E rp ok
            (requests_hops E parse Z L mp (dget_default opts (U ''timeout'') VNone) dl before after srv)
            (ev_upper E m) (ddel (U ''timeout'') opts) (rp_hops rp + 1) 0 url hs)"

section \<open>The body stays within its limits\<close>

definition decoder_ok :: "body_limits \<Rightarrow> 'z decoder \<Rightarrow> bool" where
  "decoder_ok L D \<longleftrightarrow> dec_wire D \<le> bl_wire L \<and> length (dec_body D) \<le> bl_decoded L
     \<and> length (dec_body D) \<le> permitted_by_ratio L D"

lemma new_decoder_ok: "new_decoder Z L enc declared = Inr D \<Longrightarrow> decoder_ok L D \<and> dec_wire D = 0 \<and> dec_body D = []"
  by (auto simp: new_decoder_def decoder_ok_def split: if_splits)

lemma dec_append_Inr:
  assumes "dec_append L out D = Inr D'" "dec_wire D \<le> bl_wire L" "length (dec_body D) \<le> bl_decoded L"
    "length (dec_body D) \<le> permitted_by_ratio L D"
  shows "D' = D\<lparr>dec_body := dec_body D @ out\<rparr> \<and> decoder_ok L D'"
  using assms by (auto simp: dec_append_def decoder_ok_def permitted_by_ratio_def Let_def split: if_splits)

lemma decoder_ok_more:
  assumes "decoder_ok L D" "dec_wire D + n \<le> bl_wire L"
  shows "dec_wire (D\<lparr>dec_wire := dec_wire D + n, dec_z := z\<rparr>) \<le> bl_wire L"
    "length (dec_body D) \<le> bl_decoded L" "length (dec_body D) \<le> permitted_by_ratio L (D\<lparr>dec_wire := dec_wire D + n, dec_z := z\<rparr>)"
  using assms by (auto simp: decoder_ok_def permitted_by_ratio_def le_max_iff_disj add_mult_distrib)

text \<open>What a chunk that was accepted did.\<close>

lemma dec_feed_Inr:
  assumes "dec_feed Z L c D = Inr D'" "decoder_ok L D"
  obtains "c = Bytes []" "D' = D"
  | p where "c = Bytes p" "p \<noteq> []" "dec_z D = None"
      "D' = D\<lparr>dec_wire := dec_wire D + length p, dec_body := dec_body D @ p\<rparr>" "decoder_ok L D'"
  | p z n out z' where "c = Bytes p" "p \<noteq> []" "dec_z D = Some z" "z_decompress Z z p n = Inr (out, z')" "\<not> z_tail Z z'"
      "length (dec_body D) + n \<le> bl_decoded L + 1"
      "D' = D\<lparr>dec_wire := dec_wire D + length p, dec_body := dec_body D @ out, dec_z := Some z'\<rparr>" "decoder_ok L D'"
proof -
  obtain p where c: "c = Bytes p" using assms(1) by (cases c) (auto simp: dec_feed_def)
  show ?thesis
  proof (cases "p = []")
    case True
    with assms(1) show ?thesis using that(1) by (simp add: c dec_feed_def)
  next
    case False
    let ?D = "D\<lparr>dec_wire := dec_wire D + length p\<rparr>"
    have wire: "dec_wire D + length p \<le> bl_wire L" using assms(1) False by (auto simp: c dec_feed_def Let_def split: if_splits)
    note more = decoder_ok_more [OF assms(2) wire]
    show ?thesis
    proof (cases "dec_z D")
      case None
      then have run: "dec_append L p ?D = Inr D'" using assms(1) False wire by (simp add: c dec_feed_def Let_def)
      from dec_append_Inr [OF run] more None
      show ?thesis by (intro that(2) [OF c False None]) (auto simp: permitted_by_ratio_def)
    next
      case (Some z)
      then obtain n where n: "remaining_budget L ?D = Inr n" and rest: "(case z_decompress Z z p (n + 1) of
          Inl _ \<Rightarrow> Inl (Format_error ''invalid compressed response'')
        | Inr (output, z') \<Rightarrow> bindE (dec_append L output (?D\<lparr>dec_z := Some z'\<rparr>)) (\<lambda>D2.
            if z_tail Z z' then Inl (Limit_error ''decoded response body is too large'') else Inr D2)) = Inr D'"
        using assms(1) False wire by (auto simp: c dec_feed_def Let_def bindE_eq_Inr split: if_splits)
      then obtain out z' where run: "remaining_budget L ?D = Inr n" "z_decompress Z z p (n + 1) = Inr (out, z')"
        "dec_append L out (?D\<lparr>dec_z := Some z'\<rparr>) = Inr D'" "\<not> z_tail Z z'"
        by (cases "z_decompress Z z p (n + 1)") (auto simp: bindE_eq_Inr split: if_splits)
      have room: "length (dec_body D) + (n + 1) \<le> bl_decoded L + 1"
        using run(1) more(2) by (auto simp: remaining_budget_def Let_def split: if_splits)
      from dec_append_Inr [OF run(3)] more
      show ?thesis by (intro that(3) [OF c False Some run(2,4) room]) auto
    qed
  qed
qed

lemma feed_all_ok: "feed_all Z L cs D = Inr D' \<Longrightarrow> decoder_ok L D \<Longrightarrow> decoder_ok L D'"
  by (induction Z L cs D rule: feed_all.induct) (auto simp: bindE_eq_Inr elim: dec_feed_Inr)

lemma pull_all_feed: "pull_all Z L dl read1 e broken ps D = Inr D' \<Longrightarrow> feed_all Z L (map pl_chunk ps) D = Inr D' \<and> \<not> broken"
  by (induction Z L dl read1 e broken ps D rule: pull_all.induct) (auto simp: bindE_eq_Inr)

text \<open>Two readers, one account of what they return.\<close>

definition read_from :: "http_env \<Rightarrow> 'z zlib \<Rightarrow> body_limits \<Rightarrow> mime_policy option \<Rightarrow> answer \<Rightarrow> http_response \<Rightarrow> bool" where
  "read_from E Z L mp a rs \<longleftrightarrow> (\<exists>media charset enc declared D D' body.
     check_headers E mp a = Inr ((media, charset), enc) \<and> new_decoder Z L enc declared = Inr D
     \<and> feed_all Z L (map pl_chunk (an_pulls a)) D = Inr D' \<and> \<not> an_broken a \<and> dec_finish Z L D' = Inr body
     \<and> rs = build_response E a body media charset (dec_wire D'))"

lemma read_aiohttp_from: "read_aiohttp_response E Z L mp a = Inr rs \<Longrightarrow> read_from E Z L mp a rs"
  unfolding read_aiohttp_response_def read_from_def by (fastforce simp: bindE_eq_Inr)

lemma read_requests_from: "read_requests_response E Z L mp dl a = Inr rs \<Longrightarrow> read_from E Z L mp a rs"
  unfolding read_requests_response_def read_from_def by (fastforce simp: bindE_eq_Inr dest: pull_all_feed)

section \<open>The body is what was sent\<close>

text \<open>
  What the documentation of \<^verbatim>\<open>zlib\<close> says of a decompression object: \<open>seen z i out\<close> tells that it took the
  input \<open>i\<close>, all of it, and gave \<open>out\<close>; \<open>inflate\<close> is the format.
\<close>

definition zlib_streams :: "'z zlib \<Rightarrow> (bytes \<Rightarrow> bytes option) \<Rightarrow> ('z \<Rightarrow> bytes \<Rightarrow> bytes \<Rightarrow> bool) \<Rightarrow> bool" where
  "zlib_streams Z inflate seen \<longleftrightarrow>
     (\<forall>z i out p n new z'. seen z i out \<longrightarrow> z_decompress Z z p n = Inr (new, z') \<longrightarrow> \<not> z_tail Z z' \<longrightarrow> seen z' (i @ p) (out @ new))
     \<and> (\<forall>z i out n new z'. seen z i out \<longrightarrow> z_flush Z z n = Inr (new, z') \<longrightarrow> seen z' i (out @ new))
     \<and> (\<forall>z i out. seen z i out \<longrightarrow> z_eof Z z \<longrightarrow> \<not> z_unused Z z \<longrightarrow> inflate i = Some out)"

fun payload :: "chunk list \<Rightarrow> bytes" where
  "payload [] = []"
| "payload (Bytes p # cs) = p @ payload cs"
| "payload (Not_bytes # cs) = payload cs"

lemma feed_all_identity:
  "feed_all Z L cs D = Inr D' \<Longrightarrow> decoder_ok L D \<Longrightarrow> dec_z D = None \<Longrightarrow>
     dec_z D' = None \<and> dec_body D' = dec_body D @ payload cs \<and> dec_wire D' = dec_wire D + length (payload cs)"
proof (induction Z L cs D rule: feed_all.induct)
  case (2 Z L c cs D)
  then obtain D1 where D1: "dec_feed Z L c D = Inr D1" "feed_all Z L cs D1 = Inr D'" by (auto simp: bindE_eq_Inr)
  from D1(1) "2.prems"(2) show ?case
    by (cases rule: dec_feed_Inr) (use "2.IH" [OF D1(1,2)] "2.prems" in auto)
qed simp

lemma feed_all_inflate:
  assumes "zlib_streams Z inflate seen"
  shows "feed_all Z L cs D = Inr D' \<Longrightarrow> decoder_ok L D \<Longrightarrow> dec_z D = Some z \<Longrightarrow> seen z i (dec_body D) \<Longrightarrow>
     \<exists>z'. dec_z D' = Some z' \<and> seen z' (i @ payload cs) (dec_body D') \<and> dec_wire D' = dec_wire D + length (payload cs)"
proof (induction cs arbitrary: D z i)
  case (Cons c cs)
  then obtain D1 where D1: "dec_feed Z L c D = Inr D1" "feed_all Z L cs D1 = Inr D'" by (auto simp: bindE_eq_Inr)
  from D1(1) Cons.prems(2) show ?case
  proof (cases rule: dec_feed_Inr)
    case 1
    then show ?thesis using Cons.IH [OF D1(2)] Cons.prems by simp
  next
    case (2 p)
    then show ?thesis using Cons.prems by simp
  next
    case (3 p z0 n out z')
    then have "seen z' (i @ p) (dec_body D @ out)" using assms Cons.prems(3,4) unfolding zlib_streams_def by auto
    then show ?thesis using Cons.IH [OF D1(2), of z' "i @ p"] 3 by auto
  qed
qed auto

lemma dec_finish_Inr:
  assumes "dec_finish Z L D = Inr body" "dec_z D = Some z"
  obtains n out z' D' where "z_flush Z z (n + 1) = Inr (out, z')" "dec_append L out (D\<lparr>dec_z := Some z'\<rparr>) = Inr D'"
    "z_eof Z z'" "\<not> z_unused Z z'" "body = dec_body D'"
proof -
  obtain n where n: "remaining_budget L D = Inr n" and rest: "(case z_flush Z z (n + 1) of
        Inl _ \<Rightarrow> Inl (Format_error ''invalid compressed response'')
      | Inr (output, z') \<Rightarrow> bindE (dec_append L output (D\<lparr>dec_z := Some z'\<rparr>)) (\<lambda>D'.
            if \<not> z_eof Z z' then Inl (Format_error ''truncated compressed response'')
            else if z_unused Z z' \<or> z_tail Z z' then Inl (Format_error ''compressed response has trailing data'')
            else Inr (dec_body D'))) = Inr body"
    using assms by (auto simp: dec_finish_def bindE_eq_Inr)
  then show ?thesis
    using that by (cases "z_flush Z z (n + 1)") (auto simp: bindE_eq_Inr split: if_splits)
qed

lemma finish_inflate:
  assumes "zlib_streams Z inflate seen" "dec_finish Z L D = Inr body" "dec_z D = Some z" "seen z i (dec_body D)"
  shows "inflate i = Some body"
proof -
  obtain n out z' D' where flush: "z_flush Z z (n + 1) = Inr (out, z')"
    "dec_append L out (D\<lparr>dec_z := Some z'\<rparr>) = Inr D'" "z_eof Z z'" "\<not> z_unused Z z'" "body = dec_body D'"
    using dec_finish_Inr [OF assms(2,3)] .
  have "body = dec_body D @ out" using flush(2,5) by (auto simp: dec_append_def Let_def split: if_splits)
  moreover have "seen z' i (dec_body D @ out)" using assms(1,4) flush(1) unfolding zlib_streams_def by blast
  ultimately show ?thesis using assms(1) flush(3,4) unfolding zlib_streams_def by blast
qed

lemma finish_ok:
  assumes "dec_finish Z L D = Inr body" "decoder_ok L D"
  shows "length body \<le> bl_decoded L \<and> length body \<le> permitted_by_ratio L D"
proof (cases "dec_z D")
  case (Some z)
  obtain n out z' D' where flush: "z_flush Z z (n + 1) = Inr (out, z')"
    "dec_append L out (D\<lparr>dec_z := Some z'\<rparr>) = Inr D'" "z_eof Z z'" "\<not> z_unused Z z'" "body = dec_body D'"
    using dec_finish_Inr [OF assms(1) Some] .
  from dec_append_Inr [OF flush(2)] assms(2) flush(5) show ?thesis
    by (auto simp: decoder_ok_def permitted_by_ratio_def)
qed (use assms in \<open>auto simp: dec_finish_def decoder_ok_def\<close>)

lemma read_from_sound:
  assumes "read_from E Z L mp a rs" "\<forall>enc. zlib_streams Z (inflate enc) (seen enc)"
    "seen Gzip (z_gzip Z) [] []" "seen Deflate (z_deflate Z) [] []"
  shows "rs_wire rs = length (payload (map pl_chunk (an_pulls a))) \<and> rs_wire rs \<le> bl_wire L
     \<and> rs_decoded rs = length (rs_body rs) \<and> rs_decoded rs \<le> bl_decoded L
     \<and> rs_decoded rs \<le> max (bl_grace L) (rs_wire rs * bl_ratio L)
     \<and> (\<exists>enc. content_encoding E (an_headers a) = Inr enc
         \<and> Some (rs_body rs) = (if enc = Identity then Some (payload (map pl_chunk (an_pulls a)))
             else inflate enc (payload (map pl_chunk (an_pulls a)))))
     \<and> (case mp of Some p \<Rightarrow> mime_accepts E p (rs_media rs) | None \<Rightarrow> True) \<and> \<not> an_broken a"
proof -
  obtain media charset enc declared D D' body where r: "check_headers E mp a = Inr ((media, charset), enc)"
    "new_decoder Z L enc declared = Inr D" "feed_all Z L (map pl_chunk (an_pulls a)) D = Inr D'" "\<not> an_broken a"
    "dec_finish Z L D' = Inr body" "rs = build_response E a body media charset (dec_wire D')"
    using assms(1) unfolding read_from_def by blast
  let ?sent = "payload (map pl_chunk (an_pulls a))"
  note new = new_decoder_ok [OF r(2)]
  have ok: "decoder_ok L D'" using feed_all_ok [OF r(3)] new by blast
  have enc: "content_encoding E (an_headers a) = Inr enc" "case mp of Some p \<Rightarrow> mime_accepts E p media | None \<Rightarrow> True"
    using r(1) by (auto simp: check_headers_def bindE_eq_Inr split: option.splits)
  have body: "dec_wire D' = length ?sent \<and> Some body = (if enc = Identity then Some ?sent else inflate enc ?sent)"
  proof (cases "dec_z D")
    case None
    then have "enc = Identity" using r(2) by (auto simp: new_decoder_def split: if_splits encoding.splits)
    moreover note feed_all_identity [OF r(3) _ None]
    ultimately show ?thesis using new r(5) by (auto simp: dec_finish_def)
  next
    case (Some z)
    then have z: "enc \<noteq> Identity" "seen enc z [] (dec_body D)"
      using r(2) assms(3,4) by (auto simp: new_decoder_def split: if_splits encoding.splits)
    obtain z' where z': "dec_z D' = Some z'" "seen enc z' ([] @ ?sent) (dec_body D')" "dec_wire D' = dec_wire D + length ?sent"
      using feed_all_inflate [OF assms(2) [rule_format] r(3) _ Some z(2)] new by blast
    then show ?thesis using finish_inflate [OF assms(2) [rule_format] r(5) z'(1,2)] z(1) new by simp
  qed
  have size: "length body \<le> bl_decoded L \<and> length body \<le> max (bl_grace L) (dec_wire D' * bl_ratio L)"
    using finish_ok [OF r(5) ok] by (simp add: permitted_by_ratio_def)
  show ?thesis
    using body size ok enc r(4) by (auto simp: r(6) build_response_def decoder_ok_def split: option.splits)
qed


section \<open>Where requests go\<close>

definition sent_origin :: "http_env \<Rightarrow> sent \<Rightarrow> http_error + origin" where
  "sent_origin E s = origin_from_url E (st_url s)"

definition carries_secret :: "http_env \<Rightarrow> sent \<Rightarrow> bool" where
  "carries_secret E s \<longleftrightarrow> (\<exists>x\<in>set (st_headers s). ev_casefold E (fst x) \<in> set sensitive_redirect_headers)"

text \<open>
  What the policy lets a redirect do from one request to the next. The last line is about the headers: they
  are kept on the same origin and lose the sensitive ones otherwise.
\<close>

definition hop_allowed :: "http_env \<Rightarrow> redirect_policy \<Rightarrow> sent \<Rightarrow> sent \<Rightarrow> bool" where
  "hop_allowed E rp s t \<longleftrightarrow> (\<exists>so t_o. sent_origin E s = Inr so \<and> sent_origin E t = Inr t_o
     \<and> (fst so = https \<longrightarrow> fst t_o = https) \<and> fst t_o \<in> ev_casefold E ` set (rp_schemes rp)
     \<and> (rp_same rp \<longrightarrow> t_o = so \<or> rp_upgrade rp \<and> fst so = http \<and> fst t_o = https \<and> fst (snd so) = fst (snd t_o))
     \<and> (\<forall>os. rp_origins rp = Some os \<longrightarrow> (\<exists>u\<in>set os. origin_from_url E u = Inr t_o))
     \<and> st_method t = st_method s \<and> st_method s \<in> {U ''GET'', U ''HEAD''} \<and> U ''params'' \<notin> set (dkeys (st_options t))
     \<and> st_headers t = (if t_o = so then st_headers s else without_sensitive_headers E (st_headers s)))"

lemma redirect_target_Inr:
  assumes "redirect_target E rp current location = Inr (url, same)"
  shows "\<exists>so t_o. origin_from_url E current = Inr so \<and> origin_from_url E url = Inr t_o
     \<and> (fst so = https \<longrightarrow> fst t_o = https) \<and> fst t_o \<in> ev_casefold E ` set (rp_schemes rp)
     \<and> (rp_same rp \<longrightarrow> t_o = so \<or> rp_upgrade rp \<and> fst so = http \<and> fst t_o = https \<and> fst (snd so) = fst (snd t_o))
     \<and> (\<forall>os. rp_origins rp = Some os \<longrightarrow> (\<exists>u\<in>set os. origin_from_url E u = Inr t_o)) \<and> same = (t_o = so)"
proof -
  let ?target = "ev_join E current location"
  obtain so t_o where o: "origin_from_url E current = Inr so" "origin_from_url E ?target = Inr t_o"
    using assms by (auto simp: redirect_target_def Let_def bindE_eq_Inr)
  note run = assms [unfolded redirect_target_def Let_def o bindE_simps]
  have https: "fst so = https \<longrightarrow> fst t_o = https" and scheme: "fst t_o \<in> ev_casefold E ` set (rp_schemes rp)"
    and same: "rp_same rp \<longrightarrow> t_o = so \<or> rp_upgrade rp \<and> fst so = http \<and> fst t_o = https \<and> fst (snd so) = fst (snd t_o)"
    using run by (metis Inl_Inr_False)+
  have "url = ?target \<and> same = (t_o = so) \<and> (\<forall>os. rp_origins rp = Some os \<longrightarrow> (\<exists>u\<in>set os. origin_from_url E u = Inr t_o))"
  proof (cases "rp_origins rp")
    case None
    with run show ?thesis by (simp split: if_splits)
  next
    case (Some os)
    then obtain allowed where "mapE (origin_from_url E) os = Inr allowed" "t_o \<in> set allowed" "url = ?target" "same = (t_o = so)"
      using run by (auto simp: bindE_eq_Inr split: if_splits)
    with Some show ?thesis using mapE_Inr_set by fastforce
  qed
  with o https scheme same show ?thesis by blast
qed

lemma next_hop_Inr:
  assumes "next_redirect_hop E rp m hop a hs = Inr (url, hs')"
  shows "m \<in> {U ''GET'', U ''HEAD''} \<and> hop < rp_hops rp
     \<and> (\<exists>location same. redirect_target E rp (an_url a) location = Inr (url, same)
         \<and> hs' = (if same then hs else without_sensitive_headers E hs))"
proof -
  have m: "m \<in> {U ''GET'', U ''HEAD''}" "hop < rp_hops rp"
    using assms unfolding next_redirect_hop_def by (simp_all del: U_simps split: if_splits)
  then obtain location where "header_get E (an_headers a) (U ''Location'') = Some location" "location \<noteq> []"
    using assms unfolding next_redirect_hop_def by (simp del: U_simps split: if_splits option.splits)
  with m show ?thesis
    using assms unfolding next_redirect_hop_def by (fastforce simp: bindE_eq_Inr simp del: U_simps)
qed

fun chained :: "('a \<Rightarrow> 'a \<Rightarrow> bool) \<Rightarrow> 'a list \<Rightarrow> bool" where
  "chained R [] = True"
| "chained R [x] = True"
| "chained R (x # y # xs) \<longleftrightarrow> R x y \<and> chained R (y # xs)"

text \<open>A server is honest when the URL its response names has the origin of the request.\<close>

definition names_request :: "http_env \<Rightarrow> hop_env \<Rightarrow> nat \<Rightarrow> sent list \<Rightarrow> bool" where
  "names_request E W hop ss \<longleftrightarrow> (\<forall>k a. k < length ss \<longrightarrow> he_server W (hop + k) = Answer a \<longrightarrow>
     origin_from_url E (an_url a) = sent_origin E (ss ! k))"

lemma names_request_tl: "names_request E W hop (s # ss) \<Longrightarrow> names_request E W (Suc hop) ss"
  unfolding names_request_def by (metis Suc_mono add_Suc_shift length_Cons nth_Cons_Suc)

lemma request_hops_first:
  assumes "request_hops E rp ok W m opts left hop url hs = (s # ss, r)"
  shows "st_url s = url \<and> st_headers s = hs \<and> st_method s = m \<and> st_options s = hop_options hop opts"
  using assms by (cases left) (auto simp: Let_def split: sum.splits reply.splits if_splits prod.splits)

lemma request_hops_chain:
  assumes "request_hops E rp ok W m opts left hop url hs = (ss, r)" "names_request E W hop ss"
  shows "chained (hop_allowed E rp) ss \<and> length ss \<le> left"
  using assms
proof (induction left arbitrary: hop url hs ss)
  case (Suc left)
  show ?case
  proof (cases "length ss \<le> 1")
    case True
    then show ?thesis by (cases ss) auto
  next
    case False
    then obtain s t ss' where ss: "ss = s # t # ss'" by (cases ss; cases "tl ss") auto
    obtain a url' hs' where a: "he_server W hop = Answer a" "next_redirect_hop E rp m hop a hs = Inr (url', hs')"
      "request_hops E rp ok W m opts left (Suc hop) url' hs' = (t # ss', r)"
      using Suc.prems(1) by (auto simp: ss Let_def split: sum.splits reply.splits if_splits prod.splits)
    have rest: "chained (hop_allowed E rp) (t # ss') \<and> length (t # ss') \<le> left"
      using Suc.IH [OF a(3)] names_request_tl Suc.prems(2) by (simp add: ss)
    note first = request_hops_first [OF Suc.prems(1) [unfolded ss]] and second = request_hops_first [OF a(3)]
    have url: "origin_from_url E (an_url a) = sent_origin E s"
      using Suc.prems(2) a(1) unfolding names_request_def ss by force
    obtain location same where step: "redirect_target E rp (an_url a) location = Inr (url', same)"
      "hs' = (if same then hs else without_sensitive_headers E hs)" "m \<in> {U ''GET'', U ''HEAD''}"
      using next_hop_Inr [OF a(2)] by blast
    have "U ''params'' \<notin> set (dkeys (hop_options (Suc hop) opts))"
      using set_dkeys_ddel [of "U ''params''" opts] by (simp add: hop_options_def del: U_simps)
    moreover obtain so t_o where "origin_from_url E (an_url a) = Inr so" "origin_from_url E url' = Inr t_o" "same = (t_o = so)"
      and "(fst so = https \<longrightarrow> fst t_o = https) \<and> fst t_o \<in> ev_casefold E ` set (rp_schemes rp)
       \<and> (rp_same rp \<longrightarrow> t_o = so \<or> rp_upgrade rp \<and> fst so = http \<and> fst t_o = https \<and> fst (snd so) = fst (snd t_o))
       \<and> (\<forall>os. rp_origins rp = Some os \<longrightarrow> (\<exists>u\<in>set os. origin_from_url E u = Inr t_o))"
      using redirect_target_Inr [OF step(1)] by blast
    ultimately have "hop_allowed E rp s t"
      using step(2,3) url first second unfolding hop_allowed_def sent_origin_def
      by (intro exI [of _ so] exI [of _ t_o]) (simp del: U_simps)
    with rest show ?thesis by (simp add: ss)
  qed
qed simp

lemma chained_nth: "chained R xs \<Longrightarrow> Suc k < length xs \<Longrightarrow> R (xs ! k) (xs ! Suc k)"
proof (induction R xs arbitrary: k rule: chained.induct)
  case (3 R x y xs)
  then show ?case by (cases k) auto
qed auto

lemma chained_nth_le:
  assumes "chained R xs" "j \<le> k" "k < length xs" "\<And>x. P x x" "\<And>x y z. P x y \<Longrightarrow> R y z \<Longrightarrow> P x z"
  shows "P (xs ! j) (xs ! k)"
  using assms(2,3)
proof (induction k)
  case (Suc k)
  show ?case
  proof (cases "j = Suc k")
    case False
    then have "P (xs ! j) (xs ! k)" using Suc by simp
    then show ?thesis using assms(5) chained_nth [OF assms(1) Suc.prems(2)] by blast
  qed (use assms(4) in simp)
qed (use assms(4) in simp)

lemma hop_secret: "hop_allowed E rp s t \<Longrightarrow> carries_secret E t \<Longrightarrow> carries_secret E s \<and> sent_origin E s = sent_origin E t"
  by (auto simp: hop_allowed_def carries_secret_def without_sensitive_headers_def split: if_splits)

definition scheme_of :: "http_env \<Rightarrow> sent \<Rightarrow> ustr" where
  "scheme_of E s = (case sent_origin E s of Inr o1 \<Rightarrow> fst o1 | _ \<Rightarrow> [])"

lemma hop_scheme: "hop_allowed E rp s t \<Longrightarrow> scheme_of E s = https \<Longrightarrow> scheme_of E t = https"
  by (auto simp: hop_allowed_def scheme_of_def)

lemma chained_confined:
  assumes "chained (hop_allowed E rp) ss" "j \<le> k" "k < length ss"
  shows "carries_secret E (ss ! k) \<longrightarrow> sent_origin E (ss ! j) = sent_origin E (ss ! k)"
    "scheme_of E (ss ! j) = https \<longrightarrow> scheme_of E (ss ! k) = https"
    "rp_same rp \<and> \<not> rp_upgrade rp \<longrightarrow> sent_origin E (ss ! j) = sent_origin E (ss ! k)"
proof -
  let ?P = "\<lambda>s t. (carries_secret E t \<longrightarrow> carries_secret E s \<and> sent_origin E s = sent_origin E t)"
  have "?P (ss ! j) (ss ! k)" by (rule chained_nth_le [OF assms]) (auto dest: hop_secret)
  then show "carries_secret E (ss ! k) \<longrightarrow> sent_origin E (ss ! j) = sent_origin E (ss ! k)" by blast
  show "scheme_of E (ss ! j) = https \<longrightarrow> scheme_of E (ss ! k) = https"
    by (rule chained_nth_le [OF assms, where P = "\<lambda>s t. scheme_of E s = https \<longrightarrow> scheme_of E t = https"]) (auto dest: hop_scheme)
  show "rp_same rp \<and> \<not> rp_upgrade rp \<longrightarrow> sent_origin E (ss ! j) = sent_origin E (ss ! k)"
    by (rule chained_nth_le [OF assms, where P = "\<lambda>s t. rp_same rp \<and> \<not> rp_upgrade rp \<longrightarrow> sent_origin E s = sent_origin E t"])
      (auto simp: hop_allowed_def)
qed

lemma request_hops_result:
  assumes "request_hops E rp ok W m opts left hop url hs = (ss, Inr rs)"
  shows "ss \<noteq> [] \<and> (\<exists>a. he_server W (hop + length ss - 1) = Answer a \<and> an_status a \<in> set ok
      \<and> he_admit W (hop + length ss - 1) = Inr () \<and> he_read W a = Inr rs)"
  using assms
proof (induction left arbitrary: hop url hs ss)
  case (Suc left)
  from Suc.prems obtain s ss' where ss: "ss = s # ss'" by (auto simp: Let_def split: sum.splits reply.splits if_splits prod.splits)
  show ?case
  proof (cases ss')
    case Nil
    have "False" if "request_hops E rp ok W m opts left (Suc hop) u h = ([], Inr rs)" for u h
      using Suc.IH [OF that] by simp
    then show ?thesis using Suc.prems by (auto simp: ss Nil Let_def split: sum.splits reply.splits if_splits prod.splits)
  next
    case (Cons t ts)
    then obtain u h where "request_hops E rp ok W m opts left (Suc hop) u h = (ss', Inr rs)"
      using Suc.prems by (auto simp: ss Let_def split: sum.splits reply.splits if_splits prod.splits)
    from Suc.IH [OF this] show ?thesis by (simp add: ss Cons)
  qed
qed simp

text \<open>Both clients as the loop they run.\<close>

lemma aiohttp_loop:
  assumes "aiohttp_request_bounded E Z L mp rp ok headers opts accept m url srv = (ss, r)" "ss \<noteq> []"
  obtains hs where "request_hops E rp ok (aiohttp_hops E Z L mp srv) (ev_upper E m) opts (rp_hops rp + 1) 0 url hs = (ss, r)"
  using assms by (auto simp: aiohttp_request_bounded_def simp del: request_hops.simps split: sum.splits)

lemma requests_loop:
  assumes "requests_request_bounded E parse Z L mp rp ok headers opts accept total_seconds m url start before after srv = (ss, r)"
    "ss \<noteq> []"
  obtains hs opts' t configured where "requests_total_timeout parse (if U ''timeout'' \<in> set (dkeys opts) then opts
      else dset (U ''timeout'') (VFloat (Fin 30)) opts) total_seconds = Inr t"
    "request_hops E rp ok (requests_hops E parse Z L mp configured (start + t) before after srv) (ev_upper E m) opts'
      (rp_hops rp + 1) 0 url hs = (ss, r)"
proof -
  let ?opts = "if U ''timeout'' \<in> set (dkeys opts) then opts else dset (U ''timeout'') (VFloat (Fin 30)) opts"
  let ?prep = "bindE (prepare_request E reserved_requests_kwargs ''bounded requests options cannot override transport guards''
               url headers accept opts) (\<lambda>hs. bindE (requests_total_timeout parse ?opts total_seconds) (\<lambda>t. Inr (hs, start + t)))"
  note run = assms(1) [unfolded requests_request_bounded_def Let_def]
  obtain hs dl where p: "?prep = Inr (hs, dl)" using run assms(2) by (cases ?prep) auto
  then obtain t where "requests_total_timeout parse ?opts total_seconds = Inr t" "dl = start + t" by (auto simp only: bindE_eq_Inr)
  with run [unfolded p] show ?thesis using that by (simp only: sum.case prod.case)
qed

lemma requests_timeouts:
  assumes "he_timeout (requests_hops E parse Z L mp configured dl before after srv) hop = Inr t"
  shows "before hop < dl \<and> (\<exists>c rd. t = Some (dl - before hop, c, rd) \<and> c \<le> dl - before hop \<and> rd \<le> dl - before hop)"
  using assms by (auto simp: requests_hops_def bindE_eq_Inr remaining_before_deadline_def requests_deadline_timeout_def
    capped_timeout_def split: if_splits prod.splits)

lemma hop_env_simps [simp]:
  "he_timeout (aiohttp_hops E Z L mp srv) hop = Inr None" "he_admit (aiohttp_hops E Z L mp srv) hop = Inr ()"
  "he_server (aiohttp_hops E Z L mp srv) = srv" "he_read (aiohttp_hops E Z L mp srv) = read_aiohttp_response E Z L mp"
  "he_server (requests_hops E parse Z L mp configured dl before after srv) = srv"
  "he_read (requests_hops E parse Z L mp configured dl before after srv) = read_requests_response E Z L mp (Some dl)"
  "he_admit (requests_hops E parse Z L mp configured dl before after srv) hop = before_deadline (Some dl) (after hop)"
  by (simp_all add: aiohttp_hops_def requests_hops_def)

text \<open>
  The clients at work: the requests one of them sent, its result, and the answers it got.
\<close>

inductive client_run ::
  "http_env \<Rightarrow> 'z zlib \<Rightarrow> body_limits \<Rightarrow> mime_policy option \<Rightarrow> redirect_policy \<Rightarrow> int list \<Rightarrow> ustr \<Rightarrow> (nat \<Rightarrow> reply)
     \<Rightarrow> sent list \<Rightarrow> http_error + http_response \<Rightarrow> bool" for E Z L mp rp ok url srv where
  By_aiohttp: "aiohttp_request_bounded E Z L mp rp ok headers opts accept m url srv = (ss, r) \<Longrightarrow>
    client_run E Z L mp rp ok url srv ss r"
| By_requests: "requests_request_bounded E parse Z L mp rp ok headers opts accept total_seconds m url start before after srv
      = (ss, r) \<Longrightarrow> client_run E Z L mp rp ok url srv ss r"

lemma client_run_loop:
  assumes "client_run E Z L mp rp ok url srv ss r" "ss \<noteq> []"
  obtains W m opts hs where "request_hops E rp ok W m opts (rp_hops rp + 1) 0 url hs = (ss, r)" "he_server W = srv"
    "\<And>a rs. he_read W a = Inr rs \<Longrightarrow> read_from E Z L mp a rs"
  using assms(1)
proof cases
  case (By_aiohttp headers opts accept m)
  then obtain hs where "request_hops E rp ok (aiohttp_hops E Z L mp srv) (ev_upper E m) opts (rp_hops rp + 1) 0 url hs = (ss, r)"
    using aiohttp_loop assms(2) by metis
  then show ?thesis using that read_aiohttp_from by fastforce
next
  case (By_requests parse headers opts accept total_seconds m start before after)
  obtain hs opts' t configured where
    "request_hops E rp ok (requests_hops E parse Z L mp configured (start + t) before after srv) (ev_upper E m) opts'
      (rp_hops rp + 1) 0 url hs = (ss, r)"
    using requests_loop [OF By_requests assms(2)] .
  then show ?thesis using that read_requests_from by fastforce
qed

lemma client_run_result:
  assumes "client_run E Z L mp rp ok url srv ss (Inr rs)"
  shows "ss \<noteq> [] \<and> (\<exists>a. srv (length ss - 1) = Answer a \<and> an_status a \<in> set ok \<and> read_from E Z L mp a rs)"
proof -
  have "ss \<noteq> []"
    using assms
  proof cases
    case (By_aiohttp headers opts accept m)
    then show ?thesis
      using request_hops_result by (fastforce simp: aiohttp_request_bounded_def simp del: request_hops.simps split: sum.splits)
  next
    case (By_requests parse headers opts accept total_seconds m start before after)
    then show ?thesis
      using request_hops_result by (fastforce simp: requests_request_bounded_def Let_def simp del: request_hops.simps split: sum.splits)
  qed
  moreover obtain W m opts hs where loop: "request_hops E rp ok W m opts (rp_hops rp + 1) 0 url hs = (ss, Inr rs)" "he_server W = srv"
    "\<And>a rs. he_read W a = Inr rs \<Longrightarrow> read_from E Z L mp a rs"
    using client_run_loop [OF assms \<open>ss \<noteq> []\<close>] by metis
  ultimately show ?thesis using request_hops_result [OF loop(1)] loop(2,3) by fastforce
qed


text \<open>
  C6. Whatever a server sends, a response that is returned has a status the caller accepts and a media type
  the policy accepts; its body, its size on the wire and the ratio of the two are within the limits; and the
  body is exactly what was sent, decompressed if the response says so. The hypotheses about \<^verbatim>\<open>zlib\<close> are those of
  its documentation.
\<close>

theorem http_response_sound:
  assumes "client_run E Z L mp rp ok url srv ss (Inr rs)"
    and "\<forall>enc. zlib_streams Z (inflate enc) (seen enc)"
    and "seen Gzip (z_gzip Z) [] []" and "seen Deflate (z_deflate Z) [] []"
  shows "\<exists>a. srv (length ss - 1) = Answer a \<and> an_status a \<in> set ok \<and> rs_status rs = an_status a
    \<and> rs_wire rs = length (payload (map pl_chunk (an_pulls a))) \<and> rs_wire rs \<le> bl_wire L
    \<and> rs_decoded rs = length (rs_body rs) \<and> rs_decoded rs \<le> bl_decoded L
    \<and> rs_decoded rs \<le> max (bl_grace L) (rs_wire rs * bl_ratio L)
    \<and> (\<exists>enc. content_encoding E (an_headers a) = Inr enc
        \<and> Some (rs_body rs) = (if enc = Identity then Some (payload (map pl_chunk (an_pulls a)))
            else inflate enc (payload (map pl_chunk (an_pulls a)))))
    \<and> (case mp of Some p \<Rightarrow> mime_accepts E p (rs_media rs) | None \<Rightarrow> True) \<and> \<not> an_broken a"
proof -
  obtain a where a: "srv (length ss - 1) = Answer a" "an_status a \<in> set ok" "read_from E Z L mp a rs"
    using client_run_result [OF assms(1)] by blast
  moreover have "rs_status rs = an_status a" using a(3) by (auto simp: read_from_def build_response_def)
  ultimately show ?thesis using read_from_sound [OF a(3) assms(2-4)] by blast
qed

lemma request_hops_timeouts:
  assumes "request_hops E rp ok W m opts left hop url hs = (ss, r)"
  shows "\<forall>k<length ss. he_timeout W (hop + k) = Inr (st_timeout (ss ! k))"
  using assms
proof (induction left arbitrary: hop url hs ss)
  case (Suc left)
  show ?case
  proof (cases ss)
    case (Cons s ss')
    have first: "he_timeout W hop = Inr (st_timeout s)"
      using Suc.prems by (auto simp: Cons Let_def split: sum.splits reply.splits if_splits prod.splits)
    have "ss' = [] \<or> (\<exists>u h. request_hops E rp ok W m opts left (Suc hop) u h = (ss', r))"
      using Suc.prems by (auto simp: Cons Let_def split: sum.splits reply.splits if_splits prod.splits)
    then have "\<forall>k<length ss'. he_timeout W (Suc hop + k) = Inr (st_timeout (ss' ! k))"
    proof
      assume "\<exists>u h. request_hops E rp ok W m opts left (Suc hop) u h = (ss', r)"
      then show ?thesis using Suc.IH by blast
    qed simp
    with first show ?thesis by (auto simp: Cons nth_Cons split: nat.split)
  qed simp
qed simp

lemma positive_seconds_pos: "positive_seconds parse msg v = Inr r \<Longrightarrow> 0 < r"
  by (cases v; cases "py_float parse v"; cases "projl (py_float parse v)"; cases "projr (py_float parse v)")
    (auto simp: positive_seconds_def split: if_splits)

lemma pull_all_deadline: "pull_all Z L (Some dl) read1 e broken ps D = Inr D' \<Longrightarrow> snd (snd e) < dl"
  by (induction Z L "Some dl" read1 e broken ps D rule: pull_all.induct) (auto simp: bindE_eq_Inr before_deadline_def)

text \<open>
  C23. The client of requests and its deadline: no request is sent once the time is up, each is given no more
  than what is left of it, to connect, to read and altogether, and a response that is returned was complete
  before the deadline, whatever the server did to stretch it.
\<close>

theorem requests_deadline_kept:
  assumes "requests_request_bounded E parse Z L mp rp ok headers opts accept total_seconds m url start before after srv = (ss, r)"
    and "ss \<noteq> []"
  shows "\<exists>dl. requests_total_timeout parse (if U ''timeout'' \<in> set (dkeys opts) then opts
        else dset (U ''timeout'') (VFloat (Fin 30)) opts) total_seconds = Inr (dl - start) \<and> start < dl
    \<and> (\<forall>k<length ss. before k < dl \<and> (\<exists>c rd. st_timeout (ss ! k) = Some (dl - before k, c, rd)
        \<and> c \<le> dl - before k \<and> rd \<le> dl - before k))
    \<and> (\<forall>rs. r = Inr rs \<longrightarrow> after (length ss - 1) < dl
        \<and> (\<exists>a. srv (length ss - 1) = Answer a \<and> snd (snd (an_end a)) < dl))"
proof -
  let ?opts = "if U ''timeout'' \<in> set (dkeys opts) then opts else dset (U ''timeout'') (VFloat (Fin 30)) opts"
  obtain hs opts' t configured where t: "requests_total_timeout parse ?opts total_seconds = Inr t" and
    loop: "request_hops E rp ok (requests_hops E parse Z L mp configured (start + t) before after srv) (ev_upper E m) opts'
      (rp_hops rp + 1) 0 url hs = (ss, r)"
    using requests_loop [OF assms] .
  have "0 < t" using t positive_seconds_pos unfolding requests_total_timeout_def bindE_eq_Inr by blast
  moreover have "before k < start + t \<and> (\<exists>c rd. st_timeout (ss ! k) = Some (start + t - before k, c, rd)
      \<and> c \<le> start + t - before k \<and> rd \<le> start + t - before k)" if "k < length ss" for k
    using requests_timeouts request_hops_timeouts [OF loop] that by fastforce
  moreover have "after (length ss - 1) < start + t \<and> (\<exists>a. srv (length ss - 1) = Answer a \<and> snd (snd (an_end a)) < start + t)"
    if res: "r = Inr rs" for rs
  proof -
    obtain a where a: "srv (length ss - 1) = Answer a" "before_deadline (Some (start + t)) (after (length ss - 1)) = Inr ()"
      "read_requests_response E Z L mp (Some (start + t)) a = Inr rs"
      using request_hops_result [OF loop [unfolded res]] by auto
    then show ?thesis
      using pull_all_deadline by (fastforce simp: read_requests_response_def bindE_eq_Inr before_deadline_def)
  qed
  ultimately show ?thesis using t by (intro exI [of _ "start + t"]) simp
qed

section \<open>Samples\<close>

text \<open>Two hosts, a redirect from the first to the second, and a codec that stores its input.\<close>

definition sample_http :: http_env where
  "sample_http = \<lparr>ev_casefold = (\<lambda>s. s), ev_upper = (\<lambda>s. s),
     ev_split = (\<lambda>u. if u = [] then None else Some \<lparr>up_scheme = https, up_host = Some u, up_port = None, up_user = False\<rparr>),
     ev_join = (\<lambda>_ l. l)\<rparr>"

definition stored_zlib :: "bool zlib" where
  "stored_zlib = \<lparr>z_gzip = False, z_deflate = False, z_decompress = (\<lambda>z p n. Inr (take n p, n < length p)),
     z_flush = (\<lambda>z n. Inr ([], z)), z_tail = (\<lambda>z. z), z_unused = (\<lambda>z. False), z_eof = (\<lambda>z. True)\<rparr>"

lemma stored_zlib_streams: "zlib_streams stored_zlib (\<lambda>i. Some i) (\<lambda>z i out. out = i)"
  by (simp add: zlib_streams_def stored_zlib_def)

definition sample_answer :: "ustr \<Rightarrow> int \<Rightarrow> http_headers \<Rightarrow> bytes \<Rightarrow> answer" where
  "sample_answer u st hs b = \<lparr>an_url = u, an_status = st, an_headers = hs, an_length = None, an_stream = True, an_read1 = False,
     an_pulls = [\<lparr>pl_before = 1, pl_socket = 1, pl_after = 1, pl_chunk = Bytes b\<rparr>], an_end = (2, 2, 2), an_broken = False\<rparr>"

definition sample_server :: "nat \<Rightarrow> reply" where
  "sample_server hop = Answer (if hop = 0 then sample_answer [1] 302 [(U ''Location'', [2])] []
     else sample_answer [2] 200 [(U ''Content-Encoding'', U ''gzip'')] [7, 8])"

definition sample_limits_http :: body_limits where
  "sample_limits_http = \<lparr>bl_wire = 10, bl_decoded = 10, bl_ratio = 2, bl_grace = 4, bl_chunk = 4\<rparr>"

definition sample_policy :: redirect_policy where
  "sample_policy = \<lparr>rp_hops = 1, rp_schemes = [https], rp_origins = None, rp_same = False, rp_upgrade = False\<rparr>"

abbreviation sample_run :: "sent list \<times> (http_error + http_response)" where
  "sample_run \<equiv> aiohttp_request_bounded sample_http stored_zlib sample_limits_http None sample_policy [200]
     [(U ''authorization'', [9])] [] (U ''identity'') (U ''GET'') [1] sample_server"

lemma sample_origin: "origin_from_url sample_http [n] = (if n = 46 then Inl (Redirect_error ''request URL must be absolute HTTP(S)'') else Inr (https, [n], 443))"
  by (simp add: origin_from_url_def sample_http_def)

abbreviation sample_last :: answer where
  "sample_last \<equiv> sample_answer [2] 200 [(U ''Content-Encoding'', U ''gzip'')] [7, 8]"

lemma sample_prepare:
  "prepare_request sample_http res msg [1] [(U ''authorization'', [9])] (U ''identity'') []
      = Inr [(U ''authorization'', [9]), (U ''Accept-Encoding'', U ''identity'')]"
  by (simp add: prepare_request_def sample_origin request_headers_def) (simp add: sample_http_def guardE_def list_ex_iff)

lemma sample_hop:
  "next_redirect_hop sample_http sample_policy (U ''GET'') 0 (sample_answer [1] 302 [(U ''Location'', [2])] [])
      [(U ''authorization'', [9]), (U ''Accept-Encoding'', U ''identity'')] = Inr ([2], [(U ''Accept-Encoding'', U ''identity'')])"
  by (simp add: next_redirect_hop_def sample_policy_def header_get_def sample_answer_def redirect_target_def sample_origin Let_def)
    (simp add: sample_http_def sample_origin [unfolded sample_http_def] without_sensitive_headers_def sensitive_redirect_headers_def)

lemma sample_check: "check_headers sample_http None sample_last = Inr ((None, None), Gzip)"
  by (simp add: check_headers_def sample_answer_def parse_content_type_def content_encoding_def single_header_def
      sample_http_def guardE_def strip_def lstrip_def rstrip_def uspace_def)

lemma sample_length: "content_length sample_http (an_headers sample_last) (an_length sample_last) = Inr None"
  by (simp add: sample_answer_def content_length_def single_header_def sample_http_def)

lemmas sample_decoding = new_decoder_def declares_more_def sample_answer_def guardE_def dec_feed_def Let_def remaining_budget_def
  permitted_by_ratio_def sample_limits_http_def stored_zlib_def dec_append_def dec_finish_def numeral_2_eq_2

lemma sample_read:
  "read_aiohttp_response sample_http stored_zlib sample_limits_http None sample_last
      = Inr (build_response sample_http sample_last [7, 8] None None 2)"
  "read_requests_response sample_http stored_zlib sample_limits_http None (Some 30) sample_last
      = Inr (build_response sample_http sample_last [7, 8] None None 2)"
  unfolding read_aiohttp_response_def read_requests_response_def sample_check bindE_simps prod.case sample_length
  by (simp_all add: sample_decoding before_deadline_def)

lemma sample_facts:
  "rp_hops sample_policy + 1 = Suc (Suc 0)" "ev_upper sample_http = (\<lambda>s. s)"
  "sample_server 0 = Answer (sample_answer [1] 302 [(U ''Location'', [2])] [])" "sample_server (Suc 0) = Answer sample_last"
  "an_status (sample_answer u st hs b) = st" "(302::int) \<in> set redirect_statuses" "(200::int) \<notin> set redirect_statuses"
  by (simp_all add: sample_policy_def sample_http_def sample_server_def sample_answer_def redirect_statuses_def del: U_simps)

lemma sample_run_eq:
  "sample_run = ([\<lparr>st_method = U ''GET'', st_url = [1], st_headers = [(U ''authorization'', [9]), (U ''Accept-Encoding'', U ''identity'')],
       st_options = [], st_timeout = None\<rparr>,
     \<lparr>st_method = U ''GET'', st_url = [2], st_headers = [(U ''Accept-Encoding'', U ''identity'')],
       st_options = [], st_timeout = None\<rparr>],
    Inr (build_response sample_http sample_last [7, 8] None None 2))"
  unfolding aiohttp_request_bounded_def sample_prepare sum.case sample_facts
  by (simp add: sample_facts sample_hop sample_read hop_options_def del: U_simps One_nat_def)

lemma requests_deadline_kept_witness:
  "\<exists>s t rs. requests_request_bounded sample_http (\<lambda>_. None) stored_zlib sample_limits_http None sample_policy [200]
       [(U ''authorization'', [9])] [] (U ''identity'') VNone (U ''GET'') [1] 0 (\<lambda>k. real k) (\<lambda>k. real k + 1) sample_server
     = ([s, t], Inr rs) \<and> rs_body rs = [7, 8] \<and> st_timeout s = Some (30, 30, 30)
     \<and> (\<exists>c rd. st_timeout t = Some (29, c, rd) \<and> c \<le> 29 \<and> rd \<le> 29)"
proof -
  have total: "requests_total_timeout (\<lambda>_. None) [(U ''timeout'', VFloat (Fin 30))] VNone = Inr 30"
    by (simp add: requests_total_timeout_def dget_default_def Let_def pair_of_def positive_seconds_def py_float_def del: U_simps)
  have timeouts: "requests_deadline_timeout (\<lambda>_. None) (VFloat (Fin 30)) r = Inr (r, min 30 r, min 30 r)" for r
    by (simp add: requests_deadline_timeout_def pair_of_def capped_timeout_def positive_seconds_def py_float_def)
  have "\<exists>s t rs. requests_request_bounded sample_http (\<lambda>_. None) stored_zlib sample_limits_http None sample_policy [200]
       [(U ''authorization'', [9])] [] (U ''identity'') VNone (U ''GET'') [1] 0 (\<lambda>k. real k) (\<lambda>k. real k + 1) sample_server
     = ([s, t], Inr rs) \<and> rs_body rs = [7, 8] \<and> st_timeout s = Some (30, 30, 30)"
    unfolding requests_request_bounded_def Let_def sample_prepare bindE_simps sum.case sample_facts
    by (simp add: total sample_facts sample_hop requests_hops_def remaining_before_deadline_def timeouts before_deadline_def
        guardE_def sample_read hop_options_def build_response_def dget_default_def del: U_simps One_nat_def)
  then obtain s t rs where run: "requests_request_bounded sample_http (\<lambda>_. None) stored_zlib sample_limits_http None sample_policy [200]
       [(U ''authorization'', [9])] [] (U ''identity'') VNone (U ''GET'') [1] 0 (\<lambda>k. real k) (\<lambda>k. real k + 1) sample_server
     = ([s, t], Inr rs)" "rs_body rs = [7, 8]" "st_timeout s = Some (30, 30, 30)" by blast
  obtain dl where dl: "requests_total_timeout (\<lambda>_. None) [(U ''timeout'', VFloat (Fin 30))] VNone = Inr (dl - 0)"
    "\<forall>k<length [s, t]. real k < dl \<and> (\<exists>c rd. st_timeout ([s, t] ! k) = Some (dl - real k, c, rd) \<and> c \<le> dl - real k \<and> rd \<le> dl - real k)"
    using requests_deadline_kept [OF run(1)] by auto
  from dl(2) [rule_format, of 1] dl(1) total run show ?thesis by auto
qed


lemma http_response_sound_witness:
  "\<exists>rs. snd sample_run = Inr rs \<and> rs_body rs = [7, 8] \<and> rs_decoded rs \<le> 10 \<and> rs_status rs = 200"
proof -
  obtain s t rs where run: "sample_run = ([s, t], Inr rs)" and body: "rs_body rs = [7, 8]"
    using sample_run_eq by (fastforce simp: build_response_def)
  have "client_run sample_http stored_zlib sample_limits_http None sample_policy [200] [1] sample_server [s, t] (Inr rs)"
    using run by (rule By_aiohttp)
  from http_response_sound [OF this, of "\<lambda>_ i. Some i" "\<lambda>_ z i out. out = i"] stored_zlib_streams
  show ?thesis using run body by (auto simp: sample_limits_http_def)
qed

end
