(* ===== verification/Ip_Address.thy ===== *)
theory Ip_Address
  imports Bounded_Http "HOL-Library.Word"
begin

text \<open>
  Addresses as \<^verbatim>\<open>ipaddress\<close> reads them, for \<^verbatim>\<open>core/safe_http.py\<close>: IPv4 in full, as words of 32 bits, the
  reading of IPv6 and the registry of global addresses as arguments; the spellings of IPv4 that resolvers
  disagree about; the reserved networks of transparent proxies. The theorem shows that IPv4 has one spelling.
\<close>

section \<open>IPv4\<close>

datatype ip = V4 "32 word" | V6 "128 word"

definition ascii_digit :: "uchar \<Rightarrow> bool" where
  "ascii_digit c \<longleftrightarrow> 48 \<le> c \<and> c \<le> 57"

definition octet_value :: "ustr \<Rightarrow> nat" where
  "octet_value s = foldl (\<lambda>n c. 10 * n + (c - 48)) 0 s"

definition parse_octet :: "ustr \<Rightarrow> nat option" where
  "parse_octet s =
     (if s = [] \<or> \<not> list_all ascii_digit s \<or> length s > 3 \<or> s \<noteq> [48] \<and> hd s = 48 \<or> octet_value s > 255
      then None else Some (octet_value s))"

definition ipv4_of :: "ustr \<Rightarrow> 32 word option" where
  "ipv4_of s = (case split_at 46 s of
      [p, q, r, t] \<Rightarrow> (case (parse_octet p, parse_octet q, parse_octet r, parse_octet t) of
          (Some a, Some b, Some c, Some d) \<Rightarrow> Some (word_of_nat (((a * 256 + b) * 256 + c) * 256 + d))
        | _ \<Rightarrow> None)
    | _ \<Rightarrow> None)"

text \<open>\<^verbatim>\<open>str\<close> of an address.\<close>

definition ipv4_str :: "32 word \<Rightarrow> ustr" where
  "ipv4_str w = (let n = unat w in ujoin [46] [nat_str (n div 16777216), nat_str (n div 65536 mod 256),
     nat_str (n div 256 mod 256), nat_str (n mod 256)])"

text \<open>\<^verbatim>\<open>ipaddress.ip_address\<close>.\<close>

definition ip_of :: "(ustr \<Rightarrow> 128 word option) \<Rightarrow> ustr \<Rightarrow> ip option" where
  "ip_of v6 s = (case ipv4_of s of Some w \<Rightarrow> Some (V4 w) | None \<Rightarrow> map_option V6 (v6 s))"

section \<open>What the client asks of addresses\<close>

definition is_public_ip :: "(ustr \<Rightarrow> 128 word option) \<Rightarrow> (ip \<Rightarrow> bool) \<Rightarrow> ustr \<Rightarrow> bool" where
  "is_public_ip v6 global s = (case ip_of v6 s of Some a \<Rightarrow> global a | None \<Rightarrow> False)"

text \<open>The networks 198.18.0.0/15 and fdfe:dcba:9876::/48.\<close>

definition fake_dns_address :: "ip \<Rightarrow> bool" where
  "fake_dns_address a = (case a of
      V4 w \<Rightarrow> drop_bit 17 w = 0x6309
    | V6 w \<Rightarrow> drop_bit 80 w = 0xfdfedcba9876)"

definition is_transparent_proxy_fake_ip :: "(ustr \<Rightarrow> 128 word option) \<Rightarrow> ustr \<Rightarrow> bool" where
  "is_transparent_proxy_fake_ip v6 s = (case ip_of v6 s of Some a \<Rightarrow> fake_dns_address a | None \<Rightarrow> False)"

text \<open>\<^verbatim>\<open>(?:0x[0-9a-f]+|\d+)\<close>, ignoring case.\<close>

definition number_spelling :: "ustr \<Rightarrow> bool" where
  "number_spelling s \<longleftrightarrow>
     (case s of z # x # r \<Rightarrow> z = 48 \<and> (x = 120 \<or> x = 88) \<and> r \<noteq> [] \<and> list_all json_hex r | _ \<Rightarrow> False) \<or> isdecimal s"

definition looks_like_noncanonical_ipv4 :: "ustr \<Rightarrow> bool" where
  "looks_like_noncanonical_ipv4 host =
     (if number_spelling host then True
      else if 46 \<notin> set host then False
      else (let parts = split_at 46 host
        in if length parts \<noteq> 4 then False
           else if list_all number_spelling parts then
             (case ipv4_of host of None \<Rightarrow> True | Some w \<Rightarrow> ipv4_str w \<noteq> host)
           else False))"

section \<open>One spelling per address\<close>

lemma split_at_join: "ujoin [c] (split_at c s) = s"
proof (induction s)
  case (Cons x s)
  have "split_at c s \<noteq> []" by (cases s) (auto split: list.splits)
  then obtain p ps where "split_at c s = p # ps" by (cases "split_at c s") auto
  with Cons show ?case by (cases ps) (auto)
qed simp

lemma nat_str_snoc: "0 < n \<Longrightarrow> y < 10 \<Longrightarrow> nat_str (10 * n + y) = nat_str n @ [48 + y]"
  by (subst nat_str.simps) simp

lemma nat_str_digit: "n < 10 \<Longrightarrow> nat_str n = [48 + n]"
  by (subst nat_str.simps) simp

lemma ascii_digit_cases:
  assumes "ascii_digit c"
  obtains n where "c = 48 + n" "n < 10"
proof -
  have "c = 48 + (c - 48)" "c - 48 < 10" using assms by (auto simp: ascii_digit_def)
  then show ?thesis by (rule that)
qed

lemma nat_str_octet:
  assumes "parse_octet s = Some n"
  shows "nat_str n = s" "n < 256"
proof -
  have p: "s \<noteq> []" "list_all ascii_digit s" "length s \<le> 3" "s = [48] \<or> hd s \<noteq> 48" "n = octet_value s" "n \<le> 255"
    using assms by (auto simp: parse_octet_def split: if_splits)
  then consider a where "s = [a]" | a b where "s = [a, b]" | a b c where "s = [a, b, c]"
    by (cases s; cases "tl s"; cases "tl (tl s)"; cases "tl (tl (tl s))") auto
  then show "nat_str n = s"
  proof cases
    case (1 a)
    then obtain x where "a = 48 + x" "x < 10" using p(2) ascii_digit_cases by auto
    then show ?thesis using 1 p(5) by (simp add: octet_value_def nat_str_digit)
  next
    case (2 a b)
    then obtain x y where "a = 48 + x" "x < 10" "b = 48 + y" "y < 10" using p(2) ascii_digit_cases by (metis list.pred_inject(2))
    then show ?thesis using 2 p(4,5) by (simp add: octet_value_def nat_str_digit nat_str_snoc)
  next
    case (3 a b c)
    then obtain x y z where "a = 48 + x" "x < 10" "b = 48 + y" "y < 10" "c = 48 + z" "z < 10"
      using p(2) ascii_digit_cases by (metis list.pred_inject(2))
    then have "0 < x" "n = 10 * (10 * x + y) + z" "s = [48 + x, 48 + y, 48 + z]" "x < 10" "y < 10" "z < 10"
      using 3 p(4,5) by (simp_all add: octet_value_def)
    moreover from this have "nat_str (10 * (10 * x + y) + z) = nat_str (10 * x + y) @ [48 + z]" by (intro nat_str_snoc) auto
    ultimately show ?thesis by (simp only: nat_str_digit nat_str_snoc append_Cons append_Nil)
  qed
  show "n < 256" using p(6) by simp
qed

text \<open>
  IPv4 has one spelling: an address is read from its own text and from no other, so that the comparison with
  the text after parsing refuses nothing that parsing accepts.
\<close>

lemma ipv4_roundtrip: "ipv4_of s = Some w \<Longrightarrow> ipv4_str w = s"
proof -
  assume "ipv4_of s = Some w"
  then obtain p q r t a b c d where parts: "split_at 46 s = [p, q, r, t]" "parse_octet p = Some a" "parse_octet q = Some b"
    "parse_octet r = Some c" "parse_octet t = Some d" "w = word_of_nat (((a * 256 + b) * 256 + c) * 256 + d)"
    by (auto simp: ipv4_of_def split: list.splits option.splits)
  note o = nat_str_octet [OF parts(2)] nat_str_octet [OF parts(3)] nat_str_octet [OF parts(4)] nat_str_octet [OF parts(5)]
  let ?n = "((a * 256 + b) * 256 + c) * 256 + d"
  have "?n < 2 ^ LENGTH(32)" using o by simp
  then have n: "unat w = ?n" unfolding parts(6) unsigned_of_nat by (simp only: of_nat_id take_bit_nat_eq_self)
  have "?n div 16777216 = a" "?n div 65536 mod 256 = b" "?n div 256 mod 256 = c" "?n mod 256 = d"
  proof -
    have base: "(n * 256 + k) div 256 = n \<and> (n * 256 + k) mod 256 = k" if "k < 256" for n k :: nat using that by simp
    have "m div 65536 = m div 256 div 256" "m div 16777216 = m div 256 div 256 div 256" for m :: nat
      by (simp_all add: div_mult2_eq [symmetric])
    then show "?n div 16777216 = a" "?n div 65536 mod 256 = b" "?n div 256 mod 256 = c" "?n mod 256 = d"
      using base o by (simp_all only:)
  qed
  then have "ipv4_str w = ujoin [46] [p, q, r, t]" by (simp add: ipv4_str_def Let_def n o)
  then show ?thesis using split_at_join [of 46 s] by (simp add: parts(1))
qed

lemma noncanonical_iff: "looks_like_noncanonical_ipv4 host \<longleftrightarrow>
    number_spelling host \<or> 46 \<in> set host \<and> length (split_at 46 host) = 4 \<and> list_all number_spelling (split_at 46 host) \<and> ipv4_of host = None"
  using ipv4_roundtrip by (auto simp: looks_like_noncanonical_ipv4_def Let_def split: option.splits)

text \<open>Spellings with two or three parts pass this check; the addresses they resolve to are checked later.\<close>

lemma short_spellings_pass:
  "\<not> looks_like_noncanonical_ipv4 (U ''127.1'')" "\<not> looks_like_noncanonical_ipv4 (U ''0x7f.1'')"
  by (simp_all add: looks_like_noncanonical_ipv4_def number_spelling_def isdecimal_def digit_value_def decimal_zeros_def json_hex_def Let_def)

end
