(* ===== verification/Safe_Http.thy ===== *)
theory Safe_Http
  imports Ip_Address
begin

text \<open>
  Requests to URLs a chat message controls (\<^verbatim>\<open>core/safe_http.py\<close>): the check of a URL, the resolution of a host
  and the pinning of what was resolved, redirects with a new check of every hop, and the two readers. The
  name service answers every question anew, as an attacker would like it; the theorems hold for all its
  answers and for all servers.
\<close>

section \<open>The world outside\<close>

text \<open>What the name service says of a host: an error, or addresses, where \<open>None\<close> is a result that is no text.\<close>

datatype dns = Dns_error | Dns "ustr option list"

text \<open>\<open>pe_dns\<close> has the number of the hop, because two questions about one host may get two answers.\<close>

record public_env =
  pe_http :: http_env
  pe_lower :: "ustr \<Rightarrow> ustr"
  pe_ipv6 :: "ustr \<Rightarrow> 128 word option"
  pe_global :: "ip \<Rightarrow> bool"
  pe_dns :: "nat \<Rightarrow> ustr \<Rightarrow> nat \<Rightarrow> dns"
  pe_charset :: "answer \<Rightarrow> ustr option"

datatype public_error =
    Unsafe_url string
  | Unsafe_response string
  | Public_raised pyerr

section \<open>The check of a URL\<close>

definition default_port :: "ustr \<Rightarrow> nat" where
  "default_port scheme = (if scheme = https then 443 else 80)"

definition host_of :: "url_parts \<Rightarrow> ustr" where
  "host_of p = (case up_host p of Some h \<Rightarrow> h | None \<Rightarrow> [])"

text \<open>\<^verbatim>\<open>host.rstrip(".")\<close>.\<close>

definition rstrip_dots :: "ustr \<Rightarrow> ustr" where
  "rstrip_dots s = rev (dropWhile (\<lambda>c. c = 46) (rev s))"

definition validate_public_url :: "public_env \<Rightarrow> ustr \<Rightarrow> public_error + url_parts" where
  "validate_public_url P url = (case ev_split (pe_http P) url of
      None \<Rightarrow> Inl (Unsafe_url ''invalid URL'')
    | Some parsed \<Rightarrow>
        let scheme = pe_lower P (up_scheme parsed); host = pe_lower P (rstrip_dots (host_of parsed))
        in if scheme \<notin> {http, https} \<or> host = [] then Inl (Unsafe_url ''only absolute http(s) URLs are allowed'')
           else if up_user parsed then Inl (Unsafe_url ''URL userinfo is not allowed'')
           else if up_port parsed \<notin> {None, Some (default_port scheme)} then Inl (Unsafe_url ''non-standard URL port is not allowed'')
           else if host = U ''localhost'' \<or> endswith host (U ''.localhost'') then Inl (Unsafe_url ''local hostname is not allowed'')
           else if looks_like_noncanonical_ipv4 host then Inl (Unsafe_url ''noncanonical IPv4 literal is not allowed'')
           else (case ip_of (pe_ipv6 P) host of
               None \<Rightarrow> Inr parsed
             | Some a \<Rightarrow> if \<not> pe_global P a then Inl (Unsafe_url ''non-public IP address is not allowed'') else Inr parsed))"

section \<open>Resolution and pinning\<close>

definition address_allowed :: "public_env \<Rightarrow> bool \<Rightarrow> ustr \<Rightarrow> bool" where
  "address_allowed P fake a \<longleftrightarrow> is_public_ip (pe_ipv6 P) (pe_global P) a \<or> fake \<and> is_transparent_proxy_fake_ip (pe_ipv6 P) a"

definition resolve_public_host :: "public_env \<Rightarrow> nat \<Rightarrow> ustr \<Rightarrow> nat \<Rightarrow> bool \<Rightarrow> public_error + ustr list" where
  "resolve_public_host P hop host port fake = (case pe_dns P hop host port of
      Dns_error \<Rightarrow> Inl (Unsafe_url ''hostname could not be resolved'')
    | Dns infos \<Rightarrow>
        if None \<in> set infos then Inl (Unsafe_url ''hostname has an invalid DNS result'')
        else (let addresses = dkeys (foldl (\<lambda>d a. dset (the a) () d) [] infos)
              in if addresses = [] \<or> list_ex (\<lambda>a. \<not> address_allowed P fake a) addresses
                 then Inl (Unsafe_url ''hostname has a non-public DNS result'') else Inr addresses))"

definition validate_public_fetch_target :: "public_env \<Rightarrow> nat \<Rightarrow> ustr \<Rightarrow> bool \<Rightarrow> public_error + url_parts \<times> ustr list" where
  "validate_public_fetch_target P hop url fake =
     bindE (validate_public_url P url) (\<lambda>parsed.
     let port = (case up_port parsed of Some n \<Rightarrow> if n = 0 then default_port (pe_lower P (up_scheme parsed)) else n
                 | None \<Rightarrow> default_port (pe_lower P (up_scheme parsed)))
     in bindE (resolve_public_host P hop (host_of parsed) port fake) (\<lambda>addresses. Inr (parsed, addresses)))"

text \<open>The resolver handed to aiohttp: \<open>family\<close> is \<open>None\<close> when any will do, otherwise whether it must be IPv6.\<close>

definition pinned_resolve :: "public_env \<Rightarrow> ustr \<Rightarrow> ustr list \<Rightarrow> ustr \<Rightarrow> bool option \<Rightarrow> pyerr + ustr list" where
  "pinned_resolve P hostname addresses host family =
     (if pe_lower P (rstrip_dots host) \<noteq> pe_lower P (rstrip_dots hostname) then Inl (OtherError ''resolver hostname mismatch'')
      else bindE (mapE (\<lambda>a. case ip_of (pe_ipv6 P) a of
            None \<Rightarrow> Inl (ValueError ''does not appear to be an IPv4 or IPv6 address'')
          | Some (V4 _) \<Rightarrow> Inr (a, False) | Some (V6 _) \<Rightarrow> Inr (a, True)) addresses) (\<lambda>xs.
        let records = map fst (filter (\<lambda>x. family = None \<or> family = Some (snd x)) xs)
        in if records = [] then Inl (OtherError ''no validated address matches requested family'') else Inr records))"

section \<open>Headers\<close>

definition cross_origin_header_allowlist :: "ustr list" where
  "cross_origin_header_allowlist = [U ''accept'', U ''accept-encoding'', U ''accept-language'', U ''range'', U ''user-agent'']"

definition url_origin :: "public_env \<Rightarrow> ustr \<Rightarrow> public_error + origin" where
  "url_origin P url = (case ev_split (pe_http P) url of
      None \<Rightarrow> Inl (Unsafe_url ''invalid redirect URL'')
    | Some parsed \<Rightarrow>
        let scheme = ev_casefold (pe_http P) (up_scheme parsed); host = ev_casefold (pe_http P) (rstrip_dots (host_of parsed))
        in if scheme \<notin> {http, https} \<or> host = [] then Inl (Unsafe_url ''invalid redirect URL'')
           else Inr (scheme, host, case up_port parsed of
               Some n \<Rightarrow> if n = 0 then default_port scheme else n | None \<Rightarrow> default_port scheme))"

definition headers_after_redirect ::
  "public_env \<Rightarrow> (ustr, ustr) dict \<Rightarrow> ustr \<Rightarrow> ustr \<Rightarrow> public_error + (ustr, ustr) dict" where
  "headers_after_redirect P hs current next_url =
     bindE (url_origin P current) (\<lambda>a. bindE (url_origin P next_url) (\<lambda>b.
       Inr (if a = b then hs
            else filter (\<lambda>x. ev_casefold (pe_http P) (fst x) \<in> set cross_origin_header_allowlist) hs)))"

definition public_request_headers :: "public_env \<Rightarrow> (ustr, ustr) dict \<Rightarrow> bool \<Rightarrow> (ustr, ustr) dict" where
  "public_request_headers P headers binary =
     (let asks = (\<lambda>x. ev_casefold (pe_http P) (fst x) = U ''accept-encoding'');
          requested = (case filter asks headers of [] \<Rightarrow> [] | xs \<Rightarrow> ev_casefold (pe_http P) (strip (snd (last xs))))
      in dset (U ''Accept-Encoding'') (if binary \<or> requested = U ''identity'' then U ''identity'' else U ''gzip, deflate'')
           (filter (\<lambda>x. \<not> asks x) headers))"

section \<open>Reading\<close>

record public_response =
  sr_url :: ustr
  sr_status :: int
  sr_body :: bytes
  sr_charset :: "ustr option"
  sr_headers :: http_headers

text \<open>\<^verbatim>\<open>str\<close> of an error of the bounded client, and \<^verbatim>\<open>str.replace\<close> with a text that is not empty.\<close>

fun http_message :: "http_error \<Rightarrow> string" where
  "http_message (Limit_error m) = m"
| "http_message (Format_error m) = m"
| "http_message (Transport_error m) = m"
| "http_message (Redirect_error m) = m"
| "http_message (Status_error n) = ''unexpected HTTP status '' @ map char_of (int_str n)"
| "http_message (Raised e) = []"

function replace_text :: "string \<Rightarrow> string \<Rightarrow> string \<Rightarrow> string" where
  "replace_text p q s = (case s of
      [] \<Rightarrow> []
    | c # r \<Rightarrow> if p \<noteq> [] \<and> take (length p) s = p then q @ replace_text p q (drop (length p) s) else c # replace_text p q r)"
  by pat_completeness auto
termination by (relation "measure (\<lambda>(p, q, s). length s)") auto

declare replace_text.simps [simp del]

definition unsafe_from :: "(string \<Rightarrow> string) \<Rightarrow> http_error + http_response \<Rightarrow> public_error + bytes" where
  "unsafe_from text r = (case r of
      Inr rs \<Rightarrow> Inr (rs_body rs)
    | Inl (Raised e) \<Rightarrow> Inl (Public_raised e)
    | Inl e \<Rightarrow> Inl (Unsafe_response (text (http_message e))))"

definition public_body_limits :: body_limits where
  "public_body_limits = \<lparr>bl_wire = 2097152, bl_decoded = 2097152, bl_ratio = 20, bl_grace = 65536, bl_chunk = 65536\<rparr>"

definition read_limited_body :: "public_env \<Rightarrow> 'z zlib \<Rightarrow> answer \<Rightarrow> public_error + bytes" where
  "read_limited_body P Z a =
     unsafe_from (replace_text ''decoded response body is too large'' ''decompressed response is too large'')
       (read_aiohttp_response (pe_http P) Z public_body_limits None a)"

definition html_mime_policy :: mime_policy where
  "html_mime_policy = \<lparr>mp_exact = [U ''text/html'', U ''application/xhtml+xml''], mp_prefixes = [], mp_suffixes = [], mp_missing = False\<rparr>"

definition answer_content_type :: "public_env \<Rightarrow> answer \<Rightarrow> ustr" where
  "answer_content_type P a =
     (let v = (case header_get (pe_http P) (an_headers a) (U ''Content-Type'') of Some v \<Rightarrow> v | None \<Rightarrow> [])
      in ev_casefold (pe_http P) (strip (takeWhile (\<lambda>c. c \<noteq> 59) v)))"

definition read_html_response :: "public_env \<Rightarrow> 'z zlib \<Rightarrow> answer \<Rightarrow> ustr \<Rightarrow> public_error + public_response option" where
  "read_html_response P Z a url =
     (let t = answer_content_type P a
      in if \<not> mime_accepts (pe_http P) html_mime_policy (if t = [] then None else Some t) then Inr None
         else bindE (read_limited_body P Z a) (\<lambda>body. Inr (Some
           \<lparr>sr_url = url, sr_status = an_status a, sr_body = body, sr_charset = pe_charset P a, sr_headers = an_headers a\<rparr>)))"

definition identity_limits :: "nat \<Rightarrow> body_limits" where
  "identity_limits n = \<lparr>bl_wire = n, bl_decoded = n, bl_ratio = 1, bl_grace = 1, bl_chunk = 65536\<rparr>"

definition read_identity_body_limited :: "public_env \<Rightarrow> 'z zlib \<Rightarrow> nat \<Rightarrow> answer \<Rightarrow> public_error + bytes" where
  "read_identity_body_limited P Z max_bytes a =
     (let enc = pe_lower P (strip (case header_get (pe_http P) (an_headers a) (U ''Content-Encoding'') of
            Some v \<Rightarrow> v | None \<Rightarrow> U ''identity''))
      in if enc \<notin> {[], U ''identity''} then Inl (Unsafe_response ''encoded binary responses are not allowed'')
         else unsafe_from (\<lambda>_. ''response is too large'')
           (read_aiohttp_response (pe_http P) Z (identity_limits max_bytes) None a))"

definition read_binary_response ::
  "public_env \<Rightarrow> 'z zlib \<Rightarrow> nat \<Rightarrow> ustr list option \<Rightarrow> ustr list \<Rightarrow> answer \<Rightarrow> ustr \<Rightarrow> public_error + public_response option" where
  "read_binary_response P Z max_bytes types prefixes a url =
     (let t = answer_content_type P a
      in if (case types of Some ts \<Rightarrow> t \<notin> set ts | None \<Rightarrow> False) then Inl (Unsafe_response ''response content type is not allowed'')
         else if prefixes \<noteq> [] \<and> \<not> list_ex (startswith t) prefixes then Inl (Unsafe_response ''response content type is not allowed'')
         else bindE (read_identity_body_limited P Z max_bytes a) (\<lambda>body. Inr (Some
           \<lparr>sr_url = url, sr_status = an_status a, sr_body = body, sr_charset = None, sr_headers = an_headers a\<rparr>)))"

section \<open>Requests with pinned redirects\<close>

text \<open>A connection: what was asked of it, and the addresses its resolver may return.\<close>

record conn =
  cn_url :: ustr
  cn_hostname :: ustr
  cn_addresses :: "ustr list"
  cn_headers :: "(ustr, ustr) dict"
  cn_timeout :: "real \<times> real"

record fetch_options =
  fo_hosts :: "ustr list option"
  fo_schemes :: "ustr list option"
  fo_fake :: "ustr option"
  fo_timeout :: "real \<times> real"

definition max_redirects :: nat where
  "max_redirects = 3"

definition fake_dns_target :: "public_env \<Rightarrow> ustr \<Rightarrow> public_error + ustr" where
  "fake_dns_target P url =
     bindE (validate_public_url P url) (\<lambda>t.
       if ev_casefold (pe_http P) (up_scheme t) \<noteq> https then Inl (Unsafe_url ''transparent proxy fake DNS requires HTTPS'')
       else Inr (ev_casefold (pe_http P) (rstrip_dots (host_of t))))"

text \<open>What a hop checks before it connects.\<close>

definition check_hop :: "public_env \<Rightarrow> fetch_options \<Rightarrow> nat \<Rightarrow> ustr \<Rightarrow> public_error + url_parts \<times> ustr list" where
  "check_hop P opt hop url =
     bindE (case fo_fake opt of None \<Rightarrow> Inr None | Some _ \<Rightarrow> bindE (fake_dns_target P url) (\<lambda>h. Inr (Some h))) (\<lambda>current.
     bindE (validate_public_fetch_target P hop url (current = fo_fake opt \<and> fo_fake opt \<noteq> None)) (\<lambda>(parsed, addresses).
       let scheme = ev_casefold (pe_http P) (up_scheme parsed); host = ev_casefold (pe_http P) (rstrip_dots (host_of parsed))
       in if (case fo_schemes opt of Some ss \<Rightarrow> scheme \<notin> set ss | None \<Rightarrow> False) then Inl (Unsafe_url ''URL scheme is not allowed'')
          else if (case fo_hosts opt of Some hs \<Rightarrow> host \<notin> set hs | None \<Rightarrow> False) then Inl (Unsafe_url ''URL host is not allowed'')
          else Inr (parsed, addresses)))"

fun fetch_hops ::
  "public_env \<Rightarrow> fetch_options \<Rightarrow> (answer \<Rightarrow> ustr \<Rightarrow> public_error + public_response option) \<Rightarrow> (nat \<Rightarrow> reply)
     \<Rightarrow> nat \<Rightarrow> nat \<Rightarrow> ustr \<Rightarrow> (ustr, ustr) dict \<Rightarrow> conn list \<times> (public_error + public_response option)" where
  "fetch_hops P opt rd srv 0 hop url hs = ([], Inl (Unsafe_url ''too many redirects''))"
| "fetch_hops P opt rd srv (Suc left) hop url hs =
     (case check_hop P opt hop url of
        Inl e \<Rightarrow> ([], Inl e)
      | Inr (parsed, addresses) \<Rightarrow>
          let c = \<lparr>cn_url = url, cn_hostname = host_of parsed, cn_addresses = addresses, cn_headers = hs, cn_timeout = fo_timeout opt\<rparr>
          in (case srv hop of
              No_answer e \<Rightarrow> ([c], Inl (Public_raised e))
            | Answer a \<Rightarrow>
                if an_status a \<in> set redirect_statuses then
                  (case header_get (pe_http P) (an_headers a) (U ''Location'') of
                     None \<Rightarrow> ([c], Inr None)
                   | Some location \<Rightarrow>
                       if location = [] then ([c], Inr None)
                       else (let next_url = ev_join (pe_http P) url location
                         in case headers_after_redirect P hs url next_url of
                              Inl e \<Rightarrow> ([c], Inl e)
                            | Inr hs' \<Rightarrow>
                                (case fetch_hops P opt rd srv left (Suc hop) next_url hs' of (cs, r) \<Rightarrow> (c # cs, r))))
                else if an_status a \<noteq> 200 then ([c], Inr None)
                else ([c], rd a url)))"

text \<open>\<open>seconds\<close> is the timeout that was checked; \<open>fake\<close> may be any value, as the code checks its type.\<close>

definition fetch_with_pinned_redirects ::
  "public_env \<Rightarrow> (ustr, ustr) dict \<Rightarrow> bool \<Rightarrow> real \<Rightarrow> ustr list option \<Rightarrow> ustr list option \<Rightarrow> pyval
     \<Rightarrow> (answer \<Rightarrow> ustr \<Rightarrow> public_error + public_response option) \<Rightarrow> ustr \<Rightarrow> (nat \<Rightarrow> reply)
     \<Rightarrow> conn list \<times> (public_error + public_response option)" where
  "fetch_with_pinned_redirects P headers binary seconds hosts schemes fake rd url srv =
     (let hs = public_request_headers P headers binary;
          hosts' = map_option (map (\<lambda>h. ev_casefold (pe_http P) (rstrip_dots h))) hosts;
          schemes' = map_option (map (ev_casefold (pe_http P))) schemes
      in case (case fake of
            VBool b \<Rightarrow>
              if b \<and> hosts' = None then Inl (Public_raised (ValueError ''transparent proxy fake DNS requires an explicit host allowlist''))
              else if b then bindE (fake_dns_target P url) (\<lambda>h. Inr (Some h)) else Inr None
          | _ \<Rightarrow> Inl (Public_raised (TypeError ''allow_transparent_proxy_fake_dns must be a boolean''))) of
          Inl e \<Rightarrow> ([], Inl e)
        | Inr f \<Rightarrow> fetch_hops P \<lparr>fo_hosts = hosts', fo_schemes = schemes', fo_fake = f, fo_timeout = (seconds, min 5 seconds)\<rparr>
            rd srv (max_redirects + 1) 0 url hs)"

subsection \<open>The deadline around a fetch\<close>

definition validated_total_timeout :: "(ustr \<Rightarrow> pyfloat option) \<Rightarrow> pyval \<Rightarrow> public_error + real" where
  "validated_total_timeout parse v =
     (let bad = Inl (Public_raised (ValueError ''timeout_seconds must be a positive finite number''))
      in case v of
        VBool _ \<Rightarrow> bad
      | _ \<Rightarrow> (case py_float parse v of
            Inl (TypeError _) \<Rightarrow> bad | Inl (ValueError _) \<Rightarrow> bad | Inl (OverflowError _) \<Rightarrow> bad
          | Inl e \<Rightarrow> Inl (Public_raised e)
          | Inr (Fin r) \<Rightarrow> if r \<le> 0 then bad else Inr r
          | Inr _ \<Rightarrow> bad))"

text \<open>
  \<^verbatim>\<open>asyncio.wait_for\<close>: \<open>expiry t\<close> tells whether the time \<open>t\<close> was too short, and then how many connections there
  were until then.
\<close>

definition with_total_deadline ::
  "(ustr \<Rightarrow> pyfloat option) \<Rightarrow> (real \<Rightarrow> nat option) \<Rightarrow> pyval
     \<Rightarrow> (real \<Rightarrow> conn list \<times> (public_error + public_response option)) \<Rightarrow> conn list \<times> (public_error + public_response option)" where
  "with_total_deadline parse expiry v fetch = (case validated_total_timeout parse v of
      Inl e \<Rightarrow> ([], Inl e)
    | Inr t \<Rightarrow> (case expiry t of
        None \<Rightarrow> fetch t
      | Some k \<Rightarrow> (take k (fst (fetch t)), Inl (Public_raised (TimeoutError [])))))"

definition fetch_public_html ::
  "public_env \<Rightarrow> 'z zlib \<Rightarrow> (ustr \<Rightarrow> pyfloat option) \<Rightarrow> (real \<Rightarrow> nat option) \<Rightarrow> (ustr, ustr) dict \<Rightarrow> pyval \<Rightarrow> ustr list option
     \<Rightarrow> pyval \<Rightarrow> ustr \<Rightarrow> (nat \<Rightarrow> reply) \<Rightarrow> conn list \<times> (public_error + public_response option)" where
  "fetch_public_html P Z parse expiry headers timeout_seconds hosts fake url srv =
     with_total_deadline parse expiry timeout_seconds (\<lambda>t.
       fetch_with_pinned_redirects P headers False t hosts None fake (read_html_response P Z) url srv)"

definition fetch_public_bytes ::
  "public_env \<Rightarrow> 'z zlib \<Rightarrow> (ustr \<Rightarrow> pyfloat option) \<Rightarrow> (real \<Rightarrow> nat option) \<Rightarrow> (ustr, ustr) dict \<Rightarrow> pyval \<Rightarrow> int
     \<Rightarrow> ustr list \<Rightarrow> ustr list option \<Rightarrow> ustr list option \<Rightarrow> ustr list option
     \<Rightarrow> pyval \<Rightarrow> ustr \<Rightarrow> (nat \<Rightarrow> reply) \<Rightarrow> conn list \<times> (public_error + public_response option)" where
  "fetch_public_bytes P Z parse expiry headers timeout_seconds max_bytes prefixes types hosts schemes fake url srv =
     with_total_deadline parse expiry timeout_seconds (\<lambda>t.
       if max_bytes \<le> 0 then ([], Inl (Public_raised (ValueError ''max_bytes must be positive'')))
       else fetch_with_pinned_redirects P headers True t hosts schemes fake
         (read_binary_response P Z (nat max_bytes) (map_option (map (\<lambda>v. ev_casefold (pe_http P) (strip v))) types)
            (map (ev_casefold (pe_http P)) prefixes)) url srv)"

section \<open>Where connections go\<close>

lemma validate_public_url_Inr:
  assumes "validate_public_url P url = Inr p"
  shows "ev_split (pe_http P) url = Some p \<and> pe_lower P (up_scheme p) \<in> {http, https} \<and> \<not> up_user p
    \<and> up_port p \<in> {None, Some (default_port (pe_lower P (up_scheme p)))}
    \<and> (let host = pe_lower P (rstrip_dots (host_of p))
       in host \<noteq> [] \<and> host \<noteq> U ''localhost'' \<and> \<not> endswith host (U ''.localhost'') \<and> \<not> looks_like_noncanonical_ipv4 host
          \<and> (\<forall>a. ip_of (pe_ipv6 P) host = Some a \<longrightarrow> pe_global P a))"
  using assms by (auto simp: validate_public_url_def Let_def simp del: U_simps split: option.splits if_splits)

lemma default_port_pos [simp]: "default_port s \<noteq> 0"
  by (simp add: default_port_def)

lemma keys_fromkeys: "set (dkeys (foldl (\<lambda>d a. dset (the a) () d) d infos)) = set (dkeys d) \<union> the ` set infos"
  by (induction infos arbitrary: d) (auto simp: set_dkeys_dset simp del: set_map)

lemma resolve_public_host_Inr:
  assumes "resolve_public_host P hop host port fake = Inr addresses"
  shows "addresses \<noteq> [] \<and> (\<exists>infos. pe_dns P hop host port = Dns infos \<and> Some ` set addresses = set infos)
    \<and> (\<forall>a\<in>set addresses. address_allowed P fake a)"
proof -
  obtain infos where infos: "pe_dns P hop host port = Dns infos" "None \<notin> set infos"
    "addresses = dkeys (foldl (\<lambda>d a. dset (the a) () d) [] infos)" "addresses \<noteq> []"
    "\<not> list_ex (\<lambda>a. \<not> address_allowed P fake a) addresses"
    using assms by (auto simp: resolve_public_host_def Let_def split: dns.splits if_splits)
  then have "set addresses = the ` set infos" using keys_fromkeys [of "[]" infos] by simp
  moreover have "Some (the x) = x" if "x \<in> set infos" for x using infos(2) that by (cases x) auto
  ultimately have "Some ` set addresses = set infos" by (force simp: image_image)
  with infos show ?thesis by (simp add: list_ex_iff)
qed

lemma fetch_target_Inr:
  assumes "validate_public_fetch_target P hop url fake = Inr (p, addresses)"
  shows "validate_public_url P url = Inr p
    \<and> resolve_public_host P hop (host_of p) (default_port (pe_lower P (up_scheme p))) fake = Inr addresses"
proof -
  have "validate_public_url P url = Inr p" using assms by (auto simp: validate_public_fetch_target_def bindE_eq_Inr)
  with validate_public_url_Inr [OF this] assms show ?thesis by (auto simp: validate_public_fetch_target_def bindE_eq_Inr)
qed

definition fake_permitted :: "public_env \<Rightarrow> fetch_options \<Rightarrow> url_parts \<Rightarrow> bool" where
  "fake_permitted P opt p \<longleftrightarrow> fo_fake opt = Some (ev_casefold (pe_http P) (rstrip_dots (host_of p)))
     \<and> ev_casefold (pe_http P) (up_scheme p) = https"

lemma check_hop_Inr:
  assumes "check_hop P opt hop url = Inr (p, addresses)"
  shows "validate_public_url P url = Inr p
    \<and> (\<exists>fake. resolve_public_host P hop (host_of p) (default_port (pe_lower P (up_scheme p))) fake = Inr addresses
        \<and> (fake \<longrightarrow> fake_permitted P opt p))
    \<and> (\<forall>ss. fo_schemes opt = Some ss \<longrightarrow> ev_casefold (pe_http P) (up_scheme p) \<in> set ss)
    \<and> (\<forall>hs. fo_hosts opt = Some hs \<longrightarrow> ev_casefold (pe_http P) (rstrip_dots (host_of p)) \<in> set hs)"
proof -
  obtain current where current: "(case fo_fake opt of None \<Rightarrow> Inr None | Some _ \<Rightarrow> bindE (fake_dns_target P url) (\<lambda>h. Inr (Some h))) = Inr current"
    "validate_public_fetch_target P hop url (current = fo_fake opt \<and> fo_fake opt \<noteq> None) = Inr (p, addresses)"
    and sets: "\<forall>ss. fo_schemes opt = Some ss \<longrightarrow> ev_casefold (pe_http P) (up_scheme p) \<in> set ss"
    "\<forall>hs. fo_hosts opt = Some hs \<longrightarrow> ev_casefold (pe_http P) (rstrip_dots (host_of p)) \<in> set hs"
    using assms by (auto simp: check_hop_def bindE_eq_Inr Let_def split: option.splits if_splits)
  note target = fetch_target_Inr [OF current(2)]
  have "fake_permitted P opt p" if "current = fo_fake opt \<and> fo_fake opt \<noteq> None"
    using that current(1) target
    by (auto simp: fake_permitted_def fake_dns_target_def bindE_eq_Inr split: if_splits)
  with target sets show ?thesis by blast
qed

text \<open>What every connection satisfies: \<open>k\<close> is the number of its hop.\<close>

definition conn_confined :: "public_env \<Rightarrow> fetch_options \<Rightarrow> nat \<Rightarrow> conn \<Rightarrow> bool" where
  "conn_confined P opt k c \<longleftrightarrow> (\<exists>p. validate_public_url P (cn_url c) = Inr p \<and> cn_hostname c = host_of p
     \<and> (\<forall>ss. fo_schemes opt = Some ss \<longrightarrow> ev_casefold (pe_http P) (up_scheme p) \<in> set ss)
     \<and> (\<forall>hs. fo_hosts opt = Some hs \<longrightarrow> ev_casefold (pe_http P) (rstrip_dots (host_of p)) \<in> set hs)
     \<and> (\<exists>fake infos. pe_dns P k (host_of p) (default_port (pe_lower P (up_scheme p))) = Dns infos
         \<and> Some ` set (cn_addresses c) = set infos \<and> (\<forall>a\<in>set (cn_addresses c). address_allowed P fake a)
         \<and> (fake \<longrightarrow> fake_permitted P opt p)))"

definition headers_follow :: "public_env \<Rightarrow> conn \<Rightarrow> conn \<Rightarrow> bool" where
  "headers_follow P c d \<longleftrightarrow> headers_after_redirect P (cn_headers c) (cn_url c) (cn_url d) = Inr (cn_headers d)"

lemma fetch_hops_first: "fetch_hops P opt rd srv left hop url hs = (c # cs, r) \<Longrightarrow> cn_url c = url \<and> cn_headers c = hs"
  by (cases left) (auto simp: Let_def split: sum.splits prod.splits reply.splits option.splits if_splits)

lemma fetch_hops_conns:
  assumes "fetch_hops P opt rd srv left hop url hs = (cs, r)"
  shows "length cs \<le> left \<and> chained (headers_follow P) cs \<and> (\<forall>k<length cs. conn_confined P opt (hop + k) (cs ! k))"
  using assms
proof (induction left arbitrary: hop url hs cs)
  case (Suc left)
  show ?case
  proof (cases cs)
    case (Cons c cs')
    obtain p addresses where check: "check_hop P opt hop url = Inr (p, addresses)"
      and c: "cn_url c = url" "cn_hostname c = host_of p" "cn_addresses c = addresses" "cn_headers c = hs"
      using Suc.prems by (auto simp: Cons Let_def split: sum.splits prod.splits reply.splits option.splits if_splits)
    obtain fake where "resolve_public_host P hop (host_of p) (default_port (pe_lower P (up_scheme p))) fake = Inr addresses"
      "fake \<longrightarrow> fake_permitted P opt p"
      using check_hop_Inr [OF check] by blast
    then have here: "conn_confined P opt hop c"
      using check_hop_Inr [OF check] resolve_public_host_Inr unfolding conn_confined_def c by metis
    have "cs' = [] \<or> (\<exists>url' hs'. headers_after_redirect P hs url url' = Inr hs'
        \<and> fetch_hops P opt rd srv left (Suc hop) url' hs' = (cs', r))"
      using Suc.prems by (auto simp: Cons Let_def split: sum.splits prod.splits reply.splits option.splits if_splits)
    then show ?thesis
    proof
      assume "cs' = []"
      with here show ?thesis by (simp add: Cons)
    next
      assume "\<exists>url' hs'. headers_after_redirect P hs url url' = Inr hs' \<and> fetch_hops P opt rd srv left (Suc hop) url' hs' = (cs', r)"
      then obtain url' hs' where rest: "headers_after_redirect P hs url url' = Inr hs'"
        "fetch_hops P opt rd srv left (Suc hop) url' hs' = (cs', r)" by blast
      note tail = Suc.IH [OF rest(2)]
      have "chained (headers_follow P) cs"
      proof (cases cs')
        case (Cons d ds)
        have "headers_follow P c d" using fetch_hops_first [OF rest(2) [unfolded Cons]] rest(1) c by (simp add: headers_follow_def)
        then show ?thesis using tail by (simp add: \<open>cs = c # cs'\<close> Cons)
      qed (simp add: Cons)
      moreover have "conn_confined P opt (hop + k) (cs ! k)" if "k < length cs" for k
        using that here tail by (cases k) (auto simp: Cons)
      ultimately show ?thesis using tail by (simp add: Cons)
    qed
  qed simp
qed simp

text \<open>The two clients as the loop they run, up to the point where time may have run out.\<close>

inductive public_run ::
  "public_env \<Rightarrow> 'z zlib \<Rightarrow> ustr list option \<Rightarrow> ustr list option \<Rightarrow> pyval \<Rightarrow> ustr \<Rightarrow> (nat \<Rightarrow> reply)
     \<Rightarrow> conn list \<Rightarrow> public_error + public_response option \<Rightarrow> bool" for P Z hosts schemes fake url srv where
  Html_run: "fetch_public_html P Z parse expiry headers timeout_seconds hosts fake url srv = (cs, r) \<Longrightarrow> schemes = None \<Longrightarrow>
    public_run P Z hosts schemes fake url srv cs r"
| Bytes_run: "fetch_public_bytes P Z parse expiry headers timeout_seconds max_bytes prefixes types hosts schemes fake url srv
      = (cs, r) \<Longrightarrow> public_run P Z hosts schemes fake url srv cs r"

definition options_from :: "public_env \<Rightarrow> ustr list option \<Rightarrow> ustr list option \<Rightarrow> pyval \<Rightarrow> ustr \<Rightarrow> fetch_options \<Rightarrow> bool" where
  "options_from P hosts schemes fake url opt \<longleftrightarrow>
     fo_hosts opt = map_option (map (\<lambda>h. ev_casefold (pe_http P) (rstrip_dots h))) hosts
     \<and> fo_schemes opt = map_option (map (ev_casefold (pe_http P))) schemes
     \<and> (\<forall>h. fo_fake opt = Some h \<longrightarrow> fake = VBool True \<and> hosts \<noteq> None \<and> fake_dns_target P url = Inr h)"

lemma fetch_pinned_loop:
  assumes "fetch_with_pinned_redirects P headers binary seconds hosts schemes fake rd url srv = (cs, r)"
  shows "cs = [] \<or> (\<exists>opt. options_from P hosts schemes fake url opt
     \<and> fetch_hops P opt rd srv (max_redirects + 1) 0 url (public_request_headers P headers binary) = (cs, r))"
proof -
  let ?hosts = "map_option (map (\<lambda>h. ev_casefold (pe_http P) (rstrip_dots h))) hosts"
  let ?prep = "case fake of
            VBool b \<Rightarrow>
              if b \<and> ?hosts = None then Inl (Public_raised (ValueError ''transparent proxy fake DNS requires an explicit host allowlist''))
              else if b then bindE (fake_dns_target P url) (\<lambda>h. Inr (Some h)) else Inr None
          | _ \<Rightarrow> Inl (Public_raised (TypeError ''allow_transparent_proxy_fake_dns must be a boolean''))"
  note run = assms [unfolded fetch_with_pinned_redirects_def Let_def]
  show ?thesis
  proof (cases ?prep)
    case (Inl e)
    then show ?thesis using run by simp
  next
    case (Inr f)
    let ?opt = "\<lparr>fo_hosts = ?hosts, fo_schemes = map_option (map (ev_casefold (pe_http P))) schemes, fo_fake = f,
      fo_timeout = (seconds, min 5 seconds)\<rparr>"
    have "fake = VBool True \<and> hosts \<noteq> None \<and> fake_dns_target P url = Inr h" if "f = Some h" for h
      using Inr that by (cases fake) (auto simp: bindE_eq_Inr split: if_splits)
    then have "options_from P hosts schemes fake url ?opt" by (simp add: options_from_def)
    moreover have "fetch_hops P ?opt rd srv (max_redirects + 1) 0 url (public_request_headers P headers binary) = (cs, r)"
      using run unfolding Inr by (simp only: sum.case)
    ultimately show ?thesis by blast
  qed
qed

lemma public_run_loop:
  assumes "public_run P Z hosts schemes fake url srv cs r"
  shows "cs = [] \<or> (\<exists>opt rd hs n cs0 r0. options_from P hosts schemes fake url opt
     \<and> fetch_hops P opt rd srv (max_redirects + 1) 0 url hs = (cs0, r0) \<and> cs = take n cs0)"
proof -
  have step: "cs = [] \<or> (\<exists>opt rd hs n cs0 r0. options_from P hosts schemes fake url opt
     \<and> fetch_hops P opt rd srv (max_redirects + 1) 0 url hs = (cs0, r0) \<and> cs = take n cs0)"
    if "with_total_deadline parse expiry v fetch = (cs, r)"
      and fetch: "\<And>t cs0 r0. fetch t = (cs0, r0) \<Longrightarrow> cs0 = [] \<or> (\<exists>opt rd hs. options_from P hosts schemes fake url opt
        \<and> fetch_hops P opt rd srv (max_redirects + 1) 0 url hs = (cs0, r0))" for parse expiry v fetch
  proof (cases "validated_total_timeout parse v")
    case (Inr t)
    have cs: "\<exists>n. cs = take n (fst (fetch t))"
    proof (cases "expiry t")
      case None
      then have "cs = take (length cs) (fst (fetch t))" using that(1) Inr by (simp add: with_total_deadline_def)
      then show ?thesis by blast
    qed (use that(1) Inr in \<open>auto simp: with_total_deadline_def\<close>)
    then show ?thesis using fetch [of t "fst (fetch t)" "snd (fetch t)"] by (metis prod.collapse take_Nil)
  qed (use that(1) in \<open>simp add: with_total_deadline_def\<close>)
  from assms show ?thesis
  proof cases
    case (Html_run parse expiry headers timeout_seconds)
    then show ?thesis using fetch_pinned_loop by (intro step [OF Html_run(1) [unfolded fetch_public_html_def]]) blast
  next
    case (Bytes_run parse expiry headers timeout_seconds max_bytes prefixes types)
    show ?thesis
    proof (rule step [OF Bytes_run [unfolded fetch_public_bytes_def]])
      fix t cs0 r0
      assume "(if max_bytes \<le> 0 then ([], Inl (Public_raised (ValueError ''max_bytes must be positive'')))
         else fetch_with_pinned_redirects P headers True t hosts schemes fake
           (read_binary_response P Z (nat max_bytes) (map_option (map (\<lambda>v. ev_casefold (pe_http P) (strip v))) types)
              (map (ev_casefold (pe_http P)) prefixes)) url srv) = (cs0, r0)"
      then show "cs0 = [] \<or> (\<exists>opt rd hs. options_from P hosts schemes fake url opt
          \<and> fetch_hops P opt rd srv (max_redirects + 1) 0 url hs = (cs0, r0))"
      proof (cases "max_bytes \<le> 0")
        case False
        assume "(if max_bytes \<le> 0 then ([], Inl (Public_raised (ValueError ''max_bytes must be positive'')))
         else fetch_with_pinned_redirects P headers True t hosts schemes fake
           (read_binary_response P Z (nat max_bytes) (map_option (map (\<lambda>v. ev_casefold (pe_http P) (strip v))) types)
              (map (ev_casefold (pe_http P)) prefixes)) url srv) = (cs0, r0)"
        then show ?thesis using fetch_pinned_loop unfolding if_not_P [OF False] by blast
      qed simp
    qed
  qed
qed

lemma pinned_resolve_Inr:
  assumes "pinned_resolve P hostname addresses host family = Inr rs"
  shows "pe_lower P (rstrip_dots host) = pe_lower P (rstrip_dots hostname) \<and> rs \<noteq> [] \<and> set rs \<subseteq> set addresses"
proof -
  let ?f = "\<lambda>a. case ip_of (pe_ipv6 P) a of None \<Rightarrow> Inl (ValueError ''does not appear to be an IPv4 or IPv6 address'')
          | Some (V4 _) \<Rightarrow> Inr (a, False) | Some (V6 _) \<Rightarrow> Inr (a, True)"
  obtain xs where xs: "mapE ?f addresses = Inr xs" "rs = map fst (filter (\<lambda>x. family = None \<or> family = Some (snd x)) xs)" "rs \<noteq> []"
    and host: "pe_lower P (rstrip_dots host) = pe_lower P (rstrip_dots hostname)"
    using assms by (auto simp: pinned_resolve_def bindE_eq_Inr Let_def split: if_splits)
  have "fst x \<in> set addresses" if mem: "x \<in> set xs" for x
  proof -
    obtain a where a: "a \<in> set addresses" "?f a = Inr x" using mapE_Inr_set [OF xs(1) mem] by blast
    then obtain i where i: "ip_of (pe_ipv6 P) a = Some i" by (cases "ip_of (pe_ipv6 P) a") auto
    with a show ?thesis by (cases i) auto
  qed
  then show ?thesis using xs(2,3) host by auto
qed

text \<open>
  A connection that is safe: where its URL may point, and that whatever its resolver returns was said by
  the name service for this hop and is a public address, or, where the caller asked for it, one of a
  transparent proxy for the host the caller named.
\<close>

definition public_conn ::
  "public_env \<Rightarrow> ustr list option \<Rightarrow> ustr list option \<Rightarrow> pyval \<Rightarrow> ustr \<Rightarrow> nat \<Rightarrow> conn \<Rightarrow> bool" where
  "public_conn P hosts schemes fake url k c \<longleftrightarrow> (\<exists>p.
     let host = pe_lower P (rstrip_dots (host_of p)); fold = ev_casefold (pe_http P); port = default_port (pe_lower P (up_scheme p))
     in ev_split (pe_http P) (cn_url c) = Some p \<and> pe_lower P (up_scheme p) \<in> {http, https} \<and> \<not> up_user p
     \<and> up_port p \<in> {None, Some port}
     \<and> host \<noteq> U ''localhost'' \<and> \<not> endswith host (U ''.localhost'') \<and> \<not> looks_like_noncanonical_ipv4 host
     \<and> (\<forall>a. ip_of (pe_ipv6 P) host = Some a \<longrightarrow> pe_global P a)
     \<and> (\<forall>ss. schemes = Some ss \<longrightarrow> fold (up_scheme p) \<in> fold ` set ss)
     \<and> (\<forall>hs. hosts = Some hs \<longrightarrow> fold (rstrip_dots (host_of p)) \<in> (\<lambda>h. fold (rstrip_dots h)) ` set hs)
     \<and> (\<forall>asked family rs. pinned_resolve P (cn_hostname c) (cn_addresses c) asked family = Inr rs \<longrightarrow>
         pe_lower P (rstrip_dots asked) = host \<and> (\<forall>a\<in>set rs.
           (\<exists>infos. pe_dns P k (host_of p) port = Dns infos \<and> Some a \<in> set infos)
           \<and> (is_public_ip (pe_ipv6 P) (pe_global P) a
              \<or> is_transparent_proxy_fake_ip (pe_ipv6 P) a \<and> fake = VBool True \<and> hosts \<noteq> None \<and> fold (up_scheme p) = https
                \<and> (\<exists>p0. ev_split (pe_http P) url = Some p0 \<and> fold (up_scheme p0) = https
                     \<and> fold (rstrip_dots (host_of p0)) = fold (rstrip_dots (host_of p)))))))"

lemma public_conn_from:
  assumes "conn_confined P opt k c" "options_from P hosts schemes fake url opt"
  shows "public_conn P hosts schemes fake url k c"
proof -
  let ?fold = "ev_casefold (pe_http P)"
  obtain p fk infos where p: "validate_public_url P (cn_url c) = Inr p" "cn_hostname c = host_of p"
    "\<forall>ss. fo_schemes opt = Some ss \<longrightarrow> ?fold (up_scheme p) \<in> set ss"
    "\<forall>hs. fo_hosts opt = Some hs \<longrightarrow> ?fold (rstrip_dots (host_of p)) \<in> set hs"
    and dns: "pe_dns P k (host_of p) (default_port (pe_lower P (up_scheme p))) = Dns infos"
      "Some ` set (cn_addresses c) = set infos" "\<forall>a\<in>set (cn_addresses c). address_allowed P fk a" "fk \<longrightarrow> fake_permitted P opt p"
    using assms(1) unfolding conn_confined_def by blast
  have opt: "\<forall>ss. schemes = Some ss \<longrightarrow> ?fold (up_scheme p) \<in> ?fold ` set ss"
    "\<forall>hs. hosts = Some hs \<longrightarrow> ?fold (rstrip_dots (host_of p)) \<in> (\<lambda>h. ?fold (rstrip_dots h)) ` set hs"
    using assms(2) p(3,4) by (auto simp: options_from_def)
  have permitted: "fake = VBool True \<and> hosts \<noteq> None \<and> ?fold (up_scheme p) = https \<and> (\<exists>p0. ev_split (pe_http P) url = Some p0
      \<and> ?fold (up_scheme p0) = https \<and> ?fold (rstrip_dots (host_of p0)) = ?fold (rstrip_dots (host_of p)))" if "fake_permitted P opt p"
  proof -
    have "fake = VBool True \<and> hosts \<noteq> None \<and> fake_dns_target P url = Inr (?fold (rstrip_dots (host_of p)))" "?fold (up_scheme p) = https"
      using that assms(2) by (auto simp: fake_permitted_def options_from_def)
    moreover from this obtain p0 where "validate_public_url P url = Inr p0" "?fold (up_scheme p0) = https"
      "?fold (rstrip_dots (host_of p0)) = ?fold (rstrip_dots (host_of p))"
      by (auto simp: fake_dns_target_def bindE_eq_Inr split: if_splits)
    ultimately show ?thesis using validate_public_url_Inr by blast
  qed
  have resolver: "pe_lower P (rstrip_dots asked) = pe_lower P (rstrip_dots (host_of p)) \<and> (\<forall>a\<in>set rs.
      Some a \<in> set infos \<and> (is_public_ip (pe_ipv6 P) (pe_global P) a
        \<or> is_transparent_proxy_fake_ip (pe_ipv6 P) a \<and> fake_permitted P opt p))"
    if "pinned_resolve P (cn_hostname c) (cn_addresses c) asked family = Inr rs" for asked family rs
    using pinned_resolve_Inr [OF that] dns(2-4) p(2) by (auto simp: address_allowed_def)
  show ?thesis
    unfolding public_conn_def Let_def
    using validate_public_url_Inr [OF p(1)] opt resolver permitted dns(1) by (intro exI [of _ p]) (simp add: Let_def del: U_simps, blast)
qed

lemma headers_follow_step:
  assumes "headers_follow P d e"
    and "url_origin P (cn_url c) \<noteq> url_origin P (cn_url d) \<longrightarrow>
      (\<forall>x\<in>set (cn_headers d). ev_casefold (pe_http P) (fst x) \<in> set cross_origin_header_allowlist)"
  shows "url_origin P (cn_url c) \<noteq> url_origin P (cn_url e) \<longrightarrow>
      (\<forall>x\<in>set (cn_headers e). ev_casefold (pe_http P) (fst x) \<in> set cross_origin_header_allowlist)"
proof -
  obtain a b where o: "url_origin P (cn_url d) = Inr a" "url_origin P (cn_url e) = Inr b" and e: "cn_headers e = (if a = b then cn_headers d
      else filter (\<lambda>x. ev_casefold (pe_http P) (fst x) \<in> set cross_origin_header_allowlist) (cn_headers d))"
    using assms(1) by (auto simp: headers_follow_def headers_after_redirect_def bindE_eq_Inr)
  show ?thesis
  proof (cases "a = b")
    case True
    then show ?thesis using assms(2) o e by simp
  next
    case False
    then show ?thesis using e by simp
  qed
qed

text \<open>
  C3. Requests to URLs a user controls, for every name service and every server: at most four connections;
  each goes over HTTP(S) to the default port of a host that is allowed, is not local and no odd spelling of
  an address; the only addresses its resolver returns are those the name service gave for this very hop,
  and they are public, or belong to a transparent proxy the caller allowed for the host it named; and
  after a change of origin no header is sent that is not on the list of harmless ones.
\<close>

theorem public_fetch_confined:
  assumes "public_run P Z hosts schemes fake url srv cs r"
  shows "length cs \<le> 4 \<and> (\<forall>k<length cs. public_conn P hosts schemes fake url k (cs ! k))
    \<and> (\<forall>j k. j \<le> k \<longrightarrow> k < length cs \<longrightarrow> url_origin P (cn_url (cs ! j)) \<noteq> url_origin P (cn_url (cs ! k)) \<longrightarrow>
        (\<forall>x\<in>set (cn_headers (cs ! k)). ev_casefold (pe_http P) (fst x) \<in> set cross_origin_header_allowlist))"
proof (cases "cs = []")
  case False
  then obtain opt rd hs n cs0 r0 where loop: "options_from P hosts schemes fake url opt"
    "fetch_hops P opt rd srv (max_redirects + 1) 0 url hs = (cs0, r0)" "cs = take n cs0"
    using public_run_loop [OF assms] by blast
  note conns = fetch_hops_conns [OF loop(2)]
  let ?P = "\<lambda>c d. url_origin P (cn_url c) \<noteq> url_origin P (cn_url d) \<longrightarrow>
        (\<forall>x\<in>set (cn_headers d). ev_casefold (pe_http P) (fst x) \<in> set cross_origin_header_allowlist)"
  have keep: "?P (cs0 ! j) (cs0 ! k)" if "j \<le> k" "k < length cs0" for j k
    using chained_nth_le [OF conjunct1 [OF conjunct2 [OF conns]] that, where P = ?P] headers_follow_step by blast
  have "length cs \<le> 4" using conns loop(3) by (auto simp: max_redirects_def)
  moreover have "public_conn P hosts schemes fake url k (cs ! k)" if "k < length cs" for k
    using conns that loop(3) public_conn_from [OF _ loop(1)] by auto
  moreover have "?P (cs ! j) (cs ! k)" if "j \<le> k" "k < length cs" for j k
    using keep [of j k] that by (simp add: loop(3))
  ultimately show ?thesis by blast
qed simp

section \<open>What is returned\<close>

lemma read_body_bounded: "read_aiohttp_response E Z L mp a = Inr rs \<Longrightarrow> length (rs_body rs) \<le> bl_decoded L"
  by (drule read_aiohttp_from) (auto simp: read_from_def build_response_def dest!: new_decoder_ok feed_all_ok finish_ok)

lemma unsafe_from_Inr: "unsafe_from text r = Inr body \<longleftrightarrow> (\<exists>rs. r = Inr rs \<and> body = rs_body rs)"
  by (auto simp: unsafe_from_def split: sum.splits http_error.splits)

lemma fetch_hops_result:
  assumes "fetch_hops P opt rd srv left hop url hs = (cs, Inr (Some sr))"
  shows "cs \<noteq> [] \<and> (\<exists>a. srv (hop + length cs - 1) = Answer a \<and> an_status a = 200 \<and> rd a (cn_url (last cs)) = Inr (Some sr))"
  using assms
proof (induction left arbitrary: hop url hs cs)
  case (Suc left)
  obtain c cs' where cs: "cs = c # cs'" and c: "cn_url c = url"
    using Suc.prems by (auto simp: Let_def split: sum.splits prod.splits reply.splits option.splits if_splits)
  show ?case
  proof (cases "\<exists>u h. fetch_hops P opt rd srv left (Suc hop) u h = (cs', Inr (Some sr))")
    case True
    then obtain u h where "fetch_hops P opt rd srv left (Suc hop) u h = (cs', Inr (Some sr))" by blast
    from Suc.IH [OF this] show ?thesis by (auto simp: cs)
  next
    case False
    then show ?thesis
      using Suc.prems c by (auto simp: cs Let_def split: sum.splits prod.splits reply.splits option.splits if_splits)
  qed
qed simp

lemma fetch_pinned_result:
  assumes "fetch_with_pinned_redirects P headers binary seconds hosts schemes fake rd url srv = (cs, Inr (Some sr))"
  shows "cs \<noteq> [] \<and> (\<exists>a. srv (length cs - 1) = Answer a \<and> an_status a = 200 \<and> rd a (cn_url (last cs)) = Inr (Some sr))"
proof (cases "cs = []")
  case True
  then have False
    using assms fetch_hops_result unfolding fetch_with_pinned_redirects_def Let_def
    by (auto simp del: fetch_hops.simps split: sum.splits) metis
  then show ?thesis ..
next
  case False
  then obtain opt where "fetch_hops P opt rd srv (max_redirects + 1) 0 url (public_request_headers P headers binary) = (cs, Inr (Some sr))"
    using fetch_pinned_loop [OF assms] by blast
  from fetch_hops_result [OF this] show ?thesis by simp
qed

text \<open>
  C22. What \<^verbatim>\<open>fetch_public_bytes\<close> returns comes from the last connection it made, has status 200 and no more
  bytes than the caller allowed, and its content type is one of those the caller named and has one of the
  prefixes; when the time ran out nothing is returned.
\<close>

theorem public_bytes_bounded:
  assumes "fetch_public_bytes P Z parse expiry headers timeout_seconds max_bytes prefixes types hosts schemes fake url srv
     = (cs, Inr (Some sr))"
  shows "\<exists>a t. cs \<noteq> [] \<and> srv (length cs - 1) = Answer a \<and> sr_status sr = 200 \<and> an_status a = 200
    \<and> sr_url sr = cn_url (last cs) \<and> sr_headers sr = an_headers a \<and> int (length (sr_body sr)) \<le> max_bytes
    \<and> (\<forall>ts. types = Some ts \<longrightarrow> answer_content_type P a \<in> (\<lambda>v. ev_casefold (pe_http P) (strip v)) ` set ts)
    \<and> (prefixes = [] \<or> (\<exists>q\<in>set prefixes. startswith (answer_content_type P a) (ev_casefold (pe_http P) q)))
    \<and> validated_total_timeout parse timeout_seconds = Inr t \<and> expiry t = None"
proof -
  obtain t where t: "validated_total_timeout parse timeout_seconds = Inr t" "expiry t = None" "0 < max_bytes"
    and run: "fetch_with_pinned_redirects P headers True t hosts schemes fake
         (read_binary_response P Z (nat max_bytes) (map_option (map (\<lambda>v. ev_casefold (pe_http P) (strip v))) types)
            (map (ev_casefold (pe_http P)) prefixes)) url srv = (cs, Inr (Some sr))"
    using assms by (auto simp: fetch_public_bytes_def with_total_deadline_def split: sum.splits option.splits if_splits)
  obtain a where a: "cs \<noteq> []" "srv (length cs - 1) = Answer a" "an_status a = 200"
    "read_binary_response P Z (nat max_bytes) (map_option (map (\<lambda>v. ev_casefold (pe_http P) (strip v))) types)
            (map (ev_casefold (pe_http P)) prefixes) a (cn_url (last cs)) = Inr (Some sr)"
    using fetch_pinned_result [OF run] by blast
  then obtain body where body: "read_identity_body_limited P Z (nat max_bytes) a = Inr body" "sr_body sr = body"
    "sr_url sr = cn_url (last cs)" "sr_headers sr = an_headers a" "sr_status sr = an_status a"
    and types: "\<forall>ts. types = Some ts \<longrightarrow> answer_content_type P a \<in> (\<lambda>v. ev_casefold (pe_http P) (strip v)) ` set ts"
    "prefixes = [] \<or> (\<exists>q\<in>set prefixes. startswith (answer_content_type P a) (ev_casefold (pe_http P) q))"
    by (cases types) (auto simp: read_binary_response_def Let_def bindE_eq_Inr list_ex_iff split: if_splits)
  have "length body \<le> nat max_bytes"
    using body(1) read_body_bounded [of _ _ "identity_limits (nat max_bytes)"]
    by (fastforce simp: read_identity_body_limited_def Let_def unsafe_from_Inr identity_limits_def split: if_splits)
  then show ?thesis using t a body types by (intro exI [of _ a] exI [of _ t]) auto
qed

section \<open>A sample\<close>

text \<open>Two hosts that resolve to one public address, and a redirect from the first to the second, which sends an image.\<close>

definition sample_public :: public_env where
  "sample_public = \<lparr>pe_http = sample_http, pe_lower = (\<lambda>s. s), pe_ipv6 = (\<lambda>_. None), pe_global = (\<lambda>a. a \<noteq> V4 0x7f000001),
     pe_dns = (\<lambda>_ _ _. Dns [Some (U ''8.8.8.8'')]), pe_charset = (\<lambda>_. None)\<rparr>"

definition sample_images :: "nat \<Rightarrow> reply" where
  "sample_images hop = Answer (if hop = 0 then sample_answer [1] 302 [(U ''Location'', [2])] []
     else sample_answer [2] 200 [(U ''Content-Type'', U ''image/png'')] [7, 8])"

abbreviation sample_fetch :: "conn list \<times> (public_error + public_response option)" where
  "sample_fetch \<equiv> fetch_public_bytes sample_public stored_zlib (\<lambda>_. None) (\<lambda>_. None) [(U ''authorization'', [9])] (VInt 10) 5
     [U ''image/''] None None None (VBool False) [1] sample_images"

abbreviation sample_image :: answer where
  "sample_image \<equiv> sample_answer [2] 200 [(U ''Content-Type'', U ''image/png'')] [7, 8]"

lemma sample_address: "ip_of v6 (U ''8.8.8.8'') = Some (V4 0x08080808)"
  by (simp add: ip_of_def ipv4_of_def parse_octet_def octet_value_def ascii_digit_def)

lemma sample_host:
  "looks_like_noncanonical_ipv4 [n] = (isdecimal [n])" "ipv4_of [n] = None" "n \<noteq> 46 \<Longrightarrow> rstrip_dots [n] = [n]"
  "isdecimal [1] = False" "isdecimal [2] = False"
  by (auto simp: looks_like_noncanonical_ipv4_def number_spelling_def ipv4_of_def rstrip_dots_def isdecimal_def digit_value_def decimal_zeros_def)

lemma sample_check_hop:
  assumes "n = 1 \<or> n = 2"
  shows "check_hop sample_public \<lparr>fo_hosts = None, fo_schemes = None, fo_fake = None, fo_timeout = t\<rparr> hop [n]
    = Inr (\<lparr>up_scheme = https, up_host = Some [n], up_port = None, up_user = False\<rparr>, [U ''8.8.8.8''])"
proof -
  let ?p = "\<lparr>up_scheme = https, up_host = Some [n], up_port = None, up_user = False\<rparr>"
  have "validate_public_url sample_public [n] = Inr ?p"
    using assms by (auto simp: validate_public_url_def sample_public_def sample_http_def host_of_def sample_host Let_def ip_of_def endswith_def startswith_def simp del: One_nat_def)
  moreover have "resolve_public_host sample_public hop [n] 443 False = Inr [U ''8.8.8.8'']"
    by (simp add: resolve_public_host_def sample_public_def address_allowed_def is_public_ip_def sample_address del: U_simps)
  ultimately show ?thesis
    by (simp add: check_hop_def validate_public_fetch_target_def host_of_def default_port_def sample_public_def [THEN arg_cong [where f = pe_lower]] Let_def del: U_simps)
qed

lemma sample_image_read:
  "read_binary_response sample_public stored_zlib 5 None [U ''image/''] sample_image [2]
     = Inr (Some \<lparr>sr_url = [2], sr_status = 200, sr_body = [7, 8], sr_charset = None,
         sr_headers = [(U ''Content-Type'', U ''image/png'')]\<rparr>)"
proof -
  have type: "answer_content_type sample_public sample_image = U ''image/png''"
    by (simp add: answer_content_type_def header_get_def sample_answer_def sample_public_def sample_http_def
        strip_def lstrip_def rstrip_def uspace_def)
  have encoding: "header_get (pe_http sample_public) (an_headers sample_image) (U ''Content-Encoding'') = None"
    by (simp add: header_get_def sample_answer_def sample_public_def sample_http_def)
  have headers: "check_headers sample_http None sample_image = Inr ((Some (U ''image/png''), None), Identity)"
    by (simp add: check_headers_def sample_answer_def parse_content_type_def content_encoding_def single_header_def validate_media_type_def
        split_once_def is_token_def token_char_def sample_http_def guardE_def strip_def lstrip_def rstrip_def uspace_def Let_def)
  have len: "content_length sample_http (an_headers sample_image) (an_length sample_image) = Inr None"
    by (simp add: sample_answer_def content_length_def single_header_def sample_http_def)
  have "read_aiohttp_response sample_http stored_zlib (identity_limits 5) None sample_image
      = Inr (build_response sample_http sample_image [7, 8] (Some (U ''image/png'')) None 2)"
    unfolding read_aiohttp_response_def headers bindE_simps prod.case len
    by (simp add: sample_decoding identity_limits_def)
  then have "read_identity_body_limited sample_public stored_zlib 5 sample_image = Inr [7, 8]"
    unfolding read_identity_body_limited_def encoding Let_def
    by (simp add: sample_public_def unsafe_from_def build_response_def strip_def lstrip_def rstrip_def uspace_def)
  then show ?thesis
    unfolding read_binary_response_def type Let_def by (simp add: startswith_def sample_answer_def)
qed

lemma sample_fetch_eq:
  "sample_fetch = ([\<lparr>cn_url = [1], cn_hostname = [1], cn_addresses = [U ''8.8.8.8''],
       cn_headers = [(U ''authorization'', [9]), (U ''Accept-Encoding'', U ''identity'')], cn_timeout = (10, 5)\<rparr>,
     \<lparr>cn_url = [2], cn_hostname = [2], cn_addresses = [U ''8.8.8.8''], cn_headers = [], cn_timeout = (10, 5)\<rparr>],
    Inr (Some \<lparr>sr_url = [2], sr_status = 200, sr_body = [7, 8], sr_charset = None,
         sr_headers = [(U ''Content-Type'', U ''image/png'')]\<rparr>))"
proof -
  have timeout: "validated_total_timeout (\<lambda>_. None) (VInt 10) = Inr 10"
    by (simp add: validated_total_timeout_def py_float_def float_of_int_def)
  have headers: "public_request_headers sample_public [(U ''authorization'', [9])] True
      = [(U ''authorization'', [9]), (U ''Accept-Encoding'', U ''identity'')]"
    by (simp add: public_request_headers_def sample_public_def sample_http_def Let_def)
  have srv: "sample_images 0 = Answer (sample_answer [1] 302 [(U ''Location'', [2])] [])" "sample_images (Suc 0) = Answer sample_image"
    by (simp_all add: sample_images_def del: U_simps)
  have location: "header_get (pe_http sample_public) (an_headers (sample_answer [1] 302 [(U ''Location'', [2])] [])) (U ''Location'') = Some [2]"
    by (simp add: header_get_def sample_answer_def sample_public_def sample_http_def)
  have join: "ev_join (pe_http sample_public) u l = l" for u l by (simp add: sample_public_def sample_http_def)
  have follow: "headers_after_redirect sample_public [(U ''authorization'', [9]), (U ''Accept-Encoding'', U ''identity'')] [1] [2] = Inr []"
    by (simp add: headers_after_redirect_def url_origin_def sample_public_def sample_http_def host_of_def rstrip_dots_def default_port_def
        cross_origin_header_allowlist_def)
  have hops: "max_redirects + 1 = Suc (Suc (Suc (Suc 0)))" by (simp add: max_redirects_def)
  have types: "map (ev_casefold (pe_http sample_public)) [U ''image/''] = [U ''image/'']" by (simp add: sample_public_def sample_http_def)
  show ?thesis
    unfolding fetch_public_bytes_def with_total_deadline_def timeout sum.case option.case types option.map
      fetch_with_pinned_redirects_def headers hops Let_def
    by (simp add: sample_check_hop sample_facts srv location join follow sample_image_read host_of_def Let_def del: U_simps One_nat_def)
qed

lemma public_fetch_confined_witness:
  "\<exists>c d r. sample_fetch = ([c, d], r) \<and> public_conn sample_public None None (VBool False) [1] 1 d
     \<and> (\<exists>x\<in>set (cn_headers c). fst x = U ''authorization'') \<and> \<not> (\<exists>x\<in>set (cn_headers d). fst x = U ''authorization'')"
proof -
  obtain c d r where run: "sample_fetch = ([c, d], r)" "cn_url c = [1]" "cn_url d = [2]" "(U ''authorization'', [9]) \<in> set (cn_headers c)"
    using sample_fetch_eq by auto
  have "public_run sample_public stored_zlib None None (VBool False) [1] sample_images [c, d] r"
    using run(1) by (rule Bytes_run)
  note safe = public_fetch_confined [OF this]
  have "public_conn sample_public None None (VBool False) [1] 1 d"
    using conjunct1 [OF conjunct2 [OF safe]] by auto
  moreover have "url_origin sample_public (cn_url c) \<noteq> url_origin sample_public (cn_url d)"
    by (simp add: run url_origin_def sample_public_def sample_http_def host_of_def rstrip_dots_def)
  then have "\<forall>x\<in>set (cn_headers d). fst x \<in> set cross_origin_header_allowlist"
    using conjunct2 [OF conjunct2 [OF safe], rule_format, of 0 1] by (auto simp: sample_public_def sample_http_def)
  then have "\<not> (\<exists>x\<in>set (cn_headers d). fst x = U ''authorization'')" by (auto simp: cross_origin_header_allowlist_def)
  moreover have "\<exists>x\<in>set (cn_headers c). fst x = U ''authorization''" using run(4) by force
  ultimately show ?thesis using run(1) by blast
qed

lemma public_bytes_bounded_witness:
  "\<exists>cs sr. sample_fetch = (cs, Inr (Some sr)) \<and> sr_body sr = [7, 8] \<and> int (length (sr_body sr)) \<le> 5 \<and> sr_url sr = cn_url (last cs)"
proof -
  obtain cs sr where run: "sample_fetch = (cs, Inr (Some sr))" "sr_body sr = [7, 8]" using sample_fetch_eq by auto
  from public_bytes_bounded [OF run(1)] run show ?thesis by blast
qed

end
