(* ===== verification/Image_Validation.thy ===== *)
theory Image_Validation
  imports Py_Values "HOL-Library.Word"
begin

unbundle bit_operations_syntax

text \<open>
  Images from outside (\<^verbatim>\<open>core/image_validation.py\<close>): the containers of the known formats, with PNG chunk by chunk
  and its checksum on words of 32 bits; the limits on every frame; and the reading of a file that someone may
  swap at any moment. Pillow is an argument, given by what it reports of an image, and so are the answers of
  the file system.
\<close>

section \<open>Limits and errors\<close>

text \<open>\<open>Invalid\<close> is \<^verbatim>\<open>ImageValidationError\<close> with its reason; the other errors are those of Pillow.\<close>

datatype pil_error = Bomb | Undecodable | Escapes pyerr

datatype image_error = Invalid string string | Pil pil_error

record image_limits =
  il_bytes :: nat
  il_pixels :: int
  il_frames :: nat
  il_dimension :: "int option"
  il_decoded :: "int option"

definition positive_integer :: "pyval \<Rightarrow> int option" where
  "positive_integer v = (case v of VInt n \<Rightarrow> if n > 0 then Some n else None | _ \<Rightarrow> None)"

definition required_limit :: "string \<Rightarrow> pyval \<Rightarrow> pyerr + int" where
  "required_limit name v = (case positive_integer v of
      Some n \<Rightarrow> Inr n | None \<Rightarrow> Inl (ValueError (name @ '' must be a positive integer'')))"

definition optional_limit :: "string \<Rightarrow> pyval \<Rightarrow> pyerr + int option" where
  "optional_limit name v =
     (if v = VNone then Inr None
      else (case positive_integer v of
          Some n \<Rightarrow> Inr (Some n) | None \<Rightarrow> Inl (ValueError (name @ '' must be a positive integer when provided''))))"

definition make_image_limits :: "pyval \<Rightarrow> pyval \<Rightarrow> pyval \<Rightarrow> pyval \<Rightarrow> pyval \<Rightarrow> pyerr + image_limits" where
  "make_image_limits max_bytes max_pixels max_frames max_dimension max_decoded =
     bindE (required_limit ''max_bytes'' max_bytes) (\<lambda>b.
     bindE (required_limit ''max_pixels'' max_pixels) (\<lambda>p.
     bindE (required_limit ''max_frames'' max_frames) (\<lambda>f.
     bindE (optional_limit ''max_dimension'' max_dimension) (\<lambda>d.
     bindE (optional_limit ''max_decoded_bytes'' max_decoded) (\<lambda>m.
       Inr \<lparr>il_bytes = nat b, il_pixels = p, il_frames = nat f, il_dimension = d, il_decoded = m\<rparr>)))))"

definition bad_container :: "string \<Rightarrow> image_error + 'a" where
  "bad_container msg = Inl (Invalid ''invalid_container'' msg)"

section \<open>The container of PNG\<close>

text \<open>\<^verbatim>\<open>struct.unpack(">I", b)\<close> and \<^verbatim>\<open>zlib.crc32\<close>.\<close>

definition be32 :: "bytes \<Rightarrow> nat" where
  "be32 b = foldl (\<lambda>n x. n * 256 + x) 0 b"

definition crc_bit :: "32 word \<Rightarrow> 32 word" where
  "crc_bit c = (if bit c 0 then drop_bit 1 c XOR 0xEDB88320 else drop_bit 1 c)"

definition crc_update :: "32 word \<Rightarrow> nat \<Rightarrow> 32 word" where
  "crc_update c x = (crc_bit ^^ 8) (c XOR word_of_nat x)"

definition crc32 :: "bytes \<Rightarrow> 32 word \<Rightarrow> 32 word" where
  "crc32 b start = NOT (foldl crc_update (NOT start) b)"

definition png_signature :: bytes where
  "png_signature = [137, 80, 78, 71, 13, 10, 26, 10]"

definition png_trailer :: bytes where
  "png_trailer = [0, 0, 0, 0, 73, 69, 78, 68, 174, 66, 96, 130]"

definition max_png_chunks :: nat where
  "max_png_chunks = 4096"

definition ihdr :: bytes where "ihdr = U ''IHDR''"
definition idat :: bytes where "idat = U ''IDAT''"
definition iend :: bytes where "iend = U ''IEND''"

definition png_letter :: "nat \<Rightarrow> bool" where
  "png_letter x \<longleftrightarrow> 65 \<le> x \<and> x \<le> 90 \<or> 97 \<le> x \<and> x \<le> 122"

text \<open>The loop, on the bytes that are left; \<open>hdr\<close> and \<open>img\<close> tell whether a header and image data were seen.\<close>

function png_chunks :: "bytes \<Rightarrow> nat \<Rightarrow> bool \<Rightarrow> bool \<Rightarrow> image_error + unit" where
  "png_chunks rest seen hdr img =
     (if rest = [] then bad_container ''PNG terminator is missing''
      else if seen \<ge> max_png_chunks \<or> length rest < 12 then bad_container ''PNG chunk boundary is invalid''
      else (let len = be32 (take 4 rest)
        in if 12 + len > length rest then bad_container ''PNG chunk is truncated''
           else (let kind = take 4 (drop 4 rest); payload = take len (drop 8 rest); rest' = drop (12 + len) rest
             in if length kind \<noteq> 4 \<or> \<not> list_all png_letter kind then bad_container ''PNG chunk type is invalid''
                else if be32 (take 4 (drop (8 + len) rest)) \<noteq> unat (crc32 payload (crc32 kind 0))
                then bad_container ''PNG chunk CRC is invalid''
                else if kind = ihdr then
                  (if hdr \<or> seen + 1 \<noteq> 1 \<or> length payload \<noteq> 13 then bad_container ''PNG header placement is invalid''
                   else png_chunks rest' (seen + 1) True img)
                else if kind = idat then
                  (if \<not> hdr then bad_container ''PNG image data precedes its header''
                   else png_chunks rest' (seen + 1) hdr True)
                else if kind = iend then
                  (if payload \<noteq> [] \<or> \<not> hdr \<or> \<not> img \<or> rest' \<noteq> [] then bad_container ''PNG terminator is invalid'' else Inr ())
                else png_chunks rest' (seen + 1) hdr img)))"
  by pat_completeness auto
termination by (relation "measure (\<lambda>(rest, seen, hdr, img). length rest)") auto

declare png_chunks.simps [simp del]

definition validate_png_container :: "bytes \<Rightarrow> image_error + unit" where
  "validate_png_container payload =
     (if \<not> startswith payload png_signature then bad_container ''PNG signature is invalid''
      else png_chunks (drop (length png_signature) payload) 0 False False)"

section \<open>Other containers\<close>

definition ends_with :: "bytes \<Rightarrow> bytes \<Rightarrow> bool" where
  "ends_with b p \<longleftrightarrow> startswith (rev b) (rev p)"

definition le32 :: "bytes \<Rightarrow> nat" where
  "le32 b = be32 (rev b)"

definition validate_container :: "bytes \<Rightarrow> ustr \<Rightarrow> image_error + unit" where
  "validate_container payload fmt =
     bindE (if fmt = U ''JPEG'' \<and> \<not> ends_with payload [255, 217] then bad_container ''JPEG has trailing or truncated data'' else Inr ()) (\<lambda>_.
     bindE (if fmt = U ''PNG'' then (if \<not> ends_with payload png_trailer then bad_container ''PNG has trailing or truncated data''
            else validate_png_container payload) else Inr ()) (\<lambda>_.
     bindE (if fmt = U ''WEBP'' \<and> (length payload < 12 \<or> take 4 payload \<noteq> U ''RIFF'' \<or> take 4 (drop 8 payload) \<noteq> U ''WEBP''
              \<or> le32 (take 4 (drop 4 payload)) + 8 \<noteq> length payload)
            then bad_container ''WebP container length is invalid'' else Inr ()) (\<lambda>_.
     if fmt = U ''GIF'' \<and> \<not> ends_with payload [59] then bad_container ''GIF has trailing or truncated data'' else Inr ())))"

section \<open>Frames\<close>

record frame_info =
  fi_width :: int
  fi_height :: int
  fi_mode :: ustr
  fi_bands :: nat

definition mode_bytes_per_pixel :: "(ustr, int) dict" where
  "mode_bytes_per_pixel = [(U ''1'', 1), (U ''L'', 1), (U ''P'', 1), (U ''LA'', 2), (U ''RGB'', 3), (U ''YCbCr'', 3), (U ''RGBA'', 4), (U ''CMYK'', 4)]"

type_synonym mode_table = "(ustr, ustr list) dict"

definition validate_frame :: "image_limits \<Rightarrow> ustr \<Rightarrow> mode_table option \<Rightarrow> frame_info \<Rightarrow> image_error + int \<times> int \<times> ustr" where
  "validate_frame L fmt modes f =
     (let w = fi_width f; h = fi_height f; mode = fi_mode f
      in if w \<le> 0 \<or> h \<le> 0 then Inl (Invalid ''invalid_dimensions'' ''image dimensions must be positive'')
         else if (case il_dimension L of Some d \<Rightarrow> w > d \<or> h > d | None \<Rightarrow> False)
         then Inl (Invalid ''dimension_limit'' ''image dimension limit exceeded'')
         else if w * h > il_pixels L then Inl (Invalid ''pixel_limit'' ''image pixel limit exceeded'')
         else if (case modes of Some t \<Rightarrow> mode \<notin> set (dget_default t fmt []) | None \<Rightarrow> False)
         then Inl (Invalid ''mode_not_allowed'' ''image mode is not allowed'')
         else if (case il_decoded L of
              Some n \<Rightarrow> w * h * dget_default mode_bytes_per_pixel mode (max 1 (int (fi_bands f))) > n | None \<Rightarrow> False)
         then Inl (Invalid ''decoded_bytes_limit'' ''image decoded-size limit exceeded'')
         else Inr (w, h, mode))"

text \<open>
  What Pillow reports: of the first opening the format, a frame and the result of \<^verbatim>\<open>verify\<close>; of the second the
  format and the frames in order, each before it is loaded and after, and the error of the last \<^verbatim>\<open>seek\<close>, where
  \<open>None\<close> is the end of the file.
\<close>

type_synonym frame = "frame_info \<times> (pil_error + frame_info)"

record candidate =
  cd_format :: ustr
  cd_frame :: frame_info
  cd_verify :: "pil_error option"

record decoded =
  dc_format :: ustr
  dc_first :: frame
  dc_rest :: "frame list"
  dc_end :: "pil_error option"

record pillow =
  pw_upper :: "ustr \<Rightarrow> ustr"
  pw_casefold :: "ustr \<Rightarrow> ustr"
  pw_open :: "bytes \<Rightarrow> pil_error + candidate"
  pw_decode :: "bytes \<Rightarrow> pil_error + decoded"

definition pil :: "pil_error + 'a \<Rightarrow> image_error + 'a" where
  "pil m = (case m of Inl e \<Rightarrow> Inl (Pil e) | Inr x \<Rightarrow> Inr x)"

fun decode_all_frames ::
  "image_limits \<Rightarrow> ustr \<Rightarrow> mode_table option \<Rightarrow> bool \<Rightarrow> pil_error option \<Rightarrow> frame \<Rightarrow> frame list \<Rightarrow> nat \<Rightarrow> int \<times> int \<times> ustr
     \<Rightarrow> image_error + (int \<times> int \<times> ustr) \<times> nat" where
  "decode_all_frames L fmt modes animated ending (before, loaded) rest seen first =
     (if seen \<noteq> 0 \<and> \<not> animated then Inl (Invalid ''animation_not_allowed'' ''animated images are not allowed'')
      else if seen \<ge> il_frames L then Inl (Invalid ''frame_limit'' ''image frame count limit exceeded'')
      else bindE (validate_frame L fmt modes before) (\<lambda>size.
        bindE (pil loaded) (\<lambda>after. bindE (validate_frame L fmt modes after) (\<lambda>_.
          let first' = (if seen = 0 then size else first)
          in case rest of
               [] \<Rightarrow> (case ending of None \<Rightarrow> Inr (first', seen + 1) | Some e \<Rightarrow> Inl (Pil e))
             | f # rest' \<Rightarrow> decode_all_frames L fmt modes animated ending f rest' (seen + 1) first'))))"

declare decode_all_frames.simps [simp del]

section \<open>Bytes\<close>

record validated_image =
  vi_format :: ustr
  vi_extension :: ustr
  vi_width :: int
  vi_height :: int
  vi_frames :: nat
  vi_mode :: ustr

datatype image_failure = Image_invalid string string | Image_raised pyerr

text \<open>The two passes over the bytes, inside the \<^verbatim>\<open>try\<close>.\<close>

definition image_passes ::
  "pillow \<Rightarrow> image_limits \<Rightarrow> (ustr, ustr) dict \<Rightarrow> ustr option \<Rightarrow> mode_table option \<Rightarrow> bool \<Rightarrow> bytes
     \<Rightarrow> image_error + validated_image" where
  "image_passes W L extensions expected modes animated payload =
     bindE (pil (pw_open W payload)) (\<lambda>c.
     let fmt = pw_upper W (cd_format c) in
     bindE (case dget extensions fmt of None \<Rightarrow> Inl (Invalid ''unsupported_format'' ''image format is not supported'') | Some e \<Rightarrow> Inr e) (\<lambda>ext.
     bindE (case expected of
          Some x \<Rightarrow> if fmt \<noteq> x then Inl (Invalid ''format_mismatch'' ''declared image type does not match its content'') else Inr ()
        | None \<Rightarrow> Inr ()) (\<lambda>_.
     bindE (validate_frame L fmt modes (cd_frame c)) (\<lambda>_.
     bindE (case cd_verify c of Some e \<Rightarrow> Inl (Pil e) | None \<Rightarrow> Inr ()) (\<lambda>_.
     bindE (validate_container payload fmt) (\<lambda>_.
     bindE (pil (pw_decode W payload)) (\<lambda>d.
     if pw_upper W (dc_format d) \<noteq> fmt then Inl (Invalid ''format_changed'' ''image format changed between validation passes'')
     else bindE (decode_all_frames L fmt modes animated (dc_end d) (dc_first d) (dc_rest d) 0 (0, 0, [])) (\<lambda>((w, h, mode), n).
       Inr \<lparr>vi_format = fmt, vi_extension = ext, vi_width = w, vi_height = h, vi_frames = n, vi_mode = mode\<rparr>))))))))"

text \<open>\<open>payload\<close> is \<open>None\<close> when it is no \<^verbatim>\<open>bytes\<close> object.\<close>

definition validate_image_bytes ::
  "pillow \<Rightarrow> image_limits \<Rightarrow> (ustr, ustr) dict \<Rightarrow> ustr option \<Rightarrow> mode_table option \<Rightarrow> bool \<Rightarrow> bytes option
     \<Rightarrow> image_failure + validated_image" where
  "validate_image_bytes W L extensions expected modes animated payload = (case payload of
      None \<Rightarrow> Inl (Image_invalid ''invalid_type'' ''image payload must be bytes'')
    | Some b \<Rightarrow>
        if b = [] then Inl (Image_invalid ''empty_image'' ''image payload is empty'')
        else if length b > il_bytes L then Inl (Image_invalid ''bytes_limit'' ''image byte limit exceeded'')
        else (let x = pw_upper W (case expected of Some e \<Rightarrow> e | None \<Rightarrow> [])
          in case image_passes W L extensions (if x = [] then None else Some x) modes animated b of
               Inr v \<Rightarrow> Inr v
             | Inl (Invalid reason msg) \<Rightarrow> Inl (Image_invalid reason msg)
             | Inl (Pil Bomb) \<Rightarrow> Inl (Image_invalid ''decompression_bomb'' ''image decompression-bomb limit exceeded'')
             | Inl (Pil Undecodable) \<Rightarrow> Inl (Image_invalid ''invalid_image'' ''image is invalid or undecodable'')
             | Inl (Pil (Escapes e)) \<Rightarrow> Inl (Image_raised e)))"

section \<open>Files\<close>

datatype file_kind = Regular | Symlink | Other_kind

record file_stat =
  fs_dev :: nat
  fs_ino :: nat
  fs_kind :: file_kind
  fs_nlink :: nat
  fs_size :: nat
  fs_mtime :: int

definition stat_identity :: "file_stat \<Rightarrow> nat \<times> nat \<times> file_kind \<times> nat \<times> int" where
  "stat_identity s = (fs_dev s, fs_ino s, fs_kind s, fs_size s, fs_mtime s)"

text \<open>The open descriptor: \<^verbatim>\<open>fstat\<close> and the bytes from the start, where \<open>None\<close> is an \<^verbatim>\<open>OSError\<close>.\<close>

definition validate_image_fd ::
  "pillow \<Rightarrow> image_limits \<Rightarrow> ustr option \<Rightarrow> (ustr, ustr) dict \<Rightarrow> mode_table \<Rightarrow> mode_table option \<Rightarrow> bool
     \<Rightarrow> file_stat option \<Rightarrow> bytes option \<Rightarrow> image_failure + validated_image" where
  "validate_image_fd W L suffix extensions suffixes modes animated info content = (case info of
      None \<Rightarrow> Inl (Image_invalid ''source_unavailable'' ''image file is unavailable'')
    | Some s \<Rightarrow>
        if fs_kind s \<noteq> Regular then Inl (Image_invalid ''not_regular_file'' ''image source is not a regular file'')
        else if fs_size s > il_bytes L then Inl (Image_invalid ''bytes_limit'' ''image byte limit exceeded'')
        else (case content of
            None \<Rightarrow> Inl (Image_invalid ''source_read_error'' ''image file could not be read'')
          | Some b \<Rightarrow>
              bindE (validate_image_bytes W L extensions None modes animated (Some (take (il_bytes L + 1) b))) (\<lambda>v.
                let x = pw_casefold W (case suffix of Some s \<Rightarrow> s | None \<Rightarrow> [])
                in if x \<noteq> [] \<and> x \<notin> pw_casefold W ` set (dget_default suffixes (vi_format v) [])
                   then Inl (Image_invalid ''format_mismatch'' ''image extension does not match its content'') else Inr v)))"

text \<open>
  What the file system answers, in the order of the calls: \<^verbatim>\<open>lstat\<close> of the path, whether it could be opened,
  \<^verbatim>\<open>fstat\<close> and \<^verbatim>\<open>lstat\<close> again, the answers to \<open>validate_image_fd\<close>, and both again.
\<close>

record path_answers =
  pa_before :: "file_stat option"
  pa_opened :: bool
  pa_fd :: "file_stat option"
  pa_current :: "file_stat option"
  pa_fd_info :: "file_stat option"
  pa_content :: "bytes option"
  pa_after_fd :: "file_stat option"
  pa_after_path :: "file_stat option"

definition os_answer :: "file_stat option \<Rightarrow> image_failure + file_stat" where
  "os_answer r = (case r of None \<Rightarrow> Inl (Image_raised (OtherError ''OSError'')) | Some s \<Rightarrow> Inr s)"

definition validate_image_path ::
  "pillow \<Rightarrow> image_limits \<Rightarrow> ustr option \<Rightarrow> (ustr, ustr) dict \<Rightarrow> mode_table \<Rightarrow> mode_table option \<Rightarrow> bool
     \<Rightarrow> path_answers \<Rightarrow> image_failure + validated_image" where
  "validate_image_path W L suffix extensions suffixes modes animated A = (case pa_before A of
      None \<Rightarrow> Inl (Image_invalid ''source_unavailable'' ''image file is unavailable'')
    | Some before \<Rightarrow>
        if fs_kind before = Symlink then Inl (Image_invalid ''symlink'' ''symbolic-link images are not allowed'')
        else if fs_kind before \<noteq> Regular then Inl (Image_invalid ''not_regular_file'' ''image source is not a regular file'')
        else if fs_nlink before \<noteq> 1 then Inl (Image_invalid ''hardlink'' ''hard-linked images are not allowed'')
        else if fs_size before > il_bytes L then Inl (Image_invalid ''bytes_limit'' ''image byte limit exceeded'')
        else if \<not> pa_opened A then Inl (Image_invalid ''source_open_error'' ''image file could not be opened'')
        else bindE (os_answer (pa_fd A)) (\<lambda>opened. bindE (os_answer (pa_current A)) (\<lambda>current.
          if fs_kind opened \<noteq> Regular \<or> fs_nlink opened \<noteq> 1 \<or> fs_kind current = Symlink
             \<or> stat_identity opened \<noteq> stat_identity before \<or> stat_identity current \<noteq> stat_identity before
          then Inl (Image_invalid ''source_changed'' ''image source changed while opening'')
          else bindE (validate_image_fd W L suffix extensions suffixes modes animated (pa_fd_info A) (pa_content A)) (\<lambda>v.
            bindE (os_answer (pa_after_fd A)) (\<lambda>after_fd. bindE (os_answer (pa_after_path A)) (\<lambda>after_path.
              if fs_nlink after_fd \<noteq> 1 \<or> fs_kind after_path = Symlink
                 \<or> stat_identity after_fd \<noteq> stat_identity before \<or> stat_identity after_path \<noteq> stat_identity before
              then Inl (Image_invalid ''source_changed'' ''image source changed while reading'') else Inr v))))))"

section \<open>PNG chunk by chunk\<close>

definition to_be32 :: "nat \<Rightarrow> bytes" where
  "to_be32 n = [n div 16777216, n div 65536 mod 256, n div 256 mod 256, n mod 256]"

definition byte_list :: "bytes \<Rightarrow> bool" where
  "byte_list b \<longleftrightarrow> list_all (\<lambda>x. x < 256) b"

lemma length_to_be32 [simp]: "length (to_be32 n) = 4"
  by (simp add: to_be32_def)

lemma to_be32_nonempty [simp]: "to_be32 n \<noteq> []"
  by (simp add: to_be32_def)

lemma base_256: "k < 256 \<Longrightarrow> (n * 256 + k) div 256 = n \<and> (n * 256 + k) mod 256 = (k::nat)"
  by simp

lemma div_256: "m div 65536 = m div 256 div 256" "m div 16777216 = m div 256 div 256 div (256::nat)"
  by (simp_all add: div_mult2_eq [symmetric])

lemma to_be32_be32:
  assumes "length b = 4" "byte_list b"
  shows "to_be32 (be32 b) = b" "be32 b < 2 ^ 32"
proof -
  obtain p q r s where b: "b = [p, q, r, s]" using assms(1) by (auto simp: numeral_eq_Suc length_Suc_conv)
  have range: "p < 256" "q < 256" "r < 256" "s < 256" using assms(2) by (simp_all add: b byte_list_def)
  have be: "be32 b = ((p * 256 + q) * 256 + r) * 256 + s" by (simp add: be32_def b)
  show "to_be32 (be32 b) = b"
    unfolding to_be32_def be div_256 using range base_256 by (simp only: b list.inject simp_thms)
  show "be32 b < 2 ^ 32" unfolding be using range by simp
qed

lemma be32_to_be32: "n < 2 ^ 32 \<Longrightarrow> be32 (to_be32 n) = n"
proof -
  assume n: "n < 2 ^ 32"
  have "n = n div 256 * 256 + n mod 256" "n div 256 = n div 256 div 256 * 256 + n div 256 mod 256"
    "n div 256 div 256 = n div 256 div 256 div 256 * 256 + n div 256 div 256 mod 256" by simp_all
  then have "((n div 16777216 * 256 + n div 65536 mod 256) * 256 + n div 256 mod 256) * 256 + n mod 256 = n"
    unfolding div_256 by metis
  then show ?thesis by (simp add: be32_def to_be32_def)
qed

lemma crc32_append: "crc32 d (crc32 t start) = crc32 (t @ d) start"
  by (simp add: crc32_def)

text \<open>A chunk as it is written: the length, the kind, the data and the checksum over both.\<close>

definition chunk_bytes :: "bytes \<times> bytes \<Rightarrow> bytes" where
  "chunk_bytes c = to_be32 (length (snd c)) @ fst c @ snd c @ to_be32 (unat (crc32 (fst c @ snd c) 0))"

definition chunk_ok :: "bytes \<times> bytes \<Rightarrow> bool" where
  "chunk_ok c \<longleftrightarrow> length (fst c) = 4 \<and> list_all png_letter (fst c) \<and> length (snd c) < 2 ^ 32"

fun png_order :: "nat \<Rightarrow> bool \<Rightarrow> bool \<Rightarrow> (bytes \<times> bytes) list \<Rightarrow> bool" where
  "png_order n hdr img [] = False"
| "png_order n hdr img ((t, d) # cs) =
     (if t = ihdr then \<not> hdr \<and> n = 0 \<and> length d = 13 \<and> png_order (n + 1) True img cs
      else if t = idat then hdr \<and> png_order (n + 1) hdr True cs
      else if t = iend then d = [] \<and> hdr \<and> img \<and> cs = []
      else png_order (n + 1) hdr img cs)"

lemma kinds_distinct [simp]: "ihdr \<noteq> idat" "idat \<noteq> ihdr" "ihdr \<noteq> iend" "iend \<noteq> ihdr" "idat \<noteq> iend" "iend \<noteq> idat"
  by (simp_all add: ihdr_def idat_def iend_def)

lemma crc_range: "unat (c :: 32 word) < 2 ^ 32"
  using unsigned_less [of c] by simp

text \<open>What one turn of the loop does with a chunk that was written.\<close>

lemma png_chunks_step:
  assumes "chunk_ok (t, d)" "n < max_png_chunks"
  shows "png_chunks (chunk_bytes (t, d) @ rest) n hdr img = Inr () \<longleftrightarrow>
    (if t = ihdr then \<not> hdr \<and> n = 0 \<and> length d = 13 \<and> png_chunks rest (n + 1) True img = Inr ()
     else if t = idat then hdr \<and> png_chunks rest (n + 1) hdr True = Inr ()
     else if t = iend then d = [] \<and> hdr \<and> img \<and> rest = []
     else png_chunks rest (n + 1) hdr img = Inr ())"
proof -
  define b where "b = chunk_bytes (t, d) @ rest"
  have t: "length t = 4" "list_all png_letter t" "length d < 2 ^ 32" using assms(1) by (simp_all add: chunk_ok_def)
  have parts: "be32 (take 4 b) = length d" "take 4 (drop 4 b) = t" "take (length d) (drop 8 b) = d"
    "take 4 (drop (8 + length d) b) = to_be32 (unat (crc32 (t @ d) 0))" "drop (12 + length d) b = rest"
    "(12 + length d > length b) = False" "(length b < 12) = False" "(b = []) = False"
    using t by (simp_all add: b_def chunk_bytes_def be32_to_be32)
  have crc: "be32 (to_be32 (unat (crc32 (t @ d) 0))) = unat (crc32 d (crc32 t 0))"
    using be32_to_be32 [OF crc_range] by (simp only: crc32_append)
  have turn: "(n \<ge> max_png_chunks) = False" "(length t \<noteq> 4 \<or> \<not> list_all png_letter t) = False" using assms(2) t by simp_all
  have "png_chunks b n hdr img = Inr () \<longleftrightarrow>
    (if t = ihdr then \<not> hdr \<and> n = 0 \<and> length d = 13 \<and> png_chunks rest (n + 1) True img = Inr ()
     else if t = idat then hdr \<and> png_chunks rest (n + 1) hdr True = Inr ()
     else if t = iend then d = [] \<and> hdr \<and> img \<and> rest = []
     else png_chunks rest (n + 1) hdr img = Inr ())"
    unfolding png_chunks.simps [of b] Let_def parts turn crc by (simp add: bad_container_def)
  then show ?thesis by (simp only: b_def)
qed

lemma png_chunks_written:
  "list_all chunk_ok cs \<Longrightarrow> n + length cs \<le> max_png_chunks \<Longrightarrow> png_order n hdr img cs \<Longrightarrow>
     png_chunks (concat (map chunk_bytes cs)) n hdr img = Inr ()"
proof (induction cs arbitrary: n hdr img)
  case (Cons c cs)
  obtain t d where c: "c = (t, d)" by fastforce
  have "chunk_ok (t, d)" "n < max_png_chunks" using Cons.prems by (simp_all add: c)
  from png_chunks_step [OF this] Cons show ?case by (auto simp: c split: if_splits)
qed simp

lemma png_chunks_read:
  "byte_list rest \<Longrightarrow> png_chunks rest n hdr img = Inr () \<Longrightarrow>
     \<exists>cs. rest = concat (map chunk_bytes cs) \<and> list_all chunk_ok cs \<and> n + length cs \<le> max_png_chunks \<and> png_order n hdr img cs"
proof (induction "length rest" arbitrary: rest n hdr img rule: less_induct)
  case less
  define len where "len = be32 (take 4 rest)"
  define t where "t = take 4 (drop 4 rest)"
  define d where "d = take len (drop 8 rest)"
  define rest' where "rest' = drop (12 + len) rest"
  have ok: "n < max_png_chunks" "12 \<le> length rest" "12 + len \<le> length rest" "length t = 4" "list_all png_letter t"
    "be32 (take 4 (drop (8 + len) rest)) = unat (crc32 (t @ d) 0)"
    using less.prems(2) unfolding len_def t_def d_def
    by (subst (asm) png_chunks.simps; simp add: bad_container_def Let_def crc32_append split: if_splits)+
  have bytes: "byte_list (take k (drop j rest))" "byte_list (drop j rest)" for k j
    using less.prems(1) by (auto simp: byte_list_def list_all_iff dest: in_set_takeD in_set_dropD)
  have "length (take 4 rest) = 4" using ok(2) by simp
  note head = to_be32_be32 [OF this bytes(1) [of 4 0, simplified]]
  have d: "length d = len" using ok(2,3) by (simp add: d_def)
  have tail: "length (take 4 (drop (8 + len) rest)) = 4" using ok(3) by simp
  have "rest = take 4 rest @ take 4 (drop 4 rest) @ take len (drop 8 rest) @ take 4 (drop (8 + len) rest) @ rest'"
  proof -
    have "drop 4 (drop 4 rest) = drop 8 rest" "drop len (drop 8 rest) = drop (8 + len) rest" "drop 4 (drop (8 + len) rest) = rest'"
      by (simp_all add: rest'_def add.commute)
    then show ?thesis by (metis append_take_drop_id)
  qed
  also have "\<dots> = chunk_bytes (t, d) @ rest'"
    using head(1) to_be32_be32(1) [OF tail bytes(1)] ok(6) d by (simp add: chunk_bytes_def len_def t_def d_def)
  finally have rest: "rest = chunk_bytes (t, d) @ rest'" .
  have c: "chunk_ok (t, d)" using ok(4,5) d head(2) by (simp add: chunk_ok_def len_def)
  have step: "if t = ihdr then \<not> hdr \<and> n = 0 \<and> length d = 13 \<and> png_chunks rest' (n + 1) True img = Inr ()
     else if t = idat then hdr \<and> png_chunks rest' (n + 1) hdr True = Inr ()
     else if t = iend then d = [] \<and> hdr \<and> img \<and> rest' = []
     else png_chunks rest' (n + 1) hdr img = Inr ()"
    using less.prems(2) png_chunks_step [OF c ok(1)] rest by metis
  have shorter: "length rest' < length rest" "byte_list rest'" using ok(2) bytes(2) by (simp_all add: rest'_def)
  note IH = less.hyps [OF shorter]
  show ?case
  proof (cases "t = iend")
    case True
    then have "rest' = []" "d = []" "hdr" "img" using step by auto
    then show ?thesis using rest c ok(1) True by (intro exI [of _ "[(t, d)]"]) simp
  next
    case False
    then obtain hdr' img' where "png_chunks rest' (n + 1) hdr' img' = Inr ()"
      and turn: "\<And>cs. png_order (n + 1) hdr' img' cs \<Longrightarrow> png_order n hdr img ((t, d) # cs)"
      using step by (cases "t = ihdr"; cases "t = idat") (auto split: if_splits)
    then obtain cs where "rest' = concat (map chunk_bytes cs)" "list_all chunk_ok cs" "n + 1 + length cs \<le> max_png_chunks"
      "png_order (n + 1) hdr' img' cs"
      using IH by blast
    moreover from this have "png_order n hdr img ((t, d) # cs)" using turn by blast
    ultimately show ?thesis using rest c by (intro exI [of _ "(t, d) # cs"]) (simp del: png_order.simps)
  qed
qed

text \<open>What the format asks of the chunks of a file: the header first and once, image data, the terminator last and once.\<close>

definition png_file :: "(bytes \<times> bytes) list \<Rightarrow> bool" where
  "png_file cs \<longleftrightarrow> (\<exists>d mid. cs = (ihdr, d) # mid @ [(iend, [])] \<and> length d = 13
     \<and> ihdr \<notin> fst ` set mid \<and> iend \<notin> fst ` set mid \<and> idat \<in> fst ` set mid)"

lemma png_order_tail:
  "0 < n \<Longrightarrow> png_order n True img cs \<longleftrightarrow>
     (\<exists>mid. cs = mid @ [(iend, [])] \<and> ihdr \<notin> fst ` set mid \<and> iend \<notin> fst ` set mid \<and> (img \<or> idat \<in> fst ` set mid))"
proof (induction cs arbitrary: n img)
  case (Cons c cs)
  obtain t d where c: "c = (t, d)" by fastforce
  have split: "(\<exists>mid. c # cs = mid @ [(iend, [])] \<and> P mid) \<longleftrightarrow>
      (c = (iend, []) \<and> cs = [] \<and> P []) \<or> (\<exists>mid. cs = mid @ [(iend, [])] \<and> P (c # mid))" for P
    by (auto simp: Cons_eq_append_conv)
  show ?case unfolding split using Cons.IH by (auto simp: c)
qed simp

lemma png_order_headless: "0 < n \<Longrightarrow> \<not> png_order n False img cs"
  by (induction n False img cs rule: png_order.induct) auto

lemma png_order_file: "png_order 0 False False cs \<longleftrightarrow> png_file cs"
proof (cases cs)
  case (Cons c cs')
  obtain t d where c: "c = (t, d)" by fastforce
  show ?thesis
  proof (cases "t = ihdr")
    case True
    then show ?thesis using png_order_tail [of 1 False cs'] by (auto simp: Cons c png_file_def)
  next
    case False
    then show ?thesis using png_order_headless [of 1] by (auto simp: Cons c png_file_def)
  qed
qed (simp add: png_file_def)

text \<open>
  C14. The check of PNG is exact: it accepts the bytes that are the signature followed by chunks as the format
  writes them, each with its length and its checksum, at most 4096 of them, the header first and only once,
  image data after it, and the terminator last, and it refuses all others, whatever stands behind the end
  of an image included.
\<close>

theorem png_container_exact:
  assumes "byte_list payload"
  shows "validate_png_container payload = Inr () \<longleftrightarrow>
    (\<exists>cs. payload = png_signature @ concat (map chunk_bytes cs) \<and> list_all chunk_ok cs \<and> length cs \<le> max_png_chunks \<and> png_file cs)"
proof
  assume "validate_png_container payload = Inr ()"
  then have run: "startswith payload png_signature" "png_chunks (drop (length png_signature) payload) 0 False False = Inr ()"
    by (auto simp: validate_png_container_def bad_container_def split: if_splits)
  have "byte_list (drop (length png_signature) payload)"
    using assms by (auto simp: byte_list_def list_all_iff dest: in_set_dropD)
  from png_chunks_read [OF this run(2)] show
    "\<exists>cs. payload = png_signature @ concat (map chunk_bytes cs) \<and> list_all chunk_ok cs \<and> length cs \<le> max_png_chunks \<and> png_file cs"
    using startswith_drop [OF run(1)] by (auto simp: png_order_file)
next
  assume "\<exists>cs. payload = png_signature @ concat (map chunk_bytes cs) \<and> list_all chunk_ok cs \<and> length cs \<le> max_png_chunks \<and> png_file cs"
  then obtain cs where "payload = png_signature @ concat (map chunk_bytes cs)" "list_all chunk_ok cs" "length cs \<le> max_png_chunks"
    "png_order 0 False False cs" by (auto simp: png_order_file)
  then show "validate_png_container payload = Inr ()"
    using png_chunks_written [of cs 0] by (simp add: validate_png_container_def)
qed

lemma to_be32_bytes: "n < 2 ^ 32 \<Longrightarrow> byte_list (to_be32 n)"
  by (auto simp: byte_list_def to_be32_def)

lemma png_container_exact_witness:
  "\<exists>payload. validate_png_container payload = Inr () \<and> validate_png_container (U ''not an image'') \<noteq> Inr ()"
proof -
  let ?cs = "[(ihdr, replicate 13 0), (idat, []), (iend, [])]"
  let ?p = "png_signature @ concat (map chunk_bytes ?cs)"
  have ok: "list_all chunk_ok ?cs" by (simp add: chunk_ok_def ihdr_def idat_def iend_def png_letter_def)
  have "byte_list (chunk_bytes c)" if "c \<in> set ?cs" for c
    using that to_be32_bytes [OF crc_range] to_be32_bytes [of 13] to_be32_bytes [of 0]
    by (auto simp: chunk_bytes_def byte_list_def ihdr_def idat_def iend_def list_all_iff)
  then have bytes: "byte_list ?p" by (auto simp: byte_list_def png_signature_def list_all_iff)
  have "png_file ?cs" by (auto simp: png_file_def)
  then have "validate_png_container ?p = Inr ()"
    using png_container_exact [OF bytes] ok by (auto simp: max_png_chunks_def)
  moreover have "\<not> validate_png_container (U ''not an image'') = Inr ()"
    by (simp add: validate_png_container_def png_signature_def startswith_def bad_container_def)
  ultimately show ?thesis by blast
qed

text \<open>The checksum on the four bytes every file ends with, as the constant of the source has it.\<close>

lemma crc_eight: "crc_update c x = (let c = c XOR word_of_nat x in crc_bit (crc_bit (crc_bit (crc_bit (crc_bit (crc_bit (crc_bit (crc_bit c))))))))"
  by (simp add: crc_update_def numeral_eq_Suc Let_def)

lemma crc_step_73: "crc_update 0xffffffff 73 = 0x22fde946"
  by (simp add: crc_eight crc_bit_def)
lemma crc_step_69: "crc_update 0x22fde946 69 = 0x992bac53"
  by (simp add: crc_eight crc_bit_def)
lemma crc_step_78: "crc_update 0x992bac53 78 = 0x639f4775"
  by (simp add: crc_eight crc_bit_def)
lemma crc_step_68: "crc_update 0x639f4775 68 = 0x51bd9f7d"
  by (simp add: crc_eight crc_bit_def)

lemma crc_of_iend: "chunk_bytes (iend, []) = png_trailer"
proof -
  have start: "(NOT 0 :: 32 word) = 0xFFFFFFFF" by simp
  have "crc32 iend 0 = 0xAE426082"
    unfolding crc32_def start by (simp add: iend_def crc_step_73 crc_step_69 crc_step_78 crc_step_68)
  then show ?thesis by (simp add: chunk_bytes_def iend_def png_trailer_def to_be32_def)
qed

section \<open>Frames within their limits\<close>

definition frame_fits :: "image_limits \<Rightarrow> ustr \<Rightarrow> mode_table option \<Rightarrow> frame_info \<Rightarrow> bool" where
  "frame_fits L fmt modes f \<longleftrightarrow> 0 < fi_width f \<and> 0 < fi_height f \<and> fi_width f * fi_height f \<le> il_pixels L
     \<and> (\<forall>d. il_dimension L = Some d \<longrightarrow> fi_width f \<le> d \<and> fi_height f \<le> d)
     \<and> (\<forall>t. modes = Some t \<longrightarrow> fi_mode f \<in> set (dget_default t fmt []))
     \<and> (\<forall>n. il_decoded L = Some n \<longrightarrow>
          fi_width f * fi_height f * dget_default mode_bytes_per_pixel (fi_mode f) (max 1 (int (fi_bands f))) \<le> n)"

lemma validate_frame_Inr:
  "validate_frame L fmt modes f = Inr r \<longleftrightarrow> frame_fits L fmt modes f \<and> r = (fi_width f, fi_height f, fi_mode f)"
  by (auto simp: validate_frame_def frame_fits_def Let_def not_less not_le split: option.splits)

definition frame_safe :: "image_limits \<Rightarrow> ustr \<Rightarrow> mode_table option \<Rightarrow> frame \<Rightarrow> bool" where
  "frame_safe L fmt modes f \<longleftrightarrow> frame_fits L fmt modes (fst f) \<and> (\<exists>a. snd f = Inr a \<and> frame_fits L fmt modes a)"

lemma pil_Inr: "pil m = Inr x \<longleftrightarrow> m = Inr x"
  by (simp add: pil_def split: sum.splits)

lemma decode_all_frames_Inr:
  "decode_all_frames L fmt modes animated ending f rest n first = Inr (dims, m) \<Longrightarrow>
     m = n + 1 + length rest \<and> m \<le> il_frames L \<and> list_all (frame_safe L fmt modes) (f # rest) \<and> (animated \<or> m = 1)
     \<and> dims = (if n = 0 then (fi_width (fst f), fi_height (fst f), fi_mode (fst f)) else first)"
proof (induction rest arbitrary: f n first)
  case (Nil f n first)
  then show ?case
    by (cases f; cases ending) (auto simp: decode_all_frames.simps bindE_eq_Inr pil_Inr validate_frame_Inr frame_safe_def Let_def split: if_splits)
next
  case (Cons g rest f n first)
  obtain before loaded where f: "f = (before, loaded)" by fastforce
  let ?dims = "if n = 0 then (fi_width before, fi_height before, fi_mode before) else first"
  have here: "frame_safe L fmt modes f" "n = 0 \<or> animated" and
    run: "decode_all_frames L fmt modes animated ending g rest (n + 1) ?dims = Inr (dims, m)"
    using Cons.prems by (auto simp: f decode_all_frames.simps [of L fmt modes animated ending before loaded "g # rest"] bindE_eq_Inr pil_Inr
        validate_frame_Inr frame_safe_def Let_def split: if_splits)
  from Cons.IH [OF run] here show ?case by (auto simp: f)
qed

section \<open>What a validated file is\<close>

definition same_file :: "file_stat \<Rightarrow> file_stat option \<Rightarrow> bool" where
  "same_file s r \<longleftrightarrow> (\<exists>t. r = Some t \<and> stat_identity t = stat_identity s \<and> fs_kind t = Regular)"

lemma same_file_identity: "fs_kind s = Regular \<Longrightarrow> stat_identity t = stat_identity s \<Longrightarrow> same_file s (Some t)"
  by (simp add: same_file_def stat_identity_def)

lemma os_answer_Inr: "os_answer r = Inr s \<longleftrightarrow> r = Some s"
  by (simp add: os_answer_def split: option.splits)

lemma image_bytes_Inr:
  assumes "validate_image_bytes W L exts expected modes animated (Some b) = Inr v"
  shows "b \<noteq> [] \<and> length b \<le> il_bytes L \<and> dget exts (vi_format v) = Some (vi_extension v)
    \<and> validate_container b (vi_format v) = Inr ()
    \<and> (\<exists>d. pw_decode W b = Inr d \<and> list_all (frame_safe L (vi_format v) modes) (dc_first d # dc_rest d)
        \<and> vi_frames v = 1 + length (dc_rest d)
        \<and> (vi_width v, vi_height v) = (fi_width (fst (dc_first d)), fi_height (fst (dc_first d))))
    \<and> vi_frames v \<le> il_frames L \<and> (animated \<or> vi_frames v = 1)"
proof -
  obtain x where size: "b \<noteq> []" "length b \<le> il_bytes L" and pass: "image_passes W L exts x modes animated b = Inr v"
    using assms unfolding validate_image_bytes_def Let_def
    by (auto split: if_splits sum.splits image_error.splits pil_error.splits)
  then obtain ext d dims n where p: "dget exts (vi_format v) = Some ext" "validate_container b (vi_format v) = Inr ()"
    "pw_decode W b = Inr d" "decode_all_frames L (vi_format v) modes animated (dc_end d) (dc_first d) (dc_rest d) 0 (0, 0, []) = Inr (dims, n)"
    "vi_extension v = ext" "vi_frames v = n" "dims = (vi_width v, vi_height v, vi_mode v)"
    by (auto simp: image_passes_def bindE_eq_Inr Let_def pil_Inr split: option.splits if_splits)
  with decode_all_frames_Inr [OF p(4)] size show ?thesis by auto
qed


definition sample_pillow :: pillow where
  "sample_pillow = (let f = \<lparr>fi_width = 2, fi_height = 3, fi_mode = U ''P'', fi_bands = 1\<rparr> in
     \<lparr>pw_upper = (\<lambda>s. s), pw_casefold = (\<lambda>s. s), pw_open = (\<lambda>_. Inr \<lparr>cd_format = U ''GIF'', cd_frame = f, cd_verify = None\<rparr>),
      pw_decode = (\<lambda>_. Inr \<lparr>dc_format = U ''GIF'', dc_first = (f, Inr f), dc_rest = [], dc_end = None\<rparr>)\<rparr>)"


end
