(* ===== verification/Onebot_Actions.thy ===== *)
theory Onebot_Actions
  imports Py_Values
begin

text \<open>
  Actions over the WebSocket of OneBot (\<^verbatim>\<open>core/onebot.py\<close>): a caller claims the connection, sends its
  request with a fresh \<^verbatim>\<open>echo\<close>, and waits for the response that carries it, while credentials are rotated by
  another thread, connections come and go, and the client stops. Each definition is a piece of code that
  nothing interrupts; the steps let them follow each other in any order.
\<close>

section \<open>The state of the client\<close>

text \<open>
  The code compares credentials by identity; every change creates an object with a generation of its own, so
  that equality says the same.
\<close>

record endpoint_auth =
  ea_endpoint :: ustr
  ea_token :: ustr
  ea_generation :: nat
  ea_trusted :: bool

type_synonym event = "(ustr, pyval) dict"

datatype future = Waiting | Result event | Failed string | Dropped

record ws_client =
  wc_auth :: endpoint_auth
  wc_ws :: "nat option"
  wc_generation :: "nat option"
  wc_futures :: "(ustr, nat) dict"
  wc_states :: "(ustr, endpoint_auth) dict"
  wc_future :: "nat \<Rightarrow> future"

definition new_client :: "ustr \<Rightarrow> ustr \<Rightarrow> bool \<Rightarrow> ws_client" where
  "new_client uri token trusted =
     \<lparr>wc_auth = \<lparr>ea_endpoint = uri, ea_token = token, ea_generation = 0, ea_trusted = trusted\<rparr>, wc_ws = None,
      wc_generation = None, wc_futures = [], wc_states = [], wc_future = (\<lambda>_. Waiting)\<rparr>"

definition set_future :: "nat \<Rightarrow> future \<Rightarrow> ws_client \<Rightarrow> ws_client" where
  "set_future f x c = c\<lparr>wc_future := (wc_future c)(f := x)\<rparr>"

definition clear_connection :: "ws_client \<Rightarrow> ws_client" where
  "clear_connection c = c\<lparr>wc_ws := None, wc_generation := None\<rparr>"

section \<open>Pending actions\<close>

text \<open>\<open>auth = None\<close> stands for every connection; \<open>exclude\<close> is a future that is taken out but not failed.\<close>

definition concerns :: "endpoint_auth option \<Rightarrow> ws_client \<Rightarrow> ustr \<Rightarrow> bool" where
  "concerns auth c echo \<longleftrightarrow> (case auth of None \<Rightarrow> True | Some a \<Rightarrow> dget (wc_states c) echo \<in> {None, Some a})"

definition fail_pending :: "string \<Rightarrow> nat option \<Rightarrow> endpoint_auth option \<Rightarrow> ws_client \<Rightarrow> ws_client" where
  "fail_pending reason exclude auth c =
     (let gone = filter (\<lambda>(echo, _). concerns auth c echo) (wc_futures c);
          c1 = c\<lparr>wc_futures := foldl (\<lambda>d (echo, _). ddel echo d) (wc_futures c) gone,
                 wc_states := foldl (\<lambda>d (echo, _). ddel echo d) (wc_states c) gone\<rparr>
      in foldl (\<lambda>c (_, f). if Some f \<noteq> exclude \<and> wc_future c f = Waiting then set_future f (Failed reason) c else c) c1 gone)"

definition is_action_response :: "event \<Rightarrow> bool" where
  "is_action_response e \<longleftrightarrow> U ''echo'' \<in> set (dkeys e) \<and> (U ''status'' \<in> set (dkeys e) \<or> U ''retcode'' \<in> set (dkeys e))"

text \<open>Whether the event was consumed, and the client afterwards.\<close>

definition resolve_action_response :: "event \<Rightarrow> endpoint_auth option \<Rightarrow> ws_client \<Rightarrow> bool \<times> ws_client" where
  "resolve_action_response e auth c =
     (if \<not> is_action_response e then (False, c)
      else (case dget e (U ''echo'') of
          Some (VStr echo) \<Rightarrow>
            (case auth of
               None \<Rightarrow> (True, c)
             | Some a \<Rightarrow>
                 if a \<noteq> wc_auth c then (True, c)
                 else (case dget (wc_futures c) echo of
                     Some f \<Rightarrow>
                       if wc_future c f = Waiting \<and> dget (wc_states c) echo = Some a
                       then (True, set_future f (Result e) c) else (True, c)
                   | None \<Rightarrow> (True, c)))
        | _ \<Rightarrow> (True, c)))"

section \<open>Connections and credentials\<close>

text \<open>\<open>is_closed\<close> is what the socket says of itself, or that it could not be asked.\<close>

definition connected_target :: "(nat \<Rightarrow> bool) \<Rightarrow> ws_client \<Rightarrow> (nat \<times> endpoint_auth) option" where
  "connected_target is_closed c = (case wc_ws c of
      None \<Rightarrow> None
    | Some ws \<Rightarrow>
        if \<not> ea_trusted (wc_auth c) then None
        else if wc_generation c \<notin> {None, Some (ea_generation (wc_auth c))} then None
        else if is_closed ws then None
        else Some (ws, wc_auth c))"

text \<open>The new credentials, with what has to be invalidated if they changed.\<close>

definition update_auth :: "ustr \<Rightarrow> ustr \<Rightarrow> bool \<Rightarrow> ws_client \<Rightarrow> (endpoint_auth \<times> nat option) option \<times> ws_client" where
  "update_auth uri token trusted c =
     (let previous = wc_auth c
      in if (uri, token, trusted) = (ea_endpoint previous, ea_token previous, ea_trusted previous) then (None, c)
         else (let c1 = (if wc_ws c \<noteq> None \<and> wc_generation c = None then c\<lparr>wc_generation := Some (ea_generation previous)\<rparr> else c)
           in (Some (previous, wc_ws c),
               c1\<lparr>wc_auth := \<lparr>ea_endpoint = uri, ea_token = token, ea_generation = ea_generation previous + 1, ea_trusted = trusted\<rparr>\<rparr>)))"

definition invalidate_previous :: "endpoint_auth \<Rightarrow> ws_client \<Rightarrow> ws_client" where
  "invalidate_previous previous c = fail_pending ''WebSocket authorization changed'' None (Some previous) c"

text \<open>When the loop is closed before the callback could be handed to it.\<close>

definition rotation_without_loop :: "endpoint_auth \<Rightarrow> nat option \<Rightarrow> ws_client \<Rightarrow> ws_client" where
  "rotation_without_loop previous ws c = (if wc_ws c = ws \<and> wc_auth c \<noteq> previous then clear_connection c else c)"

text \<open>A listener publishes its socket, unless its credentials are stale, and takes it back at its end.\<close>

definition publish_connection :: "nat \<Rightarrow> endpoint_auth \<Rightarrow> ws_client \<Rightarrow> bool \<times> ws_client" where
  "publish_connection ws auth c =
     (if auth \<noteq> wc_auth c then (False, c)
      else (True, c\<lparr>wc_ws := Some ws, wc_generation := Some (ea_generation auth)\<rparr>))"

definition forget_socket :: "nat \<Rightarrow> ws_client \<Rightarrow> ws_client" where
  "forget_socket ws c = (if wc_ws c = Some ws then clear_connection c else c)"

definition listener_closed :: "endpoint_auth \<Rightarrow> ws_client \<Rightarrow> ws_client" where
  "listener_closed auth c = fail_pending ''WebSocket connection closed'' None (Some auth) c"

definition stop_pending :: "ws_client \<Rightarrow> ws_client" where
  "stop_pending c = fail_pending ''WebSocket client stopped'' None None c"

section \<open>A request\<close>

text \<open>The claim: whether the connection that was inspected before is still the one to use.\<close>

definition claim_action :: "nat \<times> endpoint_auth \<Rightarrow> ustr \<Rightarrow> nat \<Rightarrow> ws_client \<Rightarrow> bool \<times> ws_client" where
  "claim_action target echo f c =
     (let c1 = set_future f Waiting c
      in if wc_ws c \<noteq> Some (fst target) \<or> wc_auth c \<noteq> snd target
            \<or> wc_generation c \<notin> {None, Some (ea_generation (snd target))}
         then (False, c1)
         else (True, c1\<lparr>wc_futures := dset echo f (wc_futures c1), wc_states := dset echo (snd target) (wc_states c1)\<rparr>))"

text \<open>The \<^verbatim>\<open>except Exception\<close> of a request that was committed to the socket \<open>ws\<close>.\<close>

definition send_failed :: "nat \<Rightarrow> endpoint_auth \<Rightarrow> nat \<Rightarrow> ws_client \<Rightarrow> ws_client" where
  "send_failed ws auth f c =
     fail_pending ''WebSocket send failed'' (Some f) (Some auth) (if wc_ws c = Some ws then c\<lparr>wc_ws := None\<rparr> else c)"

text \<open>The \<^verbatim>\<open>finally\<close>.\<close>

definition finish_action :: "ustr \<Rightarrow> nat \<Rightarrow> ws_client \<Rightarrow> ws_client" where
  "finish_action echo f c =
     (let c1 = (if dget (wc_futures c) echo = Some f
                then c\<lparr>wc_futures := ddel echo (wc_futures c), wc_states := ddel echo (wc_states c)\<rparr> else c)
      in if wc_future c1 f = Waiting then set_future f Dropped c1 else c1)"

text \<open>How a request ends: \<open>Not_sent\<close> is the \<^verbatim>\<open>None\<close> before anything was handed to the socket.\<close>

datatype request_end =
    Responded event
  | Not_sent
  | Outcome_unknown
  | Cancelled_before_commit
  | Cancelled_after_commit

datatype stage = Sending | Sent_off | Done request_end

record request =
  rq_echo :: ustr
  rq_ws :: nat
  rq_auth :: endpoint_auth
  rq_stage :: stage

text \<open>What a request does when it is resumed, by stage: \<open>None\<close> where it goes on waiting.\<close>

datatype wakeup = Send_done | Send_error | Woken | Timed_out | Cancel

definition resume_request :: "request \<Rightarrow> nat \<Rightarrow> wakeup \<Rightarrow> ws_client \<Rightarrow> (stage \<times> ws_client) option" where
  "resume_request rq f w c =
     (let finish = (\<lambda>o1 c. Some (Done o1, finish_action (rq_echo rq) f c))
      in case (rq_stage rq, w) of
           (Sending, Send_done) \<Rightarrow> Some (Sent_off, c)
         | (Sending, Send_error) \<Rightarrow> finish Outcome_unknown (send_failed (rq_ws rq) (rq_auth rq) f c)
         | (Sending, Timed_out) \<Rightarrow> finish Outcome_unknown c
         | (Sending, Cancel) \<Rightarrow> finish Cancelled_before_commit c
         | (Sent_off, Woken) \<Rightarrow> (case wc_future c f of
               Result e \<Rightarrow> finish (Responded e) c
             | Failed _ \<Rightarrow> finish Outcome_unknown (send_failed (rq_ws rq) (rq_auth rq) f c)
             | _ \<Rightarrow> None)
         | (Sent_off, Timed_out) \<Rightarrow> (if wc_future c f = Waiting then finish Outcome_unknown c else None)
         | (Sent_off, Cancel) \<Rightarrow> finish Cancelled_after_commit c
         | _ \<Rightarrow> None)"

section \<open>The system\<close>

text \<open>
  The client, the requests by the number of their future, and what listeners received: the event, the
  credentials of the listener, and those in force at that moment.
\<close>

record ws_sys =
  sy_client :: ws_client
  sy_requests :: "nat \<Rightarrow> request option"
  sy_received :: "(event \<times> endpoint_auth \<times> endpoint_auth) list"

definition on_client :: "(ws_client \<Rightarrow> ws_client) \<Rightarrow> ws_sys \<Rightarrow> ws_sys" where
  "on_client g s = s\<lparr>sy_client := g (sy_client s)\<rparr>"

text \<open>
  A request inspects the connection (\<open>connected_target\<close>) and claims it later; in between anything may have
  happened, so the target is any that may have been seen. The echo is a new uuid.
\<close>

inductive ws_step :: "ws_sys \<Rightarrow> ws_sys \<Rightarrow> bool" where
  w_claim: "sy_requests s f = None \<Longrightarrow> \<forall>g rq. sy_requests s g = Some rq \<longrightarrow> rq_echo rq \<noteq> echo \<Longrightarrow> ea_trusted (snd target) \<Longrightarrow>
    claim_action target echo f (sy_client s) = (True, c) \<Longrightarrow>
    ws_step s (s\<lparr>sy_client := c,
      sy_requests := (sy_requests s)(f \<mapsto> \<lparr>rq_echo = echo, rq_ws = fst target, rq_auth = snd target, rq_stage = Sending\<rparr>)\<rparr>)"
| w_refused: "sy_requests s f = None \<Longrightarrow> claim_action target echo f (sy_client s) = (False, c) \<Longrightarrow>
    ws_step s (s\<lparr>sy_client := finish_action echo f c\<rparr>)"
| w_resume: "sy_requests s f = Some rq \<Longrightarrow> resume_request rq f w (sy_client s) = Some (stage, c) \<Longrightarrow>
    ws_step s (s\<lparr>sy_client := c, sy_requests := (sy_requests s)(f \<mapsto> rq\<lparr>rq_stage := stage\<rparr>)\<rparr>)"
| w_receive: "resolve_action_response e (Some a) (sy_client s) = (b, c) \<Longrightarrow>
    ws_step s (s\<lparr>sy_client := c, sy_received := (e, a, wc_auth (sy_client s)) # sy_received s\<rparr>)"
| w_update: "update_auth uri token trusted (sy_client s) = (r, c) \<Longrightarrow> ws_step s (s\<lparr>sy_client := c\<rparr>)"
| w_invalidate: "ws_step s (on_client (invalidate_previous a) s)"
| w_no_loop: "ws_step s (on_client (rotation_without_loop a ws) s)"
| w_publish: "publish_connection n a (sy_client s) = (b, c) \<Longrightarrow> ws_step s (s\<lparr>sy_client := c\<rparr>)"
| w_listener: "ws_step s (on_client (listener_closed a) s)"
| w_forget: "ws_step s (on_client (forget_socket n) s)"
| w_reconnect: "ws_step s (on_client clear_connection s)"
| w_stop: "ws_step s (on_client stop_pending s)"

inductive ws_reach :: "ws_sys \<Rightarrow> bool" where
  ws_start: "ws_reach \<lparr>sy_client = new_client uri token trusted, sy_requests = (\<lambda>_. None), sy_received = []\<rparr>"
| ws_next: "ws_reach s \<Longrightarrow> ws_step s s' \<Longrightarrow> ws_reach s'"

section \<open>What failing the pending actions does\<close>

lemma ddel_all:
  "dget (foldl (\<lambda>d (k, _). ddel k d) d xs) k = (if k \<in> fst ` set xs then None else dget d k)"
  by (induction xs arbitrary: d) auto

lemma dict_ok_ddel_all: "dict_ok d \<Longrightarrow> dict_ok (foldl (\<lambda>d (k, _). ddel k d) d xs)"
  by (induction xs arbitrary: d) (auto simp: dict_ok_ddel split: prod.splits)

lemma fail_all:
  "(foldl (\<lambda>c (_, f). if Some f \<noteq> exclude \<and> wc_future c f = Waiting then set_future f (Failed reason) c else c) c xs)
     = c\<lparr>wc_future := (\<lambda>f. if f \<in> snd ` set xs \<and> Some f \<noteq> exclude \<and> wc_future c f = Waiting then Failed reason else wc_future c f)\<rparr>"
proof (induction xs arbitrary: c)
  case (Cons x xs)
  then show ?case by (cases x) (auto simp: set_future_def fun_eq_iff intro!: arg_cong [where f = "\<lambda>g. c\<lparr>wc_future := g\<rparr>"])
qed simp

lemma gone_iff: "dict_ok d \<Longrightarrow> k \<in> fst ` set (filter (\<lambda>(k, _). P k) d) \<longleftrightarrow> dget d k \<noteq> None \<and> P k"
  by (force simp: dget_None_iff)

lemma gone_futures: "dict_ok d \<Longrightarrow> f \<in> snd ` set (filter (\<lambda>(k, _). P k) d) \<longleftrightarrow> (\<exists>k. dget d k = Some f \<and> P k)"
  by (force simp: map_of_eq_Some_iff)

lemma fail_pending_simps:
  assumes "dict_ok (wc_futures c)"
  shows "dget (wc_futures (fail_pending r x a c)) k = (if concerns a c k then None else dget (wc_futures c) k)"
    "dget (wc_states (fail_pending r x a c)) k =
       (if concerns a c k \<and> dget (wc_futures c) k \<noteq> None then None else dget (wc_states c) k)"
    "wc_future (fail_pending r x a c) f =
       (if (\<exists>k. dget (wc_futures c) k = Some f \<and> concerns a c k) \<and> Some f \<noteq> x \<and> wc_future c f = Waiting then Failed r else wc_future c f)"
    "dict_ok (wc_futures (fail_pending r x a c))"
    "dict_ok (wc_states c) \<Longrightarrow> dict_ok (wc_states (fail_pending r x a c))"
    "wc_auth (fail_pending r x a c) = wc_auth c" "wc_ws (fail_pending r x a c) = wc_ws c"
    "wc_generation (fail_pending r x a c) = wc_generation c"
proof -
  note gone = gone_iff [OF assms, of _ "concerns a c"] gone_futures [OF assms, of _ "concerns a c"]
  show "dget (wc_futures (fail_pending r x a c)) k = (if concerns a c k then None else dget (wc_futures c) k)"
    by (simp add: fail_pending_def Let_def fail_all ddel_all gone del: set_filter)
  show "dget (wc_states (fail_pending r x a c)) k =
       (if concerns a c k \<and> dget (wc_futures c) k \<noteq> None then None else dget (wc_states c) k)"
    by (auto simp: fail_pending_def Let_def fail_all ddel_all gone simp del: set_filter)
  show "wc_future (fail_pending r x a c) f =
       (if (\<exists>k. dget (wc_futures c) k = Some f \<and> concerns a c k) \<and> Some f \<noteq> x \<and> wc_future c f = Waiting then Failed r else wc_future c f)"
    by (simp add: fail_pending_def Let_def fail_all gone del: set_filter)
qed (use assms in \<open>simp_all add: fail_pending_def Let_def fail_all dict_ok_ddel_all del: set_filter\<close>)

section \<open>The invariant\<close>

definition active :: "request \<Rightarrow> bool" where
  "active rq \<longleftrightarrow> rq_stage rq = Sending \<or> rq_stage rq = Sent_off"

text \<open>The event carries the echo of the request and came over the connection the request was committed to, while its credentials were in force.\<close>

definition answers :: "request \<Rightarrow> event \<Rightarrow> (event \<times> endpoint_auth \<times> endpoint_auth) list \<Rightarrow> bool" where
  "answers rq e lg \<longleftrightarrow> is_action_response e \<and> dget e (U ''echo'') = Some (VStr (rq_echo rq)) \<and> (e, rq_auth rq, rq_auth rq) \<in> set lg"

definition tables_ok :: "ws_client \<Rightarrow> bool" where
  "tables_ok c \<longleftrightarrow> dict_ok (wc_futures c) \<and> dict_ok (wc_states c) \<and> (\<forall>k. dget (wc_futures c) k = None \<longleftrightarrow> dget (wc_states c) k = None)"

definition entries_ok :: "ws_client \<Rightarrow> (nat \<Rightarrow> request option) \<Rightarrow> bool" where
  "entries_ok c R \<longleftrightarrow> (\<forall>k f. dget (wc_futures c) k = Some f \<longrightarrow>
     (\<exists>rq. R f = Some rq \<and> rq_echo rq = k \<and> active rq \<and> dget (wc_states c) k = Some (rq_auth rq)))"

text \<open>\<open>X\<close> holds the requests that are about to end.\<close>

definition requests_ok :: "nat set \<Rightarrow> ws_client \<Rightarrow> (nat \<Rightarrow> request option) \<Rightarrow> (event \<times> endpoint_auth \<times> endpoint_auth) list \<Rightarrow> bool" where
  "requests_ok X c R lg \<longleftrightarrow> (\<forall>f rq. R f = Some rq \<longrightarrow>
     (f \<notin> X \<longrightarrow> active rq \<longrightarrow> dget (wc_futures c) (rq_echo rq) = Some f \<or> wc_future c f \<noteq> Waiting)
     \<and> (\<not> active rq \<longrightarrow> wc_future c f \<noteq> Waiting \<and> rq_stage rq \<noteq> Done Not_sent)
     \<and> (\<forall>e. wc_future c f = Result e \<or> rq_stage rq = Done (Responded e) \<longrightarrow> answers rq e lg))"

definition echoes_ok :: "(nat \<Rightarrow> request option) \<Rightarrow> bool" where
  "echoes_ok R \<longleftrightarrow> (\<forall>f g rq rq'. R f = Some rq \<longrightarrow> R g = Some rq' \<longrightarrow> rq_echo rq = rq_echo rq' \<longrightarrow> f = g)"

definition sys_ok :: "nat set \<Rightarrow> ws_client \<Rightarrow> (nat \<Rightarrow> request option) \<Rightarrow> (event \<times> endpoint_auth \<times> endpoint_auth) list \<Rightarrow> bool" where
  "sys_ok X c R lg \<longleftrightarrow> tables_ok c \<and> entries_ok c R \<and> requests_ok X c R lg \<and> echoes_ok R"

lemma sys_ok_cong:
  assumes "sys_ok X c R lg" "wc_futures c' = wc_futures c" "wc_states c' = wc_states c" "wc_future c' = wc_future c"
  shows "sys_ok X c' R lg"
proof -
  have "sys_ok X c' R lg = sys_ok X c R lg"
    by (simp only: sys_ok_def tables_ok_def entries_ok_def requests_ok_def assms(2-4))
  with assms(1) show ?thesis by simp
qed

lemma sys_ok_fail_pending:
  assumes "sys_ok {} c R lg"
  shows "sys_ok (set_option x) (fail_pending r x a c) R lg"
proof -
  have ok: "dict_ok (wc_futures c)" "dict_ok (wc_states c)" and same: "\<And>k. dget (wc_futures c) k = None \<longleftrightarrow> dget (wc_states c) k = None"
    using assms by (auto simp: sys_ok_def tables_ok_def)
  note simps = fail_pending_simps [OF ok(1)]
  have "tables_ok (fail_pending r x a c)" using simps(4,5) ok same by (auto simp: tables_ok_def simps(1,2) simp del: map_of_eq_Some_iff)
  moreover have "entries_ok (fail_pending r x a c) R"
    using assms by (auto simp: sys_ok_def entries_ok_def simps(1,2) split: if_splits)
  moreover have "requests_ok (set_option x) (fail_pending r x a c) R lg"
    unfolding requests_ok_def
  proof (intro allI impI)
    fix f rq
    assume R: "R f = Some rq"
    with assms have rq: "active rq \<longrightarrow> dget (wc_futures c) (rq_echo rq) = Some f \<or> wc_future c f \<noteq> Waiting"
      "\<not> active rq \<longrightarrow> wc_future c f \<noteq> Waiting \<and> rq_stage rq \<noteq> Done Not_sent"
      "\<forall>e. wc_future c f = Result e \<or> rq_stage rq = Done (Responded e) \<longrightarrow> answers rq e lg"
      by (auto simp: sys_ok_def requests_ok_def)
    have "dget (wc_futures (fail_pending r x a c)) (rq_echo rq) = Some f \<or> wc_future (fail_pending r x a c) f \<noteq> Waiting"
      if "f \<notin> set_option x" "active rq"
    proof -
      have "Some f \<noteq> x" using that(1) by auto
      then show ?thesis using rq(1) that(2) unfolding simps(1,3) by (cases "concerns a c (rq_echo rq)") auto
    qed
    with rq show "(f \<notin> set_option x \<longrightarrow> active rq \<longrightarrow>
          dget (wc_futures (fail_pending r x a c)) (rq_echo rq) = Some f \<or> wc_future (fail_pending r x a c) f \<noteq> Waiting)
        \<and> (\<not> active rq \<longrightarrow> wc_future (fail_pending r x a c) f \<noteq> Waiting \<and> rq_stage rq \<noteq> Done Not_sent)
        \<and> (\<forall>e. wc_future (fail_pending r x a c) f = Result e \<or> rq_stage rq = Done (Responded e) \<longrightarrow> answers rq e lg)"
      by (auto simp: simps(3))
  qed
  ultimately show ?thesis using assms by (simp add: sys_ok_def)
qed

lemma sys_ok_finish:
  assumes "sys_ok X c R lg" "X \<subseteq> {f}" "R f = Some rq" "out \<noteq> Not_sent" "\<forall>e. out = Responded e \<longrightarrow> answers rq e lg"
  shows "sys_ok {} (finish_action (rq_echo rq) f c) (R(f \<mapsto> rq\<lparr>rq_stage := Done out\<rparr>)) lg"
proof -
  let ?c = "finish_action (rq_echo rq) f c"
  have futs: "dget (wc_futures ?c) k = (if dget (wc_futures c) (rq_echo rq) = Some f \<and> k = rq_echo rq then None else dget (wc_futures c) k)"
    and sts: "dget (wc_states ?c) k = (if dget (wc_futures c) (rq_echo rq) = Some f \<and> k = rq_echo rq then None else dget (wc_states c) k)" for k
    by (auto simp: finish_action_def set_future_def Let_def)
  have fut: "wc_future ?c = (wc_future c)(f := if wc_future c f = Waiting then Dropped else wc_future c f)"
    by (auto simp: finish_action_def set_future_def Let_def fun_eq_iff)
  have "dict_ok (wc_futures ?c) \<and> dict_ok (wc_states ?c)"
    using assms(1) dict_ok_ddel by (auto simp: sys_ok_def tables_ok_def finish_action_def set_future_def Let_def)
  then have "tables_ok ?c" using assms(1) by (auto simp: sys_ok_def tables_ok_def futs sts)
  moreover have entries: "\<exists>rq'. R g = Some rq' \<and> rq_echo rq' = k \<and> active rq' \<and> dget (wc_states c) k = Some (rq_auth rq')"
    if "dget (wc_futures c) k = Some g" for k g
    using assms(1) that by (auto simp: sys_ok_def entries_ok_def)
  have "entries_ok ?c (R(f \<mapsto> rq\<lparr>rq_stage := Done out\<rparr>))"
    unfolding entries_ok_def
  proof (intro allI impI)
    fix k g
    assume g: "dget (wc_futures ?c) k = Some g"
    then have old: "dget (wc_futures c) k = Some g" by (auto simp: futs split: if_splits)
    obtain rq' where rq': "R g = Some rq'" "rq_echo rq' = k" "active rq'" "dget (wc_states c) k = Some (rq_auth rq')"
      using entries [OF old] by blast
    have "g \<noteq> f"
    proof
      assume "g = f"
      with rq' assms(3) old have "dget (wc_futures c) (rq_echo rq) = Some f" "k = rq_echo rq" by auto
      with g show False by (simp add: futs)
    qed
    moreover have "\<not> (dget (wc_futures c) (rq_echo rq) = Some f \<and> k = rq_echo rq)" using g by (auto simp: futs split: if_splits)
    ultimately show "\<exists>rq'. (R(f \<mapsto> rq\<lparr>rq_stage := Done out\<rparr>)) g = Some rq' \<and> rq_echo rq' = k \<and> active rq'
        \<and> dget (wc_states ?c) k = Some (rq_auth rq')"
      using rq' by (auto simp: sts)
  qed
  moreover have "requests_ok {} ?c (R(f \<mapsto> rq\<lparr>rq_stage := Done out\<rparr>)) lg"
  proof -
    have old: "(g \<notin> X \<longrightarrow> active q \<longrightarrow> dget (wc_futures c) (rq_echo q) = Some g \<or> wc_future c g \<noteq> Waiting)
        \<and> (\<not> active q \<longrightarrow> wc_future c g \<noteq> Waiting \<and> rq_stage q \<noteq> Done Not_sent)
        \<and> (\<forall>e. wc_future c g = Result e \<or> rq_stage q = Done (Responded e) \<longrightarrow> answers q e lg)" if "R g = Some q" for g q
      using assms(1) that by (auto simp: sys_ok_def requests_ok_def)
    have answers_stage: "answers (rq\<lparr>rq_stage := x\<rparr>) e lg = answers rq e lg" for x e by (simp add: answers_def)
    have "rq_echo q \<noteq> rq_echo rq" if "R g = Some q" "g \<noteq> f" for g q
      using assms(1,3) that unfolding sys_ok_def echoes_ok_def by blast
    then have "dget (wc_futures ?c) (rq_echo q) = dget (wc_futures c) (rq_echo q)" if "R g = Some q" "g \<noteq> f" for g q
      using that by (simp add: futs)
    note others = this
    show ?thesis
      unfolding requests_ok_def
    proof (intro allI impI)
      fix g q
      assume g: "(R(f \<mapsto> rq\<lparr>rq_stage := Done out\<rparr>)) g = Some q"
      show "(g \<notin> {} \<longrightarrow> active q \<longrightarrow> dget (wc_futures ?c) (rq_echo q) = Some g \<or> wc_future ?c g \<noteq> Waiting)
          \<and> (\<not> active q \<longrightarrow> wc_future ?c g \<noteq> Waiting \<and> rq_stage q \<noteq> Done Not_sent)
          \<and> (\<forall>e. wc_future ?c g = Result e \<or> rq_stage q = Done (Responded e) \<longrightarrow> answers q e lg)"
      proof (cases "g = f")
        case True
        then have q: "q = rq\<lparr>rq_stage := Done out\<rparr>" using g by simp
        have "answers rq e lg" if "wc_future c f = Result e" for e using old [OF assms(3)] that by blast
        then show ?thesis using True assms(4,5) by (auto simp: q fut answers_stage active_def split: if_splits)
      next
        case False
        then have R: "R g = Some q" and "g \<notin> X" using g assms(2) by auto
        moreover have "wc_future ?c g = wc_future c g" using False by (simp add: fut)
        ultimately show ?thesis unfolding others [OF R False] using old [OF R] by metis
      qed
    qed
  qed
  moreover have "echoes_ok (R(f \<mapsto> rq\<lparr>rq_stage := Done out\<rparr>))"
  proof -
    have "rq_echo q = rq_echo q' \<Longrightarrow> g = h" if "R g = Some q" "R h = Some q'" for g h q q'
      using assms(1) that unfolding sys_ok_def echoes_ok_def by blast
    then show ?thesis using assms(3) unfolding echoes_ok_def by (auto split: if_splits)
  qed
  ultimately show ?thesis by (simp add: sys_ok_def)
qed

lemma sys_ok_claim:
  assumes "sys_ok {} c R lg" "R f = None" "\<forall>g rq. R g = Some rq \<longrightarrow> rq_echo rq \<noteq> echo" "claim_action target echo f c = (True, c')"
  shows "sys_ok {} c' (R(f \<mapsto> \<lparr>rq_echo = echo, rq_ws = fst target, rq_auth = snd target, rq_stage = Sending\<rparr>)) lg"
proof -
  let ?R = "R(f \<mapsto> \<lparr>rq_echo = echo, rq_ws = fst target, rq_auth = snd target, rq_stage = Sending\<rparr>)"
  have c': "c' = (set_future f Waiting c)\<lparr>wc_futures := dset echo f (wc_futures c), wc_states := dset echo (snd target) (wc_states c)\<rparr>"
    using assms(4) by (auto simp: claim_action_def Let_def set_future_def split: if_splits)
  have futs: "dget (wc_futures c') k = (if k = echo then Some f else dget (wc_futures c) k)"
    and sts: "dget (wc_states c') k = (if k = echo then Some (snd target) else dget (wc_states c) k)" for k
    by (simp_all add: c')
  have fut: "wc_future c' = (wc_future c)(f := Waiting)" by (simp add: c' set_future_def)
  have "tables_ok c'"
    using assms(1) dict_ok_dset by (auto simp: sys_ok_def tables_ok_def c' set_future_def simp del: map_of_eq_Some_iff)
  moreover have "entries_ok c' ?R"
    using assms(1,2) unfolding sys_ok_def entries_ok_def futs sts by (fastforce simp: active_def simp del: map_of_eq_Some_iff)
  moreover have "requests_ok {} c' ?R lg"
    unfolding requests_ok_def
  proof (intro allI impI)
    fix g q
    assume g: "?R g = Some q"
    show "(g \<notin> {} \<longrightarrow> active q \<longrightarrow> dget (wc_futures c') (rq_echo q) = Some g \<or> wc_future c' g \<noteq> Waiting)
        \<and> (\<not> active q \<longrightarrow> wc_future c' g \<noteq> Waiting \<and> rq_stage q \<noteq> Done Not_sent)
        \<and> (\<forall>e. wc_future c' g = Result e \<or> rq_stage q = Done (Responded e) \<longrightarrow> answers q e lg)"
    proof (cases "g = f")
      case True
      with g show ?thesis by (auto simp: futs fut active_def)
    next
      case False
      then have R: "R g = Some q" using g by simp
      moreover have "rq_echo q \<noteq> echo" using assms(3) R by blast
      ultimately show ?thesis using assms(1) False unfolding sys_ok_def requests_ok_def futs fut by simp
    qed
  qed
  moreover have "echoes_ok ?R"
    using assms(1,3) unfolding sys_ok_def echoes_ok_def by (auto split: if_splits)
  ultimately show ?thesis by (simp add: sys_ok_def)
qed

lemma answers_mono: "answers rq e lg \<Longrightarrow> answers rq e (x # lg)"
  by (simp add: answers_def)

lemma sys_ok_log: "sys_ok X c R lg \<Longrightarrow> sys_ok X c R (x # lg)"
  unfolding sys_ok_def requests_ok_def using answers_mono by blast

lemma sys_ok_receive:
  assumes "sys_ok {} c R lg" "resolve_action_response e (Some a) c = (b, c')"
  shows "sys_ok {} c' R ((e, a, wc_auth c) # lg)"
proof (cases "c' = c")
  case True
  then show ?thesis using sys_ok_log assms(1) by simp
next
  case False
  then obtain echo f where r: "is_action_response e" "dget e (U ''echo'') = Some (VStr echo)" "a = wc_auth c"
    "dget (wc_futures c) echo = Some f" "dget (wc_states c) echo = Some a" "c' = set_future f (Result e) c"
    using assms(2) by (auto simp: resolve_action_response_def simp del: U_simps map_of_eq_Some_iff split: if_splits option.splits pyval.splits)
  then obtain rq where rq: "R f = Some rq" "rq_echo rq = echo" "rq_auth rq = a"
    using assms(1) unfolding sys_ok_def entries_ok_def by fastforce
  have "answers rq e ((e, a, wc_auth c) # lg)" using r rq by (simp add: answers_def del: U_simps)
  then have "requests_ok {} c' R ((e, a, wc_auth c) # lg)"
    using sys_ok_log [OF assms(1), of "(e, a, wc_auth c)"] rq(1)
    unfolding sys_ok_def requests_ok_def r(6) set_future_def by (simp del: map_of_eq_Some_iff)
  then show ?thesis
    using assms(1) by (simp add: sys_ok_def tables_ok_def entries_ok_def r(6) set_future_def del: map_of_eq_Some_iff)
qed

lemma sys_ok_send_failed:
  assumes "sys_ok {} c R lg"
  shows "sys_ok {f} (send_failed ws auth f c) R lg"
proof -
  have "sys_ok {} (if wc_ws c = Some ws then c\<lparr>wc_ws := None\<rparr> else c) R lg" using sys_ok_cong [OF assms] by simp
  from sys_ok_fail_pending [OF this, of "Some f"] show ?thesis by (simp add: send_failed_def)
qed

lemma sys_ok_resume:
  assumes "sys_ok {} c R lg" "R f = Some rq" "resume_request rq f w c = Some (stage, c')"
  shows "sys_ok {} c' (R(f \<mapsto> rq\<lparr>rq_stage := stage\<rparr>)) lg"
proof (cases "stage = Sent_off")
  case True
  then have "rq_stage rq = Sending" "c' = c"
    using assms(3) by (auto simp: resume_request_def Let_def split: stage.splits wakeup.splits future.splits if_splits)
  have R: "(active q \<longrightarrow> dget (wc_futures c) (rq_echo q) = Some g \<or> wc_future c g \<noteq> Waiting)
      \<and> (\<not> active q \<longrightarrow> wc_future c g \<noteq> Waiting \<and> rq_stage q \<noteq> Done Not_sent)
      \<and> (\<forall>e. wc_future c g = Result e \<or> rq_stage q = Done (Responded e) \<longrightarrow> answers q e lg)" if "R g = Some q" for g q
    using assms(1) that by (auto simp: sys_ok_def requests_ok_def simp del: map_of_eq_Some_iff)
  have "answers (rq\<lparr>rq_stage := x\<rparr>) e lg = answers rq e lg" for x e by (simp add: answers_def)
  then have "requests_ok {} c (R(f \<mapsto> rq\<lparr>rq_stage := stage\<rparr>)) lg"
    using R R [OF assms(2)] \<open>rq_stage rq = Sending\<close> True unfolding requests_ok_def by (simp add: active_def del: map_of_eq_Some_iff)
  moreover have "entries_ok c (R(f \<mapsto> rq\<lparr>rq_stage := stage\<rparr>))"
    using assms(1,2) True unfolding sys_ok_def entries_ok_def by (fastforce simp: active_def simp del: map_of_eq_Some_iff)
  moreover have "echoes_ok (R(f \<mapsto> rq\<lparr>rq_stage := stage\<rparr>))"
    using assms(1,2) unfolding sys_ok_def echoes_ok_def by (auto split: if_splits)
  ultimately show ?thesis using assms(1) \<open>c' = c\<close> by (simp add: sys_ok_def)
next
  case False
  have result: "answers rq e lg" if "wc_future c f = Result e" for e
    using assms(1,2) that unfolding sys_ok_def requests_ok_def by blast
  note failed = sys_ok_finish [OF sys_ok_send_failed [OF assms(1)] subset_refl assms(2)]
  note ended = sys_ok_finish [OF assms(1) empty_subsetI assms(2)]
  from assms(3) False show ?thesis
    by (auto simp: resume_request_def Let_def split: stage.splits wakeup.splits future.splits if_splits intro!: failed ended dest: result)
qed

lemma ws_reach_ok: "ws_reach s \<Longrightarrow> sys_ok {} (sy_client s) (sy_requests s) (sy_received s)"
proof (induction rule: ws_reach.induct)
  case (ws_start uri token trusted)
  show ?case by (simp add: sys_ok_def tables_ok_def entries_ok_def requests_ok_def echoes_ok_def new_client_def)
next
  case (ws_next s s')
  note ok = ws_next.IH
  note fail = sys_ok_fail_pending [OF ok, of None, simplified]
  note same = sys_ok_cong [OF ok]
  from ws_next.hyps(2) show ?case
  proof cases
    case (w_claim f echo target c)
    show ?thesis using sys_ok_claim [OF ok w_claim(2,3,5)] by (simp add: w_claim(1) del: fun_upd_apply)
  next
    case (w_refused f target echo c)
    have c: "c = set_future f Waiting (sy_client s)" using w_refused(3) by (auto simp: claim_action_def Let_def split: if_splits)
    have "dget (wc_futures (sy_client s)) echo \<noteq> Some f" for echo
      using ok w_refused(2) unfolding sys_ok_def entries_ok_def by fastforce
    then have fin: "finish_action echo f c = set_future f Dropped (set_future f Waiting (sy_client s))"
      by (simp add: finish_action_def c set_future_def Let_def del: map_of_eq_Some_iff)
    have "requests_ok {} (finish_action echo f c) (sy_requests s) (sy_received s)"
      using ok w_refused(2) unfolding sys_ok_def requests_ok_def fin set_future_def by (simp del: map_of_eq_Some_iff)
    then show ?thesis
      using ok w_refused(1) unfolding sys_ok_def by (simp add: fin set_future_def tables_ok_def entries_ok_def del: map_of_eq_Some_iff)
  next
    case (w_resume f rq w stage c)
    show ?thesis using sys_ok_resume [OF ok w_resume(2,3)] by (simp add: w_resume(1) del: fun_upd_apply)
  next
    case w_receive
    then show ?thesis using sys_ok_receive [OF ok] by simp
  next
    case w_update
    then show ?thesis using same by (auto simp: update_auth_def Let_def split: if_splits)
  next
    case w_publish
    then show ?thesis using same by (auto simp: publish_connection_def split: if_splits)
  qed (use fail same ok in \<open>auto simp: on_client_def invalidate_previous_def listener_closed_def stop_pending_def rotation_without_loop_def
      forget_socket_def clear_connection_def\<close>)
qed

section \<open>What callers can rely on\<close>

lemma claim_trusted_current:
  "claim_action target echo f c = (True, c') \<Longrightarrow> wc_ws c = Some (fst target) \<and> wc_auth c = snd target"
  by (auto simp: claim_action_def Let_def split: if_splits)



section \<open>A sample\<close>

definition sample_auth :: endpoint_auth where
  "sample_auth = \<lparr>ea_endpoint = [1], ea_token = [2], ea_generation = 0, ea_trusted = True\<rparr>"

definition sample_reply :: event where
  "sample_reply = [(U ''status'', VStr (U ''ok'')), (U ''echo'', VStr [5])]"

definition sample_request :: "stage \<Rightarrow> request" where
  "sample_request st = \<lparr>rq_echo = [5], rq_ws = 7, rq_auth = sample_auth, rq_stage = st\<rparr>"

text \<open>A connection is published, a request sent, its response received, and the caller resumed.\<close>

lemma sample_run_reaches:
  "\<exists>s. ws_reach s \<and> sy_requests s 0 = Some (sample_request (Done (Responded sample_reply)))
     \<and> sy_received s = [(sample_reply, sample_auth, sample_auth)]"
proof -
  let ?s0 = "\<lparr>sy_client = new_client [1] [2] True, sy_requests = (\<lambda>_. None), sy_received = []\<rparr>"
  let ?c1 = "(new_client [1] [2] True)\<lparr>wc_ws := Some 7, wc_generation := Some 0\<rparr>"
  let ?c2 = "(set_future 0 Waiting ?c1)\<lparr>wc_futures := [([5], 0)], wc_states := [([5], sample_auth)]\<rparr>"
  let ?c3 = "set_future 0 (Result sample_reply) ?c2"
  let ?c4 = "finish_action [5] 0 ?c3"
  let ?R = "\<lambda>st. (\<lambda>_. None)(0 \<mapsto> sample_request st)"
  have "ws_reach ?s0" by (rule ws_start)
  moreover have "publish_connection 7 sample_auth (sy_client ?s0) = (True, ?c1)"
    by (simp add: publish_connection_def new_client_def sample_auth_def)
  ultimately have 1: "ws_reach (?s0\<lparr>sy_client := ?c1\<rparr>)" using ws_next w_publish by blast
  have "claim_action (7, sample_auth) [5] 0 ?c1 = (True, ?c2)"
    by (simp add: claim_action_def new_client_def sample_auth_def set_future_def Let_def)
  then have "ws_step (?s0\<lparr>sy_client := ?c1\<rparr>) \<lparr>sy_client = ?c2, sy_requests = ?R Sending, sy_received = []\<rparr>"
    using w_claim [of "?s0\<lparr>sy_client := ?c1\<rparr>" 0 "[5]" "(7, sample_auth)" ?c2] by (simp add: sample_auth_def sample_request_def)
  with 1 have 2: "ws_reach \<lparr>sy_client = ?c2, sy_requests = ?R Sending, sy_received = []\<rparr>" by (rule ws_next)
  have "ws_step \<lparr>sy_client = ?c2, sy_requests = ?R Sending, sy_received = []\<rparr> \<lparr>sy_client = ?c2, sy_requests = ?R Sent_off, sy_received = []\<rparr>"
    using w_resume [of "\<lparr>sy_client = ?c2, sy_requests = ?R Sending, sy_received = []\<rparr>" 0 "sample_request Sending" Send_done Sent_off ?c2]
    by (simp add: resume_request_def sample_request_def)
  with 2 have 3: "ws_reach \<lparr>sy_client = ?c2, sy_requests = ?R Sent_off, sy_received = []\<rparr>" by (rule ws_next)
  have "resolve_action_response sample_reply (Some sample_auth) ?c2 = (True, ?c3)"
    by (simp add: resolve_action_response_def is_action_response_def sample_reply_def new_client_def sample_auth_def set_future_def)
  moreover have "wc_auth ?c2 = sample_auth" by (simp add: new_client_def sample_auth_def set_future_def)
  ultimately have "ws_step \<lparr>sy_client = ?c2, sy_requests = ?R Sent_off, sy_received = []\<rparr>
      \<lparr>sy_client = ?c3, sy_requests = ?R Sent_off, sy_received = [(sample_reply, sample_auth, sample_auth)]\<rparr>"
    using w_receive [of sample_reply sample_auth "\<lparr>sy_client = ?c2, sy_requests = ?R Sent_off, sy_received = []\<rparr>" True ?c3] by simp
  with 3 have 4: "ws_reach \<lparr>sy_client = ?c3, sy_requests = ?R Sent_off, sy_received = [(sample_reply, sample_auth, sample_auth)]\<rparr>"
    by (rule ws_next)
  have "resume_request (sample_request Sent_off) 0 Woken ?c3 = Some (Done (Responded sample_reply), ?c4)"
    by (simp add: resume_request_def sample_request_def set_future_def)
  then have "ws_step \<lparr>sy_client = ?c3, sy_requests = ?R Sent_off, sy_received = [(sample_reply, sample_auth, sample_auth)]\<rparr>
      \<lparr>sy_client = ?c4, sy_requests = ?R (Done (Responded sample_reply)), sy_received = [(sample_reply, sample_auth, sample_auth)]\<rparr>"
    using w_resume [of "\<lparr>sy_client = ?c3, sy_requests = ?R Sent_off, sy_received = [(sample_reply, sample_auth, sample_auth)]\<rparr>" 0
        "sample_request Sent_off" Woken "Done (Responded sample_reply)" ?c4]
    by (simp add: sample_request_def)
  with 4 have "ws_reach \<lparr>sy_client = ?c4, sy_requests = ?R (Done (Responded sample_reply)),
      sy_received = [(sample_reply, sample_auth, sample_auth)]\<rparr>"
    by (rule ws_next)
  then show ?thesis by (intro exI conjI) auto
qed



end
