(* ===== verification/Spec2Isabelle.thy ===== *)
theory Spec2Isabelle
  imports Session_System Args Delivery Sync_Broker Dispatcher_Flow Chime_Outbox File_Cache Json_Loads Bounded_Xml Safe_Http Image_Validation Onebot_Actions
begin

text \<open>
  A verification library for the core of the XiaoQing bot framework (\<^verbatim>\<open>core/\<close> and \<^verbatim>\<open>plugins/chime\<close>).

  \<^bold>\<open>The program.\<close> XiaoQing receives chat events from a OneBot service, decides which part of the bot answers
  them, runs the handlers of plugins under limits, and sends their answers back. An event goes through
  these parts, each with the theory that models it:

  \<^item> \<^verbatim>\<open>core/dispatcher.py\<close>: admission of events through an adjustable semaphore (\<^verbatim>\<open>Admission\<close>); the mute table, the
    parser of events and the flow from event to answer (\<^verbatim>\<open>Dispatcher\<close>, \<^verbatim>\<open>Dispatcher_Flow\<close>).
  \<^item> \<^verbatim>\<open>core/message.py\<close> and \<^verbatim>\<open>core/plugin_base.py\<close>: message segments, recognition of commands, splitting of long
    answers (\<^verbatim>\<open>Messages\<close>). \<^verbatim>\<open>core/args.py\<close>: tokenizing and parsing of arguments (\<^verbatim>\<open>Args\<close>).
  \<^item> \<^verbatim>\<open>core/interfaces.py\<close>, \<^verbatim>\<open>core/app_identity.py\<close>, \<^verbatim>\<open>core/auth.py\<close>, \<^verbatim>\<open>core/app_support.py\<close>: who the sender is and
    what it may do (\<^verbatim>\<open>Principal\<close>).
  \<^item> \<^verbatim>\<open>core/router.py\<close>: the catalog of commands with its permission check (\<^verbatim>\<open>Command_Catalog\<close>) and the index
    from texts to commands (\<^verbatim>\<open>Router\<close>).
  \<^item> \<^verbatim>\<open>core/session.py\<close>: multi-step conversations. The clone of session data over an object store
    (\<^verbatim>\<open>Session_Data\<close>), the session object (\<^verbatim>\<open>Session\<close>), the operations of the manager (\<^verbatim>\<open>Session_Manager\<close>), and
    the manager under concurrent tasks (\<^verbatim>\<open>Session_System\<close>) with the lock pool of
    \<^verbatim>\<open>core/async_keyed_lock.py\<close> (\<^verbatim>\<open>Keyed_Lock\<close>).
  \<^item> \<^verbatim>\<open>core/plugin_execution.py\<close>: limits read from configuration (\<^verbatim>\<open>Exec_Policy\<close>), the gate of one plugin with
    queue, circuit breaker and quarantine (\<^verbatim>\<open>Exec_Gate\<close>), and the shared pool of worker threads for
    synchronous callbacks (\<^verbatim>\<open>Sync_Broker\<close>).
  \<^item> \<^verbatim>\<open>core/delivery.py\<close>, \<^verbatim>\<open>core/app_delivery.py\<close>: receipts of a reply and the loop that sends its pieces
    (\<^verbatim>\<open>Delivery\<close>).
  \<^item> \<^verbatim>\<open>core/atomic_store.py\<close>: files that survive failures and loss of power (\<^verbatim>\<open>Atomic_Store\<close>);
    \<^verbatim>\<open>core/bounded_file_cache.py\<close>: a cache of files (\<^verbatim>\<open>File_Cache\<close>); \<^verbatim>\<open>core/durable_fanout.py\<close>: an outbox of
    notifications (\<^verbatim>\<open>Durable_Fanout\<close>) and the plugin that uses it, \<^verbatim>\<open>plugins/chime/main.py\<close> (\<^verbatim>\<open>Chime_Outbox\<close>).
  \<^item> \<^verbatim>\<open>core/bounded_http.py\<close>: what comes from outside. The preflight scan and the check of JSON values
    (\<^verbatim>\<open>Bounded_Json\<close>), the parser between them and the decoding of the bytes (\<^verbatim>\<open>Json_Loads\<close>), the check of XML
    (\<^verbatim>\<open>Bounded_Xml\<close>), headers, the decoder of bodies, redirects and the two clients (\<^verbatim>\<open>Bounded_Http\<close>).
  \<^item> \<^verbatim>\<open>core/safe_http.py\<close>: requests to URLs a user controls. Addresses (\<^verbatim>\<open>Ip_Address\<close>); the check of a URL, pinned
    resolution and redirects (\<^verbatim>\<open>Safe_Http\<close>). \<^verbatim>\<open>core/image_validation.py\<close>: images from outside and from files
    (\<^verbatim>\<open>Image_Validation\<close>).
  \<^item> \<^verbatim>\<open>core/onebot.py\<close>: actions sent over the WebSocket of OneBot, with the responses that settle them and the
    rotation of credentials meanwhile (\<^verbatim>\<open>Onebot_Actions\<close>).

  \<^bold>\<open>How code becomes definitions.\<close> A Python string is a list of code points (\<open>ustr\<close>), a dictionary an association
  list in insertion order, a value of unknown type a \<open>pyval\<close>; a call that raises is \<open>Inl\<close> of the error
  (\<^verbatim>\<open>Prelude\<close>, \<^verbatim>\<open>Py_Values\<close>). An operation of an object takes its state and returns the new one. An \<^verbatim>\<open>async\<close>
  function or a thread is cut where it may be suspended or overtaken: every piece between two such points is a
  definition, and a step relation or a list of operations lets any number of calls interleave. The clock, fresh
  identities and the answers of the outside world are arguments, so that a theorem holds for all of them.
  Two parts have a language of their own: the dispatcher (\<open>'a disp\<close>: state, error and the list of acts it set
  in motion) and the file system (\<open>'a io\<close>: each system call consumes a reply, which may be success, an error, or the
  loss of power; \<open>io_spec\<close> has a postcondition for each of the three ways to end).

  \<^bold>\<open>Interfaces.\<close> \<^verbatim>\<open>Admission\<close> states the contract of a pool of slots (locale \<open>slots\<close>), which the semaphore of
  the dispatcher and the gate of a plugin fulfil; \<^verbatim>\<open>Keyed_Lock\<close> states what mutual exclusion by key is (locale
  \<open>exclusion\<close>), which the asynchronous pool and the path locks of the store fulfil; \<^verbatim>\<open>Delivery\<close> states what a
  sender owes the receipt of a reply (\<open>reply_sender\<close>) and \<^verbatim>\<open>Prelude\<close> what a table is (\<open>table\<close>). Each locale is
  interpreted where its provider is defined.

  \<^bold>\<open>What the lemmas show.\<close>
  \<^item> Sessions: the clone denotes the same tree, shares nothing, is bounded; a successful transaction started from
    the session that is still stored and publishes one version more, a failed one changes nothing, and no callback
    reaches the data of another.
  \<^item> Execution: capacity is never exceeded under any schedule with resizing and cancellation; no caller waits
    beside a free slot; a job of the broker runs and is answered at most once; one plugin cannot take all workers; the
    dispatching loop ends.
  \<^item> Decisions: a user gets no more than its verified authority; subcommands are never more open than their command;
    the index of the router equals the search by priority and longest trigger; what an event may set in motion is
    confined by the gate of the group, the mute, and the permissions.
  \<^item> Delivery: at most one callback of a receipt runs, once; splitting of messages loses nothing.
  \<^item> Durability: after a failure or loss of power anywhere a reader finds the old value or the new one; the outbox
    loses at most the last acknowledgement, hence repeats at most one message; the baseline never moves back.
  \<^item> Responses: documents of JSON and XML are accepted exactly when they are within the limits, and JSON is read as
    the value it denotes; a body is what was sent and its size is bounded before it is kept; credentials stay with
    the origin they were given for; a request a user caused reaches only public addresses, those that were checked
    for this very connection, whatever the name service answers from one question to the next. The check of PNG
    accepts exactly what the format writes; an image read from a path is one unchanged regular file, whatever
    happens to the path.
  \<^item> Actions: the response a caller gets is the one to its own request, over the connection the request was committed
    to, while the credentials of that connection were in force; nobody waits for a response that cannot come any
    more.

  \<^bold>\<open>Bounds and fuel.\<close> Loops are recursions with a measure (the bytes left, the work in the queues, the entries of
  the cache, the hops a request may still take). Only the parser of JSON has fuel (\<open>json_fuel\<close>), more than the text
  is long; \<open>json_fuel_enough\<close> shows that every call consumes text, so that it is never the fuel that ends a
  parse. The clone of session data recurses on nodes left, which is a limit of the source itself
  (\<open>max_session_data_nodes\<close>). Real numbers stand for finite floats where the code only adds and compares; \<open>pyfloat\<close>
  adds the infinities and the not-a-number where it checks for them. Python integers are unbounded.

  \<^bold>\<open>Not modelled, and why.\<close> The services around sockets, processes and the scheduler (\<^verbatim>\<open>server\<close>, the rest of
  \<^verbatim>\<open>onebot\<close>, \<^verbatim>\<open>process_tree\<close>, \<^verbatim>\<open>scheduler\<close>) are mostly calls of aiohttp, websockets, APScheduler and the
  operating system; \<^verbatim>\<open>plugin_generation\<close> patches the import system of the interpreter; \<^verbatim>\<open>models\<close> declares
  schemas for pydantic; the other plugins talk to services of their own. Tables of Unicode (case folding, character
  classes above ASCII) and the text of numbers are arguments, as is the encoding of JSON in the store. The clients of
  HTTP take the splitting and joining of URLs, zlib, expat, IPv6 with the registry of global addresses, the name
  service and the servers as arguments, the check of images what Pillow reports; what the theorems need of them is a
  hypothesis, where they need anything. The timeout of a live socket and the text of a URL for logs are left out.
  The reconciliation of ingress, the application of configurations and the lifecycle order asyncio tasks of those
  services; their steps have no meaning without them.
\<close>

end
